(* ===== verification/Prelude.thy ===== *)
theory Prelude
  imports Main "HOL-Library.Word"
begin

text \<open>
  Shared vocabulary of the development: the error values of the kernel model, the sum monad
  in which every kernel routine is written with explicit state passing, the machine
  integers of C with their wrap-around written out, and byte arrays with the little-endian
  fields that the on-disk structures overlay on them.

  Three collections carry the component proofs: \<open>bindE_iff\<close> opens a successful run into its
  steps, \<open>le_simps\<close> reads back fields of byte arrays, \<open>cint_simps\<close> reduces C integer arithmetic.
\<close>

named_theorems bindE_iff "a successful run of a sequence is a successful run of each step"
named_theorems le_simps "reading little-endian fields after writing them"
named_theorems cint_simps "C integer arithmetic whose operands are in range"

section \<open>Results of kernel routines\<close>

text \<open>
  A routine either returns, or panics with the message of the source, or blocks: \<open>Sleep\<close>
  is a call of \<^verbatim>\<open>sleep\<close> in a run where no other process can make the awaited condition
  true. \<open>Undef\<close> marks a step whose behaviour C leaves undefined (a store outside an object);
  \<open>Fuel\<close> marks a recursion of the source that the model cuts off because nothing in the source bounds it: page tables
  deeper than three levels in \<^verbatim>\<open>freewalk\<close>, and links inside links in \<^verbatim>\<open>namex\<close>.
\<close>

datatype kerr = Panic string | Sleep string | Undef string | Fuel

type_synonym 'a kres = "kerr + 'a"

definition bindE :: "'e + 'a \<Rightarrow> ('a \<Rightarrow> 'e + 'b) \<Rightarrow> 'e + 'b" where
  "bindE m f = (case m of Inl e \<Rightarrow> Inl e | Inr x \<Rightarrow> f x)"

lemma bindE_Inl [simp]: "bindE (Inl e) f = Inl e"
  by (simp add: bindE_def)

lemma bindE_Inr [simp]: "bindE (Inr x) f = f x"
  by (simp add: bindE_def)

lemma bindE_eq_Inr [bindE_iff]: "bindE m f = Inr y \<longleftrightarrow> (\<exists>x. m = Inr x \<and> f x = Inr y)"
  by (cases m) simp_all

lemma bindE_eq_Inl [bindE_iff]:
  "bindE m f = Inl e \<longleftrightarrow> m = Inl e \<or> (\<exists>x. m = Inr x \<and> f x = Inl e)"
  by (cases m) simp_all

lemma bindE_assoc: "bindE (bindE m f) g = bindE m (\<lambda>x. bindE (f x) g)"
  by (cases m) simp_all

lemma bindE_cong [fundef_cong]:
  assumes "m = m'" and "\<And>x. m' = Inr x \<Longrightarrow> f x = f' x"
  shows "bindE m f = bindE m' f'"
  using assms by (cases m') simp_all

text \<open>\<open>returns m Q\<close>: the run returns, and its result satisfies \<open>Q\<close>.\<close>

definition returns :: "'a kres \<Rightarrow> ('a \<Rightarrow> bool) \<Rightarrow> bool" where
  "returns m Q = (case m of Inl e \<Rightarrow> False | Inr x \<Rightarrow> Q x)"

lemma returns_simps [simp]:
  "\<not> returns (Inl e) Q"
  "returns (Inr x) Q = Q x"
  "returns (bindE m f) Q = returns m (\<lambda>x. returns (f x) Q)"
  by (cases m; simp add: returns_def)+

lemma returns_iff: "returns m Q \<longleftrightarrow> (\<exists>x. m = Inr x \<and> Q x)"
  by (cases m) simp_all

lemma returnsI: "m = Inr x \<Longrightarrow> Q x \<Longrightarrow> returns m Q"
  by simp

lemma returns_mono:
  assumes "returns m P" and "\<And>x. m = Inr x \<Longrightarrow> P x \<Longrightarrow> Q x"
  shows "returns m Q"
  using assms by (cases m) simp_all

text \<open>A counting loop whose body may fail, and its invariant rule.\<close>

primrec foldE :: "('i \<Rightarrow> 's \<Rightarrow> 's kres) \<Rightarrow> 'i list \<Rightarrow> 's \<Rightarrow> 's kres" where
  "foldE f [] s = Inr s"
| "foldE f (x # xs) s = bindE (f x s) (foldE f xs)"

lemma foldE_append: "foldE f (xs @ ys) = (\<lambda>s. bindE (foldE f xs s) (foldE f ys))"
  by (induction xs) (simp_all add: bindE_assoc)

lemma foldE_returns:
  assumes "I [] s"
    and "\<And>us x vs s. xs = us @ x # vs \<Longrightarrow> I us s \<Longrightarrow> returns (f x s) (I (us @ [x]))"
  shows "returns (foldE f xs s) (I xs)"
proof -
  have "us @ vs = xs \<Longrightarrow> I us s \<Longrightarrow> returns (foldE f vs s) (I xs)" for us vs s
  proof (induction vs arbitrary: us s)
    case Nil
    then show ?case by simp
  next
    case (Cons v vs)
    from assms(2) [of us v vs s] Cons.prems have "returns (f v s) (I (us @ [v]))" by simp
    then show ?case using Cons.IH [of "us @ [v]"] Cons.prems(1) by (auto elim: returns_mono)
  qed
  then show ?thesis using assms(1) by force
qed

section \<open>C integers\<close>

text \<open>
  A \<^verbatim>\<open>uint\<close> is a natural number below \<open>2 ^ 32\<close>, a \<^verbatim>\<open>uint64\<close> one below \<open>2 ^ 64\<close>; the
  operations that can wrap are written with \<open>u32\<close> and \<open>u64\<close>. A \<^verbatim>\<open>short\<close> is an integer stored
  in two bytes.
\<close>

definition u32 :: "nat \<Rightarrow> nat" where
  "u32 n = n mod 4294967296"

definition u64 :: "nat \<Rightarrow> nat" where
  "u64 n = n mod 18446744073709551616"

definition u32_dec :: "nat \<Rightarrow> nat" where
  "u32_dec n = (if n = 0 then 4294967295 else n - 1)"

definition sub64 :: "nat \<Rightarrow> nat \<Rightarrow> nat" where
  "sub64 a b = (if b \<le> a then a - b else 18446744073709551616 - (b - a))"

definition int_of_short :: "nat \<Rightarrow> int" where
  "int_of_short n = (if n < 32768 then int n else int n - 65536)"

definition short_of_int :: "int \<Rightarrow> nat" where
  "short_of_int i = nat (i mod 65536)"

definition int_of_u32 :: "nat \<Rightarrow> int" where
  "int_of_u32 n = (if n < 2147483648 then int n else int n - 4294967296)"

definition u32_of_int :: "int \<Rightarrow> nat" where
  "u32_of_int i = nat (i mod 4294967296)"

lemma u32_less [simp]: "u32 n < 4294967296"
  by (simp add: u32_def)

lemma u32_id [cint_simps]: "n < 4294967296 \<Longrightarrow> u32 n = n"
  by (simp add: u32_def)

lemma u64_id [cint_simps]: "n < 18446744073709551616 \<Longrightarrow> u64 n = n"
  by (simp add: u64_def)

lemma u32_dec_pos [cint_simps]: "0 < n \<Longrightarrow> u32_dec n = n - 1"
  by (simp add: u32_dec_def)

lemma sub64_id [cint_simps]: "b \<le> a \<Longrightarrow> sub64 a b = a - b"
  by (simp add: sub64_def)

lemma short_roundtrip:
  assumes "-32768 \<le> i" and "i < 32768"
  shows "int_of_short (short_of_int i) = i"
proof (cases "0 \<le> i")
  case True
  with assms show ?thesis by (simp add: int_of_short_def short_of_int_def)
next
  case False
  have "(i + 65536) mod 65536 = i + 65536"
    using False assms by (intro mod_pos_pos_trivial) simp_all
  then have "i mod 65536 = i + 65536" by simp
  with False assms show ?thesis by (simp add: int_of_short_def short_of_int_def)
qed

section \<open>Byte arrays\<close>

text \<open>
  A C array of bytes is a function from offsets to bytes; the offsets the code uses are
  bounded by lemmas of the components. Disk blocks, kernel buffers and physical memory are
  all of this type. \<open>get_le d off n\<close> reads the \<open>n\<close>-byte little-endian number that a C
  structure has at byte \<open>off\<close>, \<open>put_le d off n v\<close> stores one.
\<close>

type_synonym byte = "8 word"
type_synonym bytes = "nat \<Rightarrow> byte"

primrec get_le :: "bytes \<Rightarrow> nat \<Rightarrow> nat \<Rightarrow> nat" where
  "get_le d off 0 = 0"
| "get_le d off (Suc n) = unat (d off) + 256 * get_le d (Suc off) n"

primrec put_le :: "bytes \<Rightarrow> nat \<Rightarrow> nat \<Rightarrow> nat \<Rightarrow> bytes" where
  "put_le d off 0 v = d"
| "put_le d off (Suc n) v = put_le (d(off := of_nat v)) (Suc off) n (v div 256)"

lemma put_le_outside [le_simps]: "i < off \<or> off + n \<le> i \<Longrightarrow> put_le d off n v i = d i"
  by (induction n arbitrary: d off v) auto

lemma get_le_cong:
  "(\<And>i. off \<le> i \<Longrightarrow> i < off + n \<Longrightarrow> d i = d' i) \<Longrightarrow> get_le d off n = get_le d' off n"
  by (induction n arbitrary: off) auto

lemma get_le_zero [simp]: "get_le (\<lambda>_. 0) off n = 0"
  by (induction n arbitrary: off) simp_all

lemma get_le_less: "get_le d off n < 256 ^ n"
proof (induction n arbitrary: off)
  case 0
  then show ?case by simp
next
  case (Suc n)
  have "unat (d off) < 256" using unsigned_less [of "d off"] by simp
  moreover have "get_le d (Suc off) n < 256 ^ n" by (rule Suc)
  ultimately show ?case by simp
qed

lemma get_le_less_2 [simp]: "get_le d off 2 < 65536"
  using get_le_less [of d off 2] by simp

lemma get_le_less_4 [simp]: "get_le d off 4 < 4294967296"
  using get_le_less [of d off 4] by simp

lemma get_put_le_mod: "get_le (put_le d off n v) off n = v mod 256 ^ n"
proof (induction n arbitrary: d off v)
  case 0
  then show ?case by simp
next
  case (Suc n)
  have "put_le (d(off := of_nat v)) (Suc off) n (v div 256) off = of_nat v"
    by (simp add: put_le_outside)
  then have "get_le (put_le d off (Suc n) v) off (Suc n)
      = v mod 256 + 256 * (v div 256 mod 256 ^ n)"
    by (simp add: Suc.IH unat_of_nat)
  also have "\<dots> = v mod 256 ^ Suc n"
    by (metis add.commute mod_mult2_eq power_Suc)
  finally show ?case .
qed

lemma get_put_le [le_simps]: "v < 256 ^ n \<Longrightarrow> get_le (put_le d off n v) off n = v"
  by (simp add: get_put_le_mod)

lemma get_put_le_other [le_simps]:
  "off + n \<le> off' \<or> off' + n' \<le> off \<Longrightarrow> get_le (put_le d off n v) off' n' = get_le d off' n'"
  by (rule get_le_cong) (auto simp: put_le_outside)

text \<open>A \<^verbatim>\<open>memmove\<close> between distinct kernel objects, and a \<^verbatim>\<open>memset\<close> of a whole one.\<close>

definition blit :: "bytes \<Rightarrow> nat \<Rightarrow> bytes \<Rightarrow> nat \<Rightarrow> nat \<Rightarrow> bytes" where
  "blit dst doff src soff n =
     (\<lambda>i. if doff \<le> i \<and> i < doff + n then src (soff + (i - doff)) else dst i)"

definition fill_bytes :: "bytes \<Rightarrow> nat \<Rightarrow> byte \<Rightarrow> nat \<Rightarrow> bytes" where
  "fill_bytes d off c n = (\<lambda>i. if off \<le> i \<and> i < off + n then c else d i)"

definition bytes_of_list :: "byte list \<Rightarrow> bytes" where
  "bytes_of_list xs = (\<lambda>i. if i < length xs then xs ! i else 0)"

definition list_of_bytes :: "bytes \<Rightarrow> nat \<Rightarrow> nat \<Rightarrow> byte list" where
  "list_of_bytes d off n = map (\<lambda>i. d (off + i)) [0..<n]"

lemma blit_inside [simp]: "i < n \<Longrightarrow> blit dst doff src soff n (doff + i) = src (soff + i)"
  by (simp add: blit_def)

lemma blit_outside [simp]: "i < doff \<or> doff + n \<le> i \<Longrightarrow> blit dst doff src soff n i = dst i"
  by (auto simp: blit_def)

lemma blit_step:
  assumes "\<And>k. k < n \<Longrightarrow> src' (Suc soff + k) = src (Suc soff + k)"
  shows "blit (dst(doff := src soff)) (Suc doff) src' (Suc soff) n = blit dst doff src soff (Suc n)"
proof (rule ext)
  fix x
  consider "x < doff" | "x = doff" | k where "x = Suc doff + k" "k < n" | "Suc (doff + n) \<le> x"
    by (metis add_Suc le_Suc_ex less_Suc_eq_le nat_add_left_cancel_less not_less_eq_eq
        linorder_neqE_nat Suc_leI not_le)
  then show "blit (dst(doff := src soff)) (Suc doff) src' (Suc soff) n x
      = blit dst doff src soff (Suc n) x"
  proof cases
    case (3 k)
    have "blit dst doff src soff (Suc n) (doff + Suc k) = src (soff + Suc k)"
      using 3 by (intro blit_inside) simp
    moreover have "blit (dst(doff := src soff)) (Suc doff) src' (Suc soff) n (Suc doff + k)
        = src' (Suc soff + k)"
      using 3 by (intro blit_inside)
    ultimately show ?thesis using 3 assms [of k] by simp
  qed (simp_all add: blit_def)
qed

lemma byte_uint_eq_iff [simp]: "uint (a :: byte) = uint b \<longleftrightarrow> a = b"
  by (simp add: word_uint_eq_iff)

lemma length_list_of_bytes [simp]: "length (list_of_bytes d off n) = n"
  by (simp add: list_of_bytes_def)

lemma nth_list_of_bytes [simp]: "i < n \<Longrightarrow> list_of_bytes d off n ! i = d (off + i)"
  by (simp add: list_of_bytes_def)

lemma list_of_bytes_of_list [simp]: "list_of_bytes (bytes_of_list xs) 0 (length xs) = xs"
  by (rule nth_equalityI) (simp_all add: bytes_of_list_def)

lemma list_of_bytes_cong:
  "(\<And>i. i < n \<Longrightarrow> d (off + i) = d' (off' + i)) \<Longrightarrow> list_of_bytes d off n = list_of_bytes d' off' n"
  by (simp add: list_of_bytes_def)

text \<open>C string literals as byte lists (without the terminating NUL).\<close>

definition str :: "string \<Rightarrow> byte list" where
  "str cs = map of_char cs"

end
