(* ===== verification/CStrings.thy ===== *)
theory CStrings
  imports Prelude
begin

text \<open>
  The kernel's string routines (\<^verbatim>\<open>FileSystem-RAID/kernel/string.c\<close>), loop by loop. The
  routines on raw memory (\<^verbatim>\<open>memset\<close>, \<^verbatim>\<open>memcmp\<close>, \<^verbatim>\<open>memmove\<close>) take one memory and
  addresses into it, since \<^verbatim>\<open>memmove\<close> must cope with overlapping operands. The string
  routines take each pointer as an array with an offset. Each loop is shown equal to its
  closed form: \<^verbatim>\<open>memmove\<close> copies the old contents whatever the overlap, \<^verbatim>\<open>strncpy\<close> pads
  with zeros, \<^verbatim>\<open>safestrcpy\<close> always terminates its result, \<^verbatim>\<open>strlen\<close> returns on
  every terminated string.
\<close>

section \<open>Memory routines\<close>

function memset_from :: "bytes \<Rightarrow> nat \<Rightarrow> byte \<Rightarrow> nat \<Rightarrow> nat \<Rightarrow> bytes" where
  "memset_from mem dst c i n =
     (if i < n then memset_from (mem(dst + i := c)) dst c (Suc i) n else mem)"
  by pat_completeness auto
termination
  by (relation "measure (\<lambda>(mem, dst, c, i, n). n - i)") auto

declare memset_from.simps [simp del]

definition memset :: "bytes \<Rightarrow> nat \<Rightarrow> int \<Rightarrow> nat \<Rightarrow> bytes" where
  "memset mem dst c n = memset_from mem dst (of_int c) 0 n"

primrec memcmp :: "bytes \<Rightarrow> nat \<Rightarrow> nat \<Rightarrow> nat \<Rightarrow> int" where
  "memcmp mem s1 s2 0 = 0"
| "memcmp mem s1 s2 (Suc n) =
     (if mem s1 \<noteq> mem s2 then int (unat (mem s1)) - int (unat (mem s2))
      else memcmp mem (Suc s1) (Suc s2) n)"

primrec memmove_down :: "bytes \<Rightarrow> nat \<Rightarrow> nat \<Rightarrow> nat \<Rightarrow> bytes" where
  "memmove_down mem d s 0 = mem"
| "memmove_down mem d s (Suc n) =
     (let s = s - 1; d = d - 1 in memmove_down (mem(d := mem s)) d s n)"

primrec memmove_up :: "bytes \<Rightarrow> nat \<Rightarrow> nat \<Rightarrow> nat \<Rightarrow> bytes" where
  "memmove_up mem d s 0 = mem"
| "memmove_up mem d s (Suc n) = memmove_up (mem(d := mem s)) (Suc d) (Suc s) n"

definition memmove :: "bytes \<Rightarrow> nat \<Rightarrow> nat \<Rightarrow> nat \<Rightarrow> bytes" where
  "memmove mem dst src n =
     (if src < dst \<and> src + n > dst then memmove_down mem (dst + n) (src + n) n
      else memmove_up mem dst src n)"

definition memcpy :: "bytes \<Rightarrow> nat \<Rightarrow> nat \<Rightarrow> nat \<Rightarrow> bytes" where
  "memcpy mem dst src n = memmove mem dst src n"

section \<open>String routines\<close>

text \<open>The comparison of \<^verbatim>\<open>strncmp\<close> is on \<^verbatim>\<open>uchar\<close> values, so its result is a difference of naturals.\<close>

primrec strncmp :: "bytes \<Rightarrow> nat \<Rightarrow> bytes \<Rightarrow> nat \<Rightarrow> nat \<Rightarrow> int" where
  "strncmp p i q j 0 = 0"
| "strncmp p i q j (Suc n) =
     (if p i \<noteq> 0 \<and> p i = q j then strncmp p (Suc i) q (Suc j) n
      else int (unat (p i)) - int (unat (q j)))"

primrec strncpy_pad :: "bytes \<Rightarrow> nat \<Rightarrow> nat \<Rightarrow> bytes" where
  "strncpy_pad s i 0 = s"
| "strncpy_pad s i (Suc n) = strncpy_pad (s(i := 0)) (Suc i) n"

primrec strncpy :: "bytes \<Rightarrow> nat \<Rightarrow> bytes \<Rightarrow> nat \<Rightarrow> nat \<Rightarrow> bytes" where
  "strncpy s i t j 0 = s"
| "strncpy s i t j (Suc n) =
     (if t j \<noteq> 0 then strncpy (s(i := t j)) (Suc i) t (Suc j) n
      else strncpy_pad (s(i := t j)) (Suc i) n)"

primrec safestrcpy_loop :: "bytes \<Rightarrow> nat \<Rightarrow> bytes \<Rightarrow> nat \<Rightarrow> nat \<Rightarrow> bytes \<times> nat" where
  "safestrcpy_loop s i t j 0 = (s, i)"
| "safestrcpy_loop s i t j (Suc n) =
     (if t j \<noteq> 0 then safestrcpy_loop (s(i := t j)) (Suc i) t (Suc j) n
      else (s(i := t j), Suc i))"

definition safestrcpy :: "bytes \<Rightarrow> nat \<Rightarrow> bytes \<Rightarrow> nat \<Rightarrow> int \<Rightarrow> bytes" where
  "safestrcpy s i t j n =
     (if n \<le> 0 then s
      else case safestrcpy_loop s i t j (nat n - 1) of (s', i') \<Rightarrow> s'(i' := 0))"

partial_function (option) strlen_from :: "bytes \<Rightarrow> nat \<Rightarrow> nat \<Rightarrow> nat option" where
  "strlen_from s i n = (if s (i + n) = 0 then Some n else strlen_from s i (Suc n))"

definition strlen :: "bytes \<Rightarrow> nat \<Rightarrow> nat option" where
  "strlen s i = strlen_from s i 0"

section \<open>Correctness of the memory routines\<close>

lemma memset_from_eq:
  "memset_from mem dst c i n = fill_bytes mem (dst + i) c (n - i)"
proof (induction mem dst c i n rule: memset_from.induct)
  case (1 mem dst c i n)
  show ?case
  proof (cases "i < n")
    case True
    then have "memset_from mem dst c i n = fill_bytes (mem(dst + i := c)) (dst + Suc i) c (n - Suc i)"
      by (subst memset_from.simps) (simp only: if_True "1.IH")
    with True show ?thesis by (auto simp: fill_bytes_def)
  next
    case False
    then show ?thesis by (subst memset_from.simps) (auto simp: fill_bytes_def intro!: ext)
  qed
qed

lemma memset_eq: "memset mem dst c n = fill_bytes mem dst (of_int c) n"
  by (simp add: memset_def memset_from_eq)

lemma memcmp_eq_0_iff: "memcmp mem s1 s2 n = 0 \<longleftrightarrow> (\<forall>i<n. mem (s1 + i) = mem (s2 + i))"
proof (induction n arbitrary: s1 s2)
  case 0
  then show ?case by simp
next
  case (Suc n)
  have "(\<forall>i<Suc n. mem (s1 + i) = mem (s2 + i)) \<longleftrightarrow>
      mem s1 = mem s2 \<and> (\<forall>i<n. mem (Suc s1 + i) = mem (Suc s2 + i))"
    by (subst All_less_Suc2) simp
  with Suc.IH [of "Suc s1" "Suc s2"] show ?case by auto
qed

text \<open>
  Copying upwards is right when the destination does not start inside the part of the
  source still to be read, copying downwards when it does not end inside it.
\<close>

lemma memmove_up_eq:
  "d \<le> s \<or> s + n \<le> d \<Longrightarrow> memmove_up mem d s n = blit mem d mem s n"
proof (induction n arbitrary: mem d s)
  case 0
  show ?case by (rule ext) (auto simp: blit_def)
next
  case (Suc n)
  have "memmove_up (mem(d := mem s)) (Suc d) (Suc s) n
      = blit (mem(d := mem s)) (Suc d) (mem(d := mem s)) (Suc s) n"
    using Suc.prems by (intro Suc.IH) auto
  also have "\<dots> = blit mem d mem s (Suc n)"
    using Suc.prems by (intro blit_step) auto
  finally show ?case by simp
qed

lemma memmove_down_eq:
  "s < d \<Longrightarrow> memmove_down mem (d + n) (s + n) n = blit mem d mem s n"
proof (induction n arbitrary: mem)
  case 0
  show ?case by (rule ext) (auto simp: blit_def)
next
  case (Suc n)
  let ?m = "mem(d + n := mem (s + n))"
  have "memmove_down ?m (d + n) (s + n) n = blit ?m d ?m s n"
    using Suc.prems by (rule Suc.IH)
  also have "\<dots> = blit mem d mem s (Suc n)"
    using Suc.prems by (intro ext) (auto simp: blit_def less_Suc_eq)
  finally show ?case by (simp add: Let_def)
qed

lemma memmove_eq_blit: "memmove mem dst src n = blit mem dst mem src n"
  by (auto simp: memmove_def memmove_up_eq memmove_down_eq)

section \<open>Correctness of the string routines\<close>

lemma strncmp_eq_0_iff:
  "strncmp p i q j n = 0 \<longleftrightarrow>
     (\<forall>k<n. (\<forall>l<k. p (i + l) \<noteq> 0) \<longrightarrow> p (i + k) = q (j + k))"
proof (induction n arbitrary: i j)
  case 0
  then show ?case by simp
next
  case (Suc n)
  have "(\<forall>k<Suc n. (\<forall>l<k. p (i + l) \<noteq> 0) \<longrightarrow> p (i + k) = q (j + k)) \<longleftrightarrow>
      p i = q j \<and> (p i \<noteq> 0 \<longrightarrow>
        (\<forall>k<n. (\<forall>l<k. p (Suc i + l) \<noteq> 0) \<longrightarrow> p (Suc i + k) = q (Suc j + k)))"
    by (simp add: All_less_Suc2) blast
  with Suc.IH [of "Suc i" "Suc j"] show ?case
    by (cases "p i \<noteq> 0 \<and> p i = q j") auto
qed

lemma strncpy_pad_eq: "strncpy_pad s i n = fill_bytes s i 0 n"
  by (induction n arbitrary: s i) (auto simp: fill_bytes_def fun_eq_iff)

lemma strncpy_outside: "k < i \<or> i + n \<le> k \<Longrightarrow> strncpy s i t j n k = s k"
  by (induction n arbitrary: s i j) (auto simp: strncpy_pad_eq fill_bytes_def)

lemma strncpy_inside:
  "k < n \<Longrightarrow> strncpy s i t j n (i + k) = (if \<forall>l<k. t (j + l) \<noteq> 0 then t (j + k) else 0)"
proof (induction n arbitrary: s i j k)
  case 0
  then show ?case by simp
next
  case (Suc n)
  show ?case
  proof (cases k)
    case 0
    then show ?thesis by (simp add: strncpy_outside strncpy_pad_eq fill_bytes_def)
  next
    case (Suc k')
    with Suc.prems have "strncpy (s(i := t j)) (Suc i) t (Suc j) n (Suc i + k')
        = (if \<forall>l<k'. t (Suc j + l) \<noteq> 0 then t (Suc j + k') else 0)"
      by (intro Suc.IH) simp
    with Suc Suc.prems show ?thesis
      by (auto simp: strncpy_pad_eq fill_bytes_def All_less_Suc2)
  qed
qed

lemma safestrcpy_loop_long:
  "\<forall>l<n. t (j + l) \<noteq> 0 \<Longrightarrow> safestrcpy_loop s i t j n = (blit s i t j n, i + n)"
proof (induction n arbitrary: s i j)
  case 0
  show ?case by (auto simp: blit_def intro!: ext)
next
  case (Suc n)
  then have "safestrcpy_loop (s(i := t j)) (Suc i) t (Suc j) n
      = (blit (s(i := t j)) (Suc i) t (Suc j) n, Suc i + n)"
    by (intro Suc.IH) (auto simp: All_less_Suc2)
  moreover have "t j \<noteq> 0" using Suc.prems by (auto simp: All_less_Suc2)
  moreover have "blit (s(i := t j)) (Suc i) t (Suc j) n = blit s i t j (Suc n)"
    by (rule blit_step) simp
  ultimately show ?case by simp
qed

lemma safestrcpy_loop_short:
  "k < n \<Longrightarrow> t (j + k) = 0 \<Longrightarrow> \<forall>l<k. t (j + l) \<noteq> 0 \<Longrightarrow>
   safestrcpy_loop s i t j n = (blit s i t j (Suc k), i + Suc k)"
proof (induction n arbitrary: s i j k)
  case 0
  then show ?case by simp
next
  case (Suc n)
  show ?case
  proof (cases k)
    case 0
    with Suc.prems show ?thesis by (auto simp: blit_def intro!: ext)
  next
    case (Suc k')
    with Suc.prems have "safestrcpy_loop (s(i := t j)) (Suc i) t (Suc j) n
        = (blit (s(i := t j)) (Suc i) t (Suc j) (Suc k'), Suc i + Suc k')"
      by (intro Suc.IH) (auto simp: All_less_Suc2)
    moreover have "t j \<noteq> 0" using Suc Suc.prems by (auto simp: All_less_Suc2)
    moreover have "blit (s(i := t j)) (Suc i) t (Suc j) (Suc k') = blit s i t j (Suc (Suc k'))"
      by (rule blit_step) simp
    ultimately show ?thesis using Suc by simp
  qed
qed

lemma first_zero_cases:
  fixes n :: nat
  obtains (none) "\<forall>l<n. t (j + l) \<noteq> (0 :: byte)"
  | (some) k where "k < n" "t (j + k) = 0" "\<forall>l<k. t (j + l) \<noteq> 0"
proof (cases "\<exists>l<n. t (j + l) = 0")
  case True
  then obtain l where l: "l < n" "t (j + l) = 0" by blast
  define k where "k = (LEAST l. t (j + l) = 0)"
  have "t (j + k) = 0" unfolding k_def by (rule LeastI [of "\<lambda>l. t (j + l) = 0", OF l(2)])
  moreover have "k \<le> l" unfolding k_def by (rule Least_le [of "\<lambda>l. t (j + l) = 0", OF l(2)])
  moreover have "\<forall>l<k. t (j + l) \<noteq> 0" unfolding k_def using not_less_Least by blast
  ultimately show ?thesis using l(1) by (intro some [of k]) simp_all
next
  case False
  then show ?thesis using none by blast
qed

text \<open>
  \<^verbatim>\<open>safestrcpy\<close> into an array of \<open>n\<close> bytes leaves a terminated string there whose characters
  are those of the source, cut at \<open>n - 1\<close>, and touches nothing outside.
\<close>

lemma safestrcpy_terminated:
  assumes "0 < n"
  obtains k where "k < nat n" and "safestrcpy s i t j n (i + k) = 0"
    and "\<forall>l<k. safestrcpy s i t j n (i + l) = t (j + l) \<and> t (j + l) \<noteq> 0"
    and "k = nat n - 1 \<or> t (j + k) = 0"
proof (rule first_zero_cases [where n = "nat n - 1" and t = t and j = j])
  assume "\<forall>l<nat n - 1. t (j + l) \<noteq> 0"
  then have "safestrcpy s i t j n = (blit s i t j (nat n - 1))(i + (nat n - 1) := 0)"
    using assms by (simp add: safestrcpy_def safestrcpy_loop_long)
  with assms \<open>\<forall>l<nat n - 1. t (j + l) \<noteq> 0\<close> show ?thesis
    by (intro that [of "nat n - 1"]) auto
next
  fix k assume k: "k < nat n - 1" "t (j + k) = 0" "\<forall>l<k. t (j + l) \<noteq> 0"
  then have "safestrcpy s i t j n = (blit s i t j (Suc k))(i + Suc k := 0)"
    using assms by (simp add: safestrcpy_def safestrcpy_loop_short)
  with assms k show ?thesis by (intro that [of k]) auto
qed

lemma safestrcpy_outside:
  assumes "k < i \<or> i + nat n \<le> k"
  shows "safestrcpy s i t j n k = s k"
proof (cases "0 < n")
  case True
  show ?thesis
  proof (rule first_zero_cases [where n = "nat n - 1" and t = t and j = j])
    assume "\<forall>l<nat n - 1. t (j + l) \<noteq> 0"
    with assms True show ?thesis by (auto simp: safestrcpy_def safestrcpy_loop_long blit_def)
  next
    fix m assume "m < nat n - 1" "t (j + m) = 0" "\<forall>l<m. t (j + l) \<noteq> 0"
    with assms True show ?thesis by (auto simp: safestrcpy_def safestrcpy_loop_short blit_def)
  qed
qed (simp add: safestrcpy_def)

lemma strlen_from_returns:
  assumes "s (i + n + k) = 0" and "\<forall>l<k. s (i + n + l) \<noteq> 0"
  shows "strlen_from s i n = Some (n + k)"
  using assms
proof (induction k arbitrary: n)
  case 0
  then show ?case by (subst strlen_from.simps) simp
next
  case (Suc k)
  from Suc.prems(2) have nz: "s (i + n) \<noteq> 0" by (metis add_0_right zero_less_Suc)
  have "strlen_from s i (Suc n) = Some (Suc n + k)"
    using Suc.prems by (intro Suc.IH) (auto simp: All_less_Suc2)
  with nz show ?case by (subst strlen_from.simps) simp
qed

lemma strlen_returns:
  "s (i + k) = 0 \<Longrightarrow> \<forall>l<k. s (i + l) \<noteq> 0 \<Longrightarrow> strlen s i = Some k"
  using strlen_from_returns [of s i 0 k] by (simp add: strlen_def)

section \<open>The routines as their callers use them\<close>

lemma strlen_diverges: "(\<And>l. s (i + l) \<noteq> 0) \<Longrightarrow> strlen s i = None"
proof -
  assume nz: "\<And>l. s (i + l) \<noteq> 0"
  have "strlen_from s i n = Some k \<Longrightarrow> s (i + k) = 0" for n k
    by (rule strlen_from.raw_induct [of "\<lambda>s i n k. s (i + k) = 0" s i n k]) (auto split: if_splits)
  with nz show ?thesis unfolding strlen_def by (cases "strlen_from s i 0") auto
qed

text \<open>
  \<^verbatim>\<open>memmove\<close> copies correctly whatever the overlap: whether it runs upwards or downwards, the target area ends
  up with the bytes the source area had before, and nothing outside the target area changes; it is the copy that reads
  everything before it writes.\<close>

theorem memmove_overlapping:
  "memmove mem dst src n = (\<lambda>a. if dst \<le> a \<and> a < dst + n then mem (src + (a - dst)) else mem a)"
  unfolding memmove_eq_blit blit_def by (rule refl)

text \<open>
  \<^verbatim>\<open>strlen\<close> returns exactly on strings that have an end, with the offset of the first NUL; and the string that
  \<^verbatim>\<open>safestrcpy\<close> leaves always has one: its length is below the size passed, it is a prefix of the source that is
  proper only if the source does not fit, and nothing outside the target array changes.\<close>

theorem safestrcpy_strlen_terminates:
  fixes n :: int
  assumes "0 < n"
  shows "(\<exists>k. strlen (safestrcpy s i t j n) i = Some k \<and> k < nat n \<and>
       (\<forall>l<k. safestrcpy s i t j n (i + l) = t (j + l)) \<and> (k < nat n - 1 \<longrightarrow> strlen t j = Some k)) \<and>
     (\<forall>a. a < i \<or> i + nat n \<le> a \<longrightarrow> safestrcpy s i t j n a = s a) \<and>
     (strlen t j = None \<longleftrightarrow> (\<forall>l. t (j + l) \<noteq> 0))"
proof -
  obtain k where k: "k < nat n" "safestrcpy s i t j n (i + k) = 0"
    "\<forall>l<k. safestrcpy s i t j n (i + l) = t (j + l) \<and> t (j + l) \<noteq> 0" "k = nat n - 1 \<or> t (j + k) = 0"
    by (rule safestrcpy_terminated [OF assms])
  have 1: "strlen (safestrcpy s i t j n) i = Some k" by (rule strlen_returns) (use k in auto)
  have 2: "k < nat n - 1 \<longrightarrow> strlen t j = Some k" using k by (auto intro: strlen_returns)
  have 3: "strlen t j = None \<longleftrightarrow> (\<forall>l. t (j + l) \<noteq> 0)"
  proof
    assume none: "strlen t j = None"
    show "\<forall>l. t (j + l) \<noteq> 0"
    proof (rule ccontr, simp)
      assume "\<exists>l. t (j + l) = 0"
      then obtain m where "t (j + m) = 0" by blast
      then show False
        using none by (cases rule: first_zero_cases [where n = "Suc m" and t = t and j = j]) (auto simp: strlen_returns)
    qed
  qed (simp add: strlen_diverges)
  show ?thesis using k(1,3) 1 2 3 safestrcpy_outside [of _ i n s t j] by auto
qed

theorem safestrcpy_strlen_terminates_witness:
  "\<exists>k. strlen (safestrcpy (\<lambda>_. 7) 2 (\<lambda>a. if a < 9 then 65 else 0) 5 8) 2 = Some k \<and> k < 8"
  using safestrcpy_strlen_terminates [of 8 "\<lambda>_. 7" 2 "\<lambda>a. if a < 9 then 65 else 0" 5] by auto

end
