(* ===== verification/ListHead.thy ===== *)
theory ListHead
  imports Prelude
begin

text \<open>
  The circular doubly-linked list of \<^verbatim>\<open>Kernel-Memory/kernel/list.h\<close>, at the level of
  its pointer assignments: a heap gives every node address its \<^verbatim>\<open>next\<close> and \<^verbatim>\<open>prev\<close>
  pointers and each routine performs the assignments of the source in their order.
  The abstraction \<open>dll n p h xs\<close> says that the nodes reached from the head \<open>h\<close> are \<open>xs\<close>, in
  order, and that the \<^verbatim>\<open>prev\<close> pointers run the same circle backwards. Each routine is then
  a list operation: insertion at either end, deletion, splicing, cutting, moving. The same
  predicate describes the LRU list of the buffer cache and the run queue of the thread
  scheduler.
\<close>

section \<open>The heap and the routines of list.h\<close>

record list_head =
  nxt :: "nat \<Rightarrow> nat"
  prv :: "nat \<Rightarrow> nat"

definition set_next :: "nat \<Rightarrow> nat \<Rightarrow> list_head \<Rightarrow> list_head" where
  "set_next a v h = h\<lparr>nxt := (nxt h)(a := v)\<rparr>"

definition set_prev :: "nat \<Rightarrow> nat \<Rightarrow> list_head \<Rightarrow> list_head" where
  "set_prev a v h = h\<lparr>prv := (prv h)(a := v)\<rparr>"

definition INIT_LIST_HEAD :: "nat \<Rightarrow> list_head \<Rightarrow> list_head" where
  "INIT_LIST_HEAD head h =
     (let h = set_next head head h;
          h = set_prev head head h in h)"

definition list_add :: "nat \<Rightarrow> nat \<Rightarrow> list_head \<Rightarrow> list_head" where
  "list_add node head h =
     (let next = nxt h head;
          h = set_prev next node h;
          h = set_next node next h;
          h = set_prev node head h;
          h = set_next head node h in h)"

definition list_add_tail :: "nat \<Rightarrow> nat \<Rightarrow> list_head \<Rightarrow> list_head" where
  "list_add_tail node head h =
     (let prev = prv h head;
          h = set_next prev node h;
          h = set_next node head h;
          h = set_prev node prev h;
          h = set_prev head node h in h)"

definition list_del :: "nat \<Rightarrow> list_head \<Rightarrow> list_head" where
  "list_del node h =
     (let next = nxt h node;
          prev = prv h node;
          h = set_prev next prev h;
          h = set_next prev next h in h)"

definition list_del_init :: "nat \<Rightarrow> list_head \<Rightarrow> list_head" where
  "list_del_init node h = INIT_LIST_HEAD node (list_del node h)"

definition list_empty :: "nat \<Rightarrow> list_head \<Rightarrow> bool" where
  "list_empty head h = (nxt h head = head)"

definition list_is_singular :: "nat \<Rightarrow> list_head \<Rightarrow> bool" where
  "list_is_singular head h = (\<not> list_empty head h \<and> prv h head = nxt h head)"

definition list_splice :: "nat \<Rightarrow> nat \<Rightarrow> list_head \<Rightarrow> list_head" where
  "list_splice list head h =
     (let head_first = nxt h head;
          list_first = nxt h list;
          list_last = prv h list in
      if list_empty list h then h
      else
        let h = set_next head list_first h;
            h = set_prev list_first head h;
            h = set_next list_last head_first h;
            h = set_prev head_first list_last h in h)"

definition list_splice_tail :: "nat \<Rightarrow> nat \<Rightarrow> list_head \<Rightarrow> list_head" where
  "list_splice_tail list head h =
     (let head_last = prv h head;
          list_first = nxt h list;
          list_last = prv h list in
      if list_empty list h then h
      else
        let h = set_prev head list_last h;
            h = set_next list_last head h;
            h = set_prev list_first head_last h;
            h = set_next head_last list_first h in h)"

definition list_splice_init :: "nat \<Rightarrow> nat \<Rightarrow> list_head \<Rightarrow> list_head" where
  "list_splice_init list head h = INIT_LIST_HEAD list (list_splice list head h)"

definition list_splice_tail_init :: "nat \<Rightarrow> nat \<Rightarrow> list_head \<Rightarrow> list_head" where
  "list_splice_tail_init list head h = INIT_LIST_HEAD list (list_splice_tail list head h)"

definition list_cut_position :: "nat \<Rightarrow> nat \<Rightarrow> nat \<Rightarrow> list_head \<Rightarrow> list_head" where
  "list_cut_position head_to head_from node h =
     (let head_from_first = nxt h head_from in
      if list_empty head_from h then h
      else if head_from = node then INIT_LIST_HEAD head_to h
      else
        let h = set_next head_from (nxt h node) h;
            h = set_prev (nxt h head_from) head_from h;
            h = set_prev head_to node h;
            h = set_next node head_to h;
            h = set_next head_to head_from_first h;
            h = set_prev (nxt h head_to) head_to h in h)"

definition list_move :: "nat \<Rightarrow> nat \<Rightarrow> list_head \<Rightarrow> list_head" where
  "list_move node head h = list_add node head (list_del node h)"

definition list_move_tail :: "nat \<Rightarrow> nat \<Rightarrow> list_head \<Rightarrow> list_head" where
  "list_move_tail node head h = list_add_tail node head (list_del node h)"

text \<open>
  \<^verbatim>\<open>list_for_each\<close> as the sequence of nodes its body sees; the loop stops when it is back at
  the head. The fuel bounds the number of steps.
\<close>

fun list_for_each_from :: "nat \<Rightarrow> nat \<Rightarrow> nat \<Rightarrow> list_head \<Rightarrow> nat list option" where
  "list_for_each_from 0 node head h = None"
| "list_for_each_from (Suc fuel) node head h =
     (if node = head then Some []
      else map_option (Cons node) (list_for_each_from fuel (nxt h node) head h))"

definition list_for_each :: "nat \<Rightarrow> nat \<Rightarrow> list_head \<Rightarrow> nat list option" where
  "list_for_each fuel head h = list_for_each_from fuel (nxt h head) head h"

section \<open>Chains and the list abstraction\<close>

fun chain :: "(nat \<Rightarrow> nat) \<Rightarrow> (nat \<Rightarrow> nat) \<Rightarrow> nat list \<Rightarrow> bool" where
  "chain n p (x # y # zs) \<longleftrightarrow> n x = y \<and> p y = x \<and> chain n p (y # zs)"
| "chain n p [x] \<longleftrightarrow> True"
| "chain n p [] \<longleftrightarrow> True"

definition dll :: "(nat \<Rightarrow> nat) \<Rightarrow> (nat \<Rightarrow> nat) \<Rightarrow> nat \<Rightarrow> nat list \<Rightarrow> bool" where
  "dll n p h xs \<longleftrightarrow> distinct (h # xs) \<and> chain n p (h # xs @ [h])"

definition dlist :: "nat \<Rightarrow> nat list \<Rightarrow> list_head \<Rightarrow> bool" where
  "dlist h xs hp \<longleftrightarrow> dll (nxt hp) (prv hp) h xs"

lemma chain_append:
  "us \<noteq> [] \<Longrightarrow> vs \<noteq> [] \<Longrightarrow> chain n p (us @ vs) \<longleftrightarrow>
     chain n p us \<and> n (last us) = hd vs \<and> p (hd vs) = last us \<and> chain n p vs"
proof (induction us)
  case Nil
  then show ?case by simp
next
  case (Cons u us)
  then show ?case by (cases us; cases vs) auto
qed

lemma chain_upd_next [simp]: "x \<notin> set (butlast zs) \<Longrightarrow> chain (n(x := v)) p zs = chain n p zs"
  by (induction n p zs rule: chain.induct) auto

lemma chain_upd_prev [simp]: "y \<notin> set (tl zs) \<Longrightarrow> chain n (p(y := v)) zs = chain n p zs"
proof (induction n p zs rule: chain.induct)
  case (1 n p x y' zs)
  then show ?case by (cases zs) auto
qed auto

lemma dll_first: "dll n p h xs \<Longrightarrow> n h = hd (xs @ [h])"
  by (cases xs) (auto simp: dll_def)

lemma dll_last: "dll n p h xs \<Longrightarrow> p h = last (h # xs)"
  using chain_append [of "h # xs" "[h]" n p] by (simp add: dll_def)

lemma dll_split:
  "dll n p h (as @ bs) \<longleftrightarrow> distinct (h # as @ bs) \<and> chain n p (h # as) \<and>
     n (last (h # as)) = hd (bs @ [h]) \<and> p (hd (bs @ [h])) = last (h # as) \<and> chain n p (bs @ [h])"
  using chain_append [of "h # as" "bs @ [h]" n p] by (simp add: dll_def)

lemma dll_split_node:
  "dll n p h (as @ x # bs) \<longleftrightarrow> distinct (h # as @ x # bs) \<and> chain n p (h # as) \<and>
     n (last (h # as)) = x \<and> p x = last (h # as) \<and>
     n x = hd (bs @ [h]) \<and> p (hd (bs @ [h])) = x \<and> chain n p (bs @ [h])"
  using dll_split [of n p h as "x # bs"] chain_append [of "[x]" "bs @ [h]" n p] by auto

lemma dll_next_in: "dll n p h (as @ x # bs) \<Longrightarrow> n x = hd (bs @ [h])"
  by (simp add: dll_split_node)

lemma dll_prev_in: "dll n p h (as @ x # bs) \<Longrightarrow> p x = last (h # as)"
  by (simp add: dll_split_node)

lemma dll_empty_iff: "dll n p h xs \<Longrightarrow> n h = h \<longleftrightarrow> xs = []"
  by (cases xs) (auto simp: dll_def)

lemma dll_determined:
  "dll n p h xs \<Longrightarrow> dll n p h ys \<Longrightarrow> xs = ys"
proof -
  have "chain n p (a # xs @ [h]) \<Longrightarrow> chain n p (a # ys @ [h]) \<Longrightarrow> h \<notin> set xs \<Longrightarrow> h \<notin> set ys \<Longrightarrow> xs = ys"
    for a by (induction xs arbitrary: a ys) (case_tac [!] ys, auto)
  then show "dll n p h xs \<Longrightarrow> dll n p h ys \<Longrightarrow> xs = ys" by (auto simp: dll_def)
qed

text \<open>Unlinking a node and linking one between two neighbours, as pointer updates.\<close>

lemma hd_snoc_in: "hd (bs @ [h]) \<in> insert h (set bs)"
  by (cases bs) auto

lemma last_Cons_in: "last (h # as) \<in> insert h (set as)"
  by (induction as) auto

lemma chain_upd_head_seg:
  assumes "distinct (h # as)"
  shows "chain (n(last (h # as) := v)) p (h # as) = chain n p (h # as)"
proof (rule chain_upd_next)
  have "h # as = butlast (h # as) @ [last (h # as)]" by simp
  with assms have "distinct (butlast (h # as) @ [last (h # as)])" by metis
  then show "last (h # as) \<notin> set (butlast (h # as))" by simp
qed

lemma chain_upd_tail_seg:
  assumes "distinct (bs @ [h])"
  shows "chain n (p(hd (bs @ [h]) := v)) (bs @ [h]) = chain n p (bs @ [h])"
  using assms by (intro chain_upd_prev) (cases bs; auto)

lemma dll_unlink:
  assumes "dll n p h (as @ x # bs)"
  shows "dll (n(p x := n x)) (p(n x := p x)) h (as @ bs)"
proof -
  let ?a = "last (h # as)" and ?b = "hd (bs @ [h])"
  from assms have d: "distinct (h # as @ x # bs)" and pn: "p x = ?a" "n x = ?b"
    and c: "chain n p (h # as)" "chain n p (bs @ [h])"
    by (simp_all add: dll_split_node)
  have a: "?a \<in> insert h (set as)" by (rule last_Cons_in)
  have b: "?b \<in> insert h (set bs)" by (rule hd_snoc_in)
  have "chain (n(?a := ?b)) (p(?b := ?a)) (h # as)"
    using d c(1) b by (subst chain_upd_prev) (auto simp: chain_upd_head_seg simp del: last.simps)
  moreover have "chain (n(?a := ?b)) (p(?b := ?a)) (bs @ [h])"
    using d c(2) a by (subst chain_upd_next) (auto simp: chain_upd_tail_seg simp del: last.simps)
  ultimately show ?thesis using d pn by (simp add: dll_split)
qed

lemma dll_link:
  assumes "dll n p h (as @ bs)" and "x \<notin> set (h # as @ bs)"
    and "a = last (h # as)" and "b = hd (bs @ [h])"
  shows "dll (n(a := x, x := b)) (p(b := x, x := a)) h (as @ x # bs)"
proof -
  from assms(1) have d: "distinct (h # as @ bs)" and c: "chain n p (h # as)" "chain n p (bs @ [h])"
    by (simp_all add: dll_split)
  have a: "a \<in> insert h (set as)" using assms(3) last_Cons_in by metis
  have b: "b \<in> insert h (set bs)" using assms(4) hd_snoc_in by metis
  have "chain (n(a := x, x := b)) (p(b := x, x := a)) (h # as)"
    using d c(1) b assms(2,3)
    by (subst chain_upd_prev, force, subst chain_upd_prev, force, subst chain_upd_next)
       (auto simp: chain_upd_head_seg simp del: last.simps dest!: in_set_butlastD)
  moreover have "chain (n(a := x, x := b)) (p(b := x, x := a)) (bs @ [h])"
    using d c(2) a assms(2,4)
    by (subst chain_upd_next, force, subst chain_upd_next, force, subst chain_upd_prev)
       (auto simp: chain_upd_tail_seg dest!: list.set_sel(2) [rotated])
  ultimately show ?thesis using d a b assms(2-4) by (auto simp: dll_split_node)
qed

section \<open>The routines as list operations\<close>

named_theorems lhead_defs "definitions of the pointer routines"

declare set_next_def [lhead_defs] set_prev_def [lhead_defs] INIT_LIST_HEAD_def [lhead_defs]
  list_add_def [lhead_defs] list_add_tail_def [lhead_defs] list_del_def [lhead_defs] Let_def [lhead_defs]

lemma INIT_LIST_HEAD_dlist: "dlist h [] (INIT_LIST_HEAD h hp)"
  by (simp add: dlist_def dll_def lhead_defs)

lemma list_empty_iff: "dlist h xs hp \<Longrightarrow> list_empty h hp \<longleftrightarrow> xs = []"
  by (simp add: dlist_def list_empty_def dll_empty_iff)

lemma list_is_singular_iff:
  assumes "dlist h xs hp"
  shows "list_is_singular h hp \<longleftrightarrow> length xs = 1"
proof -
  from assms have d: "dll (nxt hp) (prv hp) h xs" by (simp add: dlist_def)
  show ?thesis
  proof (cases xs)
    case Nil
    with d show ?thesis by (simp add: list_is_singular_def list_empty_def dll_empty_iff)
  next
    case (Cons y ys)
    moreover have "last (y # ys) = y \<longleftrightarrow> ys = []"
      using d Cons by (cases ys rule: rev_cases) (auto simp: dll_def)
    ultimately show ?thesis
      using dll_first [OF d] dll_last [OF d] d
      by (auto simp: list_is_singular_def list_empty_def dll_empty_iff dll_def)
  qed
qed

lemma list_add_dlist:
  assumes "dlist h xs hp" and "node \<notin> set (h # xs)"
  shows "dlist h (node # xs) (list_add node h hp)"
proof -
  have d: "dll (nxt hp) (prv hp) h xs" using assms(1) by (simp add: dlist_def)
  let ?b = "nxt hp h"
  have "dll ((nxt hp)(h := node, node := ?b)) ((prv hp)(?b := node, node := h)) h ([] @ node # xs)"
    using d assms(2) dll_first [OF d] by (intro dll_link) simp_all
  moreover have "(nxt hp)(h := node, node := ?b) = (nxt hp)(node := ?b, h := node)"
    using assms(2) by (intro fun_upd_twist) auto
  ultimately show ?thesis by (simp add: dlist_def lhead_defs)
qed

lemma list_add_tail_dlist:
  assumes "dlist h xs hp" and "node \<notin> set (h # xs)"
  shows "dlist h (xs @ [node]) (list_add_tail node h hp)"
proof -
  have d: "dll (nxt hp) (prv hp) h xs" using assms(1) by (simp add: dlist_def)
  let ?a = "prv hp h"
  have "dll ((nxt hp)(?a := node, node := h)) ((prv hp)(h := node, node := ?a)) h (xs @ node # [])"
    using d assms(2) dll_last [OF d] by (intro dll_link) simp_all
  moreover have "(prv hp)(h := node, node := ?a) = (prv hp)(node := ?a, h := node)"
    using assms(2) by (intro fun_upd_twist) auto
  ultimately show ?thesis by (simp add: dlist_def lhead_defs)
qed

lemma list_del_dlist:
  assumes "dlist h (as @ node # bs) hp"
  shows "dlist h (as @ bs) (list_del node hp)"
  using dll_unlink [of "nxt hp" "prv hp" h as node bs] assms by (simp add: dlist_def lhead_defs)

lemma list_del_untouched:
  assumes "dlist h (as @ node # bs) hp" and "a \<notin> set (h # as @ bs)"
  shows "nxt (list_del node hp) a = nxt hp a" and "prv (list_del node hp) a = prv hp a"
proof -
  from assms(1) have n: "nxt hp node = hd (bs @ [h])" and p: "prv hp node = last (h # as)"
    by (simp_all add: dlist_def dll_next_in dll_prev_in)
  show "nxt (list_del node hp) a = nxt hp a"
    using assms(2) p last_Cons_in [of h as] by (auto simp: lhead_defs simp del: last.simps)
  show "prv (list_del node hp) a = prv hp a"
    using assms(2) n hd_snoc_in [of bs h] by (auto simp: lhead_defs)
qed

text \<open>Two disjoint circles next to each other: updates inside one leave the other alone.\<close>

lemma dll_cong:
  assumes "dll n p h xs" and "\<And>a. a \<in> set (h # xs) \<Longrightarrow> n' a = n a \<and> p' a = p a"
  shows "dll n' p' h xs"
proof -
  have "chain n p zs \<Longrightarrow> set zs \<subseteq> set (h # xs) \<Longrightarrow> chain n' p' zs" for zs
    using assms(2) by (induction n p zs rule: chain.induct) auto
  from this [of "h # xs @ [h]"] assms(1) show ?thesis by (auto simp: dll_def)
qed

lemma list_del_init_dlist:
  assumes "dlist h (as @ node # bs) hp"
  shows "dlist h (as @ bs) (list_del_init node hp)"
    and "dlist node [] (list_del_init node hp)"
proof -
  have nin: "node \<notin> set (h # as @ bs)" using assms by (auto simp: dlist_def dll_def)
  have "dll (nxt (list_del node hp)) (prv (list_del node hp)) h (as @ bs)"
    using list_del_dlist [OF assms] by (simp add: dlist_def)
  then show "dlist h (as @ bs) (list_del_init node hp)"
    unfolding dlist_def by (rule dll_cong)
      (use nin in \<open>auto simp: list_del_init_def INIT_LIST_HEAD_def set_next_def set_prev_def\<close>)
  show "dlist node [] (list_del_init node hp)"
    by (simp add: list_del_init_def INIT_LIST_HEAD_dlist)
qed

lemma list_move_dlist:
  assumes "dlist h (as @ node # bs) hp"
  shows "dlist h (node # as @ bs) (list_move node h hp)"
  using assms list_add_dlist [OF list_del_dlist [OF assms]]
  by (auto simp: list_move_def dlist_def dll_def)

lemma list_move_tail_dlist:
  assumes "dlist h (as @ node # bs) hp"
  shows "dlist h (as @ bs @ [node]) (list_move_tail node h hp)"
proof -
  have "node \<notin> set (h # as @ bs)" using assms by (auto simp: dlist_def dll_def)
  from list_add_tail_dlist [OF list_del_dlist [OF assms] this] show ?thesis
    by (simp add: list_move_tail_def)
qed

text \<open>
  Splicing the circle of \<open>l\<close> into the circle of \<open>h\<close>. The nodes of \<open>l\<close> form one segment,
  whose two ends are relinked.
\<close>

lemma dll_segment:
  assumes "dll n p l ys" and "ys \<noteq> []"
  shows "chain n p ys" and "n l = hd ys" and "p l = last ys"
  using assms chain_append [of "[l]" "ys @ [l]" n p] chain_append [of ys "[l]" n p]
  by (auto simp: dll_def)

lemma dll_of_segment:
  assumes "xs \<noteq> []" and "distinct (h # xs)" and "chain n p xs"
    and "n h = hd xs" and "p (hd xs) = h" and "n (last xs) = h" and "p h = last xs"
  shows "dll n p h xs"
  using assms chain_append [of "[h]" "xs @ [h]" n p] chain_append [of xs "[h]" n p]
  by (simp add: dll_def)

lemma dll_insert_segment:
  assumes d: "dll n p h (as @ bs)" and c: "chain n p ys" and ne: "ys \<noteq> []"
    and dj: "distinct ys" "set ys \<inter> set (h # as @ bs) = {}"
    and a: "a = last (h # as)" and b: "b = hd (bs @ [h])"
  shows "dll (n(a := hd ys, last ys := b)) (p(hd ys := a, b := last ys)) h (as @ ys @ bs)"
proof -
  let ?n = "n(a := hd ys, last ys := b)" and ?p = "p(hd ys := a, b := last ys)"
  have d': "distinct (h # as @ bs)" "chain n p (h # as)" "chain n p (bs @ [h])"
    using d by (simp_all add: dll_split)
  have ain: "a \<in> insert h (set as)" using a last_Cons_in by metis
  have bin: "b \<in> insert h (set bs)" using b hd_snoc_in by metis
  have hy: "hd ys \<in> set ys" "last ys \<in> set ys" using ne by simp_all
  have "distinct (butlast ys @ [last ys])" using dj(1) ne by simp
  then have ly: "last ys \<notin> set (butlast ys)" by simp
  have "distinct (hd ys # tl ys)" using dj(1) ne by simp
  then have hy': "hd ys \<notin> set (tl ys)" by simp
  have ab: "a \<notin> set ys" "b \<notin> set ys" using ain bin dj(2) by auto
  have "chain ?n ?p (h # as)"
    using d'(1,2) bin hy dj(2) a
    by (subst chain_upd_prev, force, subst chain_upd_prev, force, subst chain_upd_next)
       (auto simp: chain_upd_head_seg simp del: last.simps dest!: in_set_butlastD)
  moreover have "chain ?n ?p ys"
    using c ly hy' ab ne
    by (subst chain_upd_prev, meson list.set_sel(2), subst chain_upd_prev, simp,
        subst chain_upd_next, simp, subst chain_upd_next) (auto dest: in_set_butlastD)
  moreover have "chain ?n ?p (bs @ [h])"
  proof -
    have "hd ys \<notin> set (tl (bs @ [h]))" "b \<notin> set (tl (bs @ [h]))"
      using hy dj(2) d'(1) b by (cases bs; auto)+
    then show ?thesis
      using d'(1,3) ain hy dj(2)
      by (subst chain_upd_next, force, subst chain_upd_next, force, subst chain_upd_prev, simp,
          subst chain_upd_prev) simp_all
  qed
  moreover have "?n (last ys) = b" "?p b = last ys" by simp_all
  moreover have "?n a = hd ys" "?p (hd ys) = a" using ab hy by auto
  ultimately have "chain ?n ?p (ys @ bs @ [h])" "chain ?n ?p (h # as)"
    and "?n (last (h # as)) = hd ys" "?p (hd ys) = last (h # as)"
    using ne a b chain_append [of ys "bs @ [h]" ?n ?p] by simp_all
  moreover have "distinct (h # as @ ys @ bs)" using d'(1) dj by auto
  ultimately show ?thesis using ne dll_split [of ?n ?p h as "ys @ bs"] by simp
qed

lemma list_splice_dlist:
  assumes "dlist h xs hp" and "dlist l ys hp" and "set (l # ys) \<inter> set (h # xs) = {}"
  shows "dlist h (ys @ xs) (list_splice l h hp)"
proof (cases "ys = []")
  case True
  with assms show ?thesis by (simp add: list_splice_def list_empty_iff [OF assms(2)] Let_def)
next
  case False
  have d: "dll (nxt hp) (prv hp) h ([] @ xs)" "dll (nxt hp) (prv hp) l ys"
    using assms(1,2) by (simp_all add: dlist_def)
  note seg = dll_segment [OF d(2) False]
  have "dll ((nxt hp)(h := hd ys, last ys := nxt hp h)) ((prv hp)(hd ys := h, nxt hp h := last ys))
      h ([] @ ys @ xs)"
    using assms(3) d(2) dll_first [OF d(1)]
    by (intro dll_insert_segment [OF d(1) seg(1) False]) (auto simp: dll_def)
  moreover have "\<not> list_empty l hp" using False list_empty_iff [OF assms(2)] by simp
  ultimately show ?thesis using seg
    by (simp add: list_splice_def Let_def dlist_def set_next_def set_prev_def)
qed

lemma list_splice_tail_dlist:
  assumes "dlist h xs hp" and "dlist l ys hp" and "set (l # ys) \<inter> set (h # xs) = {}"
  shows "dlist h (xs @ ys) (list_splice_tail l h hp)"
proof (cases "ys = []")
  case True
  with assms show ?thesis by (simp add: list_splice_tail_def list_empty_iff [OF assms(2)] Let_def)
next
  case False
  have d: "dll (nxt hp) (prv hp) h (xs @ [])" "dll (nxt hp) (prv hp) l ys"
    using assms(1,2) by (simp_all add: dlist_def)
  note seg = dll_segment [OF d(2) False]
  let ?a = "prv hp h"
  have a: "?a = last (h # xs)" using dll_last [OF d(1)] by simp
  have "dll ((nxt hp)(?a := hd ys, last ys := h)) ((prv hp)(hd ys := ?a, h := last ys)) h (xs @ ys @ [])"
    using assms(3) d(2) a
    by (intro dll_insert_segment [OF d(1) seg(1) False]) (auto simp: dll_def)
  moreover have "?a \<in> set (h # xs)" using a last_Cons_in [of h xs] by (simp del: last.simps)
  then have "?a \<noteq> last ys" "h \<noteq> hd ys"
    using assms(3) last_in_set [OF False] hd_in_set [OF False] by auto
  ultimately have "dll ((nxt hp)(last ys := h, ?a := hd ys)) ((prv hp)(h := last ys, hd ys := ?a)) h (xs @ ys)"
    by (simp add: fun_upd_twist)
  moreover have "\<not> list_empty l hp" using False list_empty_iff [OF assms(2)] by simp
  ultimately show ?thesis using seg
    by (simp add: list_splice_tail_def Let_def dlist_def set_next_def set_prev_def)
qed

text \<open>Reinitialising a list head outside the circle does not disturb it.\<close>

lemma INIT_LIST_HEAD_other:
  assumes "dlist h xs hp" and "l \<notin> set (h # xs)"
  shows "dlist h xs (INIT_LIST_HEAD l hp)"
  unfolding dlist_def
  by (rule dll_cong [OF assms(1) [unfolded dlist_def]]) (use assms(2) in \<open>auto simp: lhead_defs\<close>)

lemma list_splice_init_dlist:
  assumes "dlist h xs hp" and "dlist l ys hp" and "set (l # ys) \<inter> set (h # xs) = {}"
  shows "dlist h (ys @ xs) (list_splice_init l h hp)" and "dlist l [] (list_splice_init l h hp)"
proof -
  have "l \<notin> set (h # ys @ xs)" using assms by (auto simp: dlist_def dll_def)
  from INIT_LIST_HEAD_other [OF list_splice_dlist [OF assms] this]
  show "dlist h (ys @ xs) (list_splice_init l h hp)" by (simp add: list_splice_init_def)
qed (simp add: list_splice_init_def INIT_LIST_HEAD_dlist)

lemma list_splice_tail_init_dlist:
  assumes "dlist h xs hp" and "dlist l ys hp" and "set (l # ys) \<inter> set (h # xs) = {}"
  shows "dlist h (xs @ ys) (list_splice_tail_init l h hp)"
    and "dlist l [] (list_splice_tail_init l h hp)"
proof -
  have "l \<notin> set (h # xs @ ys)" using assms by (auto simp: dlist_def dll_def)
  from INIT_LIST_HEAD_other [OF list_splice_tail_dlist [OF assms] this]
  show "dlist h (xs @ ys) (list_splice_tail_init l h hp)" by (simp add: list_splice_tail_init_def)
qed (simp add: list_splice_tail_init_def INIT_LIST_HEAD_dlist)

text \<open>Cutting: the nodes up to \<open>node\<close> move to \<open>head_to\<close>, the rest stay.\<close>

lemma list_cut_position_dlist:
  assumes d: "dlist from (as @ node # bs) hp" and "to \<notin> set (from # as @ node # bs)"
  shows "dlist to (as @ [node]) (list_cut_position to from node hp)"
    and "dlist from bs (list_cut_position to from node hp)"
proof -
  let ?n = "nxt hp" and ?p = "prv hp"
  let ?f = "hd (as @ [node])" and ?b = "hd (bs @ [from])"
  have dist: "distinct (from # as @ node # bs)" and c: "chain ?n ?p (from # as @ node # bs @ [from])"
    using d by (simp_all add: dlist_def dll_def)
  have seg: "chain ?n ?p (as @ [node])" "chain ?n ?p (bs @ [from])" "?n from = ?f" "?n node = ?b"
    using c chain_append [of "[from]" "as @ node # bs @ [from]" ?n ?p]
      chain_append [of "as @ [node]" "bs @ [from]" ?n ?p] by (auto simp: hd_append)
  let ?h = "list_cut_position to from node hp"
  have ne: "\<not> list_empty from hp" using list_empty_iff [OF d] by simp
  have fin: "?f \<in> insert node (set as)" by (cases as) auto
  have bin: "?b \<in> insert from (set bs)" by (rule hd_snoc_in)
  have n: "nxt ?h = ?n(from := ?b, node := to, to := ?f)"
    and p: "prv ?h = ?p(?b := from, to := node, ?f := to)"
    using ne seg dist assms(2)
    by (auto simp: list_cut_position_def Let_def set_next_def set_prev_def)
  have ft: "?f \<notin> set (tl (as @ [node]))" and bt: "?b \<notin> set (tl (bs @ [from]))"
    using dist by (cases as; auto)(cases bs; use dist in auto)
  have tl_as: "set (tl (as @ [node])) \<subseteq> insert node (set as)"
    and tl_bs: "set (tl (bs @ [from])) \<subseteq> insert from (set bs)"
    by (cases as; auto)(cases bs; auto)
  have "chain (nxt ?h) (prv ?h) (as @ [node])"
    unfolding n p using seg(1) dist assms(2) ft bin tl_as
    by (subst chain_upd_next, force, subst chain_upd_next, force, subst chain_upd_next, force,
        subst chain_upd_prev, simp, subst chain_upd_prev, force, subst chain_upd_prev) auto
  moreover have "distinct (to # as @ [node])" using dist assms(2) by auto
  moreover have "to \<noteq> ?f" using fin assms(2) by auto
  ultimately show "dlist to (as @ [node]) ?h"
    unfolding dlist_def using assms(2) by (intro dll_of_segment) (simp_all add: n p)
  have "chain (nxt ?h) (prv ?h) (bs @ [from])"
    unfolding n p using seg(2) dist assms(2) bt fin tl_bs
    by (subst chain_upd_next, force, subst chain_upd_next, force, subst chain_upd_next, force,
        subst chain_upd_prev, force, subst chain_upd_prev, force, subst chain_upd_prev) auto
  moreover have "nxt ?h from = ?b" using dist assms(2) by (simp add: n)
  moreover have "?b \<noteq> to" "?b \<noteq> ?f" using dist assms(2) bin fin by auto
  then have "prv ?h ?b = from" by (simp add: p)
  ultimately show "dlist from bs ?h"
    using dist dll_split [of "nxt ?h" "prv ?h" "from" "[]" bs] by (simp add: dlist_def)
qed

text \<open>The loop macro visits exactly the nodes of the list, in order, and stops.\<close>

lemma list_for_each_from_dlist:
  "chain (nxt hp) p (xs @ [h]) \<Longrightarrow> h \<notin> set xs \<Longrightarrow> length xs < fuel \<Longrightarrow>
   list_for_each_from fuel (hd (xs @ [h])) h hp = Some xs"
proof (induction xs arbitrary: fuel)
  case Nil
  then show ?case by (cases fuel) auto
next
  case (Cons x xs)
  then obtain f where f: "fuel = Suc f" "length xs < f" by (cases fuel) auto
  from Cons.prems(1) have c: "chain (nxt hp) p (xs @ [h])" "nxt hp x = hd (xs @ [h])"
    using chain_append [of "[x]" "xs @ [h]" "nxt hp" p] by auto
  have "list_for_each_from f (hd (xs @ [h])) h hp = Some xs"
    using c(1) Cons.prems(2) f(2) by (intro Cons.IH) auto
  with Cons.prems(2) f(1) c(2) show ?case by simp
qed

lemma list_for_each_dlist:
  assumes "dlist h xs hp" and "length xs < fuel"
  shows "list_for_each fuel h hp = Some xs"
proof -
  have d: "dll (nxt hp) (prv hp) h xs" using assms(1) by (simp add: dlist_def)
  have "chain (nxt hp) (prv hp) (xs @ [h])"
    using d chain_append [of "[h]" "xs @ [h]" "nxt hp" "prv hp"] by (auto simp: dll_def)
  with d assms(2) show ?thesis
    by (simp add: list_for_each_def dll_first [OF d] list_for_each_from_dlist dll_def)
qed

section \<open>Round trips\<close>

text \<open>Cutting and splicing are inverse: \<^verbatim>\<open>list_cut_position\<close> at a node moves the nodes up to it to the other head and
  leaves the rest, both as well-formed circles, and \<^verbatim>\<open>list_splice_init\<close> puts them back in front and leaves the other head
  empty.\<close>

theorem list_cut_splice_roundtrip:
  assumes "dlist from (as @ node # bs) hp" and "to \<notin> set (from # as @ node # bs)"
  shows "dlist to (as @ [node]) (list_cut_position to from node hp) \<and>
    dlist from bs (list_cut_position to from node hp) \<and>
    dlist from (as @ node # bs) (list_splice_init to from (list_cut_position to from node hp)) \<and>
    dlist to [] (list_splice_init to from (list_cut_position to from node hp))"
proof -
  note cut = list_cut_position_dlist [OF assms]
  have "set (to # as @ [node]) \<inter> set (from # bs) = {}" using assms by (auto simp: dlist_def dll_def)
  with list_splice_init_dlist [OF cut(2,1)] cut show ?thesis by simp
qed

definition demo_list :: list_head where
  "demo_list = list_add_tail 3 0 (list_add_tail 2 0 (list_add_tail 1 0 (INIT_LIST_HEAD 0 \<lparr>nxt = id, prv = id\<rparr>)))"

lemma demo_list_dlist: "dlist 0 [1, 2, 3] demo_list"
  using list_add_tail_dlist [OF list_add_tail_dlist [OF list_add_tail_dlist [OF INIT_LIST_HEAD_dlist [of 0 "\<lparr>nxt = id, prv = id\<rparr>"], of 1], of 2], of 3]
  by (simp add: demo_list_def)

theorem list_cut_splice_roundtrip_witness:
  "dlist 9 [1, 2] (list_cut_position 9 0 2 demo_list) \<and> dlist 0 [3] (list_cut_position 9 0 2 demo_list) \<and>
   dlist 0 [1, 2, 3] (list_splice_init 9 0 (list_cut_position 9 0 2 demo_list))"
  using list_cut_splice_roundtrip [of 0 "[1]" 2 "[3]" demo_list 9] demo_list_dlist by simp

text \<open>
  Traversal ends: on a well-formed circle the loop of \<^verbatim>\<open>list_for_each\<close> stops after as many turns as there are
  nodes and has seen each of them once, in order; this stays so after a node has been added at either end, deleted, or moved
  to the front or the back.\<close>

theorem list_for_each_terminates:
  assumes "dlist h (as @ node # bs) hp" and "new \<notin> set (h # as @ node # bs)" and "length as + length bs + 2 < fuel"
  shows "list_for_each fuel h hp = Some (as @ node # bs) \<and>
    list_for_each fuel h (list_add new h hp) = Some (new # as @ node # bs) \<and>
    list_for_each fuel h (list_add_tail new h hp) = Some (as @ node # bs @ [new]) \<and>
    list_for_each fuel h (list_del_init node hp) = Some (as @ bs) \<and>
    list_for_each fuel node (list_del_init node hp) = Some [] \<and>
    list_for_each fuel h (list_move node h hp) = Some (node # as @ bs) \<and>
    list_for_each fuel h (list_move_tail node h hp) = Some (as @ bs @ [node])"
  using list_for_each_dlist [OF assms(1)] list_for_each_dlist [OF list_add_dlist [OF assms(1,2)]]
    list_for_each_dlist [OF list_add_tail_dlist [OF assms(1,2)]] list_for_each_dlist [OF list_del_init_dlist(1) [OF assms(1)]]
    list_for_each_dlist [OF list_del_init_dlist(2) [OF assms(1)]] list_for_each_dlist [OF list_move_dlist [OF assms(1)]]
    list_for_each_dlist [OF list_move_tail_dlist [OF assms(1)]] assms(3)
  by simp

theorem list_for_each_terminates_witness: "list_for_each 9 0 (list_move_tail 2 0 demo_list) = Some [1, 3, 2]"
  using list_for_each_terminates [of 0 "[1]" 2 "[3]" demo_list 8 9] demo_list_dlist by simp

end
