(* ===== verification/ThreadsSched.thy ===== *)
theory ThreadsSched
  imports Prelude "HOL-Library.Multiset"
begin

text \<open>
  The thread schedulers of \<^verbatim>\<open>Threading-Scheduler/threads_sched.c\<close>. Threads are pointers
  into a store of thread records (the fields are those the source uses), the run queue is
  the list of pointers that \<^verbatim>\<open>list_for_each_entry\<close> visits, and a scheduler returns the
  chosen pointer (\<open>None\<close> for the list head, that is, idle), the time allocated to it, and the
  store and queue as it leaves them. Each \<^verbatim>\<open>list_for_each_entry\<close> is a \<open>fold\<close> of its body.

  The contract every selection loop relies on is the locale \<open>best_of\<close>: a strict order in which
  the loop's running best is never beaten. It is interpreted for the four comparisons of the
  source (smallest ID, response ratio, relative deadline, absolute deadline).
\<close>

section \<open>Threads and queues\<close>

record cbs =
  budget :: int
  remaining_budget :: int
  is_hard_rt :: bool
  is_throttled :: bool
  throttled_arrived_time :: int

record thread =
  ID :: int
  arrival_time :: int
  processing_time :: int
  remaining_time :: int
  priority :: int
  deadline :: int
  period :: int
  current_deadline :: int
  cbs :: cbs

record release_queue_entry =
  thrd :: nat
  release_time :: int

type_synonym store = "nat \<Rightarrow> thread"

record threads_sched_result =
  scheduled_thread_list_member :: "nat option"
  allocated_time :: int

definition INT_MAX :: int where
  "INT_MAX = 2147483647"

section \<open>Default and non-real-time schedulers\<close>

definition default_body :: "store \<Rightarrow> nat \<Rightarrow> nat option \<Rightarrow> nat option" where
  "default_body st th smallest =
     (case smallest of None \<Rightarrow> Some th
      | Some b \<Rightarrow> if ID (st th) < ID (st b) then Some th else smallest)"

definition schedule_default :: "store \<Rightarrow> nat list \<Rightarrow> threads_sched_result" where
  "schedule_default st run_queue =
     (case fold (default_body st) run_queue None of
        Some th \<Rightarrow> \<lparr>scheduled_thread_list_member = Some th, allocated_time = remaining_time (st th)\<rparr>
      | None \<Rightarrow> \<lparr>scheduled_thread_list_member = None, allocated_time = 1\<rparr>)"

definition ratio_num :: "store \<Rightarrow> int \<Rightarrow> nat \<Rightarrow> int" where
  "ratio_num st current_time th =
     (let waiting_time = current_time - arrival_time (st th) in waiting_time + processing_time (st th))"

definition hrrn_body ::
  "store \<Rightarrow> int \<Rightarrow> nat \<Rightarrow> nat option \<times> int \<times> int \<Rightarrow> nat option \<times> int \<times> int" where
  "hrrn_body st current_time th sel =
     (let (selected, highest_num, highest_den) = sel;
          num = ratio_num st current_time th;
          den = processing_time (st th) in
      if (case selected of None \<Rightarrow> True
          | Some b \<Rightarrow> num * highest_den > highest_num * den \<or>
                      (num * highest_den = highest_num * den \<and> ID (st th) < ID (st b)))
      then (Some th, num, den) else sel)"

definition schedule_hrrn :: "store \<Rightarrow> nat list \<Rightarrow> int \<Rightarrow> threads_sched_result" where
  "schedule_hrrn st run_queue current_time =
     (case fst (fold (hrrn_body st current_time) run_queue (None, 0, 1)) of
        Some th \<Rightarrow> \<lparr>scheduled_thread_list_member = Some th, allocated_time = remaining_time (st th)\<rparr>
      | None \<Rightarrow> \<lparr>scheduled_thread_list_member = None, allocated_time = 1\<rparr>)"

text \<open>
  Priority round robin. The queue is rearranged by \<^verbatim>\<open>list_move_tail\<close>; \<open>move_tail\<close> is that
  routine on the list of nodes (\<open>ListHead.list_move_tail_dlist\<close>). A dereference of the null
  pointer \<^verbatim>\<open>chosen\<close> is an error of the model.
\<close>

definition move_tail :: "nat \<Rightarrow> nat list \<Rightarrow> nat list" where
  "move_tail x xs = remove1 x xs @ [x]"

definition best_priority :: "store \<Rightarrow> nat list \<Rightarrow> int" where
  "best_priority st run_queue =
     fold (\<lambda>th best_pri. if priority (st th) < best_pri then priority (st th) else best_pri)
       run_queue INT_MAX"

definition schedule_priority_rr ::
  "store \<Rightarrow> nat list \<Rightarrow> (threads_sched_result \<times> nat list) kres" where
  "schedule_priority_rr st run_queue =
     (if run_queue = [] then
        Inr (\<lparr>scheduled_thread_list_member = None, allocated_time = 1\<rparr>, run_queue)
      else
        let best_pri = best_priority st run_queue;
            chosen = find (\<lambda>th. priority (st th) = best_pri) run_queue;
            group_cnt = fold (\<lambda>th n. if priority (st th) = best_pri then Suc n else n) run_queue 0 in
        case chosen of
          None \<Rightarrow> Inl (Panic ''null dereference'')
        | Some c \<Rightarrow>
            let run_queue = (if group_cnt > 1 then move_tail c run_queue else run_queue);
                quantum = 2;
                t = (if group_cnt = 1 then remaining_time (st c)
                     else if remaining_time (st c) < quantum then remaining_time (st c) else quantum) in
            Inr (\<lparr>scheduled_thread_list_member = Some c, allocated_time = t\<rparr>, run_queue))"

section \<open>Real-time schedulers\<close>

definition check_deadline_body :: "store \<Rightarrow> int \<Rightarrow> nat \<Rightarrow> nat option \<Rightarrow> nat option" where
  "check_deadline_body st current_time th missing =
     (if current_deadline (st th) \<le> current_time then
        (case missing of None \<Rightarrow> Some th
         | Some m \<Rightarrow> if ID (st th) < ID (st m) then Some th else missing)
      else missing)"

definition check_deadline_miss :: "store \<Rightarrow> nat list \<Rightarrow> int \<Rightarrow> nat option" where
  "check_deadline_miss st run_queue current_time =
     fold (check_deadline_body st current_time) run_queue None"

definition dm_thread_cmp :: "thread \<Rightarrow> thread \<Rightarrow> int" where
  "dm_thread_cmp a b =
     (if deadline a < deadline b then 1
      else if deadline a > deadline b then -1
      else if ID a < ID b then 1 else -1)"

text \<open>Time to sleep when no thread is ready: until the earliest release.\<close>

definition idle_time :: "release_queue_entry list \<Rightarrow> int \<Rightarrow> int" where
  "idle_time release_queue current_time =
     (let earliest_arrival =
            fold (\<lambda>e m. if release_time e < m then release_time e else m) release_queue INT_MAX in
      if earliest_arrival \<noteq> INT_MAX then
        let sleep_time = earliest_arrival - current_time in
        if sleep_time > 0 then sleep_time else 1
      else 1)"

definition dm_best_body :: "store \<Rightarrow> nat \<Rightarrow> nat option \<Rightarrow> nat option" where
  "dm_best_body st th best =
     (case best of None \<Rightarrow> Some th
      | Some b \<Rightarrow> if dm_thread_cmp (st th) (st b) > 0 then Some th else best)"

definition next_arrival_body ::
  "release_queue_entry \<Rightarrow> release_queue_entry option \<times> int \<Rightarrow> release_queue_entry option \<times> int" where
  "next_arrival_body e acc =
     (if release_time e < snd acc then (Some e, release_time e) else acc)"

definition dm_allocate ::
  "store \<Rightarrow> nat \<Rightarrow> release_queue_entry option \<times> int \<Rightarrow> int \<Rightarrow> int" where
  "dm_allocate st best arrival current_time =
     (case arrival of
        (None, _) \<Rightarrow> remaining_time (st best)
      | (Some e, next_arrival_time) \<Rightarrow>
          if next_arrival_time \<le> current_time then 1
          else if next_arrival_time < current_time + remaining_time (st best) then
            let next_thread = st (thrd e) in
            if deadline next_thread < deadline (st best) \<or>
               (deadline next_thread = deadline (st best) \<and> ID next_thread < ID (st best))
            then
              let time_until_preemption = next_arrival_time - current_time in
              if time_until_preemption > 0 then time_until_preemption else 1
            else remaining_time (st best)
          else remaining_time (st best))"

definition schedule_dm ::
  "store \<Rightarrow> nat list \<Rightarrow> release_queue_entry list \<Rightarrow> int \<Rightarrow> threads_sched_result" where
  "schedule_dm st run_queue release_queue current_time =
     (case check_deadline_miss st run_queue current_time of
        Some m \<Rightarrow> \<lparr>scheduled_thread_list_member = Some m, allocated_time = 0\<rparr>
      | None \<Rightarrow>
          (case fold (dm_best_body st) run_queue None of
             None \<Rightarrow> \<lparr>scheduled_thread_list_member = None,
                      allocated_time = idle_time release_queue current_time\<rparr>
           | Some best \<Rightarrow>
               let arrival = fold next_arrival_body release_queue (None, INT_MAX) in
               \<lparr>scheduled_thread_list_member = Some best,
                allocated_time = dm_allocate st best arrival current_time\<rparr>))"

subsection \<open>EDF with constant bandwidth servers\<close>

definition edf_thread_cmp :: "thread \<Rightarrow> thread \<Rightarrow> int" where
  "edf_thread_cmp a b =
     (if current_deadline a < current_deadline b then 1
      else if current_deadline a > current_deadline b then -1
      else if ID a < ID b then 1 else -1)"

text \<open>Step 1: throttled soft threads whose deadline has come get a new budget and deadline.\<close>

definition edf_replenish_body :: "int \<Rightarrow> nat \<Rightarrow> store \<Rightarrow> store" where
  "edf_replenish_body current_time th st =
     (let t = st th in
      if \<not> is_hard_rt (cbs t) \<and> is_throttled (cbs t) \<and> current_time \<ge> current_deadline t then
        st(th := t\<lparr>cbs := (cbs t)\<lparr>remaining_budget := budget (cbs t), is_throttled := False\<rparr>,
                   current_deadline := current_deadline t + period t\<rparr>)
      else st)"

definition edf_replenish :: "int \<Rightarrow> nat list \<Rightarrow> store \<Rightarrow> store" where
  "edf_replenish current_time run_queue st = fold (edf_replenish_body current_time) run_queue st"

text \<open>Soft threads that have used up their budget are throttled.\<close>

definition edf_throttle_body :: "int \<Rightarrow> nat \<Rightarrow> store \<Rightarrow> store" where
  "edf_throttle_body current_time th st =
     (let t = st th in
      if \<not> is_hard_rt (cbs t) \<and> \<not> is_throttled (cbs t) \<and> remaining_budget (cbs t) \<le> 0 then
        st(th := t\<lparr>cbs := (cbs t)\<lparr>is_throttled := True, throttled_arrived_time := current_time\<rparr>\<rparr>)
      else st)"

definition edf_throttle :: "int \<Rightarrow> nat list \<Rightarrow> store \<Rightarrow> store" where
  "edf_throttle current_time run_queue st = fold (edf_throttle_body current_time) run_queue st"

text \<open>Steps 4 and 5: the earliest deadline among the threads that are not throttled.\<close>

definition edf_best_body :: "store \<Rightarrow> nat \<Rightarrow> nat option \<Rightarrow> nat option" where
  "edf_best_body st th best =
     (if \<not> is_hard_rt (cbs (st th)) \<and> is_throttled (cbs (st th)) then best
      else (case best of None \<Rightarrow> Some th
            | Some b \<Rightarrow> if edf_thread_cmp (st th) (st b) > 0 then Some th else best))"

definition edf_select :: "store \<Rightarrow> nat list \<Rightarrow> nat option" where
  "edf_select st run_queue = fold (edf_best_body st) run_queue None"

definition edf_violates :: "int \<Rightarrow> thread \<Rightarrow> bool" where
  "edf_violates current_time t =
     (\<not> is_hard_rt (cbs t) \<and> remaining_budget (cbs t) > 0 \<and>
      (let time_until_deadline = current_deadline t - current_time in
       time_until_deadline \<le> 0 \<or>
       remaining_budget (cbs t) * period t > budget (cbs t) * time_until_deadline))"

definition edf_postpone :: "int \<Rightarrow> thread \<Rightarrow> thread" where
  "edf_postpone current_time t =
     t\<lparr>current_deadline := current_time + period t,
       cbs := (cbs t)\<lparr>remaining_budget := budget (cbs t)\<rparr>\<rparr>"

text \<open>The \<^verbatim>\<open>do ... while (changes_made)\<close> loop; \<open>edf_loop_terminates\<close> gives the fuel it needs.\<close>

fun edf_loop :: "nat \<Rightarrow> int \<Rightarrow> nat list \<Rightarrow> store \<Rightarrow> (store \<times> nat option) kres" where
  "edf_loop 0 current_time run_queue st = Inl Fuel"
| "edf_loop (Suc fuel) current_time run_queue st =
     (case edf_select st run_queue of
        None \<Rightarrow> Inr (st, None)
      | Some best \<Rightarrow>
          if edf_violates current_time (st best)
          then edf_loop fuel current_time run_queue (st(best := edf_postpone current_time (st best)))
          else Inr (st, Some best))"

text \<open>Step 7: the time the chosen thread may run.\<close>

definition edf_base_time :: "thread \<Rightarrow> int" where
  "edf_base_time t =
     (if \<not> is_hard_rt (cbs t) then
        (if remaining_time t < remaining_budget (cbs t) then remaining_time t
         else remaining_budget (cbs t))
      else remaining_time t)"

text \<open>
  Step 8: shorten the allocation at the first preemption. As in the source, the deadline of the
  arriving thread is set in the store for the comparison and restored after it.
\<close>

definition edf_arrival_body ::
  "int \<Rightarrow> nat \<Rightarrow> release_queue_entry \<Rightarrow> store \<times> int \<Rightarrow> store \<times> int" where
  "edf_arrival_body current_time best e acc =
     (let (st, min_preemption_time) = acc in
      if release_time e \<ge> current_time \<and> release_time e < current_time + min_preemption_time then
        let arrival_thread = thrd e;
            original_deadline = current_deadline (st arrival_thread);
            st = st(arrival_thread := (st arrival_thread)
                      \<lparr>current_deadline := release_time e + period (st arrival_thread)\<rparr>);
            m = (if edf_thread_cmp (st arrival_thread) (st best) > 0 then
                   let time_until_arrival = release_time e - current_time in
                   if time_until_arrival < min_preemption_time then
                     (if time_until_arrival > 0 then time_until_arrival else 1)
                   else min_preemption_time
                 else min_preemption_time) in
        (st(arrival_thread := (st arrival_thread)\<lparr>current_deadline := original_deadline\<rparr>), m)
      else (st, min_preemption_time))"

definition edf_replenish_preempt_body ::
  "int \<Rightarrow> nat \<Rightarrow> nat \<Rightarrow> store \<times> int \<Rightarrow> store \<times> int" where
  "edf_replenish_preempt_body current_time best th acc =
     (let (st, min_preemption_time) = acc in
      if \<not> is_hard_rt (cbs (st th)) \<and> is_throttled (cbs (st th)) \<and>
         current_deadline (st th) \<ge> current_time \<and>
         current_deadline (st th) < current_time + min_preemption_time then
        let original = st th;
            st = st(th := original\<lparr>cbs := (cbs original)\<lparr>is_throttled := False,
                                                  remaining_budget := budget (cbs original)\<rparr>,
                                    current_deadline := current_deadline original + period original\<rparr>);
            m = (if edf_thread_cmp (st th) (st best) > 0 \<and> th \<noteq> best then
                   let time_until_replenish = current_deadline original - current_time in
                   if time_until_replenish < min_preemption_time then
                     (if time_until_replenish > 0 then time_until_replenish else 1)
                   else min_preemption_time
                 else min_preemption_time) in
        (st(th := (st th)\<lparr>cbs := (cbs (st th))\<lparr>is_throttled := is_throttled (cbs original),
                                   remaining_budget := remaining_budget (cbs original)\<rparr>,
                       current_deadline := current_deadline original\<rparr>), m)
      else (st, min_preemption_time))"

definition schedule_edf_cbs ::
  "store \<Rightarrow> nat list \<Rightarrow> release_queue_entry list \<Rightarrow> int \<Rightarrow> (threads_sched_result \<times> store) kres" where
  "schedule_edf_cbs st run_queue release_queue current_time =
     (let st = edf_replenish current_time run_queue st in
      case check_deadline_miss st run_queue current_time of
        Some m \<Rightarrow> Inr (\<lparr>scheduled_thread_list_member = Some m, allocated_time = 0\<rparr>, st)
      | None \<Rightarrow>
          if run_queue = [] then
            Inr (\<lparr>scheduled_thread_list_member = None,
                  allocated_time = idle_time release_queue current_time\<rparr>, st)
          else
            let st = edf_throttle current_time run_queue st in
            bindE (edf_loop (Suc (length run_queue)) current_time run_queue st) (\<lambda>(st, best).
              case best of
                None \<Rightarrow> Inr (\<lparr>scheduled_thread_list_member = None, allocated_time = 1\<rparr>, st)
              | Some best \<Rightarrow>
                  let (st, m) = fold (edf_arrival_body current_time best) release_queue
                                  (st, edf_base_time (st best));
                      (st, m) = fold (edf_replenish_preempt_body current_time best) run_queue (st, m) in
                  Inr (\<lparr>scheduled_thread_list_member = Some best,
                        allocated_time = (if m > 0 then m else 1)\<rparr>, st)))"

section \<open>Selection loops\<close>

text \<open>The shape of every selection loop of the source: keep a running best, replace it by a better one.\<close>

definition keep_better :: "('a \<Rightarrow> 'a \<Rightarrow> bool) \<Rightarrow> 'a \<Rightarrow> 'a option \<Rightarrow> 'a option" where
  "keep_better better x best =
     (case best of None \<Rightarrow> Some x | Some b \<Rightarrow> if better x b then Some x else best)"

lemma keep_better_simps [simp]:
  "keep_better better x None = Some x"
  "keep_better better x (Some b) = (if better x b then Some x else Some b)"
  by (simp_all add: keep_better_def)

lemma fold_keep_better_Some: "\<exists>c. fold (keep_better better) xs (Some b) = Some c"
  by (induction xs arbitrary: b) auto

lemma fold_keep_better_None_iff: "fold (keep_better better) xs None = None \<longleftrightarrow> xs = []"
  by (cases xs) (use fold_keep_better_Some in \<open>force+\<close>)

locale best_of =
  fixes better :: "'a \<Rightarrow> 'a \<Rightarrow> bool" and ok :: "'a \<Rightarrow> bool"
  assumes better_irrefl: "ok x \<Longrightarrow> \<not> better x x"
    and better_trans: "ok x \<Longrightarrow> ok y \<Longrightarrow> ok z \<Longrightarrow> better x y \<Longrightarrow> better y z \<Longrightarrow> better x z"
begin

lemma fold_from_best:
  assumes "\<forall>x \<in> insert b (set xs). ok x" and "fold (keep_better better) xs (Some b) = Some c"
  shows "c \<in> insert b (set xs) \<and> (c = b \<or> better c b) \<and> (\<forall>x \<in> set xs. \<not> better x c)"
  using assms
proof (induction xs arbitrary: b)
  case Nil
  then show ?case by simp
next
  case (Cons x xs)
  show ?case
  proof (cases "better x b")
    case True
    with Cons have "c \<in> insert x (set xs)" "c = x \<or> better c x" "\<forall>y \<in> set xs. \<not> better y c"
      by auto
    moreover have "\<not> better x c"
      using calculation Cons.prems(1) better_irrefl better_trans by (metis insert_iff list.set_intros)
    moreover have "better c b"
      using calculation True Cons.prems(1) better_trans by (metis insert_iff list.set_intros)
    ultimately show ?thesis by auto
  next
    case False
    with Cons have "c \<in> insert b (set xs)" "c = b \<or> better c b" "\<forall>y \<in> set xs. \<not> better y c"
      by auto
    moreover have "\<not> better x c"
      using calculation False Cons.prems(1) better_trans by (metis insert_iff list.set_intros)
    ultimately show ?thesis by auto
  qed
qed

theorem selected_is_best:
  assumes "fold (keep_better better) xs None = Some c" and "\<forall>x \<in> set xs. ok x"
  shows "c \<in> set xs" and "x \<in> set xs \<Longrightarrow> \<not> better x c"
proof -
  from assms(1) obtain y ys where xs: "xs = y # ys" by (cases xs) auto
  with assms fold_from_best [of y ys c]
  have "c \<in> set xs \<and> (c = y \<or> better c y) \<and> (\<forall>x \<in> set ys. \<not> better x c)" by auto
  moreover have "\<not> better y c"
    using calculation assms(2) xs better_irrefl better_trans by (metis list.set_intros(1))
  ultimately show "c \<in> set xs" and "x \<in> set xs \<Longrightarrow> \<not> better x c" using xs by auto
qed

end

subsection \<open>The comparisons of the source are such orders\<close>

definition id_better :: "store \<Rightarrow> nat \<Rightarrow> nat \<Rightarrow> bool" where
  "id_better st a b = (ID (st a) < ID (st b))"

interpretation id_order: best_of "id_better st" "\<lambda>_. True" for st
  by unfold_locales (auto simp: id_better_def)

definition hrrn_better :: "store \<Rightarrow> int \<Rightarrow> nat \<Rightarrow> nat \<Rightarrow> bool" where
  "hrrn_better st t a b =
     (ratio_num st t a * processing_time (st b) > ratio_num st t b * processing_time (st a) \<or>
      (ratio_num st t a * processing_time (st b) = ratio_num st t b * processing_time (st a) \<and>
       ID (st a) < ID (st b)))"

text \<open>Cross-multiplied fractions with positive denominators compare transitively.\<close>

lemma cross_less_trans:
  fixes a b c d e f :: int
  assumes "0 < d" "0 < f" "0 < b" and "a * d \<ge> c * b" and "c * f \<ge> e * d"
  shows "a * f \<ge> e * b" and "a * d > c * b \<or> c * f > e * d \<Longrightarrow> a * f > e * b"
proof -
  have 1: "c * b * f \<le> a * d * f" using assms by (simp add: mult_right_mono)
  have 2: "e * d * b \<le> c * f * b" using assms by (simp add: mult_right_mono)
  from 1 2 have "(e * b) * d \<le> (a * f) * d" by (simp add: algebra_simps)
  then show "a * f \<ge> e * b" using assms(1) by (simp add: mult_le_cancel_right)
  assume "a * d > c * b \<or> c * f > e * d"
  then have "c * b * f < a * d * f \<or> e * d * b < c * f * b" using assms by auto
  with 1 2 have "(e * b) * d < (a * f) * d" by (auto simp: algebra_simps)
  then show "a * f > e * b" using assms(1) by (simp add: mult_less_cancel_right)
qed

interpretation hrrn_order: best_of "hrrn_better st t" "\<lambda>p. 0 < processing_time (st p)" for st t
proof (unfold_locales, goal_cases)
  case (1 x)
  then show ?case by (simp add: hrrn_better_def)
next
  case (2 x y z)
  note c = cross_less_trans [of "processing_time (st y)" "processing_time (st z)"
      "processing_time (st x)" "ratio_num st t y" "ratio_num st t x" "ratio_num st t z", OF 2(2,3,1)]
  show ?case using 2(4,5) c unfolding hrrn_better_def by fastforce
qed

interpretation dm_order: best_of "\<lambda>a b. dm_thread_cmp (st a) (st b) > 0" "\<lambda>_. True" for st
  by unfold_locales (auto simp: dm_thread_cmp_def split: if_splits)

interpretation edf_order: best_of "\<lambda>a b. edf_thread_cmp (st a) (st b) > 0" "\<lambda>_. True" for st
  by unfold_locales (auto simp: edf_thread_cmp_def split: if_splits)

subsection \<open>The loops of the source are such loops\<close>

lemma default_body_keep: "default_body st = keep_better (id_better st)"
  by (auto simp: default_body_def keep_better_def id_better_def fun_eq_iff split: option.splits)

lemma dm_best_body_keep: "dm_best_body st = keep_better (\<lambda>a b. dm_thread_cmp (st a) (st b) > 0)"
  by (auto simp: dm_best_body_def keep_better_def fun_eq_iff split: option.splits)

definition hrrn_rel :: "store \<Rightarrow> int \<Rightarrow> nat option \<times> int \<times> int \<Rightarrow> bool" where
  "hrrn_rel st t acc =
     (case acc of (None, _) \<Rightarrow> True | (Some b, n, d) \<Rightarrow> n = ratio_num st t b \<and> d = processing_time (st b))"

lemma hrrn_body_step:
  assumes "hrrn_rel st t acc"
  shows "hrrn_rel st t (hrrn_body st t th acc) \<and>
         fst (hrrn_body st t th acc) = keep_better (hrrn_better st t) th (fst acc)"
  using assms by (cases acc; cases "fst acc")
    (auto simp: hrrn_body_def hrrn_rel_def Let_def hrrn_better_def)

lemma hrrn_fold_keep:
  "hrrn_rel st t acc \<Longrightarrow>
   fst (fold (hrrn_body st t) xs acc) = fold (keep_better (hrrn_better st t)) xs (fst acc)"
  using hrrn_body_step by (induction xs arbitrary: acc) auto

lemma edf_select_keep:
  "edf_select st xs = fold (keep_better (\<lambda>a b. edf_thread_cmp (st a) (st b) > 0))
     (filter (\<lambda>p. is_hard_rt (cbs (st p)) \<or> \<not> is_throttled (cbs (st p))) xs) None"
proof -
  have "fold (edf_best_body st) xs acc = fold (keep_better (\<lambda>a b. edf_thread_cmp (st a) (st b) > 0))
     (filter (\<lambda>p. is_hard_rt (cbs (st p)) \<or> \<not> is_throttled (cbs (st p))) xs) acc" for acc
    by (induction xs arbitrary: acc) (auto simp: edf_best_body_def keep_better_def split: option.splits)
  then show ?thesis by (simp add: edf_select_def)
qed

lemma check_deadline_miss_keep:
  "check_deadline_miss st xs t =
     fold (keep_better (id_better st)) (filter (\<lambda>p. current_deadline (st p) \<le> t) xs) None"
proof -
  have "fold (check_deadline_body st t) xs acc =
     fold (keep_better (id_better st)) (filter (\<lambda>p. current_deadline (st p) \<le> t) xs) acc" for acc
    by (induction xs arbitrary: acc)
      (auto simp: check_deadline_body_def keep_better_def id_better_def split: option.splits)
  then show ?thesis by (simp add: check_deadline_miss_def)
qed

section \<open>Non-real-time scheduling\<close>

lemma fold_keep_better_obtain:
  assumes "xs \<noteq> []"
  obtains c where "fold (keep_better better) xs None = Some c"
  using assms fold_keep_better_None_iff [of better xs] by (cases "fold (keep_better better) xs None") auto

text \<open>
  HRRN runs, to completion, a ready thread whose response ratio
  (waiting + service) / service is the highest of the run queue, and among equals one with the
  smallest ID. The ratios are compared by the cross products of the source.\<close>

theorem hrrn_highest_ratio:
  assumes "run_queue \<noteq> []" and "\<forall>p \<in> set run_queue. 0 < processing_time (st p)"
  shows "\<exists>th \<in> set run_queue.
    schedule_hrrn st run_queue t =
      \<lparr>scheduled_thread_list_member = Some th, allocated_time = remaining_time (st th)\<rparr> \<and>
    (\<forall>x \<in> set run_queue.
       ratio_num st t x * processing_time (st th) \<le> ratio_num st t th * processing_time (st x) \<and>
       (ratio_num st t x * processing_time (st th) = ratio_num st t th * processing_time (st x) \<longrightarrow>
        ID (st th) \<le> ID (st x)))"
proof -
  obtain c where c: "fold (keep_better (hrrn_better st t)) run_queue None = Some c"
    using assms(1) by (rule fold_keep_better_obtain)
  note best = hrrn_order.selected_is_best [OF c assms(2)]
  have "fst (fold (hrrn_body st t) run_queue (None, 0, 1)) = Some c"
    using hrrn_fold_keep [of st t "(None, 0, 1)" run_queue] c by (simp add: hrrn_rel_def)
  then show ?thesis
    using best by (intro bexI [of _ c]) (force simp: schedule_hrrn_def hrrn_better_def)+
qed

text \<open>Concrete threads for the witnesses: number \<open>p\<close> needs \<open>p + 1\<close> time units.\<close>

definition demo_store :: store where
  "demo_store p = \<lparr>ID = int p, arrival_time = 0, processing_time = int p + 1, remaining_time = int p + 1,
     priority = int p mod 2, deadline = 20 - int p, period = 10, current_deadline = 9,
     cbs = \<lparr>budget = 2, remaining_budget = 2, is_hard_rt = even p, is_throttled = False,
            throttled_arrived_time = 0\<rparr>\<rparr>"

theorem hrrn_highest_ratio_witness:
  "\<exists>th \<in> set [0, 1]. scheduled_thread_list_member (schedule_hrrn demo_store [0, 1] 5) = Some th"
  using hrrn_highest_ratio [of "[0, 1]" demo_store 5] by (auto simp: demo_store_def)

lemma schedule_default_smallest:
  assumes "run_queue \<noteq> []"
  shows "\<exists>th \<in> set run_queue. scheduled_thread_list_member (schedule_default st run_queue) = Some th \<and>
           (\<forall>x \<in> set run_queue. ID (st th) \<le> ID (st x))"
proof -
  obtain c where c: "fold (keep_better (id_better st)) run_queue None = Some c"
    using assms by (rule fold_keep_better_obtain)
  from id_order.selected_is_best [OF c] show ?thesis
    by (intro bexI [of _ c]) (force simp: schedule_default_def default_body_keep c id_better_def)+
qed

subsection \<open>Priority round robin\<close>

lemma best_priority_eq:
  assumes "xs \<noteq> []" and "\<forall>p \<in> set xs. priority (st p) \<le> INT_MAX"
  shows "best_priority st xs = Min ((\<lambda>p. priority (st p)) ` set xs)"
proof -
  have "fold (\<lambda>th b. if priority (st th) < b then priority (st th) else b) ys m
      = fold min (map (\<lambda>p. priority (st p)) ys) m" for ys m
    by (induction ys arbitrary: m) (auto simp: min_def)
  then have "best_priority st xs = Min (set (INT_MAX # map (\<lambda>p. priority (st p)) xs))"
    unfolding best_priority_def Min.set_eq_fold by simp
  also have "\<dots> = min INT_MAX (Min ((\<lambda>p. priority (st p)) ` set xs))"
    using assms(1) by simp
  also have "\<dots> = Min ((\<lambda>p. priority (st p)) ` set xs)"
  proof (rule min_absorb2)
    have hd: "hd xs \<in> set xs" using assms(1) by simp
    then have "Min ((\<lambda>p. priority (st p)) ` set xs) \<le> priority (st (hd xs))" by (intro Min_le) auto
    also have "\<dots> \<le> INT_MAX" using hd assms(2) by blast
    finally show "Min ((\<lambda>p. priority (st p)) ` set xs) \<le> INT_MAX" .
  qed
  finally show ?thesis .
qed

definition group :: "store \<Rightarrow> nat list \<Rightarrow> nat list" where
  "group st xs = filter (\<lambda>p. priority (st p) = Min ((\<lambda>p. priority (st p)) ` set xs)) xs"

lemma group_nonempty: "xs \<noteq> [] \<Longrightarrow> group st xs \<noteq> []"
  unfolding group_def filter_empty_conv
  by (metis (mono_tags, lifting) Min_in finite_imageI imageE image_is_empty list.set_finite set_empty)

lemma count_fold: "fold (\<lambda>x n. if P x then Suc n else n) xs k = k + length (filter P xs)"
  by (induction xs arbitrary: k) auto

lemma find_eq_hd_filter:
  "filter P xs \<noteq> [] \<Longrightarrow> find P xs = Some (hd (filter P xs))"
  by (induction xs) auto

lemma filter_remove1_hd:
  "distinct xs \<Longrightarrow> filter P xs = y # ys \<Longrightarrow> filter P (remove1 y xs) = ys"
  by (simp add: filter_remove1)

lemma group_move_tail:
  assumes "distinct xs" and "group st xs = c # cs"
  shows "group st (move_tail c xs) = cs @ [c]"
proof -
  have c: "c \<in> set (group st xs)" using assms(2) by simp
  then have cp: "priority (st c) = Min ((\<lambda>p. priority (st p)) ` set xs)" by (simp add: group_def)
  from c have "set (move_tail c xs) = set xs"
    using assms(1) by (auto simp: move_tail_def group_def)
  with assms cp show ?thesis
    by (auto simp: group_def move_tail_def filter_remove1)
qed

lemma schedule_priority_rr_step:
  assumes "run_queue \<noteq> []" and "distinct run_queue" and "\<forall>p \<in> set run_queue. priority (st p) \<le> INT_MAX"
    and "group st run_queue = c # cs"
  shows "\<exists>t q. schedule_priority_rr st run_queue =
           Inr (\<lparr>scheduled_thread_list_member = Some c, allocated_time = t\<rparr>, q) \<and>
           group st q = cs @ [c] \<and> mset q = mset run_queue \<and>
           filter (\<lambda>p. p \<noteq> c) q = filter (\<lambda>p. p \<noteq> c) run_queue \<and>
           t = (if cs = [] then remaining_time (st c) else min (remaining_time (st c)) 2)"
proof -
  let ?P = "\<lambda>p. priority (st p) = best_priority st run_queue"
  have g: "filter ?P run_queue = c # cs"
    using assms best_priority_eq [OF assms(1,3)] by (simp add: group_def)
  then have find: "find ?P run_queue = Some c" using find_eq_hd_filter [of ?P run_queue] by simp
  have cnt: "fold (\<lambda>th n. if ?P th then Suc n else n) run_queue 0 = Suc (length cs)"
    using count_fold [of ?P run_queue 0] g by simp
  have cin: "c \<in> set run_queue" using g by (metis filter_is_subset list.set_intros(1) subsetD)
  let ?q = "if Suc (length cs) > 1 then move_tail c run_queue else run_queue"
  have "group st ?q = cs @ [c]"
    using group_move_tail [OF assms(2,4)] assms(4) by (cases cs) auto
  moreover have "mset ?q = mset run_queue" using cin by (auto simp: move_tail_def)
  moreover have "filter (\<lambda>p. p \<noteq> c) ?q = filter (\<lambda>p. p \<noteq> c) run_queue"
    using assms(2) by (auto simp: move_tail_def filter_remove1 distinct_remove1_removeAll
        removeAll_filter_not_eq intro!: filter_cong)
  moreover have "schedule_priority_rr st run_queue = Inr (\<lparr>scheduled_thread_list_member = Some c,
      allocated_time = (if cs = [] then remaining_time (st c) else min (remaining_time (st c)) 2)\<rparr>, ?q)"
    using assms(1) find cnt by (auto simp: schedule_priority_rr_def Let_def)
  ultimately show ?thesis by blast
qed

text \<open>Successive scheduling decisions, each on the queue the previous one left.\<close>

fun rr_run :: "store \<Rightarrow> nat \<Rightarrow> nat list \<Rightarrow> (nat option list \<times> nat list) kres" where
  "rr_run st 0 q = Inr ([], q)"
| "rr_run st (Suc n) q =
     bindE (schedule_priority_rr st q) (\<lambda>(r, q).
     bindE (rr_run st n q) (\<lambda>(rs, q). Inr (scheduled_thread_list_member r # rs, q)))"

text \<open>C14: Round robin is fair within the most urgent priority group: when the threads of
  that group are \<open>g\<^sub>0, ..., g\<^sub>k\<^sub>-\<^sub>1\<close> in queue order, the \<open>i\<close>-th scheduling decision picks \<open>g\<close> at
  \<open>i mod k\<close>, for any number of decisions; the queue keeps its threads.\<close>

theorem priority_rr_fair:
  assumes "run_queue \<noteq> []" and "distinct run_queue" and "\<forall>p \<in> set run_queue. priority (st p) \<le> INT_MAX"
  shows "\<exists>q. rr_run st n run_queue =
           Inr (map (\<lambda>i. Some (group st run_queue ! (i mod length (group st run_queue)))) [0..<n], q) \<and>
           mset q = mset run_queue"
  using assms
proof (induction n arbitrary: run_queue)
  case 0
  then show ?case by simp
next
  case (Suc n)
  obtain c cs where g: "group st run_queue = c # cs"
    using group_nonempty [OF Suc.prems(1)] by (cases "group st run_queue") auto
  from schedule_priority_rr_step [OF Suc.prems g] obtain t q where
    q: "schedule_priority_rr st run_queue = Inr (\<lparr>scheduled_thread_list_member = Some c, allocated_time = t\<rparr>, q)"
       "group st q = cs @ [c]" "mset q = mset run_queue" by blast
  have set_q: "set q = set run_queue" "distinct q" "q \<noteq> []"
    using q(3) Suc.prems(1,2) mset_eq_setD mset_eq_imp_distinct_iff by (auto, force)
  obtain q' where q': "rr_run st n q = Inr (map (\<lambda>i. Some ((cs @ [c]) ! (i mod length (cs @ [c])))) [0..<n], q')"
    "mset q' = mset q" using Suc.IH [of q] set_q Suc.prems(3) q(2) by auto
  have "(cs @ [c]) ! (i mod Suc (length cs)) = (c # cs) ! (Suc i mod Suc (length cs))" for i
    using mod_less_divisor [of "Suc (length cs)" i] by (auto simp: mod_Suc nth_append less_Suc_eq)
  then have "map (\<lambda>i. Some ((cs @ [c]) ! (i mod Suc (length cs)))) [0..<n]
      = map (\<lambda>i. Some ((c # cs) ! (i mod Suc (length cs)))) (map Suc [0..<n])" by simp
  then show ?case using q q' g by (simp add: upt_conv_Cons map_Suc_upt del: upt_Suc)
qed

theorem priority_rr_fair_witness:
  "\<exists>q. rr_run demo_store 5 [0, 1, 2] =
     Inr (map (\<lambda>i. Some (group demo_store [0, 1, 2] ! (i mod length (group demo_store [0, 1, 2])))) [0..<5], q) \<and>
     mset q = mset [0, 1, 2]"
  by (rule priority_rr_fair) (simp_all add: INT_MAX_def demo_store_def)

section \<open>Deadline-monotonic scheduling\<close>

text \<open>The first miss reported is the missed thread with the smallest ID.\<close>

lemma check_deadline_miss_Some:
  assumes "check_deadline_miss st run_queue t = Some m"
  shows "m \<in> set run_queue" and "current_deadline (st m) \<le> t"
    and "p \<in> set run_queue \<Longrightarrow> current_deadline (st p) \<le> t \<Longrightarrow> ID (st m) \<le> ID (st p)"
  using id_order.selected_is_best [OF assms [unfolded check_deadline_miss_keep]]
  by (auto simp: id_better_def not_less)

lemma check_deadline_miss_None:
  "check_deadline_miss st run_queue t = None \<longleftrightarrow> (\<forall>p \<in> set run_queue. t < current_deadline (st p))"
  by (auto simp: check_deadline_miss_keep fold_keep_better_None_iff filter_empty_conv not_le)

lemma next_arrival_fold:
  "fold next_arrival_body es (a, m) = (b, n) \<Longrightarrow>
   n \<le> m \<and> (\<forall>e \<in> set es. n \<le> release_time e) \<and>
   ((b = a \<and> n = m) \<or> (\<exists>e \<in> set es. b = Some e \<and> n = release_time e))"
proof (induction es arbitrary: a m)
  case Nil
  then show ?case by simp
next
  case (Cons e es)
  from Cons.IH Cons.prems show ?case
    by (cases "release_time e < m") (force simp: next_arrival_body_def)+
qed

text \<open>
  Deadline-monotonic scheduling: when no deadline has been missed, the thread that runs
  has the shortest relative deadline of the ready threads (the smallest ID among equals), it is
  never given more than its remaining time, and if the next thread to arrive is more urgent it is
  not run past that arrival.\<close>

theorem dm_shortest_deadline:
  assumes "run_queue \<noteq> []" and "\<forall>p \<in> set run_queue. t < current_deadline (st p)"
    and "\<forall>p \<in> set run_queue. 1 \<le> remaining_time (st p)"
  shows "\<exists>th \<in> set run_queue. \<exists>a.
    schedule_dm st run_queue release_queue t = \<lparr>scheduled_thread_list_member = Some th, allocated_time = a\<rparr> \<and>
    (\<forall>x \<in> set run_queue. deadline (st th) < deadline (st x) \<or>
        deadline (st th) = deadline (st x) \<and> ID (st th) \<le> ID (st x)) \<and>
    1 \<le> a \<and> a \<le> remaining_time (st th) \<and>
    (\<forall>e n. fold next_arrival_body release_queue (None, INT_MAX) = (Some e, n) \<longrightarrow> t < n \<longrightarrow>
        dm_thread_cmp (st (thrd e)) (st th) > 0 \<longrightarrow> t + a \<le> n)"
proof -
  obtain c where c: "fold (keep_better (\<lambda>a b. dm_thread_cmp (st a) (st b) > 0)) run_queue None = Some c"
    using assms(1) by (rule fold_keep_better_obtain)
  note best = dm_order.selected_is_best [OF c]
  let ?arr = "fold next_arrival_body release_queue (None, INT_MAX)"
  have "1 \<le> dm_allocate st c ?arr t \<and> dm_allocate st c ?arr t \<le> remaining_time (st c)"
    using assms(3) best(1) by (auto simp: dm_allocate_def Let_def split: prod.splits option.splits)
  moreover have "t + dm_allocate st c ?arr t \<le> n"
    if "?arr = (Some e, n)" "t < n" "dm_thread_cmp (st (thrd e)) (st c) > 0" for e n
    using that by (auto simp: dm_allocate_def dm_thread_cmp_def Let_def split: if_splits)
  moreover have "schedule_dm st run_queue release_queue t =
      \<lparr>scheduled_thread_list_member = Some c, allocated_time = dm_allocate st c ?arr t\<rparr>"
    using assms(2) c by (simp add: schedule_dm_def dm_best_body_keep
        check_deadline_miss_None [THEN iffD2] Let_def)
  ultimately show ?thesis using best
    by (intro bexI [of _ c] exI [of _ "dm_allocate st c ?arr t"])
      (fastforce simp: dm_thread_cmp_def split: if_splits)+
qed

theorem dm_shortest_deadline_witness:
  "\<exists>th \<in> set [0, 1]. \<exists>a. schedule_dm demo_store [0, 1] [] 5 =
     \<lparr>scheduled_thread_list_member = Some th, allocated_time = a\<rparr> \<and> a \<le> remaining_time (demo_store th)"
  using dm_shortest_deadline [of "[0, 1]" 5 demo_store "[]"] by (auto simp: demo_store_def)

lemma next_arrival_keep:
  "\<forall>x \<in> set fs. release_time e \<le> release_time x \<Longrightarrow>
   fold next_arrival_body fs (Some e, release_time e) = (Some e, release_time e)"
  by (induction fs) (auto simp: next_arrival_body_def)

lemma next_arrival_first:
  assumes "\<forall>x \<in> set es. release_time e < release_time x" and "\<forall>x \<in> set fs. release_time e \<le> release_time x"
    and "release_time e < INT_MAX"
  shows "fold next_arrival_body (es @ e # fs) (None, INT_MAX) = (Some e, release_time e)"
proof -
  obtain b n where f: "fold next_arrival_body es (None, INT_MAX) = (b, n)" by (cases "fold next_arrival_body es (None, INT_MAX)")
  have "release_time e < n" using next_arrival_fold [OF f] assms(1,3) by auto
  then show ?thesis using next_arrival_keep [OF assms(2)] by (simp add: f next_arrival_body_def)
qed

lemma dm_cmp_pos: "dm_thread_cmp a b > 0 \<longleftrightarrow> deadline a < deadline b \<or> deadline a = deadline b \<and> ID a < ID b"
  by (simp add: dm_thread_cmp_def)

text \<open>C13: Deadline-monotonic scheduling looks only at the earliest arrival. For every run queue without a missed deadline and
  every release queue whose first earliest entry \<open>e\<close> is in the future: the thread chosen has the shortest relative deadline (the
  smallest ID among equals) and gets at least one unit and at most its remaining time. If \<open>e\<close> is more urgent than that
  thread, no more urgent thread is released within the time allotted. Otherwise the thread gets all of its remaining time, so
  each more urgent thread released before it would end is overrun. The allotted time runs past a more urgent release
  exactly in that case.\<close>

theorem dm_overruns_later_arrival:
  assumes "run_queue \<noteq> []" and "\<forall>p \<in> set run_queue. t < current_deadline (st p)"
    and "\<forall>p \<in> set run_queue. 1 \<le> remaining_time (st p)"
    and "release_queue = es @ e # fs" and "t < release_time e" and "release_time e < INT_MAX"
    and "\<forall>x \<in> set es. release_time e < release_time x" and "\<forall>x \<in> set fs. release_time e \<le> release_time x"
  shows "\<exists>th \<in> set run_queue. \<exists>a.
    schedule_dm st run_queue release_queue t = \<lparr>scheduled_thread_list_member = Some th, allocated_time = a\<rparr> \<and>
    (\<forall>x \<in> set run_queue. deadline (st th) < deadline (st x) \<or>
        deadline (st th) = deadline (st x) \<and> ID (st th) \<le> ID (st x)) \<and>
    1 \<le> a \<and> a \<le> remaining_time (st th) \<and>
    ((\<exists>f \<in> set release_queue. dm_thread_cmp (st (thrd f)) (st th) > 0 \<and> release_time f < t + a) \<longleftrightarrow>
     \<not> dm_thread_cmp (st (thrd e)) (st th) > 0 \<and>
     (\<exists>f \<in> set release_queue. dm_thread_cmp (st (thrd f)) (st th) > 0 \<and> release_time f < t + remaining_time (st th)))"
proof -
  obtain c where c: "fold (keep_better (\<lambda>a b. dm_thread_cmp (st a) (st b) > 0)) run_queue None = Some c"
    using assms(1) by (rule fold_keep_better_obtain)
  note best = dm_order.selected_is_best [OF c]
  define a where "a = dm_allocate st c (Some e, release_time e) t"
  have r: "schedule_dm st run_queue release_queue t = \<lparr>scheduled_thread_list_member = Some c, allocated_time = a\<rparr>"
    using assms(2) c next_arrival_first [OF assms(7,8,6)]
    by (simp add: schedule_dm_def dm_best_body_keep check_deadline_miss_None [THEN iffD2] Let_def assms(4) a_def)
  have m: "deadline (st c) < deadline (st x) \<or> deadline (st c) = deadline (st x) \<and> ID (st c) \<le> ID (st x)" if "x \<in> set run_queue" for x
    using best(2) that by (fastforce simp: dm_cmp_pos)
  have b: "1 \<le> a" "a \<le> remaining_time (st c)"
    using assms(3,5) best(1) by (auto simp: a_def dm_allocate_def Let_def)
  have all: "a = remaining_time (st c)" if "\<not> dm_thread_cmp (st (thrd e)) (st c) > 0"
    using that assms(5) by (auto simp: a_def dm_allocate_def dm_cmp_pos Let_def)
  have upto: "t + a \<le> release_time e" if "dm_thread_cmp (st (thrd e)) (st c) > 0"
    using that assms(5) by (auto simp: a_def dm_allocate_def dm_cmp_pos Let_def)
  have first: "release_time e \<le> release_time f" if "f \<in> set release_queue" for f
    using that assms(4,7,8) by auto
  have "(\<exists>f \<in> set release_queue. dm_thread_cmp (st (thrd f)) (st c) > 0 \<and> release_time f < t + a) \<longleftrightarrow>
     \<not> dm_thread_cmp (st (thrd e)) (st c) > 0 \<and>
     (\<exists>f \<in> set release_queue. dm_thread_cmp (st (thrd f)) (st c) > 0 \<and> release_time f < t + remaining_time (st c))"
    using all upto first by (cases "dm_thread_cmp (st (thrd e)) (st c) > 0") force+
  then show ?thesis using r m b best(1) by blast
qed

text \<open>Thread 0, with relative deadline 20 and 10 units of work, is given all 10 units, although thread 1, with relative deadline
  5, arrives 3 units from now, because a less urgent thread arrives even earlier.\<close>

definition dm_late_store :: store where
  "dm_late_store p = \<lparr>ID = int p, arrival_time = 0, processing_time = 10, remaining_time = 10,
     priority = 0, deadline = (if p = 1 then 5 else 20), period = 40, current_deadline = 40,
     cbs = \<lparr>budget = 0, remaining_budget = 0, is_hard_rt = True, is_throttled = False,
            throttled_arrived_time = 0\<rparr>\<rparr>"

theorem dm_overruns_later_arrival_witness:
  "\<exists>a. schedule_dm dm_late_store [0] [\<lparr>thrd = 2, release_time = 2\<rparr>, \<lparr>thrd = 1, release_time = 3\<rparr>] 0
     = \<lparr>scheduled_thread_list_member = Some 0, allocated_time = a\<rparr> \<and> 3 < a"
  using dm_overruns_later_arrival [of "[0]" 0 dm_late_store "[\<lparr>thrd = 2, release_time = 2\<rparr>, \<lparr>thrd = 1, release_time = 3\<rparr>]"
      "[]" "\<lparr>thrd = 2, release_time = 2\<rparr>" "[\<lparr>thrd = 1, release_time = 3\<rparr>]"]
  by (auto simp: dm_late_store_def dm_thread_cmp_def INT_MAX_def)

section \<open>EDF with constant bandwidth servers\<close>

definition runnable :: "thread \<Rightarrow> bool" where
  "runnable t = (is_hard_rt (cbs t) \<or> \<not> is_throttled (cbs t))"

lemma edf_cmp_not_pos:
  "\<not> 0 < edf_thread_cmp a b \<longleftrightarrow> current_deadline b < current_deadline a \<or>
     current_deadline b = current_deadline a \<and> ID b \<le> ID a"
  by (auto simp: edf_thread_cmp_def)

lemma edf_select_Some:
  assumes "edf_select st run_queue = Some b"
  shows "b \<in> set run_queue" and "runnable (st b)"
    and "p \<in> set run_queue \<Longrightarrow> runnable (st p) \<Longrightarrow>
           current_deadline (st b) < current_deadline (st p) \<or>
           current_deadline (st b) = current_deadline (st p) \<and> ID (st b) \<le> ID (st p)"
  using edf_order.selected_is_best [OF assms [unfolded edf_select_keep]]
  unfolding edf_cmp_not_pos by (auto simp: runnable_def)

lemma edf_select_None:
  "edf_select st run_queue = None \<longleftrightarrow> (\<forall>p \<in> set run_queue. \<not> runnable (st p))"
  by (auto simp: edf_select_keep fold_keep_better_None_iff filter_empty_conv runnable_def)

text \<open>
  What the passes over the run queue keep of a thread: its parameters, and that a soft thread
  which is not throttled still has budget.
\<close>

definition same_params :: "thread \<Rightarrow> thread \<Rightarrow> bool" where
  "same_params a b = (ID a = ID b \<and> period a = period b \<and> budget (cbs a) = budget (cbs b) \<and>
     is_hard_rt (cbs a) = is_hard_rt (cbs b) \<and> remaining_time a = remaining_time b)"

lemma same_params_trans: "same_params a b \<Longrightarrow> same_params b c \<Longrightarrow> same_params a c"
  by (simp add: same_params_def)

lemma fold_same_params:
  assumes "\<And>th st p. same_params (f th st p) (st p)"
  shows "same_params (fold f xs st p) (st p)"
proof (induction xs arbitrary: st)
  case Nil
  show ?case by (simp add: same_params_def)
next
  case (Cons x xs)
  from same_params_trans [OF Cons.IH [of "f x st"] assms [of x st p]] show ?case by simp
qed

lemma edf_replenish_params: "same_params (edf_replenish t xs st p) (st p)"
  unfolding edf_replenish_def
  by (rule fold_same_params) (simp add: edf_replenish_body_def same_params_def Let_def)

lemma edf_throttle_params: "same_params (edf_throttle t xs st p) (st p)"
  unfolding edf_throttle_def
  by (rule fold_same_params) (simp add: edf_throttle_body_def same_params_def Let_def)

definition has_budget :: "thread \<Rightarrow> bool" where
  "has_budget t = (is_hard_rt (cbs t) \<or> is_throttled (cbs t) \<or> 0 < remaining_budget (cbs t))"

lemma edf_throttle_has_budget: "p \<in> set xs \<Longrightarrow> has_budget (edf_throttle t xs st p)"
proof -
  have keep: "has_budget (st p) \<Longrightarrow> has_budget (fold (edf_throttle_body t) xs st p)" for st xs p
    by (induction xs arbitrary: st) (auto simp: edf_throttle_body_def has_budget_def Let_def)
  have one: "has_budget (edf_throttle_body t p st p)" for st p
    by (auto simp: edf_throttle_body_def has_budget_def Let_def)
  have "p \<in> set xs \<Longrightarrow> has_budget (fold (edf_throttle_body t) xs st p)" for st
    by (induction xs arbitrary: st) (auto intro: keep one)
  then show "p \<in> set xs \<Longrightarrow> has_budget (edf_throttle t xs st p)" by (simp add: edf_throttle_def)
qed

subsection \<open>Termination of the postponing loop\<close>

text \<open>
  A postponed thread has exactly its bandwidth again, so it is never postponed twice: the number
  of threads of the queue that exceed their bandwidth decreases in every round.
\<close>

lemma postponed_does_not_violate: "0 < period th \<Longrightarrow> \<not> edf_violates t (edf_postpone t th)"
  by (simp add: edf_violates_def edf_postpone_def Let_def)

definition violators :: "int \<Rightarrow> nat list \<Rightarrow> store \<Rightarrow> nat set" where
  "violators t xs st = {p \<in> set xs. edf_violates t (st p)}"

lemma violators_postpone:
  assumes "b \<in> set xs" and "edf_violates t (st b)" and "0 < period (st b)"
  shows "violators t xs (st(b := edf_postpone t (st b))) = violators t xs st - {b}"
    and "card (violators t xs (st(b := edf_postpone t (st b)))) < card (violators t xs st)"
proof -
  show eq: "violators t xs (st(b := edf_postpone t (st b))) = violators t xs st - {b}"
    using postponed_does_not_violate [OF assms(3)] by (auto simp: violators_def)
  have "b \<in> violators t xs st" "finite (violators t xs st)"
    using assms(1,2) by (simp_all add: violators_def)
  then show "card (violators t xs (st(b := edf_postpone t (st b)))) < card (violators t xs st)"
    unfolding eq by (rule card_Diff1_less [rotated])
qed

lemma edf_postpone_params: "same_params (edf_postpone t th) th"
  by (simp add: edf_postpone_def same_params_def)

lemma edf_loop_result:
  assumes "\<forall>p \<in> set run_queue. 0 < period (st p) \<and> 0 < budget (cbs (st p)) \<and> has_budget (st p)"
    and "card (violators t run_queue st) < fuel"
  shows "\<exists>st' b. edf_loop fuel t run_queue st = Inr (st', b) \<and> b = edf_select st' run_queue \<and>
           (\<forall>p. same_params (st' p) (st p)) \<and> (\<forall>p \<in> set run_queue. has_budget (st' p)) \<and>
           (\<forall>c. b = Some c \<longrightarrow> \<not> edf_violates t (st' c))"
  using assms
proof (induction fuel arbitrary: st)
  case 0
  then show ?case by simp
next
  case (Suc fuel)
  show ?case
  proof (cases "\<exists>b. edf_select st run_queue = Some b \<and> edf_violates t (st b)")
    case False
    then show ?thesis using Suc.prems(1)
      by (cases "edf_select st run_queue") (auto simp: same_params_def)
  next
    case True
    then obtain b where b: "edf_select st run_queue = Some b" "edf_violates t (st b)" by blast
    let ?st = "st(b := edf_postpone t (st b))"
    have bin: "b \<in> set run_queue" using edf_select_Some(1) [OF b(1)] .
    have pre: "\<forall>p \<in> set run_queue. 0 < period (?st p) \<and> 0 < budget (cbs (?st p)) \<and> has_budget (?st p)"
      using Suc.prems(1) bin by (auto simp: edf_postpone_def has_budget_def)
    have "card (violators t run_queue ?st) < fuel"
      using violators_postpone(2) [where st = st and b = b and xs = run_queue and t = t] b(2) Suc.prems bin
      by force
    from Suc.IH [OF pre this] obtain st' c where
      r: "edf_loop fuel t run_queue ?st = Inr (st', c)" "c = edf_select st' run_queue"
      "\<forall>p. same_params (st' p) (?st p)" "\<forall>p \<in> set run_queue. has_budget (st' p)"
      "\<forall>d. c = Some d \<longrightarrow> \<not> edf_violates t (st' d)" by blast
    have "same_params (st' p) (st p)" for p
      using r(3) edf_postpone_params [of t "st b"] by (cases "p = b") (auto simp: same_params_def)
    then show ?thesis using b r by auto
  qed
qed

lemma card_violators_le: "card (violators t run_queue st) < Suc (length run_queue)"
proof -
  have "card (violators t run_queue st) \<le> card (set run_queue)"
    by (rule card_mono) (auto simp: violators_def)
  with card_length [of run_queue] show ?thesis by linarith
qed

subsection \<open>Shortening the allocation\<close>

lemma thread_restore_deadline [simp]: "th\<lparr>current_deadline := current_deadline th\<rparr> = th"
  by (cases th) simp

lemma thread_restore_cbs [simp]:
  "th\<lparr>current_deadline := current_deadline th, cbs := (cbs th)
     \<lparr>remaining_budget := remaining_budget (cbs th), is_throttled := is_throttled (cbs th)\<rparr>\<rparr> = th"
  by (cases th, cases "cbs th") simp

lemma edf_arrival_body_spec:
  "\<exists>m'. edf_arrival_body t best e (st, m) = (st, m') \<and> m' \<le> m \<and> (0 < m \<longrightarrow> 0 < m') \<and>
     (t < release_time e \<longrightarrow> thrd e \<noteq> best \<longrightarrow>
      edf_thread_cmp ((st (thrd e))\<lparr>current_deadline := release_time e + period (st (thrd e))\<rparr>) (st best) > 0 \<longrightarrow>
      t + m' \<le> release_time e)"
  by (auto simp: edf_arrival_body_def Let_def)

lemma edf_arrival_fold:
  "\<exists>m'. fold (edf_arrival_body t best) es (st, m) = (st, m') \<and> m' \<le> m \<and> (0 < m \<longrightarrow> 0 < m') \<and>
     (\<forall>e \<in> set es. t < release_time e \<longrightarrow> thrd e \<noteq> best \<longrightarrow>
      edf_thread_cmp ((st (thrd e))\<lparr>current_deadline := release_time e + period (st (thrd e))\<rparr>) (st best) > 0 \<longrightarrow>
      t + m' \<le> release_time e)"
proof (induction es arbitrary: m)
  case Nil
  show ?case by simp
next
  case (Cons e es)
  from edf_arrival_body_spec [of t best e st m] obtain m1 where
    1: "edf_arrival_body t best e (st, m) = (st, m1)" "m1 \<le> m" "0 < m \<longrightarrow> 0 < m1"
       "t < release_time e \<longrightarrow> thrd e \<noteq> best \<longrightarrow>
        edf_thread_cmp ((st (thrd e))\<lparr>current_deadline := release_time e + period (st (thrd e))\<rparr>) (st best) > 0 \<longrightarrow>
        t + m1 \<le> release_time e" by blast
  from Cons.IH [of m1] obtain m2 where
    2: "fold (edf_arrival_body t best) es (st, m1) = (st, m2)" "m2 \<le> m1" "0 < m1 \<longrightarrow> 0 < m2"
       "\<forall>e \<in> set es. t < release_time e \<longrightarrow> thrd e \<noteq> best \<longrightarrow>
        edf_thread_cmp ((st (thrd e))\<lparr>current_deadline := release_time e + period (st (thrd e))\<rparr>) (st best) > 0 \<longrightarrow>
        t + m2 \<le> release_time e" by blast
  show ?case
    by (rule exI [of _ m2]) (use 1 2 in \<open>fastforce\<close>)
qed

lemma edf_replenish_preempt_body_spec:
  "\<exists>m'. edf_replenish_preempt_body t best th (st, m) = (st, m') \<and> m' \<le> m \<and> (0 < m \<longrightarrow> 0 < m')"
proof (cases "\<not> is_hard_rt (cbs (st th)) \<and> is_throttled (cbs (st th)) \<and>
    current_deadline (st th) \<ge> t \<and> current_deadline (st th) < t + m")
  case True
  have restore: "(st th)\<lparr>current_deadline := current_deadline (st th), cbs := (cbs (st th))
      \<lparr>remaining_budget := remaining_budget (cbs (st th)), is_throttled := True\<rparr>\<rparr> = st th"
    using True thread_restore_cbs [of "st th"] by simp
  show ?thesis using True restore by (auto simp: edf_replenish_preempt_body_def Let_def)
next
  case False
  then show ?thesis by (auto simp: edf_replenish_preempt_body_def Let_def)
qed

lemma edf_replenish_preempt_fold:
  "\<exists>m'. fold (edf_replenish_preempt_body t best) xs (st, m) = (st, m') \<and> m' \<le> m \<and> (0 < m \<longrightarrow> 0 < m')"
proof (induction xs arbitrary: m)
  case Nil
  show ?case by simp
next
  case (Cons x xs)
  from edf_replenish_preempt_body_spec [of t best x st m] obtain m1 where
    1: "edf_replenish_preempt_body t best x (st, m) = (st, m1)" "m1 \<le> m" "0 < m \<longrightarrow> 0 < m1" by blast
  from Cons.IH [of m1] obtain m2 where
    "fold (edf_replenish_preempt_body t best) xs (st, m1) = (st, m2)" "m2 \<le> m1" "0 < m1 \<longrightarrow> 0 < m2"
    by blast
  with 1 show ?case by (intro exI [of _ m2]) auto
qed

text \<open>C12: EDF with CBS. With positive periods and budgets the postponing loop ends, and when no
  deadline has been missed the scheduler returns either idle, with every thread of the queue a
  throttled soft thread, or a runnable thread with the earliest absolute deadline of all runnable
  threads. That thread gets at least one time unit, never more than its remaining budget when it
  is soft, and is not run past the arrival of any thread that would have an earlier deadline.\<close>

theorem edf_earliest_deadline:
  assumes "run_queue \<noteq> []"
    and "\<forall>p \<in> set run_queue. 0 < period (st p) \<and> 0 < budget (cbs (st p)) \<and> 0 < remaining_time (st p)"
    and "\<forall>p \<in> set run_queue. t < current_deadline (edf_replenish t run_queue st p)"
  shows "\<exists>r st'. schedule_edf_cbs st run_queue release_queue t = Inr (r, st') \<and> 1 \<le> allocated_time r \<and>
    (case scheduled_thread_list_member r of
       None \<Rightarrow> \<forall>p \<in> set run_queue. \<not> runnable (st' p)
     | Some b \<Rightarrow> b \<in> set run_queue \<and> runnable (st' b) \<and>
         (\<forall>p \<in> set run_queue. runnable (st' p) \<longrightarrow> current_deadline (st' b) \<le> current_deadline (st' p)) \<and>
         allocated_time r \<le> remaining_time (st b) \<and>
         (is_hard_rt (cbs (st b)) \<or> allocated_time r \<le> remaining_budget (cbs (st' b))) \<and>
         (\<forall>e \<in> set release_queue. t < release_time e \<longrightarrow> thrd e \<noteq> b \<longrightarrow>
            edf_thread_cmp ((st' (thrd e))\<lparr>current_deadline := release_time e + period (st' (thrd e))\<rparr>) (st' b) > 0 \<longrightarrow>
            t + allocated_time r \<le> release_time e))"
proof -
  let ?s1 = "edf_replenish t run_queue st" and ?s2 = "edf_throttle t run_queue (edf_replenish t run_queue st)"
  have par: "same_params (?s2 p) (st p)" for p
    using edf_throttle_params edf_replenish_params by (rule same_params_trans)
  then have "\<forall>p \<in> set run_queue. 0 < period (?s2 p) \<and> 0 < budget (cbs (?s2 p)) \<and> has_budget (?s2 p)"
    using assms(2) edf_throttle_has_budget by (simp add: same_params_def)
  from edf_loop_result [OF this card_violators_le] obtain st' b where
    l: "edf_loop (Suc (length run_queue)) t run_queue ?s2 = Inr (st', b)" "b = edf_select st' run_queue"
      "\<And>p. same_params (st' p) (?s2 p)" "\<And>p. p \<in> set run_queue \<Longrightarrow> has_budget (st' p)" by blast
  have miss: "check_deadline_miss ?s1 run_queue t = None"
    using assms(3) by (simp add: check_deadline_miss_None)
  show ?thesis
  proof (cases b)
    case None
    then show ?thesis using l miss assms(1) edf_select_None [of st' run_queue]
      by (simp add: schedule_edf_cbs_def Let_def)
  next
    case (Some c)
    note sel = edf_select_Some [OF l(2) [symmetric, unfolded Some]]
    have pc: "same_params (st' c) (st c)" using l(3) par by (rule same_params_trans)
    have base: "0 < edf_base_time (st' c)" "edf_base_time (st' c) \<le> remaining_time (st c)"
      "is_hard_rt (cbs (st c)) \<or> edf_base_time (st' c) \<le> remaining_budget (cbs (st' c))"
      using assms(2) l(4) sel(1,2) pc
      by (auto simp: edf_base_time_def same_params_def has_budget_def runnable_def)
    from edf_arrival_fold [of t c release_queue st' "edf_base_time (st' c)"] obtain m1 where
      1: "fold (edf_arrival_body t c) release_queue (st', edf_base_time (st' c)) = (st', m1)"
        "m1 \<le> edf_base_time (st' c)" "0 < edf_base_time (st' c) \<longrightarrow> 0 < m1"
        "\<forall>e \<in> set release_queue. t < release_time e \<longrightarrow> thrd e \<noteq> c \<longrightarrow>
          edf_thread_cmp ((st' (thrd e))\<lparr>current_deadline := release_time e + period (st' (thrd e))\<rparr>) (st' c) > 0 \<longrightarrow>
          t + m1 \<le> release_time e" by blast
    from edf_replenish_preempt_fold [of t c run_queue st' m1] obtain m2 where
      2: "fold (edf_replenish_preempt_body t c) run_queue (st', m1) = (st', m2)" "m2 \<le> m1" "0 < m1 \<longrightarrow> 0 < m2"
      by blast
    have "schedule_edf_cbs st run_queue release_queue t =
        Inr (\<lparr>scheduled_thread_list_member = Some c, allocated_time = m2\<rparr>, st')"
      using l(1) Some miss assms(1) 1 2 base(1) by (simp add: schedule_edf_cbs_def Let_def)
    then show ?thesis using sel base 1 2 by (fastforce)
  qed
qed

theorem edf_earliest_deadline_witness:
  "\<exists>r st'. schedule_edf_cbs demo_store [0, 1] [] 5 = Inr (r, st') \<and> 1 \<le> allocated_time r"
  using edf_earliest_deadline [of "[0, 1]" demo_store 5 "[]"]
  by (auto simp: demo_store_def edf_replenish_def edf_replenish_body_def)

end
