(* ===== verification/Kalloc.thy ===== *)
theory Kalloc
  imports CStrings
begin

text \<open>
  The physical page allocator (\<^verbatim>\<open>FileSystem-RAID/kernel/kalloc.c\<close>). Physical memory is a
  byte array, and the free list is where the source keeps it: each free page holds the
  address of the next one in its first eight bytes. The linker symbol \<^verbatim>\<open>end\<close> is the field
  \<open>kend\<close> of the state. The abstraction \<open>free_list\<close> reads the list out of memory; \<^verbatim>\<open>kfree\<close>
  and \<^verbatim>\<open>kalloc\<close> are push and pop on it, and \<^verbatim>\<open>kinit\<close> builds it from every page between the
  end of the kernel and \<^verbatim>\<open>PHYSTOP\<close>.
\<close>

section \<open>The allocator\<close>

record mstate =
  mem :: bytes
  freelist :: nat
  kend :: nat

definition PGSIZE :: nat where "PGSIZE = 4096"
definition PHYSTOP :: nat where "PHYSTOP = 2281701376"

definition PGROUNDUP :: "nat \<Rightarrow> nat" where
  "PGROUNDUP sz = u64 (sz + 4095) div 4096 * 4096"

definition PGROUNDDOWN :: "nat \<Rightarrow> nat" where
  "PGROUNDDOWN a = a div 4096 * 4096"

definition kfree :: "nat \<Rightarrow> 'a mstate_scheme \<Rightarrow> 'a mstate_scheme kres" where
  "kfree pa s =
     (if pa mod PGSIZE \<noteq> 0 \<or> pa < kend s \<or> pa \<ge> PHYSTOP then Inl (Panic ''kfree'')
      else
        let s = s\<lparr>mem := memset (mem s) pa 1 PGSIZE\<rparr>;
            r = pa;
            s = s\<lparr>mem := put_le (mem s) r 8 (freelist s)\<rparr> in
        Inr (s\<lparr>freelist := r\<rparr>))"

definition kalloc :: "'a mstate_scheme \<Rightarrow> nat \<times> 'a mstate_scheme" where
  "kalloc s =
     (let r = freelist s;
          s = (if r \<noteq> 0 then s\<lparr>freelist := get_le (mem s) r 8\<rparr> else s);
          s = (if r \<noteq> 0 then s\<lparr>mem := memset (mem s) r 5 PGSIZE\<rparr> else s) in
      (r, s))"

function freerange_loop :: "nat \<Rightarrow> nat \<Rightarrow> 'a mstate_scheme \<Rightarrow> 'a mstate_scheme kres" where
  "freerange_loop p pa_end s =
     (if p + PGSIZE \<le> pa_end then bindE (kfree p s) (\<lambda>s. freerange_loop (p + PGSIZE) pa_end s)
      else Inr s)"
  by pat_completeness auto
termination
  by (relation "measure (\<lambda>(p, pa_end, s). pa_end - p)") (auto simp: PGSIZE_def)

declare freerange_loop.simps [simp del]

definition freerange :: "nat \<Rightarrow> nat \<Rightarrow> 'a mstate_scheme \<Rightarrow> 'a mstate_scheme kres" where
  "freerange pa_start pa_end s = freerange_loop (PGROUNDUP pa_start) pa_end s"

definition kinit :: "'a mstate_scheme \<Rightarrow> 'a mstate_scheme kres" where
  "kinit s = freerange (kend s) PHYSTOP s"

section \<open>The free list in memory\<close>

primrec free_list :: "bytes \<Rightarrow> nat \<Rightarrow> nat list \<Rightarrow> bool" where
  "free_list m p [] \<longleftrightarrow> p = 0"
| "free_list m p (x # xs) \<longleftrightarrow> p = x \<and> free_list m (get_le m x 8) xs"

definition page_ok :: "nat \<Rightarrow> nat \<Rightarrow> bool" where
  "page_ok e p \<longleftrightarrow> p mod PGSIZE = 0 \<and> e \<le> p \<and> p < PHYSTOP"

definition kmem_inv :: "'a mstate_scheme \<Rightarrow> nat list \<Rightarrow> bool" where
  "kmem_inv s xs \<longleftrightarrow> free_list (mem s) (freelist s) xs \<and> distinct xs \<and>
     (\<forall>p \<in> set xs. page_ok (kend s) p) \<and> 0 < kend s"

lemma pages_disjoint:
  assumes "page_ok e p" and "page_ok e q" and "p \<noteq> q"
  shows "p + PGSIZE \<le> q \<or> q + PGSIZE \<le> p"
proof -
  obtain a b where "p = PGSIZE * a" "q = PGSIZE * b"
    using assms(1,2) by (auto simp: page_ok_def PGSIZE_def mod_eq_0_iff_dvd dvd_def)
  with assms(3) show ?thesis by (cases a b rule: linorder_cases) (auto simp: PGSIZE_def)
qed

lemma free_list_cong:
  "(\<And>x. x \<in> set xs \<Longrightarrow> get_le m' x 8 = get_le m x 8) \<Longrightarrow> free_list m' p xs = free_list m p xs"
  by (induction xs arbitrary: p) auto

lemma get_le_fill_other:
  "x + 8 \<le> r \<or> r + n \<le> x \<Longrightarrow> get_le (fill_bytes m r c n) x 8 = get_le m x 8"
  by (rule get_le_cong) (auto simp: fill_bytes_def)

lemma free_list_page_write:
  assumes "\<forall>x \<in> set xs. page_ok e x" and "page_ok e r" and "r \<notin> set xs"
    and "\<And>i. i < r \<or> r + PGSIZE \<le> i \<Longrightarrow> m' i = m i"
  shows "free_list m' p xs = free_list m p xs"
proof (rule free_list_cong, rule get_le_cong)
  fix x i assume x: "x \<in> set xs" and i: "x \<le> i" "i < x + 8"
  have "r + PGSIZE \<le> x \<or> x + PGSIZE \<le> r"
    using pages_disjoint [of e r x] assms(1-3) x by auto
  with i show "m' i = m i" by (intro assms(4)) (auto simp: PGSIZE_def)
qed

lemma kfree_push:
  assumes inv: "kmem_inv s xs" and ok: "page_ok (kend s) pa" and "pa \<notin> set xs"
  shows "\<exists>s'. kfree pa s = Inr s' \<and> kmem_inv s' (pa # xs) \<and>
     (\<forall>i. i < pa \<or> pa + PGSIZE \<le> i \<longrightarrow> mem s' i = mem s i) \<and> kend s' = kend s"
proof -
  let ?m = "put_le (fill_bytes (mem s) pa 1 PGSIZE) pa 8 (freelist s)"
  have "freelist s < 256 ^ 8"
    using inv ok by (cases xs) (auto simp: kmem_inv_def page_ok_def PHYSTOP_def)
  then have nx: "get_le ?m pa 8 = freelist s" by (rule get_put_le)
  have frame: "\<And>i. i < pa \<or> pa + PGSIZE \<le> i \<Longrightarrow> ?m i = mem s i"
    by (auto simp: put_le_outside fill_bytes_def PGSIZE_def)
  have "free_list ?m (freelist s) xs"
    using free_list_page_write [of xs "kend s" pa ?m "mem s" "freelist s"] assms frame
    by (simp add: kmem_inv_def)
  with nx frame ok assms show ?thesis
    by (auto simp: kfree_def page_ok_def kmem_inv_def Let_def memset_eq)
qed

lemma kalloc_pop:
  assumes inv: "kmem_inv s (r # xs)"
  shows "\<exists>s'. kalloc s = (r, s') \<and> kmem_inv s' xs \<and> r \<noteq> 0 \<and> kend s' = kend s \<and>
     (\<forall>i. i < r \<or> r + PGSIZE \<le> i \<longrightarrow> mem s' i = mem s i)"
proof -
  have r: "freelist s = r" "page_ok (kend s) r" "r \<notin> set xs" "r \<noteq> 0"
    and xs: "free_list (mem s) (get_le (mem s) r 8) xs" "\<forall>x \<in> set xs. page_ok (kend s) x"
    using inv by (auto simp: kmem_inv_def page_ok_def)
  let ?m = "fill_bytes (mem s) r 5 PGSIZE"
  have frame: "\<And>i. i < r \<or> r + PGSIZE \<le> i \<Longrightarrow> ?m i = mem s i" by (auto simp: fill_bytes_def)
  have "free_list ?m (get_le (mem s) r 8) xs"
    using free_list_page_write [OF xs(2) r(2,3) frame] xs(1) by simp
  with r inv show ?thesis
    by (auto simp: kalloc_def kmem_inv_def Let_def memset_eq fill_bytes_def)
qed

lemma kalloc_empty: "kmem_inv s [] \<Longrightarrow> kalloc s = (0, s)"
  by (simp add: kalloc_def kmem_inv_def)

lemma aligned_gap: "p mod PGSIZE = 0 \<Longrightarrow> q mod PGSIZE = 0 \<Longrightarrow> p < q \<Longrightarrow> p + PGSIZE \<le> q"
proof -
  assume "p mod PGSIZE = 0" "q mod PGSIZE = 0" "p < q"
  then obtain a b where "p = PGSIZE * a" "q = PGSIZE * b" by (metis mod_0_imp_dvd dvdE)
  with \<open>p < q\<close> have "PGSIZE * Suc a \<le> PGSIZE * b" by (intro mult_le_mono2) simp
  with \<open>p = PGSIZE * a\<close> \<open>q = PGSIZE * b\<close> show ?thesis by simp
qed

lemma freerange_loop_pages:
  assumes "kmem_inv s xs" and "p mod PGSIZE = 0" and "kend s \<le> p" and "\<forall>x \<in> set xs. x < p"
  shows "\<exists>s' ps. freerange_loop p PHYSTOP s = Inr s' \<and> kmem_inv s' (rev ps @ xs) \<and> kend s' = kend s \<and>
     set ps = {q. p \<le> q \<and> q < PHYSTOP \<and> q mod PGSIZE = 0}"
  using assms
proof (induction p PHYSTOP s arbitrary: xs rule: freerange_loop.induct)
  case (1 p s)
  show ?case
  proof (cases "p + PGSIZE \<le> PHYSTOP")
    case False
    have "PHYSTOP mod PGSIZE = 0" by (simp add: PHYSTOP_def PGSIZE_def)
    then have "\<not> p < PHYSTOP" using False "1.prems"(2) aligned_gap [of p PHYSTOP] by auto
    then have "{q. p \<le> q \<and> q < PHYSTOP \<and> q mod PGSIZE = 0} = {}" by auto
    with False "1.prems" show ?thesis
      by (subst freerange_loop.simps) (auto intro!: exI [of _ "[]"])
  next
    case True
    have ok: "page_ok (kend s) p" using True "1.prems" by (simp add: page_ok_def PGSIZE_def)
    obtain s1 where s1: "kfree p s = Inr s1" "kmem_inv s1 (p # xs)" "kend s1 = kend s"
      using kfree_push [OF "1.prems"(1) ok] "1.prems"(4) by auto
    have pos: "PGSIZE > 0" by (simp add: PGSIZE_def)
    have pre: "(p + PGSIZE) mod PGSIZE = 0" "kend s1 \<le> p + PGSIZE" "\<forall>x \<in> set (p # xs). x < p + PGSIZE"
      using "1.prems"(2-4) s1(3) pos by auto
    obtain s' ps where s': "freerange_loop (p + PGSIZE) PHYSTOP s1 = Inr s'"
      "kmem_inv s' (rev ps @ p # xs)" "kend s' = kend s1"
      "set ps = {q. p + PGSIZE \<le> q \<and> q < PHYSTOP \<and> q mod PGSIZE = 0}"
      using "1.hyps" [OF True s1(1,2) pre] by (elim exE conjE) (rule that)
    have "set (p # ps) = {q. p \<le> q \<and> q < PHYSTOP \<and> q mod PGSIZE = 0}"
    proof (rule set_eqI)
      fix x
      have m: "x \<in> set ps \<longleftrightarrow> p + PGSIZE \<le> x \<and> x < PHYSTOP \<and> x mod PGSIZE = 0"
        by (simp only: s'(4) mem_Collect_eq)
      have "p \<le> x \<and> x mod PGSIZE = 0 \<Longrightarrow> x = p \<or> p + PGSIZE \<le> x"
        using aligned_gap [OF "1.prems"(2)] by (metis le_neq_implies_less)
      moreover have "p < PHYSTOP" using True pos by linarith
      ultimately have "x = p \<or> x \<in> set ps \<longleftrightarrow> p \<le> x \<and> x < PHYSTOP \<and> x mod PGSIZE = 0"
        using m "1.prems"(2) by (metis le_add1 le_refl le_trans)
      then show "x \<in> set (p # ps) \<longleftrightarrow> x \<in> {q. p \<le> q \<and> q < PHYSTOP \<and> q mod PGSIZE = 0}"
        by simp
    qed
    moreover have "freerange_loop p PHYSTOP s = Inr s'"
      using True s'(1) s1(1) by (subst freerange_loop.simps) simp
    ultimately show ?thesis using s'(2,3) s1(3)
      by (intro exI [of _ s'] exI [of _ "p # ps"] conjI) simp_all
  qed
qed

text \<open>C10: \<^verbatim>\<open>kinit\<close> returns without panic and leaves a well-formed free list that holds every
  page-aligned page between the end of the kernel and \<^verbatim>\<open>PHYSTOP\<close> exactly once.\<close>

theorem kinit_frees_all_pages:
  assumes "freelist s = 0" and "0 < kend s" and "kend s \<le> PHYSTOP"
  shows "\<exists>s' xs. kinit s = Inr s' \<and> kmem_inv s' xs \<and>
     set xs = {p. kend s \<le> p \<and> p < PHYSTOP \<and> p mod PGSIZE = 0}"
proof -
  have up: "PGROUNDUP (kend s) = (kend s + 4095) div 4096 * 4096"
    using assms(3) by (simp add: PGROUNDUP_def u64_def PHYSTOP_def)
  have "kmem_inv s []" using assms by (simp add: kmem_inv_def)
  moreover have "PGROUNDUP (kend s) mod PGSIZE = 0" "kend s \<le> PGROUNDUP (kend s)"
    unfolding up by (simp_all add: PGSIZE_def)
  ultimately obtain s' ps where s': "freerange_loop (PGROUNDUP (kend s)) PHYSTOP s = Inr s'"
    "kmem_inv s' (rev ps @ [])" "set ps = {q. PGROUNDUP (kend s) \<le> q \<and> q < PHYSTOP \<and> q mod PGSIZE = 0}"
    using freerange_loop_pages [of s "[]" "PGROUNDUP (kend s)"] by auto
  have "{q. PGROUNDUP (kend s) \<le> q \<and> q < PHYSTOP \<and> q mod PGSIZE = 0} =
      {p. kend s \<le> p \<and> p < PHYSTOP \<and> p mod PGSIZE = 0}"
    unfolding up by (auto simp: PGSIZE_def)
  with s' show ?thesis
    by (intro exI [of _ s'] exI [of _ "rev ps"]) (simp add: kinit_def freerange_def)
qed

theorem kinit_frees_all_pages_witness:
  "\<exists>s' xs. kinit \<lparr>mem = (\<lambda>_. 0), freelist = 0, kend = 2147483648\<rparr> = Inr s' \<and> kmem_inv s' xs \<and>
     set xs = {p. 2147483648 \<le> p \<and> p < PHYSTOP \<and> p mod PGSIZE = 0}"
  using kinit_frees_all_pages [of "\<lparr>mem = (\<lambda>_. 0), freelist = 0, kend = 2147483648\<rparr>"]
  by (simp add: PHYSTOP_def)

text \<open>C11: The allocator is a stack of pages: after \<^verbatim>\<open>kfree pa\<close> of a page that was not free,
  \<^verbatim>\<open>kalloc\<close> hands out that page, and the free list is the one before. So \<^verbatim>\<open>kalloc\<close> never hands
  out a page twice without a \<^verbatim>\<open>kfree\<close> between.\<close>

theorem kfree_kalloc_roundtrip:
  assumes "kmem_inv s xs" and "page_ok (kend s) pa" and "pa \<notin> set xs"
  shows "\<exists>s1 s2. kfree pa s = Inr s1 \<and> kalloc s1 = (pa, s2) \<and> kmem_inv s2 xs \<and> pa \<notin> set xs \<and>
     (\<forall>i. i < pa \<or> pa + PGSIZE \<le> i \<longrightarrow> mem s2 i = mem s i)"
proof -
  obtain s1 where s1: "kfree pa s = Inr s1" "kmem_inv s1 (pa # xs)"
    "\<forall>i. i < pa \<or> pa + PGSIZE \<le> i \<longrightarrow> mem s1 i = mem s i" using kfree_push [OF assms] by blast
  with kalloc_pop [OF s1(2)] assms(3) show ?thesis by auto
qed

theorem kfree_kalloc_roundtrip_witness:
  "\<exists>s1 s2. kfree 2147483648 \<lparr>mem = (\<lambda>_. 0), freelist = 0, kend = 2147483648\<rparr> = Inr s1 \<and>
     kalloc s1 = (2147483648, s2) \<and> kmem_inv s2 []"
  using kfree_kalloc_roundtrip [of "\<lparr>mem = (\<lambda>_. 0), freelist = 0, kend = 2147483648\<rparr>" "[]" 2147483648]
  by (auto simp: kmem_inv_def page_ok_def PHYSTOP_def PGSIZE_def)

end
