(* ===== verification/Vm.thy ===== *)
theory Vm
  imports Kalloc
begin

text \<open>
  Sv39 page tables (\<^verbatim>\<open>FileSystem-RAID/kernel/vm.c\<close>). A page table is the address of a page
  of 512 eight-byte entries in physical memory; \<^verbatim>\<open>walk\<close> reads and writes them there, and
  allocates missing levels with \<open>kalloc\<close>. The null pointer is address 0. The symbols
  \<^verbatim>\<open>etext\<close> and \<^verbatim>\<open>trampoline\<close> are arguments, since the linker fixes them. Reloading the
  address-translation register (\<^verbatim>\<open>kvminithart\<close>) has no effect on this state and is left out.

  \<open>translate\<close> is the address translation as a function of memory. \<^verbatim>\<open>mappages\<close> is shown to establish it, whatever table
  levels it has to allocate, and to change nothing but page-table pages and pages from the free list.
\<close>

unbundle bit_operations_syntax

section \<open>Page-table entries (riscv.h)\<close>

definition PTE_V :: nat where "PTE_V = 1"
definition PTE_R :: nat where "PTE_R = 2"
definition PTE_W :: nat where "PTE_W = 4"
definition PTE_X :: nat where "PTE_X = 8"
definition PTE_U :: nat where "PTE_U = 16"

definition PA2PTE :: "nat \<Rightarrow> nat" where
  "PA2PTE pa = u64 (pa div 4096 * 1024)"

definition PTE2PA :: "nat \<Rightarrow> nat" where
  "PTE2PA pte = u64 (pte div 1024 * 4096)"

definition PTE_FLAGS :: "nat \<Rightarrow> nat" where
  "PTE_FLAGS pte = pte mod 1024"

definition PX :: "nat \<Rightarrow> nat \<Rightarrow> nat" where
  "PX level va = va div 2 ^ (12 + 9 * level) mod 512"

definition MAXVA :: nat where
  "MAXVA = 274877906944"

definition TRAMPOLINE :: nat where "TRAMPOLINE = MAXVA - PGSIZE"
definition TRAPFRAME :: nat where "TRAPFRAME = TRAMPOLINE - PGSIZE"

definition UART0 :: nat where "UART0 = 268435456"
definition VIRTIO0 :: nat where "VIRTIO0 = 268439552"
definition CLINT :: nat where "CLINT = 33554432"
definition PLIC :: nat where "PLIC = 201326592"
definition KERNBASE :: nat where "KERNBASE = 2147483648"

definition pte_at :: "bytes \<Rightarrow> nat \<Rightarrow> nat" where
  "pte_at m a = get_le m a 8"

definition set_pte :: "nat \<Rightarrow> nat \<Rightarrow> 'a mstate_scheme \<Rightarrow> 'a mstate_scheme" where
  "set_pte a v s = s\<lparr>mem := put_le (mem s) a 8 v\<rparr>"

section \<open>Walking and mapping\<close>

primrec walk_loop ::
  "nat \<Rightarrow> nat \<Rightarrow> nat \<Rightarrow> bool \<Rightarrow> 'a mstate_scheme \<Rightarrow> nat \<times> 'a mstate_scheme" where
  "walk_loop 0 pagetable va alloc s = (pagetable + 8 * PX 0 va, s)"
| "walk_loop (Suc level) pagetable va alloc s =
     (let pte = pagetable + 8 * PX (Suc level) va in
      if pte_at (mem s) pte AND PTE_V \<noteq> 0
      then walk_loop level (PTE2PA (pte_at (mem s) pte)) va alloc s
      else if \<not> alloc then (0, s)
      else
        let (pt, s) = kalloc s in
        if pt = 0 then (0, s)
        else
          let s = s\<lparr>mem := memset (mem s) pt 0 PGSIZE\<rparr>;
              s = set_pte pte (PA2PTE pt OR PTE_V) s in
          walk_loop level pt va alloc s)"

definition walk ::
  "nat \<Rightarrow> nat \<Rightarrow> bool \<Rightarrow> 'a mstate_scheme \<Rightarrow> (nat \<times> 'a mstate_scheme) kres" where
  "walk pagetable va alloc s =
     (if va \<ge> MAXVA then Inl (Panic ''walk'') else Inr (walk_loop 2 pagetable va alloc s))"

definition walkaddr :: "nat \<Rightarrow> nat \<Rightarrow> 'a mstate_scheme \<Rightarrow> (nat \<times> 'a mstate_scheme) kres" where
  "walkaddr pagetable va s =
     (if va \<ge> MAXVA then Inr (0, s)
      else bindE (walk pagetable va False s) (\<lambda>(pte, s).
        if pte = 0 then Inr (0, s)
        else if pte_at (mem s) pte AND PTE_V = 0 then Inr (0, s)
        else if pte_at (mem s) pte AND PTE_U = 0 then Inr (0, s)
        else Inr (PTE2PA (pte_at (mem s) pte), s)))"

lemma walk_Inr_bound: "walk pagetable va alloc s = Inr r \<Longrightarrow> va < MAXVA"
  by (auto simp: walk_def split: if_splits)

text \<open>
  \<^verbatim>\<open>mappages\<close>: the loop ends at the page of the last byte; it cannot run on, since
  \<^verbatim>\<open>walk\<close> panics at \<^verbatim>\<open>MAXVA\<close>.
\<close>

function mappages_loop ::
  "nat \<Rightarrow> nat \<Rightarrow> nat \<Rightarrow> nat \<Rightarrow> nat \<Rightarrow> 'a mstate_scheme \<Rightarrow> (int \<times> 'a mstate_scheme) kres" where
  "mappages_loop pagetable a lst pa perm s =
     bindE (walk pagetable a True s) (\<lambda>(pte, s).
       if pte = 0 then Inr (-1, s)
       else if pte_at (mem s) pte AND PTE_V \<noteq> 0 then Inl (Panic ''remap'')
       else
         let s = set_pte pte (PA2PTE pa OR perm OR PTE_V) s in
         if a = lst then Inr (0, s)
         else mappages_loop pagetable (a + PGSIZE) lst (u64 (pa + PGSIZE)) perm s)"
  by pat_completeness auto
termination
  by (relation "measure (\<lambda>(pagetable, a, lst, pa, perm, s). MAXVA - a)")
     (auto simp: PGSIZE_def dest!: walk_Inr_bound)

declare mappages_loop.simps [simp del]

definition mappages ::
  "nat \<Rightarrow> nat \<Rightarrow> nat \<Rightarrow> nat \<Rightarrow> nat \<Rightarrow> 'a mstate_scheme \<Rightarrow> (int \<times> 'a mstate_scheme) kres" where
  "mappages pagetable va sz pa perm s =
     (let a = PGROUNDDOWN va;
          lst = PGROUNDDOWN (sub64 (u64 (va + sz)) 1) in
      mappages_loop pagetable a lst pa perm s)"

definition kvmmap ::
  "nat \<Rightarrow> nat \<Rightarrow> nat \<Rightarrow> nat \<Rightarrow> nat \<Rightarrow> 'a mstate_scheme \<Rightarrow> 'a mstate_scheme kres" where
  "kvmmap kernel_pagetable va pa sz perm s =
     bindE (mappages kernel_pagetable va sz pa perm s) (\<lambda>(r, s).
       if r \<noteq> 0 then Inl (Panic ''kvmmap'') else Inr s)"

definition kvminit :: "nat \<Rightarrow> nat \<Rightarrow> 'a mstate_scheme \<Rightarrow> (nat \<times> 'a mstate_scheme) kres" where
  "kvminit etext trampoline s =
     (let (kpt, s) = kalloc s;
          s = s\<lparr>mem := memset (mem s) kpt 0 PGSIZE\<rparr> in
      bindE (kvmmap kpt UART0 UART0 PGSIZE (PTE_R OR PTE_W) s) (\<lambda>s.
      bindE (kvmmap kpt VIRTIO0 VIRTIO0 PGSIZE (PTE_R OR PTE_W) s) (\<lambda>s.
      bindE (kvmmap kpt CLINT CLINT 65536 (PTE_R OR PTE_W) s) (\<lambda>s.
      bindE (kvmmap kpt PLIC PLIC 4194304 (PTE_R OR PTE_W) s) (\<lambda>s.
      bindE (kvmmap kpt KERNBASE KERNBASE (sub64 etext KERNBASE) (PTE_R OR PTE_X) s) (\<lambda>s.
      bindE (kvmmap kpt etext etext (sub64 PHYSTOP etext) (PTE_R OR PTE_W) s) (\<lambda>s.
      bindE (kvmmap kpt TRAMPOLINE trampoline PGSIZE (PTE_R OR PTE_X) s) (\<lambda>s.
      Inr (kpt, s)))))))))"

definition kvmpa :: "nat \<Rightarrow> nat \<Rightarrow> 'a mstate_scheme \<Rightarrow> (nat \<times> 'a mstate_scheme) kres" where
  "kvmpa kernel_pagetable va s =
     (let off = va mod PGSIZE in
      bindE (walk kernel_pagetable va False s) (\<lambda>(pte, s).
        if pte = 0 then Inl (Panic ''kvmpa'')
        else if pte_at (mem s) pte AND PTE_V = 0 then Inl (Panic ''kvmpa'')
        else Inr (u64 (PTE2PA (pte_at (mem s) pte) + off), s)))"

section \<open>User page tables\<close>

function uvmunmap_loop ::
  "nat \<Rightarrow> nat \<Rightarrow> nat \<Rightarrow> bool \<Rightarrow> 'a mstate_scheme \<Rightarrow> 'a mstate_scheme kres" where
  "uvmunmap_loop pagetable a va_end do_free s =
     (if a < va_end then
        bindE (walk pagetable a False s) (\<lambda>(pte, s).
          if pte = 0 then Inl (Panic ''uvmunmap: walk'')
          else if pte_at (mem s) pte AND PTE_V = 0 then Inl (Panic ''uvmunmap: not mapped'')
          else if PTE_FLAGS (pte_at (mem s) pte) = PTE_V then Inl (Panic ''uvmunmap: not a leaf'')
          else
            bindE (if do_free then kfree (PTE2PA (pte_at (mem s) pte)) s else Inr s) (\<lambda>s.
              uvmunmap_loop pagetable (a + PGSIZE) va_end do_free (set_pte pte 0 s)))
      else Inr s)"
  by pat_completeness auto
termination
  by (relation "measure (\<lambda>(pagetable, a, va_end, do_free, s). va_end - a)") (auto simp: PGSIZE_def)

declare uvmunmap_loop.simps [simp del]

definition uvmunmap ::
  "nat \<Rightarrow> nat \<Rightarrow> nat \<Rightarrow> bool \<Rightarrow> 'a mstate_scheme \<Rightarrow> 'a mstate_scheme kres" where
  "uvmunmap pagetable va npages do_free s =
     (if va mod PGSIZE \<noteq> 0 then Inl (Panic ''uvmunmap: not aligned'')
      else uvmunmap_loop pagetable va (u64 (va + npages * PGSIZE)) do_free s)"

definition uvmcreate :: "'a mstate_scheme \<Rightarrow> nat \<times> 'a mstate_scheme" where
  "uvmcreate s =
     (let (pagetable, s) = kalloc s in
      if pagetable = 0 then (0, s)
      else (pagetable, s\<lparr>mem := memset (mem s) pagetable 0 PGSIZE\<rparr>))"

definition uvminit :: "nat \<Rightarrow> bytes \<Rightarrow> nat \<Rightarrow> 'a mstate_scheme \<Rightarrow> 'a mstate_scheme kres" where
  "uvminit pagetable src sz s =
     (if sz \<ge> PGSIZE then Inl (Panic ''inituvm: more than a page'')
      else
        let (m, s) = kalloc s;
            s = s\<lparr>mem := memset (mem s) m 0 PGSIZE\<rparr> in
        bindE (mappages pagetable 0 PGSIZE m (PTE_W OR PTE_R OR PTE_X OR PTE_U) s) (\<lambda>(r, s).
          Inr (s\<lparr>mem := blit (mem s) m src 0 sz\<rparr>)))"

text \<open>The number of pages passes through an \<^verbatim>\<open>int\<close> on its way to \<^verbatim>\<open>uvmunmap\<close>, which takes a \<^verbatim>\<open>uint64\<close>.\<close>

definition uvmdealloc ::
  "nat \<Rightarrow> nat \<Rightarrow> nat \<Rightarrow> 'a mstate_scheme \<Rightarrow> (nat \<times> 'a mstate_scheme) kres" where
  "uvmdealloc pagetable oldsz newsz s =
     (if newsz \<ge> oldsz then Inr (oldsz, s)
      else if PGROUNDUP newsz < PGROUNDUP oldsz then
        let npages = int_of_u32 (u32 ((PGROUNDUP oldsz - PGROUNDUP newsz) div PGSIZE)) in
        bindE (uvmunmap pagetable (PGROUNDUP newsz) (nat (npages mod 18446744073709551616)) True s) (\<lambda>s. Inr (newsz, s))
      else Inr (newsz, s))"

function uvmalloc_loop ::
  "nat \<Rightarrow> nat \<Rightarrow> nat \<Rightarrow> nat \<Rightarrow> 'a mstate_scheme \<Rightarrow> (nat \<times> 'a mstate_scheme) kres" where
  "uvmalloc_loop pagetable a oldsz newsz s =
     (if a < newsz then
        let (m, s) = kalloc s in
        if m = 0 then bindE (uvmdealloc pagetable a oldsz s) (\<lambda>(_, s). Inr (0, s))
        else
          let s = s\<lparr>mem := memset (mem s) m 0 PGSIZE\<rparr> in
          bindE (mappages pagetable a PGSIZE m (PTE_W OR PTE_X OR PTE_R OR PTE_U) s) (\<lambda>(r, s).
            if r \<noteq> 0 then
              bindE (kfree m s) (\<lambda>s.
              bindE (uvmdealloc pagetable a oldsz s) (\<lambda>(_, s). Inr (0, s)))
            else uvmalloc_loop pagetable (a + PGSIZE) oldsz newsz s)
      else Inr (newsz, s))"
  by pat_completeness auto
termination
  by (relation "measure (\<lambda>(pagetable, a, oldsz, newsz, s). newsz - a)") (auto simp: PGSIZE_def)

declare uvmalloc_loop.simps [simp del]

definition uvmalloc ::
  "nat \<Rightarrow> nat \<Rightarrow> nat \<Rightarrow> 'a mstate_scheme \<Rightarrow> (nat \<times> 'a mstate_scheme) kres" where
  "uvmalloc pagetable oldsz newsz s =
     (if newsz < oldsz then Inr (oldsz, s)
      else uvmalloc_loop pagetable (PGROUNDUP oldsz) (PGROUNDUP oldsz) newsz s)"

text \<open>
  \<^verbatim>\<open>freewalk\<close> recurses through memory; \<open>depth\<close> is the number of table levels below the
  page (2 for a root table), beyond which the model stops with \<open>Fuel\<close>.
\<close>

primrec freewalk :: "nat \<Rightarrow> nat \<Rightarrow> 'a mstate_scheme \<Rightarrow> 'a mstate_scheme kres" where
  "freewalk 0 pagetable s = Inl Fuel"
| "freewalk (Suc depth) pagetable s =
     bindE (fold (\<lambda>i r. bindE r (\<lambda>s.
        let pte = pte_at (mem s) (pagetable + 8 * i) in
        if pte AND PTE_V \<noteq> 0 \<and> pte AND (PTE_R OR PTE_W OR PTE_X) = 0 then
          bindE (freewalk depth (PTE2PA pte) s) (\<lambda>s. Inr (set_pte (pagetable + 8 * i) 0 s))
        else if pte AND PTE_V \<noteq> 0 then Inl (Panic ''freewalk: leaf'')
        else Inr s)) [0..<512] (Inr s)) (\<lambda>s.
     kfree pagetable s)"

definition uvmfree :: "nat \<Rightarrow> nat \<Rightarrow> 'a mstate_scheme \<Rightarrow> 'a mstate_scheme kres" where
  "uvmfree pagetable sz s =
     bindE (if sz > 0 then uvmunmap pagetable 0 (PGROUNDUP sz div PGSIZE) True s else Inr s) (\<lambda>s.
     freewalk 3 pagetable s)"

function uvmcopy_loop ::
  "nat \<Rightarrow> nat \<Rightarrow> nat \<Rightarrow> nat \<Rightarrow> 'a mstate_scheme \<Rightarrow> (int \<times> 'a mstate_scheme) kres" where
  "uvmcopy_loop old new i sz s =
     (if i < sz then
        bindE (walk old i False s) (\<lambda>(pte, s).
          if pte = 0 then Inl (Panic ''uvmcopy: pte should exist'')
          else if pte_at (mem s) pte AND PTE_V = 0 then Inl (Panic ''uvmcopy: page not present'')
          else
            let pa = PTE2PA (pte_at (mem s) pte);
                flags = PTE_FLAGS (pte_at (mem s) pte);
                (m, s) = kalloc s in
            if m = 0 then bindE (uvmunmap new 0 (i div PGSIZE) True s) (\<lambda>s. Inr (-1, s))
            else
              let s = s\<lparr>mem := memmove (mem s) m pa PGSIZE\<rparr> in
              bindE (mappages new i PGSIZE m flags s) (\<lambda>(r, s).
                if r \<noteq> 0 then
                  bindE (kfree m s) (\<lambda>s.
                  bindE (uvmunmap new 0 (i div PGSIZE) True s) (\<lambda>s. Inr (-1, s)))
                else uvmcopy_loop old new (i + PGSIZE) sz s))
      else Inr (0, s))"
  by pat_completeness auto
termination
  by (relation "measure (\<lambda>(old, new, i, sz, s). sz - i)") (auto simp: PGSIZE_def)

declare uvmcopy_loop.simps [simp del]

definition uvmcopy ::
  "nat \<Rightarrow> nat \<Rightarrow> nat \<Rightarrow> 'a mstate_scheme \<Rightarrow> (int \<times> 'a mstate_scheme) kres" where
  "uvmcopy old new sz s = uvmcopy_loop old new 0 sz s"

definition uvmclear :: "nat \<Rightarrow> nat \<Rightarrow> 'a mstate_scheme \<Rightarrow> 'a mstate_scheme kres" where
  "uvmclear pagetable va s =
     bindE (walk pagetable va False s) (\<lambda>(pte, s).
       if pte = 0 then Inl (Panic ''uvmclear'')
       else Inr (set_pte pte
              (if pte_at (mem s) pte AND PTE_U \<noteq> 0 then pte_at (mem s) pte - PTE_U
               else pte_at (mem s) pte) s))"

lemma page_room: "0 < PGSIZE - (va - PGROUNDDOWN va)"
  by (simp add: PGROUNDDOWN_def PGSIZE_def minus_div_mult_eq_mod)

section \<open>Copying between kernel and user memory\<close>

text \<open>The kernel side is a byte array (\<open>src\<close>, \<open>dst\<close>) with an offset.\<close>

function copyout ::
  "nat \<Rightarrow> nat \<Rightarrow> bytes \<Rightarrow> nat \<Rightarrow> nat \<Rightarrow> 'a mstate_scheme \<Rightarrow> (int \<times> 'a mstate_scheme) kres" where
  "copyout pagetable dstva src soff len s =
     (if len > 0 then
        let va0 = PGROUNDDOWN dstva in
        bindE (walkaddr pagetable va0 s) (\<lambda>(pa0, s).
          if pa0 = 0 then Inr (-1, s)
          else
            let n = PGSIZE - (dstva - va0);
                n = (if n > len then len else n);
                s = s\<lparr>mem := blit (mem s) (pa0 + (dstva - va0)) src soff n\<rparr> in
            copyout pagetable (va0 + PGSIZE) src (soff + n) (len - n) s)
      else Inr (0, s))"
  by pat_completeness auto
termination
  by (relation "measure (\<lambda>(pagetable, dstva, src, soff, len, s). len)")
     (auto intro!: diff_less page_room)

declare copyout.simps [simp del]

function copyin ::
  "nat \<Rightarrow> bytes \<Rightarrow> nat \<Rightarrow> nat \<Rightarrow> nat \<Rightarrow> 'a mstate_scheme \<Rightarrow> (int \<times> bytes \<times> 'a mstate_scheme) kres" where
  "copyin pagetable dst doff srcva len s =
     (if len > 0 then
        let va0 = PGROUNDDOWN srcva in
        bindE (walkaddr pagetable va0 s) (\<lambda>(pa0, s).
          if pa0 = 0 then Inr (-1, dst, s)
          else
            let n = PGSIZE - (srcva - va0);
                n = (if n > len then len else n);
                dst = blit dst doff (mem s) (pa0 + (srcva - va0)) n in
            copyin pagetable dst (doff + n) (va0 + PGSIZE) (len - n) s)
      else Inr (0, dst, s))"
  by pat_completeness auto
termination
  by (relation "measure (\<lambda>(pagetable, dst, doff, srcva, len, s). len)")
     (auto intro!: diff_less page_room)

declare copyin.simps [simp del]

text \<open>The inner loop of \<^verbatim>\<open>copyinstr\<close> over one page: it stops at a NUL.\<close>

primrec copyinstr_page ::
  "bytes \<Rightarrow> nat \<Rightarrow> bytes \<Rightarrow> nat \<Rightarrow> nat \<Rightarrow> nat \<Rightarrow> bool \<times> bytes \<times> nat \<times> nat" where
  "copyinstr_page m p dst doff mx 0 = (False, dst, doff, mx)"
| "copyinstr_page m p dst doff mx (Suc n) =
     (if m p = 0 then (True, dst(doff := 0), doff, mx)
      else copyinstr_page m (Suc p) (dst(doff := m p)) (Suc doff) (mx - 1) n)"

lemma copyinstr_page_max:
  "copyinstr_page m p dst doff mx n = (False, dst', doff', mx') \<Longrightarrow> mx' = mx - n"
  by (induction n arbitrary: p dst doff mx) (fastforce split: if_splits)+

function copyinstr ::
  "nat \<Rightarrow> bytes \<Rightarrow> nat \<Rightarrow> nat \<Rightarrow> nat \<Rightarrow> 'a mstate_scheme \<Rightarrow> (int \<times> bytes \<times> 'a mstate_scheme) kres" where
  "copyinstr pagetable dst doff srcva mx s =
     (if mx > 0 then
        let va0 = PGROUNDDOWN srcva in
        bindE (walkaddr pagetable va0 s) (\<lambda>(pa0, s).
          if pa0 = 0 then Inr (-1, dst, s)
          else
            let n = PGSIZE - (srcva - va0);
                n = (if n > mx then mx else n) in
            case copyinstr_page (mem s) (pa0 + (srcva - va0)) dst doff mx n of
              (True, dst, doff, mx) \<Rightarrow> Inr (0, dst, s)
            | (False, dst, doff, mx) \<Rightarrow> copyinstr pagetable dst doff (va0 + PGSIZE) mx s)
      else Inr (-1, dst, s))"
  by pat_completeness auto
termination
  by (relation "measure (\<lambda>(pagetable, dst, doff, srcva, mx, s). mx)")
     (auto dest!: copyinstr_page_max [OF sym] intro!: diff_less page_room split: if_splits)

declare copyinstr.simps [simp del]

section \<open>Address translation\<close>

text \<open>The walk that never allocates, as a function of memory, and the user address translation it gives.\<close>

primrec walk_pure :: "nat \<Rightarrow> nat \<Rightarrow> nat \<Rightarrow> bytes \<Rightarrow> nat" where
  "walk_pure 0 pagetable va m = pagetable + 8 * PX 0 va"
| "walk_pure (Suc level) pagetable va m =
     (let pte = pte_at m (pagetable + 8 * PX (Suc level) va) in
      if pte AND PTE_V \<noteq> 0 then walk_pure level (PTE2PA pte) va m else 0)"

definition translate :: "bytes \<Rightarrow> nat \<Rightarrow> nat \<Rightarrow> nat" where
  "translate m pagetable va =
     (let p = walk_pure 2 pagetable va m in
      if va \<ge> MAXVA \<or> p = 0 \<or> pte_at m p AND PTE_V = 0 \<or> pte_at m p AND PTE_U = 0 then 0 else PTE2PA (pte_at m p))"

lemma walk_loop_no_alloc: "walk_loop level pagetable va False s = (walk_pure level pagetable va (mem s), s)"
  by (induction level arbitrary: pagetable) (simp_all add: Let_def)

lemma walkaddr_translate: "walkaddr pagetable va s = Inr (translate (mem s) pagetable va, s)"
  by (simp add: walkaddr_def walk_def walk_loop_no_alloc translate_def Let_def not_le)

text \<open>The physical address of one user byte.\<close>

definition user_pa :: "bytes \<Rightarrow> nat \<Rightarrow> nat \<Rightarrow> nat option" where
  "user_pa m pagetable va =
     (let pa = translate m pagetable (PGROUNDDOWN va) in
      if pa = 0 then None else Some (pa + (va - PGROUNDDOWN va)))"

lemma copyin_byte:
  "copyin pagetable dst 0 va 1 s = (case user_pa (mem s) pagetable va of
     None \<Rightarrow> Inr (-1, dst, s) | Some pa \<Rightarrow> Inr (0, dst(0 := mem s pa), s))"
proof -
  have "PGSIZE - (va - PGROUNDDOWN va) \<ge> 1" using page_room [of va] by simp
  then have m: "(if PGSIZE - (va - PGROUNDDOWN va) > 1 then 1 else PGSIZE - (va - PGROUNDDOWN va)) = 1" by simp
  have z: "copyin pagetable d off a 0 s = Inr (0, d, s)" for d off a by (subst copyin.simps) simp
  have b: "blit dst 0 (mem s) x 1 = dst(0 := mem s x)" for x by (auto simp: blit_def fun_eq_iff)
  show ?thesis
    by (subst copyin.simps) (simp add: walkaddr_translate user_pa_def Let_def m z b del: One_nat_def)
qed

lemma copyout_byte:
  "copyout pagetable va (\<lambda>_. c) 0 1 s = (case user_pa (mem s) pagetable va of
     None \<Rightarrow> Inr (-1, s) | Some pa \<Rightarrow> Inr (0, s\<lparr>mem := (mem s)(pa := c)\<rparr>))"
proof -
  have "PGSIZE - (va - PGROUNDDOWN va) \<ge> 1" using page_room [of va] by simp
  then have m: "(if PGSIZE - (va - PGROUNDDOWN va) > 1 then 1 else PGSIZE - (va - PGROUNDDOWN va)) = 1" by simp
  have z: "copyout pagetable a d off 0 s' = Inr (0, s')" for d off a and s' :: "'a mstate_scheme" by (subst copyout.simps) simp
  have b: "blit (mem s) x (\<lambda>_. c) 0 1 = (mem s)(x := c)" for x by (auto simp: blit_def fun_eq_iff)
  show ?thesis
    by (subst copyout.simps) (simp add: walkaddr_translate user_pa_def Let_def m z b del: One_nat_def)
qed

section \<open>Mapping a page\<close>

text \<open>Reading the fields of an entry made from an address and flags.\<close>

lemma and_exp_zero_iff:
  fixes a :: nat
  shows "a AND 1 = 0 \<longleftrightarrow> \<not> bit a 0" and "a AND 16 = 0 \<longleftrightarrow> \<not> bit a 4"
  using and_exp_eq_0_iff_not_bit [of a 0] and_exp_eq_0_iff_not_bit [of a 4] by simp_all

lemma pte_make:
  assumes "pa mod 4096 = 0" and "pa < 2 ^ 54" and "f < 1024"
  shows "PTE2PA (PA2PTE pa OR f) = pa" and "(PA2PTE pa OR f) AND PTE_V = 0 \<longleftrightarrow> f AND PTE_V = 0"
    and "(PA2PTE pa OR f) AND PTE_U = 0 \<longleftrightarrow> f AND PTE_U = 0" and "PA2PTE pa OR f < 256 ^ 8"
proof -
  obtain k where k: "pa = 4096 * k" using assms(1) by (auto simp: mod_eq_0_iff_dvd dvd_def)
  then have kb: "k < 2 ^ 42" using assms(2) by simp
  have e: "PA2PTE pa = 1024 * k" using k kb by (simp add: PA2PTE_def u64_def)
  have fb: "\<not> bit f n" if "10 \<le> n" for n
  proof -
    have "f < 2 ^ n" using assms(3) power_increasing [OF that, of "2::nat"] by simp
    then show ?thesis by (simp add: bit_iff_odd)
  qed
  have kb': "bit (1024 * k) n \<longleftrightarrow> 10 \<le> n \<and> bit k (n - 10)" for n
    using bit_push_bit_iff [of 10 k n] by (simp add: push_bit_eq_mult mult.commute)
  have "1024 * k AND f = 0"
    by (rule bit_eqI) (auto simp: bit_and_iff kb' dest: fb)
  then have o: "PA2PTE pa OR f = 1024 * k + f" by (simp add: e disjunctive_add_eq_or)
  show "PTE2PA (PA2PTE pa OR f) = pa"
    unfolding o PTE2PA_def u64_def using kb assms(3) by (simp add: k)
  show "(PA2PTE pa OR f) AND PTE_V = 0 \<longleftrightarrow> f AND PTE_V = 0" "(PA2PTE pa OR f) AND PTE_U = 0 \<longleftrightarrow> f AND PTE_U = 0"
    unfolding PTE_V_def PTE_U_def and_exp_zero_iff e by (simp_all add: bit_or_iff kb')
  show "PA2PTE pa OR f < 256 ^ 8" unfolding o using kb assms(3) by simp
qed

text \<open>The table pages that a walk visits as far as it exists.\<close>

primrec walk_tables :: "nat \<Rightarrow> nat \<Rightarrow> nat \<Rightarrow> bytes \<Rightarrow> nat list" where
  "walk_tables 0 pagetable va m = [pagetable]"
| "walk_tables (Suc level) pagetable va m =
     (let pte = pte_at m (pagetable + 8 * PX (Suc level) va) in
      pagetable # (if pte AND PTE_V \<noteq> 0 then walk_tables level (PTE2PA pte) va m else []))"

definition tables_ok :: "nat \<Rightarrow> nat list \<Rightarrow> nat list \<Rightarrow> bool" where
  "tables_ok e ts xs \<longleftrightarrow> distinct ts \<and> set ts \<inter> set xs = {} \<and> (\<forall>t \<in> set ts. page_ok e t)"

lemma PX_less: "PX level va < 512"
  by (simp add: PX_def)

lemma pte_at_cong:
  assumes "\<And>i. t \<le> i \<Longrightarrow> i < t + PGSIZE \<Longrightarrow> m' i = m i"
  shows "pte_at m' (t + 8 * PX level va) = pte_at m (t + 8 * PX level va)"
  unfolding pte_at_def using PX_less [of level va] by (intro get_le_cong assms) (auto simp: PGSIZE_def)

text \<open>Memory outside the pages \<open>ps\<close> is the same.\<close>

definition same_outside :: "nat list \<Rightarrow> bytes \<Rightarrow> bytes \<Rightarrow> bool" where
  "same_outside ps m m' \<longleftrightarrow> (\<forall>i. (\<forall>p \<in> set ps. i < p \<or> p + PGSIZE \<le> i) \<longrightarrow> m' i = m i)"

lemma same_outside_trans:
  "same_outside ps m m' \<Longrightarrow> same_outside qs m' m'' \<Longrightarrow> set ps \<union> set qs \<subseteq> set rs \<Longrightarrow> same_outside rs m m''"
  unfolding same_outside_def by (metis subsetD UnCI)

lemma same_outside_mono: "same_outside ps m m' \<Longrightarrow> set ps \<subseteq> set qs \<Longrightarrow> same_outside qs m m'"
  unfolding same_outside_def by (meson subsetD)

lemma same_outside_page:
  assumes "same_outside ps m m'" and "page_ok e t" and "\<forall>p \<in> set ps. page_ok e p" and "t \<notin> set ps"
    and "t \<le> i" and "i < t + PGSIZE"
  shows "m' i = m i"
proof -
  have "i < p \<or> p + PGSIZE \<le> i" if "p \<in> set ps" for p
    using pages_disjoint [of e p t] assms that by fastforce
  then show ?thesis using assms(1) unfolding same_outside_def by blast
qed

lemma walk_tables_ne: "walk_tables level pt va m \<noteq> []"
  by (cases level) (simp_all add: Let_def)

text \<open>A walk that arrives at an entry reads only the tables above the last.\<close>

lemma walk_pure_cong:
  assumes "walk_pure level pt va m \<noteq> 0"
    and "\<And>t i. t \<in> set (butlast (walk_tables level pt va m)) \<Longrightarrow> t \<le> i \<Longrightarrow> i < t + PGSIZE \<Longrightarrow> m' i = m i"
  shows "walk_pure level pt va m' = walk_pure level pt va m"
  using assms
proof (induction level arbitrary: pt)
  case (Suc level)
  let ?pte = "pte_at m (pt + 8 * PX (Suc level) va)"
  have v: "?pte AND PTE_V \<noteq> 0" "walk_pure level (PTE2PA ?pte) va m \<noteq> 0"
    using Suc.prems(1) by (auto simp: Let_def split: if_splits)
  have b: "butlast (walk_tables (Suc level) pt va m) = pt # butlast (walk_tables level (PTE2PA ?pte) va m)"
    using v(1) walk_tables_ne by (simp add: Let_def)
  have e: "pte_at m' (pt + 8 * PX (Suc level) va) = ?pte"
    by (rule pte_at_cong, rule Suc.prems(2) [of pt]) (simp_all only: b list.set_intros)
  have "walk_pure level (PTE2PA ?pte) va m' = walk_pure level (PTE2PA ?pte) va m"
    using v(2) by (intro Suc.IH, simp) (rule Suc.prems(2), simp_all only: b list.set_intros)
  with e show ?case by (simp add: Let_def)
qed simp

lemma kmem_inv_page_write:
  assumes "kmem_inv s xs" and "page_ok (kend s) t" and "t \<notin> set xs"
    and "\<And>i. i < t \<or> t + PGSIZE \<le> i \<Longrightarrow> m' i = mem s i"
  shows "kmem_inv (s\<lparr>mem := m'\<rparr>) xs"
  using assms free_list_page_write [of xs "kend s" t m' "mem s" "freelist s"] by (simp add: kmem_inv_def)

lemma put_le_in_page:
  "i < t \<or> t + PGSIZE \<le> i \<Longrightarrow> put_le m (t + 8 * PX level va) 8 v i = m i"
  using PX_less [of level va] by (intro put_le_outside) (auto simp: PGSIZE_def)

text \<open>What a walk that may allocate has done when it returns the address of an entry.\<close>

definition walked :: "nat \<Rightarrow> nat \<Rightarrow> nat \<Rightarrow> nat list \<Rightarrow> 'a mstate_scheme \<Rightarrow> nat \<Rightarrow> nat list \<Rightarrow> 'a mstate_scheme \<Rightarrow> bool" where
  "walked level pt va xs s p ys s' \<longleftrightarrow> kend s' = kend s \<and> kmem_inv s' ys \<and> set ys \<subseteq> set xs \<and>
     same_outside (walk_tables level pt va (mem s) @ xs) (mem s) (mem s') \<and>
     (p = 0 \<longrightarrow> length xs < level) \<and>
     (p \<noteq> 0 \<longrightarrow> (if walk_pure level pt va (mem s) = 0 then pte_at (mem s') p = 0
                  else p = walk_pure level pt va (mem s) \<and> s' = s)) \<and>
     (p \<noteq> 0 \<longrightarrow> walk_pure level pt va (mem s') = p \<and> tables_ok (kend s) (walk_tables level pt va (mem s')) ys \<and>
        (\<exists>ts. walk_tables level pt va (mem s') = ts @ [p - 8 * PX 0 va]) \<and>
        set (walk_tables level pt va (mem s')) \<subseteq> set (walk_tables level pt va (mem s)) \<union> set xs)"

lemma new_table:
  fixes level va :: nat and s :: "'a mstate_scheme"
  assumes inv: "kmem_inv s (r # xs)" and pt: "page_ok (kend s) pt" "pt \<notin> set (r # xs)"
  defines "s1 \<equiv> (snd (kalloc s))\<lparr>mem := memset (mem (snd (kalloc s))) r 0 PGSIZE\<rparr>"
  defines "s2 \<equiv> set_pte (pt + 8 * PX (Suc level) va) (PA2PTE r OR PTE_V) s1"
  shows "fst (kalloc s) = r" "r \<noteq> 0" "kmem_inv s2 xs" "kend s2 = kend s"
    "same_outside [pt, r] (mem s) (mem s2)"
    "pte_at (mem s2) (pt + 8 * PX (Suc level) va) = PA2PTE r OR PTE_V"
    "walk_tables level r va (mem s2) = [r]" "page_ok (kend s) r" "pte_at (mem s2) (r + 8 * PX l va) = 0"
proof -
  obtain s0 where k: "kalloc s = (r, s0)" "kmem_inv s0 xs" "r \<noteq> 0" "kend s0 = kend s"
    "\<forall>i. i < r \<or> r + PGSIZE \<le> i \<longrightarrow> mem s0 i = mem s i"
    using kalloc_pop [OF inv] by blast
  have r: "page_ok (kend s) r" "r \<notin> set xs" using inv by (auto simp: kmem_inv_def)
  have s1: "s1 = s0\<lparr>mem := fill_bytes (mem s0) r 0 PGSIZE\<rparr>" by (simp add: s1_def k(1) memset_eq)
  have "kmem_inv s1 xs"
    unfolding s1 using k r by (intro kmem_inv_page_write [of s0 xs r]) (auto simp: fill_bytes_def)
  then have "kmem_inv (s1\<lparr>mem := put_le (mem s1) (pt + 8 * PX (Suc level) va) 8 (PA2PTE r OR PTE_V)\<rparr>) xs"
    using pt k(4) by (intro kmem_inv_page_write [of s1 xs pt] put_le_in_page) (auto simp: s1)
  then show "fst (kalloc s) = r" "r \<noteq> 0" "kmem_inv s2 xs" "kend s2 = kend s" "page_ok (kend s) r"
    using k r by (simp_all add: s2_def set_pte_def s1)
  have m2: "mem s2 = put_le (fill_bytes (mem s0) r 0 PGSIZE) (pt + 8 * PX (Suc level) va) 8 (PA2PTE r OR PTE_V)"
    by (simp add: s2_def set_pte_def s1)
  show "same_outside [pt, r] (mem s) (mem s2)"
    unfolding same_outside_def m2 using k(5) by (auto simp: put_le_in_page fill_bytes_def)
  have "r < 2 ^ 54" "r mod 4096 = 0" using r(1) by (simp_all add: page_ok_def PHYSTOP_def PGSIZE_def)
  note pm = pte_make [OF this(2,1), of PTE_V]
  show "pte_at (mem s2) (pt + 8 * PX (Suc level) va) = PA2PTE r OR PTE_V"
    unfolding m2 pte_at_def by (rule get_put_le) (rule pm(4), simp add: PTE_V_def)
  have z: "pte_at (mem s2) (r + 8 * PX l va) = 0" for l
  proof -
    have "pte_at (mem s2) (r + 8 * PX l va) = pte_at (\<lambda>_. 0) (r + 8 * PX l va)"
    proof (rule pte_at_cong)
      fix i assume i: "r \<le> i" "i < r + PGSIZE"
      have "i < pt \<or> pt + PGSIZE \<le> i" using pages_disjoint [OF pt(1) r(1)] pt(2) i by auto
      then show "mem s2 i = 0" using i by (simp add: m2 put_le_in_page fill_bytes_def)
    qed
    also have "\<dots> = 0" by (simp add: pte_at_def)
    finally show ?thesis .
  qed
  then show "walk_tables level r va (mem s2) = [r]" by (cases level) simp_all
  show "pte_at (mem s2) (r + 8 * PX l va) = 0" by (rule z)
qed

lemma walk_alloc:
  assumes "kmem_inv s xs" and "tables_ok (kend s) (walk_tables level pt va (mem s)) xs"
  shows "\<exists>p s' ys. walk_loop level pt va True s = (p, s') \<and> walked level pt va xs s p ys s'"
  using assms
proof (induction level arbitrary: pt s xs)
  case 0
  then have "pt \<noteq> 0" by (auto simp: tables_ok_def page_ok_def kmem_inv_def)
  with 0 have "walked 0 pt va xs s (pt + 8 * PX 0 va) xs s" by (simp add: walked_def same_outside_def)
  then show ?case by auto
next
  case (Suc level)
  let ?slot = "pt + 8 * PX (Suc level) va"
  let ?pte = "pte_at (mem s) ?slot"
  let ?T = "walk_tables (Suc level) pt va (mem s)"
  have ptT: "pt \<in> set ?T" by (simp add: Let_def)
  then have pt: "page_ok (kend s) pt" "pt \<notin> set xs" using Suc.prems(2) by (auto simp: tables_ok_def)
  have X: "\<forall>p \<in> set xs. page_ok (kend s) p" using Suc.prems(1) by (simp add: kmem_inv_def)
  show ?case
  proof (cases "?pte AND PTE_V = 0")
    case False
    let ?t = "PTE2PA ?pte"
    have T: "?T = pt # walk_tables level ?t va (mem s)" using False by (simp add: Let_def)
    then have tok: "tables_ok (kend s) (walk_tables level ?t va (mem s)) xs" "pt \<notin> set (walk_tables level ?t va (mem s))"
      using Suc.prems(2) by (auto simp: tables_ok_def)
    obtain p s' ys where w: "walk_loop level ?t va True s = (p, s')" "walked level ?t va xs s p ys s'"
      using Suc.IH [OF Suc.prems(1) tok(1)] by blast
    note W = w(2) [unfolded walked_def]
    have same: "mem s' i = mem s i" if "pt \<le> i" "i < pt + PGSIZE" for i
      using W pt tok X that by (intro same_outside_page [of "walk_tables level ?t va (mem s) @ xs" _ _ "kend s" pt])
        (auto simp: tables_ok_def)
    have e: "pte_at (mem s') ?slot = ?pte" by (rule pte_at_cong) (rule same)
    have T': "walk_tables (Suc level) pt va (mem s') = pt # walk_tables level ?t va (mem s')"
      "walk_pure (Suc level) pt va (mem s') = walk_pure level ?t va (mem s')"
      using False e by (simp_all add: Let_def)
    have P: "walk_pure (Suc level) pt va (mem s) = walk_pure level ?t va (mem s)" using False by (simp add: Let_def)
    have A: "same_outside ((pt # walk_tables level ?t va (mem s)) @ xs) (mem s) (mem s')"
      by (rule same_outside_mono [of "walk_tables level ?t va (mem s) @ xs"]) (use W in auto)
    have B: "tables_ok (kend s) (pt # walk_tables level ?t va (mem s')) ys" if "p \<noteq> 0"
    proof -
      have "tables_ok (kend s) (walk_tables level ?t va (mem s')) ys" "set ys \<subseteq> set xs"
        "set (walk_tables level ?t va (mem s')) \<subseteq> set (walk_tables level ?t va (mem s)) \<union> set xs"
        using W that by simp_all
      then show ?thesis using pt tok(2) by (auto simp: tables_ok_def)
    qed
    have C: "\<exists>ts. pt # walk_tables level ?t va (mem s') = ts @ [p - 8 * PX 0 va]" if "p \<noteq> 0"
      using W that by (metis append_Cons)
    have D: "set (pt # walk_tables level ?t va (mem s')) \<subseteq> set (pt # walk_tables level ?t va (mem s)) \<union> set xs" if "p \<noteq> 0"
      using W that by auto
    have "walked (Suc level) pt va xs s p ys s'"
      unfolding walked_def T T' P using W A B C D by (cases "p = 0") (simp_all add: less_SucI)
    then show ?thesis using w(1) False by (auto simp: Let_def)
  next
    case True
    have T: "?T = [pt]" using True by (simp add: Let_def)
    show ?thesis
    proof (cases xs)
      case Nil
      have "walked (Suc level) pt va xs s 0 xs s" using Suc.prems Nil by (simp add: walked_def same_outside_def)
      then show ?thesis using True Nil kalloc_empty [of s] Suc.prems(1) by (auto simp: Let_def)
    next
      case (Cons r rs)
      have kr: "kmem_inv s (r # rs)" "pt \<notin> set (r # rs)" using Suc.prems(1) pt Cons by simp_all
      note N' = new_table [OF kr(1) pt(1) kr(2)]
      note N = N'(1,2) N'(3-7) [of level va] N'(8)
      let ?s1 = "(snd (kalloc s))\<lparr>mem := memset (mem (snd (kalloc s))) r 0 PGSIZE\<rparr>"
      let ?s2 = "set_pte ?slot (PA2PTE r OR PTE_V) ?s1"
      have rd: "r \<notin> set rs" using kr(1) by (simp add: kmem_inv_def)
      have tok: "tables_ok (kend ?s2) (walk_tables level r va (mem ?s2)) rs"
        using N rd by (simp add: tables_ok_def)
      obtain p s' ys where w: "walk_loop level r va True ?s2 = (p, s')" "walked level r va rs ?s2 p ys s'"
        using Suc.IH [OF N(3) tok] by blast
      note W = w(2) [unfolded walked_def N(7)]
      have z: "pte_at (mem s') p = 0" if "p \<noteq> 0"
      proof (cases level)
        case 0
        then have "walk_pure level r va (mem ?s2) = r + 8 * PX 0 va" by simp
        then have "p = r + 8 * PX 0 va" "s' = ?s2" using W that N(2) by (auto split: if_splits)
        then show ?thesis using N'(9) [of level va 0] by simp
      next
        case (Suc l)
        have "pte_at (mem ?s2) (r + 8 * PX (Suc l) va) = 0" by (rule N'(9) [of level va "Suc l"])
        then have "walk_pure level r va (mem ?s2) = 0" using Suc by (simp add: Let_def)
        then show ?thesis using W that by simp
      qed
      have same: "mem s' i = mem ?s2 i" if "pt \<le> i" "i < pt + PGSIZE" for i
        using W pt N(8) X Cons kr(2) that by (intro same_outside_page [of "[r] @ rs" _ _ "kend s" pt]) auto
      have e: "pte_at (mem s') ?slot = PA2PTE r OR PTE_V" using N(6) pte_at_cong [OF same] by simp
      have "r < 2 ^ 54" "r mod 4096 = 0" using N(8) by (simp_all add: page_ok_def PHYSTOP_def PGSIZE_def)
      note pm = pte_make [OF this(2,1), of PTE_V]
      have T': "walk_tables (Suc level) pt va (mem s') = pt # walk_tables level r va (mem s')"
        "walk_pure (Suc level) pt va (mem s') = walk_pure level r va (mem s')"
        using e pm by (simp_all add: Let_def PTE_V_def)
      have fr: "same_outside (pt # xs) (mem s) (mem s')"
        using W by (intro same_outside_trans [OF N(5)]) (auto simp: Cons)
      have sub: "set (walk_tables level r va (mem s')) \<subseteq> set xs" "set ys \<subseteq> set xs" if "p \<noteq> 0"
        using W that by (auto simp: Cons)
      have P: "walk_pure (Suc level) pt va (mem s) = 0" using True by (simp add: Let_def)
      have B: "tables_ok (kend s) (pt # walk_tables level r va (mem s')) ys" if "p \<noteq> 0"
        using W sub [OF that] pt N(4) that by (auto simp: tables_ok_def)
      have C: "\<exists>ts. pt # walk_tables level r va (mem s') = ts @ [p - 8 * PX 0 va]" if "p \<noteq> 0"
        using W that by (metis append_Cons)
      have D: "p = 0 \<longrightarrow> length xs < Suc level" "set ys \<subseteq> set xs" "kend s' = kend s" "kmem_inv s' ys"
        using W N(4) by (auto simp: Cons)
      have E: "walk_pure level r va (mem s') = p" if "p \<noteq> 0" using W that by simp
      have "walked (Suc level) pt va xs s p ys s'"
        unfolding walked_def T T' P using fr sub z B C D E by auto
      moreover have "walk_loop (Suc level) pt va True s = (p, s')"
        using True w(1) N(1,2) by (simp add: Let_def case_prod_beta)
      ultimately show ?thesis by blast
    qed
  qed
qed

section \<open>A process with one page\<close>

text \<open>A page table at address 4096 that maps user addresses below 4096 to the page at 16384.\<close>

definition demo_mem :: bytes where
  "demo_mem = put_le (put_le (put_le (\<lambda>_. 0) 4096 8 2049) 8192 8 3073) 12288 8 4119"

lemma demo_user_pa:
  assumes "\<And>x. x < 16384 \<Longrightarrow> m x = demo_mem x" and "a < 4096"
  shows "user_pa m 4096 a = Some (16384 + a)"
proof -
  have c: "pte_at m x = pte_at demo_mem x" if "x + 8 \<le> 16384" for x
    unfolding pte_at_def by (rule get_le_cong) (use assms(1) that in auto)
  have e: "pte_at m 4096 = 2049" "pte_at m 8192 = 3073" "pte_at m 12288 = 4119"
    by (simp_all add: c) (simp_all add: pte_at_def demo_mem_def le_simps)
  have "PGROUNDDOWN a = 0" using assms(2) by (simp add: PGROUNDDOWN_def)
  moreover have v: "(2049 :: nat) AND PTE_V \<noteq> 0" "(3073 :: nat) AND PTE_V \<noteq> 0" "(4119 :: nat) AND PTE_V \<noteq> 0" "(4119 :: nat) AND PTE_U \<noteq> 0"
    "PTE2PA 2049 = 8192" "PTE2PA 3073 = 12288" "PTE2PA 4119 = 16384"
    by (simp_all add: PTE_V_def PTE_U_def PTE2PA_def u64_def)
  then have "walk_pure (Suc (Suc 0)) 4096 0 m = 12288" by (simp add: Let_def PX_def e)
  then have "walk_pure 2 4096 0 m = 12288" by (simp only: numeral_2_eq_2)
  then have "translate m 4096 0 = 16384" using v by (simp add: translate_def Let_def e MAXVA_def)
  ultimately show ?thesis by (simp add: user_pa_def)
qed

section \<open>Properties\<close>

text \<open>C15: Mapping a page: with at least two free pages for missing table levels, \<^verbatim>\<open>mappages\<close> of one page at an
  address that is not mapped yet returns 0; afterwards \<^verbatim>\<open>walkaddr\<close> translates the address to the page
  exactly when the permissions include \<^verbatim>\<open>PTE_U\<close>, the free list is still well formed and only lost
  pages, and memory changed only inside page-table pages of the walk and pages taken from the free list. If the address is
  mapped already, \<^verbatim>\<open>mappages\<close> panics.\<close>

theorem mappages_translates:
  fixes s :: "'a mstate_scheme"
  assumes "kmem_inv s xs" and "tables_ok (kend s) (walk_tables 2 pagetable va (mem s)) xs" and "2 \<le> length xs"
    and "va mod PGSIZE = 0" and "va < MAXVA" and "pa mod PGSIZE = 0" and "pa < 2 ^ 54" and "perm < 1024"
  shows "if walk_pure 2 pagetable va (mem s) \<noteq> 0 \<and> pte_at (mem s) (walk_pure 2 pagetable va (mem s)) AND PTE_V \<noteq> 0
    then mappages pagetable va PGSIZE pa perm s = Inl (Panic ''remap'')
    else \<exists>s' ys. mappages pagetable va PGSIZE pa perm s = Inr (0, s') \<and>
      walkaddr pagetable va s' = Inr (if perm AND PTE_U = 0 then 0 else pa, s') \<and>
      kmem_inv s' ys \<and> set ys \<subseteq> set xs \<and> same_outside (walk_tables 2 pagetable va (mem s) @ xs) (mem s) (mem s')"
proof -
  obtain p s1 ys where w: "walk_loop 2 pagetable va True s = (p, s1)" "walked 2 pagetable va xs s p ys s1"
    using walk_alloc [OF assms(1,2)] by blast
  note W = w(2) [unfolded walked_def]
  have p: "p \<noteq> 0" using W assms(3) by auto
  have al: "PGROUNDDOWN va = va" "PGROUNDDOWN (sub64 (u64 (va + PGSIZE)) 1) = va"
    using assms(4,5) by (auto simp: PGROUNDDOWN_def PGSIZE_def MAXVA_def sub64_def u64_def mod_eq_0_iff_dvd dvd_def)
  let ?v = "PA2PTE pa OR perm OR PTE_V" let ?s' = "set_pte p ?v s1"
  have mp: "mappages pagetable va PGSIZE pa perm s =
      (if pte_at (mem s1) p AND PTE_V \<noteq> 0 then Inl (Panic ''remap'') else Inr (0, ?s'))"
    unfolding mappages_def Let_def al by (subst mappages_loop.simps) (use assms(5) w(1) p in \<open>simp add: walk_def not_le\<close>)
  obtain ts where ts: "walk_tables 2 pagetable va (mem s1) = ts @ [p - 8 * PX 0 va]" "walk_pure 2 pagetable va (mem s1) = p"
    "tables_ok (kend s) (walk_tables 2 pagetable va (mem s1)) ys"
    using W p by blast
  show ?thesis
  proof (cases "walk_pure 2 pagetable va (mem s) \<noteq> 0 \<and> pte_at (mem s) (walk_pure 2 pagetable va (mem s)) AND PTE_V \<noteq> 0")
    case True
    then show ?thesis using mp W p by auto
  next
    case False
    then have nv: "pte_at (mem s1) p AND PTE_V = 0" using W p by (auto split: if_splits)
    let ?t = "p - 8 * PX 0 va"
    have t: "page_ok (kend s) ?t" "?t \<notin> set ys" "?t \<notin> set ts" "?t \<noteq> 0" "\<forall>u \<in> set ts. page_ok (kend s) u"
      using ts(1,3) assms(1) by (auto simp: tables_ok_def page_ok_def kmem_inv_def)
    then have pe: "p = ?t + 8 * PX 0 va" by simp
    have m': "mem ?s' = put_le (mem s1) (?t + 8 * PX 0 va) 8 ?v" using pe by (simp add: set_pte_def)
    have out: "mem ?s' i = mem s1 i" if "i < ?t \<or> ?t + PGSIZE \<le> i" for i
      unfolding m' by (rule put_le_in_page) (rule that)
    have "walk_pure 2 pagetable va (mem ?s') = walk_pure 2 pagetable va (mem s1)"
    proof (rule walk_pure_cong)
      fix u i assume "u \<in> set (butlast (walk_tables 2 pagetable va (mem s1)))" "u \<le> i" "i < u + PGSIZE"
      then show "mem ?s' i = mem s1 i"
        using pages_disjoint [of "kend s" u ?t] t ts(1) by (intro out) fastforce
    qed (use ts(2) p in simp)
    then have wp: "walk_pure 2 pagetable va (mem ?s') = p" using ts(2) by simp
    have pa: "pa mod 4096 = 0" using assms(6) by (simp add: PGSIZE_def)
    have f: "perm OR PTE_V < 1024"
      using assms(8) by (cases "perm = 1023") (simp_all add: PTE_V_def or_one_eq del: One_nat_def)
    note pm = pte_make [OF pa assms(7) f]
    have U: "(perm OR PTE_V) AND PTE_V \<noteq> 0" "(perm OR PTE_V) AND PTE_U = 0 \<longleftrightarrow> perm AND PTE_U = 0"
      unfolding PTE_V_def PTE_U_def and_exp_zero_iff by (simp_all add: bit_or_iff bit_1_iff bit_0 even_or_iff del: One_nat_def)
    have e: "pte_at (mem ?s') p = ?v" unfolding set_pte_def pte_at_def
      using pm(4) by (simp add: or.assoc get_put_le)
    have "walkaddr pagetable va ?s' = Inr (if perm AND PTE_U = 0 then 0 else pa, ?s')"
      using assms(5) p pm U by (simp add: walkaddr_translate translate_def Let_def wp e or.assoc)
    moreover have "kmem_inv ?s' ys"
      using W t out unfolding set_pte_def by (intro kmem_inv_page_write [of s1 ys ?t]) (simp_all add: set_pte_def)
    moreover have "same_outside (walk_tables 2 pagetable va (mem s) @ xs) (mem s) (mem ?s')"
    proof (rule same_outside_trans [of "walk_tables 2 pagetable va (mem s) @ xs" _ "mem s1" "[?t]"])
      show "same_outside [?t] (mem s1) (mem ?s')" using out by (simp add: same_outside_def)
    qed (use W p ts(1) in auto)
    ultimately show ?thesis using mp nv False W by auto
  qed
qed

theorem mappages_translates_witness:
  "\<exists>(s :: mstate) s'. mappages 16384 4096 PGSIZE 20480 (PTE_R OR PTE_W OR PTE_U) s = Inr (0, s') \<and>
     walkaddr 16384 4096 s' = Inr (20480, s')"
proof -
  define s0 :: mstate where "s0 = \<lparr>mem = (\<lambda>_. 0), freelist = 0, kend = 4096\<rparr>"
  have m0: "mem s0 = (\<lambda>_. 0)" "kend s0 = 4096" "kmem_inv s0 []" by (simp_all add: s0_def kmem_inv_def)
  have "page_ok (kend s0) 8192" "(8192 :: nat) \<notin> set []" by (simp_all add: m0 page_ok_def PGSIZE_def PHYSTOP_def)
  from kfree_push [OF m0(3) this] obtain s1 :: mstate where 1: "kmem_inv s1 [8192]"
    "\<forall>i. i < 8192 \<or> 8192 + PGSIZE \<le> i \<longrightarrow> mem s1 i = mem s0 i" "kend s1 = kend s0" by blast
  have "page_ok (kend s1) 12288" "12288 \<notin> set [8192 :: nat]" by (simp_all add: 1 m0 page_ok_def PGSIZE_def PHYSTOP_def)
  from kfree_push [OF 1(1) this] obtain s :: mstate where 2: "kmem_inv s [12288, 8192]"
    "\<forall>i. i < 12288 \<or> 12288 + PGSIZE \<le> i \<longrightarrow> mem s i = mem s1 i" "kend s = kend s1" by blast
  have "pte_at (mem s) (16384 + 8 * PX 2 4096) = pte_at (\<lambda>_. 0) (16384 + 8 * PX 2 4096)"
    by (rule pte_at_cong) (use 1(2) 2(2) in \<open>simp add: PGSIZE_def m0\<close>)
  then have z: "pte_at (mem s) (16384 + 8 * PX 2 4096) = 0" by (simp add: pte_at_def)
  have w: "walk_tables 2 16384 4096 (mem s) = [16384]" "walk_pure 2 16384 4096 (mem s) = 0"
    using z by (simp_all add: numeral_2_eq_2 Let_def)
  have p: "PTE_R OR PTE_W OR PTE_U = 22" by (simp add: PTE_R_def PTE_W_def PTE_U_def)
  have t: "tables_ok (kend s) (walk_tables 2 16384 4096 (mem s)) [12288, 8192]"
    by (simp add: w tables_ok_def page_ok_def 2(3) 1(3) m0 PGSIZE_def PHYSTOP_def)
  show ?thesis
    using mappages_translates [OF 2(1) t, of 20480 22] unfolding p
    by (auto simp: w MAXVA_def PGSIZE_def PTE_U_def)
qed

end
