(* ===== verification/Locks.thy ===== *)
theory Locks
  imports Prelude
begin

text \<open>
  Spin locks and sleep locks (\<^verbatim>\<open>FileSystem-RAID/kernel/spinlock.c\<close>, \<^verbatim>\<open>sleeplock.c\<close>).
  The spin lock routines run on a machine of several CPUs; each is a function of the CPU that
  calls it, and an interleaving of the CPUs is a run of the step relation \<open>spin_step\<close>, in
  which a CPU that has to wait in \<^verbatim>\<open>acquire\<close> stays at the atomic swap with interrupts off.
  The invariant of that machine gives mutual exclusion and that a CPU which holds a lock has
  its interrupts off. The locale \<open>invariant_system\<close> is the contract between such a machine
  and its invariant; it is used again for the log.

  Everywhere else in the development the critical sections that spin locks protect are atomic,
  and a sleep lock is the pair of fields the code tests.
\<close>

section \<open>Transition systems and invariants\<close>

locale invariant_system =
  fixes init :: "'s \<Rightarrow> bool" and step :: "'s \<Rightarrow> 's \<Rightarrow> bool" and inv :: "'s \<Rightarrow> bool"
  assumes init_inv: "init s \<Longrightarrow> inv s"
    and step_inv: "inv s \<Longrightarrow> step s s' \<Longrightarrow> inv s'"
begin

lemma reachable_inv:
  assumes "init s" and "step\<^sup>*\<^sup>* s s'"
  shows "inv s'"
  using assms(2)
  by (induction rule: rtranclp_induct) (use assms(1) init_inv step_inv in blast)+

end

section \<open>Spin locks\<close>

record cpu =
  noff :: int
  intena :: bool
  intr :: bool

record spinlock =
  sl_locked :: bool
  sl_cpu :: "nat option"

record smp =
  cpus :: "nat \<Rightarrow> cpu"
  slock :: "nat \<Rightarrow> spinlock"

definition initlock :: spinlock where
  "initlock = \<lparr>sl_locked = False, sl_cpu = None\<rparr>"

definition holding :: "nat \<Rightarrow> nat \<Rightarrow> smp \<Rightarrow> bool" where
  "holding c lk s = (sl_locked (slock s lk) \<and> sl_cpu (slock s lk) = Some c)"

definition push_off :: "nat \<Rightarrow> smp \<Rightarrow> smp" where
  "push_off c s =
     (let old = intr (cpus s c);
          p = (cpus s c)\<lparr>intr := False\<rparr>;
          p = (if noff p = 0 then p\<lparr>intena := old\<rparr> else p);
          p = p\<lparr>noff := noff p + 1\<rparr> in
      s\<lparr>cpus := (cpus s)(c := p)\<rparr>)"

definition pop_off :: "nat \<Rightarrow> smp \<Rightarrow> smp kres" where
  "pop_off c s =
     (let p = cpus s c in
      if intr p then Inl (Panic ''pop_off - interruptible'')
      else if noff p < 1 then Inl (Panic ''pop_off'')
      else
        let p = p\<lparr>noff := noff p - 1\<rparr>;
            p = (if noff p = 0 \<and> intena p then p\<lparr>intr := True\<rparr> else p) in
        Inr (s\<lparr>cpus := (cpus s)(c := p)\<rparr>))"

text \<open>
  \<^verbatim>\<open>acquire\<close> up to the spin loop, and the successful atomic swap that ends it. The store of the owner after the swap is part of
  the same step: in between the lock is set and has no owner, which for every other CPU is as if it had one.
\<close>

definition acquire_begin :: "nat \<Rightarrow> nat \<Rightarrow> smp \<Rightarrow> smp kres" where
  "acquire_begin c lk s =
     (let s = push_off c s in
      if holding c lk s then Inl (Panic ''acquire'') else Inr s)"

definition acquire_swap :: "nat \<Rightarrow> nat \<Rightarrow> smp \<Rightarrow> smp kres" where
  "acquire_swap c lk s =
     (if sl_locked (slock s lk) then Inl (Sleep ''spin'')
      else Inr (s\<lparr>slock := (slock s)(lk := \<lparr>sl_locked = True, sl_cpu = Some c\<rparr>)\<rparr>))"

definition acquire :: "nat \<Rightarrow> nat \<Rightarrow> smp \<Rightarrow> smp kres" where
  "acquire c lk s = bindE (acquire_begin c lk s) (acquire_swap c lk)"

definition release :: "nat \<Rightarrow> nat \<Rightarrow> smp \<Rightarrow> smp kres" where
  "release c lk s =
     (if \<not> holding c lk s then Inl (Panic ''release'')
      else
        let s = s\<lparr>slock := (slock s)(lk := (slock s lk)\<lparr>sl_cpu := None\<rparr>)\<rparr>;
            s = s\<lparr>slock := (slock s)(lk := (slock s lk)\<lparr>sl_locked := False\<rparr>)\<rparr> in
        pop_off c s)"

section \<open>Sleep locks\<close>

record sleeplock =
  locked :: bool
  lk_pid :: int

definition initsleeplock :: sleeplock where
  "initsleeplock = \<lparr>locked = False, lk_pid = 0\<rparr>"

text \<open>Acquiring a held lock puts the caller to sleep.\<close>

definition acquiresleep :: "int \<Rightarrow> sleeplock \<Rightarrow> sleeplock kres" where
  "acquiresleep pid lk =
     (if locked lk then Inl (Sleep ''acquiresleep'')
      else Inr \<lparr>locked = True, lk_pid = pid\<rparr>)"

definition releasesleep :: "sleeplock \<Rightarrow> sleeplock" where
  "releasesleep lk = \<lparr>locked = False, lk_pid = 0\<rparr>"

definition holdingsleep :: "int \<Rightarrow> sleeplock \<Rightarrow> bool" where
  "holdingsleep pid lk = (locked lk \<and> lk_pid lk = pid)"

section \<open>Interleavings of CPUs\<close>

text \<open>
  A machine state with, for each CPU, the locks it holds (in the order of acquisition) and the
  lock it is spinning on. Interrupts may be turned on or off outside critical sections.
\<close>

record spin_state =
  machine :: smp
  held :: "nat \<Rightarrow> nat list"
  spinning :: "nat \<Rightarrow> nat option"

inductive spin_step :: "spin_state \<Rightarrow> spin_state \<Rightarrow> bool" where
  begin_acquire:
    "spinning st c = None \<Longrightarrow> acquire_begin c lk (machine st) = Inr m \<Longrightarrow>
     spin_step st (st\<lparr>machine := m, spinning := (spinning st)(c := Some lk)\<rparr>)"
| swap:
    "spinning st c = Some lk \<Longrightarrow> acquire_swap c lk (machine st) = Inr m \<Longrightarrow>
     spin_step st (st\<lparr>machine := m, spinning := (spinning st)(c := None),
                      held := (held st)(c := lk # held st c)\<rparr>)"
| end_release:
    "spinning st c = None \<Longrightarrow> release c lk (machine st) = Inr m \<Longrightarrow>
     spin_step st (st\<lparr>machine := m, held := (held st)(c := remove1 lk (held st c))\<rparr>)"
| set_intr:
    "spinning st c = None \<Longrightarrow> held st c = [] \<Longrightarrow>
     spin_step st (st\<lparr>machine := (machine st)\<lparr>cpus := (cpus (machine st))
                       (c := (cpus (machine st) c)\<lparr>intr := b\<rparr>)\<rparr>\<rparr>)"

definition spin_init :: "spin_state \<Rightarrow> bool" where
  "spin_init st \<longleftrightarrow> (\<forall>c. noff (cpus (machine st) c) = 0) \<and>
     (\<forall>l. slock (machine st) l = initlock) \<and> (\<forall>c. held st c = []) \<and> (\<forall>c. spinning st c = None)"

definition spin_inv :: "spin_state \<Rightarrow> bool" where
  "spin_inv st \<longleftrightarrow>
     (\<forall>l c. l \<in> set (held st c) \<longleftrightarrow> sl_locked (slock (machine st) l) \<and> sl_cpu (slock (machine st) l) = Some c) \<and>
     (\<forall>l. sl_locked (slock (machine st) l) \<longrightarrow> sl_cpu (slock (machine st) l) \<noteq> None) \<and>
     (\<forall>c. distinct (held st c)) \<and>
     (\<forall>c. noff (cpus (machine st) c) =
          int (length (held st c)) + (if spinning st c = None then 0 else 1)) \<and>
     (\<forall>c. held st c \<noteq> [] \<or> spinning st c \<noteq> None \<longrightarrow> \<not> intr (cpus (machine st) c))"

lemma spin_init_inv: "spin_init st \<Longrightarrow> spin_inv st"
  by (simp add: spin_init_def spin_inv_def initlock_def)

lemma push_off_simps [simp]:
  "slock (push_off c s) = slock s"
  "noff (cpus (push_off c s) d) = (if d = c then noff (cpus s c) + 1 else noff (cpus s d))"
  "intr (cpus (push_off c s) d) = (d \<noteq> c \<and> intr (cpus s d))"
  by (simp_all add: push_off_def Let_def)

lemma pop_off_Inr:
  assumes "pop_off c s = Inr s'"
  shows "slock s' = slock s"
    and "noff (cpus s' d) = (if d = c then noff (cpus s c) - 1 else noff (cpus s d))"
    and "intr (cpus s' d) \<longrightarrow> (d = c \<and> noff (cpus s c) = 1) \<or> (d \<noteq> c \<and> intr (cpus s d))"
  using assms by (auto simp: pop_off_def Let_def split: if_splits)

lemma spin_inv_begin:
  assumes "spin_inv st" and "spinning st c = None" and "acquire_begin c lk (machine st) = Inr m"
  shows "spin_inv (st\<lparr>machine := m, spinning := (spinning st)(c := Some lk)\<rparr>)"
proof -
  have m: "m = push_off c (machine st)"
    using assms(3) by (simp add: acquire_begin_def Let_def split: if_splits)
  show ?thesis using assms(1,2) unfolding spin_inv_def m by simp
qed

lemma spin_inv_swap:
  assumes "spin_inv st" and "spinning st c = Some lk" and "acquire_swap c lk (machine st) = Inr m"
  shows "spin_inv (st\<lparr>machine := m, spinning := (spinning st)(c := None),
                      held := (held st)(c := lk # held st c)\<rparr>)"
proof -
  have free: "\<not> sl_locked (slock (machine st) lk)"
    and m: "m = (machine st)\<lparr>slock := (slock (machine st))(lk := \<lparr>sl_locked = True, sl_cpu = Some c\<rparr>)\<rparr>"
    using assms(3) by (simp_all add: acquire_swap_def split: if_splits)
  have "\<forall>d. lk \<notin> set (held st d)" using assms(1) free by (auto simp: spin_inv_def)
  with assms(1,2) free show ?thesis unfolding spin_inv_def m by auto
qed

lemma spinlock_free_eq: "l\<lparr>sl_cpu := None, sl_locked := False\<rparr> = \<lparr>sl_locked = False, sl_cpu = None\<rparr>"
  by (cases l) simp

lemma spin_inv_release:
  assumes "spin_inv st" and "spinning st c = None" and "release c lk (machine st) = Inr m"
  shows "spin_inv (st\<lparr>machine := m, held := (held st)(c := remove1 lk (held st c))\<rparr>)"
proof -
  let ?s = "(machine st)\<lparr>slock := (slock (machine st))(lk := \<lparr>sl_locked = False, sl_cpu = None\<rparr>)\<rparr>"
  have h: "holding c lk (machine st)" and p: "pop_off c ?s = Inr m"
    using assms(3) by (simp_all add: release_def Let_def spinlock_free_eq split: if_splits)
  note inv = assms(1) [unfolded spin_inv_def]
  have hc: "lk \<in> set (held st c)" using inv h by (auto simp: holding_def)
  have dc: "distinct (held st c)" using inv by blast
  have len: "length (remove1 lk (held st c)) = length (held st c) - 1" "0 < length (held st c)"
    using hc by (auto simp: length_remove1)
  have others: "d \<noteq> c \<Longrightarrow> lk \<notin> set (held st d)" for d
    using inv h by (auto simp: holding_def)
  have noffc: "noff (cpus (machine st) c) = int (length (held st c))" using inv assms(2) by simp
  note P = pop_off_Inr [OF p]
  have I: "intr (cpus m d) \<Longrightarrow> (d = c \<and> remove1 lk (held st c) = []) \<or> (d \<noteq> c \<and> intr (cpus (machine st) d))" for d
    using P(3) [of d] noffc len by auto
  have N: "noff (cpus m d) = (if d = c then int (length (remove1 lk (held st c))) else noff (cpus (machine st) d))" for d
    using P(2) [of d] noffc len by (auto simp: of_nat_diff Suc_le_eq)
  have S: "slock m = (slock (machine st))(lk := \<lparr>sl_locked = False, sl_cpu = None\<rparr>)"
    using P(1) by simp
  have "\<not> intr (cpus m d)"
    if "((held st)(c := remove1 lk (held st c))) d \<noteq> [] \<or> spinning st d \<noteq> None" for d
    using I [of d] that inv assms(2) by (auto split: if_splits)
  then show ?thesis
    using inv assms(2) dc others N S unfolding spin_inv_def by (auto simp: set_remove1_eq)
qed

lemma spin_step_inv:
  assumes "spin_inv st" and "spin_step st st'"
  shows "spin_inv st'"
  using assms(2,1)
proof (induction rule: spin_step.induct)
  case (set_intr st c b)
  then show ?case by (simp add: spin_inv_def)
qed (simp_all add: spin_inv_begin spin_inv_swap spin_inv_release)

interpretation spin: invariant_system spin_init spin_step spin_inv
  using spin_init_inv spin_step_inv by unfold_locales

text \<open>C6: Mutual exclusion of spin locks: in every interleaving of any number of CPUs that
  starts with all locks free, a lock is held by at most one CPU, a CPU that holds or awaits a lock
  runs with interrupts off, and its nesting depth counts exactly the locks it holds or awaits.\<close>

theorem spinlock_mutual_exclusion:
  assumes "spin_init st" and "spin_step\<^sup>*\<^sup>* st st'"
  shows "(l \<in> set (held st' c) \<and> l \<in> set (held st' d) \<longrightarrow> c = d) \<and>
         (held st' c \<noteq> [] \<or> spinning st' c \<noteq> None \<longrightarrow> \<not> intr (cpus (machine st') c)) \<and>
         noff (cpus (machine st') c) = int (length (held st' c)) + (if spinning st' c = None then 0 else 1)"
  using spin.reachable_inv [OF assms] unfolding spin_inv_def by (metis option.inject)

definition demo_smp :: spin_state where
  "demo_smp = \<lparr>machine = \<lparr>cpus = (\<lambda>_. \<lparr>noff = 0, intena = False, intr = True\<rparr>), slock = (\<lambda>_. initlock)\<rparr>,
     held = (\<lambda>_. []), spinning = (\<lambda>_. None)\<rparr>"

lemma demo_smp_step:
  "spin_step demo_smp (demo_smp\<lparr>machine := push_off 0 (machine demo_smp),
     spinning := (spinning demo_smp)(0 := Some 7)\<rparr>)"
  by (rule spin_step.begin_acquire) (simp_all add: demo_smp_def acquire_begin_def holding_def initlock_def)

theorem spinlock_mutual_exclusion_witness:
  "\<not> intr (cpus (push_off 0 (machine demo_smp)) 0)"
proof -
  have "spin_step\<^sup>*\<^sup>* demo_smp (demo_smp\<lparr>machine := push_off 0 (machine demo_smp),
     spinning := (spinning demo_smp)(0 := Some 7)\<rparr>)"
    by (rule r_into_rtranclp) (rule demo_smp_step)
  from spinlock_mutual_exclusion [OF _ this, of 7 0 0] show ?thesis
    by (simp add: demo_smp_def spin_init_def)
qed

text \<open>Acquiring and releasing a free lock restores the CPU's interrupt state.\<close>

lemma acquire_release_restores:
  assumes "\<not> sl_locked (slock s lk)" and "0 \<le> noff (cpus s c)"
    and "0 < noff (cpus s c) \<Longrightarrow> \<not> intr (cpus s c)"
  shows "\<exists>s1 s2. acquire c lk s = Inr s1 \<and> release c lk s1 = Inr s2 \<and>
     intr (cpus s2 c) = intr (cpus s c) \<and> noff (cpus s2 c) = noff (cpus s c)"
  using assms
  by (auto simp: acquire_def acquire_begin_def acquire_swap_def release_def holding_def push_off_def
      pop_off_def Let_def)

end
