(* ===== verification/Bio.thy ===== *)
theory Bio
  imports Kalloc Locks ListHead
begin

text \<open>
  The buffer cache with its RAID 1 redirection (\<^verbatim>\<open>FileSystem-RAID/kernel/bio.c\<close>, \<^verbatim>\<open>buf.h\<close>).
  The cache is an array of buffers linked by \<^verbatim>\<open>prev\<close> and \<^verbatim>\<open>next\<close> pointers in order of use; index
  \<open>NBUF\<close> is the list head. The disk is a function from physical block numbers to blocks:
  the first \<open>LOGICAL_DISK_SIZE\<close> of them are Disk 0, the next ones Disk 1. A request to the driver is the
  transfer of one block. The field \<open>dhist\<close> records the writes the disk has seen, in order, so that a
  crash between two of them is a prefix of it; \<open>klog\<close> holds the diagnostics that \<^verbatim>\<open>bwrite\<close> prints.

  Clients see a cache through three functions of the block number: \<open>view\<close>, the contents a reader
  gets, \<open>rc\<close>, the number of references, and \<open>lock_of\<close>, the process that holds its lock. Each routine
  has one lemma that says when it returns and how it changes these.
\<close>

section \<open>State\<close>

record buf =
  b_valid :: bool
  b_disk :: bool
  b_dev :: nat
  b_blockno :: nat
  b_lock :: sleeplock
  b_refcnt :: nat
  b_prev :: nat
  b_next :: nat
  b_data :: bytes

datatype diag =
    BW_DIAG nat nat int int
  | SKIP_PBN0_disk nat
  | SKIP_PBN0_block nat
  | ATTEMPT_PBN0 nat
  | SKIP_PBN1_disk nat
  | ATTEMPT_PBN1 nat

record bstate = mstate +
  disk :: "nat \<Rightarrow> bytes"
  dhist :: "(nat \<times> bytes) list"
  bufs :: "nat \<Rightarrow> buf"
  force_read_error_pbn :: int
  force_disk_fail_id :: int
  curpid :: int
  klog :: "diag list"

definition NBUF :: nat where "NBUF = 30"
definition BSIZE :: nat where "BSIZE = 1024"
definition ROOTDEV :: nat where "ROOTDEV = 1"
definition FSSIZE :: nat where "FSSIZE = 4096"
definition LOGICAL_DISK_SIZE :: nat where "LOGICAL_DISK_SIZE = FSSIZE div 2"
definition DISK1_START_BLOCK :: nat where "DISK1_START_BLOCK = FSSIZE div 2"

definition upd_buf :: "nat \<Rightarrow> (buf \<Rightarrow> buf) \<Rightarrow> 'a bstate_scheme \<Rightarrow> 'a bstate_scheme" where
  "upd_buf b f s = s\<lparr>bufs := (bufs s)(b := f (bufs s b))\<rparr>"

definition set_bnext :: "nat \<Rightarrow> nat \<Rightarrow> 'a bstate_scheme \<Rightarrow> 'a bstate_scheme" where
  "set_bnext b v = upd_buf b (\<lambda>x. x\<lparr>b_next := v\<rparr>)"

definition set_bprev :: "nat \<Rightarrow> nat \<Rightarrow> 'a bstate_scheme \<Rightarrow> 'a bstate_scheme" where
  "set_bprev b v = upd_buf b (\<lambda>x. x\<lparr>b_prev := v\<rparr>)"

definition set_bdata :: "nat \<Rightarrow> bytes \<Rightarrow> 'a bstate_scheme \<Rightarrow> 'a bstate_scheme" where
  "set_bdata b d = upd_buf b (\<lambda>x. x\<lparr>b_data := d\<rparr>)"

abbreviation bdata :: "'a bstate_scheme \<Rightarrow> nat \<Rightarrow> bytes" where
  "bdata s b \<equiv> b_data (bufs s b)"

section \<open>Operations\<close>

definition binit_buf :: "nat \<Rightarrow> 'a bstate_scheme \<Rightarrow> 'a bstate_scheme" where
  "binit_buf b s =
     (let s = set_bnext b (b_next (bufs s NBUF)) s;
          s = set_bprev b NBUF s;
          s = upd_buf b (\<lambda>x. x\<lparr>b_lock := initsleeplock\<rparr>) s;
          s = set_bprev (b_next (bufs s NBUF)) b s;
          s = set_bnext NBUF b s in s)"

definition binit :: "'a bstate_scheme \<Rightarrow> 'a bstate_scheme" where
  "binit s =
     (let s = set_bprev NBUF NBUF s;
          s = set_bnext NBUF NBUF s in
      fold binit_buf [0..<NBUF] s)"

text \<open>The two searches of \<^verbatim>\<open>bget\<close>, from the most recently used end and from the least.\<close>

fun bget_cached :: "nat \<Rightarrow> nat \<Rightarrow> nat \<Rightarrow> nat \<Rightarrow> 'a bstate_scheme \<Rightarrow> nat option kres" where
  "bget_cached 0 b dev blockno s = Inl Fuel"
| "bget_cached (Suc fuel) b dev blockno s =
     (if b = NBUF then Inr None
      else if b_dev (bufs s b) = dev \<and> b_blockno (bufs s b) = blockno then Inr (Some b)
      else bget_cached fuel (b_next (bufs s b)) dev blockno s)"

fun bget_victim :: "nat \<Rightarrow> nat \<Rightarrow> 'a bstate_scheme \<Rightarrow> nat option kres" where
  "bget_victim 0 b s = Inl Fuel"
| "bget_victim (Suc fuel) b s =
     (if b = NBUF then Inr None
      else if b_refcnt (bufs s b) = 0 then Inr (Some b)
      else bget_victim fuel (b_prev (bufs s b)) s)"

definition lock_buf :: "nat \<Rightarrow> 'a bstate_scheme \<Rightarrow> 'a bstate_scheme kres" where
  "lock_buf b s = bindE (acquiresleep (curpid s) (b_lock (bufs s b)))
     (\<lambda>lk. Inr (upd_buf b (\<lambda>x. x\<lparr>b_lock := lk\<rparr>) s))"

definition bget :: "nat \<Rightarrow> nat \<Rightarrow> 'a bstate_scheme \<Rightarrow> (nat \<times> 'a bstate_scheme) kres" where
  "bget dev blockno s =
     bindE (bget_cached (Suc NBUF) (b_next (bufs s NBUF)) dev blockno s) (\<lambda>r. case r of
       Some b \<Rightarrow>
         (let s = upd_buf b (\<lambda>x. x\<lparr>b_refcnt := u32 (b_refcnt x + 1)\<rparr>) s in
          bindE (lock_buf b s) (\<lambda>s. Inr (b, s)))
     | None \<Rightarrow>
         bindE (bget_victim (Suc NBUF) (b_prev (bufs s NBUF)) s) (\<lambda>r. case r of
           Some b \<Rightarrow>
             (let s = upd_buf b (\<lambda>x. x\<lparr>b_dev := dev, b_blockno := blockno, b_valid := False,
                                       b_refcnt := 1\<rparr>) s in
              bindE (lock_buf b s) (\<lambda>s. Inr (b, s)))
         | None \<Rightarrow> Inl (Panic ''bget: no buffers'')))"

text \<open>One request to the disk driver: the block that the buffer names is transferred.\<close>

definition disk_rw :: "nat \<Rightarrow> bool \<Rightarrow> 'a bstate_scheme \<Rightarrow> 'a bstate_scheme" where
  "disk_rw b write s =
     (let bn = b_blockno (bufs s b) in
      if write then s\<lparr>disk := (disk s)(bn := bdata s b), dhist := dhist s @ [(bn, bdata s b)]\<rparr>
      else set_bdata b (disk s bn) s)"

definition set_blockno :: "nat \<Rightarrow> nat \<Rightarrow> 'a bstate_scheme \<Rightarrow> 'a bstate_scheme" where
  "set_blockno b n = upd_buf b (\<lambda>x. x\<lparr>b_blockno := n\<rparr>)"

definition pbn_error :: "nat \<Rightarrow> 'a bstate_scheme \<Rightarrow> bool" where
  "pbn_error pbn0 s \<longleftrightarrow> force_read_error_pbn s \<noteq> -1 \<and> u32_of_int (force_read_error_pbn s) = pbn0"

definition should_use_mirror :: "nat \<Rightarrow> 'a bstate_scheme \<Rightarrow> bool" where
  "should_use_mirror blockno s =
     (if blockno < LOGICAL_DISK_SIZE then force_disk_fail_id s = 0 \<or> pbn_error blockno s else False)"

definition bread :: "nat \<Rightarrow> nat \<Rightarrow> 'a bstate_scheme \<Rightarrow> (nat \<times> 'a bstate_scheme) kres" where
  "bread dev blockno s =
     bindE (bget dev blockno s) (\<lambda>(b, s).
       if \<not> b_valid (bufs s b) then
         (let original_blockno = b_blockno (bufs s b);
              s = (if should_use_mirror blockno s then set_blockno b (blockno + DISK1_START_BLOCK) s
                   else set_blockno b blockno s);
              s = disk_rw b False s;
              s = set_blockno b original_blockno s;
              s = upd_buf b (\<lambda>x. x\<lparr>b_valid := True\<rparr>) s in
          Inr (b, s))
       else Inr (b, s))"

definition kprintf :: "diag \<Rightarrow> 'a bstate_scheme \<Rightarrow> 'a bstate_scheme" where
  "kprintf m s = s\<lparr>klog := klog s @ [m]\<rparr>"

definition bwrite :: "nat \<Rightarrow> 'a bstate_scheme \<Rightarrow> 'a bstate_scheme kres" where
  "bwrite b s =
     (if \<not> holdingsleep (curpid s) (b_lock (bufs s b)) then Inl (Panic ''bwrite'')
      else if b_blockno (bufs s b) \<ge> LOGICAL_DISK_SIZE then Inr (disk_rw b True s)
      else
        let pbn0 = b_blockno (bufs s b);
            pbn1 = pbn0 + DISK1_START_BLOCK;
            fail_disk = force_disk_fail_id s;
            pbn0_fail = (if pbn_error pbn0 s then 1 else 0 :: int);
            s = kprintf (BW_DIAG pbn0 pbn1 fail_disk pbn0_fail) s;
            original_blockno = b_blockno (bufs s b);
            s = (if fail_disk = 0 then kprintf (SKIP_PBN0_disk pbn0) s
                 else if pbn0_fail \<noteq> 0 then kprintf (SKIP_PBN0_block pbn0) s
                 else
                   let s = kprintf (ATTEMPT_PBN0 pbn0) s;
                       s = set_blockno b pbn0 s in
                   disk_rw b True s);
            s = (if fail_disk = 1 then kprintf (SKIP_PBN1_disk pbn1) s
                 else
                   let s = kprintf (ATTEMPT_PBN1 pbn1) s;
                       s = set_blockno b pbn1 s in
                   disk_rw b True s);
            s = set_blockno b original_blockno s in
        Inr s)"

definition brelse :: "nat \<Rightarrow> 'a bstate_scheme \<Rightarrow> 'a bstate_scheme kres" where
  "brelse b s =
     (if \<not> holdingsleep (curpid s) (b_lock (bufs s b)) then Inl (Panic ''brelse'')
      else
        let s = upd_buf b (\<lambda>x. x\<lparr>b_lock := releasesleep (b_lock x)\<rparr>) s;
            s = upd_buf b (\<lambda>x. x\<lparr>b_refcnt := u32_dec (b_refcnt x)\<rparr>) s in
        if b_refcnt (bufs s b) = 0 then
          let s = set_bprev (b_next (bufs s b)) (b_prev (bufs s b)) s;
              s = set_bnext (b_prev (bufs s b)) (b_next (bufs s b)) s;
              s = set_bnext b (b_next (bufs s NBUF)) s;
              s = set_bprev b NBUF s;
              s = set_bprev (b_next (bufs s NBUF)) b s;
              s = set_bnext NBUF b s in
          Inr s
        else Inr s)"

definition bpin :: "nat \<Rightarrow> 'a bstate_scheme \<Rightarrow> 'a bstate_scheme" where
  "bpin b = upd_buf b (\<lambda>x. x\<lparr>b_refcnt := u32 (b_refcnt x + 1)\<rparr>)"

definition bunpin :: "nat \<Rightarrow> 'a bstate_scheme \<Rightarrow> 'a bstate_scheme" where
  "bunpin b = upd_buf b (\<lambda>x. x\<lparr>b_refcnt := u32_dec (b_refcnt x)\<rparr>)"

section \<open>The LRU list\<close>

definition nextp :: "'a bstate_scheme \<Rightarrow> nat \<Rightarrow> nat" where
  "nextp s = (\<lambda>i. b_next (bufs s i))"

definition prevp :: "'a bstate_scheme \<Rightarrow> nat \<Rightarrow> nat" where
  "prevp s = (\<lambda>i. b_prev (bufs s i))"

definition lru :: "'a bstate_scheme \<Rightarrow> nat list \<Rightarrow> bool" where
  "lru s xs \<longleftrightarrow> dll (nextp s) (prevp s) NBUF xs \<and> set xs = {..<NBUF}"

lemma bufs_upd_buf [simp]: "bufs (upd_buf b f s) i = (if i = b then f (bufs s b) else bufs s i)"
  by (simp add: upd_buf_def)

lemma upd_buf_frame [simp]:
  "disk (upd_buf b f s) = disk s" "dhist (upd_buf b f s) = dhist s"
  "force_read_error_pbn (upd_buf b f s) = force_read_error_pbn s"
  "force_disk_fail_id (upd_buf b f s) = force_disk_fail_id s"
  "curpid (upd_buf b f s) = curpid s" "klog (upd_buf b f s) = klog s"
  by (simp_all add: upd_buf_def)

lemma nextp_upd [simp]:
  "nextp (set_bnext b v s) = (nextp s)(b := v)" "nextp (set_bprev b v s) = nextp s"
  "prevp (set_bprev b v s) = (prevp s)(b := v)" "prevp (set_bnext b v s) = prevp s"
  by (auto simp: nextp_def prevp_def set_bnext_def set_bprev_def)

lemma nextp_upd_other:
  assumes "\<And>x. b_next (f x) = b_next x" and "\<And>x. b_prev (f x) = b_prev x"
  shows "nextp (upd_buf b f s) = nextp s" and "prevp (upd_buf b f s) = prevp s"
  using assms by (auto simp: nextp_def prevp_def)

lemma b_next_nextp: "b_next (bufs s i) = nextp s i" "b_prev (bufs s i) = prevp s i"
  by (simp_all add: nextp_def prevp_def)

lemma bget_cached_walk:
  assumes "chain (nextp s) p (xs @ [NBUF])" and "NBUF \<notin> set xs" and "length xs < fuel"
  shows "bget_cached fuel (hd (xs @ [NBUF])) dev n s
    = Inr (find (\<lambda>b. b_dev (bufs s b) = dev \<and> b_blockno (bufs s b) = n) xs)"
  using assms
proof (induction xs arbitrary: fuel)
  case Nil
  then show ?case by (cases fuel) simp_all
next
  case (Cons x xs)
  obtain fuel' where f: "fuel = Suc fuel'" using Cons.prems(3) by (cases fuel) simp_all
  have "chain (nextp s) p (xs @ [NBUF])" and nx: "b_next (bufs s x) = hd (xs @ [NBUF])"
    using Cons.prems(1) by (cases xs; simp add: nextp_def)+
  with Cons.IH [of fuel'] Cons.prems f show ?case by simp
qed

lemma bget_victim_walk:
  assumes "chain n (prevp s) (NBUF # xs)" and "NBUF \<notin> set xs" and "length xs < fuel"
  shows "bget_victim fuel (last (NBUF # xs)) s = Inr (find (\<lambda>b. b_refcnt (bufs s b) = 0) (rev xs))"
  using assms
proof (induction xs arbitrary: fuel rule: rev_induct)
  case Nil
  then show ?case by (cases fuel) simp_all
next
  case (snoc x xs)
  obtain fuel' where f: "fuel = Suc fuel'" using snoc.prems(3) by (cases fuel) simp_all
  have "chain n (prevp s) (NBUF # xs)" and nx: "b_prev (bufs s x) = last (NBUF # xs)"
    using chain_append [of "NBUF # xs" "[x]" n "prevp s"] snoc.prems(1)
    by (simp_all add: prevp_def del: last.simps)
  moreover have "last (NBUF # xs @ [x]) = x" by simp
  ultimately show ?case using snoc.IH [of fuel'] snoc.prems f by (simp del: last.simps)
qed

declare bget_cached.simps [simp del] bget_victim.simps [simp del]

lemma lru_length: "lru s xs \<Longrightarrow> length xs = NBUF"
  using distinct_card [of xs] by (auto simp: lru_def dll_def)

lemma bget_cached_lru:
  assumes "lru s xs"
  shows "bget_cached (Suc NBUF) (b_next (bufs s NBUF)) dev n s
    = Inr (find (\<lambda>b. b_dev (bufs s b) = dev \<and> b_blockno (bufs s b) = n) xs)"
proof -
  have d: "dll (nextp s) (prevp s) NBUF xs" using assms by (simp add: lru_def)
  have "b_next (bufs s NBUF) = hd (xs @ [NBUF])" using dll_first [OF d] by (simp add: nextp_def)
  moreover have "chain (nextp s) (prevp s) (xs @ [NBUF])" using d dll_split [of _ _ _ "[]" xs] by auto
  ultimately show ?thesis
    using bget_cached_walk [of s "prevp s" xs "Suc NBUF"] d lru_length [OF assms] by (simp add: dll_def)
qed

lemma bget_victim_lru:
  assumes "lru s xs"
  shows "bget_victim (Suc NBUF) (b_prev (bufs s NBUF)) s
    = Inr (find (\<lambda>b. b_refcnt (bufs s b) = 0) (rev xs))"
proof -
  have d: "dll (nextp s) (prevp s) NBUF xs" using assms by (simp add: lru_def)
  have "b_prev (bufs s NBUF) = last (NBUF # xs)" using dll_last [OF d] by (simp add: prevp_def)
  moreover have "chain (nextp s) (prevp s) (NBUF # xs)" using d dll_split [of _ _ _ xs "[]"] by auto
  ultimately show ?thesis
    using bget_victim_walk [of "nextp s" s xs "Suc NBUF"] d lru_length [OF assms]
    by (simp add: dll_def del: last.simps)
qed

text \<open>Linking a buffer at the front, the four assignments \<^verbatim>\<open>binit\<close> and \<^verbatim>\<open>brelse\<close> share.\<close>

lemma dll_push_front:
  assumes "dll n p h xs" and "b \<notin> set (h # xs)"
  shows "dll (n(b := n h, h := b)) (p(b := h, n h := b)) h (b # xs)"
proof -
  have "dll (n(h := b, b := n h)) (p(n h := b, b := h)) h ([] @ b # xs)"
    using assms dll_first [OF assms(1)] by (intro dll_link) simp_all
  moreover have "n h \<noteq> b" using dll_first [OF assms(1)] assms(2) by (cases xs) auto
  moreover have "h \<noteq> b" using assms(2) by auto
  ultimately show ?thesis by (simp add: fun_upd_twist)
qed

lemma binit_fold:
  assumes "dll (nextp s) (prevp s) NBUF xs" and "distinct ys" and "NBUF \<notin> set ys" and "set xs \<inter> set ys = {}"
  shows "dll (nextp (fold binit_buf ys s)) (prevp (fold binit_buf ys s)) NBUF (rev ys @ xs)"
  using assms
proof (induction ys arbitrary: s xs)
  case Nil
  then show ?case by simp
next
  case (Cons b ys)
  have b: "b \<notin> set (NBUF # xs)" using Cons.prems by auto
  have "dll (nextp (binit_buf b s)) (prevp (binit_buf b s)) NBUF (b # xs)"
    using dll_push_front [OF Cons.prems(1) b] b
    by (simp add: binit_buf_def Let_def nextp_upd_other b_next_nextp)
  then show ?case using Cons.IH [of "binit_buf b s" "b # xs"] Cons.prems by auto
qed

lemma binit_lru: "lru (binit s) (rev [0..<NBUF])"
proof -
  let ?s = "set_bnext NBUF NBUF (set_bprev NBUF NBUF s)"
  have "dll (nextp ?s) (prevp ?s) NBUF []" by (simp add: dll_def)
  from binit_fold [OF this, of "[0..<NBUF]"] show ?thesis
    by (simp add: binit_def Let_def lru_def atLeast0LessThan)
qed

section \<open>What clients see\<close>

definition src_block :: "'a bstate_scheme \<Rightarrow> nat \<Rightarrow> nat" where
  "src_block s n = (if should_use_mirror n s then n + DISK1_START_BLOCK else n)"

definition cached :: "'a bstate_scheme \<Rightarrow> nat \<Rightarrow> nat \<Rightarrow> bool" where
  "cached s b n \<longleftrightarrow> b < NBUF \<and> b_dev (bufs s b) = ROOTDEV \<and> b_blockno (bufs s b) = n"

definition buf_of :: "'a bstate_scheme \<Rightarrow> nat \<Rightarrow> nat option" where
  "buf_of s n = find (\<lambda>b. cached s b n) [0..<NBUF]"

definition view :: "'a bstate_scheme \<Rightarrow> nat \<Rightarrow> bytes" where
  "view s n =
     (if n < LOGICAL_DISK_SIZE then
        (case buf_of s n of Some b \<Rightarrow> bdata s b | None \<Rightarrow> disk s (src_block s n))
      else (\<lambda>_. 0))"

definition rc :: "'a bstate_scheme \<Rightarrow> nat \<Rightarrow> nat" where
  "rc s n = (case buf_of s n of Some b \<Rightarrow> b_refcnt (bufs s b) | None \<Rightarrow> 0)"

definition lock_of :: "'a bstate_scheme \<Rightarrow> nat \<Rightarrow> int option" where
  "lock_of s n = (case buf_of s n of
     Some b \<Rightarrow> if locked (b_lock (bufs s b)) then Some (lk_pid (b_lock (bufs s b))) else None
   | None \<Rightarrow> None)"

definition nfree :: "'a bstate_scheme \<Rightarrow> nat" where
  "nfree s = card {b. b < NBUF \<and> b_refcnt (bufs s b) = 0}"

text \<open>
  The cache invariant: the buffers form one LRU circle, a block is cached at most once and then
  valid, a buffer without references is unlocked and agrees with the disk, buffers with
  references belong to the root device, and only blocks of the logical disk are cached (the raw
  block test calls \<^verbatim>\<open>sys_raw_read\<close> and \<^verbatim>\<open>sys_raw_write\<close> are outside it).
\<close>

definition uniq :: "'a bstate_scheme \<Rightarrow> bool" where
  "uniq s \<longleftrightarrow> (\<forall>i j n. cached s i n \<and> cached s j n \<longrightarrow> i = j)"

definition buf_ok :: "'a bstate_scheme \<Rightarrow> nat \<Rightarrow> bool" where
  "buf_ok s b \<longleftrightarrow> (b_refcnt (bufs s b) = 0 \<longrightarrow> \<not> locked (b_lock (bufs s b))) \<and>
     (0 < b_refcnt (bufs s b) \<longrightarrow> b_dev (bufs s b) = ROOTDEV) \<and>
     b_refcnt (bufs s b) < 4294967296 \<and>
     (b_dev (bufs s b) = ROOTDEV \<longrightarrow> b_valid (bufs s b) \<and> b_blockno (bufs s b) < LOGICAL_DISK_SIZE \<and>
       (b_refcnt (bufs s b) = 0 \<longrightarrow> bdata s b = disk s (src_block s (b_blockno (bufs s b)))))"

definition binv :: "'a bstate_scheme \<Rightarrow> bool" where
  "binv s \<longleftrightarrow> (\<exists>xs. lru s xs) \<and> uniq s \<and> (\<forall>b < NBUF. buf_ok s b)"

text \<open>\<open>owns s b n\<close>: the running process holds buffer \<open>b\<close>, and it caches block \<open>n\<close>.\<close>

definition owns :: "'a bstate_scheme \<Rightarrow> nat \<Rightarrow> nat \<Rightarrow> bool" where
  "owns s b n \<longleftrightarrow> cached s b n \<and> holdingsleep (curpid s) (b_lock (bufs s b)) \<and> 0 < b_refcnt (bufs s b)"

lemma buf_of_cached: "uniq s \<Longrightarrow> cached s b n \<Longrightarrow> buf_of s n = Some b"
proof -
  assume u: "uniq s" and c: "cached s b n"
  then have "b < NBUF" by (simp add: cached_def)
  then have "find (\<lambda>b. cached s b n) [0..<NBUF] \<noteq> None" using c by (auto simp: find_None_iff)
  then obtain b' where b': "find (\<lambda>b. cached s b n) [0..<NBUF] = Some b'" by auto
  then have "cached s b' n" by (auto simp: find_Some_iff)
  with u c have "b' = b" by (auto simp: uniq_def)
  with b' show ?thesis by (simp add: buf_of_def)
qed

lemma buf_of_uncached: "(\<And>b. \<not> cached s b n) \<Longrightarrow> buf_of s n = None"
  by (simp add: buf_of_def find_None_iff)

lemma buf_of_SomeD: "buf_of s n = Some b \<Longrightarrow> cached s b n"
  by (auto simp: buf_of_def find_Some_iff)

lemma buf_of_NoneD: "buf_of s n = None \<Longrightarrow> \<not> cached s b n"
  by (auto simp: buf_of_def find_None_iff cached_def)

lemma abs_cached:
  assumes "uniq s" and "cached s b n"
  shows "view s n = (if n < LOGICAL_DISK_SIZE then bdata s b else (\<lambda>_. 0))" and "rc s n = b_refcnt (bufs s b)"
    and "lock_of s n = (if locked (b_lock (bufs s b)) then Some (lk_pid (b_lock (bufs s b))) else None)"
  using buf_of_cached [OF assms] by (simp_all add: view_def rc_def lock_of_def)

lemma abs_uncached:
  assumes "\<And>b. \<not> cached s b n"
  shows "view s n = (if n < LOGICAL_DISK_SIZE then disk s (src_block s n) else (\<lambda>_. 0))"
    and "rc s n = 0" and "lock_of s n = None"
  using buf_of_uncached [OF assms] by (simp_all add: view_def rc_def lock_of_def)

lemma binvD:
  assumes "binv s"
  shows "\<exists>xs. lru s xs" and "uniq s" and "b < NBUF \<Longrightarrow> buf_ok s b"
  using assms by (simp_all add: binv_def)

lemma cached_less:
  assumes "binv s" and "cached s b n"
  shows "n < LOGICAL_DISK_SIZE"
  using binvD(3) [OF assms(1), of b] assms(2) by (auto simp: buf_ok_def cached_def)

lemma owns_iff:
  assumes "binv s"
  shows "owns s b n \<longleftrightarrow> cached s b n \<and> lock_of s n = Some (curpid s)"
proof (cases "cached s b n")
  case True
  then have b: "b < NBUF" by (simp add: cached_def)
  have "buf_ok s b" using binvD(3) [OF assms b] .
  with abs_cached [OF binvD(2) [OF assms] True] True show ?thesis
    by (auto simp: owns_def holdingsleep_def buf_ok_def)
qed (simp add: owns_def)

lemma owns_abs:
  assumes "binv s" and "owns s b n"
  shows "view s n = bdata s b" and "rc s n = b_refcnt (bufs s b)" and "lock_of s n = Some (curpid s)"
    and "0 < rc s n" and "b < NBUF" and "b_blockno (bufs s b) = n" and "n < LOGICAL_DISK_SIZE"
  using abs_cached [OF binvD(2) [OF assms(1)], of b n] cached_less [OF assms(1), of b n] assms(2)
  by (simp_all add: owns_def holdingsleep_def cached_def)

text \<open>Changing one buffer without moving it in the list or renaming it.\<close>

lemma lru_same_links:
  assumes "lru s xs" and "\<And>i. b_next (bufs s' i) = b_next (bufs s i)" and "\<And>i. b_prev (bufs s' i) = b_prev (bufs s i)"
  shows "lru s' xs"
  using assms by (simp add: lru_def nextp_def prevp_def)

lemma abs_same_names:
  assumes "uniq s" and "\<And>i n. cached s' i n = cached s i n" and "cached s b n"
    and "\<And>i. i \<noteq> b \<Longrightarrow> i < NBUF \<Longrightarrow> bdata s' i = bdata s i \<and> b_refcnt (bufs s' i) = b_refcnt (bufs s i) \<and>
           b_lock (bufs s' i) = b_lock (bufs s i)"
    and "\<And>m. (\<And>i. \<not> cached s i m) \<Longrightarrow> m < LOGICAL_DISK_SIZE \<Longrightarrow> disk s' (src_block s' m) = disk s (src_block s m)"
    and "n < LOGICAL_DISK_SIZE"
  shows "view s' = (view s)(n := bdata s' b)" and "rc s' = (rc s)(n := b_refcnt (bufs s' b))"
    and "lock_of s' = (lock_of s)(n := if locked (b_lock (bufs s' b)) then Some (lk_pid (b_lock (bufs s' b))) else None)"
proof -
  let ?lk = "\<lambda>x. if locked x then Some (lk_pid x) else None"
  have bof: "buf_of s' m = buf_of s m" for m by (simp add: buf_of_def assms(2))
  have bn: "buf_of s n = Some b" using buf_of_cached [OF assms(1,3)] .
  have all: "view s' m = ((view s)(n := bdata s' b)) m \<and> rc s' m = ((rc s)(n := b_refcnt (bufs s' b))) m \<and>
      lock_of s' m = ((lock_of s)(n := ?lk (b_lock (bufs s' b)))) m" for m
  proof (cases "m = n")
    case True
    then show ?thesis using assms(6) by (simp add: view_def rc_def lock_of_def bof bn)
  next
    case False
    show ?thesis
    proof (cases "buf_of s m")
      case None
      then have "m < LOGICAL_DISK_SIZE \<Longrightarrow> disk s' (src_block s' m) = disk s (src_block s m)"
        using assms(5) buf_of_NoneD by blast
      with None False show ?thesis by (simp add: view_def rc_def lock_of_def bof)
    next
      case (Some i)
      then have "cached s i m" by (rule buf_of_SomeD)
      then have "i \<noteq> b" "i < NBUF" using False assms(3) by (auto simp: cached_def)
      with assms(4) [of i] Some False show ?thesis by (simp add: view_def rc_def lock_of_def bof)
    qed
  qed
  show "view s' = (view s)(n := bdata s' b)" by (rule ext) (use all in blast)
  show "rc s' = (rc s)(n := b_refcnt (bufs s' b))" by (rule ext) (use all in blast)
  show "lock_of s' = (lock_of s)(n := ?lk (b_lock (bufs s' b)))" by (rule ext) (use all in blast)
qed

lemma nfree_rc:
  assumes "binv s"
  shows "nfree s + card {n. 0 < rc s n} = NBUF"
proof -
  let ?U = "{b. b < NBUF \<and> 0 < b_refcnt (bufs s b)}"
  have c: "cached s b (b_blockno (bufs s b))" if "b \<in> ?U" for b
    using binvD(3) [OF assms, of b] that by (simp add: buf_ok_def cached_def)
  have "inj_on (\<lambda>b. b_blockno (bufs s b)) ?U"
  proof (rule inj_onI)
    fix i j
    assume "i \<in> ?U" "j \<in> ?U" "b_blockno (bufs s i) = b_blockno (bufs s j)"
    with c [of i] c [of j] binvD(2) [OF assms] show "i = j" unfolding uniq_def by metis
  qed
  moreover have "(\<lambda>b. b_blockno (bufs s b)) ` ?U = {n. 0 < rc s n}"
  proof (intro set_eqI iffI)
    fix n
    assume "n \<in> (\<lambda>b. b_blockno (bufs s b)) ` ?U"
    then obtain b where b: "b \<in> ?U" and n: "n = b_blockno (bufs s b)" by blast
    show "n \<in> {n. 0 < rc s n}"
      using b n abs_cached(2) [OF binvD(2) [OF assms] c [OF b]] by simp
  next
    fix n
    assume n: "n \<in> {n. 0 < rc s n}"
    then obtain b where b: "buf_of s n = Some b" by (auto simp: rc_def split: option.splits)
    then have cb: "cached s b n" by (rule buf_of_SomeD)
    with n b have "b \<in> ?U" by (simp add: rc_def cached_def)
    then show "n \<in> (\<lambda>b. b_blockno (bufs s b)) ` ?U" using cb by (auto simp: cached_def)
  qed
  ultimately have "card {n. 0 < rc s n} = card ?U" by (metis card_image)
  moreover have "{b. b < NBUF \<and> b_refcnt (bufs s b) = 0} \<union> ?U = {..<NBUF}" by auto
  then have "card ({b. b < NBUF \<and> b_refcnt (bufs s b) = 0} \<union> ?U) = NBUF" by simp
  then have "nfree s + card ?U = NBUF" unfolding nfree_def by (subst (asm) card_Un_disjoint) auto
  ultimately show ?thesis by simp
qed

section \<open>bread\<close>

lemma find_in_lru:
  assumes "lru s xs"
  shows "find P xs = None \<longleftrightarrow> (\<forall>b < NBUF. \<not> P b)" and "find P xs = Some b \<Longrightarrow> b < NBUF \<and> P b"
    and "find P (rev xs) = None \<longleftrightarrow> (\<forall>b < NBUF. \<not> P b)" and "find P (rev xs) = Some b \<Longrightarrow> b < NBUF \<and> P b"
proof -
  have s: "set xs = {..<NBUF}" using assms by (simp add: lru_def)
  show "find P xs = None \<longleftrightarrow> (\<forall>b < NBUF. \<not> P b)" "find P (rev xs) = None \<longleftrightarrow> (\<forall>b < NBUF. \<not> P b)"
    using s by (auto simp: find_None_iff)
  show "find P xs = Some b \<Longrightarrow> b < NBUF \<and> P b"
    using s nth_mem by (fastforce simp: find_Some_iff)
  show "find P (rev xs) = Some b \<Longrightarrow> b < NBUF \<and> P b"
    using s nth_mem [of _ "rev xs"] by (fastforce simp: find_Some_iff simp del: nth_mem)
qed

definition taken :: "'a bstate_scheme \<Rightarrow> sleeplock" where
  "taken s = \<lparr>locked = True, lk_pid = curpid s\<rparr>"

lemma bread_hit:
  assumes "binv s" and "cached s b n" and "lock_of s n = None"
  shows "bread ROOTDEV n s =
    Inr (b, upd_buf b (\<lambda>x. x\<lparr>b_refcnt := u32 (b_refcnt x + 1), b_lock := taken s\<rparr>) s)"
proof -
  obtain xs where xs: "lru s xs" using binvD(1) [OF assms(1)] ..
  let ?P = "\<lambda>b. b_dev (bufs s b) = ROOTDEV \<and> b_blockno (bufs s b) = n"
  have "find ?P xs \<noteq> None" using find_in_lru(1) [OF xs, of ?P] assms(2) by (auto simp: cached_def)
  then obtain b' where b': "find ?P xs = Some b'" by auto
  with find_in_lru(2) [OF xs this] have "cached s b' n" by (simp add: cached_def)
  with binvD(2) [OF assms(1)] assms(2) have [simp]: "b' = b" by (auto simp: uniq_def)
  have "b < NBUF" using assms(2) by (simp add: cached_def)
  then have "b_valid (bufs s b)" using binvD(3) [OF assms(1), of b] assms(2) by (simp add: buf_ok_def cached_def)
  moreover have "\<not> locked (b_lock (bufs s b))"
    using assms(3) abs_cached(3) [OF binvD(2) [OF assms(1)] assms(2)] by (simp split: if_splits)
  ultimately show ?thesis
    using b' by (simp add: bread_def bget_def bget_cached_lru [OF xs] lock_buf_def acquiresleep_def taken_def)
      (simp add: upd_buf_def)
qed

lemma buf_fill:
  "x\<lparr>b_dev := d, b_refcnt := r, b_lock := l, b_data := a, b_blockno := n, b_valid := v\<rparr> =
   x\<lparr>b_dev := d, b_blockno := n, b_valid := v, b_refcnt := r, b_lock := l, b_data := a\<rparr>"
  by (cases x) simp

lemma bread_miss:
  assumes "binv s" and "\<And>b. \<not> cached s b n" and "0 < nfree s"
  shows "\<exists>v. v < NBUF \<and> b_refcnt (bufs s v) = 0 \<and> bread ROOTDEV n s =
    Inr (v, upd_buf v (\<lambda>x. x\<lparr>b_dev := ROOTDEV, b_blockno := n, b_valid := True, b_refcnt := 1,
      b_lock := taken s, b_data := disk s (src_block s n)\<rparr>) s)"
proof -
  obtain xs where xs: "lru s xs" using binvD(1) [OF assms(1)] ..
  have miss: "find (\<lambda>b. b_dev (bufs s b) = ROOTDEV \<and> b_blockno (bufs s b) = n) xs = None"
    using find_in_lru(1) [OF xs] assms(2) by (simp add: cached_def)
  have "\<exists>b < NBUF. b_refcnt (bufs s b) = 0"
    using assms(3) by (auto simp: nfree_def card_gt_0_iff)
  then have "find (\<lambda>b. b_refcnt (bufs s b) = 0) (rev xs) \<noteq> None"
    using find_in_lru(3) [OF xs] by auto
  then obtain v where v: "find (\<lambda>b. b_refcnt (bufs s b) = 0) (rev xs) = Some v" by auto
  have v0: "v < NBUF" "b_refcnt (bufs s v) = 0" using find_in_lru(4) [OF xs v] by simp_all
  then have "\<not> locked (b_lock (bufs s v))" using binvD(3) [OF assms(1), of v] by (simp add: buf_ok_def)
  then have "bread ROOTDEV n s =
    Inr (v, upd_buf v (\<lambda>x. x\<lparr>b_dev := ROOTDEV, b_blockno := n, b_valid := True, b_refcnt := 1,
      b_lock := taken s, b_data := disk s (src_block s n)\<rparr>) s)"
    using miss v
    by (simp add: bread_def bget_def bget_cached_lru [OF xs] bget_victim_lru [OF xs] lock_buf_def
        acquiresleep_def taken_def src_block_def set_blockno_def disk_rw_def set_bdata_def Let_def
        should_use_mirror_def pbn_error_def)
      (simp add: upd_buf_def buf_fill)
  with v0 show ?thesis by blast
qed

definition frame :: "'a bstate_scheme \<Rightarrow> 'a bstate_scheme \<Rightarrow> bool" where
  "frame s s' \<longleftrightarrow> (\<exists>B. s' = s\<lparr>bufs := B\<rparr>)"

definition bread_post :: "'a bstate_scheme \<Rightarrow> nat \<Rightarrow> nat \<Rightarrow> 'a bstate_scheme \<Rightarrow> bool" where
  "bread_post s n b s' \<longleftrightarrow> frame s s' \<and> binv s' \<and> owns s' b n \<and> view s' = view s \<and>
     rc s' = (rc s)(n := Suc (rc s n)) \<and> lock_of s' = (lock_of s)(n := Some (curpid s)) \<and>
     nfree s' = nfree s - (if rc s n = 0 then 1 else 0) \<and>
     (\<forall>c m. 0 < rc s m \<longrightarrow> cached s c m \<longrightarrow> cached s' c m)"

lemma frame_upd_buf: "frame s (upd_buf b f s)"
  unfolding frame_def upd_buf_def by blast

lemma src_block_upd_buf [simp]: "src_block (upd_buf b f s) = src_block s"
  by (simp add: src_block_def should_use_mirror_def pbn_error_def fun_eq_iff)

lemma nfree_less:
  assumes "b < NBUF" and "b_refcnt (bufs s b) = 0" and "b_refcnt (bufs s' b) > 0"
    and "\<And>i. i \<noteq> b \<Longrightarrow> b_refcnt (bufs s' i) = b_refcnt (bufs s i)"
  shows "nfree s = Suc (nfree s')"
proof -
  have "{i. i < NBUF \<and> b_refcnt (bufs s i) = 0} = insert b {i. i < NBUF \<and> b_refcnt (bufs s' i) = 0}"
  proof (rule set_eqI)
    fix i
    show "i \<in> {i. i < NBUF \<and> b_refcnt (bufs s i) = 0} \<longleftrightarrow> i \<in> insert b {i. i < NBUF \<and> b_refcnt (bufs s' i) = 0}"
      using assms by (cases "i = b") simp_all
  qed
  then show ?thesis using assms(3) by (simp add: nfree_def)
qed

lemma nfree_same:
  assumes "\<And>i. i < NBUF \<Longrightarrow> b_refcnt (bufs s' i) = 0 \<longleftrightarrow> b_refcnt (bufs s i) = 0"
  shows "nfree s' = nfree s"
  using assms by (metis (mono_tags, lifting) nfree_def Collect_cong)

lemma bread_returns_hit:
  assumes "binv s" and "cached s b n" and "lock_of s n = None" and "rc s n < 4294967295"
  shows "returns (bread ROOTDEV n s) (\<lambda>(b, s'). bread_post s n b s')"
proof -
  let ?s = "upd_buf b (\<lambda>x. x\<lparr>b_refcnt := u32 (b_refcnt x + 1), b_lock := taken s\<rparr>) s"
  have b: "b < NBUF" "b_dev (bufs s b) = ROOTDEV" "b_blockno (bufs s b) = n" using assms(2) by (simp_all add: cached_def)
  have r: "rc s n = b_refcnt (bufs s b)" "view s n = bdata s b" "n < LOGICAL_DISK_SIZE"
    using abs_cached [OF binvD(2) [OF assms(1)] assms(2)] cached_less [OF assms(1,2)] by simp_all
  have c: "cached ?s i m = cached s i m" for i m by (auto simp: cached_def)
  note A = abs_same_names [where s = s and s' = ?s, OF binvD(2) [OF assms(1)] c assms(2)]
  have V: "view ?s = view s" by (subst A(1)) (simp_all add: r(2,3) fun_upd_idem)
  have R: "rc ?s = (rc s)(n := Suc (rc s n))" using assms(4) by (subst A(2)) (simp_all add: r u32_id)
  have L: "lock_of ?s = (lock_of s)(n := Some (curpid s))" by (subst A(3)) (simp_all add: taken_def r(3))
  have u: "uniq ?s" using binvD(2) [OF assms(1)] unfolding uniq_def c .
  have ok: "buf_ok ?s i" if "i < NBUF" for i
    using binvD(3) [OF assms(1) that] b assms(4) r by (auto simp: buf_ok_def u32_id)
  obtain xs where "lru s xs" using binvD(1) [OF assms(1)] ..
  then have "lru ?s xs" by (rule lru_same_links) auto
  with u ok have inv: "binv ?s" unfolding binv_def by blast
  have n: "nfree ?s = nfree s - (if rc s n = 0 then 1 else 0)"
  proof (cases "rc s n = 0")
    case True
    have "nfree s = Suc (nfree ?s)" using True r b by (intro nfree_less [of b]) (simp_all add: u32_id)
    with True show ?thesis by simp
  next
    case False
    have "nfree ?s = nfree s" by (rule nfree_same) (use False assms(4) r in \<open>simp add: u32_id\<close>)
    with False show ?thesis by simp
  qed
  have o: "owns ?s b n" using assms(2,4) c r by (simp add: owns_def holdingsleep_def taken_def u32_id)
  show ?thesis
    using bread_hit [OF assms(1-3)] V R L inv n o c
    by (simp add: bread_post_def frame_upd_buf)
qed

lemma bread_returns_miss:
  assumes "binv s" and "\<And>b. \<not> cached s b n" and "0 < nfree s" and "n < LOGICAL_DISK_SIZE"
  shows "returns (bread ROOTDEV n s) (\<lambda>(b, s'). bread_post s n b s')"
proof -
  obtain v where v: "v < NBUF" "b_refcnt (bufs s v) = 0" and eq: "bread ROOTDEV n s =
    Inr (v, upd_buf v (\<lambda>x. x\<lparr>b_dev := ROOTDEV, b_blockno := n, b_valid := True, b_refcnt := 1,
      b_lock := taken s, b_data := disk s (src_block s n)\<rparr>) s)" (is "_ = Inr (v, ?s)")
    using bread_miss [OF assms(1-3)] by blast
  have c: "cached ?s i m \<longleftrightarrow> (if i = v then m = n else cached s i m)" for i m
    using v by (auto simp: cached_def)
  have u: "uniq ?s" using binvD(2) [OF assms(1)] assms(2) unfolding uniq_def c by (auto split: if_splits)
  have vb: "buf_ok s v" using binvD(3) [OF assms(1) v(1)] .
  have all: "view ?s m = view s m \<and> rc ?s m = ((rc s)(n := Suc (rc s n))) m \<and>
      lock_of ?s m = ((lock_of s)(n := Some (curpid s))) m" for m
  proof (cases "m = n")
    case True
    then show ?thesis
      using abs_cached [OF u, of v n] abs_uncached [of s n, OF assms(2)] c assms(4) by (simp add: taken_def)
  next
    case False
    show ?thesis
    proof (cases "\<exists>i. cached s i m")
      case True
      then obtain i where i: "cached s i m" ..
      show ?thesis
      proof (cases "i = v")
        case True
        have "cached s j m \<Longrightarrow> j = v" for j
          using i True binvD(2) [OF assms(1)] unfolding uniq_def by blast
        then have "\<not> cached ?s j m" for j using c False by (simp split: if_splits) blast
        then have "view ?s m = (if m < LOGICAL_DISK_SIZE then disk s (src_block s m) else (\<lambda>_. 0))" "rc ?s m = 0" "lock_of ?s m = None"
          using abs_uncached [of ?s m] by simp_all
        moreover have "view s m = (if m < LOGICAL_DISK_SIZE then disk s (src_block s m) else (\<lambda>_. 0))" "rc s m = 0" "lock_of s m = None"
          using abs_cached [OF binvD(2) [OF assms(1)] i] True vb v i by (simp_all add: buf_ok_def cached_def)
        ultimately show ?thesis using False by simp
      next
        case iv: False
        then have "cached ?s i m" using i c by simp
        from abs_cached [OF u this] abs_cached [OF binvD(2) [OF assms(1)] i] iv False
        show ?thesis by simp
      qed
    next
      case none: False
      then have "\<not> cached ?s j m" for j using c False by (simp split: if_splits)
      from abs_uncached [OF this] abs_uncached [of s m] none False show ?thesis by simp
    qed
  qed
  have V: "view ?s = view s" by (rule ext) (use all in blast)
  have R: "rc ?s = (rc s)(n := Suc (rc s n))" by (rule ext) (use all in blast)
  have L: "lock_of ?s = (lock_of s)(n := Some (curpid s))" by (rule ext) (use all in blast)
  have ok: "buf_ok ?s i" if "i < NBUF" for i
    using binvD(3) [OF assms(1) that] assms(4) by (auto simp: buf_ok_def)
  obtain xs where "lru s xs" using binvD(1) [OF assms(1)] ..
  then have "lru ?s xs" by (rule lru_same_links) auto
  with u ok have inv: "binv ?s" unfolding binv_def by blast
  have "nfree s = Suc (nfree ?s)" using v by (intro nfree_less [of v]) simp_all
  moreover have "rc s n = 0" using abs_uncached [of s n, OF assms(2)] by simp
  ultimately have n: "nfree ?s = nfree s - (if rc s n = 0 then 1 else 0)" by simp
  have o: "owns ?s v n" using c by (simp add: owns_def holdingsleep_def taken_def)
  have k: "cached s i m \<Longrightarrow> 0 < rc s m \<Longrightarrow> cached ?s i m" for i m
    using c v abs_cached(2) [OF binvD(2) [OF assms(1)], of i m] by auto
  show ?thesis using eq V R L inv n o k by (simp add: bread_post_def frame_upd_buf)
qed

lemma bread_returns:
  assumes "binv s" and "lock_of s n = None" and "rc s n < 4294967295" and "0 < nfree s \<or> 0 < rc s n"
    and "n < LOGICAL_DISK_SIZE"
  shows "returns (bread ROOTDEV n s) (\<lambda>(b, s'). bread_post s n b s')"
proof (cases "\<exists>b. cached s b n")
  case True
  then show ?thesis using bread_returns_hit assms by blast
next
  case False
  then have "rc s n = 0" using abs_uncached(2) by blast
  with False show ?thesis using bread_returns_miss assms by auto
qed

section \<open>Changing, pinning and releasing a buffer\<close>

lemma frame_refl [simp]: "frame s s"
  unfolding frame_def by (rule exI [of _ "bufs s"]) simp

lemma frame_trans [trans]: "frame s t \<Longrightarrow> frame t u \<Longrightarrow> frame s u"
  unfolding frame_def by auto

lemma frame_fields:
  assumes "frame s s'"
  shows "disk s' = disk s" "dhist s' = dhist s" "force_read_error_pbn s' = force_read_error_pbn s"
    "force_disk_fail_id s' = force_disk_fail_id s" "curpid s' = curpid s" "klog s' = klog s"
    "mem s' = mem s" "freelist s' = freelist s" "kend s' = kend s" "src_block s' = src_block s"
  using assms
  by (auto simp: frame_def src_block_def should_use_mirror_def pbn_error_def fun_eq_iff)

lemma owns_keep:
  assumes "binv s" and "owns s b m" and "binv s'" and "cached s' b m" and "lock_of s' m = lock_of s m"
    and "curpid s' = curpid s"
  shows "owns s' b m"
  using assms owns_iff [of s b m] owns_iff [of s' b m] by simp

lemma set_bdata_owned:
  assumes "binv s" and "owns s b n"
  shows "frame s (set_bdata b d s)" and "binv (set_bdata b d s)" and "owns (set_bdata b d s) b n"
    and "view (set_bdata b d s) = (view s)(n := d)" and "rc (set_bdata b d s) = rc s"
    and "lock_of (set_bdata b d s) = lock_of s" and "nfree (set_bdata b d s) = nfree s"
    and "cached (set_bdata b d s) c m = cached s c m" and "bdata (set_bdata b d s) b = d"
proof -
  let ?s = "set_bdata b d s"
  have cb: "cached s b n" using assms(2) by (simp add: owns_def)
  show c: "cached ?s i m = cached s i m" for i m by (auto simp: cached_def set_bdata_def)
  have src: "src_block ?s = src_block s" by (simp add: set_bdata_def)
  note A = abs_same_names [where s = s and s' = ?s, OF binvD(2) [OF assms(1)] c cb]
  note o = owns_abs [OF assms]
  show "frame s ?s" by (simp add: set_bdata_def frame_upd_buf)
  show "bdata ?s b = d" by (simp add: set_bdata_def)
  show "view ?s = (view s)(n := d)" using o by (subst A(1)) (simp_all add: set_bdata_def)
  show "rc ?s = rc s" using o by (subst A(2)) (simp_all add: set_bdata_def fun_upd_idem)
  show "lock_of ?s = lock_of s"
    using abs_cached(3) [OF binvD(2) [OF assms(1)] cb] o(7)
    by (subst A(3)) (simp_all add: set_bdata_def fun_upd_idem split: if_splits)
  show "nfree ?s = nfree s" by (rule nfree_same) (simp add: set_bdata_def)
  have ok: "buf_ok ?s i" if "i < NBUF" for i
    using binvD(3) [OF assms(1) that] assms(2) src by (auto simp: buf_ok_def set_bdata_def owns_def)
  have u: "uniq ?s" using binvD(2) [OF assms(1)] unfolding uniq_def c .
  obtain xs where "lru s xs" using binvD(1) [OF assms(1)] ..
  then have "lru ?s xs" by (rule lru_same_links) (auto simp: set_bdata_def)
  with u ok show "binv ?s" unfolding binv_def by blast
  show "owns ?s b n" using assms(2) c by (simp add: owns_def set_bdata_def)
qed

lemma upd_refcnt_owned:
  assumes "binv s" and "owns s b n" and "0 < r" and "r < 4294967296"
  defines "s' \<equiv> upd_buf b (\<lambda>x. x\<lparr>b_refcnt := r\<rparr>) s"
  shows "frame s s'" and "binv s'" and "owns s' b n" and "view s' = view s" and "rc s' = (rc s)(n := r)"
    and "lock_of s' = lock_of s" and "nfree s' = nfree s" and "cached s' c m = cached s c m"
    and "bdata s' i = bdata s i"
proof -
  have cb: "cached s b n" using assms(2) by (simp add: owns_def)
  show c: "cached s' i m = cached s i m" for i m by (auto simp: cached_def s'_def)
  have src: "src_block s' = src_block s" by (simp add: s'_def)
  note A = abs_same_names [where s = s and s' = s', OF binvD(2) [OF assms(1)] c cb]
  note o = owns_abs [OF assms(1,2)]
  show "frame s s'" by (simp add: s'_def frame_upd_buf)
  show "bdata s' i = bdata s i" by (simp add: s'_def)
  show "view s' = view s" using o by (subst A(1)) (simp_all add: s'_def fun_upd_idem)
  show "rc s' = (rc s)(n := r)" using o by (subst A(2)) (simp_all add: s'_def)
  show "lock_of s' = lock_of s"
    using abs_cached(3) [OF binvD(2) [OF assms(1)] cb] o(7)
    by (subst A(3)) (simp_all add: s'_def fun_upd_idem split: if_splits)
  show "nfree s' = nfree s" by (rule nfree_same) (use assms(2,3) in \<open>auto simp: s'_def owns_def\<close>)
  have ok: "buf_ok s' i" if "i < NBUF" for i
    using binvD(3) [OF assms(1) that] assms(2-4) src by (auto simp: buf_ok_def s'_def owns_def)
  have u: "uniq s'" using binvD(2) [OF assms(1)] unfolding uniq_def c .
  obtain xs where "lru s xs" using binvD(1) [OF assms(1)] ..
  then have "lru s' xs" by (rule lru_same_links) (auto simp: s'_def)
  with u ok show "binv s'" unfolding binv_def by blast
  show "owns s' b n" using assms(2,3) c by (simp add: owns_def s'_def)
qed

lemma bpin_owned:
  assumes "binv s" and "owns s b n" and "rc s n < 4294967295"
  shows "frame s (bpin b s)" and "binv (bpin b s)" and "owns (bpin b s) b n" and "view (bpin b s) = view s"
    and "rc (bpin b s) = (rc s)(n := Suc (rc s n))" and "lock_of (bpin b s) = lock_of s"
    and "nfree (bpin b s) = nfree s" and "cached (bpin b s) c m = cached s c m"
    and "bdata (bpin b s) i = bdata s i"
proof -
  have "bpin b s = upd_buf b (\<lambda>x. x\<lparr>b_refcnt := Suc (rc s n)\<rparr>) s"
    using owns_abs(2) [OF assms(1,2)] assms(3) by (simp add: bpin_def upd_buf_def u32_id)
  moreover note upd_refcnt_owned [OF assms(1,2), of "Suc (rc s n)"]
  ultimately show "frame s (bpin b s)" and "binv (bpin b s)" and "owns (bpin b s) b n" and "view (bpin b s) = view s"
    and "rc (bpin b s) = (rc s)(n := Suc (rc s n))" and "lock_of (bpin b s) = lock_of s"
    and "nfree (bpin b s) = nfree s" and "cached (bpin b s) c m = cached s c m"
    and "bdata (bpin b s) i = bdata s i"
    using assms(3) by simp_all
qed

lemma bunpin_owned:
  assumes "binv s" and "owns s b n" and "1 < rc s n"
  shows "frame s (bunpin b s)" and "binv (bunpin b s)" and "owns (bunpin b s) b n"
    and "view (bunpin b s) = view s"
    and "rc (bunpin b s) = (rc s)(n := rc s n - 1)" and "lock_of (bunpin b s) = lock_of s"
    and "nfree (bunpin b s) = nfree s" and "cached (bunpin b s) c m = cached s c m"
    and "bdata (bunpin b s) i = bdata s i"
proof -
  have "bunpin b s = upd_buf b (\<lambda>x. x\<lparr>b_refcnt := rc s n - 1\<rparr>) s"
    using owns_abs(2) [OF assms(1,2)] assms(3) by (simp add: bunpin_def upd_buf_def u32_dec_pos)
  moreover have "rc s n - 1 < 4294967296"
    using owns_abs(2,5) [OF assms(1,2)] binvD(3) [OF assms(1), of b] by (auto simp: buf_ok_def)
  moreover note upd_refcnt_owned [OF assms(1,2), of "rc s n - 1"]
  ultimately show "frame s (bunpin b s)" and "binv (bunpin b s)" and "owns (bunpin b s) b n"
    and "view (bunpin b s) = view s"
    and "rc (bunpin b s) = (rc s)(n := rc s n - 1)" and "lock_of (bunpin b s) = lock_of s"
    and "nfree (bunpin b s) = nfree s" and "cached (bunpin b s) c m = cached s c m"
    and "bdata (bunpin b s) i = bdata s i"
    using assms(3) by simp_all
qed

lemma link_fields [simp]:
  "b_dev (bufs (set_bnext a v s) i) = b_dev (bufs s i)" "b_dev (bufs (set_bprev a v s) i) = b_dev (bufs s i)"
  "b_blockno (bufs (set_bnext a v s) i) = b_blockno (bufs s i)" "b_blockno (bufs (set_bprev a v s) i) = b_blockno (bufs s i)"
  "b_valid (bufs (set_bnext a v s) i) = b_valid (bufs s i)" "b_valid (bufs (set_bprev a v s) i) = b_valid (bufs s i)"
  "b_refcnt (bufs (set_bnext a v s) i) = b_refcnt (bufs s i)" "b_refcnt (bufs (set_bprev a v s) i) = b_refcnt (bufs s i)"
  "b_lock (bufs (set_bnext a v s) i) = b_lock (bufs s i)" "b_lock (bufs (set_bprev a v s) i) = b_lock (bufs s i)"
  "bdata (set_bnext a v s) i = bdata s i" "bdata (set_bprev a v s) i = bdata s i"
  "disk (set_bnext a v s) = disk s" "disk (set_bprev a v s) = disk s"
  "src_block (set_bnext a v s) = src_block s" "src_block (set_bprev a v s) = src_block s"
  by (simp_all add: set_bnext_def set_bprev_def)

text \<open>The six assignments at the end of \<^verbatim>\<open>brelse\<close> move the buffer to the front of the list.\<close>

definition to_front :: "nat \<Rightarrow> 'a bstate_scheme \<Rightarrow> 'a bstate_scheme" where
  "to_front b s =
     (let s = set_bprev (b_next (bufs s b)) (b_prev (bufs s b)) s;
          s = set_bnext (b_prev (bufs s b)) (b_next (bufs s b)) s;
          s = set_bnext b (b_next (bufs s NBUF)) s;
          s = set_bprev b NBUF s;
          s = set_bprev (b_next (bufs s NBUF)) b s in
      set_bnext NBUF b s)"

lemma to_front_lru:
  assumes "lru s xs" and "b < NBUF"
  shows "lru (to_front b s) (b # remove1 b xs)"
proof -
  have d: "dll (nextp s) (prevp s) NBUF xs" and S: "set xs = {..<NBUF}" using assms(1) by (simp_all add: lru_def)
  have dx: "distinct xs" using d by (simp add: dll_def)
  obtain as bs where xs: "xs = as @ b # bs" using assms(2) S split_list [of b xs] by auto
  have "b \<notin> set as" "b \<notin> set bs" using dx xs by auto
  then have rm: "remove1 b xs = as @ bs" using xs by (simp add: remove1_append)
  have nb: "NBUF \<noteq> b" using assms(2) by simp
  let ?n = "nextp s" and ?p = "prevp s"
  have u: "dll (?n(?p b := ?n b)) (?p(?n b := ?p b)) NBUF (as @ bs)"
    using d xs by (intro dll_unlink) simp
  have pb: "?n b \<noteq> b" "?p b \<noteq> b"
    using d xs hd_snoc_in [of bs NBUF] last_Cons_in [of NBUF as] nb \<open>b \<notin> set as\<close> \<open>b \<notin> set bs\<close>
    by (auto simp: dll_next_in dll_prev_in simp del: last.simps)
  have "b \<notin> set (NBUF # as @ bs)" using nb \<open>b \<notin> set as\<close> \<open>b \<notin> set bs\<close> by simp
  note f = dll_push_front [OF u this]
  have "nextp (to_front b s) = (?n(?p b := ?n b))(b := (?n(?p b := ?n b)) NBUF, NBUF := b)"
    using pb nb by (auto simp: to_front_def Let_def b_next_nextp fun_eq_iff)
  moreover have "prevp (to_front b s) = (?p(?n b := ?p b))(b := NBUF, (?n(?p b := ?n b)) NBUF := b)"
    using pb nb by (auto simp: to_front_def Let_def b_next_nextp fun_eq_iff)
  ultimately have "dll (nextp (to_front b s)) (prevp (to_front b s)) NBUF (b # as @ bs)"
    using f by simp
  moreover have "set (b # as @ bs) = {..<NBUF}" using S xs by auto
  ultimately show ?thesis by (simp add: lru_def rm)
qed

lemma to_front_fields [simp]:
  "b_dev (bufs (to_front b s) i) = b_dev (bufs s i)" "b_blockno (bufs (to_front b s) i) = b_blockno (bufs s i)"
  "b_valid (bufs (to_front b s) i) = b_valid (bufs s i)" "b_refcnt (bufs (to_front b s) i) = b_refcnt (bufs s i)"
  "b_lock (bufs (to_front b s) i) = b_lock (bufs s i)" "bdata (to_front b s) i = bdata s i"
  "disk (to_front b s) = disk s" "src_block (to_front b s) = src_block s"
  by (simp_all add: to_front_def Let_def)

lemma frame_to_front: "frame s (to_front b s)"
  unfolding to_front_def Let_def set_bnext_def set_bprev_def
  by (meson frame_trans frame_upd_buf)

lemma brelse_eq:
  assumes "owns s b n"
  defines "s1 \<equiv> upd_buf b (\<lambda>x. x\<lparr>b_lock := releasesleep (b_lock x), b_refcnt := u32_dec (b_refcnt x)\<rparr>) s"
  shows "brelse b s = Inr (if b_refcnt (bufs s1 b) = 0 then to_front b s1 else s1)"
proof -
  have "upd_buf b (\<lambda>x. x\<lparr>b_refcnt := u32_dec (b_refcnt x)\<rparr>)
      (upd_buf b (\<lambda>x. x\<lparr>b_lock := releasesleep (b_lock x)\<rparr>) s) = s1"
    by (simp add: s1_def upd_buf_def)
  then show ?thesis using assms(1) by (simp add: brelse_def owns_def to_front_def Let_def del: bufs_upd_buf)
qed

definition brelse_post :: "'a bstate_scheme \<Rightarrow> nat \<Rightarrow> 'a bstate_scheme \<Rightarrow> bool" where
  "brelse_post s n s' \<longleftrightarrow> frame s s' \<and> binv s' \<and> view s' = view s \<and>
     rc s' = (rc s)(n := rc s n - 1) \<and> lock_of s' = (lock_of s)(n := None) \<and>
     nfree s' = nfree s + (if rc s n = 1 then 1 else 0) \<and> (\<forall>c m. cached s' c m = cached s c m)"

lemma brelse_returns:
  assumes "binv s" and "owns s b n" and "rc s n = 1 \<Longrightarrow> view s n = disk s (src_block s n)"
  shows "returns (brelse b s) (brelse_post s n)"
proof -
  define s1 where "s1 = upd_buf b (\<lambda>x. x\<lparr>b_lock := releasesleep (b_lock x), b_refcnt := u32_dec (b_refcnt x)\<rparr>) s"
  define s' where "s' = (if b_refcnt (bufs s1 b) = 0 then to_front b s1 else s1)"
  have cb: "cached s b n" using assms(2) by (simp add: owns_def)
  note o = owns_abs [OF assms(1,2)]
  have rb: "b_refcnt (bufs s1 b) = rc s n - 1" using o by (simp add: s1_def u32_dec_pos)
  have f [simp]: "b_dev (bufs s' i) = b_dev (bufs s i)" "b_blockno (bufs s' i) = b_blockno (bufs s i)"
    "b_valid (bufs s' i) = b_valid (bufs s i)" "bdata s' i = bdata s i"
    "b_refcnt (bufs s' i) = (if i = b then rc s n - 1 else b_refcnt (bufs s i))"
    "b_lock (bufs s' i) = (if i = b then releasesleep (b_lock (bufs s b)) else b_lock (bufs s i))"
    "disk s' = disk s" "src_block s' = src_block s" for i
    using rb by (auto simp: s'_def s1_def)
  have c: "cached s' i m = cached s i m" for i m by (simp add: cached_def)
  note A = abs_same_names [where s = s and s' = s', OF binvD(2) [OF assms(1)] c cb]
  have V: "view s' = view s" using o by (subst A(1)) (simp_all add: fun_upd_idem)
  have R: "rc s' = (rc s)(n := rc s n - 1)" using o by (subst A(2)) simp_all
  have L: "lock_of s' = (lock_of s)(n := None)" using o by (subst A(3)) (simp_all add: releasesleep_def)
  have ok: "buf_ok s' i" if "i < NBUF" for i
  proof (cases "i = b")
    case True
    then show ?thesis
      using binvD(3) [OF assms(1) that] o cb assms(3) by (auto simp: buf_ok_def releasesleep_def cached_def)
  next
    case False
    then show ?thesis using binvD(3) [OF assms(1) that] by (simp add: buf_ok_def)
  qed
  have u: "uniq s'" using binvD(2) [OF assms(1)] unfolding uniq_def c .
  obtain xs where "lru s xs" using binvD(1) [OF assms(1)] ..
  then have "lru s1 xs" by (rule lru_same_links) (auto simp: s1_def)
  then have "\<exists>ys. lru s' ys" using to_front_lru [of s1 xs b] o(5) by (auto simp: s'_def)
  with u ok have inv: "binv s'" unfolding binv_def by blast
  have n: "nfree s' = nfree s + (if rc s n = 1 then 1 else 0)"
  proof (cases "rc s n = 1")
    case True
    have "nfree s' = Suc (nfree s)" using True o by (intro nfree_less [of b]) simp_all
    with True show ?thesis by simp
  next
    case False
    have "nfree s' = nfree s" by (rule nfree_same) (use False o in auto)
    with False show ?thesis by simp
  qed
  have "frame s s1" by (simp add: s1_def frame_upd_buf)
  then have "frame s s'" using frame_to_front [of s1 b] frame_trans by (auto simp: s'_def)
  with V R L inv n c have "brelse_post s n s'" by (simp add: brelse_post_def)
  then show ?thesis unfolding brelse_eq [OF assms(2)] s1_def [symmetric] s'_def [symmetric] by simp
qed

section \<open>Mirrored writes\<close>

text \<open>Applying a sequence of block writes to a disk.\<close>

definition apply_writes :: "(nat \<times> 'd) list \<Rightarrow> (nat \<Rightarrow> 'd) \<Rightarrow> nat \<Rightarrow> 'd" where
  "apply_writes ws D = fold (\<lambda>(n, d) D. D(n := d)) ws D"

lemma apply_writes_simps [simp]:
  "apply_writes [] D = D"
  "apply_writes ((n, d) # ws) D = apply_writes ws (D(n := d))"
  "apply_writes (us @ ws) D = apply_writes ws (apply_writes us D)"
  by (simp_all add: apply_writes_def)

lemma apply_writes_other: "p \<notin> fst ` set ws \<Longrightarrow> apply_writes ws D p = D p"
  by (induction ws arbitrary: D) auto

lemma apply_writes_const:
  "p \<in> fst ` set ws \<Longrightarrow> (\<And>q x. (q, x) \<in> set ws \<Longrightarrow> q = p \<Longrightarrow> x = d) \<Longrightarrow> apply_writes ws D p = d"
proof (induction ws arbitrary: D)
  case Nil
  then show ?case by simp
next
  case (Cons w ws)
  obtain q x where w: "w = (q, x)" by (cases w)
  show ?case
  proof (cases "p \<in> fst ` set ws")
    case True
    then show ?thesis using Cons.IH Cons.prems(2) w by simp
  next
    case False
    then have "q = p" using Cons.prems(1) w by auto
    moreover have "x = d" using Cons.prems(2) [of q x] w \<open>q = p\<close> by simp
    ultimately show ?thesis using w False by (simp add: apply_writes_other)
  qed
qed

lemma apply_writes_at_cong:
  assumes "D m = D' m"
  shows "apply_writes ws D m = apply_writes ws D' m"
  using assms
proof (induction ws arbitrary: D D')
  case (Cons w ws)
  obtain n d where w: "w = (n, d)" by (cases w)
  have "(D(n := d)) m = (D'(n := d)) m" using Cons.prems by simp
  then have "apply_writes ws (D(n := d)) m = apply_writes ws (D'(n := d)) m"
    by (rule Cons.IH [of "D(n := d)" "D'(n := d)"])
  with w show ?case by simp
qed simp

text \<open>
  A store that keeps redundant copies: a write of logical block \<open>n\<close> under fault state \<open>f\<close> becomes
  the physical writes \<open>writes f n d\<close>, a read is served from \<open>source f n\<close>. While the store is
  \<open>usable\<close> for the block, its source is among the copies; a write on a \<open>healthy\<close> store reaches every
  copy a later read may be served from.
\<close>

locale redundant_store =
  fixes writes :: "'f \<Rightarrow> nat \<Rightarrow> 'd \<Rightarrow> (nat \<times> 'd) list"
    and source :: "'f \<Rightarrow> nat \<Rightarrow> nat"
    and usable :: "'f \<Rightarrow> nat \<Rightarrow> bool"
    and healthy :: "'f \<Rightarrow> nat \<Rightarrow> bool"
    and blocks :: "nat set"
  assumes copies: "(q, x) \<in> set (writes f n d) \<Longrightarrow> x = d"
    and served: "n \<in> blocks \<Longrightarrow> usable f n \<Longrightarrow> source f n \<in> fst ` set (writes f n d)"
    and reaches_all: "n \<in> blocks \<Longrightarrow> healthy f n \<Longrightarrow> source g n \<in> fst ` set (writes f n d)"
    and separate: "n \<in> blocks \<Longrightarrow> m \<in> blocks \<Longrightarrow> m \<noteq> n \<Longrightarrow> source g m \<notin> fst ` set (writes f n d)"
begin

lemma read_after_write:
  "n \<in> blocks \<Longrightarrow> usable f n \<Longrightarrow> apply_writes (writes f n d) D (source f n) = d"
  using served copies by (intro apply_writes_const)

lemma read_after_healthy_write:
  "n \<in> blocks \<Longrightarrow> healthy f n \<Longrightarrow> apply_writes (writes f n d) D (source g n) = d"
  using reaches_all copies by (intro apply_writes_const)

lemma read_prefix:
  assumes "n \<in> blocks" and "m \<in> blocks"
  shows "apply_writes (take k (writes f n d)) D (source g m) = D (source g m) \<or>
    m = n \<and> apply_writes (take k (writes f n d)) D (source g m) = d"
proof (cases "source g m \<in> fst ` set (take k (writes f n d))")
  case True
  have sub: "set (take k (writes f n d)) \<subseteq> set (writes f n d)" by (rule set_take_subset)
  then have "m = n" using True separate [OF assms, of g f d] by auto
  moreover have "apply_writes (take k (writes f n d)) D (source g m) = d"
    using True sub copies by (intro apply_writes_const) auto
  ultimately show ?thesis by simp
next
  case False
  then show ?thesis by (simp add: apply_writes_other)
qed

lemma read_other:
  "n \<in> blocks \<Longrightarrow> m \<in> blocks \<Longrightarrow> m \<noteq> n \<Longrightarrow> apply_writes (writes f n d) D (source g m) = D (source g m)"
  using separate by (intro apply_writes_other)

text \<open>
  A sequence of logical writes, and the physical writes it becomes. Stopping between two physical writes looks
  to a reader like stopping between two logical ones.
\<close>

definition phys :: "'f \<Rightarrow> (nat \<times> 'd) list \<Rightarrow> (nat \<times> 'd) list" where
  "phys f lw = concat (map (\<lambda>(n, d). writes f n d) lw)"

lemma phys_simps [simp]:
  "phys f [] = []" "phys f ((n, d) # lw) = writes f n d @ phys f lw" "phys f (us @ ws) = phys f us @ phys f ws"
  by (simp_all add: phys_def)

lemma phys_full:
  assumes "fst ` set lw \<subseteq> blocks" and "m \<in> blocks"
    and "\<And>n d. n \<in> blocks \<Longrightarrow> source g n \<in> fst ` set (writes f n d)"
  shows "apply_writes (phys f lw) D (source g m) = apply_writes lw (\<lambda>m. D (source g m)) m"
  using assms(1)
proof (induction lw arbitrary: D)
  case Nil
  then show ?case by simp
next
  case (Cons w lw)
  obtain n d where w: "w = (n, d)" by (cases w)
  have n: "n \<in> blocks" using Cons.prems w by auto
  have "apply_writes (writes f n d) D (source g n) = d"
    using assms(3) [OF n] copies by (intro apply_writes_const)
  then have "apply_writes (writes f n d) D (source g m) = (if m = n then d else D (source g m))"
    using read_other [OF n assms(2)] by simp
  then show ?case
    using Cons.IH [of "apply_writes (writes f n d) D"] Cons.prems w by (auto intro: apply_writes_at_cong)
qed

lemma phys_prefix:
  assumes "fst ` set lw \<subseteq> blocks"
    and "\<And>n d. n \<in> blocks \<Longrightarrow> source g n \<in> fst ` set (writes f n d)"
  shows "\<exists>j. \<forall>m \<in> blocks. apply_writes (take k (phys f lw)) D (source g m) =
    apply_writes (take j lw) (\<lambda>m. D (source g m)) m"
  using assms(1)
proof (induction lw arbitrary: D k)
  case Nil
  then show ?case by simp
next
  case (Cons w lw)
  obtain n d where w: "w = (n, d)" by (cases w)
  have n: "n \<in> blocks" using Cons.prems w by auto
  show ?case
  proof (cases "k \<le> length (writes f n d)")
    case True
    then have tk: "take k (phys f (w # lw)) = take k (writes f n d)" using w by simp
    show ?thesis
    proof (cases "apply_writes (take k (writes f n d)) D (source g n) = D (source g n)")
      case True
      then have "\<forall>m \<in> blocks. apply_writes (take k (phys f (w # lw))) D (source g m) =
          apply_writes (take 0 (w # lw)) (\<lambda>m. D (source g m)) m"
        using read_prefix [OF n] tk by (metis apply_writes_simps(1) take0)
      then show ?thesis ..
    next
      case False
      then have d: "apply_writes (take k (writes f n d)) D (source g n) = d" using read_prefix [OF n n] by blast
      have "apply_writes (take k (writes f n d)) D (source g m) = D (source g m)" if "m \<in> blocks" "m \<noteq> n" for m
        using read_prefix [OF n that(1)] that(2) by blast
      then have "\<forall>m \<in> blocks. apply_writes (take k (phys f (w # lw))) D (source g m) =
          apply_writes (take 1 (w # lw)) (\<lambda>m. D (source g m)) m"
        using d unfolding tk by (simp add: w)
      then show ?thesis ..
    qed
  next
    case False
    let ?D = "apply_writes (writes f n d) D"
    from Cons.IH [of "k - length (writes f n d)" ?D] Cons.prems obtain j where
      j: "\<forall>m \<in> blocks. apply_writes (take (k - length (writes f n d)) (phys f lw)) ?D (source g m) =
        apply_writes (take j lw) (\<lambda>m. ?D (source g m)) m" by auto
    have "?D (source g m) = (if m = n then d else D (source g m))" if "m \<in> blocks" for m
      using phys_full [of "[(n, d)]" m g f D] that n assms(2) by simp
    then have "\<forall>m \<in> blocks. apply_writes (take k (phys f (w # lw))) D (source g m) =
        apply_writes (take (Suc j) (w # lw)) (\<lambda>m. D (source g m)) m"
      using j False w by (auto intro: apply_writes_at_cong)
    then show ?thesis ..
  qed
qed

end

definition raid_writes :: "'a bstate_scheme \<Rightarrow> nat \<Rightarrow> bytes \<Rightarrow> (nat \<times> bytes) list" where
  "raid_writes s n d =
     (if n \<ge> LOGICAL_DISK_SIZE then [(n, d)]
      else (if force_disk_fail_id s = 0 \<or> pbn_error n s then [] else [(n, d)]) @
           (if force_disk_fail_id s = 1 then [] else [(n + DISK1_START_BLOCK, d)]))"

definition raid_usable :: "'a bstate_scheme \<Rightarrow> nat \<Rightarrow> bool" where
  "raid_usable s n \<longleftrightarrow> \<not> (force_disk_fail_id s = 1 \<and> pbn_error n s)"

definition raid_healthy :: "'a bstate_scheme \<Rightarrow> nat \<Rightarrow> bool" where
  "raid_healthy s n \<longleftrightarrow> force_disk_fail_id s \<noteq> 0 \<and> force_disk_fail_id s \<noteq> 1 \<and> \<not> pbn_error n s"

interpretation raid: redundant_store raid_writes src_block raid_usable raid_healthy "{..<LOGICAL_DISK_SIZE}"
  by unfold_locales
    (auto simp: raid_writes_def raid_usable_def raid_healthy_def src_block_def should_use_mirror_def
      LOGICAL_DISK_SIZE_def DISK1_START_BLOCK_def FSSIZE_def split: if_splits)

text \<open>The three messages of a write to the logical disk.\<close>

definition raid_log :: "'a bstate_scheme \<Rightarrow> nat \<Rightarrow> diag list" where
  "raid_log s n =
     [BW_DIAG n (n + DISK1_START_BLOCK) (force_disk_fail_id s) (if pbn_error n s then 1 else 0),
      if force_disk_fail_id s = 0 then SKIP_PBN0_disk n
      else if pbn_error n s then SKIP_PBN0_block n else ATTEMPT_PBN0 n,
      if force_disk_fail_id s = 1 then SKIP_PBN1_disk (n + DISK1_START_BLOCK)
      else ATTEMPT_PBN1 (n + DISK1_START_BLOCK)]"

lemma bwrite_eq:
  assumes "binv s" and "owns s b n"
  shows "bwrite b s = Inr (s\<lparr>disk := apply_writes (raid_writes s n (view s n)) (disk s),
    dhist := dhist s @ raid_writes s n (view s n), klog := klog s @ raid_log s n\<rparr>)"
proof -
  note o = owns_abs [OF assms]
  have [simp]: "b_blockno (bufs s b) = n" "view s n = bdata s b" using o by simp_all
  have h: "holdingsleep (curpid s) (b_lock (bufs s b))" using assms(2) by (simp add: owns_def)
  have [simp]: "(bufs s b)\<lparr>b_blockno := n\<rparr> = bufs s b"
    using o(6) by (cases "bufs s b") simp
  show ?thesis
    using h o(7)
    by (simp add: bwrite_def Let_def raid_writes_def raid_log_def kprintf_def disk_rw_def set_blockno_def
        upd_buf_def pbn_error_def)
qed

definition bwrite_post :: "'a bstate_scheme \<Rightarrow> nat \<Rightarrow> 'a bstate_scheme \<Rightarrow> bool" where
  "bwrite_post s n s' \<longleftrightarrow>
     s' = s\<lparr>disk := apply_writes (raid_writes s n (view s n)) (disk s),
            dhist := dhist s @ raid_writes s n (view s n), klog := klog s @ raid_log s n\<rparr> \<and>
     binv s' \<and> view s' = view s \<and> rc s' = rc s \<and> lock_of s' = lock_of s \<and> nfree s' = nfree s \<and>
     (\<forall>c m. cached s' c m = cached s c m) \<and> (\<forall>c m. owns s' c m = owns s c m) \<and>
     src_block s' = src_block s \<and> (raid_usable s n \<longrightarrow> disk s' (src_block s n) = view s n)"

lemma bwrite_returns:
  assumes "binv s" and "owns s b n"
  shows "returns (bwrite b s) (bwrite_post s n)"
proof -
  let ?s = "s\<lparr>disk := apply_writes (raid_writes s n (view s n)) (disk s),
    dhist := dhist s @ raid_writes s n (view s n), klog := klog s @ raid_log s n\<rparr>"
  note o = owns_abs [OF assms]
  have cb: "cached s b n" using assms(2) by (simp add: owns_def)
  have c: "cached ?s i m = cached s i m" for i m by (simp add: cached_def)
  have src: "src_block ?s = src_block s"
    by (simp add: src_block_def should_use_mirror_def pbn_error_def fun_eq_iff)
  have other: "disk ?s (src_block s m) = disk s (src_block s m)" if "m < LOGICAL_DISK_SIZE" "m \<noteq> n" for m
    using raid.read_other [of n m s "view s n" "disk s" s] that o(7) by simp
  note A = abs_same_names [where s = s and s' = ?s, OF binvD(2) [OF assms(1)] c cb]
  have d: "\<And>m. (\<And>i. \<not> cached s i m) \<Longrightarrow> m < LOGICAL_DISK_SIZE \<Longrightarrow> disk ?s (src_block ?s m) = disk s (src_block s m)"
    using other cb src by metis
  have V: "view ?s = view s" using o d by (subst A(1)) (simp_all add: fun_upd_idem)
  have R: "rc ?s = rc s" using o d by (subst A(2)) (simp_all add: fun_upd_idem)
  have bo: "buf_of ?s m = buf_of s m" for m by (simp add: buf_of_def c)
  have L: "lock_of ?s = lock_of s" by (rule ext) (simp add: lock_of_def bo split: option.split)
  have N: "nfree ?s = nfree s" by (simp add: nfree_def)
  have ok: "buf_ok ?s i" if "i < NBUF" for i
  proof (cases "i = b")
    case True
    then show ?thesis using binvD(3) [OF assms(1) that] o(2,4) by (simp add: buf_ok_def)
  next
    case False
    have "b_dev (bufs s i) = ROOTDEV \<Longrightarrow> b_blockno (bufs s i) \<noteq> n"
      using False that cb binvD(2) [OF assms(1)] unfolding uniq_def cached_def by blast
    then show ?thesis
      using binvD(3) [OF assms(1) that] other [of "b_blockno (bufs s i)"] src by (simp add: buf_ok_def)
  qed
  have "uniq ?s" using binvD(2) [OF assms(1)] unfolding uniq_def c .
  moreover obtain xs where "lru s xs" using binvD(1) [OF assms(1)] ..
  then have "lru ?s xs" by (simp add: lru_def nextp_def prevp_def)
  ultimately have inv: "binv ?s" using ok unfolding binv_def by blast
  have ow: "owns ?s i m = owns s i m" for i m by (simp add: owns_def c)
  have "raid_usable s n \<Longrightarrow> disk ?s (src_block s n) = view s n"
    using raid.read_after_write [of n s "view s n" "disk s"] o(7) by simp
  then have "bwrite_post s n ?s" unfolding bwrite_post_def using V R L N c inv src ow by blast
  then show ?thesis using bwrite_eq [OF assms] by simp
qed

lemma bwrite_postD:
  assumes "bwrite_post s n s'"
  shows "disk s' = apply_writes (raid_writes s n (view s n)) (disk s)"
    and "dhist s' = dhist s @ raid_writes s n (view s n)"
    and "binv s'" and "view s' = view s" and "rc s' = rc s" and "lock_of s' = lock_of s" and "nfree s' = nfree s"
    and "cached s' c m = cached s c m" and "owns s' c m = owns s c m" and "src_block s' = src_block s"
    and "raid_usable s n \<Longrightarrow> disk s' (src_block s n) = view s n"
    and "curpid s' = curpid s" and "bufs s' = bufs s"
proof -
  note A = assms [unfolded bwrite_post_def]
  show "disk s' = apply_writes (raid_writes s n (view s n)) (disk s)"
    "dhist s' = dhist s @ raid_writes s n (view s n)" "curpid s' = curpid s" "bufs s' = bufs s"
    using A by (auto simp del: fun_upd_apply)
  show "binv s'" "view s' = view s" "rc s' = rc s" "lock_of s' = lock_of s" "nfree s' = nfree s"
    "cached s' c m = cached s c m" "owns s' c m = owns s c m" "src_block s' = src_block s"
    "raid_usable s n \<Longrightarrow> disk s' (src_block s n) = view s n"
    using A by blast+
qed

text \<open>What clients see depends on the fields of the cache only, not on what a component adds to the state.\<close>

lemma trunc_fields:
  assumes "bstate.truncate s = bstate.truncate t"
  shows "bufs s = bufs t" "disk s = disk t" "dhist s = dhist t" "curpid s = curpid t"
    "force_disk_fail_id s = force_disk_fail_id t" "force_read_error_pbn s = force_read_error_pbn t"
  using assms by (simp_all add: bstate.truncate_def)

lemma trunc_cong:
  assumes "bstate.truncate s = bstate.truncate t"
  shows "cached s = cached t" "buf_of s = buf_of t" "src_block s = src_block t" "view s = view t" "rc s = rc t"
    "lock_of s = lock_of t" "nfree s = nfree t" "binv s = binv t" "owns s = owns t"
    "raid_usable s = raid_usable t" "raid_writes s = raid_writes t" "raid_healthy s = raid_healthy t"
proof -
  note f = trunc_fields [OF assms]
  show c: "cached s = cached t" by (simp add: cached_def f fun_eq_iff)
  show b: "buf_of s = buf_of t" by (simp add: buf_of_def c fun_eq_iff)
  show src: "src_block s = src_block t"
    unfolding src_block_def should_use_mirror_def pbn_error_def f by simp
  show "view s = view t" unfolding view_def b src f by simp
  show "rc s = rc t" "lock_of s = lock_of t" unfolding rc_def lock_of_def b f by simp_all
  show "nfree s = nfree t" "owns s = owns t" unfolding nfree_def owns_def c f by simp_all
  show "raid_usable s = raid_usable t" "raid_writes s = raid_writes t" "raid_healthy s = raid_healthy t"
    unfolding raid_usable_def raid_writes_def raid_healthy_def pbn_error_def f by simp_all
  show "binv s = binv t"
    unfolding binv_def uniq_def buf_ok_def lru_def nextp_def prevp_def c src f by simp
qed

section \<open>Initialisation\<close>

lemma binit_fields:
  fixes s :: "'a bstate_scheme"
  shows "b_dev (bufs (binit s) i) = b_dev (bufs s i)" "b_refcnt (bufs (binit s) i) = b_refcnt (bufs s i)"
  "disk (binit s) = disk s"
  "i < NBUF \<Longrightarrow> b_lock (bufs (binit s) i) = initsleeplock"
proof -
  have "b_dev (bufs (fold binit_buf ys s) i) = b_dev (bufs s i) \<and>
      b_refcnt (bufs (fold binit_buf ys s) i) = b_refcnt (bufs s i) \<and> disk (fold binit_buf ys s) = disk s \<and>
      b_lock (bufs (fold binit_buf ys s) i) = (if i \<in> set ys then initsleeplock else b_lock (bufs s i))" for ys and s :: "'a bstate_scheme"
    by (induction ys arbitrary: s) (simp_all add: binit_buf_def Let_def)
  then show "b_dev (bufs (binit s) i) = b_dev (bufs s i)" "b_refcnt (bufs (binit s) i) = b_refcnt (bufs s i)"
    "disk (binit s) = disk s" "i < NBUF \<Longrightarrow> b_lock (bufs (binit s) i) = initsleeplock"
    by (simp_all add: binit_def Let_def)
qed

lemma binit_binv:
  assumes "\<And>i. i < NBUF \<Longrightarrow> b_dev (bufs s i) = 0 \<and> b_refcnt (bufs s i) = 0"
  shows "binv (binit s)" and "nfree (binit s) = NBUF" and "view (binit s) n = (if n < LOGICAL_DISK_SIZE then disk s (src_block (binit s) n) else (\<lambda>_. 0))"
    and "rc (binit s) n = 0" and "lock_of (binit s) n = None" and "\<not> cached (binit s) b n"
proof -
  have nc: "\<not> cached (binit s) b n" for b n
    using assms by (auto simp: cached_def binit_fields ROOTDEV_def)
  show "binv (binit s)"
    using assms binit_lru [of s] nc unfolding binv_def uniq_def
    by (auto simp: buf_ok_def binit_fields initsleeplock_def ROOTDEV_def)
  have "{b. b < NBUF \<and> b_refcnt (bufs (binit s) b) = 0} = {..<NBUF}" using assms by (auto simp: binit_fields)
  then show "nfree (binit s) = NBUF" by (simp add: nfree_def)
  show "view (binit s) n = (if n < LOGICAL_DISK_SIZE then disk s (src_block (binit s) n) else (\<lambda>_. 0))"
    "rc (binit s) n = 0" "lock_of (binit s) n = None"
    using abs_uncached [of "binit s" n] nc by (simp_all add: binit_fields)
  show "\<not> cached (binit s) b n" by (rule nc)
qed

text \<open>A machine just after \<^verbatim>\<open>binit\<close>: zeroed buffers, and two disks with the same contents.\<close>

definition zero_buf :: buf where
  "zero_buf = \<lparr>b_valid = False, b_disk = False, b_dev = 0, b_blockno = 0, b_lock = initsleeplock,
     b_refcnt = 0, b_prev = 0, b_next = 0, b_data = (\<lambda>_. 0)\<rparr>"

definition demo_disk :: "nat \<Rightarrow> bytes" where
  "demo_disk n = (\<lambda>i. if i = 100 then of_nat n else 0)"

definition demo_bstate :: bstate where
  "demo_bstate = \<lparr>mem = (\<lambda>_. 0), freelist = 0, kend = 1, disk = demo_disk, dhist = [],
     bufs = (\<lambda>_. zero_buf), force_read_error_pbn = -1, force_disk_fail_id = -1, curpid = 1, klog = []\<rparr>"

lemma demo_bstate_binv:
  "binv (binit demo_bstate)" "nfree (binit demo_bstate) = NBUF" "rc (binit demo_bstate) n = 0"
  "lock_of (binit demo_bstate) n = None" "\<not> cached (binit demo_bstate) b n"
  by (intro binit_binv; simp add: demo_bstate_def zero_buf_def)+

text \<open>A block read on that machine, with any failure setting in force.\<close>

lemma demo_owned:
  obtains s :: bstate and b where "binv s" "owns s b 5" "rc s 5 = 1" "force_disk_fail_id s = f"
    "force_read_error_pbn s = e" "view s 5 = disk s (src_block s 5)" "nfree s = 29" "curpid s = 1"
    "\<And>n. n \<noteq> 5 \<Longrightarrow> rc s n = 0 \<and> lock_of s n = None"
proof -
  let ?d = "demo_bstate\<lparr>force_disk_fail_id := f, force_read_error_pbn := e\<rparr>"
  let ?s = "binit ?d"
  have z: "\<And>i. i < NBUF \<Longrightarrow> b_dev (bufs ?d i) = 0 \<and> b_refcnt (bufs ?d i) = 0"
    by (simp add: demo_bstate_def zero_buf_def)
  have fold: "force_disk_fail_id (fold binit_buf ys s) = force_disk_fail_id s \<and>
      force_read_error_pbn (fold binit_buf ys s) = force_read_error_pbn s \<and>
      curpid (fold binit_buf ys s) = curpid s" for ys and s :: bstate
    by (induction ys arbitrary: s) (simp_all add: binit_buf_def Let_def set_bnext_def set_bprev_def)
  have flags: "force_disk_fail_id ?s = f" "force_read_error_pbn ?s = e" "curpid ?s = 1"
    using fold by (simp_all add: binit_def Let_def set_bnext_def set_bprev_def demo_bstate_def)
  note I = binit_binv [OF z]
  have "returns (bread ROOTDEV 5 ?s) (\<lambda>(b, s'). bread_post ?s 5 b s')"
    using I by (intro bread_returns) (simp_all add: NBUF_def LOGICAL_DISK_SIZE_def FSSIZE_def)
  then obtain b s' where "bread_post ?s 5 b s'" by (auto simp: returns_iff)
  then have p: "frame ?s s'" "binv s'" "owns s' b 5" "view s' = view ?s" "rc s' = (rc ?s)(5 := 1)"
    "lock_of s' = (lock_of ?s)(5 := Some 1)" "nfree s' = 29"
    using I flags by (simp_all add: bread_post_def NBUF_def)
  note F = frame_fields [OF p(1)]
  have "view s' 5 = disk s' (src_block s' 5)"
    using p(4) F I(3) [of 5] by (simp add: binit_fields LOGICAL_DISK_SIZE_def FSSIZE_def)
  then show ?thesis
    using that [of s' b] p F flags I by simp
qed

section \<open>Properties\<close>

text \<open>C8: Reading a block through the cache: if some buffer is free (or the block is already in
  use) and nobody holds its lock, \<^verbatim>\<open>bread\<close> returns a buffer locked by the caller that contains the
  current contents of the block; contents, reference counts and locks of all other blocks stay,
  and the cache invariant is kept.\<close>

theorem bread_returns_contents:
  assumes "binv s" and "lock_of s n = None" and "rc s n < 4294967295" and "0 < nfree s \<or> 0 < rc s n"
    and "n < LOGICAL_DISK_SIZE"
  shows "\<exists>b s'. bread ROOTDEV n s = Inr (b, s') \<and> bdata s' b = view s n \<and> owns s' b n \<and> binv s' \<and>
     view s' = view s \<and> disk s' = disk s \<and> rc s' = (rc s)(n := Suc (rc s n)) \<and>
     lock_of s' = (lock_of s)(n := Some (curpid s))"
proof -
  obtain b s' where r: "bread ROOTDEV n s = Inr (b, s')" "bread_post s n b s'"
    using bread_returns [OF assms] by (auto simp: returns_iff)
  moreover have "view s' n = bdata s' b" using owns_abs(1) [of s' b n] r by (simp add: bread_post_def)
  ultimately show ?thesis by (auto simp: bread_post_def frame_fields)
qed

theorem bread_returns_contents_witness:
  "\<exists>b s'. bread ROOTDEV 5 (binit demo_bstate) = Inr (b, s') \<and> bdata s' b = view (binit demo_bstate) 5"
  using bread_returns_contents [of "binit demo_bstate" 5]
  by (auto simp: demo_bstate_binv NBUF_def LOGICAL_DISK_SIZE_def FSSIZE_def)

text \<open>C3: RAID 1 redundancy: a block written while both disks work is read back from the disk, once it has
  left the cache, under every later setting of the failure simulation (either disk failed, its
  primary block failed, or both).\<close>

theorem raid_read_survives_failure:
  fixes s :: "'a bstate_scheme"
  assumes "binv s" and "owns s b n" and "raid_healthy s n"
  shows "\<exists>s'. bwrite b s = Inr s' \<and>
     (\<forall>t :: 'a bstate_scheme. binv t \<and> disk t = disk s' \<and> 0 < nfree t \<and> (\<forall>c. \<not> cached t c n) \<longrightarrow>
        (\<exists>c t'. bread ROOTDEV n t = Inr (c, t') \<and> bdata t' c = bdata s b))"
proof -
  let ?s = "s\<lparr>disk := apply_writes (raid_writes s n (view s n)) (disk s),
    dhist := dhist s @ raid_writes s n (view s n), klog := klog s @ raid_log s n\<rparr>"
  note o = owns_abs [OF assms(1,2)]
  have "\<exists>c t'. bread ROOTDEV n t = Inr (c, t') \<and> bdata t' c = bdata s b"
    if t: "binv t" "disk t = disk ?s" "0 < nfree t" "\<And>c. \<not> cached t c n" for t :: "'a bstate_scheme"
  proof -
    have "disk t (src_block t n) = view s n"
      using raid.read_after_healthy_write [of n s "view s n" "disk s" t] assms(3) o(7) t(2) by simp
    with bread_miss [OF t(1,4,3)] o(1) show ?thesis by auto
  qed
  then show ?thesis using bwrite_eq [OF assms(1,2)] by auto
qed

theorem raid_read_survives_failure_witness:
  "\<exists>(s :: bstate) b s'. binv s \<and> owns s b 5 \<and> raid_healthy s 5 \<and> bwrite b s = Inr s'"
proof (rule demo_owned [of "-1" "-1"])
  fix s :: bstate and b
  assume s: "binv s" "owns s b 5" and "force_disk_fail_id s = -1" "force_read_error_pbn s = -1"
  then have h: "raid_healthy s 5" by (simp add: raid_healthy_def pbn_error_def)
  from raid_read_survives_failure [OF s h] s h show ?thesis by blast
qed

text \<open>C9: Degraded writes: with one simulated failure in force, a write followed by a read under
  the same failure returns the written data, and neither copy of any other logical block
  changes. Only when Disk 1 is failed and the primary block is failed too does the write reach no
  disk at all, while \<^verbatim>\<open>bwrite\<close> still returns normally.\<close>

theorem raid_degraded_write:
  assumes "binv s" and "owns s b n"
  shows "\<exists>s'. bwrite b s = Inr s' \<and>
     (force_disk_fail_id s \<noteq> 1 \<or> \<not> pbn_error n s \<longrightarrow> disk s' (src_block s' n) = bdata s b) \<and>
     (force_disk_fail_id s = 1 \<and> pbn_error n s \<longrightarrow> disk s' = disk s) \<and>
     (\<forall>m. m \<noteq> n \<and> m \<noteq> n + DISK1_START_BLOCK \<longrightarrow> disk s' m = disk s m)"
proof -
  note o = owns_abs [OF assms]
  let ?w = "raid_writes s n (view s n)"
  have "force_disk_fail_id s = 1 \<and> pbn_error n s \<Longrightarrow> apply_writes ?w (disk s) = disk s"
    using o(7) by (simp add: raid_writes_def)
  moreover have "m \<noteq> n \<Longrightarrow> m \<noteq> n + DISK1_START_BLOCK \<Longrightarrow> apply_writes ?w (disk s) m = disk s m" for m
    by (rule apply_writes_other) (auto simp: raid_writes_def)
  moreover have "returns (bwrite b s) (bwrite_post s n)" by (rule bwrite_returns [OF assms])
  ultimately show ?thesis
    using o(1) by (auto simp: returns_iff bwrite_post_def raid_usable_def)
qed

theorem raid_degraded_write_witness:
  "\<exists>(s :: bstate) b s'. owns s b 5 \<and> force_disk_fail_id s = 1 \<and> force_read_error_pbn s = 5 \<and>
     bwrite b s = Inr s' \<and> disk s' = disk s"
proof (rule demo_owned [of 1 5])
  fix s :: bstate and b
  assume s: "binv s" "owns s b 5" and f: "force_disk_fail_id s = 1" "force_read_error_pbn s = 5"
  then have "pbn_error 5 s" by (simp add: pbn_error_def u32_of_int_def)
  with raid_degraded_write [OF s] s f show ?thesis by auto
qed

text \<open>
  Replacement: when a block is not cached, \<^verbatim>\<open>bread\<close> recycles the unreferenced buffer that is
  nearest to the least recently used end of the list, and panics exactly when every buffer is
  referenced; releasing the last reference of a buffer moves it to the most recently used end.\<close>

theorem bcache_lru_replacement:
  assumes "binv s" and "lru s xs"
  shows "((\<forall>c. \<not> cached s c n) \<longrightarrow>
       (case find (\<lambda>i. b_refcnt (bufs s i) = 0) (rev xs) of
          None \<Rightarrow> bread ROOTDEV n s = Inl (Panic ''bget: no buffers'')
        | Some v \<Rightarrow> \<exists>s'. bread ROOTDEV n s = Inr (v, s') \<and> lru s' xs)) \<and>
     (owns s b m \<and> rc s m = 1 \<longrightarrow> (\<exists>s'. brelse b s = Inr s' \<and> lru s' (b # remove1 b xs)))"
proof (intro conjI impI)
  assume nc: "\<forall>c. \<not> cached s c n"
  have miss: "find (\<lambda>b. b_dev (bufs s b) = ROOTDEV \<and> b_blockno (bufs s b) = n) xs = None"
    using find_in_lru(1) [OF assms(2)] nc by (simp add: cached_def)
  note walk = bget_cached_lru [OF assms(2)] bget_victim_lru [OF assms(2)]
  show "case find (\<lambda>i. b_refcnt (bufs s i) = 0) (rev xs) of
          None \<Rightarrow> bread ROOTDEV n s = Inl (Panic ''bget: no buffers'')
        | Some v \<Rightarrow> \<exists>s'. bread ROOTDEV n s = Inr (v, s') \<and> lru s' xs"
  proof (cases "find (\<lambda>i. b_refcnt (bufs s i) = 0) (rev xs)")
    case None
    then show ?thesis by (simp add: bread_def bget_def walk miss)
  next
    case (Some v)
    note v = find_in_lru(4) [OF assms(2) Some]
    then have "\<not> locked (b_lock (bufs s v))" using binvD(3) [OF assms(1), of v] by (simp add: buf_ok_def)
    with Some obtain s' where s': "bread ROOTDEV n s = Inr (v, s')"
      by (simp add: bread_def bget_def walk miss lock_buf_def acquiresleep_def Let_def)
    have "lru s' xs"
      using s' Some \<open>\<not> locked _\<close>
      by (intro lru_same_links [OF assms(2)])
        (auto simp: bread_def bget_def walk miss lock_buf_def acquiresleep_def Let_def set_blockno_def
          disk_rw_def set_bdata_def split: if_splits)
    with Some s' show ?thesis by auto
  qed
next
  assume m: "owns s b m \<and> rc s m = 1"
  let ?s = "upd_buf b (\<lambda>x. x\<lparr>b_lock := releasesleep (b_lock x), b_refcnt := u32_dec (b_refcnt x)\<rparr>) s"
  have o: "b_refcnt (bufs s b) = 1" "b < NBUF" using owns_abs(2,5) [OF assms(1), of b m] m by simp_all
  have "lru ?s xs" by (rule lru_same_links [OF assms(2)]) auto
  from to_front_lru [OF this o(2)] show "\<exists>s'. brelse b s = Inr s' \<and> lru s' (b # remove1 b xs)"
    using brelse_eq [of s b m] m o by (simp add: u32_dec_def)
qed

theorem bcache_lru_replacement_witness:
  "\<exists>s'. bread ROOTDEV 7 (binit demo_bstate) = Inr (0, s')"
proof -
  have z: "find (\<lambda>i. b_refcnt (bufs (binit demo_bstate) i) = 0) (rev (rev [0..<NBUF])) = Some 0"
    by (simp add: binit_fields demo_bstate_def zero_buf_def NBUF_def upt_rec [of 0])
  show ?thesis
    using bcache_lru_replacement [OF demo_bstate_binv(1) binit_lru, of 7 0 0] demo_bstate_binv(5) z by auto
qed

end
