(* ===== verification/Log.thy ===== *)
theory Log
  imports Bio
begin

text \<open>
  The write-ahead log (\<^verbatim>\<open>FileSystem-RAID/kernel/log.c\<close>). The state adds the fields of \<^verbatim>\<open>struct log\<close>
  to the buffer cache. \<open>commit\<close> and \<open>recover_from_log\<close> run on the cache and the mirrored disk of the
  buffer cache theory; their effect is described as a sequence of block writes, and a crash as a prefix
  of it.
\<close>

section \<open>State\<close>

record superblock =
  sb_magic :: nat
  sb_size :: nat
  sb_nblocks :: nat
  sb_ninodes :: nat
  sb_nlog :: nat
  sb_logstart :: nat
  sb_inodestart :: nat
  sb_bmapstart :: nat

record lstate = bstate +
  log_start :: int
  log_size :: int
  log_outstanding :: int
  log_committing :: bool
  log_dev :: nat
  lh_n :: int
  lh_block :: "nat \<Rightarrow> int"

definition MAXOPBLOCKS :: int where "MAXOPBLOCKS = 10"
definition LOGSIZE :: int where "LOGSIZE = 30"

text \<open>The header block: \<^verbatim>\<open>n\<close>, then the block numbers, as 32-bit integers.\<close>

definition hdr_n :: "bytes \<Rightarrow> int" where
  "hdr_n d = int_of_u32 (get_le d 0 4)"

definition hdr_block :: "bytes \<Rightarrow> nat \<Rightarrow> int" where
  "hdr_block d i = int_of_u32 (get_le d (4 + 4 * i) 4)"

definition put_int :: "bytes \<Rightarrow> nat \<Rightarrow> int \<Rightarrow> bytes" where
  "put_int d off v = put_le d off 4 (u32_of_int v)"

definition put_head :: "bytes \<Rightarrow> int \<Rightarrow> (nat \<Rightarrow> int) \<Rightarrow> bytes" where
  "put_head d n bl = fold (\<lambda>i d. put_int d (4 + 4 * i) (bl i)) [0..<nat n] (put_int d 0 n)"

section \<open>Operations\<close>

definition install_body :: "nat \<Rightarrow> 'a lstate_scheme \<Rightarrow> 'a lstate_scheme kres" where
  "install_body tail s =
     bindE (bread (log_dev s) (u32_of_int (log_start s + int tail + 1)) s) (\<lambda>(lbuf, s).
     bindE (bread (log_dev s) (u32_of_int (lh_block s tail)) s) (\<lambda>(dbuf, s).
     let s = set_bdata dbuf (blit (bdata s dbuf) 0 (bdata s lbuf) 0 BSIZE) s in
     bindE (bwrite dbuf s) (\<lambda>s.
     let s = bunpin dbuf s in
     bindE (brelse lbuf s) (brelse dbuf))))"

definition install_trans :: "'a lstate_scheme \<Rightarrow> 'a lstate_scheme kres" where
  "install_trans s = foldE install_body [0..<nat (lh_n s)] s"

text \<open>A header that counts more than \<^verbatim>\<open>LOGSIZE\<close> blocks would be copied past the end of \<^verbatim>\<open>log.lh.block\<close>.\<close>

definition read_head :: "'a lstate_scheme \<Rightarrow> 'a lstate_scheme kres" where
  "read_head s =
     bindE (bread (log_dev s) (u32_of_int (log_start s)) s) (\<lambda>(buf, s).
     let lh = bdata s buf;
         s = s\<lparr>lh_n := hdr_n lh\<rparr> in
     if lh_n s > LOGSIZE then Inl (Undef ''read_head'')
     else
       let s = fold (\<lambda>i s. s\<lparr>lh_block := (lh_block s)(i := hdr_block lh i)\<rparr>) [0..<nat (lh_n s)] s in
       brelse buf s)"

definition write_head :: "'a lstate_scheme \<Rightarrow> 'a lstate_scheme kres" where
  "write_head s =
     bindE (bread (log_dev s) (u32_of_int (log_start s)) s) (\<lambda>(buf, s).
     let s = set_bdata buf (put_head (bdata s buf) (lh_n s) (lh_block s)) s in
     bindE (bwrite buf s) (brelse buf))"

definition recover_from_log :: "'a lstate_scheme \<Rightarrow> 'a lstate_scheme kres" where
  "recover_from_log s =
     bindE (read_head s) (\<lambda>s.
     bindE (install_trans s) (\<lambda>s.
     let s = s\<lparr>lh_n := 0\<rparr> in
     write_head s))"

definition initlog :: "nat \<Rightarrow> superblock \<Rightarrow> 'a lstate_scheme \<Rightarrow> 'a lstate_scheme kres" where
  "initlog dev sb s =
     (if 4 + 4 * nat LOGSIZE \<ge> BSIZE then Inl (Panic ''initlog: too big logheader'')
      else
        let s = s\<lparr>log_start := int_of_u32 (sb_logstart sb)\<rparr>;
            s = s\<lparr>log_size := int_of_u32 (sb_nlog sb)\<rparr>;
            s = s\<lparr>log_dev := dev\<rparr> in
        recover_from_log s)"

definition begin_op :: "'a lstate_scheme \<Rightarrow> 'a lstate_scheme kres" where
  "begin_op s =
     (if log_committing s then Inl (Sleep ''log'')
      else if lh_n s + (log_outstanding s + 1) * MAXOPBLOCKS > LOGSIZE then Inl (Sleep ''log'')
      else Inr (s\<lparr>log_outstanding := log_outstanding s + 1\<rparr>))"

definition write_log_body :: "nat \<Rightarrow> 'a lstate_scheme \<Rightarrow> 'a lstate_scheme kres" where
  "write_log_body tail s =
     bindE (bread (log_dev s) (u32_of_int (log_start s + int tail + 1)) s) (\<lambda>(to, s).
     bindE (bread (log_dev s) (u32_of_int (lh_block s tail)) s) (\<lambda>(frm, s).
     let s = set_bdata to (blit (bdata s to) 0 (bdata s frm) 0 BSIZE) s in
     bindE (bwrite to s) (\<lambda>s.
     bindE (brelse frm s) (brelse to))))"

definition write_log :: "'a lstate_scheme \<Rightarrow> 'a lstate_scheme kres" where
  "write_log s = foldE write_log_body [0..<nat (lh_n s)] s"

definition commit :: "'a lstate_scheme \<Rightarrow> 'a lstate_scheme kres" where
  "commit s =
     (if lh_n s > 0 then
        bindE (write_log s) (\<lambda>s.
        bindE (write_head s) (\<lambda>s.
        bindE (install_trans s) (\<lambda>s.
        let s = s\<lparr>lh_n := 0\<rparr> in
        write_head s)))
      else Inr s)"

definition end_op :: "'a lstate_scheme \<Rightarrow> 'a lstate_scheme kres" where
  "end_op s =
     (let s = s\<lparr>log_outstanding := log_outstanding s - 1\<rparr> in
      if log_committing s then Inl (Panic ''log.committing'')
      else if log_outstanding s = 0 then
        let s = s\<lparr>log_committing := True\<rparr> in
        bindE (commit s) (\<lambda>s. Inr (s\<lparr>log_committing := False\<rparr>))
      else Inr s)"

fun log_find :: "nat \<Rightarrow> nat \<Rightarrow> (nat \<Rightarrow> int) \<Rightarrow> nat \<Rightarrow> nat" where
  "log_find 0 i bl blockno = i"
| "log_find (Suc k) i bl blockno =
     (if u32_of_int (bl i) = blockno then i else log_find k (Suc i) bl blockno)"

definition log_write :: "nat \<Rightarrow> 'a lstate_scheme \<Rightarrow> 'a lstate_scheme kres" where
  "log_write b s =
     (if lh_n s \<ge> LOGSIZE \<or> lh_n s \<ge> log_size s - 1 then Inl (Panic ''too big a transaction'')
      else if log_outstanding s < 1 then Inl (Panic ''log_write outside of trans'')
      else
        let i = log_find (nat (lh_n s)) 0 (lh_block s) (b_blockno (bufs s b));
            s = s\<lparr>lh_block := (lh_block s)(i := int_of_u32 (b_blockno (bufs s b)))\<rparr> in
        if int i = lh_n s then
          let s = bpin b s in
          Inr (s\<lparr>lh_n := lh_n s + 1\<rparr>)
        else Inr s)"

section \<open>Updates that the cache does not see\<close>

lemma log_start_update_frame [simp]:
  "cached (s\<lparr>log_start := v\<rparr>) = cached s"
  "view (s\<lparr>log_start := v\<rparr>) = view s"
  "rc (s\<lparr>log_start := v\<rparr>) = rc s"
  "lock_of (s\<lparr>log_start := v\<rparr>) = lock_of s"
  "nfree (s\<lparr>log_start := v\<rparr>) = nfree s"
  "binv (s\<lparr>log_start := v\<rparr>) = binv s"
  "owns (s\<lparr>log_start := v\<rparr>) = owns s"
  "src_block (s\<lparr>log_start := v\<rparr>) = src_block s"
  "raid_usable (s\<lparr>log_start := v\<rparr>) = raid_usable s"
  "raid_writes (s\<lparr>log_start := v\<rparr>) = raid_writes s"
  "raid_healthy (s\<lparr>log_start := v\<rparr>) = raid_healthy s"
  by (rule trunc_cong; simp add: bstate.truncate_def)+

lemma log_size_update_frame [simp]:
  "cached (s\<lparr>log_size := v\<rparr>) = cached s"
  "view (s\<lparr>log_size := v\<rparr>) = view s"
  "rc (s\<lparr>log_size := v\<rparr>) = rc s"
  "lock_of (s\<lparr>log_size := v\<rparr>) = lock_of s"
  "nfree (s\<lparr>log_size := v\<rparr>) = nfree s"
  "binv (s\<lparr>log_size := v\<rparr>) = binv s"
  "owns (s\<lparr>log_size := v\<rparr>) = owns s"
  "src_block (s\<lparr>log_size := v\<rparr>) = src_block s"
  "raid_usable (s\<lparr>log_size := v\<rparr>) = raid_usable s"
  "raid_writes (s\<lparr>log_size := v\<rparr>) = raid_writes s"
  "raid_healthy (s\<lparr>log_size := v\<rparr>) = raid_healthy s"
  by (rule trunc_cong; simp add: bstate.truncate_def)+

lemma log_outstanding_update_frame [simp]:
  "cached (s\<lparr>log_outstanding := v\<rparr>) = cached s"
  "view (s\<lparr>log_outstanding := v\<rparr>) = view s"
  "rc (s\<lparr>log_outstanding := v\<rparr>) = rc s"
  "lock_of (s\<lparr>log_outstanding := v\<rparr>) = lock_of s"
  "nfree (s\<lparr>log_outstanding := v\<rparr>) = nfree s"
  "binv (s\<lparr>log_outstanding := v\<rparr>) = binv s"
  "owns (s\<lparr>log_outstanding := v\<rparr>) = owns s"
  "src_block (s\<lparr>log_outstanding := v\<rparr>) = src_block s"
  "raid_usable (s\<lparr>log_outstanding := v\<rparr>) = raid_usable s"
  "raid_writes (s\<lparr>log_outstanding := v\<rparr>) = raid_writes s"
  "raid_healthy (s\<lparr>log_outstanding := v\<rparr>) = raid_healthy s"
  by (rule trunc_cong; simp add: bstate.truncate_def)+

lemma log_committing_update_frame [simp]:
  "cached (s\<lparr>log_committing := v\<rparr>) = cached s"
  "view (s\<lparr>log_committing := v\<rparr>) = view s"
  "rc (s\<lparr>log_committing := v\<rparr>) = rc s"
  "lock_of (s\<lparr>log_committing := v\<rparr>) = lock_of s"
  "nfree (s\<lparr>log_committing := v\<rparr>) = nfree s"
  "binv (s\<lparr>log_committing := v\<rparr>) = binv s"
  "owns (s\<lparr>log_committing := v\<rparr>) = owns s"
  "src_block (s\<lparr>log_committing := v\<rparr>) = src_block s"
  "raid_usable (s\<lparr>log_committing := v\<rparr>) = raid_usable s"
  "raid_writes (s\<lparr>log_committing := v\<rparr>) = raid_writes s"
  "raid_healthy (s\<lparr>log_committing := v\<rparr>) = raid_healthy s"
  by (rule trunc_cong; simp add: bstate.truncate_def)+

lemma log_dev_update_frame [simp]:
  "cached (s\<lparr>log_dev := v\<rparr>) = cached s"
  "view (s\<lparr>log_dev := v\<rparr>) = view s"
  "rc (s\<lparr>log_dev := v\<rparr>) = rc s"
  "lock_of (s\<lparr>log_dev := v\<rparr>) = lock_of s"
  "nfree (s\<lparr>log_dev := v\<rparr>) = nfree s"
  "binv (s\<lparr>log_dev := v\<rparr>) = binv s"
  "owns (s\<lparr>log_dev := v\<rparr>) = owns s"
  "src_block (s\<lparr>log_dev := v\<rparr>) = src_block s"
  "raid_usable (s\<lparr>log_dev := v\<rparr>) = raid_usable s"
  "raid_writes (s\<lparr>log_dev := v\<rparr>) = raid_writes s"
  "raid_healthy (s\<lparr>log_dev := v\<rparr>) = raid_healthy s"
  by (rule trunc_cong; simp add: bstate.truncate_def)+

lemma lh_n_update_frame [simp]:
  "cached (s\<lparr>lh_n := v\<rparr>) = cached s"
  "view (s\<lparr>lh_n := v\<rparr>) = view s"
  "rc (s\<lparr>lh_n := v\<rparr>) = rc s"
  "lock_of (s\<lparr>lh_n := v\<rparr>) = lock_of s"
  "nfree (s\<lparr>lh_n := v\<rparr>) = nfree s"
  "binv (s\<lparr>lh_n := v\<rparr>) = binv s"
  "owns (s\<lparr>lh_n := v\<rparr>) = owns s"
  "src_block (s\<lparr>lh_n := v\<rparr>) = src_block s"
  "raid_usable (s\<lparr>lh_n := v\<rparr>) = raid_usable s"
  "raid_writes (s\<lparr>lh_n := v\<rparr>) = raid_writes s"
  "raid_healthy (s\<lparr>lh_n := v\<rparr>) = raid_healthy s"
  by (rule trunc_cong; simp add: bstate.truncate_def)+

lemma lh_block_update_frame [simp]:
  "cached (s\<lparr>lh_block := v\<rparr>) = cached s"
  "view (s\<lparr>lh_block := v\<rparr>) = view s"
  "rc (s\<lparr>lh_block := v\<rparr>) = rc s"
  "lock_of (s\<lparr>lh_block := v\<rparr>) = lock_of s"
  "nfree (s\<lparr>lh_block := v\<rparr>) = nfree s"
  "binv (s\<lparr>lh_block := v\<rparr>) = binv s"
  "owns (s\<lparr>lh_block := v\<rparr>) = owns s"
  "src_block (s\<lparr>lh_block := v\<rparr>) = src_block s"
  "raid_usable (s\<lparr>lh_block := v\<rparr>) = raid_usable s"
  "raid_writes (s\<lparr>lh_block := v\<rparr>) = raid_writes s"
  "raid_healthy (s\<lparr>lh_block := v\<rparr>) = raid_healthy s"
  by (rule trunc_cong; simp add: bstate.truncate_def)+

end
