(* ===== verification/RedoLog.thy ===== *)
theory RedoLog
  imports Log
begin

text \<open>
  Correctness of the write-ahead log. The first part is about logical disks only: a transaction is a
  sequence of block writes, recovery another one, and a crash leaves a prefix. The second part shows
  that \<^verbatim>\<open>commit\<close> and \<^verbatim>\<open>recover_from_log\<close> of the model, running on the buffer cache and the mirrored
  disk, issue exactly these sequences. Together they give crash atomicity of \<^verbatim>\<open>commit\<close>.
\<close>

section \<open>The header block\<close>

definition blk_ok :: "bytes \<Rightarrow> bool" where
  "blk_ok d \<longleftrightarrow> (\<forall>i \<ge> BSIZE. d i = 0)"

lemma blk_ok_blit:
  assumes "blk_ok d" and "blk_ok e"
  shows "blit d 0 e 0 BSIZE = e"
  using assms by (auto simp: blk_ok_def blit_def fun_eq_iff not_less)

lemma blk_ok_put_le: "blk_ok d \<Longrightarrow> off + n \<le> BSIZE \<Longrightarrow> blk_ok (put_le d off n v)"
  by (auto simp: blk_ok_def put_le_outside)

lemma hdr_n_put_int_0: "- 2147483648 \<le> n \<Longrightarrow> n < 2147483648 \<Longrightarrow> hdr_n (put_int d 0 n) = n"
proof -
  assume n: "- 2147483648 \<le> n" "n < 2147483648"
  have "u32_of_int n < 4294967296" by (simp add: u32_of_int_def nat_less_iff)
  then have "get_le (put_int d 0 n) 0 4 = u32_of_int n" by (simp add: put_int_def get_put_le)
  moreover have "int_of_u32 (u32_of_int n) = n"
  proof (cases "0 \<le> n")
    case True
    then have "n mod 4294967296 = n" using n by (intro mod_pos_pos_trivial) simp_all
    with True n show ?thesis by (simp add: int_of_u32_def u32_of_int_def)
  next
    case False
    have "(n + 4294967296) mod 4294967296 = n + 4294967296" using False n by (intro mod_pos_pos_trivial) simp_all
    then have "n mod 4294967296 = n + 4294967296" by simp
    with False n show ?thesis by (simp add: int_of_u32_def u32_of_int_def)
  qed
  ultimately show ?thesis by (simp add: hdr_n_def)
qed

lemma put_int_small: "0 \<le> v \<Longrightarrow> v < 2147483648 \<Longrightarrow> int_of_u32 (get_le (put_int d off v) off 4) = v"
  by (simp add: put_int_def get_put_le u32_of_int_def int_of_u32_def nat_less_iff)

lemma put_int_other: "off + 4 \<le> off' \<or> off' + 4 \<le> off \<Longrightarrow> get_le (put_int d off v) off' 4 = get_le d off' 4"
  by (simp add: put_int_def get_put_le_other)

lemma put_head_fold:
  "get_le (fold (\<lambda>i d. put_int d (4 + 4 * i) (bl i)) [0..<k] d) 0 4 = get_le d 0 4"
  "i < k \<Longrightarrow> 0 \<le> bl i \<Longrightarrow> bl i < 2147483648 \<Longrightarrow>
     int_of_u32 (get_le (fold (\<lambda>i d. put_int d (4 + 4 * i) (bl i)) [0..<k] d) (4 + 4 * i) 4) = bl i"
proof (induction k)
  case (Suc k)
  case 1
  show ?case using Suc.IH(1) by (simp add: put_int_other)
  case 2
  then show ?case
  proof (cases "i = k")
    case True
    then show ?thesis using 2 by (simp add: put_int_small)
  next
    case False
    then have "i < k" using 2 by simp
    then show ?thesis using Suc.IH(2) 2 by (simp add: put_int_other)
  qed
qed simp_all

lemma hdr_put_head:
  assumes "0 \<le> n" and "n < 2147483648"
  shows "hdr_n (put_head d n bl) = n"
    and "i < nat n \<Longrightarrow> 0 \<le> bl i \<Longrightarrow> bl i < 2147483648 \<Longrightarrow> hdr_block (put_head d n bl) i = bl i"
  using assms hdr_n_put_int_0 [of n d] by (simp_all add: put_head_def hdr_n_def hdr_block_def put_head_fold)

lemma blk_ok_put_head:
  assumes "blk_ok d" and "n \<le> LOGSIZE"
  shows "blk_ok (put_head d n bl)"
proof -
  have "k \<le> nat LOGSIZE \<Longrightarrow> blk_ok d \<Longrightarrow> blk_ok (fold (\<lambda>i d. put_int d (4 + 4 * i) (bl i)) [0..<k] d)" for k d
    by (induction k) (auto simp: put_int_def LOGSIZE_def BSIZE_def intro!: blk_ok_put_le)
  moreover have "blk_ok (put_int d 0 n)" using assms(1) by (auto simp: put_int_def BSIZE_def intro!: blk_ok_put_le)
  ultimately show ?thesis using assms(2) by (simp add: put_head_def)
qed

lemma put_head_0: "put_head d 0 bl = put_int d 0 0"
  by (simp add: put_head_def)

section \<open>Transactions and recovery as sequences of block writes\<close>

record redo =
  r_start :: nat
  r_blocks :: "nat list"
  r_data :: "bytes list"
  r_hdr :: bytes
  r_home :: "nat set"
  r_old :: "nat \<Rightarrow> bytes"

definition redo_ok :: "redo \<Rightarrow> bool" where
  "redo_ok r \<longleftrightarrow> distinct (r_blocks r) \<and> length (r_data r) = length (r_blocks r) \<and>
     set (r_blocks r) \<subseteq> r_home r \<and> (\<forall>n \<in> r_home r. n < r_start r \<or> r_start r + length (r_blocks r) < n) \<and>
     hdr_n (r_hdr r) = int (length (r_blocks r)) \<and>
     (\<forall>i < length (r_blocks r). u32_of_int (hdr_block (r_hdr r) i) = r_blocks r ! i) \<and>
     hdr_n (r_old r (r_start r)) = 0"

definition log_writes :: "redo \<Rightarrow> (nat \<times> bytes) list" where
  "log_writes r = zip [Suc (r_start r)..<Suc (r_start r) + length (r_blocks r)] (r_data r)"

definition home_writes :: "redo \<Rightarrow> (nat \<times> bytes) list" where
  "home_writes r = zip (r_blocks r) (r_data r)"

definition commit_writes :: "redo \<Rightarrow> bytes \<Rightarrow> (nat \<times> bytes) list" where
  "commit_writes r hz = log_writes r @ [(r_start r, r_hdr r)] @ home_writes r @ [(r_start r, hz)]"

definition recover_writes :: "nat \<Rightarrow> (nat \<Rightarrow> bytes) \<Rightarrow> (nat \<times> bytes) list" where
  "recover_writes st L =
     map (\<lambda>i. (u32_of_int (hdr_block (L st) i), L (Suc (st + i)))) [0..<nat (hdr_n (L st))] @
     [(st, put_int (L st) 0 0)]"

text \<open>The three situations in which a crash can leave a disk.\<close>

definition p_old :: "redo \<Rightarrow> (nat \<Rightarrow> bytes) \<Rightarrow> bool" where
  "p_old r L \<longleftrightarrow> hdr_n (L (r_start r)) = 0 \<and> (\<forall>m \<in> r_home r. L m = r_old r m)"

definition p_mid :: "redo \<Rightarrow> (nat \<Rightarrow> bytes) \<Rightarrow> bool" where
  "p_mid r L \<longleftrightarrow> L (r_start r) = r_hdr r \<and>
     (\<forall>i < length (r_blocks r). L (Suc (r_start r + i)) = r_data r ! i) \<and>
     (\<forall>m \<in> r_home r - set (r_blocks r). L m = r_old r m)"

definition p_new :: "redo \<Rightarrow> (nat \<Rightarrow> bytes) \<Rightarrow> bool" where
  "p_new r L \<longleftrightarrow> hdr_n (L (r_start r)) = 0 \<and>
     (\<forall>m \<in> r_home r. L m = apply_writes (home_writes r) (r_old r) m)"

lemma apply_writes_zip:
  assumes "distinct ns" and "length ds = length ns" and "i < length ns"
  shows "apply_writes (zip ns ds) D (ns ! i) = ds ! i"
proof (rule apply_writes_const)
  show "ns ! i \<in> fst ` set (zip ns ds)" using assms by (auto simp: set_zip image_iff)
  fix q x
  assume "(q, x) \<in> set (zip ns ds)" and "q = ns ! i"
  then show "x = ds ! i" using assms nth_eq_iff_index_eq by (fastforce simp: set_zip)
qed

lemma apply_writes_zip_other: "m \<notin> set ns \<Longrightarrow> apply_writes (zip ns ds) D m = D m"
  by (rule apply_writes_other) (auto dest: set_zip_leftD)

lemma take_append_cases:
  obtains "take k (us @ ws) = take k us" | j where "take k (us @ ws) = us @ take j ws"
  by (cases "k \<le> length us") auto

text \<open>Installing, from the point where the header is on the disk.\<close>

lemma home_writes_values:
  assumes "redo_ok r"
  shows "m \<notin> set (r_blocks r) \<Longrightarrow> apply_writes (home_writes r) D m = D m"
    and "i < length (r_blocks r) \<Longrightarrow> apply_writes (home_writes r) D (r_blocks r ! i) = r_data r ! i"
    and "m \<notin> set (r_blocks r) \<Longrightarrow> apply_writes (take j (home_writes r)) D m = D m"
proof -
  show "m \<notin> set (r_blocks r) \<Longrightarrow> apply_writes (home_writes r) D m = D m"
    by (simp add: home_writes_def apply_writes_zip_other)
  show "i < length (r_blocks r) \<Longrightarrow> apply_writes (home_writes r) D (r_blocks r ! i) = r_data r ! i"
    using assms by (simp add: home_writes_def redo_ok_def apply_writes_zip)
  assume "m \<notin> set (r_blocks r)"
  then have "m \<notin> set (take j (r_blocks r))" by (auto dest: in_set_takeD)
  then show "apply_writes (take j (home_writes r)) D m = D m"
    by (simp add: home_writes_def take_zip apply_writes_zip_other)
qed

lemma log_area_not_home:
  assumes "redo_ok r"
  shows "r_start r \<notin> r_home r" and "i < length (r_blocks r) \<Longrightarrow> Suc (r_start r + i) \<notin> r_home r"
  using assms by (auto simp: redo_ok_def)

lemma install_prefix_mid:
  assumes "redo_ok r" and "p_mid r L"
  shows "p_mid r (apply_writes (take j (home_writes r)) L)"
proof -
  have sub: "set (r_blocks r) \<subseteq> r_home r" using assms(1) by (simp add: redo_ok_def)
  have "r_start r \<notin> set (r_blocks r)" "\<And>i. i < length (r_blocks r) \<Longrightarrow> Suc (r_start r + i) \<notin> set (r_blocks r)"
    using log_area_not_home [OF assms(1)] sub by auto
  with assms(2) show ?thesis
    by (auto simp: p_mid_def home_writes_values(3) [OF assms(1)])
qed

lemma install_done_new:
  assumes "redo_ok r" and "p_mid r L" and "hdr_n hz = 0"
  shows "p_new r ((apply_writes (home_writes r) L)(r_start r := hz))"
proof -
  have "apply_writes (home_writes r) L m = apply_writes (home_writes r) (r_old r) m" if "m \<in> r_home r" for m
  proof (cases "m \<in> set (r_blocks r)")
    case True
    then obtain i where i: "i < length (r_blocks r)" "m = r_blocks r ! i" by (auto simp: in_set_conv_nth)
    then show ?thesis using home_writes_values(2) [OF assms(1)] by simp
  next
    case False
    then show ?thesis using home_writes_values(1) [OF assms(1)] assms(2) that by (simp add: p_mid_def)
  qed
  then show ?thesis using assms(3) log_area_not_home(1) [OF assms(1)] by (auto simp: p_new_def)
qed

lemma commit_prefix:
  assumes "redo_ok r" and "hdr_n hz = 0"
  shows "p_old r (apply_writes (take k (commit_writes r hz)) (r_old r)) \<or>
    p_mid r (apply_writes (take k (commit_writes r hz)) (r_old r)) \<or>
    p_new r (apply_writes (take k (commit_writes r hz)) (r_old r))"
proof -
  let ?A = "log_writes r" and ?I = "home_writes r" and ?st = "r_start r" and ?n = "length (r_blocks r)"
  have len: "length (r_data r) = ?n" using assms(1) by (simp add: redo_ok_def)
  have A: "fst ` set ?A = {Suc ?st..<Suc ?st + ?n}"
  proof -
    have "map fst ?A = [Suc ?st..<Suc ?st + ?n]" using len by (simp add: log_writes_def map_fst_zip)
    then have "set (map fst ?A) = set [Suc ?st..<Suc ?st + ?n]" by (rule arg_cong)
    then show ?thesis by (simp only: set_map set_upt)
  qed
  have mid: "p_mid r (apply_writes [(?st, r_hdr r)] (apply_writes ?A (r_old r)))"
  proof -
    have "apply_writes ?A (r_old r) (Suc (?st + i)) = r_data r ! i" if "i < ?n" for i
      using apply_writes_zip [of "[Suc ?st..<Suc ?st + ?n]" "r_data r" i "r_old r"] len that
      by (simp add: log_writes_def del: upt_Suc)
    moreover have "apply_writes ?A (r_old r) m = r_old r m" if "m \<in> r_home r" for m
      using that assms(1) by (intro apply_writes_other) (auto simp: A redo_ok_def)
    ultimately show ?thesis using log_area_not_home(1) [OF assms(1)] by (auto simp: p_mid_def)
  qed
  consider (a) j where "take k (commit_writes r hz) = take j ?A"
    | (b) j where "take k (commit_writes r hz) = ?A @ [(?st, r_hdr r)] @ take j ?I"
    | (c) "take k (commit_writes r hz) = ?A @ [(?st, r_hdr r)] @ ?I @ [(?st, hz)]"
  proof -
    consider "k \<le> length ?A" | "length ?A < k" "k \<le> length ?A + 1 + length ?I" | "length ?A + 1 + length ?I < k"
      by linarith
    then show ?thesis
      by cases (auto simp: commit_writes_def take_Cons' intro: that)
  qed
  then show ?thesis
  proof cases
    case a
    have sub: "fst ` set (take j ?A) \<subseteq> {Suc ?st..<Suc ?st + ?n}" using A set_take_subset [of j ?A] by blast
    have "apply_writes (take j ?A) (r_old r) ?st = r_old r ?st" using sub by (intro apply_writes_other) auto
    moreover have "apply_writes (take j ?A) (r_old r) m = r_old r m" if "m \<in> r_home r" for m
    proof (rule apply_writes_other)
      have "m \<notin> {Suc ?st..<Suc ?st + ?n}" using that assms(1) by (auto simp: redo_ok_def)
      then show "m \<notin> fst ` set (take j ?A)" using sub by blast
    qed
    ultimately have "p_old r (apply_writes (take j ?A) (r_old r))" using assms(1) by (simp add: p_old_def redo_ok_def)
    with a show ?thesis by simp
  next
    case b
    then show ?thesis using install_prefix_mid [OF assms(1) mid, of j] by simp
  next
    case c
    then show ?thesis using install_done_new [OF assms(1) mid assms(2)] by simp
  qed
qed

lemma recover_writes_mid:
  assumes "redo_ok r" and "p_mid r L"
  shows "recover_writes (r_start r) L = home_writes r @ [(r_start r, put_int (r_hdr r) 0 0)]"
proof -
  have "map (\<lambda>i. (u32_of_int (hdr_block (r_hdr r) i), L (Suc (r_start r + i)))) [0..<length (r_blocks r)] = home_writes r"
    using assms by (intro nth_equalityI) (auto simp: home_writes_def redo_ok_def p_mid_def)
  then show ?thesis using assms by (simp add: recover_writes_def redo_ok_def p_mid_def)
qed

lemma recover_writes_empty: "hdr_n (L st) = 0 \<Longrightarrow> recover_writes st L = [(st, put_int (L st) 0 0)]"
  by (simp add: recover_writes_def)

lemma recover_full:
  assumes "redo_ok r"
  shows "p_old r L \<Longrightarrow> p_old r (apply_writes (recover_writes (r_start r) L) L)"
    and "p_mid r L \<Longrightarrow> p_new r (apply_writes (recover_writes (r_start r) L) L)"
    and "p_new r L \<Longrightarrow> p_new r (apply_writes (recover_writes (r_start r) L) L)"
proof -
  have st: "m \<in> r_home r \<Longrightarrow> m \<noteq> r_start r" for m using log_area_not_home(1) [OF assms] by auto
  have h: "hdr_n (put_int d 0 0) = 0" for d by (simp add: hdr_n_put_int_0)
  show "p_old r L \<Longrightarrow> p_old r (apply_writes (recover_writes (r_start r) L) L)"
    using st h by (auto simp: p_old_def recover_writes_empty)
  show "p_new r L \<Longrightarrow> p_new r (apply_writes (recover_writes (r_start r) L) L)"
    using st h by (auto simp: p_new_def recover_writes_empty)
  show "p_mid r L \<Longrightarrow> p_new r (apply_writes (recover_writes (r_start r) L) L)"
    using install_done_new [OF assms _ h] by (simp add: recover_writes_mid [OF assms])
qed

lemma recover_prefix:
  fixes k :: nat
  assumes "redo_ok r" and "p_old r L \<or> p_mid r L \<or> p_new r L"
  defines "L' \<equiv> apply_writes (take k (recover_writes (r_start r) L)) L"
  shows "p_old r L' \<or> p_mid r L' \<or> p_new r L'"
proof (cases "length (recover_writes (r_start r) L) \<le> k")
  case True
  then show ?thesis using recover_full [OF assms(1), of L] assms(2) by (auto simp: L'_def)
next
  case False
  show ?thesis
  proof (cases "p_mid r L")
    case True
    then show ?thesis
      using False install_prefix_mid [OF assms(1) True, of k]
      by (simp add: L'_def recover_writes_mid [OF assms(1) True])
  next
    case ne: False
    then have "recover_writes (r_start r) L = [(r_start r, put_int (L (r_start r)) 0 0)]"
      using assms(2) by (auto simp: p_old_def p_new_def recover_writes_empty)
    moreover from this have "k = 0" using False by simp
    ultimately show ?thesis using assms(2) by (simp add: L'_def)
  qed
qed

text \<open>The situations depend on the contents of the log area and the home blocks only.\<close>

definition p_any :: "redo \<Rightarrow> (nat \<Rightarrow> bytes) \<Rightarrow> bool" where
  "p_any r L \<longleftrightarrow> p_old r L \<or> p_mid r L \<or> p_new r L"

lemma p_cong:
  assumes "\<And>m. m \<in> B \<Longrightarrow> L m = L' m" and "r_home r \<subseteq> B" and "r_start r \<in> B"
    and "\<And>i. i < length (r_blocks r) \<Longrightarrow> Suc (r_start r + i) \<in> B"
  shows "p_old r L = p_old r L'" "p_mid r L = p_mid r L'" "p_new r L = p_new r L'" "p_any r L = p_any r L'"
proof -
  have h: "\<And>m. m \<in> r_home r \<Longrightarrow> L m = L' m" using assms(1,2) by blast
  show "p_old r L = p_old r L'" "p_mid r L = p_mid r L'" "p_new r L = p_new r L'"
    using assms h by (simp_all add: p_old_def p_mid_def p_new_def)
  then show "p_any r L = p_any r L'" by (simp add: p_any_def)
qed

section \<open>The log routines on the buffer cache\<close>

definition lframe :: "'a lstate_scheme \<Rightarrow> 'a lstate_scheme \<Rightarrow> bool" where
  "lframe s s' \<longleftrightarrow> (\<exists>B D H K. s' = s\<lparr>bufs := B, disk := D, dhist := H, klog := K\<rparr>)"

lemma frame_lframe: "frame s s' \<Longrightarrow> lframe (s :: 'a lstate_scheme) s'"
  unfolding frame_def lframe_def
  by (elim exE) (rule exI, rule exI [of _ "disk s"], rule exI [of _ "dhist s"], rule exI [of _ "klog s"], simp)

lemma lframe_trans [trans]:
  assumes "lframe s t" and "lframe t u"
  shows "lframe s u"
  using assms unfolding lframe_def by (elim exE) (simp, blast)

lemma lframe_refl [simp]: "lframe s s"
  by (rule frame_lframe) simp

lemma lframeI: "s' = s\<lparr>bufs := B, disk := D, dhist := H, klog := K\<rparr> \<Longrightarrow> lframe s s'"
  unfolding lframe_def by blast

lemma bwrite_lframe: "bwrite_post s n s' \<Longrightarrow> lframe (s :: 'a lstate_scheme) s'"
  unfolding bwrite_post_def by (elim conjE, rule lframeI [where B = "bufs s"]) simp

lemma lframe_fields:
  assumes "lframe s s'"
  shows "log_start s' = log_start s" "log_size s' = log_size s" "log_dev s' = log_dev s" "lh_n s' = lh_n s"
    "lh_block s' = lh_block s" "log_outstanding s' = log_outstanding s" "log_committing s' = log_committing s"
    "curpid s' = curpid s" "src_block s' = src_block s" "raid_writes s' = raid_writes s"
    "raid_usable s' = raid_usable s" "force_disk_fail_id s' = force_disk_fail_id s"
    "force_read_error_pbn s' = force_read_error_pbn s" "lstate.more s' = lstate.more s"
    "mem s' = mem s" "freelist s' = freelist s" "kend s' = kend s"
proof -
  obtain B D H K where e: "s' = s\<lparr>bufs := B, disk := D, dhist := H, klog := K\<rparr>"
    using assms unfolding lframe_def by blast
  show "log_start s' = log_start s" "log_size s' = log_size s" "log_dev s' = log_dev s" "lh_n s' = lh_n s"
    "lh_block s' = lh_block s" "log_outstanding s' = log_outstanding s" "log_committing s' = log_committing s"
    "curpid s' = curpid s" "force_disk_fail_id s' = force_disk_fail_id s"
    "force_read_error_pbn s' = force_read_error_pbn s" "lstate.more s' = lstate.more s"
    "mem s' = mem s" "freelist s' = freelist s" "kend s' = kend s"
    by (simp_all add: e)
  show "src_block s' = src_block s" "raid_writes s' = raid_writes s" "raid_usable s' = raid_usable s"
    unfolding src_block_def should_use_mirror_def pbn_error_def raid_writes_def raid_usable_def
    by (simp_all add: e cong: if_cong)
qed

text \<open>
  A cache between operations: no lock is held, the references of each block are \<open>R\<close>, and every block
  outside \<open>Dt\<close> agrees with the disk.
\<close>

definition quiet :: "(nat \<Rightarrow> nat) \<Rightarrow> nat set \<Rightarrow> 'a lstate_scheme \<Rightarrow> bool" where
  "quiet R Dt s \<longleftrightarrow> binv s \<and> lock_of s = (\<lambda>_. None) \<and> rc s = R \<and> (\<forall>n. blk_ok (view s n)) \<and>
     (\<forall>n < LOGICAL_DISK_SIZE. raid_usable s n) \<and>
     (\<forall>n < LOGICAL_DISK_SIZE. n \<notin> Dt \<longrightarrow> view s n = disk s (src_block s n)) \<and> log_dev s = ROOTDEV"

definition wrote :: "'a lstate_scheme \<Rightarrow> (nat \<times> bytes) list \<Rightarrow> 'a lstate_scheme \<Rightarrow> bool" where
  "wrote s lw s' \<longleftrightarrow> lframe s s' \<and> disk s' = apply_writes (raid.phys s lw) (disk s) \<and>
     dhist s' = dhist s @ raid.phys s lw"

lemma phys_lframe: "lframe s s' \<Longrightarrow> raid.phys s' lw = raid.phys s lw"
  by (simp add: raid.phys_def lframe_fields)

lemma wrote_refl [simp]: "wrote s [] s"
  by (simp add: wrote_def)

lemma wrote_trans: "wrote s us t \<Longrightarrow> wrote t ws u \<Longrightarrow> wrote s (us @ ws) u"
  unfolding wrote_def using lframe_trans phys_lframe [of s t ws] by auto

lemma quiet_disk:
  assumes "quiet R Dt s" and "wrote s [(a, d)] s'" and "m < LOGICAL_DISK_SIZE" and "a < LOGICAL_DISK_SIZE"
  shows "disk s' (src_block s m) = (if m = a then d else disk s (src_block s m))"
  using raid.read_after_write [of a s d "disk s"] raid.read_other [of a m s d "disk s" s] assms
  by (auto simp: wrote_def quiet_def)

text \<open>Two blocks in hand: the common prefix of both copying loops.\<close>

lemma two_breads:
  assumes q: "quiet R Dt s" and lt: "a < LOGICAL_DISK_SIZE" "c < LOGICAL_DISK_SIZE" and ne: "a \<noteq> c"
    and R: "R a = 0" "R c < 4294967295" and free: "(if R c = 0 then 2 else 1) \<le> nfree s"
  obtains b1 s1 b2 s2 where "bread ROOTDEV a s = Inr (b1, s1)" "bread ROOTDEV c s1 = Inr (b2, s2)"
    "frame s s1" "frame s1 s2" "binv s2" "owns s2 b1 a" "owns s2 b2 c" "view s2 = view s"
    "rc s2 = R(a := 1, c := Suc (R c))" "lock_of s2 = (\<lambda>_. None)(a := Some (curpid s), c := Some (curpid s))"
    "bdata s2 b1 = view s a" "bdata s2 b2 = view s c" "b1 \<noteq> b2"
proof -
  have Q: "binv s" "lock_of s = (\<lambda>_. None)" "rc s = R" using q by (simp_all add: quiet_def)
  have "returns (bread ROOTDEV a s) (\<lambda>(b, s'). bread_post s a b s')"
    using Q R lt free by (intro bread_returns) (auto split: if_splits)
  then obtain b1 s1 where 1: "bread ROOTDEV a s = Inr (b1, s1)" "bread_post s a b1 s1" by (auto simp: returns_iff)
  have p1: "frame s s1" "binv s1" "owns s1 b1 a" "view s1 = view s" "rc s1 = R(a := 1)"
    "lock_of s1 = (\<lambda>_. None)(a := Some (curpid s))" "nfree s1 = nfree s - 1"
    using 1(2) Q R by (simp_all add: bread_post_def)
  have "returns (bread ROOTDEV c s1) (\<lambda>(b, s'). bread_post s1 c b s')"
    using p1 R lt ne free by (intro bread_returns) (auto split: if_splits)
  then obtain b2 s2 where 2: "bread ROOTDEV c s1 = Inr (b2, s2)" "bread_post s1 c b2 s2" by (auto simp: returns_iff)
  have p2: "frame s1 s2" "binv s2" "owns s2 b2 c" "view s2 = view s" "rc s2 = R(a := 1, c := Suc (R c))"
    "lock_of s2 = (\<lambda>_. None)(a := Some (curpid s), c := Some (curpid s))"
    using 2(2) p1 ne by (simp_all add: bread_post_def frame_fields)
  have "cached s2 b1 a" using 2(2) p1(3,5) by (simp add: bread_post_def owns_def)
  then have o1: "owns s2 b1 a"
    using owns_keep [OF p1(2,3) p2(2)] p1 p2 ne frame_fields(5) [OF p2(1)] by simp
  have "b1 \<noteq> b2" using o1 p2(3) ne by (auto simp: owns_def cached_def)
  then show ?thesis
    using that [OF 1(1) 2(1) p1(1) p2(1,2) o1 p2(3-6)] owns_abs(1) [OF p2(2) o1] owns_abs(1) [OF p2(2,3)] p2(4)
    by simp
qed

lemma quiet_nfree:
  assumes "quiet R Dt s"
  shows "nfree s = NBUF - card {n. 0 < R n}"
  using nfree_rc [of s] assms by (simp add: quiet_def)

lemma set_bwrite:
  assumes "binv s" and "owns s b n" and "raid_usable s n"
  obtains s' where "bwrite b (set_bdata b d s) = Inr s'" "lframe s s'" "binv s'" "view s' = (view s)(n := d)"
    "rc s' = rc s" "lock_of s' = lock_of s" "\<forall>c m. owns s c m \<longrightarrow> owns s' c m"
    "disk s' (src_block s n) = d" "disk s' = apply_writes (raid_writes s n d) (disk s)"
    "dhist s' = dhist s @ raid_writes s n d" "curpid s' = curpid s" "src_block s' = src_block s"
proof -
  let ?s = "set_bdata b d s"
  note s3 = set_bdata_owned [OF assms(1,2), of d]
  note F = lframe_fields [OF frame_lframe [OF s3(1)]] frame_fields [OF s3(1)]
  obtain s' where s': "bwrite b ?s = Inr s'" "bwrite_post ?s n s'"
    using bwrite_returns [OF s3(2,3)] by (auto simp: returns_iff)
  note W = bwrite_postD [OF s'(2)]
  have "owns s' c m" if "owns s c m" for c m
  proof -
    have "owns ?s c m"
      by (rule owns_keep [OF assms(1) that s3(2)]) (use that s3 F in \<open>simp_all add: owns_def\<close>)
    then show ?thesis using W(9) by simp
  qed
  moreover have "lframe s s'" using lframe_trans [OF frame_lframe [OF s3(1)] bwrite_lframe [OF s'(2)]] .
  ultimately show ?thesis using that [OF s'(1)] W s3 F assms(3) by simp
qed

lemma write_log_body_returns:
  assumes q: "quiet R Dt s" and lt: "a < LOGICAL_DISK_SIZE" "c < LOGICAL_DISK_SIZE" and ne: "a \<noteq> c"
    and R: "R a = 0" "0 < R c" "R c < 4294967295" and free: "0 < nfree s"
    and a: "u32_of_int (log_start s + int tail + 1) = a" and c: "u32_of_int (lh_block s tail) = c"
  shows "returns (write_log_body tail s) (\<lambda>s'. quiet R Dt s' \<and>
    view s' = (view s)(a := view s c) \<and> wrote s [(a, view s c)] s')"
proof -
  have Q: "\<And>n. blk_ok (view s n)" "raid_usable s a" "log_dev s = ROOTDEV" using q lt by (simp_all add: quiet_def)
  have fr: "(if R c = 0 then 2 else 1) \<le> nfree s" using R free by simp
  obtain b1 s1 b2 s2 where 1: "bread ROOTDEV a s = Inr (b1, s1)" "bread ROOTDEV c s1 = Inr (b2, s2)"
    and f: "frame s s1" "frame s1 s2" and s2: "binv s2" "owns s2 b1 a" "owns s2 b2 c" "view s2 = view s"
    "rc s2 = R(a := 1, c := Suc (R c))" "lock_of s2 = (\<lambda>_. None)(a := Some (curpid s), c := Some (curpid s))"
    "bdata s2 b1 = view s a" "bdata s2 b2 = view s c" "b1 \<noteq> b2"
    by (rule two_breads [OF q lt ne R(1,3) fr])
  have d: "blit (bdata s2 b1) 0 (bdata s2 b2) 0 BSIZE = view s c" using s2 Q(1) by (simp add: blk_ok_blit)
  have lf2: "lframe s s1" "lframe s s2" using frame_lframe f frame_trans by blast+
  note F = lframe_fields [OF lf2(1)] lframe_fields [OF lf2(2)] frame_fields [OF frame_trans [OF f]]
  have "raid_usable s2 a" using Q(2) F by simp
  from set_bwrite [OF s2(1,2) this, of "view s c"]
  obtain s4 where 4: "bwrite b1 (set_bdata b1 (view s c) s2) = Inr s4"
    and s4: "lframe s2 s4" "binv s4" "view s4 = (view s2)(a := view s c)" "rc s4 = rc s2" "lock_of s4 = lock_of s2"
    "\<forall>c m. owns s2 c m \<longrightarrow> owns s4 c m" "disk s4 (src_block s2 a) = view s c"
    "disk s4 = apply_writes (raid_writes s2 a (view s c)) (disk s2)"
    "dhist s4 = dhist s2 @ raid_writes s2 a (view s c)" "curpid s4 = curpid s2" "src_block s4 = src_block s2" .
  obtain s5 where 5: "brelse b2 s4 = Inr s5" "brelse_post s4 c s5"
    using brelse_returns [OF s4(2) s4(6) [rule_format, OF s2(3)]] s4(4) s2(5) R by (auto simp: returns_iff)
  have s5: "binv s5" "view s5 = view s4" "rc s5 = R(a := 1)" "lock_of s5 = (\<lambda>_. None)(a := Some (curpid s))"
    "frame s4 s5" using 5(2) s4 s2 ne by (auto simp: brelse_post_def fun_upd_twist)
  note F5 = frame_fields [OF s5(5)]
  have "cached s5 b1 a" using 5(2) s4(6) [rule_format, OF s2(2)] by (simp add: brelse_post_def owns_def)
  then have o1: "owns s5 b1 a" using owns_keep [OF s4(2) s4(6) [rule_format, OF s2(2)] s5(1)] s5(4) s4(5) s2(6) F5 ne by simp
  obtain s6 where 6: "brelse b1 s5 = Inr s6" "brelse_post s5 a s6"
    using brelse_returns [OF s5(1) o1] s5(2) s4 F5 by (auto simp: returns_iff)
  have s6: "binv s6" "view s6 = (view s)(a := view s c)" "rc s6 = R" "lock_of s6 = (\<lambda>_. None)" "frame s5 s6"
    using 6(2) s5 s4(3) s2(4) R(1) by (auto simp: brelse_post_def fun_upd_idem)
  note F6 = frame_fields [OF s6(5)]
  have lf: "lframe s s6"
    using lframe_trans [OF lframe_trans [OF lf2(2) s4(1)] frame_lframe [OF frame_trans [OF s5(5) s6(5)]]] .
  have w: "wrote s [(a, view s c)] s6" using lf s4 F F5 F6 by (simp add: wrote_def)
  have q6: "quiet R Dt s6"
    using q s6 lframe_fields [OF lf] quiet_disk [OF q w _ lt(1)] by (auto simp: quiet_def)
  have "write_log_body tail s = Inr s6"
    using 1 4 5(1) 6(1) a c F Q(3) d by (simp add: write_log_body_def)
  then show ?thesis using q6 s6(2) w by simp
qed

text \<open>Installing a pinned block: the pin and the buffer are given back.\<close>

lemma install_body_returns:
  assumes q: "quiet R Dt s" and lt: "a < LOGICAL_DISK_SIZE" "c < LOGICAL_DISK_SIZE" and ne: "a \<noteq> c"
    and R: "R a = 0" "R c = 1" and free: "0 < nfree s"
    and a: "u32_of_int (log_start s + int tail + 1) = a" and c: "u32_of_int (lh_block s tail) = c" and D: "a \<notin> Dt"
  shows "returns (install_body tail s) (\<lambda>s'. quiet (R(c := 0)) (Dt - {c}) s' \<and>
    view s' = (view s)(c := view s a) \<and> wrote s [(c, view s a)] s')"
proof -
  have Q: "\<And>n. blk_ok (view s n)" "raid_usable s c" "log_dev s = ROOTDEV" "view s a = disk s (src_block s a)"
    using q lt D by (simp_all add: quiet_def)
  have fr: "(if R c = 0 then 2 else 1) \<le> nfree s" "R c < 4294967295" using R free by simp_all
  obtain b1 s1 b2 s2 where 1: "bread ROOTDEV a s = Inr (b1, s1)" "bread ROOTDEV c s1 = Inr (b2, s2)"
    and f: "frame s s1" "frame s1 s2" and s2: "binv s2" "owns s2 b1 a" "owns s2 b2 c" "view s2 = view s"
    "rc s2 = R(a := 1, c := Suc (R c))" "lock_of s2 = (\<lambda>_. None)(a := Some (curpid s), c := Some (curpid s))"
    "bdata s2 b1 = view s a" "bdata s2 b2 = view s c" "b1 \<noteq> b2"
    by (rule two_breads [OF q lt ne R(1) fr(2,1)])
  have d: "blit (bdata s2 b2) 0 (bdata s2 b1) 0 BSIZE = view s a" using s2 Q(1) by (simp add: blk_ok_blit)
  have lf2: "lframe s s1" "lframe s s2" using frame_lframe f frame_trans by blast+
  note F = lframe_fields [OF lf2(1)] lframe_fields [OF lf2(2)] frame_fields [OF frame_trans [OF f]]
  have "raid_usable s2 c" using Q(2) F by simp
  from set_bwrite [OF s2(1,3) this, of "view s a"]
  obtain s4 where 4: "bwrite b2 (set_bdata b2 (view s a) s2) = Inr s4"
    and s4: "lframe s2 s4" "binv s4" "view s4 = (view s2)(c := view s a)" "rc s4 = rc s2" "lock_of s4 = lock_of s2"
    "\<forall>c m. owns s2 c m \<longrightarrow> owns s4 c m" "disk s4 (src_block s2 c) = view s a"
    "disk s4 = apply_writes (raid_writes s2 c (view s a)) (disk s2)"
    "dhist s4 = dhist s2 @ raid_writes s2 c (view s a)" "curpid s4 = curpid s2" "src_block s4 = src_block s2" .
  let ?s5 = "bunpin b2 s4"
  have "1 < rc s4 c" using s4(4) s2(5) R by simp
  note s5 = bunpin_owned [OF s4(2) s4(6) [rule_format, OF s2(3)] this]
  note F5 = frame_fields [OF s5(1)]
  have rc5: "rc ?s5 = R(a := 1)" using s5(5) s4(4) s2(5) R ne by (auto simp: fun_upd_twist)
  have o1: "owns ?s5 b1 a"
    by (rule owns_keep [OF s4(2) s4(6) [rule_format, OF s2(2)] s5(2)])
      (use s4(6) [rule_format, OF s2(2)] s5(6,8) F5 in \<open>simp_all add: owns_def\<close>)
  have da: "disk s4 (src_block s2 a) = disk s (src_block s a)"
    using raid.read_other [of c a s2 "view s a" "disk s2" s2] lt ne s4(8) F by simp
  obtain s6 where 6: "brelse b1 ?s5 = Inr s6" "brelse_post ?s5 a s6"
    using brelse_returns [OF s5(2) o1] s5(4) s4 s2(4) F5 da Q(4) ne by (auto simp: returns_iff)
  have s6: "binv s6" "view s6 = view s4" "rc s6 = R" "lock_of s6 = (\<lambda>_. None)(c := Some (curpid s))" "frame ?s5 s6"
    using 6(2) s5(1-4,6) rc5 R s4(5) s2(6) ne by (auto simp: brelse_post_def fun_upd_twist fun_upd_idem)
  note F6 = frame_fields [OF s6(5)]
  have o2: "owns s6 b2 c"
    by (rule owns_keep [OF s5(2,3) s6(1)])
      (use 6(2) s5(3,6) s4(5) s2(6) s6(4) F6 ne in \<open>simp_all add: brelse_post_def owns_def\<close>)
  obtain s7 where 7: "brelse b2 s6 = Inr s7" "brelse_post s6 c s7"
    using brelse_returns [OF s6(1) o2] s6(2) s4 F5 F6 by (auto simp: returns_iff)
  have s7: "binv s7" "view s7 = (view s)(c := view s a)" "rc s7 = R(c := 0)" "lock_of s7 = (\<lambda>_. None)" "frame s6 s7"
    using 7(2) s6 s4(3) s2(4) R by (auto simp: brelse_post_def fun_upd_idem)
  note F7 = frame_fields [OF s7(5)]
  have lf: "lframe s s7"
    using lframe_trans [OF lframe_trans [OF lf2(2) s4(1)] frame_lframe [OF frame_trans [OF frame_trans [OF s5(1) s6(5)] s7(5)]]] .
  have w: "wrote s [(c, view s a)] s7" using lf s4 F F5 F6 F7 by (simp add: wrote_def)
  have q7: "quiet (R(c := 0)) (Dt - {c}) s7"
    using q s7 lframe_fields [OF lf] quiet_disk [OF q w _ lt(2)] by (auto simp: quiet_def)
  have "install_body tail s = Inr s7"
    using 1 4 6(1) 7(1) a c F Q(3) d by (simp add: install_body_def Let_def)
  then show ?thesis using q7 s7(2) w by simp
qed

lemma write_head_returns:
  assumes q: "quiet R Dt s" and st: "u32_of_int (log_start s) = st" "st < LOGICAL_DISK_SIZE" "R st = 0"
    and free: "0 < nfree s" and n: "lh_n s \<le> LOGSIZE"
  defines "h \<equiv> put_head (view s st) (lh_n s) (lh_block s)"
  shows "returns (write_head s) (\<lambda>s'. quiet R Dt s' \<and> view s' = (view s)(st := h) \<and> wrote s [(st, h)] s')"
proof -
  have Q: "\<And>n. blk_ok (view s n)" "raid_usable s st" "log_dev s = ROOTDEV" "binv s" "lock_of s = (\<lambda>_. None)" "rc s = R"
    using q st by (simp_all add: quiet_def)
  have "returns (bread ROOTDEV st s) (\<lambda>(b, s'). bread_post s st b s')"
    using Q st free by (intro bread_returns) auto
  then obtain b s1 where 1: "bread ROOTDEV st s = Inr (b, s1)" "bread_post s st b s1" by (auto simp: returns_iff)
  have s1: "frame s s1" "binv s1" "owns s1 b st" "view s1 = view s" "rc s1 = R(st := 1)"
    "lock_of s1 = (\<lambda>_. None)(st := Some (curpid s))" "bdata s1 b = view s st"
    using 1(2) Q st owns_abs(1) [of s1 b st] by (simp_all add: bread_post_def)
  note F = lframe_fields [OF frame_lframe [OF s1(1)]] frame_fields [OF s1(1)]
  have "raid_usable s1 st" using Q(2) F by simp
  from set_bwrite [OF s1(2,3) this, of h]
  obtain s4 where 4: "bwrite b (set_bdata b h s1) = Inr s4"
    and s4: "lframe s1 s4" "binv s4" "view s4 = (view s1)(st := h)" "rc s4 = rc s1" "lock_of s4 = lock_of s1"
    "\<forall>c m. owns s1 c m \<longrightarrow> owns s4 c m" "disk s4 (src_block s1 st) = h"
    "disk s4 = apply_writes (raid_writes s1 st h) (disk s1)" "dhist s4 = dhist s1 @ raid_writes s1 st h"
    "curpid s4 = curpid s1" "src_block s4 = src_block s1" .
  obtain s5 where 5: "brelse b s4 = Inr s5" "brelse_post s4 st s5"
    using brelse_returns [OF s4(2) s4(6) [rule_format, OF s1(3)]] s4 by (auto simp: returns_iff)
  have s5: "binv s5" "view s5 = (view s)(st := h)" "rc s5 = R" "lock_of s5 = (\<lambda>_. None)" "frame s4 s5"
    using 5(2) s4 s1 st by (auto simp: brelse_post_def fun_upd_idem)
  note F5 = frame_fields [OF s5(5)]
  have lf: "lframe s s5"
    using lframe_trans [OF lframe_trans [OF frame_lframe [OF s1(1)] s4(1)] frame_lframe [OF s5(5)]] .
  have w: "wrote s [(st, h)] s5" using lf s4 F F5 by (simp add: wrote_def)
  have "blk_ok h" using blk_ok_put_head [OF Q(1) n] by (simp add: h_def)
  then have "quiet R Dt s5"
    using q s5 lframe_fields [OF lf] quiet_disk [OF q w _ st(2)] by (auto simp: quiet_def)
  moreover have "write_head s = Inr s5"
    using 1 4 5(1) st F Q(3) s1(7) by (simp add: write_head_def h_def Let_def)
  ultimately show ?thesis using s5(2) w by simp
qed

section \<open>commit\<close>

definition txn_block :: "'a lstate_scheme \<Rightarrow> nat \<Rightarrow> nat" where
  "txn_block s i = u32_of_int (lh_block s i)"

definition txn_blocks :: "'a lstate_scheme \<Rightarrow> nat list" where
  "txn_blocks s = map (txn_block s) [0..<nat (lh_n s)]"

definition home :: "'a lstate_scheme \<Rightarrow> nat set" where
  "home s = {m. m < LOGICAL_DISK_SIZE \<and> (int m < log_start s \<or> log_start s + LOGSIZE \<le> int m)}"

text \<open>The log area lies on the logical disk, and its header block is block \<open>log_start\<close>.\<close>

definition log_geometry :: "'a lstate_scheme \<Rightarrow> bool" where
  "log_geometry s \<longleftrightarrow> 0 \<le> log_start s \<and> log_start s + LOGSIZE \<le> int LOGICAL_DISK_SIZE \<and> log_size s \<le> LOGSIZE"

text \<open>A state in which \<^verbatim>\<open>end_op\<close> may commit: no buffer is locked and exactly the blocks of the transaction are pinned.\<close>

definition commit_ready :: "'a lstate_scheme \<Rightarrow> bool" where
  "commit_ready s \<longleftrightarrow> quiet (\<lambda>n. of_bool (n \<in> set (txn_blocks s))) (set (txn_blocks s)) s \<and>
     log_geometry s \<and> 0 \<le> lh_n s \<and> lh_n s < LOGSIZE \<and> distinct (txn_blocks s) \<and> set (txn_blocks s) \<subseteq> home s \<and>
     (\<forall>i < nat (lh_n s). 0 \<le> lh_block s i \<and> lh_block s i < int LOGICAL_DISK_SIZE)"

definition txn_redo :: "(nat \<Rightarrow> nat) \<Rightarrow> 'a lstate_scheme \<Rightarrow> redo" where
  "txn_redo src s = \<lparr>r_start = nat (log_start s), r_blocks = txn_blocks s, r_data = map (view s) (txn_blocks s),
     r_hdr = put_head (view s (nat (log_start s))) (lh_n s) (lh_block s), r_home = home s, r_old = (\<lambda>m. disk s (src m))\<rparr>"

lemma log_addr:
  assumes "log_geometry s" and "i < 29"
  shows "u32_of_int (log_start s + int i + 1) = Suc (nat (log_start s) + i)"
    and "Suc (nat (log_start s) + i) < LOGICAL_DISK_SIZE" and "Suc (nat (log_start s) + i) \<notin> home s"
  using assms
  by (auto simp: log_geometry_def u32_of_int_def home_def LOGSIZE_def LOGICAL_DISK_SIZE_def FSSIZE_def nat_add_distrib)

lemma log_addr_head:
  assumes "log_geometry s"
  shows "u32_of_int (log_start s) = nat (log_start s)" and "nat (log_start s) < LOGICAL_DISK_SIZE"
    and "nat (log_start s) \<notin> home s"
  using assms by (auto simp: log_geometry_def u32_of_int_def home_def LOGSIZE_def LOGICAL_DISK_SIZE_def FSSIZE_def)

lemma upt_split:
  assumes "[0..<n] = us @ x # vs"
  shows "x < n" and "us = [0..<x]"
proof -
  have l: "length us < n" using arg_cong [OF assms, of length] by simp
  have "[0..<n] ! length us = x" using assms by simp
  then have x: "x = length us" using l by simp
  then show "x < n" using l by simp
  have "take (length us) [0..<n] = us" using assms by simp
  then show "us = [0..<x]" using x l by (simp add: take_upt)
qed

lemma card_pinned: "card {n. 0 < (of_bool (n \<in> A) :: nat)} = card A"
  by simp

lemma write_log_returns:
  assumes c: "commit_ready s"
  defines "f \<equiv> (\<lambda>j. (Suc (nat (log_start s) + j), view s (txn_block s j)))"
    and "P \<equiv> set (txn_blocks s)" and "n \<equiv> nat (lh_n s)"
  shows "returns (write_log s) (\<lambda>s'. quiet (\<lambda>m. of_bool (m \<in> P)) P s' \<and>
    view s' = apply_writes (map f [0..<n]) (view s) \<and> wrote s (map f [0..<n]) s')"
proof -
  let ?R = "\<lambda>m. of_bool (m \<in> P) :: nat"
  let ?I = "\<lambda>us s'. quiet ?R P s' \<and> view s' = apply_writes (map f us) (view s) \<and> wrote s (map f us) s'"
  have C: "quiet ?R P s" "log_geometry s" "n < 30" "P \<subseteq> home s" "length (txn_blocks s) = n" "P = set (txn_blocks s)"
    using c by (auto simp: commit_ready_def P_def n_def LOGSIZE_def txn_blocks_def)
  have cardP: "card P \<le> 29" using card_length [of "txn_blocks s"] C by simp
  have "returns (foldE write_log_body [0..<n] s) (?I [0..<n])"
  proof (rule foldE_returns)
    show "?I [] s" using C(1) by simp
    fix us x vs s'
    assume "[0..<n] = us @ x # vs" and I: "?I us s'"
    note x = upt_split [OF this(1)]
    have lf: "lframe s s'" using I by (simp add: wrote_def)
    note F = lframe_fields [OF lf]
    let ?a = "Suc (nat (log_start s) + x)" and ?c = "txn_block s x"
    have cP: "?c \<in> P" using x by (simp add: P_def txn_blocks_def n_def)
    have x29: "x < 29" using x(1) C(3) by simp
    have a: "?a \<notin> home s" "?a < LOGICAL_DISK_SIZE" "u32_of_int (log_start s + int x + 1) = ?a"
      using log_addr [OF C(2) x29] by simp_all
    have ch: "?c \<in> home s" "?c < LOGICAL_DISK_SIZE" using cP C(4) by (auto simp: home_def)
    have vc: "view s' ?c = view s ?c"
    proof -
      have "?c \<notin> fst ` set (map f us)"
        using ch(1) log_addr(3) [OF C(2)] x C(3) by (auto simp: f_def)
      then show ?thesis using I by (simp add: apply_writes_other)
    qed
    have "nfree s' = NBUF - card P" using quiet_nfree [of ?R P s'] I by simp
    then have free: "0 < nfree s'" using cardP by (simp add: NBUF_def)
    have "returns (write_log_body x s') (\<lambda>t. quiet ?R P t \<and> view t = (view s')(?a := view s' ?c) \<and>
        wrote s' [(?a, view s' ?c)] t)"
      by (rule write_log_body_returns)
        (use I a ch C(4) cP free F in \<open>auto simp: txn_block_def\<close>)
    then show "returns (write_log_body x s') (?I (us @ [x]))"
      by (rule returns_mono) (use I vc wrote_trans in \<open>auto simp: f_def\<close>)
  qed
  then show ?thesis by (simp add: write_log_def n_def)
qed

lemma install_trans_returns:
  fixes s :: "'a lstate_scheme"
  assumes q: "quiet (\<lambda>m. of_bool (m \<in> set (txn_blocks s))) (set (txn_blocks s)) s" and g: "log_geometry s"
    and n: "lh_n s < LOGSIZE" and d: "distinct (txn_blocks s)" and h: "set (txn_blocks s) \<subseteq> home s"
    and logd: "\<And>j. j < nat (lh_n s) \<Longrightarrow> view s (Suc (nat (log_start s) + j)) = view s (txn_block s j)"
  defines "f \<equiv> (\<lambda>j. (txn_block s j, view s (txn_block s j)))"
  shows "returns (install_trans s) (\<lambda>s'. quiet (\<lambda>_. 0) {} s' \<and> view s' = view s \<and>
    wrote s (map f [0..<nat (lh_n s)]) s')"
proof -
  let ?n = "nat (lh_n s)" and ?P = "set (txn_blocks s)" and ?b = "txn_block s"
  let ?L = "\<lambda>us. ?P - ?b ` set us"
  let ?I = "\<lambda>us s'. quiet (\<lambda>m. of_bool (m \<in> ?L us)) (?L us) s' \<and> view s' = view s \<and> wrote s (map f us) s'"
  have n30: "?n < 30" using n by (simp add: LOGSIZE_def)
  have len: "length (txn_blocks s) = ?n" by (simp add: txn_blocks_def)
  have inj: "inj_on ?b {0..<?n}" using d by (simp add: txn_blocks_def distinct_map)
  have "returns (foldE install_body [0..<?n] s) (?I [0..<?n])"
  proof (rule foldE_returns)
    show "?I [] s" using q by simp
    fix us x vs s'
    assume "[0..<?n] = us @ x # vs" and I: "?I us s'"
    note x = upt_split [OF this(1)]
    have lf: "lframe s s'" using I by (simp add: wrote_def)
    note F = lframe_fields [OF lf]
    let ?a = "Suc (nat (log_start s) + x)" and ?c = "?b x"
    have "?c \<notin> ?b ` set us" using inj_on_image_mem_iff [OF inj, of x "{0..<x}"] x by simp
    then have cL: "?c \<in> ?L us" using x by (simp add: txn_blocks_def)
    have x29: "x < 29" using x(1) n30 by simp
    have a: "?a \<notin> home s" "?a < LOGICAL_DISK_SIZE" "u32_of_int (log_start s + int x + 1) = ?a"
      using log_addr [OF g x29] by simp_all
    have ch: "?c \<in> home s" "?c < LOGICAL_DISK_SIZE" using cL h by (auto simp: home_def)
    have "card (?L us) \<le> card ?P" by (rule card_mono) auto
    also have "\<dots> \<le> 29" using card_length [of "txn_blocks s"] len n30 by simp
    finally have "card {m. m \<in> ?L us} \<le> 29" by (simp only: Collect_mem_eq)
    moreover have "nfree s' = NBUF - card {m. 0 < (of_bool (m \<in> ?L us) :: nat)}" using quiet_nfree I by blast
    ultimately have free: "0 < nfree s'" by (simp add: NBUF_def)
    have L': "(?L us) - {?c} = ?L (us @ [x])" by auto
    have R': "(\<lambda>m. of_bool (m \<in> ?L us))(?c := 0) = (\<lambda>m. of_bool (m \<in> ?L (us @ [x])) :: nat)" by auto
    have "returns (install_body x s') (\<lambda>t. quiet ((\<lambda>m. of_bool (m \<in> ?L us))(?c := 0)) (?L us - {?c}) t \<and>
        view t = (view s')(?c := view s' ?a) \<and> wrote s' [(?c, view s' ?a)] t)"
      by (rule install_body_returns)
        (use I a ch h cL free F in \<open>auto simp: txn_block_def\<close>)
    moreover have "view s' ?a = view s ?c" using I logd [OF x(1)] by simp
    ultimately show "returns (install_body x s') (?I (us @ [x]))"
      unfolding L' R' by (elim returns_mono) (use I wrote_trans in \<open>auto simp: f_def fun_upd_idem\<close>)
  qed
  moreover have e: "?L [0..<?n] = {}" by (auto simp: txn_blocks_def)
  ultimately show ?thesis unfolding install_trans_def e by simp
qed

lemma commit_returns:
  fixes src :: "nat \<Rightarrow> nat"
  assumes c: "commit_ready s" and pos: "0 < lh_n s"
  defines "r \<equiv> txn_redo src s" and "st \<equiv> nat (log_start s)"
  defines "hz \<equiv> put_int (r_hdr r) 0 0"
  shows "returns (commit s) (\<lambda>s'. quiet (\<lambda>_. 0) {} s' \<and> lh_n s' = 0 \<and>
    (\<forall>m \<in> home s. view s' m = view s m) \<and> hdr_n (view s' st) = 0 \<and>
    (\<exists>t. s' = t\<lparr>lh_n := 0\<rparr> \<and> wrote s (commit_writes r hz) t))"
proof -
  let ?P = "set (txn_blocks s)" and ?n = "nat (lh_n s)"
  let ?f = "\<lambda>j. (Suc (st + j), view s (txn_block s j))" and ?g = "\<lambda>j. (txn_block s j, view s (txn_block s j))"
  have C: "quiet (\<lambda>m. of_bool (m \<in> ?P)) ?P s" "log_geometry s" "?n < 30" "?P \<subseteq> home s" "distinct (txn_blocks s)"
    "lh_n s < LOGSIZE" "0 \<le> lh_n s"
    using c by (auto simp: commit_ready_def LOGSIZE_def)
  note st = log_addr_head [OF C(2), folded st_def]
  have cardP: "card ?P \<le> 29" using card_length [of "txn_blocks s"] C(3) by (simp add: txn_blocks_def)
  obtain s1 where 1: "write_log s = Inr s1" "quiet (\<lambda>m. of_bool (m \<in> ?P)) ?P s1"
    "view s1 = apply_writes (map ?f [0..<?n]) (view s)" "wrote s (map ?f [0..<?n]) s1"
    using write_log_returns [OF c] by (auto simp: returns_iff st_def)
  have lf1: "lframe s s1" using 1(4) by (simp add: wrote_def)
  note F1 = lframe_fields [OF lf1]
  have v1st: "view s1 st = view s st" unfolding 1(3) by (rule apply_writes_other) auto
  have v1h: "view s1 m = view s m" if "m \<in> home s" for m
    unfolding 1(3) using log_addr(3) [OF C(2), folded st_def] C(3) that by (intro apply_writes_other) auto
  have v1l: "view s1 (Suc (st + j)) = view s (txn_block s j)" if "j < ?n" for j
    unfolding 1(3) by (rule apply_writes_const) (use that in \<open>auto simp: image_image\<close>)
  let ?h = "r_hdr r"
  have h: "?h = put_head (view s1 st) (lh_n s1) (lh_block s1)" using v1st F1 by (simp add: r_def txn_redo_def st_def)
  have free1: "0 < nfree s1" using quiet_nfree [OF 1(2)] cardP by (simp add: NBUF_def)
  have stP: "st \<notin> ?P" using st(3) C(4) by blast
  obtain s2 where 2: "write_head s1 = Inr s2" "quiet (\<lambda>m. of_bool (m \<in> ?P)) ?P s2"
    "view s2 = (view s1)(st := ?h)" "wrote s1 [(st, ?h)] s2"
    using write_head_returns [OF 1(2), of st] F1 st free1 stP C(6) unfolding h by (auto simp: returns_iff)
  have w2: "wrote s (map ?f [0..<?n] @ [(st, ?h)]) s2" by (rule wrote_trans [OF 1(4) 2(4)])
  then have lf2: "lframe s s2" by (simp add: wrote_def)
  note F2 = lframe_fields [OF lf2]
  have tb2: "txn_blocks s2 = txn_blocks s" "txn_block s2 = txn_block s" "home s2 = home s" "log_geometry s2"
    using F2 C(2) by (simp_all add: txn_blocks_def txn_block_def home_def log_geometry_def fun_eq_iff)
  have v2: "view s2 m = view s m" if "m \<in> home s" for m using 2(3) v1h st(3) that by auto
  have bh: "j < ?n \<Longrightarrow> txn_block s j \<in> home s" for j using C(4) by (auto simp: txn_blocks_def)
  have v2l: "view s2 (Suc (nat (log_start s2) + j)) = view s2 (txn_block s2 j)" if "j < nat (lh_n s2)" for j
    using 2(3) v1l [of j] v2 [OF bh [of j]] that F2 tb2(2) by (simp add: st_def)
  obtain s3 where 3: "install_trans s2 = Inr s3" "quiet (\<lambda>_. 0) {} s3" "view s3 = view s2"
    "wrote s2 (map (\<lambda>j. (txn_block s j, view s2 (txn_block s j))) [0..<?n]) s3"
    using install_trans_returns [of s2] 2(2) tb2 F2 C(4-6) v2l by (auto simp: returns_iff)
  have g3: "map (\<lambda>j. (txn_block s j, view s2 (txn_block s j))) [0..<?n] = map ?g [0..<?n]"
    using v2 bh by simp
  have w3: "wrote s (map ?f [0..<?n] @ [(st, ?h)] @ map ?g [0..<?n]) s3"
    using wrote_trans [OF w2 3(4) [unfolded g3]] by simp
  then have lf3: "lframe s s3" by (simp add: wrote_def)
  note F3 = lframe_fields [OF lf3]
  let ?s3 = "s3\<lparr>lh_n := 0\<rparr>"
  have q3: "quiet (\<lambda>_. 0) {} ?s3" using 3(2) by (simp add: quiet_def)
  have v3st: "view s3 st = ?h" using 3(3) 2(3) by simp
  have free3: "0 < nfree ?s3" using quiet_nfree [OF q3] by (simp add: NBUF_def)
  have hz: "put_head (view ?s3 st) (lh_n ?s3) (lh_block ?s3) = hz" by (simp add: put_head_0 v3st hz_def)
  obtain s4 where 4: "write_head ?s3 = Inr s4" "quiet (\<lambda>_. 0) {} s4" "view s4 = (view s3)(st := hz)"
    "wrote ?s3 [(st, hz)] s4"
    using write_head_returns [OF q3, of st] F3 st free3 hz by (auto simp: returns_iff LOGSIZE_def)
  have l4: "log_writes r = map ?f [0..<?n]" "home_writes r = map ?g [0..<?n]" "r_start r = st"
    by (auto simp: log_writes_def home_writes_def r_def txn_redo_def txn_blocks_def st_def intro!: nth_equalityI simp del: upt_Suc)
  obtain B D H K where e4: "s4 = ?s3\<lparr>bufs := B, disk := D, dhist := H, klog := K\<rparr>"
    using 4(4) unfolding wrote_def lframe_def by blast
  define t where "t = s3\<lparr>bufs := B, disk := D, dhist := H, klog := K\<rparr>"
  have s4t: "s4 = t\<lparr>lh_n := 0\<rparr>" by (simp add: e4 t_def)
  have "wrote s3 [(st, hz)] t"
    using 4(4) by (auto simp: wrote_def e4 t_def raid.phys_def intro: lframeI)
  then have "wrote s (commit_writes r hz) t"
    using wrote_trans [OF w3] by (simp add: commit_writes_def l4)
  moreover have "commit s = Inr s4" using pos 1(1) 2(1) 3(1) 4(1) by (simp add: commit_def)
  moreover have "lh_n s4 = 0" using s4t by simp
  moreover have "\<forall>m \<in> home s. view s4 m = view s m" using 4(3) 3(3) v2 st(3) by auto
  moreover have "hdr_n (view s4 st) = 0" using 4(3) by (simp add: hz_def hdr_n_put_int_0)
  ultimately show ?thesis using 4(2) s4t by auto
qed

section \<open>Recovery\<close>

text \<open>
  In \<^verbatim>\<open>recover_from_log\<close> the home blocks are not pinned, but \<^verbatim>\<open>install_trans\<close> calls \<^verbatim>\<open>bunpin\<close> for them
  all the same: the count drops to zero under the lock and the following \<^verbatim>\<open>brelse\<close> wraps it around
  to \<open>2 ^ 32 - 1\<close>. The contents that reach the disk are not affected.
\<close>

definition LEAKED :: nat where "LEAKED = 4294967295"

lemma upd_buf_twice:
  "upd_buf b f (upd_buf b g s) = upd_buf b (\<lambda>x. f (g x)) s"
  "b \<noteq> c \<Longrightarrow> upd_buf b f (upd_buf c g s) = upd_buf c g (upd_buf b f s)"
  by (simp_all add: upd_buf_def fun_upd_twist)

lemma upd_links_commute:
  assumes "\<And>x v. f (x\<lparr>b_next := v\<rparr>) = (f x)\<lparr>b_next := v\<rparr>" and "\<And>x v. f (x\<lparr>b_prev := v\<rparr>) = (f x)\<lparr>b_prev := v\<rparr>"
  shows "set_bnext a v (upd_buf c f s) = upd_buf c f (set_bnext a v s)"
    and "set_bprev a v (upd_buf c f s) = upd_buf c f (set_bprev a v s)"
  by (cases "a = c"; simp add: set_bnext_def set_bprev_def upd_buf_twice assms)+

lemma to_front_upd:
  assumes "\<And>x v. f (x\<lparr>b_next := v\<rparr>) = (f x)\<lparr>b_next := v\<rparr>" and "\<And>x v. f (x\<lparr>b_prev := v\<rparr>) = (f x)\<lparr>b_prev := v\<rparr>"
    and "\<And>x. b_next (f x) = b_next x" and "\<And>x. b_prev (f x) = b_prev x"
  shows "to_front b (upd_buf c f s) = upd_buf c f (to_front b s)"
proof -
  have n: "b_next (bufs (upd_buf c f t) i) = b_next (bufs t i)" "b_prev (bufs (upd_buf c f t) i) = b_prev (bufs t i)" for t i
    using assms(3,4) by simp_all
  show ?thesis
    unfolding to_front_def Let_def n upd_links_commute [OF assms(1,2)] ..
qed

lemma release_leak:
  assumes "binv s" and "owns s b n" and "0 < r" and "r < 4294967296"
  defines "s' \<equiv> upd_buf b (\<lambda>x. x\<lparr>b_lock := releasesleep (b_lock x), b_refcnt := r\<rparr>) s"
  shows "frame s s'" and "binv s'" and "view s' = view s" and "rc s' = (rc s)(n := r)"
    and "lock_of s' = (lock_of s)(n := None)" and "cached s' c m = cached s c m"
proof -
  have cb: "cached s b n" using assms(2) by (simp add: owns_def)
  show c: "cached s' i m = cached s i m" for i m by (auto simp: cached_def s'_def)
  have src: "src_block s' = src_block s" by (simp add: s'_def)
  note A = abs_same_names [where s = s and s' = s', OF binvD(2) [OF assms(1)] c cb]
  note o = owns_abs [OF assms(1,2)]
  show "frame s s'" by (simp add: s'_def frame_upd_buf)
  show "view s' = view s" using o by (subst A(1)) (simp_all add: s'_def fun_upd_idem)
  show "rc s' = (rc s)(n := r)" using o by (subst A(2)) (simp_all add: s'_def)
  show "lock_of s' = (lock_of s)(n := None)" using o by (subst A(3)) (simp_all add: s'_def releasesleep_def)
  have ok: "buf_ok s' i" if "i < NBUF" for i
    using binvD(3) [OF assms(1) that] assms(2-4) src by (auto simp: buf_ok_def s'_def owns_def)
  have u: "uniq s'" using binvD(2) [OF assms(1)] unfolding uniq_def c .
  obtain xs where "lru s xs" using binvD(1) [OF assms(1)] ..
  then have "lru s' xs" by (rule lru_same_links) (auto simp: s'_def)
  with u ok show "binv s'" unfolding binv_def by blast
qed

lemma brelse_zero:
  assumes "holdingsleep (curpid s) (b_lock (bufs s b))" and "b_refcnt (bufs s b) = 0"
  shows "brelse b s = Inr (upd_buf b (\<lambda>x. x\<lparr>b_lock := releasesleep (b_lock x), b_refcnt := u32_dec (b_refcnt x)\<rparr>) s)"
  using assms by (simp add: brelse_def upd_buf_twice Let_def u32_dec_def cong: if_cong)

text \<open>The last three calls of \<^verbatim>\<open>install_trans\<close> when the home buffer has just the one reference of its \<^verbatim>\<open>bread\<close>.\<close>

lemma unpin_underflow:
  assumes inv: "binv s" and o1: "owns s b1 a" and o2: "owns s b2 c" and ne: "b1 \<noteq> b2" and r: "b_refcnt (bufs s b2) = 1"
  defines "u \<equiv> upd_buf b2 (\<lambda>x. x\<lparr>b_lock := releasesleep (b_lock x), b_refcnt := LEAKED\<rparr>) s"
  shows "bindE (brelse b1 (bunpin b2 s)) (brelse b2) = brelse b1 u"
proof -
  let ?g = "\<lambda>x. x\<lparr>b_lock := releasesleep (b_lock x), b_refcnt := u32_dec (b_refcnt x)\<rparr>"
  let ?h = "\<lambda>x. x\<lparr>b_refcnt := u32_dec (b_refcnt x)\<rparr>"
  let ?s5 = "bunpin b2 s" and ?k = "b_refcnt (bufs s b1)"
  have o5: "owns ?s5 b1 a" using o1 ne by (simp add: owns_def cached_def bunpin_def)
  have ou: "owns u b1 a" using o1 ne by (simp add: owns_def cached_def u_def)
  let ?F = "\<lambda>t. if u32_dec ?k = 0 then to_front b1 (upd_buf b1 ?g t) else upd_buf b1 ?g t"
  have b1: "brelse b1 ?s5 = Inr (?F ?s5)" "brelse b1 u = Inr (?F u)"
    using brelse_eq [OF o5] brelse_eq [OF ou] ne by (simp_all add: bunpin_def u_def)
  have lk: "holdingsleep (curpid s) (b_lock (bufs s b2))" using o2 by (simp add: owns_def)
  have cp: "curpid (?F ?s5) = curpid s"
    by (simp add: bunpin_def frame_fields(5) [OF frame_to_front])
  have f6: "b_lock (bufs (?F ?s5) b2) = b_lock (bufs s b2)" "b_refcnt (bufs (?F ?s5) b2) = 0"
    using ne r by (simp_all add: bunpin_def u32_dec_def)
  have "brelse b2 (?F ?s5) = Inr (upd_buf b2 ?g (?F ?s5))"
    by (rule brelse_zero) (simp_all only: cp f6 lk)
  also have "upd_buf b2 ?g (?F ?s5) = ?F (upd_buf b2 ?g ?s5)"
    using ne by (simp add: to_front_upd upd_buf_twice(2))
  also have "upd_buf b2 ?g ?s5 = u"
    using r by (simp add: bunpin_def u_def upd_buf_def u32_dec_def LEAKED_def)
  finally show ?thesis using b1 by simp
qed

lemma install_body_recover:
  assumes q: "quiet R {} s" and lt: "a < LOGICAL_DISK_SIZE" "c < LOGICAL_DISK_SIZE" and ne: "a \<noteq> c"
    and R: "R a = 0" "R c = 0" and free: "2 \<le> nfree s"
    and a: "u32_of_int (log_start s + int tail + 1) = a" and c: "u32_of_int (lh_block s tail) = c"
  shows "returns (install_body tail s) (\<lambda>s'. quiet (R(c := LEAKED)) {} s' \<and>
    view s' = (view s)(c := view s a) \<and> wrote s [(c, view s a)] s')"
proof -
  have Q: "\<And>n. blk_ok (view s n)" "raid_usable s c" "log_dev s = ROOTDEV" "view s a = disk s (src_block s a)"
    using q lt by (simp_all add: quiet_def)
  have fr: "(if R c = 0 then 2 else 1) \<le> nfree s" "R c < 4294967295" using R free by simp_all
  obtain b1 s1 b2 s2 where 1: "bread ROOTDEV a s = Inr (b1, s1)" "bread ROOTDEV c s1 = Inr (b2, s2)"
    and f: "frame s s1" "frame s1 s2" and s2: "binv s2" "owns s2 b1 a" "owns s2 b2 c" "view s2 = view s"
    "rc s2 = R(a := 1, c := Suc (R c))" "lock_of s2 = (\<lambda>_. None)(a := Some (curpid s), c := Some (curpid s))"
    "bdata s2 b1 = view s a" "bdata s2 b2 = view s c" "b1 \<noteq> b2"
    by (rule two_breads [OF q lt ne R(1) fr(2,1)])
  have d: "blit (bdata s2 b2) 0 (bdata s2 b1) 0 BSIZE = view s a" using s2 Q(1) by (simp add: blk_ok_blit)
  have lf2: "lframe s s1" "lframe s s2" using frame_lframe f frame_trans by blast+
  note F = lframe_fields [OF lf2(1)] lframe_fields [OF lf2(2)] frame_fields [OF frame_trans [OF f]]
  have "raid_usable s2 c" using Q(2) F by simp
  from set_bwrite [OF s2(1,3) this, of "view s a"]
  obtain s4 where 4: "bwrite b2 (set_bdata b2 (view s a) s2) = Inr s4"
    and s4: "lframe s2 s4" "binv s4" "view s4 = (view s2)(c := view s a)" "rc s4 = rc s2" "lock_of s4 = lock_of s2"
    "\<forall>c m. owns s2 c m \<longrightarrow> owns s4 c m" "disk s4 (src_block s2 c) = view s a"
    "disk s4 = apply_writes (raid_writes s2 c (view s a)) (disk s2)"
    "dhist s4 = dhist s2 @ raid_writes s2 c (view s a)" "curpid s4 = curpid s2" "src_block s4 = src_block s2" .
  have o: "owns s4 b1 a" "owns s4 b2 c" using s4(6) s2(2,3) by simp_all
  define u where "u = upd_buf b2 (\<lambda>x. x\<lparr>b_lock := releasesleep (b_lock x), b_refcnt := LEAKED\<rparr>) s4"
  note U = release_leak [OF s4(2) o(2), of LEAKED, folded u_def]
  have Up: "0 < LEAKED" "LEAKED < 4294967296" by (simp_all add: LEAKED_def)
  note U = U [OF Up]
  note FU = frame_fields [OF U(1)]
  have "b_refcnt (bufs s4 b2) = 1" using owns_abs(2) [OF s4(2) o(2)] s4(4) s2(5) R by simp
  from unpin_underflow [OF s4(2) o s2(9) this]
  have under: "bindE (brelse b1 (bunpin b2 s4)) (brelse b2) = brelse b1 u" by (simp add: u_def)
  have lu: "lock_of u = (\<lambda>_. None)(a := Some (curpid s))" using U(5) s4(5) s2(6) ne by (auto simp: fun_upd_twist)
  have ru: "rc u = R(a := 1, c := LEAKED)" using U(4) s4(4) s2(5) by simp
  have ou: "owns u b1 a"
    by (rule owns_keep [OF s4(2) o(1) U(2)]) (use o(1) U(6) lu s4(5) s2(6) ne FU in \<open>simp_all add: owns_def\<close>)
  have da: "disk s4 (src_block s2 a) = disk s (src_block s a)"
    using raid.read_other [of c a s2 "view s a" "disk s2" s2] lt ne s4(8) F by simp
  obtain s6 where 6: "brelse b1 u = Inr s6" "brelse_post u a s6"
    using brelse_returns [OF U(2) ou] U(3) s4 s2(4) FU da Q(4) ne by (auto simp: returns_iff)
  have s6: "binv s6" "view s6 = (view s)(c := view s a)" "rc s6 = R(c := LEAKED)" "lock_of s6 = (\<lambda>_. None)" "frame u s6"
    using 6(2) U(3) s4(3) s2(4) ru lu R ne by (auto simp: brelse_post_def fun_upd_twist fun_upd_idem)
  note F6 = frame_fields [OF s6(5)]
  have lf: "lframe s s6"
    using lframe_trans [OF lframe_trans [OF lf2(2) s4(1)] frame_lframe [OF frame_trans [OF U(1) s6(5)]]] .
  have w: "wrote s [(c, view s a)] s6" using lf s4 F FU F6 by (simp add: wrote_def)
  have q6: "quiet (R(c := LEAKED)) {} s6"
    using q s6 lframe_fields [OF lf] quiet_disk [OF q w _ lt(2)] by (auto simp: quiet_def)
  have "install_body tail s = Inr s6"
    using 1 4 under 6(1) a c F Q(3) d by (simp add: install_body_def Let_def)
  then show ?thesis using q6 s6(2) w by simp
qed

lemma fold_lh_block:
  "fold (\<lambda>i s. s\<lparr>lh_block := (lh_block s)(i := h i)\<rparr>) [0..<k] s
    = s\<lparr>lh_block := (\<lambda>i. if i < k then h i else lh_block s i)\<rparr>"
proof (induction k)
  case (Suc k)
  then show ?case by (intro lstate.equality) (auto simp: less_Suc_eq fun_eq_iff)
qed simp

lemma read_head_returns:
  assumes q: "quiet (\<lambda>_. 0) {} s" and g: "log_geometry s" and h: "hdr_n (view s (nat (log_start s))) \<le> LOGSIZE"
  defines "H \<equiv> view s (nat (log_start s))"
  shows "returns (read_head s) (\<lambda>s'. quiet (\<lambda>_. 0) {} s' \<and> view s' = view s \<and>
    (\<exists>B. s' = s\<lparr>bufs := B, lh_n := hdr_n H, lh_block := (\<lambda>i. if i < nat (hdr_n H) then hdr_block H i else lh_block s i)\<rparr>))"
proof -
  note st = log_addr_head [OF g]
  have Q: "binv s" "lock_of s = (\<lambda>_. None)" "rc s = (\<lambda>_. 0)" "log_dev s = ROOTDEV" using q by (simp_all add: quiet_def)
  have "0 < nfree s" using quiet_nfree [OF q] by (simp add: NBUF_def)
  then have "returns (bread ROOTDEV (nat (log_start s)) s) (\<lambda>(b, s'). bread_post s (nat (log_start s)) b s')"
    using Q st by (intro bread_returns) auto
  then obtain b s1 where 1: "bread ROOTDEV (nat (log_start s)) s = Inr (b, s1)" "bread_post s (nat (log_start s)) b s1"
    by (auto simp: returns_iff)
  have s1: "frame s s1" "binv s1" "owns s1 b (nat (log_start s))" "view s1 = view s" "rc s1 = (\<lambda>_. 0)(nat (log_start s) := 1)"
    "lock_of s1 = (\<lambda>_. None)(nat (log_start s) := Some (curpid s))" "bdata s1 b = H"
    using 1(2) Q owns_abs(1) [of s1 b "nat (log_start s)"] by (simp_all add: bread_post_def H_def)
  define s2 where "s2 = s1\<lparr>lh_n := hdr_n H, lh_block := (\<lambda>i. if i < nat (hdr_n H) then hdr_block H i else lh_block s1 i)\<rparr>"
  note F = frame_fields [OF s1(1)] lframe_fields [OF frame_lframe [OF s1(1)]]
  have v: "view s2 (nat (log_start s)) = disk s2 (src_block s2 (nat (log_start s)))"
    using q s1(4) F st(2) by (simp add: s2_def quiet_def)
  have s2: "binv s2" "owns s2 b (nat (log_start s))" using s1 by (simp_all add: s2_def)
  obtain s3 where 3: "brelse b s2 = Inr s3" "brelse_post s2 (nat (log_start s)) s3"
    using brelse_returns [OF s2] v by (auto simp: returns_iff)
  have s3: "binv s3" "view s3 = view s" "rc s3 = (\<lambda>_. 0)" "lock_of s3 = (\<lambda>_. None)" "frame s2 s3"
    using 3(2) s1 by (auto simp: brelse_post_def s2_def)
  note F3 = frame_fields [OF s3(5)] lframe_fields [OF frame_lframe [OF s3(5)]]
  have q3: "quiet (\<lambda>_. 0) {} s3"
    using q s3 F3 F by (simp add: quiet_def s2_def)
  have r: "read_head s = Inr s3"
    using 1(1) 3(1) st(1) Q(4) s1(7) h by (simp add: read_head_def fold_lh_block s2_def H_def Let_def cong: if_cong)
  obtain B where B: "s1 = s\<lparr>bufs := B\<rparr>" using s1(1) unfolding frame_def by blast
  obtain B' where "s3 = s2\<lparr>bufs := B'\<rparr>" using s3(5) unfolding frame_def by blast
  then have "s3 = s\<lparr>bufs := B', lh_n := hdr_n H, lh_block := (\<lambda>i. if i < nat (hdr_n H) then hdr_block H i else lh_block s i)\<rparr>"
    by (simp add: s2_def B cong: if_cong)
  then show ?thesis using r q3 s3(2) by auto
qed

lemma install_trans_recover:
  fixes s :: "'a lstate_scheme"
  assumes q: "quiet (\<lambda>_. 0) {} s" and g: "log_geometry s" and n: "lh_n s < LOGSIZE"
    and d: "distinct (txn_blocks s)" and h: "set (txn_blocks s) \<subseteq> home s"
  defines "f \<equiv> (\<lambda>j. (txn_block s j, view s (Suc (nat (log_start s) + j))))"
  shows "returns (install_trans s) (\<lambda>s'. quiet (\<lambda>m. if m \<in> set (txn_blocks s) then LEAKED else 0) {} s' \<and>
    view s' = apply_writes (map f [0..<nat (lh_n s)]) (view s) \<and> wrote s (map f [0..<nat (lh_n s)]) s')"
proof -
  let ?n = "nat (lh_n s)" and ?b = "txn_block s"
  let ?R = "\<lambda>us m. if m \<in> ?b ` set us then LEAKED else 0"
  let ?I = "\<lambda>us s'. quiet (?R us) {} s' \<and> view s' = apply_writes (map f us) (view s) \<and> wrote s (map f us) s'"
  have n30: "?n < 30" using n by (simp add: LOGSIZE_def)
  have inj: "inj_on ?b {0..<?n}" using d by (simp add: txn_blocks_def distinct_map)
  have bh: "j < ?n \<Longrightarrow> ?b j \<in> home s" for j using h by (auto simp: txn_blocks_def)
  have "returns (foldE install_body [0..<?n] s) (?I [0..<?n])"
  proof (rule foldE_returns)
    show "?I [] s" using q by simp
    fix us x vs s'
    assume "[0..<?n] = us @ x # vs" and I: "?I us s'"
    note x = upt_split [OF this(1)]
    have lf: "lframe s s'" using I by (simp add: wrote_def)
    note F = lframe_fields [OF lf]
    let ?a = "Suc (nat (log_start s) + x)" and ?c = "?b x"
    have cL: "?c \<notin> ?b ` set us" using inj_on_image_mem_iff [OF inj, of x "{0..<x}"] x by simp
    have x29: "x < 29" using x(1) n30 by simp
    have a: "?a \<notin> home s" "?a < LOGICAL_DISK_SIZE" "u32_of_int (log_start s + int x + 1) = ?a"
      using log_addr [OF g x29] by simp_all
    have ch: "?c \<in> home s" "?c < LOGICAL_DISK_SIZE" using bh [OF x(1)] by (auto simp: home_def)
    have aL: "?a \<notin> ?b ` set us" using a(1) bh x by auto
    have va: "view s' ?a = view s ?a"
      using I aL by (auto simp: f_def image_image intro!: apply_writes_other)
    have "{m. 0 < ?R us m} = ?b ` set us" by (auto simp: LEAKED_def)
    then have "card {m. 0 < ?R us m} \<le> x" using card_image_le [of "set us" ?b] x by simp
    moreover have "nfree s' = NBUF - card {m. 0 < ?R us m}" using quiet_nfree I by blast
    ultimately have free: "2 \<le> nfree s'" using x29 by (simp add: NBUF_def)
    have R': "(?R us)(?c := LEAKED) = ?R (us @ [x])" by (auto simp: fun_eq_iff)
    have "returns (install_body x s') (\<lambda>t. quiet ((?R us)(?c := LEAKED)) {} t \<and>
        view t = (view s')(?c := view s' ?a) \<and> wrote s' [(?c, view s' ?a)] t)"
      by (rule install_body_recover)
        (use I a ch aL cL free F in \<open>auto simp: txn_block_def\<close>)
    then show "returns (install_body x s') (?I (us @ [x]))"
      unfolding R' va by (elim returns_mono) (use I wrote_trans in \<open>auto simp: f_def\<close>)
  qed
  moreover have "?b ` set [0..<?n] = set (txn_blocks s)" by (simp add: txn_blocks_def)
  ultimately show ?thesis unfolding install_trans_def by simp
qed

text \<open>The transaction that a disk header describes.\<close>

definition hdr_blocks :: "bytes \<Rightarrow> nat list" where
  "hdr_blocks h = map (\<lambda>i. u32_of_int (hdr_block h i)) [0..<nat (hdr_n h)]"

definition hdr_valid :: "nat set \<Rightarrow> bytes \<Rightarrow> bool" where
  "hdr_valid hm h \<longleftrightarrow> 0 \<le> hdr_n h \<and> hdr_n h < LOGSIZE \<and> distinct (hdr_blocks h) \<and> set (hdr_blocks h) \<subseteq> hm"

lemma raid_writes_bufs [simp]: "raid_writes (s\<lparr>bufs := B\<rparr>) = raid_writes s"
  by (intro ext) (simp add: raid_writes_def pbn_error_def)

lemma recover_returns:
  fixes s :: "'a lstate_scheme"
  assumes q: "quiet (\<lambda>_. 0) {} s" and g: "log_geometry s" and v: "hdr_valid (home s) (view s (nat (log_start s)))"
  defines "st \<equiv> nat (log_start s)"
  defines "w \<equiv> recover_writes st (view s)" and "bl \<equiv> hdr_blocks (view s st)"
  shows "returns (recover_from_log s) (\<lambda>s'. quiet (\<lambda>m. if m \<in> set bl then LEAKED else 0) {} s' \<and> lh_n s' = 0 \<and>
    view s' = apply_writes w (view s) \<and> disk s' = apply_writes (raid.phys s w) (disk s) \<and>
    dhist s' = dhist s @ raid.phys s w \<and> nfree s' = NBUF - length bl)"
proof -
  let ?H = "view s st"
  note sta = log_addr_head [OF g, folded st_def]
  have V: "0 \<le> hdr_n ?H" "hdr_n ?H < 30" "distinct bl" "set bl \<subseteq> home s" "length bl = nat (hdr_n ?H)"
    using v by (simp_all add: hdr_valid_def st_def bl_def LOGSIZE_def hdr_blocks_def)
  have hl: "hdr_n (view s (nat (log_start s))) \<le> LOGSIZE" using v by (simp add: hdr_valid_def)
  obtain s1 B where 1: "read_head s = Inr s1" "quiet (\<lambda>_. 0) {} s1" "view s1 = view s"
    and e1: "s1 = s\<lparr>bufs := B, lh_n := hdr_n ?H, lh_block := (\<lambda>i. if i < nat (hdr_n ?H) then hdr_block ?H i else lh_block s i)\<rparr>"
    using read_head_returns [OF q g hl] unfolding returns_iff st_def [symmetric] by blast
  have F1: "log_start s1 = log_start s" "log_size s1 = log_size s" "lh_n s1 = hdr_n ?H" "disk s1 = disk s" "dhist s1 = dhist s"
    "\<And>i. i < nat (hdr_n ?H) \<Longrightarrow> lh_block s1 i = hdr_block ?H i" "raid_writes s1 = raid_writes s"
    by (simp_all add: e1)
  have tb: "txn_blocks s1 = bl" "\<And>i. i < nat (hdr_n ?H) \<Longrightarrow> txn_block s1 i = u32_of_int (hdr_block ?H i)"
    using F1 by (simp_all add: txn_blocks_def txn_block_def bl_def hdr_blocks_def)
  have hg: "home s1 = home s" "log_geometry s1" using F1 g by (simp_all add: home_def log_geometry_def)
  have ph: "raid.phys s1 lw = raid.phys s lw" for lw by (simp add: raid.phys_def F1)
  let ?f = "\<lambda>j. (txn_block s1 j, view s1 (Suc (nat (log_start s1) + j)))"
  let ?lw = "map ?f [0..<nat (lh_n s1)]"
  have lw: "?lw = map (\<lambda>i. (u32_of_int (hdr_block ?H i), view s (Suc (st + i)))) [0..<nat (hdr_n ?H)]"
    using F1 tb 1(3) by (simp add: st_def)
  let ?R = "\<lambda>m. if m \<in> set bl then LEAKED else 0"
  obtain s2 where 2: "install_trans s1 = Inr s2" "quiet ?R {} s2" "view s2 = apply_writes ?lw (view s1)" "wrote s1 ?lw s2"
    using install_trans_recover [OF 1(2)] hg F1 V tb by (auto simp: returns_iff LOGSIZE_def)
  have lf2: "lframe s1 s2" using 2(4) by (simp add: wrote_def)
  note F2 = lframe_fields [OF lf2]
  let ?s3 = "s2\<lparr>lh_n := 0\<rparr>"
  have q3: "quiet ?R {} ?s3" using 2(2) by (simp add: quiet_def)
  have stn: "st \<notin> set bl" using V(4) sta(3) by blast
  have "{m. 0 < ?R m} = set bl" by (auto simp: LEAKED_def)
  then have cardR: "card {m. 0 < ?R m} = length bl" using distinct_card [OF V(3)] by simp
  have free: "0 < nfree ?s3" using quiet_nfree [OF q3] cardR V(2,5) by (simp add: NBUF_def)
  have vst: "view s2 st = ?H"
  proof -
    have "st \<notin> fst ` set ?lw" using stn unfolding lw by (auto simp: bl_def hdr_blocks_def)
    from apply_writes_other [OF this, of "view s1"] show ?thesis using 2(3) 1(3) by simp
  qed
  have hz: "put_head (view ?s3 st) (lh_n ?s3) (lh_block ?s3) = put_int ?H 0 0" by (simp add: put_head_0 vst)
  obtain s4 where 4: "write_head ?s3 = Inr s4" "quiet ?R {} s4" "view s4 = (view s2)(st := put_int ?H 0 0)"
    "wrote ?s3 [(st, put_int ?H 0 0)] s4"
    using write_head_returns [OF q3, of st] F2 F1 sta free hz stn by (auto simp: returns_iff LOGSIZE_def)
  have w: "w = ?lw @ [(st, put_int ?H 0 0)]" by (simp add: w_def recover_writes_def lw)
  have lf4: "lframe ?s3 s4" using 4(4) by (simp add: wrote_def)
  have n4: "nfree s4 = NBUF - length bl" using quiet_nfree [OF 4(2)] cardR by simp
  have ph3: "raid.phys ?s3 lw = raid.phys s lw" for lw
    using F1 F2 by (simp add: raid.phys_def)
  have "disk s4 = apply_writes (raid.phys s w) (disk s)" "dhist s4 = dhist s @ raid.phys s w"
    using 4(4) 2(4) F1 unfolding wrote_def ph ph3 w by simp_all
  moreover have "view s4 = apply_writes w (view s)" using 4(3) 2(3) 1(3) w by simp
  moreover have "lh_n s4 = 0" using lframe_fields(4) [OF lf4] by simp
  moreover have "recover_from_log s = Inr s4" using 1(1) 2(1) 4(1) by (simp add: recover_from_log_def)
  ultimately show ?thesis using 4(2) n4 by simp
qed

section \<open>Crash atomicity\<close>

text \<open>
  A machine \<open>t\<close> that boots after \<open>s\<close> crashed: empty cache, the same log area, and either the same failure
  simulation in force, or none when \<open>s\<close> wrote; both copies of the disk agreed before the transaction
  where \<open>t\<close> reads another one.
\<close>

definition reboot :: "'a lstate_scheme \<Rightarrow> 'a lstate_scheme \<Rightarrow> bool" where
  "reboot s t \<longleftrightarrow> quiet (\<lambda>_. 0) {} t \<and> log_start t = log_start s \<and> log_size t = log_size s \<and>
     (force_disk_fail_id t = force_disk_fail_id s \<and> force_read_error_pbn t = force_read_error_pbn s \<or>
      (\<forall>n < LOGICAL_DISK_SIZE. raid_healthy s n)) \<and>
     (\<forall>m < LOGICAL_DISK_SIZE. disk s (src_block t m) = disk s (src_block s m))"

definition ldisk :: "'a lstate_scheme \<Rightarrow> (nat \<Rightarrow> bytes) \<Rightarrow> nat \<Rightarrow> bytes" where
  "ldisk t D = (\<lambda>m. D (src_block t m))"

text \<open>
  A machine that boots under the settings of \<open>t\<close>, with its cache empty. A recovery on such a machine that is cut short by the next
  crash: a prefix of the writes that \<^verbatim>\<open>recover_from_log\<close> itself has sent to the disk \<open>D\<close>.
\<close>

definition boots_as :: "'a lstate_scheme \<Rightarrow> 'a lstate_scheme \<Rightarrow> bool" where
  "boots_as t u \<longleftrightarrow> quiet (\<lambda>_. 0) {} u \<and> log_start u = log_start t \<and> log_size u = log_size t \<and>
     force_disk_fail_id u = force_disk_fail_id t \<and> force_read_error_pbn u = force_read_error_pbn t"

inductive crash_step :: "'a lstate_scheme \<Rightarrow> (nat \<Rightarrow> bytes) \<Rightarrow> (nat \<Rightarrow> bytes) \<Rightarrow> bool" for t where
  crash: "boots_as t u \<Longrightarrow> recover_from_log u = Inr u' \<Longrightarrow> dhist u' = dhist u @ ws \<Longrightarrow>
    crash_step t (disk u) (apply_writes (take k ws) (disk u))"

inductive_cases crash_stepE: "crash_step t D D'"

lemma boots_as_fields:
  assumes "boots_as t u"
  shows "src_block u = src_block t" "raid_writes u = raid_writes t" "raid.phys u lw = raid.phys t lw"
proof -
  have f: "force_disk_fail_id u = force_disk_fail_id t" "force_read_error_pbn u = force_read_error_pbn t"
    using assms by (simp_all add: boots_as_def)
  show "src_block u = src_block t" by (simp add: fun_eq_iff src_block_def should_use_mirror_def pbn_error_def f)
  show r: "raid_writes u = raid_writes t" by (simp add: fun_eq_iff raid_writes_def pbn_error_def f)
  show "raid.phys u lw = raid.phys t lw" by (simp add: raid.phys_def r)
qed

definition txn_writes :: "'a lstate_scheme \<Rightarrow> (nat \<times> bytes) list" where
  "txn_writes s = commit_writes (txn_redo (src_block s) s) (put_int (r_hdr (txn_redo (src_block s) s)) 0 0)"

definition crashable :: "'a lstate_scheme \<Rightarrow> 'a lstate_scheme \<Rightarrow> bool" where
  "crashable s t \<longleftrightarrow> commit_ready s \<and> hdr_n (view s (nat (log_start s))) = 0 \<and> reboot s t"

definition crash_init :: "'a lstate_scheme \<Rightarrow> 'a lstate_scheme \<Rightarrow> (nat \<Rightarrow> bytes) \<Rightarrow> bool" where
  "crash_init s t D \<longleftrightarrow> crashable s t \<and> (\<exists>k. D = apply_writes (take k (raid.phys s (txn_writes s))) (disk s))"

definition crash_inv :: "'a lstate_scheme \<Rightarrow> 'a lstate_scheme \<Rightarrow> (nat \<Rightarrow> bytes) \<Rightarrow> bool" where
  "crash_inv s t D \<longleftrightarrow> crashable s t \<and> p_any (txn_redo (src_block t) s) (ldisk t D)"

lemma txn_redo_ok:
  assumes "crashable s t"
  shows "redo_ok (txn_redo (src_block t) s)"
proof -
  have c: "commit_ready s" using assms by (simp add: crashable_def)
  have C: "log_geometry s" "distinct (txn_blocks s)" "set (txn_blocks s) \<subseteq> home s" "0 \<le> lh_n s" "lh_n s < 30"
    "quiet (\<lambda>n. of_bool (n \<in> set (txn_blocks s))) (set (txn_blocks s)) s"
    "\<And>i. i < nat (lh_n s) \<Longrightarrow> 0 \<le> lh_block s i \<and> lh_block s i < 2147483648"
    using c by (auto simp: commit_ready_def LOGSIZE_def LOGICAL_DISK_SIZE_def FSSIZE_def)
  note st = log_addr_head [OF C(1)]
  have "nat (log_start s) \<notin> set (txn_blocks s)" using st(3) C(3) by blast
  then have "view s (nat (log_start s)) = disk s (src_block s (nat (log_start s)))"
    using C(6) st(2) by (simp add: quiet_def)
  also have "\<dots> = disk s (src_block t (nat (log_start s)))"
    using assms st(2) by (simp add: crashable_def reboot_def)
  finally have h0: "hdr_n (disk s (src_block t (nat (log_start s)))) = 0" using assms by (simp add: crashable_def)
  have hm: "\<forall>n \<in> home s. n < nat (log_start s) \<or> nat (log_start s) + length (txn_blocks s) < n"
    using C(1,4,5) by (auto simp: home_def txn_blocks_def log_geometry_def LOGSIZE_def)
  show ?thesis
    using C h0 hm hdr_put_head [of "lh_n s"]
    by (simp add: redo_ok_def txn_redo_def) (simp add: txn_blocks_def txn_block_def)
qed

lemma txn_writes_eq: "txn_writes s = commit_writes (txn_redo src s) (put_int (r_hdr (txn_redo src s)) 0 0)"
  by (simp add: txn_writes_def commit_writes_def log_writes_def home_writes_def txn_redo_def)

lemma reboot_covers:
  assumes "reboot s t" and "commit_ready s" and "n < LOGICAL_DISK_SIZE"
  shows "src_block t n \<in> fst ` set (raid_writes s n d)"
proof (cases "\<forall>n < LOGICAL_DISK_SIZE. raid_healthy s n")
  case True
  then show ?thesis using raid.reaches_all [of n s t d] assms(3) by simp
next
  case False
  then have f: "force_disk_fail_id t = force_disk_fail_id s" "force_read_error_pbn t = force_read_error_pbn s"
    using assms(1) unfolding reboot_def by blast+
  have "src_block t n = src_block s n" by (simp add: src_block_def should_use_mirror_def pbn_error_def f)
  then show ?thesis using raid.served [of n s d] assms(2,3) by (simp add: commit_ready_def quiet_def)
qed

lemma redo_in_range:
  assumes "crashable s t"
  defines "r \<equiv> txn_redo (src_block t) s"
  shows "r_home r \<subseteq> {..<LOGICAL_DISK_SIZE}" and "r_start r \<in> {..<LOGICAL_DISK_SIZE}"
    and "i < length (r_blocks r) \<Longrightarrow> Suc (r_start r + i) \<in> {..<LOGICAL_DISK_SIZE}"
    and "set (r_blocks r) \<subseteq> {..<LOGICAL_DISK_SIZE}"
proof -
  have C: "log_geometry s" "set (txn_blocks s) \<subseteq> home s" "lh_n s < 30"
    using assms(1) by (auto simp: crashable_def commit_ready_def LOGSIZE_def)
  show "r_home r \<subseteq> {..<LOGICAL_DISK_SIZE}" by (auto simp: r_def txn_redo_def home_def)
  show "r_start r \<in> {..<LOGICAL_DISK_SIZE}" using log_addr_head(2) [OF C(1)] by (simp add: r_def txn_redo_def)
  show "i < length (r_blocks r) \<Longrightarrow> Suc (r_start r + i) \<in> {..<LOGICAL_DISK_SIZE}"
    using log_addr(2) [OF C(1), of i] C(3) by (simp add: r_def txn_redo_def txn_blocks_def)
  show "set (r_blocks r) \<subseteq> {..<LOGICAL_DISK_SIZE}" using C(2) by (auto simp: r_def txn_redo_def home_def)
qed

lemma crash_init_inv:
  assumes "crash_init s t D"
  shows "crash_inv s t D"
proof -
  define r where "r = txn_redo (src_block t) s"
  define hz where "hz = put_int (r_hdr r) 0 0"
  have ct: "crashable s t" using assms by (simp add: crash_init_def)
  obtain k where D: "D = apply_writes (take k (raid.phys s (commit_writes r hz))) (disk s)"
    using assms by (auto simp: crash_init_def txn_writes_eq [of s "src_block t"] r_def hz_def)
  note ok = txn_redo_ok [OF ct, folded r_def] and rng = redo_in_range [OF ct, folded r_def]
  have len: "length (r_data r) = length (r_blocks r)" using ok by (simp add: redo_ok_def)
  have sub: "fst ` set (commit_writes r hz) \<subseteq> {..<LOGICAL_DISK_SIZE}"
  proof -
    have "fst ` set (log_writes r) \<subseteq> {..<LOGICAL_DISK_SIZE}"
    proof
      fix x assume "x \<in> fst ` set (log_writes r)"
      then obtain i where "i < length (r_blocks r)" "x = Suc (r_start r + i)"
        using len by (auto simp: log_writes_def set_zip simp del: upt_Suc)
      then show "x \<in> {..<LOGICAL_DISK_SIZE}" using rng(3) by simp
    qed
    moreover have "fst ` set (home_writes r) \<subseteq> {..<LOGICAL_DISK_SIZE}"
      using rng(4) by (auto simp: home_writes_def dest!: set_zip_leftD)
    ultimately show ?thesis using rng(2) by (simp add: commit_writes_def image_Un)
  qed
  have cov: "\<And>n d. n \<in> {..<LOGICAL_DISK_SIZE} \<Longrightarrow> src_block t n \<in> fst ` set (raid_writes s n d)"
    using reboot_covers ct by (auto simp: crashable_def)
  obtain j where j: "\<forall>m \<in> {..<LOGICAL_DISK_SIZE}. D (src_block t m) =
      apply_writes (take j (commit_writes r hz)) (\<lambda>m. disk s (src_block t m)) m"
    using raid.phys_prefix [OF sub cov, of k "disk s"] D by blast
  have old: "(\<lambda>m. disk s (src_block t m)) = r_old r" by (simp add: r_def txn_redo_def)
  have "p_any r (apply_writes (take j (commit_writes r hz)) (r_old r))"
    using commit_prefix [OF ok, of hz j] by (simp add: p_any_def hz_def hdr_n_put_int_0)
  then have "p_any r (ldisk t D)"
    using p_cong(4) [OF _ rng(1-3), of "ldisk t D" "apply_writes (take j (commit_writes r hz)) (r_old r)"] j old
    by (simp add: ldisk_def)
  then show ?thesis using ct by (simp add: crash_inv_def r_def)
qed

lemma recover_writes_range:
  assumes ok: "redo_ok r" and "p_any r L" and "r_start r \<in> B" and "set (r_blocks r) \<subseteq> B"
  shows "fst ` set (recover_writes (r_start r) L) \<subseteq> B"
proof (cases "p_mid r L")
  case True
  have "fst ` set (home_writes r) \<subseteq> B" using assms(4) by (auto simp: home_writes_def dest!: set_zip_leftD)
  then show ?thesis using assms(3) by (simp add: recover_writes_mid [OF ok True])
next
  case False
  then show ?thesis using assms(2,3) by (auto simp: p_any_def p_old_def p_new_def recover_writes_empty)
qed

lemma recover_writes_cong:
  assumes "redo_ok r" and "p_any r L" and "\<And>m. m \<in> B \<Longrightarrow> L m = L' m" and "r_home r \<subseteq> B" and "r_start r \<in> B"
    and "\<And>i. i < length (r_blocks r) \<Longrightarrow> Suc (r_start r + i) \<in> B"
  shows "recover_writes (r_start r) L = recover_writes (r_start r) L'"
proof (cases "p_mid r L")
  case True
  then have "p_mid r L'" using p_cong(2) [OF assms(3-6)] by simp
  then show ?thesis using recover_writes_mid [OF assms(1)] True by simp
next
  case False
  moreover have "L (r_start r) = L' (r_start r)" using assms(3,5) by simp
  ultimately show ?thesis using assms(2) by (auto simp: p_any_def p_old_def p_new_def recover_writes_empty)
qed

text \<open>On a machine that boots on a disk of the invariant, the header describes this transaction or none.\<close>

lemma crash_header:
  assumes inv: "crash_inv s t (disk u)" and b: "boots_as t u"
  defines "r \<equiv> txn_redo (src_block t) s"
  shows "p_any r (view u)" and "log_geometry u" and "home u = home s" and "r_start r = nat (log_start u)"
    and "\<And>m. m < LOGICAL_DISK_SIZE \<Longrightarrow> view u m = ldisk t (disk u) m"
    and "hdr_valid (home u) (view u (nat (log_start u)))"
proof -
  have ct: "crashable s t" and p: "p_any r (ldisk t (disk u))" using inv by (simp_all add: crash_inv_def r_def)
  have q: "quiet (\<lambda>_. 0) {} u" and lg: "log_start u = log_start s" "log_size u = log_size s"
    using b ct by (simp_all add: boots_as_def crashable_def reboot_def)
  have cr: "log_geometry s" "set (txn_blocks s) \<subseteq> home s" "lh_n s < 30" "0 \<le> lh_n s" "distinct (txn_blocks s)"
    using ct by (auto simp: crashable_def commit_ready_def LOGSIZE_def)
  show rs: "r_start r = nat (log_start u)" and h: "home u = home s" and "log_geometry u"
    using lg cr(1) by (simp_all add: r_def txn_redo_def home_def log_geometry_def)
  note ok = txn_redo_ok [OF ct, folded r_def] and rng = redo_in_range [OF ct, folded r_def]
  show vu: "view u m = ldisk t (disk u) m" if "m < LOGICAL_DISK_SIZE" for m
    using q that by (simp add: quiet_def ldisk_def boots_as_fields(1) [OF b])
  have vt: "view u m = ldisk t (disk u) m" if "m \<in> {..<LOGICAL_DISK_SIZE}" for m using vu that by simp
  show pv: "p_any r (view u)" using p p_cong(4) [OF vt rng(1-3)] by simp
  show "hdr_valid (home u) (view u (nat (log_start u)))"
  proof (cases "p_mid r (view u)")
    case True
    then have hd: "view u (r_start r) = r_hdr r" by (simp add: p_mid_def)
    have bl: "hdr_n (r_hdr r) = int (length (r_blocks r))" "hdr_blocks (r_hdr r) = r_blocks r"
      using ok by (auto simp: redo_ok_def hdr_blocks_def intro: nth_equalityI)
    have "r_blocks r = txn_blocks s" by (simp add: r_def txn_redo_def)
    then show ?thesis using hd bl cr h rs by (simp add: hdr_valid_def LOGSIZE_def txn_blocks_def)
  next
    case False
    then have "hdr_n (view u (r_start r)) = 0" using pv by (auto simp: p_any_def p_old_def p_new_def)
    then show ?thesis using rs by (simp add: hdr_valid_def hdr_blocks_def LOGSIZE_def)
  qed
qed

lemma crash_step_inv:
  assumes inv: "crash_inv s t D" and "crash_step t D D'"
  shows "crash_inv s t D'"
proof -
  define r where "r = txn_redo (src_block t) s"
  have ct: "crashable s t" and p: "p_any r (ldisk t D)" using assms(1) by (simp_all add: crash_inv_def r_def)
  obtain u u' ws k where u: "boots_as t u" "recover_from_log u = Inr u'" "dhist u' = dhist u @ ws" "D = disk u"
    and D': "D' = apply_writes (take k ws) D"
    using assms(2) by (auto elim: crash_stepE)
  note ch = crash_header [OF inv [unfolded u(4)] u(1), folded r_def]
  note ok = txn_redo_ok [OF ct, folded r_def] and rng = redo_in_range [OF ct, folded r_def]
  have q: "quiet (\<lambda>_. 0) {} u" using u(1) by (simp add: boots_as_def)
  have rw: "recover_writes (r_start r) (view u) = recover_writes (r_start r) (ldisk t D)"
    using ch(5) u(4) by (intro recover_writes_cong [OF ok ch(1) _ rng(1,2)]) (use rng(3) in auto)
  have ws: "ws = raid.phys t (recover_writes (r_start r) (ldisk t D))"
    using recover_returns [OF q ch(2,6)] u(2,3) rw
    by (simp add: ch(4) [symmetric] boots_as_fields(3) [OF u(1)])
  note sub = recover_writes_range [OF ok p rng(2,4)]
  have us: "raid_usable t n" if "n < LOGICAL_DISK_SIZE" for n
    using ct that by (simp add: crashable_def reboot_def quiet_def)
  have cov: "\<And>n d. n \<in> {..<LOGICAL_DISK_SIZE} \<Longrightarrow> src_block t n \<in> fst ` set (raid_writes t n d)"
    by (rule raid.served) (use us in simp_all)
  obtain j where j: "\<forall>m \<in> {..<LOGICAL_DISK_SIZE}. D' (src_block t m) =
      apply_writes (take j (recover_writes (r_start r) (ldisk t D))) (\<lambda>m. D (src_block t m)) m"
    using raid.phys_prefix [OF sub cov, of k D] D' ws by blast
  have "p_any r (apply_writes (take j (recover_writes (r_start r) (ldisk t D))) (ldisk t D))"
    using recover_prefix [OF ok, of "ldisk t D" j] p by (simp add: p_any_def)
  then have "p_any r (ldisk t D')"
    using p_cong(4) [OF _ rng(1-3), of "ldisk t D'"] j by (simp add: ldisk_def)
  then show ?thesis using ct by (simp add: crash_inv_def r_def)
qed

interpretation crash: invariant_system "crash_init s t" "crash_step t" "crash_inv s t" for s t
  using crash_init_inv crash_step_inv by unfold_locales

lemma recover_after_crash:
  assumes inv: "crash_inv s t (disk t)"
  shows "\<exists>t'. recover_from_log t = Inr t' \<and>
    ((\<forall>m \<in> home s. view t' m = disk s (src_block s m)) \<or> (\<forall>m \<in> home s. view t' m = view s m))"
proof -
  define r where "r = txn_redo (src_block t) s"
  have ct: "crashable s t" and p: "p_any r (ldisk t (disk t))" using inv by (simp_all add: crash_inv_def r_def)
  have rb: "quiet (\<lambda>_. 0) {} t" "log_start t = log_start s" "log_size t = log_size s"
    "\<And>m. m < LOGICAL_DISK_SIZE \<Longrightarrow> disk s (src_block t m) = disk s (src_block s m)"
    using ct by (simp_all add: crashable_def reboot_def)
  have cr: "log_geometry s" "set (txn_blocks s) \<subseteq> home s" "lh_n s < 30" "0 \<le> lh_n s" "distinct (txn_blocks s)"
    "quiet (\<lambda>n. of_bool (n \<in> set (txn_blocks s))) (set (txn_blocks s)) s"
    using ct by (auto simp: crashable_def commit_ready_def LOGSIZE_def)
  have "boots_as t t" using rb(1) by (simp add: boots_as_def)
  note ch = crash_header [OF inv this, folded r_def]
  have rs: "r_start r = nat (log_start t)" "r_home r = home s" by (simp_all add: ch(4) [symmetric]) (simp add: r_def txn_redo_def)
  note ok = txn_redo_ok [OF ct, folded r_def] and pv = ch(1)
  from recover_returns [OF rb(1) ch(2,6)]
  obtain t' where t': "recover_from_log t = Inr t'" "view t' = apply_writes (recover_writes (r_start r) (view t)) (view t)"
    by (auto simp: returns_iff rs(1))
  have "p_old r (view t') \<or> p_new r (view t')"
    using recover_full [OF ok, of "view t"] pv t'(2) by (auto simp: p_any_def)
  moreover have "\<forall>m \<in> home s. view t' m = disk s (src_block s m)" if "p_old r (view t')"
    using that rb(4) rs(2) by (auto simp: p_old_def r_def txn_redo_def home_def)
  moreover have "view t' m = view s m" if "p_new r (view t')" "m \<in> home s" for m
  proof (cases "m \<in> set (txn_blocks s)")
    case True
    then obtain i where i: "i < length (r_blocks r)" "m = r_blocks r ! i"
      by (auto simp: in_set_conv_nth r_def txn_redo_def)
    then have "view t' m = r_data r ! i" using that rs(2) home_writes_values(2) [OF ok] by (simp add: p_new_def)
    then show ?thesis using i by (simp add: r_def txn_redo_def)
  next
    case False
    then have "m \<notin> set (r_blocks r)" by (simp add: r_def txn_redo_def)
    then have "view t' m = r_old r m" using that rs(2) home_writes_values(1) [OF ok] by (simp add: p_new_def)
    moreover have "m < LOGICAL_DISK_SIZE" using that(2) by (simp add: home_def)
    ultimately show ?thesis using False cr(6) rb(4) by (simp add: r_def txn_redo_def quiet_def)
  qed
  ultimately show ?thesis using t'(1) by blast
qed

end
