(* ===== verification/Txn.thy ===== *)
theory Txn
  imports RedoLog
begin

text \<open>
  The inside of a transaction: how \<^verbatim>\<open>bread\<close>, a change of the buffer, \<^verbatim>\<open>log_write\<close> and \<^verbatim>\<open>brelse\<close> work
  together between \<^verbatim>\<open>begin_op\<close> and \<^verbatim>\<open>end_op\<close>. The invariant \<open>txn\<close> says that exactly the blocks in the log header
  are pinned and that every other unlocked block agrees with the disk; each of the four calls
  keeps it. The read-modify-write sequence of \<^verbatim>\<open>fs.c\<close> is one lemma on top of them, and \<^verbatim>\<open>commit\<close> runs on
  such a state when the last operation ends.
\<close>

section \<open>The invariant\<close>

definition txn :: "'a lstate_scheme \<Rightarrow> bool" where
  "txn s \<longleftrightarrow> binv s \<and> log_dev s = ROOTDEV \<and> log_geometry s \<and> 0 \<le> lh_n s \<and> lh_n s < LOGSIZE \<and>
     distinct (txn_blocks s) \<and> set (txn_blocks s) \<subseteq> home s \<and>
     (\<forall>i < nat (lh_n s). 0 \<le> lh_block s i \<and> lh_block s i < int LOGICAL_DISK_SIZE) \<and>
     (\<forall>n. blk_ok (view s n)) \<and> (\<forall>n < LOGICAL_DISK_SIZE. raid_usable s n) \<and>
     rc s = (\<lambda>n. of_bool (n \<in> set (txn_blocks s)) + of_bool (lock_of s n \<noteq> None)) \<and>
     (\<forall>n < LOGICAL_DISK_SIZE. n \<notin> set (txn_blocks s) \<longrightarrow> lock_of s n = None \<longrightarrow> view s n = disk s (src_block s n))"

lemma commit_ready_txn: "commit_ready s \<longleftrightarrow> txn s \<and> lock_of s = (\<lambda>_. None)"
  by (auto simp: commit_ready_def txn_def quiet_def)

text \<open>Only buffers and the header in memory change.\<close>

definition tframe :: "'a lstate_scheme \<Rightarrow> 'a lstate_scheme \<Rightarrow> bool" where
  "tframe s s' \<longleftrightarrow> (\<exists>B n l. s' = s\<lparr>bufs := B, lh_n := n, lh_block := l\<rparr>)"

lemma tframeI: "s' = s\<lparr>bufs := B, lh_n := n, lh_block := l\<rparr> \<Longrightarrow> tframe s s'"
  unfolding tframe_def by blast

lemma tframe_refl [simp]: "tframe s s"
  by (rule tframeI [where B = "bufs s" and n = "lh_n s" and l = "lh_block s"]) simp

lemma frame_tframe: "frame s s' \<Longrightarrow> tframe s s'"
  unfolding frame_def by (elim exE, rule tframeI [where n = "lh_n s" and l = "lh_block s"]) simp

lemma tframe_trans [trans]: "tframe s t \<Longrightarrow> tframe t u \<Longrightarrow> tframe s u"
  unfolding tframe_def by (elim exE) (simp, blast)

lemma tframe_fields:
  assumes "tframe s s'"
  shows "disk s' = disk s" "dhist s' = dhist s" "curpid s' = curpid s" "log_start s' = log_start s"
    "log_size s' = log_size s" "log_dev s' = log_dev s" "log_outstanding s' = log_outstanding s"
    "log_committing s' = log_committing s" "src_block s' = src_block s" "raid_usable s' = raid_usable s"
    "home s' = home s" "log_geometry s' = log_geometry s" "mem s' = mem s" "freelist s' = freelist s"
    "kend s' = kend s" "klog s' = klog s" "lstate.more s' = lstate.more s"
    "force_disk_fail_id s' = force_disk_fail_id s" "force_read_error_pbn s' = force_read_error_pbn s"
proof -
  obtain B n l where e: "s' = s\<lparr>bufs := B, lh_n := n, lh_block := l\<rparr>" using assms unfolding tframe_def by blast
  show "disk s' = disk s" "dhist s' = dhist s" "curpid s' = curpid s" "log_start s' = log_start s"
    "log_size s' = log_size s" "log_dev s' = log_dev s" "log_outstanding s' = log_outstanding s"
    "log_committing s' = log_committing s" "mem s' = mem s" "freelist s' = freelist s"
    "kend s' = kend s" "klog s' = klog s" "lstate.more s' = lstate.more s"
    "force_disk_fail_id s' = force_disk_fail_id s" "force_read_error_pbn s' = force_read_error_pbn s"
    by (simp_all add: e)
  show "home s' = home s" "log_geometry s' = log_geometry s" by (simp_all add: e home_def log_geometry_def)
  have "frame s (s\<lparr>bufs := B\<rparr>)" unfolding frame_def by blast
  from lframe_fields [OF frame_lframe [OF this]]
  show "src_block s' = src_block s" "raid_usable s' = raid_usable s" by (simp_all add: e)
qed

lemma frame_txn_blocks: "frame s s' \<Longrightarrow> txn_blocks s' = txn_blocks s"
  using lframe_fields [OF frame_lframe, of s s'] by (simp add: txn_blocks_def txn_block_def)

definition held_blocks :: "'a bstate_scheme \<Rightarrow> nat set" where
  "held_blocks s = {n. lock_of s n \<noteq> None}"

text \<open>Buffers that are free during a transaction: neither in the log nor locked.\<close>

lemma txn_nfree:
  assumes "txn s"
  shows "nfree s + card (set (txn_blocks s) \<union> held_blocks s) = NBUF"
proof -
  have "{n. 0 < rc s n} = set (txn_blocks s) \<union> held_blocks s"
    using assms by (auto simp: txn_def held_blocks_def)
  then show ?thesis using nfree_rc [of s] assms by (simp add: txn_def)
qed

lemma txn_len: "txn s \<Longrightarrow> length (txn_blocks s) = nat (lh_n s) \<and> card (set (txn_blocks s)) = nat (lh_n s)"
  by (simp add: txn_def distinct_card) (simp add: txn_blocks_def)

lemma finite_held:
  assumes "txn s"
  shows "finite (held_blocks s)"
proof -
  have "held_blocks s \<subseteq> {..<LOGICAL_DISK_SIZE}"
  proof
    fix n assume "n \<in> held_blocks s"
    then obtain b where "buf_of s n = Some b" by (auto simp: held_blocks_def lock_of_def split: option.splits)
    then show "n \<in> {..<LOGICAL_DISK_SIZE}"
      using cached_less [of s b n] assms buf_of_SomeD by (auto simp: txn_def)
  qed
  then show ?thesis by (rule finite_subset) simp
qed

text \<open>There is room for \<open>k\<close> more buffers.\<close>

definition room :: "nat \<Rightarrow> 'a lstate_scheme \<Rightarrow> bool" where
  "room k s \<longleftrightarrow> nat (lh_n s) + card (held_blocks s) + k \<le> NBUF"

lemma room_nfree: "txn s \<Longrightarrow> room k s \<Longrightarrow> k \<le> nfree s"
  using txn_nfree [of s] card_Un_le [of "set (txn_blocks s)" "held_blocks s"] txn_len [of s]
  by (simp add: room_def)

section \<open>The four calls\<close>

lemma txn_bread:
  assumes "txn s" and "lock_of s n = None" and "n < LOGICAL_DISK_SIZE" and "room 1 s"
  shows "returns (bread ROOTDEV n s) (\<lambda>(b, s'). txn s' \<and> frame s s' \<and> owns s' b n \<and> bdata s' b = view s n \<and>
    view s' = view s \<and> lock_of s' = (lock_of s)(n := Some (curpid s)) \<and>
    txn_blocks s' = txn_blocks s \<and> (\<forall>c m. owns s c m \<longrightarrow> owns s' c m))"
proof -
  have rcn: "rc s n \<le> 1" using assms(1,2) by (simp add: txn_def)
  have "0 < nfree s" using room_nfree [OF assms(1,4)] by simp
  then have "returns (bread ROOTDEV n s) (\<lambda>(b, s'). bread_post s n b s')"
    using assms rcn by (intro bread_returns) (simp_all add: txn_def)
  then show ?thesis
  proof (rule returns_mono, clarify)
    fix b s'
    assume p: "bread_post s n b s'"
    note P = p [unfolded bread_post_def]
    have f: "frame s s'" using P by blast
    note F = lframe_fields [OF frame_lframe [OF f]] frame_fields [OF f] tframe_fields(11,12) [OF frame_tframe [OF f]]
    have ow: "owns s' c m" if "owns s c m" for c m
    proof -
      have b: "binv s" using assms(1) by (simp add: txn_def)
      note o = owns_abs [OF b that]
      have "m \<noteq> n" using o(3) assms(2) by auto
      then show ?thesis
        by (intro owns_keep [OF b that]) (use P o(4) that F in \<open>simp_all add: owns_def\<close>)
    qed
    have T: "rc s = (\<lambda>n. of_bool (n \<in> set (txn_blocks s)) + of_bool (lock_of s n \<noteq> None))"
      using assms(1) by (simp add: txn_def)
    have "rc s' = (\<lambda>n. of_bool (n \<in> set (txn_blocks s)) + of_bool (lock_of s' n \<noteq> None))"
      using P assms(2) by (intro ext) (simp add: T)
    then have "txn s'"
      using assms(1) P F frame_txn_blocks [OF f] by (auto simp: txn_def)
    then show "txn s' \<and> frame s s' \<and> owns s' b n \<and> bdata s' b = view s n \<and> view s' = view s \<and>
        lock_of s' = (lock_of s)(n := Some (curpid s)) \<and> txn_blocks s' = txn_blocks s \<and>
        (\<forall>c m. owns s c m \<longrightarrow> owns s' c m)"
      using P ow frame_txn_blocks [OF f] owns_abs(1) [of s' b n] by auto
  qed
qed

lemma txn_set_bdata:
  assumes "txn s" and "owns s b n" and "blk_ok d"
  shows "txn (set_bdata b d s)" and "frame s (set_bdata b d s)" and "view (set_bdata b d s) = (view s)(n := d)"
    and "lock_of (set_bdata b d s) = lock_of s" and "txn_blocks (set_bdata b d s) = txn_blocks s"
    and "owns s c m \<Longrightarrow> owns (set_bdata b d s) c m"
proof -
  have b: "binv s" using assms(1) by (simp add: txn_def)
  note S = set_bdata_owned [OF b assms(2), of d]
  show f: "frame s (set_bdata b d s)" by (rule S(1))
  note F = lframe_fields [OF frame_lframe [OF f]] frame_fields [OF f] tframe_fields(11,12) [OF frame_tframe [OF f]]
  show "view (set_bdata b d s) = (view s)(n := d)" "lock_of (set_bdata b d s) = lock_of s"
    "txn_blocks (set_bdata b d s) = txn_blocks s" using S frame_txn_blocks [OF f] by simp_all
  show "txn (set_bdata b d s)"
    using assms(1,3) S F frame_txn_blocks [OF f] owns_abs(3) [OF b assms(2)] by (auto simp: txn_def)
  show "owns s c m \<Longrightarrow> owns (set_bdata b d s) c m"
    by (rule owns_keep [OF b _ S(2)]) (use S(6,8) F in \<open>simp_all add: owns_def\<close>)
qed

lemma txn_brelse:
  assumes "txn s" and "owns s b n" and "n \<in> set (txn_blocks s) \<or> view s n = disk s (src_block s n)"
  shows "returns (brelse b s) (\<lambda>s'. txn s' \<and> frame s s' \<and> view s' = view s \<and> lock_of s' = (lock_of s)(n := None) \<and>
    txn_blocks s' = txn_blocks s \<and> (\<forall>c m. owns s c m \<longrightarrow> m \<noteq> n \<longrightarrow> owns s' c m))"
proof -
  have b: "binv s" using assms(1) by (simp add: txn_def)
  note o = owns_abs [OF b assms(2)]
  have rcn: "rc s n = of_bool (n \<in> set (txn_blocks s)) + 1" using assms(1) o(3) by (simp add: txn_def)
  then have "rc s n = 1 \<Longrightarrow> view s n = disk s (src_block s n)" using assms(3) by auto
  from brelse_returns [OF b assms(2) this] show ?thesis
  proof (rule returns_mono)
    fix s'
    assume p: "brelse_post s n s'"
    note P = p [unfolded brelse_post_def]
    have f: "frame s s'" using P by blast
    note F = lframe_fields [OF frame_lframe [OF f]] frame_fields [OF f] tframe_fields(11,12) [OF frame_tframe [OF f]]
    have ow: "owns s' c m" if "owns s c m" "m \<noteq> n" for c m
      by (rule owns_keep [OF b that(1)]) (use P that F in \<open>simp_all add: owns_def\<close>)
    have T: "rc s = (\<lambda>n. of_bool (n \<in> set (txn_blocks s)) + of_bool (lock_of s n \<noteq> None))"
      using assms(1) by (simp add: txn_def)
    have "rc s' = (\<lambda>n. of_bool (n \<in> set (txn_blocks s)) + of_bool (lock_of s' n \<noteq> None))"
      using P rcn by (intro ext) (simp add: T)
    then have "txn s'"
      using assms(1,3) P F frame_txn_blocks [OF f] by (auto simp: txn_def)
    then show "txn s' \<and> frame s s' \<and> view s' = view s \<and> lock_of s' = (lock_of s)(n := None) \<and>
        txn_blocks s' = txn_blocks s \<and> (\<forall>c m. owns s c m \<longrightarrow> m \<noteq> n \<longrightarrow> owns s' c m)"
      using P ow frame_txn_blocks [OF f] by auto
  qed
qed

lemma log_find_spec:
  "i \<le> log_find k i bl x \<and> log_find k i bl x \<le> i + k \<and>
   (log_find k i bl x < i + k \<longrightarrow> u32_of_int (bl (log_find k i bl x)) = x) \<and>
   (\<forall>l. i \<le> l \<longrightarrow> l < log_find k i bl x \<longrightarrow> u32_of_int (bl l) \<noteq> x)"
proof (induction k arbitrary: i)
  case (Suc k)
  have "u32_of_int (bl l) \<noteq> x" if "u32_of_int (bl i) \<noteq> x" "i \<le> l" "l < log_find k (Suc i) bl x" for l
    using that Suc.IH [of "Suc i"] by (cases "l = i") auto
  then show ?case using Suc.IH [of "Suc i"] by auto
qed auto

lemma small_ints:
  "n < LOGICAL_DISK_SIZE \<Longrightarrow> int_of_u32 n = int n"
  "0 \<le> v \<Longrightarrow> v < int LOGICAL_DISK_SIZE \<Longrightarrow> u32_of_int v = nat v"
  by (simp_all add: int_of_u32_def u32_of_int_def LOGICAL_DISK_SIZE_def FSSIZE_def)

definition log_write_post :: "'a lstate_scheme \<Rightarrow> nat \<Rightarrow> 'a lstate_scheme \<Rightarrow> bool" where
  "log_write_post s n s' \<longleftrightarrow> txn s' \<and> tframe s s' \<and> view s' = view s \<and> lock_of s' = lock_of s \<and>
     set (txn_blocks s') = insert n (set (txn_blocks s)) \<and>
     lh_n s' = (if n \<in> set (txn_blocks s) then lh_n s else lh_n s + 1) \<and> (\<forall>c m. owns s c m \<longrightarrow> owns s' c m)"

lemma log_write_absorbed:
  assumes t: "txn s" and o: "owns s b n" and sz: "lh_n s < log_size s - 1" and out: "1 \<le> log_outstanding s"
    and n: "n \<in> set (txn_blocks s)"
  shows "log_write b s = Inr s"
proof -
  let ?k = "nat (lh_n s)" and ?i = "log_find (nat (lh_n s)) 0 (lh_block s) n"
  have T: "log_size s \<le> 30" "0 \<le> lh_n s" "\<And>i. i < ?k \<Longrightarrow> 0 \<le> lh_block s i \<and> lh_block s i < int LOGICAL_DISK_SIZE"
    using t by (simp_all add: txn_def log_geometry_def LOGSIZE_def)
  have bn: "b_blockno (bufs s b) = n" using o by (simp add: owns_def cached_def)
  obtain j where j: "j < ?k" "u32_of_int (lh_block s j) = n" using n by (auto simp: txn_blocks_def txn_block_def)
  note S = log_find_spec [of 0 ?k "lh_block s" n]
  have i: "?i < ?k" using S j by (metis add_0 leD le_neq_implies_less not_less zero_le)
  then have "u32_of_int (lh_block s ?i) = n" using S by simp
  then have "lh_block s ?i = int n" using T(3) [OF i] small_ints(2) [of "lh_block s ?i"] by auto
  moreover have "n < LOGICAL_DISK_SIZE" using owns_abs(7) [OF _ o] t by (simp add: txn_def)
  ultimately have "(lh_block s)(?i := int_of_u32 n) = lh_block s" by (simp add: small_ints fun_upd_idem)
  moreover have "int ?i \<noteq> lh_n s" using i by auto
  ultimately show ?thesis
    using sz T(1) out by (simp add: log_write_def bn LOGSIZE_def)
qed

lemma log_write_new:
  assumes t: "txn s" and o: "owns s b n" and sz: "lh_n s < log_size s - 1" and out: "1 \<le> log_outstanding s"
    and n: "n \<notin> set (txn_blocks s)"
  shows "log_write b s = Inr ((bpin b s)\<lparr>lh_block := (lh_block s)(nat (lh_n s) := int n), lh_n := lh_n s + 1\<rparr>)"
proof -
  let ?k = "nat (lh_n s)" and ?i = "log_find (nat (lh_n s)) 0 (lh_block s) n"
  have T: "log_size s \<le> 30" "0 \<le> lh_n s" using t by (simp_all add: txn_def log_geometry_def LOGSIZE_def)
  have bn: "b_blockno (bufs s b) = n" using o by (simp add: owns_def cached_def)
  note S = log_find_spec [of 0 ?k "lh_block s" n]
  have "?i < ?k \<Longrightarrow> False"
  proof -
    assume "?i < ?k"
    then have "n \<in> txn_block s ` {0..<?k}" using S by (intro image_eqI [of _ _ ?i]) (simp_all add: txn_block_def)
    then show False using n by (simp add: txn_blocks_def)
  qed
  then have i: "?i = ?k" using S by (metis add_0 le_neq_implies_less)
  have "n < LOGICAL_DISK_SIZE" using owns_abs(7) [OF _ o] t by (simp add: txn_def)
  then show ?thesis
    using sz T out i by (simp add: log_write_def bn LOGSIZE_def small_ints Let_def bpin_def upd_buf_def)
qed

lemma txn_log_write:
  assumes t: "txn s" and o: "owns s b n" and h: "n \<in> home s" and sz: "lh_n s < log_size s - 1"
    and out: "1 \<le> log_outstanding s"
  shows "returns (log_write b s) (log_write_post s n)"
proof (cases "n \<in> set (txn_blocks s)")
  case True
  then show ?thesis using log_write_absorbed [OF t o sz out True] t by (simp add: log_write_post_def insert_absorb)
next
  case False
  let ?k = "nat (lh_n s)"
  let ?s = "(bpin b s)\<lparr>lh_block := (lh_block s)(?k := int n), lh_n := lh_n s + 1\<rparr>"
  have b: "binv s" and k: "0 \<le> lh_n s" "log_size s \<le> 30" using t by (simp_all add: txn_def log_geometry_def LOGSIZE_def)
  have T: "rc s = (\<lambda>n. of_bool (n \<in> set (txn_blocks s)) + of_bool (lock_of s n \<noteq> None))"
    using t by (simp add: txn_def)
  note oa = owns_abs [OF b o]
  have rn: "rc s n = 1" using oa(3) False by (simp add: T)
  then have "rc s n < 4294967295" by simp
  note P = bpin_owned [OF b o this]
  note F = lframe_fields [OF frame_lframe [OF P(1)]] frame_fields [OF P(1)]
  obtain B where "bpin b s = s\<lparr>bufs := B\<rparr>" using P(1) unfolding frame_def by blast
  then have tf: "tframe s ?s"
    by (intro tframeI [where B = B and n = "lh_n s + 1" and l = "(lh_block s)(?k := int n)"]) simp
  have tb: "txn_blocks ?s = txn_blocks s @ [n]"
    using k oa(7) by (simp add: txn_blocks_def txn_block_def nat_add_distrib small_ints)
  have rc': "rc ?s = (\<lambda>m. of_bool (m \<in> set (txn_blocks ?s)) + of_bool (lock_of ?s m \<noteq> None))"
    using P(5,6) rn oa(3) False by (intro ext) (simp add: T tb)
  have blk: "0 \<le> lh_block ?s i \<and> lh_block ?s i < int LOGICAL_DISK_SIZE" if "i < nat (lh_n ?s)" for i
    using that t oa(7) k by (auto simp: txn_def nat_add_distrib less_Suc_eq)
  have "txn ?s"
    using t P rc' tb blk F False h sz k tframe_fields [OF tf] by (auto simp: txn_def LOGSIZE_def)
  moreover have "owns ?s c m" if "owns s c m" for c m
    using owns_keep [OF b that P(2)] that P(6,8) F by (simp add: owns_def)
  ultimately have "log_write_post s n ?s" using tf P tb False by (simp add: log_write_post_def)
  then show ?thesis using log_write_new [OF t o sz out False] by simp
qed

section \<open>Read, modify, write\<close>

definition update_post :: "'a lstate_scheme \<Rightarrow> nat \<Rightarrow> bytes \<Rightarrow> 'a lstate_scheme \<Rightarrow> bool" where
  "update_post s n d s' \<longleftrightarrow> txn s' \<and> tframe s s' \<and> view s' = (view s)(n := d) \<and> lock_of s' = lock_of s \<and>
     set (txn_blocks s') = insert n (set (txn_blocks s)) \<and>
     lh_n s' = (if n \<in> set (txn_blocks s) then lh_n s else lh_n s + 1) \<and> (\<forall>c m. owns s c m \<longrightarrow> owns s' c m)"

text \<open>A transaction that may log one more block.\<close>

definition can_log :: "'a lstate_scheme \<Rightarrow> bool" where
  "can_log s \<longleftrightarrow> lh_n s < log_size s - 1 \<and> 1 \<le> log_outstanding s"

lemma txn_finish:
  assumes "txn s" and "owns s b n" and "n \<in> home s" and "can_log s" and "blk_ok d"
  shows "returns (bindE (log_write b (set_bdata b d s)) (brelse b)) (\<lambda>s'. txn s' \<and> tframe s s' \<and> view s' = (view s)(n := d) \<and>
    lock_of s' = (lock_of s)(n := None) \<and> set (txn_blocks s') = insert n (set (txn_blocks s)) \<and>
    lh_n s' = (if n \<in> set (txn_blocks s) then lh_n s else lh_n s + 1) \<and>
    (\<forall>c m. owns s c m \<longrightarrow> m \<noteq> n \<longrightarrow> owns s' c m))"
proof -
  note S = txn_set_bdata [OF assms(1,2,5)]
  note F = tframe_fields [OF frame_tframe [OF S(2)]] lframe_fields [OF frame_lframe [OF S(2)]]
  have "returns (log_write b (set_bdata b d s)) (log_write_post (set_bdata b d s) n)"
    using S assms F by (intro txn_log_write) (simp_all add: can_log_def)
  then obtain s2 where 2: "log_write b (set_bdata b d s) = Inr s2" "log_write_post (set_bdata b d s) n s2"
    by (auto simp: returns_iff)
  have s2: "txn s2" "owns s2 b n" "n \<in> set (txn_blocks s2)" "tframe s s2" "view s2 = (view s)(n := d)"
    "lock_of s2 = lock_of s" "set (txn_blocks s2) = insert n (set (txn_blocks s))"
    "lh_n s2 = (if n \<in> set (txn_blocks s) then lh_n s else lh_n s + 1)" "\<And>c m. owns s c m \<Longrightarrow> owns s2 c m"
    using 2(2) S assms(2) F tframe_trans [OF frame_tframe [OF S(2)]] by (simp_all add: log_write_post_def)
  have "returns (brelse b s2) (\<lambda>s'. txn s' \<and> frame s2 s' \<and> view s' = view s2 \<and> lock_of s' = (lock_of s2)(n := None) \<and>
      txn_blocks s' = txn_blocks s2 \<and> (\<forall>c m. owns s2 c m \<longrightarrow> m \<noteq> n \<longrightarrow> owns s' c m))"
    using s2 by (intro txn_brelse) simp_all
  then obtain s3 where 3: "brelse b s2 = Inr s3" "txn s3" "frame s2 s3" "view s3 = view s2"
    "lock_of s3 = (lock_of s2)(n := None)" "txn_blocks s3 = txn_blocks s2"
    "\<forall>c m. owns s2 c m \<longrightarrow> m \<noteq> n \<longrightarrow> owns s3 c m"
    by (auto simp: returns_iff)
  have "lh_n s3 = lh_n s2" "tframe s s3"
    using lframe_fields(4) [OF frame_lframe [OF 3(3)]] tframe_trans [OF s2(4) frame_tframe [OF 3(3)]] by simp_all
  with 3 2(1) s2 show ?thesis by simp
qed

lemma txn_update:
  assumes "txn s" and "lock_of s n = None" and "n \<in> home s" and "room 1 s" and "can_log s" and "blk_ok (f (view s n))"
  shows "returns (bindE (bread ROOTDEV n s) (\<lambda>(b, s). bindE (log_write b (set_bdata b (f (bdata s b)) s)) (brelse b)))
    (update_post s n (f (view s n)))"
proof -
  have n: "n < LOGICAL_DISK_SIZE" using assms(3) by (simp add: home_def)
  obtain b s1 where 1: "bread ROOTDEV n s = Inr (b, s1)" and s1: "txn s1" "frame s s1" "owns s1 b n" "bdata s1 b = view s n"
    "view s1 = view s" "lock_of s1 = (lock_of s)(n := Some (curpid s))" "txn_blocks s1 = txn_blocks s"
    "\<And>c m. owns s c m \<Longrightarrow> owns s1 c m"
    using txn_bread [OF assms(1,2) n assms(4)] by (auto simp: returns_iff)
  note F = tframe_fields [OF frame_tframe [OF s1(2)]] lframe_fields [OF frame_lframe [OF s1(2)]]
  have ne: "owns s c m \<Longrightarrow> m \<noteq> n" for c m
    using owns_abs(3) [of s c m] assms(1,2) by (auto simp: txn_def)
  have "returns (bindE (log_write b (set_bdata b (f (bdata s1 b)) s1)) (brelse b)) (update_post s n (f (view s n)))"
  proof (rule returns_mono [OF txn_finish [OF s1(1,3)]])
    show "n \<in> home s1" "can_log s1" "blk_ok (f (bdata s1 b))" using assms s1 F by (simp_all add: can_log_def)
  qed (use s1 F assms(2) ne tframe_trans [OF frame_tframe [OF s1(2)]] in \<open>auto simp: update_post_def fun_upd_idem\<close>)
  then show ?thesis using 1 by simp
qed

section \<open>A machine inside a transaction\<close>

text \<open>A machine that has just booted on the disk \<open>d\<close> and runs one operation, inside any larger state.\<close>

definition demo_lstate :: "(nat \<Rightarrow> bytes) \<Rightarrow> 'a \<Rightarrow> 'a lstate_scheme" where
  "demo_lstate d r = \<lparr>mem = (\<lambda>_. 0), freelist = 0, kend = 1, disk = d, dhist = [],
     bufs = (\<lambda>_. zero_buf), force_read_error_pbn = -1, force_disk_fail_id = -1, curpid = 1, klog = [],
     log_start = 2, log_size = 30, log_outstanding = 1, log_committing = False, log_dev = ROOTDEV,
     lh_n = 0, lh_block = (\<lambda>_. 0), \<dots> = r\<rparr>"

definition boot :: "(nat \<Rightarrow> bytes) \<Rightarrow> 'a \<Rightarrow> 'a lstate_scheme" where
  "boot d r = binit (demo_lstate d r)"

abbreviation booted :: lstate where
  "booted \<equiv> boot demo_disk ()"

lemma boot_frame: "frame (demo_lstate d r) (boot d r)"
proof -
  have "frame s (fold binit_buf ys s)" for ys and s :: "'a lstate_scheme"
  proof (induction ys arbitrary: s)
    case (Cons y ys)
    have "frame s (binit_buf y s)"
      unfolding binit_buf_def Let_def set_bnext_def set_bprev_def by (meson frame_trans frame_upd_buf)
    then show ?case using Cons frame_trans by auto
  qed simp
  moreover have "frame (demo_lstate d r) (set_bnext NBUF NBUF (set_bprev NBUF NBUF (demo_lstate d r)))"
    unfolding set_bnext_def set_bprev_def by (meson frame_trans frame_upd_buf)
  ultimately show ?thesis unfolding boot_def binit_def Let_def using frame_trans by blast
qed

lemma demo_blk_ok: "blk_ok (demo_disk n)" "hdr_n (demo_disk n) = 0" "demo_disk (n + 2048) = demo_disk n"
proof -
  show "blk_ok (demo_disk n)" by (simp add: blk_ok_def demo_disk_def BSIZE_def)
  have "get_le (demo_disk n) 0 4 = get_le (\<lambda>_. 0) 0 4" by (rule get_le_cong) (simp add: demo_disk_def)
  then show "hdr_n (demo_disk n) = 0" by (simp add: hdr_n_def int_of_u32_def)
  have "(of_nat (n + 2048) :: 8 word) = of_nat n" unfolding of_nat_add by simp
  then show "demo_disk (n + 2048) = demo_disk n" unfolding demo_disk_def by (simp only:)
qed

lemma boot_abs:
  shows "binv (boot d r)" "rc (boot d r) = (\<lambda>_. 0)" "lock_of (boot d r) = (\<lambda>_. None)"
    "view (boot d r) n = (if n < LOGICAL_DISK_SIZE then d n else (\<lambda>_. 0))"
    "src_block (boot d r) = id" "raid_usable (boot d r) n" "raid_healthy (boot d r) n"
proof -
  have z: "\<And>i. i < NBUF \<Longrightarrow> b_dev (bufs (demo_lstate d r) i) = 0 \<and> b_refcnt (bufs (demo_lstate d r) i) = 0"
    by (simp add: demo_lstate_def zero_buf_def)
  note I = binit_binv [OF z, folded boot_def]
  show "binv (boot d r)" "rc (boot d r) = (\<lambda>_. 0)" "lock_of (boot d r) = (\<lambda>_. None)" using I(1,4,5) by auto
  have f: "force_disk_fail_id (boot d r) = -1" "force_read_error_pbn (boot d r) = -1"
    using frame_fields [OF boot_frame] by (simp_all add: demo_lstate_def)
  show src: "src_block (boot d r) = id"
    by (simp add: src_block_def should_use_mirror_def pbn_error_def f fun_eq_iff)
  show "raid_usable (boot d r) n" "raid_healthy (boot d r) n" by (simp_all add: raid_usable_def raid_healthy_def pbn_error_def f)
  show "view (boot d r) n = (if n < LOGICAL_DISK_SIZE then d n else (\<lambda>_. 0))"
    using I(3) [of n] src by (simp add: demo_lstate_def)
qed

lemma boot_fields:
  "disk (boot d r) = d" "log_start (boot d r) = 2" "log_size (boot d r) = 30" "log_outstanding (boot d r) = 1"
  "log_committing (boot d r) = False" "log_dev (boot d r) = ROOTDEV" "lh_n (boot d r) = 0" "curpid (boot d r) = 1"
  "lstate.more (boot d r) = r"
  using frame_fields [OF boot_frame] lframe_fields [OF frame_lframe [OF boot_frame]]
  by (simp_all add: demo_lstate_def)

lemmas booted_abs = boot_abs [of demo_disk "()"] and booted_fields = boot_fields [of demo_disk "()"]

lemma boot_txn:
  assumes "\<And>n. blk_ok (d n)"
  shows "txn (boot d r)" "log_geometry (boot d r)" "can_log (boot d r)" "held_blocks (boot d r) = {}" "room 30 (boot d r)"
proof -
  have z: "blk_ok (\<lambda>_. 0)" by (simp add: blk_ok_def)
  show g: "log_geometry (boot d r)" "can_log (boot d r)" "held_blocks (boot d r) = {}"
    by (simp_all add: log_geometry_def can_log_def boot_fields LOGSIZE_def LOGICAL_DISK_SIZE_def FSSIZE_def held_blocks_def boot_abs)
  then show "room 30 (boot d r)" by (simp add: room_def boot_fields NBUF_def)
  show "txn (boot d r)"
    using g z assms by (simp add: txn_def boot_abs boot_fields txn_blocks_def LOGSIZE_def)
qed

lemmas booted_txn = boot_txn [of demo_disk "()", OF demo_blk_ok(1)]

lemma booted_quiet: "quiet (\<lambda>_. 0) {} booted"
  using booted_txn(1) booted_abs by (auto simp: txn_def quiet_def txn_blocks_def booted_fields)

text \<open>Block 40 changed in a transaction on that machine.\<close>

lemma demo_txn:
  obtains s :: lstate where "txn s" "lock_of s = (\<lambda>_. None)" "lh_n s = 1" "txn_blocks s = [40]" "tframe booted s"
    "view s = (view booted)(40 := (\<lambda>_. 0))"
proof -
  have "returns (bindE (bread ROOTDEV 40 booted) (\<lambda>(b, s). bindE (log_write b (set_bdata b ((\<lambda>_. (\<lambda>_. 0)) (bdata s b)) s)) (brelse b)))
    (update_post booted 40 ((\<lambda>_. (\<lambda>_. 0)) (view booted 40)))"
    by (rule txn_update)
      (use booted_txn in \<open>simp_all add: booted_abs home_def booted_fields LOGSIZE_def LOGICAL_DISK_SIZE_def FSSIZE_def room_def NBUF_def blk_ok_def\<close>)
  then obtain s where "update_post booted 40 (\<lambda>_. 0) s" by (auto simp: returns_iff)
  moreover have "txn_blocks booted = []" by (simp add: txn_blocks_def booted_fields)
  ultimately have s: "txn s" "tframe booted s" "view s = (view booted)(40 := (\<lambda>_. 0))" "lock_of s = (\<lambda>_. None)"
    "set (txn_blocks s) = {40}" "lh_n s = 1"
    by (simp_all add: update_post_def booted_abs booted_fields)
  moreover have "txn_blocks s = [40]"
    using s(5) txn_len [OF s(1)] s(6) by (cases "txn_blocks s") auto
  ultimately show ?thesis using that by blast
qed

section \<open>Properties\<close>

text \<open>C1: Crash atomicity of the log: \<^verbatim>\<open>commit\<close> returns, and whatever prefix of its disk writes has reached the
  (mirrored) disk when the machine stops, and however often \<^verbatim>\<open>recover_from_log\<close> itself is then interrupted after any prefix of the writes that it makes,
  a machine that boots on that disk recovers, and afterwards either every home block has
  its contents from before the transaction or every home block has the contents the transaction gave it.
  This holds under one simulated disk or block failure, and also when the failure begins with the
  crash.\<close>

theorem commit_crash_atomic:
  fixes s :: "'a lstate_scheme"
  assumes "txn s" and "lock_of s = (\<lambda>_. None)" and "0 < lh_n s" and "hdr_n (view s (nat (log_start s))) = 0"
  shows "\<exists>s' ws. commit s = Inr s' \<and> dhist s' = dhist s @ ws \<and> (\<forall>m \<in> home s. view s' m = view s m) \<and>
    (\<forall>k (t :: 'a lstate_scheme). reboot s t \<and> (crash_step t)\<^sup>*\<^sup>* (apply_writes (take k ws) (disk s)) (disk t) \<longrightarrow>
      (\<exists>t'. recover_from_log t = Inr t' \<and>
        ((\<forall>m \<in> home s. view t' m = disk s (src_block s m)) \<or> (\<forall>m \<in> home s. view t' m = view s m))))"
proof -
  have c: "commit_ready s" using assms(1,2) by (simp add: commit_ready_txn)
  let ?ws = "raid.phys s (txn_writes s)"
  obtain s' t where s': "commit s = Inr s'" "\<forall>m \<in> home s. view s' m = view s m" "s' = t\<lparr>lh_n := 0\<rparr>"
    "wrote s (txn_writes s) t"
    using commit_returns [OF c assms(3), of "src_block s", folded txn_writes_def] unfolding returns_iff by blast
  then have h: "dhist s' = dhist s @ ?ws" by (simp add: wrote_def)
  have "\<exists>t'. recover_from_log t = Inr t' \<and>
      ((\<forall>m \<in> home s. view t' m = disk s (src_block s m)) \<or> (\<forall>m \<in> home s. view t' m = view s m))"
    if "reboot s t" "(crash_step t)\<^sup>*\<^sup>* (apply_writes (take k ?ws) (disk s)) (disk t)" for k and t :: "'a lstate_scheme"
  proof -
    have "crash_init s t (apply_writes (take k ?ws) (disk s))"
      using c assms(4) that(1) by (auto simp: crash_init_def crashable_def)
    then have "crash_inv s t (disk t)" using crash.reachable_inv that(2) by blast
    then show ?thesis by (rule recover_after_crash)
  qed
  with s'(1,2) h show ?thesis by blast
qed

theorem commit_crash_atomic_witness:
  "\<exists>(s :: lstate) s' t'. commit s = Inr s' \<and> view s 40 = (\<lambda>_. 0) \<and> disk s 40 = demo_disk 40 \<and> reboot s booted \<and>
     crash_step booted (disk s) (disk booted) \<and> recover_from_log booted = Inr t'"
proof (rule demo_txn)
  fix s :: lstate
  assume s: "txn s" "lock_of s = (\<lambda>_. None)" "lh_n s = 1" "tframe booted s" "view s = (view booted)(40 := (\<lambda>_. 0))"
  note F = tframe_fields [OF s(4)]
  have h: "hdr_n (view s (nat (log_start s))) = 0"
    using s(5) F by (simp add: booted_abs booted_fields demo_blk_ok LOGICAL_DISK_SIZE_def FSSIZE_def)
  have r: "reboot s booted" using booted_quiet F by (simp add: reboot_def)
  have d: "disk s = disk booted" using F by simp
  have "0 < lh_n s" using s(3) by simp
  from commit_crash_atomic [OF s(1,2) this h] obtain s' ws where
    1: "commit s = Inr s'" and
    2: "\<forall>k (t :: lstate). reboot s t \<and> (crash_step t)\<^sup>*\<^sup>* (apply_writes (take k ws) (disk s)) (disk t) \<longrightarrow>
      (\<exists>t'. recover_from_log t = Inr t' \<and>
        ((\<forall>m \<in> home s. view t' m = disk s (src_block s m)) \<or> (\<forall>m \<in> home s. view t' m = view s m)))"
    by blast
  have v: "hdr_valid (home booted) (view booted (nat (log_start booted)))"
    by (simp add: hdr_valid_def hdr_blocks_def booted_abs booted_fields demo_blk_ok LOGICAL_DISK_SIZE_def FSSIZE_def LOGSIZE_def)
  obtain u' ws' where u': "recover_from_log booted = Inr u'" "dhist u' = dhist booted @ ws'"
    using recover_returns [OF booted_quiet booted_txn(2) v] by (auto simp: returns_iff)
  have "boots_as booted booted" using booted_quiet by (simp add: boots_as_def)
  from crash_step.crash [OF this u', of 0] have st: "crash_step booted (disk s) (disk booted)" using d by simp
  then have "(crash_step booted)\<^sup>*\<^sup>* (apply_writes (take 0 ws) (disk s)) (disk booted)" by simp
  with 2 r obtain t' where "recover_from_log booted = Inr t'" by blast
  moreover have "view s 40 = (\<lambda>_. 0)" "disk s 40 = demo_disk 40" using s(5) d by (simp_all add: booted_fields)
  ultimately show ?thesis using 1 r st by blast
qed

text \<open>C7: Ending the last operation: if no other file system call is running, \<^verbatim>\<open>end_op\<close> commits, returns with
  an empty log, no buffer pinned, and every home block on the disk as the transaction left it in the cache.\<close>

theorem end_op_commits:
  assumes "txn s" and "lock_of s = (\<lambda>_. None)" and "log_outstanding s = 1" and "\<not> log_committing s"
    and "0 < lh_n s"
  shows "\<exists>s'. end_op s = Inr s' \<and> lh_n s' = 0 \<and> log_outstanding s' = 0 \<and> \<not> log_committing s' \<and> rc s' = (\<lambda>_. 0) \<and>
    lock_of s' = (\<lambda>_. None) \<and> (\<forall>m \<in> home s. view s' m = view s m \<and> disk s' (src_block s' m) = view s m)"
proof -
  let ?s = "s\<lparr>log_outstanding := 0, log_committing := True\<rparr>"
  have e: "txn_blocks ?s = txn_blocks s" "home ?s = home s" "log_geometry ?s = log_geometry s" "lh_block ?s = lh_block s"
    by (simp_all add: txn_blocks_def txn_block_def home_def log_geometry_def)
  have "txn ?s" using assms(1) e by (simp add: txn_def)
  then have c: "commit_ready ?s" using assms(2) by (simp add: commit_ready_txn)
  have pos: "0 < lh_n ?s" using assms(5) by simp
  obtain s' t where s': "commit ?s = Inr s'" "quiet (\<lambda>_. 0) {} s'" "lh_n s' = 0" "\<forall>m \<in> home ?s. view s' m = view ?s m"
    "s' = t\<lparr>lh_n := 0\<rparr>" "lframe ?s t"
    using commit_returns [OF c pos, of id] unfolding returns_iff wrote_def by blast
  have v: "\<forall>m \<in> home s. view s' m = view s m" using s'(4) e by simp
  note F = lframe_fields [OF s'(6)]
  have "end_op s = Inr (s'\<lparr>log_committing := False\<rparr>)"
    using s'(1) assms(3,4) by (simp add: end_op_def)
  moreover have "disk s' (src_block s' m) = view s m" if "m \<in> home s" for m
    using s'(2) v that by (simp add: quiet_def home_def)
  moreover have "rc s' = (\<lambda>_. 0)" "lock_of s' = (\<lambda>_. None)" using s'(2) by (simp_all add: quiet_def)
  moreover have "log_outstanding s' = 0" using F s'(5) by simp
  ultimately show ?thesis using s'(3) v by simp
qed

theorem end_op_commits_witness:
  "\<exists>(s :: lstate) s'. lh_n s = 1 \<and> end_op s = Inr s' \<and> lh_n s' = 0 \<and> \<not> log_committing s'"
proof (rule demo_txn)
  fix s :: lstate
  assume s: "txn s" "lock_of s = (\<lambda>_. None)" "lh_n s = 1" "tframe booted s"
  have "log_outstanding s = 1" "\<not> log_committing s" "0 < lh_n s"
    using tframe_fields [OF s(4)] s(3) by (simp_all add: booted_fields)
  from end_op_commits [OF s(1,2) this] s(3) show ?thesis by blast
qed

section \<open>Recovery and the reference counts\<close>

text \<open>C23: Recovery redoes the log and leaks its buffers: on a machine that boots with a committed log,
  \<^verbatim>\<open>recover_from_log\<close> returns, copies every logged block home and clears the log; but as it unpins buffers that it never
  pinned, each home block keeps a buffer whose count has wrapped to \<open>2 ^ 32 - 1\<close>, so that the cache can recycle fewer
  buffers by the number of recovered blocks, for good.\<close>

theorem recovery_redoes_and_leaks:
  fixes s :: "'a lstate_scheme"
  assumes "quiet (\<lambda>_. 0) {} s" and "log_geometry s" and "hdr_valid (home s) (view s (nat (log_start s)))"
  defines "bl \<equiv> hdr_blocks (view s (nat (log_start s)))"
  shows "\<exists>s'. recover_from_log s = Inr s' \<and> lh_n s' = 0 \<and> hdr_n (view s' (nat (log_start s))) = 0 \<and>
    (\<forall>i < length bl. view s' (bl ! i) = view s (nat (log_start s) + 1 + i)) \<and>
    (\<forall>m \<in> home s - set bl. view s' m = view s m) \<and>
    (\<forall>m. rc s' m = (if m \<in> set bl then 2 ^ 32 - 1 else 0)) \<and> nfree s' = NBUF - length bl"
proof -
  let ?st = "nat (log_start s)" let ?H = "view s ?st"
  let ?lw = "map (\<lambda>i. (bl ! i, view s (?st + 1 + i))) [0..<length bl]"
  obtain s' where s': "recover_from_log s = Inr s'" "quiet (\<lambda>m. if m \<in> set bl then LEAKED else 0) {} s'" "lh_n s' = 0"
    "view s' = apply_writes (recover_writes ?st (view s)) (view s)" "nfree s' = NBUF - length bl"
    using recover_returns [OF assms(1-3)] unfolding returns_iff bl_def by blast
  have w: "recover_writes ?st (view s) = ?lw @ [(?st, put_int ?H 0 0)]"
    by (simp add: recover_writes_def bl_def hdr_blocks_def)
  have V: "distinct bl" "set bl \<subseteq> home s" using assms(3) by (simp_all add: hdr_valid_def bl_def)
  have st: "?st \<notin> home s" using log_addr_head [OF assms(2)] by simp
  have v: "view s' = (apply_writes ?lw (view s))(?st := put_int ?H 0 0)" using s'(4) by (simp add: w)
  have z: "?lw = zip bl (map (\<lambda>i. view s (?st + 1 + i)) [0..<length bl])" by (rule nth_equalityI) simp_all
  have a: "apply_writes ?lw (view s) (bl ! i) = view s (?st + 1 + i)" if "i < length bl" for i
    unfolding z using apply_writes_zip [OF V(1), of "map (\<lambda>i. view s (?st + 1 + i)) [0..<length bl]" i "view s"] that by simp
  have 1: "view s' (bl ! i) = view s (?st + 1 + i)" if "i < length bl" for i
  proof -
    have "bl ! i \<noteq> ?st" using V(2) st nth_mem [OF that] by auto
    then show ?thesis using a that by (simp add: v)
  qed
  have 2: "view s' m = view s m" if "m \<in> home s - set bl" for m
  proof -
    have "m \<notin> fst ` set ?lw" using that by auto
    from apply_writes_other [OF this, of "view s"] show ?thesis using that st by (auto simp: v)
  qed
  have 3: "hdr_n (view s' ?st) = 0" by (simp add: v hdr_n_def put_int_def get_put_le int_of_u32_def u32_of_int_def)
  have 4: "rc s' m = (if m \<in> set bl then 2 ^ 32 - 1 else 0)" for m using s'(2) by (simp add: quiet_def LEAKED_def)
  show ?thesis using s'(1,3,5) 1 2 3 4 by (intro exI [of _ s']) simp
qed

text \<open>A disk on which a transaction on block 40 has committed.\<close>

definition demo_committed :: "nat \<Rightarrow> bytes" where
  "demo_committed = demo_disk(2 := put_head (demo_disk 2) 1 (\<lambda>_. 40))"

theorem recovery_redoes_and_leaks_witness:
  "\<exists>s'. recover_from_log (boot demo_committed ()) = Inr s' \<and> view s' 40 = demo_disk 3 \<and> rc s' 40 = 2 ^ 32 - 1 \<and>
     nfree s' = 29"
proof -
  let ?s = "boot demo_committed ()"
  have ok: "blk_ok (demo_committed n)" for n
    using blk_ok_put_head [of "demo_disk 2" 1 "\<lambda>_. 40"] demo_blk_ok(1) by (simp add: demo_committed_def LOGSIZE_def)
  have q: "quiet (\<lambda>_. 0) {} ?s"
    using boot_txn(1) [of demo_committed "()", OF ok]
    by (auto simp: txn_def quiet_def txn_blocks_def boot_fields boot_abs)
  have H: "view ?s 2 = put_head (demo_disk 2) 1 (\<lambda>_. 40)"
    by (simp add: boot_abs demo_committed_def LOGICAL_DISK_SIZE_def FSSIZE_def)
  have bl: "hdr_blocks (view ?s 2) = [40]"
    unfolding H by (simp add: hdr_blocks_def hdr_put_head u32_of_int_def)
  have v: "hdr_valid (home ?s) (view ?s (nat (log_start ?s)))"
    unfolding hdr_valid_def boot_fields using bl
    by (simp add: H hdr_put_head home_def boot_fields LOGSIZE_def LOGICAL_DISK_SIZE_def FSSIZE_def)
  have "view ?s 3 = demo_disk 3" by (simp add: boot_abs demo_committed_def LOGICAL_DISK_SIZE_def FSSIZE_def)
  with recovery_redoes_and_leaks [OF q boot_txn(2) [OF ok] v] bl show ?thesis
    by (auto simp: boot_fields NBUF_def)
qed

end
