(* ===== verification/Proc.thy ===== *)
theory Proc
  imports Txn Vm
begin

text \<open>
  Processes (\<^verbatim>\<open>FileSystem-RAID/kernel/proc.c\<close>, \<^verbatim>\<open>proc.h\<close>): the process table, and the routines that
  change the scheduling state of a process: \<^verbatim>\<open>allocpid\<close>, the page table of a process, \<^verbatim>\<open>freeproc\<close>, \<^verbatim>\<open>allocproc\<close>,
  \<^verbatim>\<open>growproc\<close>, the choice of the scheduler, \<^verbatim>\<open>yield\<close>, \<^verbatim>\<open>sleep\<close>, \<^verbatim>\<open>wakeup\<close>, \<^verbatim>\<open>kill\<close>, and the copies between
  the kernel and the current process. Process pointers are indices of the table. A trap frame is a page of
  memory with the layout of \<^verbatim>\<open>proc.h\<close>. A routine that switches context is cut there: \<open>scheduler_run\<close> and \<open>scheduler_back\<close>
  are the body of the loop of \<^verbatim>\<open>scheduler\<close> before and after \<^verbatim>\<open>swtch\<close>, \<open>yield\<close> and \<open>sleep\<close> end at the switch, and \<open>sleep_resume\<close>
  is the rest. The theory Sched runs them on several CPUs.
\<close>

section \<open>State\<close>

datatype procstate = UNUSED | SLEEPING | RUNNABLE | RUNNING | ZOMBIE

text \<open>The addresses that the sources pass to \<^verbatim>\<open>sleep\<close> and \<^verbatim>\<open>wakeup\<close>.\<close>

datatype chan = Chan_proc nat | Chan_ticks | Chan_nread nat | Chan_nwrite nat | Chan_other nat

record kcontext =
  ctx_ra :: nat
  ctx_sp :: nat
  ctx_saved :: "nat \<Rightarrow> nat"

record proc =
  p_state :: procstate
  p_parent :: "nat option"
  p_chan :: "chan option"
  p_killed :: bool
  p_xstate :: int
  p_pid :: int
  p_kstack :: nat
  p_sz :: nat
  p_pagetable :: nat
  p_trapframe :: nat
  p_context :: kcontext
  p_ofile :: "nat \<Rightarrow> nat option"
  p_cwd :: "nat option"
  p_name :: bytes

record pstate = lstate +
  procs :: "nat \<Rightarrow> proc"
  cpu :: nat
  cpu_proc :: "nat \<Rightarrow> nat option"
  nextpid :: int
  initproc :: "nat option"
  ticks :: nat

definition NPROC :: nat where "NPROC = 64"
definition NCPU :: nat where "NCPU = 8"
definition NOFILE :: nat where "NOFILE = 16"

definition upd_proc :: "nat \<Rightarrow> (proc \<Rightarrow> proc) \<Rightarrow> 'a pstate_scheme \<Rightarrow> 'a pstate_scheme" where
  "upd_proc p f s = s\<lparr>procs := (procs s)(p := f (procs s p))\<rparr>"

text \<open>\<^verbatim>\<open>myproc\<close>: the process of this CPU. System calls run in one; \<open>NPROC\<close> stands for the null pointer.\<close>

definition myproc :: "'a pstate_scheme \<Rightarrow> nat" where
  "myproc s = (case cpu_proc s (cpu s) of Some p \<Rightarrow> p | None \<Rightarrow> NPROC)"

abbreviation mypt :: "'a pstate_scheme \<Rightarrow> nat" where
  "mypt s \<equiv> p_pagetable (procs s (myproc s))"

section \<open>Trap frames\<close>

definition TF_epc :: nat where "TF_epc = 24"
definition TF_sp :: nat where "TF_sp = 48"
definition TF_a :: "nat \<Rightarrow> nat" where "TF_a n = 112 + 8 * n"
definition TF_size :: nat where "TF_size = 288"

definition tf_get :: "nat \<Rightarrow> nat \<Rightarrow> 'a pstate_scheme \<Rightarrow> nat" where
  "tf_get p off s = get_le (mem s) (p_trapframe (procs s p) + off) 8"

definition tf_set :: "nat \<Rightarrow> nat \<Rightarrow> nat \<Rightarrow> 'a pstate_scheme \<Rightarrow> 'a pstate_scheme" where
  "tf_set p off v s = s\<lparr>mem := put_le (mem s) (p_trapframe (procs s p) + off) 8 v\<rparr>"

section \<open>Creating and freeing process structures\<close>

definition KSTACK :: "nat \<Rightarrow> nat" where
  "KSTACK p = TRAMPOLINE - (p + 1) * 2 * PGSIZE"

definition procinit_body :: "nat \<Rightarrow> nat \<Rightarrow> 'a pstate_scheme \<Rightarrow> 'a pstate_scheme kres" where
  "procinit_body kpt p s =
     (let (pa, s) = kalloc s in
      if pa = 0 then Inl (Panic ''kalloc'')
      else
        let va = KSTACK p in
        bindE (kvmmap kpt va pa PGSIZE (PTE_R OR PTE_W) s) (\<lambda>s.
        Inr (upd_proc p (\<lambda>x. x\<lparr>p_kstack := va\<rparr>) s)))"

definition procinit :: "nat \<Rightarrow> 'a pstate_scheme \<Rightarrow> 'a pstate_scheme kres" where
  "procinit kpt s = foldE (procinit_body kpt) [0..<NPROC] s"

definition allocpid :: "'a pstate_scheme \<Rightarrow> int \<times> 'a pstate_scheme" where
  "allocpid s = (let pid = nextpid s in (pid, s\<lparr>nextpid := nextpid s + 1\<rparr>))"

definition proc_pagetable :: "nat \<Rightarrow> nat \<Rightarrow> 'a pstate_scheme \<Rightarrow> (nat \<times> 'a pstate_scheme) kres" where
  "proc_pagetable trampoline p s =
     (let (pagetable, s) = uvmcreate s in
      if pagetable = 0 then Inr (0, s)
      else
        bindE (mappages pagetable TRAMPOLINE PGSIZE trampoline (PTE_R OR PTE_X) s) (\<lambda>(r, s).
        if r < 0 then bindE (uvmfree pagetable 0 s) (\<lambda>s. Inr (0, s))
        else
          bindE (mappages pagetable TRAPFRAME PGSIZE (p_trapframe (procs s p)) (PTE_R OR PTE_W) s) (\<lambda>(r, s).
          if r < 0 then
            bindE (uvmunmap pagetable TRAMPOLINE 1 False s) (\<lambda>s.
            bindE (uvmfree pagetable 0 s) (\<lambda>s. Inr (0, s)))
          else Inr (pagetable, s))))"

definition proc_freepagetable :: "nat \<Rightarrow> nat \<Rightarrow> 'a pstate_scheme \<Rightarrow> 'a pstate_scheme kres" where
  "proc_freepagetable pagetable sz s =
     bindE (uvmunmap pagetable TRAMPOLINE 1 False s) (\<lambda>s.
     bindE (uvmunmap pagetable TRAPFRAME 1 False s) (\<lambda>s.
     uvmfree pagetable sz s))"

definition freeproc :: "nat \<Rightarrow> 'a pstate_scheme \<Rightarrow> 'a pstate_scheme kres" where
  "freeproc p s =
     bindE (if p_trapframe (procs s p) \<noteq> 0 then kfree (p_trapframe (procs s p)) s else Inr s) (\<lambda>s.
     let s = upd_proc p (\<lambda>x. x\<lparr>p_trapframe := 0\<rparr>) s in
     bindE (if p_pagetable (procs s p) \<noteq> 0
            then proc_freepagetable (p_pagetable (procs s p)) (p_sz (procs s p)) s else Inr s) (\<lambda>s.
     Inr (upd_proc p (\<lambda>x. x\<lparr>p_pagetable := 0, p_sz := 0, p_pid := 0, p_parent := None,
                           p_name := (p_name x)(0 := 0), p_chan := None, p_killed := False,
                           p_xstate := 0, p_state := UNUSED\<rparr>) s)))"

primrec find_unused :: "nat \<Rightarrow> nat \<Rightarrow> 'a pstate_scheme \<Rightarrow> nat option" where
  "find_unused 0 p s = None"
| "find_unused (Suc k) p s = (if p_state (procs s p) = UNUSED then Some p else find_unused k (Suc p) s)"

definition allocproc :: "nat \<Rightarrow> nat \<Rightarrow> 'a pstate_scheme \<Rightarrow> (nat option \<times> 'a pstate_scheme) kres" where
  "allocproc trampoline forkret s =
     (case find_unused NPROC 0 s of
        None \<Rightarrow> Inr (None, s)
      | Some p \<Rightarrow>
          let (pid, s) = allocpid s;
              s = upd_proc p (\<lambda>x. x\<lparr>p_pid := pid\<rparr>) s;
              (tf, s) = kalloc s;
              s = upd_proc p (\<lambda>x. x\<lparr>p_trapframe := tf\<rparr>) s in
          if tf = 0 then Inr (None, s)
          else
            bindE (proc_pagetable trampoline p s) (\<lambda>(pt, s).
            let s = upd_proc p (\<lambda>x. x\<lparr>p_pagetable := pt\<rparr>) s in
            if pt = 0 then bindE (freeproc p s) (\<lambda>s. Inr (None, s))
            else
              Inr (Some p, upd_proc p (\<lambda>x. x\<lparr>p_context :=
                \<lparr>ctx_ra = forkret, ctx_sp = p_kstack x + PGSIZE, ctx_saved = (\<lambda>_. 0)\<rparr>\<rparr>) s)))"

text \<open>\<^verbatim>\<open>growproc\<close>: the size is a \<^verbatim>\<open>uint\<close> here, although \<^verbatim>\<open>p->sz\<close> is a \<^verbatim>\<open>uint64\<close>.\<close>

definition growproc :: "int \<Rightarrow> 'a pstate_scheme \<Rightarrow> (int \<times> 'a pstate_scheme) kres" where
  "growproc n s =
     (let p = myproc s; sz = u32 (p_sz (procs s p)); new = u32_of_int (int sz + n) in
      if n > 0 then
        bindE (uvmalloc (p_pagetable (procs s p)) sz new s) (\<lambda>(sz, s).
        let sz = u32 sz in
        if sz = 0 then Inr (-1, s) else Inr (0, upd_proc p (\<lambda>x. x\<lparr>p_sz := sz\<rparr>) s))
      else if n < 0 then
        bindE (uvmdealloc (p_pagetable (procs s p)) sz new s) (\<lambda>(sz, s).
        Inr (0, upd_proc p (\<lambda>x. x\<lparr>p_sz := u32 sz\<rparr>) s))
      else Inr (0, upd_proc p (\<lambda>x. x\<lparr>p_sz := sz\<rparr>) s))"

section \<open>Scheduling\<close>

text \<open>The lock of process \<open>p\<close> among the spin locks of the machine.\<close>

definition plock :: "nat \<Rightarrow> nat" where "plock p = p"

text \<open>
  The body of the loop in \<^verbatim>\<open>scheduler\<close>: up to the switch to the process, and from the switch back to the end
  of the body. The process that is switched to releases its lock and takes it again before it switches back.
\<close>

definition scheduler_run :: "nat \<Rightarrow> smp \<Rightarrow> 'a pstate_scheme \<Rightarrow> (bool \<times> smp \<times> 'a pstate_scheme) kres" where
  "scheduler_run p m s =
     bindE (acquire (cpu s) (plock p) m) (\<lambda>m.
     if p_state (procs s p) = RUNNABLE then
       let s = upd_proc p (\<lambda>x. x\<lparr>p_state := RUNNING\<rparr>) s;
           s = s\<lparr>cpu_proc := (cpu_proc s)(cpu s := Some p), curpid := p_pid (procs s p)\<rparr> in
       Inr (True, m, s)
     else bindE (release (cpu s) (plock p) m) (\<lambda>m. Inr (False, m, s)))"

definition scheduler_back :: "nat \<Rightarrow> smp \<Rightarrow> 'a pstate_scheme \<Rightarrow> (smp \<times> 'a pstate_scheme) kres" where
  "scheduler_back p m s =
     (let s = s\<lparr>cpu_proc := (cpu_proc s)(cpu s := None)\<rparr> in
      bindE (release (cpu s) (plock p) m) (\<lambda>m. Inr (m, s)))"

text \<open>\<^verbatim>\<open>sched\<close> up to the switch to the scheduler.\<close>

definition sched :: "smp \<Rightarrow> 'a pstate_scheme \<Rightarrow> unit kres" where
  "sched m s =
     (let p = myproc s; c = cpu s in
      if \<not> holding c (plock p) m then Inl (Panic ''sched p->lock'')
      else if noff (cpus m c) \<noteq> 1 then Inl (Panic ''sched locks'')
      else if p_state (procs s p) = RUNNING then Inl (Panic ''sched running'')
      else if intr (cpus m c) then Inl (Panic ''sched interruptible'')
      else Inr ())"

text \<open>\<^verbatim>\<open>yield\<close> and \<^verbatim>\<open>sleep\<close> up to the switch; \<open>sleep_resume\<close> is the rest of \<^verbatim>\<open>sleep\<close>, after the wakeup.\<close>

definition yield :: "smp \<Rightarrow> 'a pstate_scheme \<Rightarrow> (smp \<times> 'a pstate_scheme) kres" where
  "yield m s =
     (let p = myproc s in
      bindE (acquire (cpu s) (plock p) m) (\<lambda>m.
      let s = upd_proc p (\<lambda>x. x\<lparr>p_state := RUNNABLE\<rparr>) s in
      bindE (sched m s) (\<lambda>_. Inr (m, s))))"

definition set_sleeping :: "chan \<Rightarrow> 'a pstate_scheme \<Rightarrow> 'a pstate_scheme" where
  "set_sleeping ch s = upd_proc (myproc s) (\<lambda>x. x\<lparr>p_chan := Some ch, p_state := SLEEPING\<rparr>) s"

definition tidy_up :: "'a pstate_scheme \<Rightarrow> 'a pstate_scheme" where
  "tidy_up s = upd_proc (myproc s) (\<lambda>x. x\<lparr>p_chan := None\<rparr>) s"

definition sleep :: "chan \<Rightarrow> nat \<Rightarrow> smp \<Rightarrow> 'a pstate_scheme \<Rightarrow> (smp \<times> 'a pstate_scheme) kres" where
  "sleep ch lk m s =
     (let p = myproc s in
      bindE (if lk \<noteq> plock p then bindE (acquire (cpu s) (plock p) m) (release (cpu s) lk) else Inr m) (\<lambda>m.
      let s = set_sleeping ch s in
      bindE (sched m s) (\<lambda>_. Inr (m, s))))"

definition sleep_resume :: "nat \<Rightarrow> smp \<Rightarrow> 'a pstate_scheme \<Rightarrow> (smp \<times> 'a pstate_scheme) kres" where
  "sleep_resume lk m s =
     (let p = myproc s; s = tidy_up s in
      bindE (if lk \<noteq> plock p then bindE (release (cpu s) (plock p) m) (acquire (cpu s) lk) else Inr m) (\<lambda>m.
      Inr (m, s)))"

definition wakeup :: "chan \<Rightarrow> 'a pstate_scheme \<Rightarrow> 'a pstate_scheme" where
  "wakeup ch s =
     fold (\<lambda>p s. if p_state (procs s p) = SLEEPING \<and> p_chan (procs s p) = Some ch
                then upd_proc p (\<lambda>x. x\<lparr>p_state := RUNNABLE\<rparr>) s else s) [0..<NPROC] s"

definition wakeup1 :: "nat \<Rightarrow> smp \<Rightarrow> 'a pstate_scheme \<Rightarrow> 'a pstate_scheme kres" where
  "wakeup1 p m s =
     (if \<not> holding (cpu s) (plock p) m then Inl (Panic ''wakeup1'')
      else if p_chan (procs s p) = Some (Chan_proc p) \<and> p_state (procs s p) = SLEEPING
      then Inr (upd_proc p (\<lambda>x. x\<lparr>p_state := RUNNABLE\<rparr>) s) else Inr s)"

primrec kill_from :: "nat \<Rightarrow> nat \<Rightarrow> int \<Rightarrow> 'a pstate_scheme \<Rightarrow> int \<times> 'a pstate_scheme" where
  "kill_from 0 p pid s = (-1, s)"
| "kill_from (Suc k) p pid s =
     (if p_pid (procs s p) = pid then
        let s = upd_proc p (\<lambda>x. x\<lparr>p_killed := True\<rparr>) s;
            s = (if p_state (procs s p) = SLEEPING
                 then upd_proc p (\<lambda>x. x\<lparr>p_state := RUNNABLE\<rparr>) s else s) in
        (0, s)
      else kill_from k (Suc p) pid s)"

definition kill :: "int \<Rightarrow> 'a pstate_scheme \<Rightarrow> int \<times> 'a pstate_scheme" where
  "kill pid s = kill_from NPROC 0 pid s"

text \<open>The result of a call that may sleep: a value, or the point at which it continues after the wakeup.\<close>

datatype call_result = Done int | Asleep nat

section \<open>Copies between the kernel and the current process\<close>

text \<open>
  A kernel address is an offset into the kernel object \<open>kobj\<close> that the caller passes; the result carries the
  changed object.
\<close>

definition either_copyout ::
  "bool \<Rightarrow> nat \<Rightarrow> bytes \<Rightarrow> bytes \<Rightarrow> nat \<Rightarrow> nat \<Rightarrow> 'a pstate_scheme \<Rightarrow> (int \<times> bytes \<times> 'a pstate_scheme) kres" where
  "either_copyout user_dst dst kobj src soff len s =
     (if user_dst then bindE (copyout (mypt s) dst src soff len s) (\<lambda>(r, s). Inr (r, kobj, s))
      else Inr (0, blit kobj dst src soff len, s))"

definition either_copyin ::
  "bytes \<Rightarrow> nat \<Rightarrow> bool \<Rightarrow> nat \<Rightarrow> bytes \<Rightarrow> nat \<Rightarrow> 'a pstate_scheme \<Rightarrow> (int \<times> bytes \<times> 'a pstate_scheme) kres" where
  "either_copyin dst doff user_src src kobj len s =
     (if user_src then copyin (mypt s) dst doff src len s
      else Inr (0, blit dst doff kobj src len, s))"

section \<open>Wakeup\<close>

lemma upd_proc_frame [simp]:
  "mem (upd_proc p f s) = mem s" "cpu (upd_proc p f s) = cpu s" "cpu_proc (upd_proc p f s) = cpu_proc s"
  "myproc (upd_proc p f s) = myproc s" "procs (upd_proc p f s) = (procs s)(p := f (procs s p))"
  "nextpid (upd_proc p f s) = nextpid s" "initproc (upd_proc p f s) = initproc s"
  "pstate.more (upd_proc p f s) = pstate.more s" "curpid (upd_proc p f s) = curpid s"
  by (simp_all add: upd_proc_def myproc_def)

text \<open>\<^verbatim>\<open>wakeup\<close> makes exactly the processes runnable that sleep on the channel.\<close>

definition woken :: "chan \<Rightarrow> proc \<Rightarrow> proc" where
  "woken ch x = (if p_state x = SLEEPING \<and> p_chan x = Some ch then x\<lparr>p_state := RUNNABLE\<rparr> else x)"

lemma wakeup_eq: "wakeup ch s = s\<lparr>procs := (\<lambda>p. if p < NPROC then woken ch (procs s p) else procs s p)\<rparr>"
proof -
  define f where "f = (\<lambda>p (s :: 'a pstate_scheme). if p_state (procs s p) = SLEEPING \<and> p_chan (procs s p) = Some ch
                then upd_proc p (\<lambda>x. x\<lparr>p_state := RUNNABLE\<rparr>) s else s)"
  have "fold f ps s = s\<lparr>procs := (\<lambda>p. if p \<in> set ps then woken ch (procs s p) else procs s p)\<rparr>" for ps s
  proof (induction ps arbitrary: s)
    case (Cons q ps)
    have q: "f q s = s\<lparr>procs := (procs s)(q := woken ch (procs s q))\<rparr>"
      by (auto simp: f_def woken_def upd_proc_def)
    have "woken ch (woken ch x) = woken ch x" for x by (simp add: woken_def)
    then have "(\<lambda>p. if p \<in> set ps then woken ch (((procs s)(q := woken ch (procs s q))) p) else ((procs s)(q := woken ch (procs s q))) p)
        = (\<lambda>p. if p \<in> set (q # ps) then woken ch (procs s p) else procs s p)"
      by auto
    then show ?case using Cons [of "f q s", unfolded q] by (simp add: q cong: if_cong)
  qed simp
  from this [of "[0..<NPROC]" s] show ?thesis by (simp add: wakeup_def f_def)
qed

lemma wakeup_frame [simp]:
  "mem (wakeup ch s) = mem s" "cpu (wakeup ch s) = cpu s" "cpu_proc (wakeup ch s) = cpu_proc s" "myproc (wakeup ch s) = myproc s"
  "nextpid (wakeup ch s) = nextpid s" "initproc (wakeup ch s) = initproc s" "pstate.more (wakeup ch s) = pstate.more s"
  "p_pagetable (procs (wakeup ch s) p) = p_pagetable (procs s p)" "p_pid (procs (wakeup ch s) p) = p_pid (procs s p)"
  by (simp_all add: wakeup_eq woken_def myproc_def)

section \<open>One process on one CPU\<close>

definition demo_proc :: "nat \<Rightarrow> proc" where
  "demo_proc pt = \<lparr>p_state = RUNNING, p_parent = Some 0, p_chan = None, p_killed = False, p_xstate = 0, p_pid = 1,
     p_kstack = 0, p_sz = 4096, p_pagetable = pt, p_trapframe = 20480,
     p_context = \<lparr>ctx_ra = 0, ctx_sp = 0, ctx_saved = (\<lambda>_. 0)\<rparr>, p_ofile = (\<lambda>_. None), p_cwd = Some 0, p_name = (\<lambda>_. 0)\<rparr>"

text \<open>The booted machine with the process 1, whose user page is that of the virtual memory theory, running on CPU 0.\<close>

definition demo_machine :: "(nat \<Rightarrow> bytes) \<Rightarrow> 'a \<Rightarrow> 'a pstate_scheme" where
  "demo_machine d r = (boot d (pstate_ext (\<lambda>_. demo_proc 4096) 0 ((\<lambda>_. None)(0 := Some 1)) 2 (Some 0) 0 r))\<lparr>mem := demo_mem\<rparr>"

lemma pstate_fields:
  assumes "lstate.more s = pstate_ext P c cp n i t r"
  shows "procs s = P" "cpu s = c" "cpu_proc s = cp" "nextpid s = n" "initproc s = i" "ticks s = t" "pstate.more s = r"
  using assms by (cases s; simp add: pstate.defs)+

lemma demo_machine_fields [simp]:
  "procs (demo_machine d r) = (\<lambda>_. demo_proc 4096)" "cpu (demo_machine d r) = 0"
  "cpu_proc (demo_machine d r) = (\<lambda>_. None)(0 := Some 1)" "myproc (demo_machine d r) = 1"
  "pstate.more (demo_machine d r) = r" "mem (demo_machine d r) = demo_mem" "curpid (demo_machine d r) = 1"
proof -
  have m: "lstate.more (demo_machine d r) = pstate_ext (\<lambda>_. demo_proc 4096) 0 ((\<lambda>_. None)(0 := Some 1)) 2 (Some 0) 0 r"
    by (simp add: demo_machine_def boot_fields)
  note F = pstate_fields [OF m]
  show "procs (demo_machine d r) = (\<lambda>_. demo_proc 4096)" "cpu (demo_machine d r) = 0"
    "cpu_proc (demo_machine d r) = (\<lambda>_. None)(0 := Some 1)" "myproc (demo_machine d r) = 1"
    "pstate.more (demo_machine d r) = r" by (simp_all add: F myproc_def)
  show "mem (demo_machine d r) = demo_mem" "curpid (demo_machine d r) = 1" by (simp_all add: demo_machine_def boot_fields)
qed

end
