(* ===== verification/Fs.thy ===== *)
theory Fs
  imports Proc CStrings
begin

text \<open>
  The file system layers (\<^verbatim>\<open>FileSystem-RAID/kernel/fs.c\<close>): free block map, inodes, file contents, directories
  and path names, on top of the transactions of the log. An in-memory inode pointer is an index of the inode
  cache; a pointer that may be null is an option. A kernel buffer that \<^verbatim>\<open>readi\<close> or \<^verbatim>\<open>writei\<close> works on
  is a byte array passed in and out. A path is the list of its characters before the NUL; \<^verbatim>\<open>name\<close> is
  the array of \<^verbatim>\<open>DIRSIZ\<close> bytes that the code uses, without a NUL when the element fills it.

  \<^verbatim>\<open>namex\<close> calls itself for a symbolic link in the middle of a path. The model takes the number of nested calls it may
  make as an argument; the system calls use \<open>NAMEX_DEPTH\<close>, above which the two \<^verbatim>\<open>MAXPATH\<close> buffers
  of each call do not fit the one-page kernel stack.
\<close>

section \<open>State\<close>

record inode =
  i_dev :: nat
  i_inum :: nat
  i_ref :: int
  i_lock :: sleeplock
  i_valid :: bool
  i_type :: int
  i_major :: int
  i_minor :: int
  i_nlink :: int
  i_size :: nat
  i_addrs :: "nat \<Rightarrow> nat"

record istate = pstate +
  sb :: superblock
  inodes :: "nat \<Rightarrow> inode"

record stat =
  st_dev :: int
  st_ino :: nat
  st_type :: int
  st_nlink :: int
  st_size :: nat
  st_mode :: int

definition NINODE :: nat where "NINODE = 50"
definition ROOTINO :: nat where "ROOTINO = 1"
definition FSMAGIC :: nat where "FSMAGIC = 270544960"
definition NDIRECT :: nat where "NDIRECT = 12"
definition NINDIRECT :: nat where "NINDIRECT = BSIZE div 4"
definition MAXFILE :: nat where "MAXFILE = NDIRECT + NINDIRECT"
definition IPB :: nat where "IPB = BSIZE div 64"
definition BPB :: nat where "BPB = BSIZE * 8"
definition DIRSIZ :: nat where "DIRSIZ = 14"
definition DESIZE :: nat where "DESIZE = 16"
definition MAXPATH :: nat where "MAXPATH = 128"
definition NAMEX_DEPTH :: nat where "NAMEX_DEPTH = PGSIZE div (2 * MAXPATH)"

definition T_DIR :: int where "T_DIR = 1"
definition T_FILE :: int where "T_FILE = 2"
definition T_DEVICE :: int where "T_DEVICE = 3"
definition T_SYMLINK :: int where "T_SYMLINK = 4"
definition M_READ :: int where "M_READ = 1"
definition M_WRITE :: int where "M_WRITE = 2"

definition IBLOCK :: "nat \<Rightarrow> superblock \<Rightarrow> nat" where
  "IBLOCK i sblk = u32 (i div IPB + sb_inodestart sblk)"

definition BBLOCK :: "nat \<Rightarrow> superblock \<Rightarrow> nat" where
  "BBLOCK b sblk = u32 (b div BPB + sb_bmapstart sblk)"

definition inode_get_mode :: "inode \<Rightarrow> int" where
  "inode_get_mode ip = (if i_type ip = T_DEVICE then 0 else i_minor ip)"

definition inode_set_mode :: "int \<Rightarrow> inode \<Rightarrow> inode" where
  "inode_set_mode mode ip = (if i_type ip \<noteq> T_DEVICE then ip\<lparr>i_minor := mode\<rparr> else ip)"

definition upd_inode :: "nat \<Rightarrow> (inode \<Rightarrow> inode) \<Rightarrow> 'a istate_scheme \<Rightarrow> 'a istate_scheme" where
  "upd_inode i f s = s\<lparr>inodes := (inodes s)(i := f (inodes s i))\<rparr>"

text \<open>A value stored in a \<^verbatim>\<open>short\<close>.\<close>

definition short :: "int \<Rightarrow> int" where
  "short i = int_of_short (short_of_int i)"

section \<open>Super block and free map\<close>

definition superblock_of :: "bytes \<Rightarrow> superblock" where
  "superblock_of d = \<lparr>sb_magic = get_le d 0 4, sb_size = get_le d 4 4, sb_nblocks = get_le d 8 4,
     sb_ninodes = get_le d 12 4, sb_nlog = get_le d 16 4, sb_logstart = get_le d 20 4,
     sb_inodestart = get_le d 24 4, sb_bmapstart = get_le d 28 4\<rparr>"

definition readsb :: "nat \<Rightarrow> 'a istate_scheme \<Rightarrow> 'a istate_scheme kres" where
  "readsb dev s =
     bindE (bread dev 1 s) (\<lambda>(bp, s).
     let s = s\<lparr>sb := superblock_of (bdata s bp)\<rparr> in
     brelse bp s)"

definition fsinit :: "nat \<Rightarrow> 'a istate_scheme \<Rightarrow> 'a istate_scheme kres" where
  "fsinit dev s =
     bindE (readsb dev s) (\<lambda>s.
     if sb_magic (sb s) \<noteq> FSMAGIC then Inl (Panic ''invalid file system'')
     else initlog dev (sb s) s)"

definition bzero :: "nat \<Rightarrow> nat \<Rightarrow> 'a istate_scheme \<Rightarrow> 'a istate_scheme kres" where
  "bzero dev bno s =
     bindE (bread dev bno s) (\<lambda>(bp, s).
     let s = set_bdata bp (fill_bytes (bdata s bp) 0 0 BSIZE) s in
     bindE (log_write bp s) (\<lambda>s.
     brelse bp s))"

definition bmask :: "nat \<Rightarrow> byte" where
  "bmask bi = push_bit (bi mod 8) 1"

text \<open>The inner loop of \<^verbatim>\<open>balloc\<close>: the first clear bit of one map block.\<close>

primrec balloc_scan :: "nat \<Rightarrow> nat \<Rightarrow> nat \<Rightarrow> nat \<Rightarrow> bytes \<Rightarrow> nat option" where
  "balloc_scan 0 bi b sz d = None"
| "balloc_scan (Suc k) bi b sz d =
     (if b + bi < sz then
        if d (bi div 8) AND bmask bi = 0 then Some bi else balloc_scan k (Suc bi) b sz d
      else None)"

function balloc_from :: "nat \<Rightarrow> nat \<Rightarrow> nat \<Rightarrow> 'a istate_scheme \<Rightarrow> (nat \<times> 'a istate_scheme) kres" where
  "balloc_from sz b dev s =
     (if b < sz then
        bindE (bread dev (BBLOCK b (sb s)) s) (\<lambda>(bp, s).
        case balloc_scan BPB 0 b sz (bdata s bp) of
          Some bi \<Rightarrow>
            let d = bdata s bp;
                s = set_bdata bp (d(bi div 8 := d (bi div 8) OR bmask bi)) s in
            bindE (log_write bp s) (\<lambda>s.
            bindE (brelse bp s) (\<lambda>s.
            bindE (bzero dev (b + bi) s) (\<lambda>s.
            Inr (b + bi, s))))
        | None \<Rightarrow>
            bindE (brelse bp s) (\<lambda>s. balloc_from sz (b + BPB) dev s))
      else Inl (Panic ''balloc: out of blocks''))"
  by pat_completeness auto
termination
  by (relation "measure (\<lambda>(sz, b, dev, s). sz - b)") (auto simp: BPB_def BSIZE_def)

declare balloc_from.simps [simp del]

definition balloc :: "nat \<Rightarrow> 'a istate_scheme \<Rightarrow> (nat \<times> 'a istate_scheme) kres" where
  "balloc dev s = balloc_from (sb_size (sb s)) 0 dev s"

definition bfree :: "nat \<Rightarrow> nat \<Rightarrow> 'a istate_scheme \<Rightarrow> 'a istate_scheme kres" where
  "bfree dev b s =
     bindE (bread dev (BBLOCK b (sb s)) s) (\<lambda>(bp, s).
     let bi = b mod BPB; m = bmask bi; d = bdata s bp in
     if d (bi div 8) AND m = 0 then Inl (Panic ''freeing free block'')
     else
       let s = set_bdata bp (d(bi div 8 := d (bi div 8) AND NOT m)) s in
       bindE (log_write bp s) (\<lambda>s.
       brelse bp s))"

section \<open>Inodes\<close>

text \<open>The on-disk inode at byte \<open>off\<close> of a block.\<close>

definition dinode_off :: "nat \<Rightarrow> nat" where
  "dinode_off inum = 64 * (inum mod IPB)"

definition get_short :: "bytes \<Rightarrow> nat \<Rightarrow> int" where
  "get_short d off = int_of_short (get_le d off 2)"

definition put_short :: "int \<Rightarrow> nat \<Rightarrow> bytes \<Rightarrow> bytes" where
  "put_short v off d = put_le d off 2 (short_of_int v)"

primrec put_addrs :: "nat \<Rightarrow> (nat \<Rightarrow> nat) \<Rightarrow> nat \<Rightarrow> bytes \<Rightarrow> bytes" where
  "put_addrs 0 a off d = d"
| "put_addrs (Suc k) a off d = put_le (put_addrs k a off d) (off + 4 * k) 4 (a k)"

definition put_dinode :: "inode \<Rightarrow> nat \<Rightarrow> bytes \<Rightarrow> bytes" where
  "put_dinode ip off d =
     (let d = put_short (i_type ip) off d;
          d = put_short (i_major ip) (off + 2) d;
          d = put_short (i_minor ip) (off + 4) d;
          d = put_short (i_nlink ip) (off + 6) d;
          d = put_le d (off + 8) 4 (i_size ip) in
      put_addrs (NDIRECT + 1) (i_addrs ip) (off + 12) d)"

definition get_dinode :: "bytes \<Rightarrow> nat \<Rightarrow> inode \<Rightarrow> inode" where
  "get_dinode d off ip = ip\<lparr>i_type := get_short d off, i_major := get_short d (off + 2),
     i_minor := get_short d (off + 4), i_nlink := get_short d (off + 6), i_size := get_le d (off + 8) 4,
     i_addrs := (\<lambda>k. if k \<le> NDIRECT then get_le d (off + 12 + 4 * k) 4 else i_addrs ip k)\<rparr>"

definition iinit :: "'a istate_scheme \<Rightarrow> 'a istate_scheme" where
  "iinit s = fold (\<lambda>i s. upd_inode i (\<lambda>x. x\<lparr>i_lock := initsleeplock\<rparr>) s) [0..<NINODE] s"

text \<open>The search of \<^verbatim>\<open>iget\<close>: the cached entry, or else the first empty slot.\<close>

primrec iget_scan ::
  "nat \<Rightarrow> nat \<Rightarrow> nat option \<Rightarrow> nat \<Rightarrow> nat \<Rightarrow> (nat \<Rightarrow> inode) \<Rightarrow> nat + nat option" where
  "iget_scan 0 i slot dev inum tab = Inr slot"
| "iget_scan (Suc k) i slot dev inum tab =
     (if i_ref (tab i) > 0 \<and> i_dev (tab i) = dev \<and> i_inum (tab i) = inum then Inl i
      else
        let slot = (if slot = None \<and> i_ref (tab i) = 0 then Some i else slot) in
        iget_scan k (Suc i) slot dev inum tab)"

definition iget :: "nat \<Rightarrow> nat \<Rightarrow> 'a istate_scheme \<Rightarrow> (nat \<times> 'a istate_scheme) kres" where
  "iget dev inum s =
     (case iget_scan NINODE 0 None dev inum (inodes s) of
        Inl ip \<Rightarrow> Inr (ip, upd_inode ip (\<lambda>x. x\<lparr>i_ref := i_ref x + 1\<rparr>) s)
      | Inr None \<Rightarrow> Inl (Panic ''iget: no inodes'')
      | Inr (Some ip) \<Rightarrow>
          Inr (ip, upd_inode ip (\<lambda>x. x\<lparr>i_dev := dev, i_inum := inum, i_ref := 1, i_valid := False\<rparr>) s))"

definition idup :: "nat \<Rightarrow> 'a istate_scheme \<Rightarrow> 'a istate_scheme" where
  "idup ip s = upd_inode ip (\<lambda>x. x\<lparr>i_ref := i_ref x + 1\<rparr>) s"

function ialloc_from :: "nat \<Rightarrow> nat \<Rightarrow> nat \<Rightarrow> int \<Rightarrow> 'a istate_scheme \<Rightarrow> (nat \<times> 'a istate_scheme) kres" where
  "ialloc_from ninodes inum dev type s =
     (if inum < ninodes then
        bindE (bread dev (IBLOCK inum (sb s)) s) (\<lambda>(bp, s).
        let off = dinode_off inum in
        if get_short (bdata s bp) off = 0 then
          let d = fill_bytes (bdata s bp) off 0 64;
              d = put_short type off d;
              d = (if type \<noteq> T_DEVICE then put_short (M_READ OR M_WRITE) (off + 4) d else d);
              s = set_bdata bp d s in
          bindE (log_write bp s) (\<lambda>s.
          bindE (brelse bp s) (\<lambda>s.
          iget dev inum s))
        else bindE (brelse bp s) (\<lambda>s. ialloc_from ninodes (inum + 1) dev type s))
      else Inl (Panic ''ialloc: no inodes''))"
  by pat_completeness auto
termination
  by (relation "measure (\<lambda>(ninodes, inum, dev, type, s). ninodes - inum)") auto

declare ialloc_from.simps [simp del]

definition ialloc :: "nat \<Rightarrow> int \<Rightarrow> 'a istate_scheme \<Rightarrow> (nat \<times> 'a istate_scheme) kres" where
  "ialloc dev type s = ialloc_from (sb_ninodes (sb s)) 1 dev type s"

definition iupdate :: "nat \<Rightarrow> 'a istate_scheme \<Rightarrow> 'a istate_scheme kres" where
  "iupdate ip s =
     bindE (bread (i_dev (inodes s ip)) (IBLOCK (i_inum (inodes s ip)) (sb s)) s) (\<lambda>(bp, s).
     let s = set_bdata bp (put_dinode (inodes s ip) (dinode_off (i_inum (inodes s ip))) (bdata s bp)) s in
     bindE (log_write bp s) (\<lambda>s.
     brelse bp s))"

definition ilock :: "nat option \<Rightarrow> 'a istate_scheme \<Rightarrow> 'a istate_scheme kres" where
  "ilock r s =
     (case r of
        None \<Rightarrow> Inl (Panic ''ilock'')
      | Some ip \<Rightarrow>
          if i_ref (inodes s ip) < 1 then Inl (Panic ''ilock'')
          else
            bindE (acquiresleep (curpid s) (i_lock (inodes s ip))) (\<lambda>lk.
            let s = upd_inode ip (\<lambda>x. x\<lparr>i_lock := lk\<rparr>) s in
            if \<not> i_valid (inodes s ip) then
              bindE (bread (i_dev (inodes s ip)) (IBLOCK (i_inum (inodes s ip)) (sb s)) s) (\<lambda>(bp, s).
              let s = upd_inode ip (get_dinode (bdata s bp) (dinode_off (i_inum (inodes s ip)))) s in
              bindE (brelse bp s) (\<lambda>s.
              let s = upd_inode ip (\<lambda>x. x\<lparr>i_valid := True\<rparr>) s in
              if i_type (inodes s ip) = 0 then Inl (Panic ''ilock: no type'') else Inr s))
            else Inr s))"

definition iunlock :: "nat option \<Rightarrow> 'a istate_scheme \<Rightarrow> 'a istate_scheme kres" where
  "iunlock r s =
     (case r of
        None \<Rightarrow> Inl (Panic ''iunlock'')
      | Some ip \<Rightarrow>
          if \<not> holdingsleep (curpid s) (i_lock (inodes s ip)) \<or> i_ref (inodes s ip) < 1
          then Inl (Panic ''iunlock'')
          else Inr (upd_inode ip (\<lambda>x. x\<lparr>i_lock := releasesleep (i_lock x)\<rparr>) s))"

section \<open>Inode contents\<close>

definition set_addr :: "nat \<Rightarrow> nat \<Rightarrow> nat \<Rightarrow> 'a istate_scheme \<Rightarrow> 'a istate_scheme" where
  "set_addr ip k v = upd_inode ip (\<lambda>x. x\<lparr>i_addrs := (i_addrs x)(k := v)\<rparr>)"

definition bmap :: "nat \<Rightarrow> nat \<Rightarrow> 'a istate_scheme \<Rightarrow> (nat \<times> 'a istate_scheme) kres" where
  "bmap ip bn s =
     (if bn < NDIRECT then
        if i_addrs (inodes s ip) bn = 0 then
          bindE (balloc (i_dev (inodes s ip)) s) (\<lambda>(addr, s).
          if addr = 0 then Inl (Panic ''bmap: balloc failed'')
          else Inr (addr, set_addr ip bn addr s))
        else Inr (i_addrs (inodes s ip) bn, s)
      else
        let bn = bn - NDIRECT in
        if bn < NINDIRECT then
          bindE (if i_addrs (inodes s ip) NDIRECT = 0 then
                   bindE (balloc (i_dev (inodes s ip)) s) (\<lambda>(addr, s).
                   if addr = 0 then Inl (Panic ''bmap: balloc failed for indirect block'')
                   else Inr (addr, set_addr ip NDIRECT addr s))
                 else Inr (i_addrs (inodes s ip) NDIRECT, s)) (\<lambda>(addr, s).
          bindE (bread (i_dev (inodes s ip)) addr s) (\<lambda>(bp, s).
          let target_addr = get_le (bdata s bp) (4 * bn) 4 in
          if target_addr = 0 then
            bindE (balloc (i_dev (inodes s ip)) s) (\<lambda>(target_addr, s).
            if target_addr = 0 then Inl (Panic ''bmap: balloc failed for data block via indirect'')
            else
              let s = set_bdata bp (put_le (bdata s bp) (4 * bn) 4 target_addr) s in
              bindE (log_write bp s) (\<lambda>s.
              bindE (brelse bp s) (\<lambda>s. Inr (target_addr, s))))
          else bindE (brelse bp s) (\<lambda>s. Inr (target_addr, s))))
        else Inl (Panic ''bmap: out of range''))"

definition itrunc_direct :: "nat \<Rightarrow> nat \<Rightarrow> 'a istate_scheme \<Rightarrow> 'a istate_scheme kres" where
  "itrunc_direct ip i s =
     (if i_addrs (inodes s ip) i \<noteq> 0 then
        bindE (bfree (i_dev (inodes s ip)) (i_addrs (inodes s ip) i) s) (\<lambda>s. Inr (set_addr ip i 0 s))
      else Inr s)"

definition itrunc_indirect :: "nat \<Rightarrow> nat \<Rightarrow> nat \<Rightarrow> 'a istate_scheme \<Rightarrow> 'a istate_scheme kres" where
  "itrunc_indirect ip bp j s =
     (let a = get_le (bdata s bp) (4 * j) 4 in
      if a \<noteq> 0 then bfree (i_dev (inodes s ip)) a s else Inr s)"

definition itrunc :: "nat \<Rightarrow> 'a istate_scheme \<Rightarrow> 'a istate_scheme kres" where
  "itrunc ip s =
     bindE (foldE (itrunc_direct ip) [0..<NDIRECT] s) (\<lambda>s.
     bindE (if i_addrs (inodes s ip) NDIRECT \<noteq> 0 then
              bindE (bread (i_dev (inodes s ip)) (i_addrs (inodes s ip) NDIRECT) s) (\<lambda>(bp, s).
              bindE (foldE (itrunc_indirect ip bp) [0..<NINDIRECT] s) (\<lambda>s.
              bindE (brelse bp s) (\<lambda>s.
              bindE (bfree (i_dev (inodes s ip)) (i_addrs (inodes s ip) NDIRECT) s) (\<lambda>s.
              Inr (set_addr ip NDIRECT 0 s)))))
            else Inr s) (\<lambda>s.
     let s = upd_inode ip (\<lambda>x. x\<lparr>i_size := 0\<rparr>) s in
     iupdate ip s))"

definition iput :: "nat \<Rightarrow> 'a istate_scheme \<Rightarrow> 'a istate_scheme kres" where
  "iput ip s =
     bindE (if i_ref (inodes s ip) = 1 \<and> i_valid (inodes s ip) \<and> i_nlink (inodes s ip) = 0 then
              bindE (acquiresleep (curpid s) (i_lock (inodes s ip))) (\<lambda>lk.
              let s = upd_inode ip (\<lambda>x. x\<lparr>i_lock := lk\<rparr>) s in
              bindE (itrunc ip s) (\<lambda>s.
              let s = upd_inode ip (\<lambda>x. x\<lparr>i_type := 0\<rparr>) s in
              bindE (iupdate ip s) (\<lambda>s.
              let s = upd_inode ip (\<lambda>x. x\<lparr>i_valid := False\<rparr>) s in
              Inr (upd_inode ip (\<lambda>x. x\<lparr>i_lock := releasesleep (i_lock x)\<rparr>) s))))
            else Inr s) (\<lambda>s.
     Inr (upd_inode ip (\<lambda>x. x\<lparr>i_ref := i_ref x - 1\<rparr>) s))"

definition iunlockput :: "nat \<Rightarrow> 'a istate_scheme \<Rightarrow> 'a istate_scheme kres" where
  "iunlockput ip s = bindE (iunlock (Some ip) s) (iput ip)"

definition stati :: "nat \<Rightarrow> 'a istate_scheme \<Rightarrow> stat" where
  "stati ip s = (let x = inodes s ip in
     \<lparr>st_dev = int_of_u32 (i_dev x), st_ino = i_inum x, st_type = i_type x, st_nlink = i_nlink x,
      st_size = i_size x, st_mode = inode_get_mode x\<rparr>)"

text \<open>
  The loops of \<^verbatim>\<open>readi\<close> and \<^verbatim>\<open>writei\<close>. They end because each turn moves at least one byte, or breaks off.
\<close>

function readi_loop ::
  "nat \<Rightarrow> bool \<Rightarrow> nat \<Rightarrow> bytes \<Rightarrow> nat \<Rightarrow> nat \<Rightarrow> nat \<Rightarrow> 'a istate_scheme \<Rightarrow> (nat \<times> bytes \<times> 'a istate_scheme) kres" where
  "readi_loop ip user_dst dst kobj off tot n s =
     (if tot < n then
        bindE (bmap ip (off div BSIZE) s) (\<lambda>(addr, s).
        bindE (bread (i_dev (inodes s ip)) addr s) (\<lambda>(bp, s).
        let m = min (n - tot) (BSIZE - off mod BSIZE) in
        bindE (either_copyout user_dst dst kobj (bdata s bp) (off mod BSIZE) m s) (\<lambda>(r, kobj, s).
        if r = -1 then bindE (brelse bp s) (\<lambda>s. Inr (tot, kobj, s))
        else
          bindE (brelse bp s) (\<lambda>s.
          readi_loop ip user_dst (u64 (dst + m)) kobj (off + m) (tot + m) n s))))
      else Inr (tot, kobj, s))"
  by pat_completeness auto
termination
  by (relation "measure (\<lambda>(ip, user_dst, dst, kobj, off, tot, n, s). n - tot)") (auto simp: BSIZE_def)

declare readi_loop.simps [simp del]

definition readi ::
  "nat \<Rightarrow> bool \<Rightarrow> nat \<Rightarrow> bytes \<Rightarrow> nat \<Rightarrow> nat \<Rightarrow> 'a istate_scheme \<Rightarrow> (int \<times> bytes \<times> 'a istate_scheme) kres" where
  "readi ip user_dst dst kobj off n s =
     (if off > i_size (inodes s ip) \<or> u32 (off + n) < off then Inr (0, kobj, s)
      else
        let n = (if off + n > i_size (inodes s ip) then i_size (inodes s ip) - off else n) in
        bindE (readi_loop ip user_dst dst kobj off 0 n s) (\<lambda>(tot, kobj, s).
        Inr (int_of_u32 tot, kobj, s)))"

text \<open>The loop of \<^verbatim>\<open>writei\<close> also returns the offset it reached.\<close>

function writei_loop ::
  "nat \<Rightarrow> bool \<Rightarrow> nat \<Rightarrow> bytes \<Rightarrow> nat \<Rightarrow> nat \<Rightarrow> nat \<Rightarrow> 'a istate_scheme \<Rightarrow> (nat \<times> 'a istate_scheme) kres" where
  "writei_loop ip user_src src kobj off tot n s =
     (if tot < n then
        let bn = off div BSIZE in
        bindE (bmap ip bn s) (\<lambda>(disk_lbn, s).
        bindE (bread (i_dev (inodes s ip)) disk_lbn s) (\<lambda>(bp, s).
        let m = min (n - tot) (BSIZE - off mod BSIZE) in
        bindE (either_copyin (bdata s bp) (off mod BSIZE) user_src src kobj m s) (\<lambda>(r, d, s).
        let s = set_bdata bp d s in
        if r = -1 then bindE (brelse bp s) (\<lambda>s. Inr (off, s))
        else
          bindE (log_write bp s) (\<lambda>s.
          bindE (brelse bp s) (\<lambda>s.
          writei_loop ip user_src (u64 (src + m)) kobj (off + m) (tot + m) n s)))))
      else Inr (off, s))"
  by pat_completeness auto
termination
  by (relation "measure (\<lambda>(ip, user_src, src, kobj, off, tot, n, s). n - tot)") (auto simp: BSIZE_def)

declare writei_loop.simps [simp del]

definition writei ::
  "nat \<Rightarrow> bool \<Rightarrow> nat \<Rightarrow> bytes \<Rightarrow> nat \<Rightarrow> nat \<Rightarrow> 'a istate_scheme \<Rightarrow> (int \<times> 'a istate_scheme) kres" where
  "writei ip user_src src kobj off n s =
     (if off > i_size (inodes s ip) \<or> u32 (off + n) < off then Inr (-1, s)
      else if off + n > MAXFILE * BSIZE then Inr (-1, s)
      else
        bindE (writei_loop ip user_src src kobj off 0 n s) (\<lambda>(off, s).
        bindE (if n > 0 then
                 let s = (if off > i_size (inodes s ip) then upd_inode ip (\<lambda>x. x\<lparr>i_size := off\<rparr>) s else s) in
                 iupdate ip s
               else Inr s) (\<lambda>s.
        Inr (int_of_u32 n, s))))"

section \<open>Directories\<close>

definition namecmp :: "bytes \<Rightarrow> bytes \<Rightarrow> nat \<Rightarrow> int" where
  "namecmp s t toff = strncmp s 0 t toff DIRSIZ"

text \<open>The loops run over the size the directory has; nothing they call changes it.\<close>

function dirlookup_from ::
  "nat \<Rightarrow> nat \<Rightarrow> nat \<Rightarrow> bytes \<Rightarrow> 'a istate_scheme \<Rightarrow> ((nat \<times> nat) option \<times> 'a istate_scheme) kres" where
  "dirlookup_from sz off dp name s =
     (if off < sz then
        bindE (readi dp False 0 (\<lambda>_. 0) off DESIZE s) (\<lambda>(r, de, s).
        if r \<noteq> int DESIZE then Inl (Panic ''dirlookup read'')
        else if get_le de 0 2 = 0 then dirlookup_from sz (off + DESIZE) dp name s
        else if namecmp name de 2 = 0 then
          bindE (iget (i_dev (inodes s dp)) (get_le de 0 2) s) (\<lambda>(ip, s). Inr (Some (ip, off), s))
        else dirlookup_from sz (off + DESIZE) dp name s)
      else Inr (None, s))"
  by pat_completeness auto
termination
  by (relation "measure (\<lambda>(sz, off, dp, name, s). sz - off)") (auto simp: DESIZE_def)

declare dirlookup_from.simps [simp del]

definition dirlookup ::
  "nat \<Rightarrow> bytes \<Rightarrow> 'a istate_scheme \<Rightarrow> ((nat \<times> nat) option \<times> 'a istate_scheme) kres" where
  "dirlookup dp name s =
     (if i_type (inodes s dp) \<noteq> T_DIR then Inl (Panic ''dirlookup not DIR'')
      else dirlookup_from (i_size (inodes s dp)) 0 dp name s)"

function dirlink_scan :: "nat \<Rightarrow> nat \<Rightarrow> nat \<Rightarrow> 'a istate_scheme \<Rightarrow> (nat \<times> 'a istate_scheme) kres" where
  "dirlink_scan sz off dp s =
     (if off < sz then
        bindE (readi dp False 0 (\<lambda>_. 0) off DESIZE s) (\<lambda>(r, de, s).
        if r \<noteq> int DESIZE then Inl (Panic ''dirlink read'')
        else if get_le de 0 2 = 0 then Inr (off, s)
        else dirlink_scan sz (off + DESIZE) dp s)
      else Inr (off, s))"
  by pat_completeness auto
termination
  by (relation "measure (\<lambda>(sz, off, dp, s). sz - off)") (auto simp: DESIZE_def)

declare dirlink_scan.simps [simp del]

definition mk_dirent :: "bytes \<Rightarrow> nat \<Rightarrow> bytes" where
  "mk_dirent name inum = put_le (strncpy (\<lambda>_. 0) 2 name 0 DIRSIZ) 0 2 inum"

definition dirlink :: "nat \<Rightarrow> bytes \<Rightarrow> nat \<Rightarrow> 'a istate_scheme \<Rightarrow> (int \<times> 'a istate_scheme) kres" where
  "dirlink dp name inum s =
     bindE (dirlookup dp name s) (\<lambda>(r, s).
     case r of
       Some (ip, off) \<Rightarrow> bindE (iput ip s) (\<lambda>s. Inr (-1, s))
     | None \<Rightarrow>
         bindE (dirlink_scan (i_size (inodes s dp)) 0 dp s) (\<lambda>(off, s).
         bindE (writei dp False 0 (mk_dirent name inum) off DESIZE s) (\<lambda>(r, s).
         if r \<noteq> int DESIZE then Inl (Panic ''dirlink'') else Inr (0, s))))"

section \<open>Paths\<close>

definition SLASH :: byte where "SLASH = 47"

definition skipelem :: "byte list \<Rightarrow> bytes \<Rightarrow> (byte list \<times> bytes) option" where
  "skipelem path name =
     (let path = dropWhile (\<lambda>c. c = SLASH) path in
      if path = [] then None
      else
        let s = takeWhile (\<lambda>c. c \<noteq> SLASH) path;
            path = dropWhile (\<lambda>c. c \<noteq> SLASH) path;
            len = length s;
            name = (if len \<ge> DIRSIZ then blit name 0 (bytes_of_list s) 0 DIRSIZ
                    else (blit name 0 (bytes_of_list s) 0 len)(len := 0)) in
        Some (dropWhile (\<lambda>c. c = SLASH) path, name))"

text \<open>Where a path starts.\<close>

definition namex_start :: "byte list \<Rightarrow> 'a istate_scheme \<Rightarrow> (nat \<times> 'a istate_scheme) kres" where
  "namex_start path s =
     (if path \<noteq> [] \<and> hd path = SLASH then iget ROOTDEV ROOTINO s
      else
        case p_cwd (procs s (myproc s)) of
          Some cwd \<Rightarrow> Inr (cwd, idup cwd s)
        | None \<Rightarrow> Inl (Undef ''idup''))"

text \<open>The NUL-terminated string that \<^verbatim>\<open>readi\<close> left in a buffer.\<close>

definition cstr :: "bytes \<Rightarrow> nat \<Rightarrow> byte list" where
  "cstr d n = takeWhile (\<lambda>c. c \<noteq> 0) (list_of_bytes d 0 n)"

lemma length_dropWhile_less: "xs \<noteq> [] \<Longrightarrow> P (hd xs) \<Longrightarrow> length (dropWhile P xs) < length xs"
  by (cases xs) (auto intro: le_imp_less_Suc length_dropWhile_le)

lemma skipelem_shorter:
  assumes "skipelem path name = Some (path', name')"
  shows "length path' < length path"
proof -
  let ?p = "dropWhile (\<lambda>c. c = SLASH) path"
  have ne: "?p \<noteq> []" and p': "path' = dropWhile (\<lambda>c. c = SLASH) (dropWhile (\<lambda>c. c \<noteq> SLASH) ?p)"
    using assms by (auto simp: skipelem_def Let_def split: if_splits)
  have "hd ?p \<noteq> SLASH" using hd_dropWhile [OF ne] .
  then have "length (dropWhile (\<lambda>c. c \<noteq> SLASH) ?p) < length ?p"
    using ne by (intro length_dropWhile_less)
  then show ?thesis
    unfolding p' using length_dropWhile_le [of "\<lambda>c. c = SLASH"] by (meson le_less_trans less_le_trans)
qed

text \<open>
  The loop of \<^verbatim>\<open>namex\<close>. The result is the inode found (if any), and \<^verbatim>\<open>name\<close>. Reading a link target of
  \<^verbatim>\<open>MAXPATH\<close> or more bytes would write past the end of \<^verbatim>\<open>target\<close>. A call of \<^verbatim>\<open>namex\<close> for a link holds an extra
  reference to the inode where the target starts until it returns.
\<close>

function namex_loop ::
  "nat \<Rightarrow> nat \<Rightarrow> byte list \<Rightarrow> bool \<Rightarrow> bytes \<Rightarrow> 'a istate_scheme \<Rightarrow> (nat option \<times> bytes \<times> 'a istate_scheme) kres" where
  "namex_loop depth ip path nameiparent name s =
     (case skipelem path name of
        None \<Rightarrow>
          if nameiparent then bindE (iput ip s) (\<lambda>s. Inr (None, name, s)) else Inr (Some ip, name, s)
      | Some (path, name) \<Rightarrow>
          bindE (ilock (Some ip) s) (\<lambda>s.
          if i_type (inodes s ip) \<noteq> T_DIR then bindE (iunlockput ip s) (\<lambda>s. Inr (None, name, s))
          else if i_type (inodes s ip) \<noteq> T_DEVICE \<and> inode_get_mode (inodes s ip) AND M_READ = 0
          then bindE (iunlockput ip s) (\<lambda>s. Inr (None, name, s))
          else if nameiparent \<and> path = [] then bindE (iunlock (Some ip) s) (\<lambda>s. Inr (Some ip, name, s))
          else
            bindE (dirlookup ip name s) (\<lambda>(r, s). case r of
              None \<Rightarrow> bindE (iunlockput ip s) (\<lambda>s. Inr (None, name, s))
            | Some (next_ip, off) \<Rightarrow>
                bindE (iunlockput ip s) (\<lambda>s.
                bindE (ilock (Some next_ip) s) (\<lambda>s.
                if i_type (inodes s next_ip) = T_SYMLINK \<and> path \<noteq> [] then
                  let sz = i_size (inodes s next_ip) in
                  if sz \<ge> MAXPATH then Inl (Undef ''namex: target'')
                  else
                    bindE (readi next_ip False 0 (\<lambda>_. 0) 0 sz s) (\<lambda>(r, target, s).
                    if r \<noteq> int sz then bindE (iunlockput next_ip s) (\<lambda>s. Inr (None, name, s))
                    else
                      let target = cstr target sz in
                      bindE (iunlock (Some next_ip) s) (\<lambda>s.
                      bindE (iput next_ip s) (\<lambda>s.
                      bindE (namex_start target s) (\<lambda>(ip, s).
                      if length target + 1 + length path + 1 > MAXPATH
                      then bindE (iput ip s) (\<lambda>s. Inr (None, name, s))
                      else
                        let newpath = target @ SLASH # path in
                        case depth of
                          0 \<Rightarrow> Inl Fuel
                        | Suc depth \<Rightarrow>
                            bindE (namex_start newpath s) (\<lambda>(ip', s).
                            bindE (namex_loop depth ip' newpath nameiparent name s) (\<lambda>(result, name, s).
                            bindE (iput ip s) (\<lambda>s.
                            Inr (result, name, s))))))))
                else
                  bindE (iunlock (Some next_ip) s) (\<lambda>s.
                  namex_loop depth next_ip path nameiparent name s))))))"
  by pat_completeness auto
termination
  by (relation "(\<lambda>(depth, ip, path, nip, name, s). depth) <*mlex*>
      measure (\<lambda>(depth, ip, path, nip, name, s). length path)")
    (auto simp: mlex_prod_def dest: skipelem_shorter [OF sym] skipelem_shorter)

declare namex_loop.simps [simp del]

definition namex ::
  "nat \<Rightarrow> byte list \<Rightarrow> bool \<Rightarrow> bytes \<Rightarrow> 'a istate_scheme \<Rightarrow> (nat option \<times> bytes \<times> 'a istate_scheme) kres" where
  "namex depth path nameiparent name s =
     bindE (namex_start path s) (\<lambda>(ip, s). namex_loop depth ip path nameiparent name s)"

definition namei :: "byte list \<Rightarrow> 'a istate_scheme \<Rightarrow> (nat option \<times> 'a istate_scheme) kres" where
  "namei path s =
     bindE (namex NAMEX_DEPTH path False (\<lambda>_. 0) s) (\<lambda>(r, name, s). Inr (r, s))"

definition nameiparent ::
  "byte list \<Rightarrow> bytes \<Rightarrow> 'a istate_scheme \<Rightarrow> (nat option \<times> bytes \<times> 'a istate_scheme) kres" where
  "nameiparent path name s = namex NAMEX_DEPTH path True name s"

section \<open>Building states\<close>

definition no_inode :: inode where
  "no_inode = \<lparr>i_dev = 0, i_inum = 0, i_ref = 0, i_lock = initsleeplock, i_valid = False, i_type = 0, i_major = 0, i_minor = 0,
     i_nlink = 0, i_size = 0, i_addrs = (\<lambda>_. 0)\<rparr>"

lemma istate_fields:
  assumes "pstate.more s = istate_ext S I r"
  shows "sb s = S" "inodes s = I" "istate.more s = r"
  using assms by (cases s; simp)+

end
