(* ===== verification/Pipe.thy ===== *)
theory Pipe
  imports Fs
begin

text \<open>
  Pipes (\<^verbatim>\<open>FileSystem-RAID/kernel/pipe.c\<close>). A pipe lives in a page of its own; pipe pointers are addresses
  of pages. \<^verbatim>\<open>pipewrite\<close> and \<^verbatim>\<open>piperead\<close> may sleep in the middle. Here they then return \<open>Asleep i\<close>, with the caller
  marked as sleeping, and continue from byte \<open>i\<close> when they are called again after the wakeup, so that
  other processes can use the pipe in between.

  The ring buffer with its wrapping 32-bit counters implements a bounded queue of bytes. The contract of such a
  queue is the locale \<open>bounded_fifo\<close>: whatever the order of insertions and removals, what has been taken
  out, followed by the contents, is what was there at first, followed by what has been put in.
\<close>

section \<open>The contract of a bounded queue\<close>

locale bounded_fifo =
  fixes ok :: "'q \<Rightarrow> bool" and contents :: "'q \<Rightarrow> 'b list" and cap :: nat
    and put :: "'b \<Rightarrow> 'q \<Rightarrow> 'q" and get :: "'q \<Rightarrow> 'q" and front :: "'q \<Rightarrow> 'b"
  assumes ok_put: "ok q \<Longrightarrow> length (contents q) < cap \<Longrightarrow> ok (put b q)"
    and ok_get: "ok q \<Longrightarrow> contents q \<noteq> [] \<Longrightarrow> ok (get q)"
    and contents_put: "ok q \<Longrightarrow> length (contents q) < cap \<Longrightarrow> contents (put b q) = contents q @ [b]"
    and contents_get: "ok q \<Longrightarrow> contents q \<noteq> [] \<Longrightarrow> contents q = front q # contents (get q)"
begin

text \<open>Any number of insertions, as far as they fit.\<close>

lemma fold_put:
  "ok q \<Longrightarrow> length (contents q) + length bs \<le> cap \<Longrightarrow> ok (fold put bs q) \<and> contents (fold put bs q) = contents q @ bs"
proof (induction bs arbitrary: q)
  case (Cons b bs)
  then show ?case using Cons.IH [of "put b q"] by (simp add: ok_put contents_put)
qed simp

lemma funpow_get:
  "ok q \<Longrightarrow> n \<le> length (contents q) \<Longrightarrow> ok ((get ^^ n) q) \<and> contents ((get ^^ n) q) = drop n (contents q)"
proof (induction n arbitrary: q)
  case (Suc n)
  then have ne: "contents q \<noteq> []" by auto
  note c = contents_get [OF Suc.prems(1) ne]
  have "ok ((get ^^ n) (get q)) \<and> contents ((get ^^ n) (get q)) = drop n (contents (get q))"
    using Suc.prems ok_get [OF _ ne] c by (intro Suc.IH) (auto simp: Suc_le_eq dest: arg_cong [where f = length])
  moreover have "drop (Suc n) (contents q) = drop n (contents (get q))" by (subst c) simp
  ultimately show ?case by (simp only: funpow_Suc_right o_apply)
qed simp

end

text \<open>Any sequence of insertions and removals: \<open>w\<close> what was put in, \<open>r\<close> what was taken out.\<close>

inductive fifo_run :: "('q \<Rightarrow> 'b list) \<Rightarrow> nat \<Rightarrow> ('b \<Rightarrow> 'q \<Rightarrow> 'q) \<Rightarrow> ('q \<Rightarrow> 'q) \<Rightarrow> ('q \<Rightarrow> 'b) \<Rightarrow> 'q \<Rightarrow> 'b list \<Rightarrow> 'b list \<Rightarrow> 'q \<Rightarrow> bool"
  for contents cap put get front q0 where
  start: "fifo_run contents cap put get front q0 [] [] q0"
| put: "fifo_run contents cap put get front q0 w r q \<Longrightarrow> length (contents q) < cap \<Longrightarrow>
    fifo_run contents cap put get front q0 (w @ [b]) r (put b q)"
| get: "fifo_run contents cap put get front q0 w r q \<Longrightarrow> contents q \<noteq> [] \<Longrightarrow>
    fifo_run contents cap put get front q0 w (r @ [front q]) (get q)"

context bounded_fifo
begin

lemma fifo_order:
  assumes "ok q0" and "fifo_run contents cap put get front q0 w r q"
  shows "ok q \<and> contents q0 @ w = r @ contents q"
  using assms(2)
proof induction
  case (get w r q)
  then show ?case using ok_get [of q] contents_get [of q] by simp
qed (use assms(1) ok_put contents_put in auto)

end

section \<open>State and operations\<close>

record pipe =
  pi_data :: bytes
  nread :: nat
  nwrite :: nat
  readopen :: bool
  writeopen :: bool

record pipestate = istate +
  pipes :: "nat \<Rightarrow> pipe"

definition PIPESIZE :: nat where "PIPESIZE = 512"

definition upd_pipe :: "nat \<Rightarrow> (pipe \<Rightarrow> pipe) \<Rightarrow> 'a pipestate_scheme \<Rightarrow> 'a pipestate_scheme" where
  "upd_pipe pi f s = s\<lparr>pipes := (pipes s)(pi := f (pipes s pi))\<rparr>"

definition pipeclose :: "nat \<Rightarrow> bool \<Rightarrow> 'a pipestate_scheme \<Rightarrow> 'a pipestate_scheme kres" where
  "pipeclose pi writable s =
     (let s = (if writable then
                 let s = upd_pipe pi (\<lambda>x. x\<lparr>writeopen := False\<rparr>) s in wakeup (Chan_nread pi) s
               else
                 let s = upd_pipe pi (\<lambda>x. x\<lparr>readopen := False\<rparr>) s in wakeup (Chan_nwrite pi) s) in
      if \<not> readopen (pipes s pi) \<and> \<not> writeopen (pipes s pi) then kfree pi s else Inr s)"

definition pipe_full :: "pipe \<Rightarrow> bool" where
  "pipe_full p \<longleftrightarrow> nwrite p = u32 (nread p + PIPESIZE)"

definition pipe_put :: "byte \<Rightarrow> pipe \<Rightarrow> pipe" where
  "pipe_put ch p = p\<lparr>pi_data := (pi_data p)(nwrite p mod PIPESIZE := ch), nwrite := u32 (nwrite p + 1)\<rparr>"

definition pipe_front :: "pipe \<Rightarrow> byte" where
  "pipe_front p = pi_data p (nread p mod PIPESIZE)"

definition pipe_get :: "pipe \<Rightarrow> pipe" where
  "pipe_get p = p\<lparr>nread := u32 (nread p + 1)\<rparr>"

text \<open>\<^verbatim>\<open>pipewrite\<close> from byte \<open>i\<close> on.\<close>

function pipewrite_from ::
  "nat \<Rightarrow> nat \<Rightarrow> nat \<Rightarrow> int \<Rightarrow> 'a pipestate_scheme \<Rightarrow> (call_result \<times> 'a pipestate_scheme) kres" where
  "pipewrite_from i pi addr n s =
     (if int i < n then
        if pipe_full (pipes s pi) then
          if \<not> readopen (pipes s pi) \<or> p_killed (procs s (myproc s)) then Inr (Done (-1), s)
          else
            let s = wakeup (Chan_nread pi) s in
            Inr (Asleep i, set_sleeping (Chan_nwrite pi) s)
        else
          bindE (copyin (mypt s) (\<lambda>_. 0) 0 (u64 (addr + i)) 1 s) (\<lambda>(r, ch, s).
          if r = -1 then Inr (Done (int i), wakeup (Chan_nread pi) s)
          else
            let s = upd_pipe pi (pipe_put (ch 0)) s in
            pipewrite_from (Suc i) pi addr n s)
      else Inr (Done (int i), wakeup (Chan_nread pi) s))"
  by pat_completeness auto
termination
  by (relation "measure (\<lambda>(i, pi, addr, n, s). nat (n - int i))") auto

declare pipewrite_from.simps [simp del]

definition pipewrite_resume ::
  "nat \<Rightarrow> nat \<Rightarrow> nat \<Rightarrow> int \<Rightarrow> 'a pipestate_scheme \<Rightarrow> (call_result \<times> 'a pipestate_scheme) kres" where
  "pipewrite_resume i pi addr n s = pipewrite_from i pi addr n (tidy_up s)"

function piperead_loop ::
  "nat \<Rightarrow> nat \<Rightarrow> nat \<Rightarrow> int \<Rightarrow> 'a pipestate_scheme \<Rightarrow> (call_result \<times> 'a pipestate_scheme) kres" where
  "piperead_loop i pi addr n s =
     (if int i < n then
        if nread (pipes s pi) = nwrite (pipes s pi) then Inr (Done (int i), wakeup (Chan_nwrite pi) s)
        else
          let ch = pipe_front (pipes s pi);
              s = upd_pipe pi pipe_get s in
          bindE (copyout (mypt s) (u64 (addr + i)) (\<lambda>_. ch) 0 1 s) (\<lambda>(r, s).
          if r = -1 then Inr (Done (int i), wakeup (Chan_nwrite pi) s)
          else piperead_loop (Suc i) pi addr n s)
      else Inr (Done (int i), wakeup (Chan_nwrite pi) s))"
  by pat_completeness auto
termination
  by (relation "measure (\<lambda>(i, pi, addr, n, s). nat (n - int i))") auto

declare piperead_loop.simps [simp del]

definition piperead_from ::
  "nat \<Rightarrow> nat \<Rightarrow> int \<Rightarrow> 'a pipestate_scheme \<Rightarrow> (call_result \<times> 'a pipestate_scheme) kres" where
  "piperead_from pi addr n s =
     (if nread (pipes s pi) = nwrite (pipes s pi) \<and> writeopen (pipes s pi) then
        if p_killed (procs s (myproc s)) then Inr (Done (-1), s)
        else Inr (Asleep 0, set_sleeping (Chan_nread pi) s)
      else piperead_loop 0 pi addr n s)"

definition piperead_resume ::
  "nat \<Rightarrow> nat \<Rightarrow> int \<Rightarrow> 'a pipestate_scheme \<Rightarrow> (call_result \<times> 'a pipestate_scheme) kres" where
  "piperead_resume pi addr n s = piperead_from pi addr n (tidy_up s)"

text \<open>A call that is not woken by anybody else.\<close>

definition pipe_call :: "string \<Rightarrow> (call_result \<times> 's) kres \<Rightarrow> (int \<times> 's) kres" where
  "pipe_call what m = bindE m (\<lambda>(r, s). case r of Done v \<Rightarrow> Inr (v, s) | Asleep i \<Rightarrow> Inl (Sleep what))"

definition pipewrite :: "nat \<Rightarrow> nat \<Rightarrow> int \<Rightarrow> 'a pipestate_scheme \<Rightarrow> (int \<times> 'a pipestate_scheme) kres" where
  "pipewrite pi addr n s = pipe_call ''pipewrite'' (pipewrite_from 0 pi addr n s)"

definition piperead :: "nat \<Rightarrow> nat \<Rightarrow> int \<Rightarrow> 'a pipestate_scheme \<Rightarrow> (int \<times> 'a pipestate_scheme) kres" where
  "piperead pi addr n s = pipe_call ''piperead'' (piperead_from pi addr n s)"

section \<open>The ring buffer is a bounded queue\<close>

definition pipe_len :: "pipe \<Rightarrow> nat" where
  "pipe_len p = (nwrite p + 4294967296 - nread p) mod 4294967296"

definition pipe_bytes :: "pipe \<Rightarrow> byte list" where
  "pipe_bytes p = map (\<lambda>k. pi_data p ((nread p + k) mod PIPESIZE)) [0..<pipe_len p]"

definition pipe_ok :: "pipe \<Rightarrow> bool" where
  "pipe_ok p \<longleftrightarrow> nread p < 4294967296 \<and> nwrite p < 4294967296 \<and> pipe_len p \<le> PIPESIZE"

lemma length_pipe_bytes [simp]: "length (pipe_bytes p) = pipe_len p"
  by (simp add: pipe_bytes_def)

lemma pipe_bytes_Nil: "pipe_bytes p = [] \<longleftrightarrow> pipe_len p = 0"
  by (simp add: pipe_bytes_def)

text \<open>The counters wrap at a multiple of the buffer size.\<close>

lemma u32_mod_PIPESIZE: "u32 n mod PIPESIZE = n mod PIPESIZE"
  by (simp add: u32_def PIPESIZE_def mod_mod_cancel)

lemma u32_add_cases:
  "x < 4294967296 \<Longrightarrow> k \<le> 512 \<Longrightarrow> u32 (x + k) = (if x + k < 4294967296 then x + k else x + k - 4294967296)"
  by (auto simp: u32_def mod_if)

lemma mod_4G_cases: "a < 4294967296 \<Longrightarrow> b < 4294967296 \<Longrightarrow>
    (a + 4294967296 - b) mod 4294967296 = (if b \<le> a then a - b else a + 4294967296 - b)"
  for a b :: nat
  by (auto simp: mod_if)

lemma pipe_len_cases:
  "pipe_ok p \<Longrightarrow> pipe_len p = (if nread p \<le> nwrite p then nwrite p - nread p else nwrite p + 4294967296 - nread p)"
  unfolding pipe_len_def by (rule mod_4G_cases) (simp_all add: pipe_ok_def)

lemma pipe_empty_iff: "pipe_ok p \<Longrightarrow> nread p = nwrite p \<longleftrightarrow> pipe_bytes p = []"
  using pipe_len_cases [of p] by (auto simp: pipe_bytes_def pipe_ok_def split: if_splits)

lemma pipe_full_iff: "pipe_ok p \<Longrightarrow> pipe_full p \<longleftrightarrow> pipe_len p = PIPESIZE"
  using pipe_len_cases [of p] u32_add_cases [of "nread p" PIPESIZE]
  by (auto simp: pipe_full_def pipe_ok_def PIPESIZE_def split: if_splits)

lemma pipe_len_put:
  assumes "pipe_ok p" and "pipe_len p < PIPESIZE"
  shows "pipe_len (pipe_put c p) = Suc (pipe_len p)" and "pipe_ok (pipe_put c p)"
proof -
  have b: "nread p < 4294967296" "nwrite p < 4294967296" using assms(1) by (simp_all add: pipe_ok_def)
  have f: "nread (pipe_put c p) = nread p" "nwrite (pipe_put c p) = u32 (nwrite p + 1)" by (simp_all add: pipe_put_def)
  have u: "u32 (nwrite p + 1) < 4294967296" by simp
  show l: "pipe_len (pipe_put c p) = Suc (pipe_len p)"
    unfolding pipe_len_def f mod_4G_cases [OF u b(1)]
    using pipe_len_cases [OF assms(1)] u32_add_cases [of "nwrite p" 1] b assms(2)
    by (auto simp: pipe_len_def [symmetric] PIPESIZE_def split: if_splits)
  show "pipe_ok (pipe_put c p)" using l assms u b by (simp add: pipe_ok_def f)
qed

lemma pipe_len_get:
  assumes "pipe_ok p" and "0 < pipe_len p"
  shows "pipe_len (pipe_get p) = pipe_len p - 1" and "pipe_ok (pipe_get p)"
proof -
  have b: "nread p < 4294967296" "nwrite p < 4294967296" using assms(1) by (simp_all add: pipe_ok_def)
  have f: "nwrite (pipe_get p) = nwrite p" "nread (pipe_get p) = u32 (nread p + 1)" by (simp_all add: pipe_get_def)
  have u: "u32 (nread p + 1) < 4294967296" by simp
  show l: "pipe_len (pipe_get p) = pipe_len p - 1"
    unfolding pipe_len_def f mod_4G_cases [OF b(2) u]
    using pipe_len_cases [OF assms(1)] u32_add_cases [of "nread p" 1] b assms(2)
    by (auto simp: pipe_len_def [symmetric] PIPESIZE_def split: if_splits)
  show "pipe_ok (pipe_get p)" using l assms u b by (simp add: pipe_ok_def f)
qed

lemma pipe_bytes_put:
  assumes "pipe_ok p" and "pipe_len p < PIPESIZE"
  shows "pipe_bytes (pipe_put c p) = pipe_bytes p @ [c]"
proof (rule nth_equalityI)
  note L = pipe_len_put [OF assms, of c]
  show "length (pipe_bytes (pipe_put c p)) = length (pipe_bytes p @ [c])" by (simp add: L)
  fix i assume "i < length (pipe_bytes (pipe_put c p))"
  then have i: "i \<le> pipe_len p" by (simp add: L)
  have w: "nwrite p mod PIPESIZE = (nread p + pipe_len p) mod PIPESIZE"
  proof (cases "nread p \<le> nwrite p")
    case False
    then have "nread p + pipe_len p = nwrite p + PIPESIZE * 8388608"
      using pipe_len_cases [OF assms(1)] assms(1) by (simp add: pipe_ok_def PIPESIZE_def)
    then show ?thesis by (simp only: mod_mult_self2)
  qed (use pipe_len_cases [OF assms(1)] in simp)
  have "(nread p + i) mod PIPESIZE \<noteq> (nread p + pipe_len p) mod PIPESIZE" if "i < pipe_len p"
  proof
    assume "(nread p + i) mod PIPESIZE = (nread p + pipe_len p) mod PIPESIZE"
    then have "PIPESIZE dvd pipe_len p - i"
      using that mod_eq_dvd_iff_nat [of "nread p + i" "nread p + pipe_len p" PIPESIZE] by simp
    then show False using that assms(2) by (auto dest!: dvd_imp_le)
  qed
  with i show "pipe_bytes (pipe_put c p) ! i = (pipe_bytes p @ [c]) ! i"
    unfolding pipe_bytes_def L by (cases "i = pipe_len p") (simp_all add: nth_append pipe_put_def w del: upt_Suc)
qed

lemma pipe_bytes_get:
  assumes "pipe_ok p" and "0 < pipe_len p"
  shows "pipe_bytes p = pipe_front p # pipe_bytes (pipe_get p)"
proof -
  obtain k where k: "pipe_len p = Suc k" using assms(2) by (cases "pipe_len p") auto
  have "(u32 (nread p + 1) + i) mod PIPESIZE = (nread p + Suc i) mod PIPESIZE" for i
    using u32_mod_PIPESIZE [of "nread p + 1"] by (metis add.commute add_Suc_right mod_add_left_eq plus_1_eq_Suc)
  then have "pipe_bytes (pipe_get p) = map (\<lambda>i. pi_data p ((nread p + Suc i) mod PIPESIZE)) [0..<k]"
    using pipe_len_get [OF assms] k by (simp add: pipe_bytes_def pipe_get_def)
  then show ?thesis
    by (simp add: pipe_bytes_def k pipe_front_def upt_rec [of 0 "Suc k"] map_Suc_upt [symmetric] del: upt_Suc)
qed

interpretation ring: bounded_fifo pipe_ok pipe_bytes PIPESIZE pipe_put pipe_get pipe_front
proof unfold_locales
  show "pipe_bytes q = pipe_front q # pipe_bytes (pipe_get q)" if "pipe_ok q" "pipe_bytes q \<noteq> []" for q
    using that by (intro pipe_bytes_get) (simp_all add: pipe_bytes_Nil)
qed (simp_all add: pipe_len_put pipe_len_get pipe_bytes_put pipe_bytes_Nil)

section \<open>Writing and reading\<close>

lemma upd_pipe_simps [simp]:
  "mem (upd_pipe pi f s) = mem s" "procs (upd_pipe pi f s) = procs s" "cpu (upd_pipe pi f s) = cpu s"
  "cpu_proc (upd_pipe pi f s) = cpu_proc s" "myproc (upd_pipe pi f s) = myproc s"
  "pipes (upd_pipe pi f s) = (pipes s)(pi := f (pipes s pi))"
  "upd_pipe pi g (upd_pipe pi f s) = upd_pipe pi (g \<circ> f) s" "upd_pipe pi id s = s"
  by (simp_all add: upd_pipe_def myproc_def)

text \<open>\<open>w\<close> bytes fit; then the call is complete, or the pipe is full.\<close>

lemma pipewrite_from_run:
  assumes "pipe_ok (pipes s pi)" and "\<And>k. k < n \<Longrightarrow> user_pa (mem s) (mypt s) (u64 (addr + k)) = Some (pas k)" and "i \<le> n"
  defines "w \<equiv> min (n - i) (PIPESIZE - pipe_len (pipes s pi))"
  defines "s1 \<equiv> upd_pipe pi (fold pipe_put (map (\<lambda>k. mem s (pas k)) [i..<i + w])) s"
  shows "pipewrite_from i pi addr (int n) s =
    (if i + w = n then Inr (Done (int n), wakeup (Chan_nread pi) s1)
     else if \<not> readopen (pipes s pi) \<or> p_killed (procs s (myproc s)) then Inr (Done (-1), s1)
     else Inr (Asleep (i + w), set_sleeping (Chan_nwrite pi) (wakeup (Chan_nread pi) s1)))"
  using assms(1-3) unfolding w_def s1_def
proof (induction "n - i" arbitrary: i s)
  case 0
  then show ?case by (subst pipewrite_from.simps) (simp flip: id_def)
next
  case (Suc d)
  let ?p = "pipes s pi" let ?c = "mem s (pas i)" let ?s = "upd_pipe pi (pipe_put ?c) s"
  have i: "i < n" using Suc.hyps(2) by simp
  show ?case
  proof (cases "pipe_len ?p = PIPESIZE")
    case True
    then show ?thesis using i Suc.prems(1) by (subst pipewrite_from.simps) (simp add: pipe_full_iff Let_def flip: id_def)
  next
    case False
    then have l: "pipe_len ?p < PIPESIZE" using Suc.prems(1) by (simp add: pipe_ok_def)
    note P = pipe_len_put [OF Suc.prems(1) l, of ?c]
    have ro: "readopen (pipe_put ?c ?p) = readopen ?p" by (simp add: pipe_put_def)
    have cin: "copyin (mypt s) (\<lambda>_. 0) 0 (u64 (addr + i)) 1 s = Inr (0, (\<lambda>_. 0)(0 := ?c), s)"
      unfolding copyin_byte using Suc.prems(2) [OF i] by simp
    have 1: "pipewrite_from i pi addr (int n) s = pipewrite_from (Suc i) pi addr (int n) ?s"
      using i False Suc.prems(1) by (subst pipewrite_from.simps) (simp add: pipe_full_iff cin Let_def del: One_nat_def)
    let ?w = "min (n - Suc i) (PIPESIZE - pipe_len (pipes ?s pi))"
    have w: "i + min (n - i) (PIPESIZE - pipe_len ?p) = Suc i + ?w" using i l P by simp
    have 2: "upd_pipe pi (fold pipe_put (map (\<lambda>k. mem s (pas k)) [Suc i..<Suc i + m])) ?s =
        upd_pipe pi (fold pipe_put (map (\<lambda>k. mem s (pas k)) [i..<Suc i + m])) s" for m
      by (simp add: upt_conv_Cons comp_def del: upt_Suc)
    have 3: "readopen (pipes ?s pi) = readopen ?p" "procs ?s = procs s" "myproc ?s = myproc s" using ro by simp_all
    have "d = n - Suc i" "pipe_ok (pipes ?s pi)" "Suc i \<le> n" using Suc.hyps(2) P i by simp_all
    note IH = Suc.hyps(1) [OF this(1,2) _ this(3)]
    show ?thesis
      unfolding 1 w by (subst IH) (use Suc.prems(2) in \<open>simp_all only: 2 3 upd_pipe_simps(1)\<close>)
  qed
qed

lemma wakeup_pipes [simp]: "pipes (wakeup ch s) = pipes s" "pipes (set_sleeping ch s) = pipes s" "mem (set_sleeping ch s) = mem s"
  by (simp_all add: wakeup_eq set_sleeping_def upd_proc_def)

lemma upd_mem_pipe [simp]: "myproc (s\<lparr>mem := m\<rparr>) = myproc s" "pipes (s\<lparr>mem := m\<rparr>) = pipes s" "procs (s\<lparr>mem := m\<rparr>) = procs s"
  by (simp_all add: myproc_def)

text \<open>Reading: the user addresses keep their meaning while bytes are stored at them.\<close>

lemma piperead_loop_run:
  assumes "pipe_ok (pipes s pi)" and "inj_on pas {..<n}" and "i \<le> n"
    and "\<And>k m. k < n \<Longrightarrow> (\<forall>x. x \<notin> pas ` {..<n} \<longrightarrow> m x = mem s x) \<Longrightarrow> user_pa m (mypt s) (u64 (addr + k)) = Some (pas k)"
  shows "returns (piperead_loop i pi addr (int n) s) (\<lambda>(r, s').
    let d = min (n - i) (pipe_len (pipes s pi)) in
    r = Done (int (i + d)) \<and> pipe_ok (pipes s' pi) \<and> pipe_bytes (pipes s' pi) = drop d (pipe_bytes (pipes s pi)) \<and>
    (\<forall>j < d. mem s' (pas (i + j)) = pipe_bytes (pipes s pi) ! j) \<and> (\<forall>x. x \<notin> pas ` {i..<n} \<longrightarrow> mem s' x = mem s x) \<and>
    (\<forall>pj. pj \<noteq> pi \<longrightarrow> pipes s' pj = pipes s pj))"
  using assms
proof (induction "n - i" arbitrary: i s)
  case 0
  then show ?case by (subst piperead_loop.simps) simp
next
  case (Suc d)
  let ?p = "pipes s pi" let ?s1 = "upd_pipe pi pipe_get s"
  have i: "i < n" using Suc.hyps(2) by simp
  show ?case
  proof (cases "pipe_len ?p = 0")
    case True
    then show ?thesis using i Suc.prems(1) by (subst piperead_loop.simps) (simp add: pipe_empty_iff pipe_bytes_Nil)
  next
    case False
    then have l: "0 < pipe_len ?p" by simp
    let ?m = "(mem s)(pas i := pipe_front ?p)" let ?s2 = "?s1\<lparr>mem := ?m\<rparr>"
    note P = pipe_len_get [OF Suc.prems(1) l] and B = pipe_bytes_get [OF Suc.prems(1) l]
    have cout: "copyout (mypt ?s1) (u64 (addr + i)) (\<lambda>_. pipe_front ?p) 0 1 ?s1 = Inr (0, ?s2)"
      unfolding copyout_byte using Suc.prems(4) [OF i, of "mem s"] by simp
    have 1: "piperead_loop i pi addr (int n) s = piperead_loop (Suc i) pi addr (int n) ?s2"
      using i Suc.prems(1) False by (subst piperead_loop.simps) (simp add: pipe_empty_iff pipe_bytes_Nil Let_def cout del: One_nat_def upd_pipe_simps)
    have pi: "pas i \<in> pas ` {..<n}" "pas i \<notin> pas ` {Suc i..<n}" using i inj_onD [OF Suc.prems(2), of i] by auto
    have "{i..<n} = insert i {Suc i..<n}" using i by auto
    then have rg: "pas ` {i..<n} = insert (pas i) (pas ` {Suc i..<n})" by simp
    have "returns (piperead_loop (Suc i) pi addr (int n) ?s2) (\<lambda>(r, s').
      let d = min (n - Suc i) (pipe_len (pipes ?s2 pi)) in
      r = Done (int (Suc i + d)) \<and> pipe_ok (pipes s' pi) \<and> pipe_bytes (pipes s' pi) = drop d (pipe_bytes (pipes ?s2 pi)) \<and>
      (\<forall>j < d. mem s' (pas (Suc i + j)) = pipe_bytes (pipes ?s2 pi) ! j) \<and> (\<forall>x. x \<notin> pas ` {Suc i..<n} \<longrightarrow> mem s' x = mem ?s2 x) \<and>
      (\<forall>pj. pj \<noteq> pi \<longrightarrow> pipes s' pj = pipes ?s2 pj))"
    proof (rule Suc.hyps(1))
      show "user_pa m (mypt ?s2) (u64 (addr + k)) = Some (pas k)"
        if "k < n" "\<forall>x. x \<notin> pas ` {..<n} \<longrightarrow> m x = mem ?s2 x" for k m
        using Suc.prems(4) [OF that(1), of m] that(2) pi(1) by auto
    qed (use Suc.hyps(2) Suc.prems P i in simp_all)
    moreover have "min (n - i) (pipe_len ?p) = Suc (min (n - Suc i) (pipe_len (pipes ?s2 pi)))" using i l P by simp
    ultimately show ?thesis
      unfolding 1 by (elim returns_mono) (use B pi in \<open>auto simp: Let_def less_Suc_eq_0_disj rg\<close>)
  qed
qed

section \<open>An empty pipe\<close>

definition demo_pipe :: pipe where
  "demo_pipe = \<lparr>pi_data = (\<lambda>_. 0), nread = 4294967040, nwrite = 4294967040, readopen = True, writeopen = True\<rparr>"

definition demo_pipestate :: pipestate where
  "demo_pipestate = demo_machine demo_disk (istate_ext (superblock_of (\<lambda>_. 0)) (\<lambda>_. no_inode) (pipestate_ext (\<lambda>_. demo_pipe) ()))"

lemma pipestate_fields:
  assumes "istate.more s = pipestate_ext P r"
  shows "pipes s = P" "pipestate.more s = r"
  using assms by (cases s; simp)+

lemma demo_pipestate_fields: "pipes demo_pipestate = (\<lambda>_. demo_pipe)" "mypt demo_pipestate = 4096" "mem demo_pipestate = demo_mem"
  "myproc demo_pipestate = 1" "procs demo_pipestate = (\<lambda>_. demo_proc 4096)"
proof -
  have "pstate.more demo_pipestate = istate_ext (superblock_of (\<lambda>_. 0)) (\<lambda>_. no_inode) (pipestate_ext (\<lambda>_. demo_pipe) ())"
    by (simp add: demo_pipestate_def)
  from pipestate_fields(1) [OF istate_fields(3) [OF this]] show "pipes demo_pipestate = (\<lambda>_. demo_pipe)" .
qed (simp_all add: demo_pipestate_def demo_proc_def)

lemma demo_pipe_ok: "pipe_ok demo_pipe" "pipe_bytes demo_pipe = []"
  by (simp_all add: pipe_ok_def pipe_len_def demo_pipe_def pipe_bytes_def)

section \<open>Properties\<close>

text \<open>C16: A pipe is a FIFO queue of at most \<^verbatim>\<open>PIPESIZE\<close> bytes under every interleaving of writers and readers, also
  when the 32-bit counters wrap: in any sequence of insertions into a pipe that is not full and removals from one that is not
  empty, the bytes that were in the pipe at first followed by those put in are the bytes taken out followed by those
  still in it.\<close>

theorem pipe_fifo:
  assumes "pipe_ok p" and "fifo_run pipe_bytes PIPESIZE pipe_put pipe_get pipe_front p w r q"
  shows "pipe_bytes p @ w = r @ pipe_bytes q \<and> pipe_len q \<le> PIPESIZE"
  using ring.fifo_order [OF assms] by (simp add: pipe_ok_def)

theorem pipe_fifo_witness:
  "\<exists>q. fifo_run pipe_bytes PIPESIZE pipe_put pipe_get pipe_front demo_pipe [7, 8] [7] q \<and> pipe_bytes q = [8]"
proof -
  let ?q = "pipe_get (pipe_put 8 (pipe_put 7 demo_pipe))"
  note l = pipe_bytes_put [OF demo_pipe_ok(1), of 7] pipe_len_put [OF demo_pipe_ok(1), of 7]
  have e: "pipe_len demo_pipe = 0" "PIPESIZE = 512" using demo_pipe_ok(2) by (simp_all add: pipe_bytes_Nil PIPESIZE_def)
  have b: "pipe_bytes (pipe_put 8 (pipe_put 7 demo_pipe)) = [7, 8]"
    using l e demo_pipe_ok(2) pipe_bytes_put [of "pipe_put 7 demo_pipe" 8] by simp
  have ok: "pipe_ok (pipe_put 8 (pipe_put 7 demo_pipe))" using l e pipe_len_put(2) [of "pipe_put 7 demo_pipe" 8] by simp
  have f: "pipe_front (pipe_put 8 (pipe_put 7 demo_pipe)) = 7"
    using pipe_bytes_get [OF ok] b length_pipe_bytes [of "pipe_put 8 (pipe_put 7 demo_pipe)"] by simp
  have "fifo_run pipe_bytes PIPESIZE pipe_put pipe_get pipe_front demo_pipe ([] @ [7]) [] (pipe_put 7 demo_pipe)"
    by (intro fifo_run.intros) (simp add: e)
  then have "fifo_run pipe_bytes PIPESIZE pipe_put pipe_get pipe_front demo_pipe (([] @ [7]) @ [8]) [] (pipe_put 8 (pipe_put 7 demo_pipe))"
    by (rule fifo_run.intros(2)) (use l e in simp)
  then have "fifo_run pipe_bytes PIPESIZE pipe_put pipe_get pipe_front demo_pipe (([] @ [7]) @ [8]) ([] @ [pipe_front (pipe_put 8 (pipe_put 7 demo_pipe))]) ?q"
    by (rule fifo_run.intros(3)) (simp add: b)
  then have r: "fifo_run pipe_bytes PIPESIZE pipe_put pipe_get pipe_front demo_pipe [7, 8] [7] ?q" by (simp add: f)
  from pipe_fifo [OF demo_pipe_ok(1) r] r show ?thesis by (auto simp: demo_pipe_ok)
qed

text \<open>
  \<^verbatim>\<open>pipewrite\<close> of \<open>n\<close> readable user bytes, started or resumed at byte \<open>i\<close>, appends as many of them as fit, in order, and
  changes no other pipe and no memory. It returns \<open>n\<close> when it is done; otherwise the pipe is full, and it returns -1 if
  the read end is closed or the process is killed, and else goes to sleep to continue with the first byte that
  did not fit.\<close>

theorem pipewrite_appends:
  assumes "pipe_ok (pipes s pi)" and "\<forall>k < n. user_pa (mem s) (mypt s) (u64 (addr + k)) = Some (pas k)" and "i \<le> n"
  shows "\<exists>r s' w. pipewrite_from i pi addr (int n) s = Inr (r, s') \<and> i + w \<le> n \<and>
    pipe_ok (pipes s' pi) \<and> pipe_bytes (pipes s' pi) = pipe_bytes (pipes s pi) @ map (\<lambda>k. mem s (pas k)) [i..<i + w] \<and>
    (if i + w = n then r = Done (int n)
     else pipe_full (pipes s' pi) \<and>
       r = (if \<not> readopen (pipes s pi) \<or> p_killed (procs s (myproc s)) then Done (-1) else Asleep (i + w))) \<and>
    (\<forall>pj. pj \<noteq> pi \<longrightarrow> pipes s' pj = pipes s pj) \<and> mem s' = mem s"
proof -
  let ?w = "min (n - i) (PIPESIZE - pipe_len (pipes s pi))"
  let ?bs = "map (\<lambda>k. mem s (pas k)) [i..<i + ?w]"
  let ?p = "fold pipe_put ?bs (pipes s pi)"
  have l: "pipe_len (pipes s pi) \<le> PIPESIZE" using assms(1) by (simp add: pipe_ok_def)
  have P: "pipe_ok ?p" "pipe_bytes ?p = pipe_bytes (pipes s pi) @ ?bs"
    using ring.fold_put [OF assms(1), of ?bs] l by auto
  have full: "pipe_full ?p" if "i + ?w \<noteq> n"
    using that assms(3) arg_cong [OF P(2), of length] l P(1) by (simp add: pipe_full_iff)
  obtain s' r where e: "pipewrite_from i pi addr (int n) s = Inr (r, s')" "pipes s' = (pipes s)(pi := ?p)" "mem s' = mem s"
    "r = (if i + ?w = n then Done (int n) else if \<not> readopen (pipes s pi) \<or> p_killed (procs s (myproc s)) then Done (-1) else Asleep (i + ?w))"
    using pipewrite_from_run [OF assms(1) _ assms(3), of addr pas] assms(2) by (auto split: if_splits)
  show ?thesis
    by (rule exI [of _ r], rule exI [of _ s'], rule exI [of _ ?w]) (use e P full assms(3) in auto)
qed

theorem pipewrite_appends_witness:
  "\<exists>r s' w. pipewrite_from 0 24576 100 2 demo_pipestate = Inr (r, s') \<and>
     pipe_bytes (pipes s' 24576) = map (\<lambda>k. demo_mem (16384 + (100 + k))) [0..<0 + w]"
proof -
  have "\<forall>k < 2. user_pa (mem demo_pipestate) (mypt demo_pipestate) (u64 (100 + k)) = Some (16384 + (100 + k))"
    using demo_user_pa [of demo_mem] by (simp add: demo_pipestate_fields demo_proc_def u64_id)
  moreover have "pipe_ok (pipes demo_pipestate 24576)" by (simp add: demo_pipestate_fields demo_pipe_ok)
  ultimately show ?thesis
    using pipewrite_appends [of demo_pipestate 24576 2 100 "\<lambda>k. 16384 + (100 + k)" 0]
    by (fastforce simp: demo_pipestate_fields demo_pipe_ok)
qed

text \<open>
  \<^verbatim>\<open>piperead\<close> of a pipe that is not empty (or whose write end is closed) into \<open>n\<close> writable user bytes returns
  the number of bytes \<open>d\<close> that it could take, the least of \<open>n\<close> and the length of the queue; the user memory then holds the first \<open>d\<close>
  bytes of the queue in order, the queue holds the rest, and no other memory and no other pipe is changed. It
  sleeps exactly when the pipe is empty, its write end is open and the process is not killed.\<close>

theorem piperead_delivers:
  assumes "pipe_ok (pipes s pi)" and "inj_on pas {..<n}"
    and "\<forall>k < n. \<forall>m. (\<forall>x. x \<notin> pas ` {..<n} \<longrightarrow> m x = mem s x) \<longrightarrow> user_pa m (mypt s) (u64 (addr + k)) = Some (pas k)"
  defines "q \<equiv> pipe_bytes (pipes s pi)"
  shows "\<exists>r s'. piperead_from pi addr (int n) s = Inr (r, s') \<and>
    (if q = [] \<and> writeopen (pipes s pi) then
       r = (if p_killed (procs s (myproc s)) then Done (-1) else Asleep 0) \<and> pipes s' = pipes s \<and> mem s' = mem s
     else r = Done (int (min n (length q))) \<and> pipe_bytes (pipes s' pi) = drop n q \<and>
       (\<forall>j < min n (length q). mem s' (pas j) = q ! j) \<and> (\<forall>x. x \<notin> pas ` {..<n} \<longrightarrow> mem s' x = mem s x) \<and>
       (\<forall>pj. pj \<noteq> pi \<longrightarrow> pipes s' pj = pipes s pj))"
proof (cases "q = [] \<and> writeopen (pipes s pi)")
  case True
  then show ?thesis using assms(1) by (auto simp: piperead_from_def pipe_empty_iff q_def)
next
  case False
  then have "piperead_from pi addr (int n) s = piperead_loop 0 pi addr (int n) s"
    using assms(1) by (auto simp: piperead_from_def pipe_empty_iff q_def)
  then show ?thesis
    using piperead_loop_run [OF assms(1,2), of 0 addr] assms(3) False
    by (auto simp: returns_iff Let_def q_def atLeast0LessThan min_def not_le)
qed

theorem piperead_delivers_witness:
  "\<exists>r s'. piperead_from 24576 100 2 (demo_pipestate\<lparr>pipes := (\<lambda>_. pipe_put 7 demo_pipe)\<rparr>) = Inr (r, s') \<and>
     r = Done 1 \<and> mem s' 16484 = 7"
proof -
  let ?s = "demo_pipestate\<lparr>pipes := (\<lambda>_. pipe_put 7 demo_pipe)\<rparr>"
  have e: "pipe_len demo_pipe < PIPESIZE" using demo_pipe_ok(2) by (simp add: pipe_bytes_Nil PIPESIZE_def)
  have b: "pipe_bytes (pipe_put 7 demo_pipe) = [7]" "pipe_ok (pipe_put 7 demo_pipe)"
    using pipe_bytes_put [OF demo_pipe_ok(1) e] pipe_len_put(2) [OF demo_pipe_ok(1) e] by (simp_all add: demo_pipe_ok)
  have "myproc ?s = myproc demo_pipestate" by (simp add: myproc_def)
  then have f: "mem ?s = demo_mem" "mypt ?s = 4096" by (simp_all add: demo_pipestate_fields demo_proc_def)
  have u: "\<forall>k < 2. \<forall>m. (\<forall>x. x \<notin> (\<lambda>k. 16384 + (100 + k)) ` {..<2} \<longrightarrow> m x = mem ?s x) \<longrightarrow>
      user_pa m (mypt ?s) (u64 (100 + k)) = Some (16384 + (100 + k))"
  proof (intro allI impI)
    fix k m assume k: "k < (2 :: nat)" and m: "\<forall>x. x \<notin> (\<lambda>k. 16384 + (100 + k)) ` {..<2} \<longrightarrow> m x = mem ?s x"
    have "x \<notin> (\<lambda>k. 16384 + (100 + k)) ` {..<2 :: nat}" if "x < 16384" for x using that by auto
    then have "m x = demo_mem x" if "x < 16384" for x using that m unfolding f by blast
    then show "user_pa m (mypt ?s) (u64 (100 + k)) = Some (16384 + (100 + k))"
      using demo_user_pa [of m "100 + k"] k unfolding f by (simp add: u64_id)
  qed
  have i: "inj_on (\<lambda>k. 16384 + (100 + k)) {..<2 :: nat}" by (simp add: inj_on_def)
  have p: "pipe_ok (pipes ?s 24576)" using b by simp
  from piperead_delivers [OF p i u] show ?thesis using b by (auto simp: min_def)
qed

end
