(* ===== verification/File.thy ===== *)
theory File
  imports Pipe
begin

text \<open>
  Open files (\<^verbatim>\<open>FileSystem-RAID/kernel/file.c\<close>, and \<^verbatim>\<open>pipealloc\<close> of \<^verbatim>\<open>pipe.c\<close>). A file pointer is an index of the
  file table. The device switch \<^verbatim>\<open>devsw\<close> is a table of function pointers that the drivers fill in; it is
  an argument of the routines that call through it.
\<close>

section \<open>State\<close>

datatype filetype = FD_NONE | FD_PIPE | FD_INODE | FD_DEVICE

record kfile =
  f_type :: filetype
  f_ref :: int
  f_readable :: bool
  f_writable :: bool
  f_pipe :: nat
  f_ip :: "nat option"
  f_off :: nat
  f_major :: int

record fstate = pipestate +
  files :: "nat \<Rightarrow> kfile"

type_synonym 'a devfun = "bool \<Rightarrow> nat \<Rightarrow> int \<Rightarrow> 'a fstate_scheme \<Rightarrow> (int \<times> 'a fstate_scheme) kres"
type_synonym 'a devsw = "nat \<Rightarrow> 'a devfun option"

definition NFILE :: nat where "NFILE = 100"
definition NDEV :: int where "NDEV = 10"

definition upd_file :: "nat \<Rightarrow> (kfile \<Rightarrow> kfile) \<Rightarrow> 'a fstate_scheme \<Rightarrow> 'a fstate_scheme" where
  "upd_file f g s = s\<lparr>files := (files s)(f := g (files s f))\<rparr>"

section \<open>Operations\<close>

primrec filealloc_from :: "nat \<Rightarrow> nat \<Rightarrow> 'a fstate_scheme \<Rightarrow> nat option \<times> 'a fstate_scheme" where
  "filealloc_from 0 f s = (None, s)"
| "filealloc_from (Suc k) f s =
     (if f_ref (files s f) = 0 then (Some f, upd_file f (\<lambda>x. x\<lparr>f_ref := 1\<rparr>) s)
      else filealloc_from k (Suc f) s)"

definition filealloc :: "'a fstate_scheme \<Rightarrow> nat option \<times> 'a fstate_scheme" where
  "filealloc s = filealloc_from NFILE 0 s"

definition filedup :: "nat \<Rightarrow> 'a fstate_scheme \<Rightarrow> 'a fstate_scheme kres" where
  "filedup f s =
     (if f_ref (files s f) < 1 then Inl (Panic ''filedup'')
      else Inr (upd_file f (\<lambda>x. x\<lparr>f_ref := f_ref x + 1\<rparr>) s))"

definition fileclose :: "nat \<Rightarrow> 'a fstate_scheme \<Rightarrow> 'a fstate_scheme kres" where
  "fileclose f s =
     (if f_ref (files s f) < 1 then Inl (Panic ''fileclose'')
      else
        let s = upd_file f (\<lambda>x. x\<lparr>f_ref := f_ref x - 1\<rparr>) s in
        if f_ref (files s f) > 0 then Inr s
        else
          let ff = files s f;
              s = upd_file f (\<lambda>x. x\<lparr>f_ref := 0, f_type := FD_NONE\<rparr>) s in
          if f_type ff = FD_PIPE then pipeclose (f_pipe ff) (f_writable ff) s
          else if f_type ff = FD_INODE \<or> f_type ff = FD_DEVICE then
            bindE (begin_op s) (\<lambda>s.
            bindE (case f_ip ff of Some ip \<Rightarrow> iput ip s | None \<Rightarrow> Inl (Undef ''iput'')) (\<lambda>s.
            end_op s))
          else Inr s)"

text \<open>\<^verbatim>\<open>struct stat\<close> as it is copied to user space; \<open>pad\<close> is what the padding of the local variable holds.\<close>

definition STATSIZE :: nat where "STATSIZE = 32"

definition stat_bytes :: "bytes \<Rightarrow> stat \<Rightarrow> bytes" where
  "stat_bytes pad st =
     (let d = put_le pad 0 4 (u32_of_int (st_dev st));
          d = put_le d 4 4 (st_ino st);
          d = put_short (st_type st) 8 d;
          d = put_short (st_nlink st) 10 d;
          d = put_le d 16 8 (st_size st) in
      put_short (st_mode st) 24 d)"

definition filestat :: "bytes \<Rightarrow> nat \<Rightarrow> nat \<Rightarrow> 'a fstate_scheme \<Rightarrow> (int \<times> 'a fstate_scheme) kres" where
  "filestat pad f addr s =
     (if f_type (files s f) = FD_INODE \<or> f_type (files s f) = FD_DEVICE then
        bindE (ilock (f_ip (files s f)) s) (\<lambda>s.
        let st = stati (the (f_ip (files s f))) s in
        bindE (iunlock (f_ip (files s f)) s) (\<lambda>s.
        bindE (copyout (mypt s) addr (stat_bytes pad st) 0 STATSIZE s) (\<lambda>(r, s).
        if r < 0 then Inr (-1, s) else Inr (0, s))))
      else Inr (-1, s))"

definition fileread :: "'a devsw \<Rightarrow> nat \<Rightarrow> nat \<Rightarrow> int \<Rightarrow> 'a fstate_scheme \<Rightarrow> (int \<times> 'a fstate_scheme) kres" where
  "fileread dev_read f addr n s =
     (if \<not> f_readable (files s f) then Inr (-1, s)
      else case f_type (files s f) of
        FD_PIPE \<Rightarrow> piperead (f_pipe (files s f)) addr n s
      | FD_DEVICE \<Rightarrow>
          if f_major (files s f) < 0 \<or> f_major (files s f) \<ge> NDEV then Inr (-1, s)
          else (case dev_read (nat (f_major (files s f))) of
                  None \<Rightarrow> Inr (-1, s) | Some rd \<Rightarrow> rd True addr n s)
      | FD_INODE \<Rightarrow>
          bindE (ilock (f_ip (files s f)) s) (\<lambda>s.
          bindE (readi (the (f_ip (files s f))) True addr (\<lambda>_. 0) (f_off (files s f)) (u32_of_int n) s) (\<lambda>(r, _, s).
          let s = (if r > 0 then upd_file f (\<lambda>x. x\<lparr>f_off := u32_of_int (int (f_off x) + r)\<rparr>) s else s) in
          bindE (iunlock (f_ip (files s f)) s) (\<lambda>s.
          Inr (r, s))))
      | FD_NONE \<Rightarrow> Inl (Panic ''fileread''))"

definition FW_MAX :: int where
  "FW_MAX = (MAXOPBLOCKS - 1 - 1 - 2) div 2 * int BSIZE"

function filewrite_loop :: "nat \<Rightarrow> nat \<Rightarrow> int \<Rightarrow> int \<Rightarrow> 'a fstate_scheme \<Rightarrow> (int \<times> 'a fstate_scheme) kres" where
  "filewrite_loop f addr n i s =
     (if i < n then
        let n1 = (if n - i > FW_MAX then FW_MAX else n - i) in
        bindE (begin_op s) (\<lambda>s.
        bindE (ilock (f_ip (files s f)) s) (\<lambda>s.
        bindE (writei (the (f_ip (files s f))) True (u64 (addr + nat i)) (\<lambda>_. 0) (f_off (files s f)) (u32_of_int n1) s)
          (\<lambda>(r, s).
        let s = (if r > 0 then upd_file f (\<lambda>x. x\<lparr>f_off := u32_of_int (int (f_off x) + r)\<rparr>) s else s) in
        bindE (iunlock (f_ip (files s f)) s) (\<lambda>s.
        bindE (end_op s) (\<lambda>s.
        if r < 0 then Inr (if i = n then n else -1, s)
        else if r \<noteq> n1 then Inl (Panic ''short filewrite'')
        else filewrite_loop f addr n (i + r) s)))))
      else Inr (if i = n then n else -1, s))"
  by pat_completeness auto
termination
  by (relation "measure (\<lambda>(f, addr, n, i, s). nat (n - i))")
    (auto simp: FW_MAX_def MAXOPBLOCKS_def BSIZE_def split: if_splits)

declare filewrite_loop.simps [simp del]

definition filewrite :: "'a devsw \<Rightarrow> nat \<Rightarrow> nat \<Rightarrow> int \<Rightarrow> 'a fstate_scheme \<Rightarrow> (int \<times> 'a fstate_scheme) kres" where
  "filewrite dev_write f addr n s =
     (if \<not> f_writable (files s f) then Inr (-1, s)
      else case f_type (files s f) of
        FD_PIPE \<Rightarrow> pipewrite (f_pipe (files s f)) addr n s
      | FD_DEVICE \<Rightarrow>
          if f_major (files s f) < 0 \<or> f_major (files s f) \<ge> NDEV then Inr (-1, s)
          else (case dev_write (nat (f_major (files s f))) of
                  None \<Rightarrow> Inr (-1, s) | Some wr \<Rightarrow> wr True addr n s)
      | FD_INODE \<Rightarrow> filewrite_loop f addr n 0 s
      | FD_NONE \<Rightarrow> Inl (Panic ''filewrite''))"

section \<open>Creating a pipe\<close>

text \<open>The label \<^verbatim>\<open>bad\<close> of \<^verbatim>\<open>pipealloc\<close>; there the pipe itself was never allocated.\<close>

definition pipealloc_bad ::
  "nat option \<Rightarrow> nat option \<Rightarrow> 'a fstate_scheme \<Rightarrow> ((nat \<times> nat) option \<times> 'a fstate_scheme) kres" where
  "pipealloc_bad f0 f1 s =
     bindE (case f0 of Some f \<Rightarrow> fileclose f s | None \<Rightarrow> Inr s) (\<lambda>s.
     bindE (case f1 of Some f \<Rightarrow> fileclose f s | None \<Rightarrow> Inr s) (\<lambda>s.
     Inr (None, s)))"

definition pipealloc :: "'a fstate_scheme \<Rightarrow> ((nat \<times> nat) option \<times> 'a fstate_scheme) kres" where
  "pipealloc s =
     (case filealloc s of
        (None, s) \<Rightarrow> pipealloc_bad None None s
      | (Some f0, s) \<Rightarrow>
          (case filealloc s of
             (None, s) \<Rightarrow> pipealloc_bad (Some f0) None s
           | (Some f1, s) \<Rightarrow>
               let (pi, s) = kalloc s in
               if pi = 0 then pipealloc_bad (Some f0) (Some f1) s
               else
                 let s = upd_pipe pi (\<lambda>x. x\<lparr>readopen := True, writeopen := True, nwrite := 0, nread := 0\<rparr>) s;
                     s = upd_file f0 (\<lambda>x. x\<lparr>f_type := FD_PIPE, f_readable := True, f_writable := False, f_pipe := pi\<rparr>) s;
                     s = upd_file f1 (\<lambda>x. x\<lparr>f_type := FD_PIPE, f_readable := False, f_writable := True, f_pipe := pi\<rparr>) s in
                 Inr (Some (f0, f1), s)))"

end
