(* ===== verification/Sysfile.thy ===== *)
theory Sysfile
  imports File
begin

text \<open>
  The file system calls (\<^verbatim>\<open>FileSystem-RAID/kernel/sysfile.c\<close>) and the fetching of their arguments
  (\<^verbatim>\<open>syscall.c\<close>). A system call takes its arguments from the trap frame and the memory of the calling process, and
  returns an integer that \<^verbatim>\<open>syscall\<close> stores as a 64-bit value. Every early return of the source is a
  branch; the calls of \<^verbatim>\<open>end_op\<close> and \<^verbatim>\<open>iunlockput\<close> on it are the source's.
\<close>

section \<open>Fetching arguments\<close>

definition fetchaddr :: "nat \<Rightarrow> 'a pstate_scheme \<Rightarrow> (int \<times> nat \<times> 'a pstate_scheme) kres" where
  "fetchaddr addr s =
     (let p = myproc s in
      if addr \<ge> p_sz (procs s p) \<or> u64 (addr + 8) > p_sz (procs s p) then Inr (-1, 0, s)
      else
        bindE (copyin (p_pagetable (procs s p)) (\<lambda>_. 0) 0 addr 8 s) (\<lambda>(r, d, s).
        if r \<noteq> 0 then Inr (-1, 0, s) else Inr (0, get_le d 0 8, s)))"

definition fetchstr :: "nat \<Rightarrow> nat \<Rightarrow> 'a pstate_scheme \<Rightarrow> (int \<times> byte list \<times> 'a pstate_scheme) kres" where
  "fetchstr addr mx s =
     bindE (copyinstr (mypt s) (\<lambda>_. 0) 0 addr mx s) (\<lambda>(err, buf, s).
     if err < 0 then Inr (err, [], s)
     else Inr (int (length (cstr buf mx)), cstr buf mx, s))"

definition argraw :: "nat \<Rightarrow> 'a pstate_scheme \<Rightarrow> nat kres" where
  "argraw n s = (if n \<le> 5 then Inr (tf_get (myproc s) (TF_a n) s) else Inl (Panic ''argraw''))"

definition argint :: "nat \<Rightarrow> 'a pstate_scheme \<Rightarrow> int kres" where
  "argint n s = bindE (argraw n s) (\<lambda>v. Inr (int_of_u32 (u32 v)))"

definition argaddr :: "nat \<Rightarrow> 'a pstate_scheme \<Rightarrow> nat kres" where
  "argaddr n s = argraw n s"

definition argstr :: "nat \<Rightarrow> nat \<Rightarrow> 'a pstate_scheme \<Rightarrow> (int \<times> byte list \<times> 'a pstate_scheme) kres" where
  "argstr n mx s = bindE (argaddr n s) (\<lambda>addr. fetchstr addr mx s)"

section \<open>File descriptors\<close>

definition argfd :: "nat \<Rightarrow> 'a fstate_scheme \<Rightarrow> (nat \<times> nat) option kres" where
  "argfd n s =
     bindE (argint n s) (\<lambda>fd.
     if fd < 0 \<or> fd \<ge> int NOFILE then Inr None
     else case p_ofile (procs s (myproc s)) (nat fd) of
       None \<Rightarrow> Inr None
     | Some f \<Rightarrow> Inr (Some (nat fd, f)))"

definition set_ofile :: "nat \<Rightarrow> nat option \<Rightarrow> 'a pstate_scheme \<Rightarrow> 'a pstate_scheme" where
  "set_ofile fd v s = upd_proc (myproc s) (\<lambda>x. x\<lparr>p_ofile := (p_ofile x)(fd := v)\<rparr>) s"

primrec fdalloc_from :: "nat \<Rightarrow> nat \<Rightarrow> nat \<Rightarrow> 'a fstate_scheme \<Rightarrow> int \<times> 'a fstate_scheme" where
  "fdalloc_from 0 fd f s = (-1, s)"
| "fdalloc_from (Suc k) fd f s =
     (if p_ofile (procs s (myproc s)) fd = None then (int fd, set_ofile fd (Some f) s)
      else fdalloc_from k (Suc fd) f s)"

definition fdalloc :: "nat \<Rightarrow> 'a fstate_scheme \<Rightarrow> int \<times> 'a fstate_scheme" where
  "fdalloc f s = fdalloc_from NOFILE 0 f s"

definition sys_dup :: "'a fstate_scheme \<Rightarrow> (int \<times> 'a fstate_scheme) kres" where
  "sys_dup s =
     bindE (argfd 0 s) (\<lambda>r. case r of
       None \<Rightarrow> Inr (-1, s)
     | Some (_, f) \<Rightarrow>
         (case fdalloc f s of (fd, s) \<Rightarrow>
            if fd < 0 then Inr (-1, s) else bindE (filedup f s) (\<lambda>s. Inr (fd, s))))"

definition sys_read :: "'a devsw \<Rightarrow> 'a fstate_scheme \<Rightarrow> (int \<times> 'a fstate_scheme) kres" where
  "sys_read dev_read s =
     bindE (argfd 0 s) (\<lambda>r. case r of
       None \<Rightarrow> Inr (-1, s)
     | Some (_, f) \<Rightarrow>
         bindE (argint 2 s) (\<lambda>n.
         bindE (argaddr 1 s) (\<lambda>p.
         fileread dev_read f p n s)))"

definition sys_write :: "'a devsw \<Rightarrow> 'a fstate_scheme \<Rightarrow> (int \<times> 'a fstate_scheme) kres" where
  "sys_write dev_write s =
     bindE (argfd 0 s) (\<lambda>r. case r of
       None \<Rightarrow> Inr (-1, s)
     | Some (_, f) \<Rightarrow>
         bindE (argint 2 s) (\<lambda>n.
         bindE (argaddr 1 s) (\<lambda>p.
         filewrite dev_write f p n s)))"

definition sys_close :: "'a fstate_scheme \<Rightarrow> (int \<times> 'a fstate_scheme) kres" where
  "sys_close s =
     bindE (argfd 0 s) (\<lambda>r. case r of
       None \<Rightarrow> Inr (-1, s)
     | Some (fd, f) \<Rightarrow>
         let s = set_ofile fd None s in
         bindE (fileclose f s) (\<lambda>s. Inr (0, s)))"

definition sys_fstat :: "bytes \<Rightarrow> 'a fstate_scheme \<Rightarrow> (int \<times> 'a fstate_scheme) kres" where
  "sys_fstat pad s =
     bindE (argfd 0 s) (\<lambda>r. case r of
       None \<Rightarrow> Inr (-1, s)
     | Some (_, f) \<Rightarrow> bindE (argaddr 1 s) (\<lambda>st. filestat pad f st s))"

section \<open>Links and directories\<close>

text \<open>The common ends of the calls: close the transaction and return \<open>v\<close>.\<close>

definition end_with :: "int \<Rightarrow> 'a fstate_scheme \<Rightarrow> (int \<times> 'a fstate_scheme) kres" where
  "end_with v s = bindE (end_op s) (\<lambda>s. Inr (v, s))"

definition unlockput_end :: "nat \<Rightarrow> int \<Rightarrow> 'a fstate_scheme \<Rightarrow> (int \<times> 'a fstate_scheme) kres" where
  "unlockput_end ip v s = bindE (iunlockput ip s) (end_with v)"

definition add_nlink :: "nat \<Rightarrow> int \<Rightarrow> 'a istate_scheme \<Rightarrow> 'a istate_scheme" where
  "add_nlink ip d = upd_inode ip (\<lambda>x. x\<lparr>i_nlink := short (i_nlink x + d)\<rparr>)"

definition sys_link_bad :: "nat \<Rightarrow> 'a fstate_scheme \<Rightarrow> (int \<times> 'a fstate_scheme) kres" where
  "sys_link_bad ip s =
     bindE (ilock (Some ip) s) (\<lambda>s.
     let s = add_nlink ip (-1) s in
     bindE (iupdate ip s) (\<lambda>s.
     unlockput_end ip (-1) s))"

definition sys_link :: "'a fstate_scheme \<Rightarrow> (int \<times> 'a fstate_scheme) kres" where
  "sys_link s =
     bindE (argstr 0 MAXPATH s) (\<lambda>(r, old, s). if r < 0 then Inr (-1, s) else
     bindE (argstr 1 MAXPATH s) (\<lambda>(r, new, s). if r < 0 then Inr (-1, s) else
     bindE (begin_op s) (\<lambda>s.
     bindE (namei old s) (\<lambda>(r, s). case r of
       None \<Rightarrow> end_with (-1) s
     | Some ip \<Rightarrow>
         bindE (ilock (Some ip) s) (\<lambda>s.
         if i_type (inodes s ip) = T_DIR then unlockput_end ip (-1) s
         else
           let s = add_nlink ip 1 s in
           bindE (iupdate ip s) (\<lambda>s.
           bindE (iunlock (Some ip) s) (\<lambda>s.
           bindE (nameiparent new (\<lambda>_. 0) s) (\<lambda>(r, name, s). case r of
             None \<Rightarrow> sys_link_bad ip s
           | Some dp \<Rightarrow>
               bindE (ilock (Some dp) s) (\<lambda>s.
               bindE (if i_dev (inodes s dp) \<noteq> i_dev (inodes s ip) then Inr (-1, s)
                      else dirlink dp name (i_inum (inodes s ip)) s) (\<lambda>(r, s).
               if r < 0 then bindE (iunlockput dp s) (sys_link_bad ip)
               else
                 bindE (iunlockput dp s) (\<lambda>s.
                 bindE (iput ip s) (\<lambda>s.
                 end_with 0 s))))))))))))"

function isdirempty_from :: "nat \<Rightarrow> nat \<Rightarrow> nat \<Rightarrow> 'a istate_scheme \<Rightarrow> (bool \<times> 'a istate_scheme) kres" where
  "isdirempty_from sz off dp s =
     (if off < sz then
        bindE (readi dp False 0 (\<lambda>_. 0) off DESIZE s) (\<lambda>(r, de, s).
        if r \<noteq> int DESIZE then Inl (Panic ''isdirempty: readi'')
        else if get_le de 0 2 \<noteq> 0 then Inr (False, s)
        else isdirempty_from sz (off + DESIZE) dp s)
      else Inr (True, s))"
  by pat_completeness auto
termination
  by (relation "measure (\<lambda>(sz, off, dp, s). sz - off)") (auto simp: DESIZE_def)

declare isdirempty_from.simps [simp del]

definition isdirempty :: "nat \<Rightarrow> 'a istate_scheme \<Rightarrow> (bool \<times> 'a istate_scheme) kres" where
  "isdirempty dp s = isdirempty_from (i_size (inodes s dp)) (2 * DESIZE) dp s"

definition cstring :: "string \<Rightarrow> bytes" where
  "cstring cs = bytes_of_list (str cs)"

definition sys_unlink :: "'a fstate_scheme \<Rightarrow> (int \<times> 'a fstate_scheme) kres" where
  "sys_unlink s =
     bindE (argstr 0 MAXPATH s) (\<lambda>(r, path, s). if r < 0 then Inr (-1, s) else
     bindE (begin_op s) (\<lambda>s.
     bindE (nameiparent path (\<lambda>_. 0) s) (\<lambda>(r, name, s). case r of
       None \<Rightarrow> end_with (-1) s
     | Some dp \<Rightarrow>
         bindE (ilock (Some dp) s) (\<lambda>s.
         if namecmp name (cstring ''.'') 0 = 0 \<or> namecmp name (cstring ''..'') 0 = 0
         then unlockput_end dp (-1) s
         else
           bindE (dirlookup dp name s) (\<lambda>(r, s). case r of
             None \<Rightarrow> unlockput_end dp (-1) s
           | Some (ip, off) \<Rightarrow>
               bindE (ilock (Some ip) s) (\<lambda>s.
               if i_nlink (inodes s ip) < 1 then Inl (Panic ''unlink: nlink < 1'')
               else
                 bindE (if i_type (inodes s ip) = T_DIR then isdirempty ip s else Inr (True, s)) (\<lambda>(e, s).
                 if \<not> e then bindE (iunlockput ip s) (unlockput_end dp (-1))
                 else
                   bindE (writei dp False 0 (\<lambda>_. 0) off DESIZE s) (\<lambda>(r, s).
                   if r \<noteq> int DESIZE then Inl (Panic ''unlink: writei'')
                   else
                     bindE (if i_type (inodes s ip) = T_DIR then iupdate dp (add_nlink dp (-1) s) else Inr s) (\<lambda>s.
                     bindE (iunlockput dp s) (\<lambda>s.
                     let s = add_nlink ip (-1) s in
                     bindE (iupdate ip s) (\<lambda>s.
                     unlockput_end ip 0 s)))))))))))"

definition create ::
  "byte list \<Rightarrow> int \<Rightarrow> int \<Rightarrow> int \<Rightarrow> 'a fstate_scheme \<Rightarrow> (nat option \<times> 'a fstate_scheme) kres" where
  "create path type major minor s =
     bindE (nameiparent path (\<lambda>_. 0) s) (\<lambda>(r, name, s). case r of
       None \<Rightarrow> Inr (None, s)
     | Some dp \<Rightarrow>
         bindE (ilock (Some dp) s) (\<lambda>s.
         bindE (dirlookup dp name s) (\<lambda>(r, s). case r of
           Some (ip, off) \<Rightarrow>
             bindE (iunlockput dp s) (\<lambda>s.
             bindE (ilock (Some ip) s) (\<lambda>s.
             if type = T_FILE \<and> (i_type (inodes s ip) = T_FILE \<or> i_type (inodes s ip) = T_DEVICE)
             then Inr (Some ip, s)
             else bindE (iunlockput ip s) (\<lambda>s. Inr (None, s))))
         | None \<Rightarrow>
             bindE (ialloc (i_dev (inodes s dp)) type s) (\<lambda>(ip, s).
             bindE (ilock (Some ip) s) (\<lambda>s.
             let s = upd_inode ip (\<lambda>x. x\<lparr>i_major := major\<rparr>) s;
                 s = (if type = T_DEVICE then upd_inode ip (\<lambda>x. x\<lparr>i_minor := minor\<rparr>) s else s);
                 s = upd_inode ip (\<lambda>x. x\<lparr>i_nlink := 1\<rparr>) s;
                 s = (if type \<noteq> T_DEVICE then upd_inode ip (\<lambda>x. x\<lparr>i_minor := M_READ OR M_WRITE\<rparr>) s else s) in
             bindE (iupdate ip s) (\<lambda>s.
             bindE (if type = T_DIR then
                      let s = add_nlink dp 1 s in
                      bindE (iupdate dp s) (\<lambda>s.
                      bindE (dirlink ip (cstring ''.'') (i_inum (inodes s ip)) s) (\<lambda>(r, s).
                      if r < 0 then Inl (Panic ''create dots'')
                      else
                        bindE (dirlink ip (cstring ''..'') (i_inum (inodes s dp)) s) (\<lambda>(r, s).
                        if r < 0 then Inl (Panic ''create dots'') else Inr s)))
                    else Inr s) (\<lambda>s.
             bindE (dirlink dp name (i_inum (inodes s ip)) s) (\<lambda>(r, s).
             if r < 0 then Inl (Panic ''create: dirlink'')
             else
               bindE (iunlockput dp s) (\<lambda>s.
               Inr (Some ip, s))))))))))"

section \<open>Opening files\<close>

definition O_RDONLY :: int where "O_RDONLY = 0"
definition O_WRONLY :: int where "O_WRONLY = 1"
definition O_RDWR :: int where "O_RDWR = 2"
definition O_NOACCESS :: int where "O_NOACCESS = 4"
definition O_CREATE :: int where "O_CREATE = 512"
definition O_TRUNC :: int where "O_TRUNC = 1024"
definition MAX_SYMLINK_DEPTH :: nat where "MAX_SYMLINK_DEPTH = 10"

text \<open>
  The loop of \<^verbatim>\<open>sys_open\<close> and \<^verbatim>\<open>sys_chmod\<close> that follows symbolic links from the locked inode \<open>ip\<close>; \<open>k\<close> links may still
  be followed. It gives no inode (and holds none) when a target cannot be read or found, or after the last
  permitted link.
\<close>

primrec follow_symlinks :: "nat \<Rightarrow> bool \<Rightarrow> nat \<Rightarrow> 'a istate_scheme \<Rightarrow> (nat option \<times> 'a istate_scheme) kres" where
  "follow_symlinks 0 noaccess ip s = bindE (iunlockput ip s) (\<lambda>s. Inr (None, s))"
| "follow_symlinks (Suc k) noaccess ip s =
     (if i_type (inodes s ip) = T_SYMLINK \<and> \<not> noaccess then
        let sz = i_size (inodes s ip) in
        if sz \<ge> MAXPATH then Inl (Undef ''target'')
        else
          bindE (readi ip False 0 (\<lambda>_. 0) 0 sz s) (\<lambda>(r, target, s).
          if r \<noteq> int sz then bindE (iunlockput ip s) (\<lambda>s. Inr (None, s))
          else
            bindE (iunlockput ip s) (\<lambda>s.
            bindE (namei (cstr target sz) s) (\<lambda>(r, s). case r of
              None \<Rightarrow> Inr (None, s)
            | Some ip \<Rightarrow>
                bindE (ilock (Some ip) s) (\<lambda>s.
                follow_symlinks k noaccess ip s))))
      else Inr (Some ip, s))"

definition open_denied :: "int \<Rightarrow> inode \<Rightarrow> bool" where
  "open_denied omode ip =
     (let file_mode = inode_get_mode ip;
          need_read = (omode = O_RDONLY \<or> omode = O_RDWR);
          need_write = (omode = O_WRONLY \<or> omode = O_RDWR) in
      omode AND O_NOACCESS = 0 \<and> i_type ip \<noteq> T_DEVICE \<and>
      (need_read \<and> file_mode AND M_READ = 0 \<or> need_write \<and> file_mode AND M_WRITE = 0))"

text \<open>The inode that \<^verbatim>\<open>sys_open\<close> opens, locked.\<close>

definition open_inode :: "byte list \<Rightarrow> int \<Rightarrow> 'a fstate_scheme \<Rightarrow> (nat option \<times> 'a fstate_scheme) kres" where
  "open_inode path omode s =
     (if omode AND O_CREATE \<noteq> 0 then create path T_FILE 0 0 s
      else
        bindE (namei path s) (\<lambda>(r, s). case r of
          None \<Rightarrow> Inr (None, s)
        | Some ip \<Rightarrow>
            bindE (ilock (Some ip) s) (\<lambda>s.
            bindE (follow_symlinks MAX_SYMLINK_DEPTH (omode AND O_NOACCESS \<noteq> 0) ip s) (\<lambda>(r, s). case r of
              None \<Rightarrow> Inr (None, s)
            | Some ip \<Rightarrow>
                if open_denied omode (inodes s ip) then bindE (iunlockput ip s) (\<lambda>s. Inr (None, s))
                else if i_type (inodes s ip) = T_DIR \<and> omode \<noteq> O_RDONLY \<and> omode AND O_NOACCESS = 0
                then bindE (iunlockput ip s) (\<lambda>s. Inr (None, s))
                else Inr (Some ip, s)))))"

text \<open>The second half of \<^verbatim>\<open>sys_open\<close>: a file structure and a descriptor for the locked inode.\<close>

definition open_file :: "nat \<Rightarrow> int \<Rightarrow> 'a fstate_scheme \<Rightarrow> (int \<times> 'a fstate_scheme) kres" where
  "open_file ip omode s =
     (if i_type (inodes s ip) = T_DEVICE \<and> (i_major (inodes s ip) < 0 \<or> i_major (inodes s ip) \<ge> NDEV)
      then unlockput_end ip (-1) s
      else case filealloc s of
        (None, s) \<Rightarrow> unlockput_end ip (-1) s
      | (Some f, s) \<Rightarrow>
          (case fdalloc f s of (fd, s) \<Rightarrow>
             if fd < 0 then bindE (fileclose f s) (unlockput_end ip (-1))
             else
               let s = (if i_type (inodes s ip) = T_DEVICE
                        then upd_file f (\<lambda>x. x\<lparr>f_type := FD_DEVICE, f_major := i_major (inodes s ip)\<rparr>) s
                        else upd_file f (\<lambda>x. x\<lparr>f_type := FD_INODE, f_off := 0\<rparr>) s);
                   s = upd_file f (\<lambda>x. x\<lparr>f_ip := Some ip\<rparr>) s;
                   s = (if omode AND O_NOACCESS \<noteq> 0
                        then upd_file f (\<lambda>x. x\<lparr>f_readable := False, f_writable := False\<rparr>) s
                        else upd_file f (\<lambda>x. x\<lparr>f_readable := (omode AND O_WRONLY = 0),
                               f_writable := (omode AND O_WRONLY \<noteq> 0 \<or> omode AND O_RDWR \<noteq> 0)\<rparr>) s) in
               bindE (if omode AND O_TRUNC \<noteq> 0 \<and> i_type (inodes s ip) = T_FILE then itrunc ip s else Inr s) (\<lambda>s.
               bindE (iunlock (Some ip) s) (\<lambda>s.
               end_with fd s))))"

definition sys_open :: "'a fstate_scheme \<Rightarrow> (int \<times> 'a fstate_scheme) kres" where
  "sys_open s =
     bindE (argstr 0 MAXPATH s) (\<lambda>(n, path, s). if n < 0 then Inr (-1, s) else
     bindE (argint 1 s) (\<lambda>omode.
     bindE (begin_op s) (\<lambda>s.
     bindE (open_inode path omode s) (\<lambda>(r, s). case r of
       None \<Rightarrow> end_with (-1) s
     | Some ip \<Rightarrow> open_file ip omode s))))"

definition sys_mkdir :: "'a fstate_scheme \<Rightarrow> (int \<times> 'a fstate_scheme) kres" where
  "sys_mkdir s =
     bindE (begin_op s) (\<lambda>s.
     bindE (argstr 0 MAXPATH s) (\<lambda>(r, path, s). if r < 0 then end_with (-1) s else
     bindE (create path T_DIR 0 0 s) (\<lambda>(r, s). case r of
       None \<Rightarrow> end_with (-1) s
     | Some ip \<Rightarrow> unlockput_end ip 0 s)))"

definition sys_mknod :: "'a fstate_scheme \<Rightarrow> (int \<times> 'a fstate_scheme) kres" where
  "sys_mknod s =
     bindE (begin_op s) (\<lambda>s.
     bindE (argstr 0 MAXPATH s) (\<lambda>(r, path, s). if r < 0 then end_with (-1) s else
     bindE (argint 1 s) (\<lambda>major.
     bindE (argint 2 s) (\<lambda>minor.
     bindE (create path T_DEVICE (short major) (short minor) s) (\<lambda>(r, s). case r of
       None \<Rightarrow> end_with (-1) s
     | Some ip \<Rightarrow> unlockput_end ip 0 s)))))"

definition sys_chdir :: "'a fstate_scheme \<Rightarrow> (int \<times> 'a fstate_scheme) kres" where
  "sys_chdir s =
     (let p = myproc s in
      bindE (begin_op s) (\<lambda>s.
      bindE (argstr 0 MAXPATH s) (\<lambda>(r, path, s). if r < 0 then end_with (-1) s else
      bindE (namei path s) (\<lambda>(r, s). case r of
        None \<Rightarrow> end_with (-1) s
      | Some ip \<Rightarrow>
          bindE (ilock (Some ip) s) (\<lambda>s.
          if i_type (inodes s ip) \<noteq> T_DIR then unlockput_end ip (-1) s
          else
            bindE (iunlock (Some ip) s) (\<lambda>s.
            bindE (case p_cwd (procs s p) of Some cwd \<Rightarrow> iput cwd s | None \<Rightarrow> Inl (Undef ''iput'')) (\<lambda>s.
            bindE (end_op s) (\<lambda>s.
            Inr (0, upd_proc p (\<lambda>x. x\<lparr>p_cwd := Some ip\<rparr>) s)))))))))"

definition sys_pipe_bad :: "nat \<Rightarrow> nat \<Rightarrow> 'a fstate_scheme \<Rightarrow> (int \<times> 'a fstate_scheme) kres" where
  "sys_pipe_bad rfile wfile s =
     bindE (fileclose rfile s) (\<lambda>s.
     bindE (fileclose wfile s) (\<lambda>s.
     Inr (-1, s)))"

definition sys_pipe :: "'a fstate_scheme \<Rightarrow> (int \<times> 'a fstate_scheme) kres" where
  "sys_pipe s =
     bindE (argaddr 0 s) (\<lambda>fdarray.
     bindE (pipealloc s) (\<lambda>(r, s). case r of
       None \<Rightarrow> Inr (-1, s)
     | Some (rfile, wfile) \<Rightarrow>
         (case fdalloc rfile s of (fd0, s) \<Rightarrow>
            if fd0 < 0 then sys_pipe_bad rfile wfile s
            else case fdalloc wfile s of (fd1, s) \<Rightarrow>
              if fd1 < 0 then sys_pipe_bad rfile wfile (set_ofile (nat fd0) None s)
              else
                bindE (copyout (mypt s) fdarray (put_int (\<lambda>_. 0) 0 fd0) 0 4 s) (\<lambda>(r, s).
                bindE (if r < 0 then Inr (r, s)
                       else copyout (mypt s) (u64 (fdarray + 4)) (put_int (\<lambda>_. 0) 0 fd1) 0 4 s) (\<lambda>(r, s).
                if r < 0 then
                  let s = set_ofile (nat fd0) None s;
                      s = set_ofile (nat fd1) None s in
                  sys_pipe_bad rfile wfile s
                else Inr (0, s))))))"

section \<open>Access control and symbolic links\<close>

definition sys_chmod :: "'a fstate_scheme \<Rightarrow> (int \<times> 'a fstate_scheme) kres" where
  "sys_chmod s =
     bindE (argstr 0 MAXPATH s) (\<lambda>(r, path, s). if r < 0 then Inr (-1, s) else
     bindE (argint 1 s) (\<lambda>mode.
     bindE (begin_op s) (\<lambda>s.
     bindE (namei path s) (\<lambda>(r, s). case r of
       None \<Rightarrow> end_with (-1) s
     | Some ip \<Rightarrow>
         bindE (ilock (Some ip) s) (\<lambda>s.
         bindE (follow_symlinks MAX_SYMLINK_DEPTH False ip s) (\<lambda>(r, s). case r of
           None \<Rightarrow> end_with (-1) s
         | Some ip \<Rightarrow>
             let s = (if i_type (inodes s ip) \<noteq> T_DEVICE
                      then upd_inode ip (\<lambda>x. x\<lparr>i_minor := mode AND (M_READ OR M_WRITE)\<rparr>) s else s) in
             bindE (iupdate ip s) (\<lambda>s.
             unlockput_end ip 0 s)))))))"

definition sys_symlink :: "'a fstate_scheme \<Rightarrow> (int \<times> 'a fstate_scheme) kres" where
  "sys_symlink s =
     bindE (argstr 0 MAXPATH s) (\<lambda>(r, target, s). if r < 0 then Inr (-1, s) else
     bindE (argstr 1 MAXPATH s) (\<lambda>(r, path, s). if r < 0 then Inr (-1, s) else
     bindE (begin_op s) (\<lambda>s.
     bindE (namei path s) (\<lambda>(r, s). case r of
       Some ip \<Rightarrow> bindE (iput ip s) (end_with (-1))
     | None \<Rightarrow>
         bindE (nameiparent path (\<lambda>_. 0) s) (\<lambda>(r, name, s). case r of
           None \<Rightarrow> end_with (-1) s
         | Some dp \<Rightarrow>
             bindE (ilock (Some dp) s) (\<lambda>s.
             bindE (ialloc (i_dev (inodes s dp)) T_SYMLINK s) (\<lambda>(ip, s).
             bindE (ilock (Some ip) s) (\<lambda>s.
             let s = upd_inode ip (inode_set_mode (M_READ OR M_WRITE)) s;
                 s = upd_inode ip (\<lambda>x. x\<lparr>i_nlink := 1\<rparr>) s in
             bindE (writei ip False 0 (bytes_of_list target) 0 (length target) s) (\<lambda>(r, s).
             if r \<noteq> int (length target) then bindE (iunlockput ip s) (unlockput_end dp (-1))
             else
               bindE (iupdate ip s) (\<lambda>s.
               bindE (dirlink dp name (i_inum (inodes s ip)) s) (\<lambda>(r, s).
               if r < 0 then bindE (iunlockput ip s) (unlockput_end dp (-1))
               else bindE (iunlockput dp s) (unlockput_end ip 0))))))))))))"

section \<open>Raw disk access\<close>

definition sys_raw_read :: "'a fstate_scheme \<Rightarrow> (int \<times> 'a fstate_scheme) kres" where
  "sys_raw_read s =
     bindE (argint 0 s) (\<lambda>pbn.
     bindE (argaddr 1 s) (\<lambda>user_buf_addr.
     if pbn < 0 \<or> pbn \<ge> int FSSIZE then Inr (-1, s)
     else
       bindE (bget ROOTDEV (nat pbn) s) (\<lambda>(b, s).
       let s = disk_rw b False s in
       bindE (copyout (mypt s) user_buf_addr (bdata s b) 0 BSIZE s) (\<lambda>(r, s).
       if r < 0 then bindE (brelse b s) (\<lambda>s. Inr (-1, s))
       else bindE (brelse b s) (\<lambda>s. Inr (0, s))))))"

definition sys_get_disk_lbn :: "'a fstate_scheme \<Rightarrow> (int \<times> 'a fstate_scheme) kres" where
  "sys_get_disk_lbn s =
     bindE (argfd 0 s) (\<lambda>r. case r of
       None \<Rightarrow> Inr (-1, s)
     | Some (fd, f) \<Rightarrow>
         bindE (argint 1 s) (\<lambda>file_lbn.
         if \<not> f_readable (files s f) then Inr (-1, s)
         else
           bindE (ilock (f_ip (files s f)) s) (\<lambda>s.
           bindE (bmap (the (f_ip (files s f))) (u32_of_int file_lbn) s) (\<lambda>(disk_lbn, s).
           bindE (iunlock (f_ip (files s f)) s) (\<lambda>s.
           Inr (int disk_lbn, s))))))"

definition sys_raw_write :: "'a fstate_scheme \<Rightarrow> (int \<times> 'a fstate_scheme) kres" where
  "sys_raw_write s =
     bindE (argint 0 s) (\<lambda>pbn.
     bindE (argaddr 1 s) (\<lambda>user_buf_addr.
     if pbn < 0 \<or> pbn \<ge> int FSSIZE then Inr (-1, s)
     else
       bindE (bget ROOTDEV (nat pbn) s) (\<lambda>(b, s).
       bindE (copyin (mypt s) (bdata s b) 0 user_buf_addr BSIZE s) (\<lambda>(r, d, s).
       let s = set_bdata b d s in
       if r < 0 then bindE (brelse b s) (\<lambda>s. Inr (-1, s))
       else
         let s = upd_buf b (\<lambda>x. x\<lparr>b_valid := True\<rparr>) s;
             s = disk_rw b True s in
         bindE (brelse b s) (\<lambda>s. Inr (0, s))))))"

section \<open>Duplicating and closing descriptors\<close>

lemma fdalloc_from_spec:
  "(\<forall>j<k. p_ofile (procs s (myproc s)) (fd + j) \<noteq> None) \<and> fdalloc_from k fd f s = (-1, s) \<or>
   (\<exists>j<k. p_ofile (procs s (myproc s)) (fd + j) = None \<and> (\<forall>i<j. p_ofile (procs s (myproc s)) (fd + i) \<noteq> None) \<and>
      fdalloc_from k fd f s = (int (fd + j), set_ofile (fd + j) (Some f) s))" (is "?P k fd")
proof (induction k arbitrary: fd)
  case (Suc k)
  show ?case
  proof (cases "p_ofile (procs s (myproc s)) fd")
    case None
    then show ?thesis by (intro disjI2 exI [of _ 0]) simp
  next
    case (Some g)
    from Suc [of "Suc fd"] show ?thesis
    proof (elim disjE exE conjE)
      assume "\<forall>j<k. p_ofile (procs s (myproc s)) (Suc fd + j) \<noteq> None" "fdalloc_from k (Suc fd) f s = (-1, s)"
      then show ?thesis using Some by (intro disjI1) (simp add: All_less_Suc2)
    next
      fix j assume "j < k" "p_ofile (procs s (myproc s)) (Suc fd + j) = None"
        "\<forall>i<j. p_ofile (procs s (myproc s)) (Suc fd + i) \<noteq> None"
        "fdalloc_from k (Suc fd) f s = (int (Suc fd + j), set_ofile (Suc fd + j) (Some f) s)"
      then show ?thesis using Some by (intro disjI2 exI [of _ "Suc j"]) (simp add: All_less_Suc2)
    qed
  qed
qed simp

lemma fdalloc_cases [case_names full least]:
  obtains "\<forall>d<NOFILE. p_ofile (procs s (myproc s)) d \<noteq> None" "fdalloc f s = (-1, s)"
  | d where "d < NOFILE" "p_ofile (procs s (myproc s)) d = None" "\<forall>i<d. p_ofile (procs s (myproc s)) i \<noteq> None"
      "fdalloc f s = (int d, set_ofile d (Some f) s)"
  using fdalloc_from_spec [of NOFILE s 0 f] by (auto simp: fdalloc_def)

lemma set_ofile_frame [simp]:
  "files (set_ofile d v s) = files s" "myproc (set_ofile d v s) = myproc s" "mem (set_ofile d v s) = mem s"
  "p_ofile (procs (set_ofile d v s) (myproc s)) = (p_ofile (procs s (myproc s)))(d := v)"
  "p_trapframe (procs (set_ofile d v s) p) = p_trapframe (procs s p)"
  by (simp_all add: set_ofile_def upd_proc_def myproc_def)

text \<open>C25: Descriptors: \<^verbatim>\<open>dup\<close> of an open descriptor gives the lowest free one, which then names the same open file, and
  counts one more reference to it; it fails, changing nothing, if the descriptor is not open or none is free. Closing the
  descriptor that \<^verbatim>\<open>dup\<close> gave restores the descriptors and the file table exactly.\<close>

theorem dup_close_roundtrip:
  assumes "argfd 0 s = Inr (Some (fd, f))" and "1 \<le> f_ref (files s f)"
  shows "(\<forall>d<NOFILE. p_ofile (procs s (myproc s)) d \<noteq> None) \<and> sys_dup s = Inr (-1, s) \<or>
    (\<exists>d s'. d < NOFILE \<and> p_ofile (procs s (myproc s)) d = None \<and> (\<forall>i<d. p_ofile (procs s (myproc s)) i \<noteq> None) \<and>
       sys_dup s = Inr (int d, s') \<and> p_ofile (procs s' (myproc s')) d = Some f \<and>
       p_ofile (procs s' (myproc s')) fd = Some f \<and> f_ref (files s' f) = f_ref (files s f) + 1 \<and>
       (\<forall>m. argfd 0 (s'\<lparr>mem := m\<rparr>) = Inr (Some (d, f)) \<longrightarrow> sys_close (s'\<lparr>mem := m\<rparr>) = Inr (0, s\<lparr>mem := m\<rparr>)))"
proof (cases rule: fdalloc_cases [where s = s and f = f, case_names full least])
  case full
  then show ?thesis using assms by (simp add: sys_dup_def)
next
  case (least d)
  let ?s = "set_ofile d (Some f) s" and ?up = "upd_file f (\<lambda>x. x\<lparr>f_ref := f_ref x + 1\<rparr>)"
  have fd: "p_ofile (procs s (myproc s)) fd = Some f"
    using assms(1) by (auto simp: argfd_def bindE_eq_Inr split: if_splits option.splits)
  have dup: "sys_dup s = Inr (int d, ?up ?s)"
    using assms least(4) by (simp add: sys_dup_def filedup_def)
  have my: "myproc (?up ?s) = myproc s" "procs (?up ?s) = procs ?s" "files (?up ?s) = (files s)(f := (files s f)\<lparr>f_ref := f_ref (files s f) + 1\<rparr>)"
    by (simp_all add: upd_file_def myproc_def set_ofile_def upd_proc_def)
  have close: "sys_close ((?up ?s)\<lparr>mem := m\<rparr>) = Inr (0, s\<lparr>mem := m\<rparr>)"
    if a: "argfd 0 ((?up ?s)\<lparr>mem := m\<rparr>) = Inr (Some (d, f))" for m
  proof -
    let ?t = "set_ofile d None ((?up ?s)\<lparr>mem := m\<rparr>)"
    have "f_ref (files ?t f) = f_ref (files s f) + 1" by (simp add: my(3))
    then have "fileclose f ?t = Inr (upd_file f (\<lambda>x. x\<lparr>f_ref := f_ref x - 1\<rparr>) ?t)"
      using assms(2) by (simp add: fileclose_def upd_file_def)
    moreover have "upd_file f (\<lambda>x. x\<lparr>f_ref := f_ref x - 1\<rparr>) ?t = s\<lparr>mem := m\<rparr>"
      using least(2) by (simp add: upd_file_def set_ofile_def upd_proc_def myproc_def fun_upd_idem)
    ultimately show ?thesis by (simp add: sys_close_def a Let_def)
  qed
  show ?thesis
    using least(1-3) dup my fd close
    by (intro disjI2 exI [of _ d] exI [of _ "?up ?s"]) auto
qed

text \<open>A machine whose process has the descriptor 0 open, on the root directory, which is in the inode cache.\<close>

definition demo_file :: kfile where
  "demo_file = \<lparr>f_type = FD_INODE, f_ref = 1, f_readable = True, f_writable = False, f_pipe = 0, f_ip = Some 0, f_off = 0, f_major = 0\<rparr>"

definition demo_root :: inode where
  "demo_root = no_inode\<lparr>i_dev := 1, i_inum := 1, i_ref := 1, i_valid := True, i_type := 1, i_minor := 1\<rparr>"

definition demo_fstate :: fstate where
  "demo_fstate = set_ofile 0 (Some 5) (demo_machine demo_disk
     (istate_ext (superblock_of (\<lambda>_. 0)) ((\<lambda>_. no_inode)(0 := demo_root)) (pipestate_ext (\<lambda>_. demo_pipe) (fstate_ext (\<lambda>_. demo_file) ()))))"

lemma fstate_fields:
  assumes "pipestate.more s = fstate_ext F r"
  shows "files s = F" "fstate.more s = r"
  using assms by (cases s; simp)+

lemma demo_fstate_fields [simp]:
  "files demo_fstate = (\<lambda>_. demo_file)" "inodes demo_fstate = (\<lambda>_. no_inode)(0 := demo_root)" "myproc demo_fstate = 1"
  "procs demo_fstate = (\<lambda>_. demo_proc 4096)(1 := (demo_proc 4096)\<lparr>p_ofile := (\<lambda>_. None)(0 := Some 5)\<rparr>)" "mem demo_fstate = demo_mem"
  "curpid demo_fstate = 1"
proof -
  define s :: fstate where "s = demo_machine demo_disk
     (istate_ext (superblock_of (\<lambda>_. 0)) ((\<lambda>_. no_inode)(0 := demo_root)) (pipestate_ext (\<lambda>_. demo_pipe) (fstate_ext (\<lambda>_. demo_file) ())))"
  have d: "demo_fstate = set_ofile 0 (Some 5) s" by (simp add: demo_fstate_def s_def)
  have m: "pstate.more s = istate_ext (superblock_of (\<lambda>_. 0)) ((\<lambda>_. no_inode)(0 := demo_root)) (pipestate_ext (\<lambda>_. demo_pipe) (fstate_ext (\<lambda>_. demo_file) ()))"
    by (simp add: s_def)
  note I = istate_fields [OF m] note P = pipestate_fields [OF I(3)] note F = fstate_fields [OF P(2)]
  have b: "myproc s = 1" "procs s = (\<lambda>_. demo_proc 4096)" "mem s = demo_mem" "curpid s = 1" by (simp_all add: s_def)
  show "files demo_fstate = (\<lambda>_. demo_file)" "inodes demo_fstate = (\<lambda>_. no_inode)(0 := demo_root)" "myproc demo_fstate = 1"
    "procs demo_fstate = (\<lambda>_. demo_proc 4096)(1 := (demo_proc 4096)\<lparr>p_ofile := (\<lambda>_. None)(0 := Some 5)\<rparr>)" "mem demo_fstate = demo_mem"
    "curpid demo_fstate = 1"
    using I F b by (simp_all add: d) (simp_all add: set_ofile_def upd_proc_def demo_proc_def)
qed

lemma demo_fstate_arg: "argfd 0 demo_fstate = Inr (Some (0, 5))"
proof -
  have "get_le demo_mem 20592 8 = get_le (\<lambda>_. 0) 20592 8"
    by (rule get_le_cong) (simp add: demo_mem_def put_le_outside)
  then show ?thesis
    by (simp add: argfd_def argint_def argraw_def tf_get_def TF_a_def demo_proc_def int_of_u32_def u32_def NOFILE_def)
qed

theorem dup_close_roundtrip_witness:
  "\<exists>s'. sys_dup demo_fstate = Inr (1, s') \<and> p_ofile (procs s' (myproc s')) 1 = Some 5 \<and> f_ref (files s' 5) = 2"
proof -
  have free: "p_ofile (procs demo_fstate (myproc demo_fstate)) d = None \<longleftrightarrow> d \<noteq> 0" for d by (simp add: demo_proc_def)
  have nofull: "\<not> (\<forall>d<NOFILE. p_ofile (procs demo_fstate (myproc demo_fstate)) d \<noteq> None)"
    unfolding free using exI [of "\<lambda>d. d < NOFILE \<and> d \<noteq> 0" 1] by (simp add: NOFILE_def)
  from dup_close_roundtrip [OF demo_fstate_arg] nofull obtain d s' where
    d: "d \<noteq> 0" "\<forall>i<d. i = 0" "sys_dup demo_fstate = Inr (int d, s')" "p_ofile (procs s' (myproc s')) d = Some 5"
    "f_ref (files s' 5) = 2"
    unfolding free by (auto simp: demo_file_def)
  from d(1,2) have "d = 1" by (cases d) auto
  with d show ?thesis by auto
qed

section \<open>Access control\<close>

lemma follow_symlinks_Some:
  "follow_symlinks k False ip s = Inr (Some ip', s') \<Longrightarrow> i_type (inodes s' ip') \<noteq> T_SYMLINK"
proof (induction k arbitrary: ip s)
  case (Suc k)
  show ?case
  proof (cases "i_type (inodes s ip) = T_SYMLINK")
    case True
    then show ?thesis
      using Suc.prems by (auto simp: bindE_eq_Inr Let_def split: if_splits option.splits dest: Suc.IH)
  qed (use Suc.prems in auto)
qed (auto simp: bindE_eq_Inr)

text \<open>C24: Access control of \<^verbatim>\<open>open\<close>: an inode that is opened for reading, for writing, or for both, with one of the plain
  modes, has the permissions for it, unless it is a device; symbolic links have been followed, and a directory is opened
  only for reading, unless the mode asks for no access. But the modes are compared as numbers: with any further bit,
  \<^verbatim>\<open>O_TRUNC\<close> for example, no permission is checked at all.\<close>

theorem open_checks_plain_modes:
  assumes "open_inode path omode s = Inr (Some ip, s')" and "omode AND O_CREATE = 0"
  shows "(i_type (inodes s' ip) \<noteq> T_DEVICE \<longrightarrow>
       (omode = O_RDONLY \<or> omode = O_RDWR \<longrightarrow> inode_get_mode (inodes s' ip) AND M_READ \<noteq> 0) \<and>
       (omode = O_WRONLY \<or> omode = O_RDWR \<longrightarrow> inode_get_mode (inodes s' ip) AND M_WRITE \<noteq> 0)) \<and>
    (omode AND O_NOACCESS = 0 \<longrightarrow> i_type (inodes s' ip) \<noteq> T_SYMLINK \<and> (i_type (inodes s' ip) = T_DIR \<longrightarrow> omode = O_RDONLY)) \<and>
    (\<forall>mode x. mode \<notin> {O_RDONLY, O_WRONLY, O_RDWR} \<longrightarrow> \<not> open_denied mode x)"
proof -
  obtain ip0 s0 where f: "follow_symlinks MAX_SYMLINK_DEPTH (omode AND O_NOACCESS \<noteq> 0) ip0 s0 = Inr (Some ip, s')"
    and d: "\<not> open_denied omode (inodes s' ip)"
    and t: "\<not> (i_type (inodes s' ip) = T_DIR \<and> omode \<noteq> O_RDONLY \<and> omode AND O_NOACCESS = 0)"
    using assms by (auto simp: open_inode_def bindE_eq_Inr split: if_splits option.splits)
  have m: "O_RDONLY AND O_NOACCESS = 0" "O_WRONLY AND O_NOACCESS = 0" "O_RDWR AND O_NOACCESS = 0"
    by (simp_all add: O_RDONLY_def O_WRONLY_def O_RDWR_def O_NOACCESS_def)
  have 1: "inode_get_mode (inodes s' ip) AND M_READ \<noteq> 0" if "i_type (inodes s' ip) \<noteq> T_DEVICE" "omode = O_RDONLY \<or> omode = O_RDWR"
    using d that m by (auto simp: open_denied_def Let_def)
  have 2: "inode_get_mode (inodes s' ip) AND M_WRITE \<noteq> 0" if "i_type (inodes s' ip) \<noteq> T_DEVICE" "omode = O_WRONLY \<or> omode = O_RDWR"
    using d that m by (auto simp: open_denied_def Let_def)
  have 3: "\<not> open_denied mode x" if "mode \<notin> {O_RDONLY, O_WRONLY, O_RDWR}" for mode x
    using that by (simp add: open_denied_def Let_def)
  have 4: "i_type (inodes s' ip) \<noteq> T_SYMLINK" if "omode AND O_NOACCESS = 0"
    using f that by (intro follow_symlinks_Some [of MAX_SYMLINK_DEPTH ip0 s0]) simp
  show ?thesis using 1 2 3 4 t by blast
qed

lemma demo_open_root: "\<exists>s'. open_inode [47] O_RDONLY demo_fstate = Inr (Some 0, s')"
proof -
  let ?s = "upd_inode 0 (\<lambda>x. x\<lparr>i_ref := i_ref x + 1\<rparr>) demo_fstate"
  let ?t = "upd_inode 0 (\<lambda>x. x\<lparr>i_lock := \<lparr>locked = True, lk_pid = 1\<rparr>\<rparr>) ?s"
  have ns: "namex_start [47] demo_fstate = Inr (0, ?s)"
    by (simp add: namex_start_def SLASH_def iget_def NINODE_def numeral_eq_Suc demo_root_def ROOTDEV_def ROOTINO_def)
  have "skipelem [47] (\<lambda>_. 0) = None" by (simp add: skipelem_def SLASH_def Let_def)
  then have n: "namei [47] demo_fstate = Inr (Some 0, ?s)"
    by (simp add: namei_def namex_def ns namex_loop.simps)
  have l: "ilock (Some 0) ?s = Inr ?t"
    by (simp add: ilock_def upd_inode_def demo_root_def no_inode_def acquiresleep_def initsleeplock_def Let_def)
  have f: "follow_symlinks MAX_SYMLINK_DEPTH False 0 ?t = Inr (Some 0, ?t)"
    by (simp add: MAX_SYMLINK_DEPTH_def numeral_eq_Suc upd_inode_def demo_root_def T_SYMLINK_def)
  have d: "\<not> open_denied O_RDONLY (inodes ?t 0)"
    by (simp add: open_denied_def Let_def upd_inode_def demo_root_def inode_get_mode_def O_RDONLY_def O_WRONLY_def O_RDWR_def O_NOACCESS_def M_READ_def T_DEVICE_def)
  have "open_inode [47] O_RDONLY demo_fstate = Inr (Some 0, ?t)"
    using d by (simp add: open_inode_def n l O_CREATE_def O_NOACCESS_def O_RDONLY_def f)
  then show ?thesis by blast
qed

theorem open_checks_plain_modes_witness:
  "\<exists>s'. open_inode [47] O_RDONLY demo_fstate = Inr (Some 0, s') \<and> i_type (inodes s' 0) \<noteq> T_SYMLINK \<and>
     \<not> open_denied (O_RDWR OR O_TRUNC) no_inode"
proof -
  obtain s' where o: "open_inode [47] O_RDONLY demo_fstate = Inr (Some 0, s')" using demo_open_root by blast
  have m: "O_RDONLY AND O_CREATE = 0" "O_RDONLY AND O_NOACCESS = 0" "O_RDWR OR O_TRUNC \<notin> {O_RDONLY, O_WRONLY, O_RDWR}"
    by (simp_all add: O_RDONLY_def O_WRONLY_def O_RDWR_def O_NOACCESS_def O_CREATE_def O_TRUNC_def)
  show ?thesis using open_checks_plain_modes [OF o m(1)] m(2,3) o by blast
qed

end
