(* ===== verification/Process.thy ===== *)
theory Process
  imports Sysfile
begin

text \<open>
  The life of a process: the first process, \<^verbatim>\<open>fork\<close>, \<^verbatim>\<open>exit\<close>, \<^verbatim>\<open>wait\<close> (\<^verbatim>\<open>FileSystem-RAID/kernel/proc.c\<close>), and \<^verbatim>\<open>exec\<close>
  (\<^verbatim>\<open>exec.c\<close>). The address of the trampoline page and of \<^verbatim>\<open>forkret\<close> are arguments, as the linker fixes them.
  \<^verbatim>\<open>exit\<close> takes and releases the process locks in the order of the source, on the spin lock machine; the other
  routines run under locks that nobody else wants, as atomic steps.
\<close>

section \<open>The first process\<close>

definition initcode :: "byte list" where
  "initcode =
     [0x17, 0x05, 0x00, 0x00, 0x13, 0x05, 0x45, 0x02, 0x97,
      0x05, 0x00, 0x00, 0x93, 0x85, 0x35, 0x02, 0x93, 0x08,
      0x70, 0x00, 0x73, 0x00, 0x00, 0x00, 0x93, 0x08, 0x20,
      0x00, 0x73, 0x00, 0x00, 0x00, 0xef, 0xf0, 0x9f, 0xff,
      0x2f, 0x69, 0x6e, 0x69, 0x74, 0x00, 0x00, 0x24, 0x00,
      0x00, 0x00, 0x00, 0x00, 0x00, 0x00, 0x00]"

definition set_name :: "nat \<Rightarrow> bytes \<Rightarrow> 'a pstate_scheme \<Rightarrow> 'a pstate_scheme" where
  "set_name p src = upd_proc p (\<lambda>x. x\<lparr>p_name := safestrcpy (p_name x) 0 src 0 16\<rparr>)"

definition userinit :: "nat \<Rightarrow> nat \<Rightarrow> 'a fstate_scheme \<Rightarrow> 'a fstate_scheme kres" where
  "userinit trampoline forkret_ra s =
     bindE (allocproc trampoline forkret_ra s) (\<lambda>(r, s). case r of
       None \<Rightarrow> Inl (Undef ''userinit'')
     | Some p \<Rightarrow>
         let s = s\<lparr>initproc := Some p\<rparr> in
         bindE (uvminit (p_pagetable (procs s p)) (bytes_of_list initcode) (length initcode) s) (\<lambda>s.
         let s = upd_proc p (\<lambda>x. x\<lparr>p_sz := PGSIZE\<rparr>) s;
             s = tf_set p TF_epc 0 s;
             s = tf_set p TF_sp PGSIZE s;
             s = set_name p (cstring ''initcode'') s in
         bindE (namei (str ''/'') s) (\<lambda>(cwd, s).
         let s = upd_proc p (\<lambda>x. x\<lparr>p_cwd := cwd\<rparr>) s in
         Inr (upd_proc p (\<lambda>x. x\<lparr>p_state := RUNNABLE\<rparr>) s))))"

text \<open>\<^verbatim>\<open>forkret\<close> up to the return to user space; \<open>first\<close> is its static variable.\<close>

definition forkret :: "bool \<Rightarrow> smp \<Rightarrow> 'a fstate_scheme \<Rightarrow> (bool \<times> smp \<times> 'a fstate_scheme) kres" where
  "forkret first m s =
     bindE (release (cpu s) (plock (myproc s)) m) (\<lambda>m.
     if first then bindE (fsinit ROOTDEV s) (\<lambda>s. Inr (False, m, s))
     else Inr (first, m, s))"

section \<open>Fork\<close>

definition fork_ofile :: "nat \<Rightarrow> nat \<Rightarrow> nat \<Rightarrow> 'a fstate_scheme \<Rightarrow> 'a fstate_scheme kres" where
  "fork_ofile p np i s =
     (case p_ofile (procs s p) i of
        None \<Rightarrow> Inr s
      | Some f \<Rightarrow>
          bindE (filedup f s) (\<lambda>s.
          Inr (upd_proc np (\<lambda>x. x\<lparr>p_ofile := (p_ofile x)(i := Some f)\<rparr>) s)))"

definition fork :: "nat \<Rightarrow> nat \<Rightarrow> 'a fstate_scheme \<Rightarrow> (int \<times> 'a fstate_scheme) kres" where
  "fork trampoline forkret_ra s =
     (let p = myproc s in
      bindE (allocproc trampoline forkret_ra s) (\<lambda>(r, s). case r of
        None \<Rightarrow> Inr (-1, s)
      | Some np \<Rightarrow>
          bindE (uvmcopy (p_pagetable (procs s p)) (p_pagetable (procs s np)) (p_sz (procs s p)) s) (\<lambda>(r, s).
          if r < 0 then bindE (freeproc np s) (\<lambda>s. Inr (-1, s))
          else
            let s = upd_proc np (\<lambda>x. x\<lparr>p_sz := p_sz (procs s p)\<rparr>) s;
                s = upd_proc np (\<lambda>x. x\<lparr>p_parent := Some p\<rparr>) s;
                s = s\<lparr>mem := blit (mem s) (p_trapframe (procs s np)) (mem s) (p_trapframe (procs s p)) TF_size\<rparr>;
                s = tf_set np (TF_a 0) 0 s in
            bindE (foldE (fork_ofile p np) [0..<NOFILE] s) (\<lambda>s.
            bindE (case p_cwd (procs s p) of Some cwd \<Rightarrow> Inr (idup cwd s) | None \<Rightarrow> Inl (Undef ''idup'')) (\<lambda>s.
            let s = upd_proc np (\<lambda>x. x\<lparr>p_cwd := p_cwd (procs s p)\<rparr>) s;
                s = set_name np (p_name (procs s p)) s;
                pid = p_pid (procs s np);
                s = upd_proc np (\<lambda>x. x\<lparr>p_state := RUNNABLE\<rparr>) s in
            Inr (pid, s))))))"

section \<open>Exit and wait\<close>

definition reparent_body :: "nat \<Rightarrow> nat \<Rightarrow> smp \<times> 'a pstate_scheme \<Rightarrow> (smp \<times> 'a pstate_scheme) kres" where
  "reparent_body p pp ms =
     (case ms of (m, s) \<Rightarrow>
        if p_parent (procs s pp) = Some p then
          bindE (acquire (cpu s) (plock pp) m) (\<lambda>m.
          let s = upd_proc pp (\<lambda>x. x\<lparr>p_parent := initproc s\<rparr>) s in
          bindE (release (cpu s) (plock pp) m) (\<lambda>m. Inr (m, s)))
        else Inr (m, s))"

definition reparent :: "nat \<Rightarrow> smp \<Rightarrow> 'a pstate_scheme \<Rightarrow> (smp \<times> 'a pstate_scheme) kres" where
  "reparent p m s = foldE (reparent_body p) [0..<NPROC] (m, s)"

definition exit_ofile :: "nat \<Rightarrow> nat \<Rightarrow> 'a fstate_scheme \<Rightarrow> 'a fstate_scheme kres" where
  "exit_ofile p fd s =
     (case p_ofile (procs s p) fd of
        None \<Rightarrow> Inr s
      | Some f \<Rightarrow>
          bindE (fileclose f s) (\<lambda>s.
          Inr (upd_proc p (\<lambda>x. x\<lparr>p_ofile := (p_ofile x)(fd := None)\<rparr>) s)))"

text \<open>The part of \<^verbatim>\<open>exit\<close> that gives up files and the current directory, and the part that turns into a zombie.\<close>

definition exit_files :: "nat \<Rightarrow> 'a fstate_scheme \<Rightarrow> 'a fstate_scheme kres" where
  "exit_files p s =
     bindE (foldE (exit_ofile p) [0..<NOFILE] s) (\<lambda>s.
     bindE (begin_op s) (\<lambda>s.
     bindE (case p_cwd (procs s p) of Some cwd \<Rightarrow> iput cwd s | None \<Rightarrow> Inl (Undef ''iput'')) (\<lambda>s.
     bindE (end_op s) (\<lambda>s.
     Inr (upd_proc p (\<lambda>x. x\<lparr>p_cwd := None\<rparr>) s)))))"

definition exit_zombie :: "nat \<Rightarrow> nat \<Rightarrow> int \<Rightarrow> smp \<Rightarrow> 'a pstate_scheme \<Rightarrow> (smp \<times> 'a pstate_scheme) kres" where
  "exit_zombie p ini status m s =
     bindE (acquire (cpu s) (plock ini) m) (\<lambda>m.
     bindE (wakeup1 ini m s) (\<lambda>s.
     bindE (release (cpu s) (plock ini) m) (\<lambda>m.
     bindE (acquire (cpu s) (plock p) m) (\<lambda>m.
     let original_parent = p_parent (procs s p) in
     bindE (release (cpu s) (plock p) m) (\<lambda>m.
     case original_parent of
       None \<Rightarrow> Inl (Undef ''exit'')
     | Some pp \<Rightarrow>
         bindE (acquire (cpu s) (plock pp) m) (\<lambda>m.
         bindE (acquire (cpu s) (plock p) m) (\<lambda>m.
         bindE (reparent p m s) (\<lambda>(m, s).
         bindE (wakeup1 pp m s) (\<lambda>s.
         let s = upd_proc p (\<lambda>x. x\<lparr>p_xstate := status, p_state := ZOMBIE\<rparr>) s in
         bindE (release (cpu s) (plock pp) m) (\<lambda>m.
         bindE (sched m s) (\<lambda>_.
         Inr (m, s))))))))))))"

definition exit :: "int \<Rightarrow> smp \<Rightarrow> 'a fstate_scheme \<Rightarrow> (smp \<times> 'a fstate_scheme) kres" where
  "exit status m s =
     (let p = myproc s in
      case initproc s of
        None \<Rightarrow> Inl (Undef ''exit'')
      | Some ini \<Rightarrow>
          if p = ini then Inl (Panic ''init exiting'')
          else bindE (exit_files p s) (exit_zombie p ini status m))"

text \<open>The scan of \<^verbatim>\<open>wait\<close>: a result if a zombie was found, and whether there are children at all.\<close>

primrec wait_scan ::
  "nat \<Rightarrow> nat \<Rightarrow> nat \<Rightarrow> bool \<Rightarrow> nat \<Rightarrow> 'a pstate_scheme \<Rightarrow> (int option \<times> bool \<times> 'a pstate_scheme) kres" where
  "wait_scan 0 np p havekids addr s = Inr (None, havekids, s)"
| "wait_scan (Suc k) np p havekids addr s =
     (if p_parent (procs s np) = Some p then
        if p_state (procs s np) = ZOMBIE then
          let pid = p_pid (procs s np) in
          bindE (if addr \<noteq> 0
                 then copyout (p_pagetable (procs s p)) addr (put_int (\<lambda>_. 0) 0 (p_xstate (procs s np))) 0 4 s
                 else Inr (0, s)) (\<lambda>(r, s).
          if r < 0 then Inr (Some (-1), True, s)
          else bindE (freeproc np s) (\<lambda>s. Inr (Some pid, True, s)))
        else wait_scan k (Suc np) p True addr s
      else wait_scan k (Suc np) p havekids addr s)"

definition wait :: "nat \<Rightarrow> 'a pstate_scheme \<Rightarrow> (call_result \<times> 'a pstate_scheme) kres" where
  "wait addr s =
     (let p = myproc s in
      bindE (wait_scan NPROC 0 p False addr s) (\<lambda>(r, havekids, s). case r of
        Some v \<Rightarrow> Inr (Done v, s)
      | None \<Rightarrow>
          if \<not> havekids \<or> p_killed (procs s p) then Inr (Done (-1), s)
          else Inr (Asleep 0, set_sleeping (Chan_proc p) s)))"

definition wait_resume :: "nat \<Rightarrow> 'a pstate_scheme \<Rightarrow> (call_result \<times> 'a pstate_scheme) kres" where
  "wait_resume addr s = wait addr (tidy_up s)"

section \<open>Exec\<close>

definition ELF_MAGIC :: nat where "ELF_MAGIC = 1179403647"
definition ELFSIZE :: nat where "ELFSIZE = 64"
definition PHSIZE :: nat where "PHSIZE = 56"
definition ELF_PROG_LOAD :: nat where "ELF_PROG_LOAD = 1"
definition MAXARG :: nat where "MAXARG = 32"

function loadseg_from ::
  "nat \<Rightarrow> nat \<Rightarrow> nat \<Rightarrow> nat \<Rightarrow> nat \<Rightarrow> nat \<Rightarrow> 'a istate_scheme \<Rightarrow> (int \<times> 'a istate_scheme) kres" where
  "loadseg_from i pagetable va ip offset sz s =
     (if i < sz then
        bindE (walkaddr pagetable (u64 (va + i)) s) (\<lambda>(pa, s).
        if pa = 0 then Inl (Panic ''loadseg: address should exist'')
        else
          let n = (if sz - i < PGSIZE then sz - i else PGSIZE) in
          bindE (readi ip False 0 (\<lambda>_. 0) (u32 (offset + i)) n s) (\<lambda>(r, d, s).
          let s = s\<lparr>mem := blit (mem s) pa d 0 (nat r)\<rparr> in
          if r \<noteq> int n then Inr (-1, s)
          else loadseg_from (i + PGSIZE) pagetable va ip offset sz s))
      else Inr (0, s))"
  by pat_completeness auto
termination
  by (relation "measure (\<lambda>(i, pagetable, va, ip, offset, sz, s). sz - i)") (auto simp: PGSIZE_def)

declare loadseg_from.simps [simp del]

definition loadseg ::
  "nat \<Rightarrow> nat \<Rightarrow> nat \<Rightarrow> nat \<Rightarrow> nat \<Rightarrow> 'a istate_scheme \<Rightarrow> (int \<times> 'a istate_scheme) kres" where
  "loadseg pagetable va ip offset sz s =
     (if va mod PGSIZE \<noteq> 0 then Inl (Panic ''loadseg: va must be page aligned'')
      else loadseg_from 0 pagetable va ip offset sz s)"

text \<open>The loop over program headers: whether it succeeded, and the size reached (for the label \<^verbatim>\<open>bad\<close>).\<close>

primrec exec_load ::
  "nat \<Rightarrow> int \<Rightarrow> nat \<Rightarrow> nat \<Rightarrow> nat \<Rightarrow> 'a istate_scheme \<Rightarrow> (bool \<times> nat \<times> 'a istate_scheme) kres" where
  "exec_load 0 off pagetable ip sz s = Inr (True, sz, s)"
| "exec_load (Suc k) off pagetable ip sz s =
     bindE (readi ip False 0 (\<lambda>_. 0) (u32_of_int off) PHSIZE s) (\<lambda>(r, ph, s).
     let vaddr = get_le ph 16 8; filesz = get_le ph 32 8; memsz = get_le ph 40 8 in
     if r \<noteq> int PHSIZE then Inr (False, sz, s)
     else if get_le ph 0 4 \<noteq> ELF_PROG_LOAD then exec_load k (off + int PHSIZE) pagetable ip sz s
     else if memsz < filesz then Inr (False, sz, s)
     else if u64 (vaddr + memsz) < vaddr then Inr (False, sz, s)
     else
       bindE (uvmalloc pagetable sz (u64 (vaddr + memsz)) s) (\<lambda>(sz1, s).
       if sz1 = 0 then Inr (False, sz, s)
       else if vaddr mod PGSIZE \<noteq> 0 then Inr (False, sz1, s)
       else
         bindE (loadseg pagetable vaddr ip (u32 (get_le ph 8 8)) (u32 filesz) s) (\<lambda>(r, s).
         if r < 0 then Inr (False, sz1, s)
         else exec_load k (off + int PHSIZE) pagetable ip sz1 s)))"

text \<open>Pushing the argument strings: the stack pointer and the addresses pushed, unless it fails.\<close>

primrec exec_args ::
  "byte list list \<Rightarrow> nat \<Rightarrow> nat \<Rightarrow> nat \<Rightarrow> nat list \<Rightarrow> 'a mstate_scheme \<Rightarrow> ((nat \<times> nat list) option \<times> 'a mstate_scheme) kres" where
  "exec_args [] pagetable stackbase sp ustack s = Inr (Some (sp, ustack), s)"
| "exec_args (a # argv) pagetable stackbase sp ustack s =
     (if length ustack \<ge> MAXARG then Inr (None, s)
      else
        let sp = sub64 sp (length a + 1);
            sp = sp - sp mod 16 in
        if sp < stackbase then Inr (None, s)
        else
          bindE (copyout pagetable sp (bytes_of_list a) 0 (length a + 1) s) (\<lambda>(r, s).
          if r < 0 then Inr (None, s)
          else exec_args argv pagetable stackbase sp (ustack @ [sp]) s))"

primrec put_u64s :: "nat list \<Rightarrow> nat \<Rightarrow> bytes \<Rightarrow> bytes" where
  "put_u64s [] off d = d"
| "put_u64s (v # vs) off d = put_u64s vs (off + 8) (put_le d off 8 v)"

text \<open>The stack of the new image: initial stack pointer, or failure.\<close>

definition exec_stack ::
  "byte list list \<Rightarrow> nat \<Rightarrow> nat \<Rightarrow> 'a mstate_scheme \<Rightarrow> (nat option \<times> 'a mstate_scheme) kres" where
  "exec_stack argv pagetable sz s =
     bindE (uvmclear pagetable (sub64 sz (2 * PGSIZE)) s) (\<lambda>s.
     let stackbase = sub64 sz PGSIZE in
     bindE (exec_args argv pagetable stackbase sz [] s) (\<lambda>(r, s). case r of
       None \<Rightarrow> Inr (None, s)
     | Some (sp, ustack) \<Rightarrow>
         let argc = length ustack;
             sp = sub64 sp ((argc + 1) * 8);
             sp = sp - sp mod 16 in
         if sp < stackbase then Inr (None, s)
         else
           bindE (copyout pagetable sp (put_u64s (ustack @ [0]) 0 (\<lambda>_. 0)) 0 ((argc + 1) * 8) s) (\<lambda>(r, s).
           if r < 0 then Inr (None, s) else Inr (Some sp, s))))"

definition exec_bad :: "nat \<Rightarrow> nat \<Rightarrow> nat option \<Rightarrow> 'a fstate_scheme \<Rightarrow> (int \<times> 'a fstate_scheme) kres" where
  "exec_bad pagetable sz r s =
     bindE (if pagetable \<noteq> 0 then proc_freepagetable pagetable sz s else Inr s) (\<lambda>s.
     case r of
       Some ip \<Rightarrow> unlockput_end ip (-1) s
     | None \<Rightarrow> Inr (-1, s))"

definition exec_name :: "byte list \<Rightarrow> byte list" where
  "exec_name path = rev (takeWhile (\<lambda>c. c \<noteq> SLASH) (rev path))"

definition exec_commit ::
  "byte list \<Rightarrow> byte list list \<Rightarrow> nat \<Rightarrow> nat \<Rightarrow> nat \<Rightarrow> nat \<Rightarrow> 'a fstate_scheme \<Rightarrow> (int \<times> 'a fstate_scheme) kres" where
  "exec_commit path argv pagetable sz entry sp s =
     (let p = myproc s; oldsz = p_sz (procs s p);
          s = tf_set p (TF_a 1) sp s;
          s = set_name p (bytes_of_list (exec_name path)) s;
          oldpagetable = p_pagetable (procs s p);
          s = upd_proc p (\<lambda>x. x\<lparr>p_pagetable := pagetable, p_sz := sz\<rparr>) s;
          s = tf_set p TF_epc entry s;
          s = tf_set p TF_sp sp s in
      bindE (proc_freepagetable oldpagetable oldsz s) (\<lambda>s.
      Inr (int (length argv), s)))"

definition exec :: "nat \<Rightarrow> byte list \<Rightarrow> byte list list \<Rightarrow> 'a fstate_scheme \<Rightarrow> (int \<times> 'a fstate_scheme) kres" where
  "exec trampoline path argv s =
     bindE (begin_op s) (\<lambda>s.
     bindE (namei path s) (\<lambda>(r, s). case r of
       None \<Rightarrow> end_with (-1) s
     | Some ip \<Rightarrow>
         bindE (ilock (Some ip) s) (\<lambda>s.
         bindE (readi ip False 0 (\<lambda>_. 0) 0 ELFSIZE s) (\<lambda>(r, elf, s).
         if r \<noteq> int ELFSIZE then exec_bad 0 0 (Some ip) s
         else if get_le elf 0 4 \<noteq> ELF_MAGIC then exec_bad 0 0 (Some ip) s
         else
           bindE (proc_pagetable trampoline (myproc s) s) (\<lambda>(pagetable, s).
           if pagetable = 0 then exec_bad 0 0 (Some ip) s
           else
             bindE (exec_load (get_le elf 56 2) (int_of_u32 (u32 (get_le elf 32 8))) pagetable ip 0 s) (\<lambda>(good, sz, s).
             if \<not> good then exec_bad pagetable sz (Some ip) s
             else
               bindE (iunlockput ip s) (\<lambda>s.
               bindE (end_op s) (\<lambda>s.
               let sz = PGROUNDUP sz in
               bindE (uvmalloc pagetable sz (sz + 2 * PGSIZE) s) (\<lambda>(sz1, s).
               if sz1 = 0 then exec_bad pagetable sz None s
               else
                 bindE (exec_stack argv pagetable sz1 s) (\<lambda>(r, s). case r of
                   None \<Rightarrow> exec_bad pagetable sz1 None s
                 | Some sp \<Rightarrow> exec_commit path argv pagetable sz1 (get_le elf 24 8) sp s))))))))))"

end
