(* ===== verification/Syscall.thy ===== *)
theory Syscall
  imports Process
begin

text \<open>
  The process system calls and the RAID test hooks (\<^verbatim>\<open>FileSystem-RAID/kernel/sysproc.c\<close>), \<^verbatim>\<open>sys_exec\<close>, the dispatch
  table (\<^verbatim>\<open>syscall.c\<close>), and the part of \<^verbatim>\<open>trap.c\<close> that the other components rely on: the clock, and the order of the
  checks in \<^verbatim>\<open>usertrap\<close>. What the hardware supplies (the trap cause, the saved program counter) and what the linker
  or the drivers supply are fields of the record \<open>env\<close>.
\<close>

record 'a env =
  e_trampoline :: nat
  e_forkret :: nat
  e_pad :: bytes
  e_read :: "'a devsw"
  e_write :: "'a devsw"

section \<open>Process system calls\<close>

text \<open>
  A system call returns a value; \<^verbatim>\<open>wait\<close>, \<^verbatim>\<open>sleep\<close> and the pipe calls may sleep instead, and \<^verbatim>\<open>exit\<close> does not return.
\<close>

datatype sys_result = Ret int | Blocked nat | Exits smp

definition ret :: "(int \<times> 's) kres \<Rightarrow> (sys_result \<times> 's) kres" where
  "ret m = bindE m (\<lambda>(v, s). Inr (Ret v, s))"

definition ret_call :: "(call_result \<times> 's) kres \<Rightarrow> (sys_result \<times> 's) kres" where
  "ret_call m = bindE m (\<lambda>(r, s). Inr (case r of Done v \<Rightarrow> Ret v | Asleep i \<Rightarrow> Blocked i, s))"

definition sys_exit :: "smp \<Rightarrow> 'a fstate_scheme \<Rightarrow> (sys_result \<times> 'a fstate_scheme) kres" where
  "sys_exit m s =
     bindE (argint 0 s) (\<lambda>n.
     bindE (exit n m s) (\<lambda>(m, s). Inr (Exits m, s)))"

definition sys_getpid :: "'a fstate_scheme \<Rightarrow> (int \<times> 'a fstate_scheme) kres" where
  "sys_getpid s = Inr (p_pid (procs s (myproc s)), s)"

definition sys_fork :: "nat \<Rightarrow> nat \<Rightarrow> 'a fstate_scheme \<Rightarrow> (int \<times> 'a fstate_scheme) kres" where
  "sys_fork trampoline forkret_ra s = fork trampoline forkret_ra s"

definition sys_wait :: "'a fstate_scheme \<Rightarrow> (call_result \<times> 'a fstate_scheme) kres" where
  "sys_wait s = bindE (argaddr 0 s) (\<lambda>p. wait p s)"

definition sys_sbrk :: "'a fstate_scheme \<Rightarrow> (int \<times> 'a fstate_scheme) kres" where
  "sys_sbrk s =
     bindE (argint 0 s) (\<lambda>n.
     let addr = int_of_u32 (u32 (p_sz (procs s (myproc s)))) in
     bindE (growproc n s) (\<lambda>(r, s).
     if r < 0 then Inr (-1, s) else Inr (addr, s)))"

text \<open>
  \<^verbatim>\<open>sys_sleep\<close>, from a given start \<open>ticks0\<close>: the comparison is between unsigned numbers, so a negative argument
  waits for almost \<open>2 ^ 32\<close> ticks.
\<close>

definition sleep_from :: "nat \<Rightarrow> int \<Rightarrow> 'a fstate_scheme \<Rightarrow> call_result \<times> 'a fstate_scheme" where
  "sleep_from ticks0 n s =
     (if u32_of_int (int (ticks s) - int ticks0) < u32_of_int n then
        if p_killed (procs s (myproc s)) then (Done (-1), s)
        else (Asleep ticks0, set_sleeping Chan_ticks s)
      else (Done 0, s))"

definition sys_sleep :: "'a fstate_scheme \<Rightarrow> (call_result \<times> 'a fstate_scheme) kres" where
  "sys_sleep s = bindE (argint 0 s) (\<lambda>n. Inr (sleep_from (ticks s) n s))"

definition sys_kill :: "'a fstate_scheme \<Rightarrow> (int \<times> 'a fstate_scheme) kres" where
  "sys_kill s = bindE (argint 0 s) (\<lambda>pid. Inr (kill pid s))"

definition sys_uptime :: "'a fstate_scheme \<Rightarrow> (int \<times> 'a fstate_scheme) kres" where
  "sys_uptime s = Inr (int (ticks s), s)"

section \<open>RAID test hooks\<close>

definition sys_force_fail :: "'a fstate_scheme \<Rightarrow> (int \<times> 'a fstate_scheme) kres" where
  "sys_force_fail s =
     bindE (argint 0 s) (\<lambda>pbn.
     if pbn \<ge> int LOGICAL_DISK_SIZE \<or> pbn < -1 then Inr (-1, s)
     else Inr (0, s\<lparr>force_read_error_pbn := pbn\<rparr>))"

definition sys_get_force_fail :: "'a fstate_scheme \<Rightarrow> (int \<times> 'a fstate_scheme) kres" where
  "sys_get_force_fail s = Inr (force_read_error_pbn s, s)"

definition sys_force_disk_fail :: "'a fstate_scheme \<Rightarrow> (int \<times> 'a fstate_scheme) kres" where
  "sys_force_disk_fail s =
     bindE (argint 0 s) (\<lambda>disk_id.
     if disk_id < -1 \<or> disk_id > 1 then Inr (-1, s)
     else Inr (0, s\<lparr>force_disk_fail_id := disk_id\<rparr>))"

section \<open>Exec\<close>

definition kfree_all :: "(nat \<times> byte list) list \<Rightarrow> 'a fstate_scheme \<Rightarrow> 'a fstate_scheme kres" where
  "kfree_all argv s = foldE (\<lambda>a s. kfree (fst a) s) argv s"

text \<open>
  The loop that fetches the arguments: the pages with the strings, and whether it was successful. A page that was
  allocated for a string that could not be fetched is in the list too.
\<close>

primrec fetch_args ::
  "nat \<Rightarrow> nat \<Rightarrow> nat \<Rightarrow> (nat \<times> byte list) list \<Rightarrow> 'a fstate_scheme
     \<Rightarrow> (bool \<times> (nat \<times> byte list) list \<times> 'a fstate_scheme) kres" where
  "fetch_args 0 i uargv argv s = Inr (False, argv, s)"
| "fetch_args (Suc k) i uargv argv s =
     bindE (fetchaddr (u64 (uargv + 8 * i)) s) (\<lambda>(r, uarg, s).
     if r < 0 then Inr (False, argv, s)
     else if uarg = 0 then Inr (True, argv, s)
     else
       let (pg, s) = kalloc s in
       if pg = 0 then Inr (False, argv, s)
       else
         bindE (fetchstr uarg PGSIZE s) (\<lambda>(r, str, s).
         if r < 0 then Inr (False, argv @ [(pg, str)], s)
         else
           let s = s\<lparr>mem := blit (mem s) pg (bytes_of_list str) 0 (length str + 1)\<rparr> in
           fetch_args k (Suc i) uargv (argv @ [(pg, str)]) s))"

definition sys_exec :: "nat \<Rightarrow> 'a fstate_scheme \<Rightarrow> (int \<times> 'a fstate_scheme) kres" where
  "sys_exec trampoline s =
     bindE (argstr 0 MAXPATH s) (\<lambda>(r, path, s). if r < 0 then Inr (-1, s) else
     bindE (argaddr 1 s) (\<lambda>uargv.
     bindE (fetch_args MAXARG 0 uargv [] s) (\<lambda>(good, argv, s).
     if good then
       bindE (exec trampoline path (map snd argv) s) (\<lambda>(r, s).
       bindE (kfree_all argv s) (\<lambda>s. Inr (r, s)))
     else bindE (kfree_all argv s) (\<lambda>s. Inr (-1, s)))))"

section \<open>Dispatch\<close>

definition syscalls ::
  "'a env \<Rightarrow> smp \<Rightarrow> nat \<Rightarrow> ('a fstate_scheme \<Rightarrow> (sys_result \<times> 'a fstate_scheme) kres) option" where
  "syscalls e m num =
     (if num = 1 then Some (\<lambda>s. ret (sys_fork (e_trampoline e) (e_forkret e) s))
      else if num = 2 then Some (sys_exit m)
      else if num = 3 then Some (\<lambda>s. ret_call (sys_wait s))
      else if num = 4 then Some (\<lambda>s. ret (sys_pipe s))
      else if num = 5 then Some (\<lambda>s. ret (sys_read (e_read e) s))
      else if num = 6 then Some (\<lambda>s. ret (sys_kill s))
      else if num = 7 then Some (\<lambda>s. ret (sys_exec (e_trampoline e) s))
      else if num = 8 then Some (\<lambda>s. ret (sys_fstat (e_pad e) s))
      else if num = 9 then Some (\<lambda>s. ret (sys_chdir s))
      else if num = 10 then Some (\<lambda>s. ret (sys_dup s))
      else if num = 11 then Some (\<lambda>s. ret (sys_getpid s))
      else if num = 12 then Some (\<lambda>s. ret (sys_sbrk s))
      else if num = 13 then Some (\<lambda>s. ret_call (sys_sleep s))
      else if num = 14 then Some (\<lambda>s. ret (sys_uptime s))
      else if num = 15 then Some (\<lambda>s. ret (sys_open s))
      else if num = 16 then Some (\<lambda>s. ret (sys_write (e_write e) s))
      else if num = 17 then Some (\<lambda>s. ret (sys_mknod s))
      else if num = 18 then Some (\<lambda>s. ret (sys_unlink s))
      else if num = 19 then Some (\<lambda>s. ret (sys_link s))
      else if num = 20 then Some (\<lambda>s. ret (sys_mkdir s))
      else if num = 21 then Some (\<lambda>s. ret (sys_close s))
      else if num = 22 then Some (\<lambda>s. ret (sys_force_fail s))
      else if num = 23 then Some (\<lambda>s. ret (sys_get_force_fail s))
      else if num = 24 then Some (\<lambda>s. ret (sys_raw_read s))
      else if num = 25 then Some (\<lambda>s. ret (sys_get_disk_lbn s))
      else if num = 26 then Some (\<lambda>s. ret (sys_raw_write s))
      else if num = 27 then Some (\<lambda>s. ret (sys_force_disk_fail s))
      else if num = 28 then Some (\<lambda>s. ret (sys_chmod s))
      else if num = 29 then Some (\<lambda>s. ret (sys_symlink s))
      else None)"

definition u64_of_int :: "int \<Rightarrow> nat" where
  "u64_of_int i = nat (i mod 18446744073709551616)"

definition syscall :: "'a env \<Rightarrow> smp \<Rightarrow> 'a fstate_scheme \<Rightarrow> (sys_result \<times> 'a fstate_scheme) kres" where
  "syscall e m s =
     (let p = myproc s;
          num = int_of_u32 (u32 (tf_get p (TF_a 7) s)) in
      case (if num > 0 then syscalls e m (nat num) else None) of
        Some call \<Rightarrow>
          bindE (call s) (\<lambda>(r, s). case r of
            Ret v \<Rightarrow> Inr (r, tf_set p (TF_a 0) (u64_of_int v) s)
          | _ \<Rightarrow> Inr (r, s))
      | None \<Rightarrow> Inr (Ret (-1), tf_set p (TF_a 0) (u64_of_int (-1)) s))"

section \<open>Traps\<close>

definition clockintr :: "'a pstate_scheme \<Rightarrow> 'a pstate_scheme" where
  "clockintr s = (let s = s\<lparr>ticks := u32 (ticks s + 1)\<rparr> in wakeup Chan_ticks s)"

text \<open>
  \<^verbatim>\<open>usertrap\<close> up to the return to user space. The cause is a system call, an interrupt (with the number
  \<^verbatim>\<open>devintr\<close> returns; its effect on the devices is not part of this state, that of the clock is), or an
  exception.
\<close>

datatype cause = Ecall | Timer | Device | Exception

datatype trap_result = Resume | Yields smp | Sleeps nat | Gone smp

definition usertrap_end ::
  "cause \<Rightarrow> smp \<Rightarrow> 'a fstate_scheme \<Rightarrow> (trap_result \<times> 'a fstate_scheme) kres" where
  "usertrap_end c m s =
     (if p_killed (procs s (myproc s)) then bindE (exit (-1) m s) (\<lambda>(m, s). Inr (Gone m, s))
      else if c = Timer then bindE (yield m s) (\<lambda>(m, s). Inr (Yields m, s))
      else Inr (Resume, s))"

definition usertrap ::
  "'a env \<Rightarrow> cause \<Rightarrow> nat \<Rightarrow> smp \<Rightarrow> 'a fstate_scheme \<Rightarrow> (trap_result \<times> 'a fstate_scheme) kres" where
  "usertrap e c sepc m s =
     (let p = myproc s; s = tf_set p TF_epc sepc s in
      case c of
        Ecall \<Rightarrow>
          if p_killed (procs s p) then bindE (exit (-1) m s) (\<lambda>(m, s). Inr (Gone m, s))
          else
            let s = tf_set p TF_epc (u64 (tf_get p TF_epc s + 4)) s in
            bindE (syscall e m s) (\<lambda>(r, s). case r of
              Ret v \<Rightarrow> usertrap_end c m s
            | Blocked i \<Rightarrow> Inr (Sleeps i, s)
            | Exits m \<Rightarrow> Inr (Gone m, s))
      | Timer \<Rightarrow> usertrap_end c m (if cpu s = 0 then clockintr s else s)
      | Device \<Rightarrow> usertrap_end c m s
      | Exception \<Rightarrow> usertrap_end c m (upd_proc p (\<lambda>x. x\<lparr>p_killed := True\<rparr>) s))"

end
