(* ===== verification/Sched.thy ===== *)
theory Sched
  imports Process
begin

text \<open>
  The scheduler machine: CPUs that dispatch processes, run them and give them up, in every interleaving
  (\<^verbatim>\<open>FileSystem-RAID/kernel/proc.c\<close>). The steps are the routines of the process theories, cut at the two
  switches of context: \<^verbatim>\<open>scheduler\<close> up to \<^verbatim>\<open>swtch\<close>, the return of the process into the kernel, \<^verbatim>\<open>yield\<close>,
  \<^verbatim>\<open>sleep\<close> and \<^verbatim>\<open>exit\<close> up to \<^verbatim>\<open>swtch\<close>, and \<^verbatim>\<open>scheduler\<close> from there. Between a routine that gives the CPU up
  and the scheduler that takes over, the process is no longer \<^verbatim>\<open>RUNNING\<close> while the CPU still uses its kernel stack;
  only the process lock, held across the switch, keeps other CPUs and \<^verbatim>\<open>wait\<close> away. The invariant says so, and it gives
  that a process is on at most one CPU, that exactly the running processes are, and that no CPU is on a freed process.
\<close>

section \<open>What the routines do to the locks\<close>

lemma acquire_Inr:
  assumes "acquire c lk m = Inr m'"
  shows "\<not> sl_locked (slock m lk)" and "slock m' = (slock m)(lk := \<lparr>sl_locked = True, sl_cpu = Some c\<rparr>)"
    and "noff (cpus m' c) = noff (cpus m c) + 1" and "\<not> intr (cpus m' c)"
  using assms
  by (auto simp: acquire_def acquire_begin_def acquire_swap_def Let_def split: if_splits)

lemma acquire_free:
  assumes "\<not> sl_locked (slock m lk)"
  shows "\<exists>m'. acquire c lk m = Inr m' \<and> slock m' = (slock m)(lk := \<lparr>sl_locked = True, sl_cpu = Some c\<rparr>) \<and>
     noff (cpus m' c) = noff (cpus m c) + 1 \<and> \<not> intr (cpus m' c)"
  using assms by (auto simp: acquire_def acquire_begin_def acquire_swap_def holding_def Let_def)

lemma release_Inr:
  assumes "release c lk m = Inr m'"
  shows "holding c lk m" and "slock m' = (slock m)(lk := \<lparr>sl_locked = False, sl_cpu = None\<rparr>)"
    and "noff (cpus m' c) = noff (cpus m c) - 1"
    and "noff (cpus m c) \<noteq> 1 \<Longrightarrow> \<not> intr (cpus m' c)"
proof -
  let ?m = "m\<lparr>slock := (slock m)(lk := \<lparr>sl_locked = False, sl_cpu = None\<rparr>)\<rparr>"
  have h: "holding c lk m" and p: "pop_off c ?m = Inr m'"
    using assms by (simp_all add: release_def Let_def spinlock_free_eq split: if_splits)
  show "holding c lk m" by (rule h)
  show "slock m' = (slock m)(lk := \<lparr>sl_locked = False, sl_cpu = None\<rparr>)"
    "noff (cpus m' c) = noff (cpus m c) - 1" "noff (cpus m c) \<noteq> 1 \<Longrightarrow> \<not> intr (cpus m' c)"
    using pop_off_Inr [OF p] by auto
qed

lemma release_held:
  assumes "holding c lk m" and "1 \<le> noff (cpus m c)" and "\<not> intr (cpus m c)"
  shows "\<exists>m'. release c lk m = Inr m'"
  using assms by (auto simp: release_def pop_off_def Let_def)

text \<open>A lock that another CPU holds stays held whatever a CPU acquires or releases.\<close>

lemma holding_acquire: "acquire c lk m = Inr m' \<Longrightarrow> holding d l m \<Longrightarrow> holding d l m'"
  by (auto simp: holding_def acquire_Inr)

lemma holding_release: "release c lk m = Inr m' \<Longrightarrow> holding d l m \<Longrightarrow> d \<noteq> c \<Longrightarrow> holding d l m'"
  using release_Inr by (auto simp: holding_def)

lemma acquire_not_held: "acquire c lk m = Inr m' \<Longrightarrow> \<not> holding d lk m"
  by (auto simp: holding_def acquire_Inr)

section \<open>Giving up the CPU\<close>

lemma sched_Inr:
  assumes "sched m s = Inr u"
  shows "holding (cpu s) (plock (myproc s)) m" and "noff (cpus m (cpu s)) = 1"
    and "p_state (procs s (myproc s)) \<noteq> RUNNING" and "\<not> intr (cpus m (cpu s))"
  using assms by (auto simp: sched_def Let_def split: if_splits)

lemma set_sleeping_frame [simp]:
  "cpu (set_sleeping ch s) = cpu s" "myproc (set_sleeping ch s) = myproc s" "cpu_proc (set_sleeping ch s) = cpu_proc s"
  "procs (set_sleeping ch s) = (procs s)(myproc s := (procs s (myproc s))\<lparr>p_chan := Some ch, p_state := SLEEPING\<rparr>)"
  by (simp_all add: set_sleeping_def)

lemma yield_free:
  assumes "\<not> sl_locked (slock m (plock (myproc s)))"
  shows "(noff (cpus m (cpu s)) = 0 \<longrightarrow> (\<exists>m'. yield m s = Inr (m', upd_proc (myproc s) (\<lambda>x. x\<lparr>p_state := RUNNABLE\<rparr>) s) \<and>
           holding (cpu s) (plock (myproc s)) m')) \<and>
         (noff (cpus m (cpu s)) \<noteq> 0 \<longrightarrow> yield m s = Inl (Panic ''sched locks''))"
proof -
  obtain m' where "acquire (cpu s) (plock (myproc s)) m = Inr m'"
    and "slock m' = (slock m)(plock (myproc s) := \<lparr>sl_locked = True, sl_cpu = Some (cpu s)\<rparr>)"
    and "noff (cpus m' (cpu s)) = noff (cpus m (cpu s)) + 1" and "\<not> intr (cpus m' (cpu s))"
    using acquire_free [OF assms, of "cpu s"] by auto
  then show ?thesis by (auto simp: yield_def Let_def sched_def holding_def)
qed

lemma sleep_locks:
  assumes "holding (cpu s) lk m" and "lk \<noteq> plock (myproc s)" and "\<not> sl_locked (slock m (plock (myproc s)))"
    and "1 \<le> noff (cpus m (cpu s))"
  obtains m' where "sleep ch lk m s = bindE (sched m' (set_sleeping ch s)) (\<lambda>_. Inr (m', set_sleeping ch s))"
    "slock m' = (slock m)(plock (myproc s) := \<lparr>sl_locked = True, sl_cpu = Some (cpu s)\<rparr>, lk := \<lparr>sl_locked = False, sl_cpu = None\<rparr>)"
    "noff (cpus m' (cpu s)) = noff (cpus m (cpu s))" "\<not> intr (cpus m' (cpu s))"
proof -
  obtain m1 where a: "acquire (cpu s) (plock (myproc s)) m = Inr m1"
    and l1: "slock m1 = (slock m)(plock (myproc s) := \<lparr>sl_locked = True, sl_cpu = Some (cpu s)\<rparr>)"
    and n1: "noff (cpus m1 (cpu s)) = noff (cpus m (cpu s)) + 1" and i1: "\<not> intr (cpus m1 (cpu s))"
    using acquire_free [OF assms(3), of "cpu s"] by auto
  have "holding (cpu s) lk m1" by (rule holding_acquire [OF a assms(1)])
  then obtain m' where r: "release (cpu s) lk m1 = Inr m'" using release_held n1 i1 assms(4) by force
  show ?thesis
  proof (rule that)
    show "sleep ch lk m s = bindE (sched m' (set_sleeping ch s)) (\<lambda>_. Inr (m', set_sleeping ch s))"
      using assms(2) by (simp add: sleep_def Let_def a r)
  qed (use release_Inr [OF r] l1 n1 assms(4) in auto)
qed

text \<open>
  Giving up the CPU: a process that holds no spin lock gets through \<^verbatim>\<open>yield\<close> to the scheduler, as
  \<^verbatim>\<open>RUNNABLE\<close> and holding its own lock; a process that holds exactly the lock it passes gets through \<^verbatim>\<open>sleep\<close>, as
  \<^verbatim>\<open>SLEEPING\<close> on the channel, with its own lock taken and the passed one free. With any further spin lock held, both
  panic in \<^verbatim>\<open>sched\<close> instead of switching.\<close>

theorem sleep_holds_only_its_lock:
  assumes "\<not> sl_locked (slock m (plock (myproc s)))" and "holding (cpu s) lk m" and "lk \<noteq> plock (myproc s)"
    and "1 \<le> noff (cpus m (cpu s))"
  shows "(noff (cpus m (cpu s)) = 1 \<longrightarrow> (\<exists>m' s'. sleep ch lk m s = Inr (m', s') \<and>
            holding (cpu s) (plock (myproc s)) m' \<and> \<not> sl_locked (slock m' lk) \<and>
            p_state (procs s' (myproc s)) = SLEEPING \<and> p_chan (procs s' (myproc s)) = Some ch \<and>
            (\<forall>q. q \<noteq> myproc s \<longrightarrow> procs s' q = procs s q))) \<and>
         (1 < noff (cpus m (cpu s)) \<longrightarrow> sleep ch lk m s = Inl (Panic ''sched locks'')) \<and>
         yield m s = Inl (Panic ''sched locks'') \<and>
         (\<forall>m0. release (cpu s) lk m = Inr m0 \<and> noff (cpus m (cpu s)) = 1 \<longrightarrow>
            (\<exists>m' s'. yield m0 s = Inr (m', s') \<and> holding (cpu s) (plock (myproc s)) m' \<and>
               p_state (procs s' (myproc s)) = RUNNABLE \<and> (\<forall>q. q \<noteq> myproc s \<longrightarrow> procs s' q = procs s q)))"
proof -
  obtain m' where s: "sleep ch lk m s = bindE (sched m' (set_sleeping ch s)) (\<lambda>_. Inr (m', set_sleeping ch s))"
    and l: "slock m' = (slock m)(plock (myproc s) := \<lparr>sl_locked = True, sl_cpu = Some (cpu s)\<rparr>, lk := \<lparr>sl_locked = False, sl_cpu = None\<rparr>)"
    and n: "noff (cpus m' (cpu s)) = noff (cpus m (cpu s))" and i: "\<not> intr (cpus m' (cpu s))"
    by (rule sleep_locks [OF assms(2,3,1,4)])
  have h: "holding (cpu s) (plock (myproc s)) m'" "\<not> sl_locked (slock m' lk)"
    using l assms(3) by (auto simp: holding_def)
  have a: "noff (cpus m (cpu s)) = 1 \<Longrightarrow> sleep ch lk m s = Inr (m', set_sleeping ch s)"
    using h(1) n i by (simp add: s sched_def Let_def)
  have b: "1 < noff (cpus m (cpu s)) \<Longrightarrow> sleep ch lk m s = Inl (Panic ''sched locks'')"
    using h(1) n i by (simp add: s sched_def Let_def)
  have y: "\<exists>m' s'. yield m0 s = Inr (m', s') \<and> holding (cpu s) (plock (myproc s)) m' \<and>
       p_state (procs s' (myproc s)) = RUNNABLE \<and> (\<forall>q. q \<noteq> myproc s \<longrightarrow> procs s' q = procs s q)"
    if r: "release (cpu s) lk m = Inr m0" "noff (cpus m (cpu s)) = 1" for m0
    using yield_free [of m0 s] release_Inr [OF r(1)] r(2) assms(1,3) by auto
  show ?thesis
  proof (intro conjI impI allI)
    assume "noff (cpus m (cpu s)) = 1"
    then show "\<exists>m' s'. sleep ch lk m s = Inr (m', s') \<and> holding (cpu s) (plock (myproc s)) m' \<and> \<not> sl_locked (slock m' lk) \<and>
            p_state (procs s' (myproc s)) = SLEEPING \<and> p_chan (procs s' (myproc s)) = Some ch \<and>
            (\<forall>q. q \<noteq> myproc s \<longrightarrow> procs s' q = procs s q)"
      using a h by auto
  qed (use b y yield_free [OF assms(1)] assms(4) in auto)
qed

definition demo_locked :: smp where
  "demo_locked = \<lparr>cpus = (\<lambda>_. \<lparr>noff = 1, intena = True, intr = False\<rparr>),
     slock = (\<lambda>_. initlock)(100 := \<lparr>sl_locked = True, sl_cpu = Some 0\<rparr>)\<rparr>"

theorem sleep_holds_only_its_lock_witness:
  "\<exists>m' s'. sleep Chan_ticks 100 demo_locked (demo_machine (\<lambda>_ _. 0) ()) = Inr (m', s') \<and> p_state (procs s' 1) = SLEEPING"
  using sleep_holds_only_its_lock [of demo_locked "demo_machine (\<lambda>_ _. 0) ()" 100 Chan_ticks]
  by (auto simp: demo_locked_def initlock_def holding_def plock_def)

text \<open>
  No wakeup goes astray: a process that went through \<^verbatim>\<open>sleep\<close> on a channel is made \<^verbatim>\<open>RUNNABLE\<close> by a
  \<^verbatim>\<open>wakeup\<close> on that channel and by no other, and a \<^verbatim>\<open>wakeup\<close> changes nothing of a process that does not sleep on its
  channel, and nothing but the state of one that does.\<close>

theorem wakeup_exactly_sleepers:
  fixes s :: "'a pstate_scheme"
  assumes "sleep ch lk m s = Inr (m', s')" and "myproc s < NPROC"
  shows "p_state (procs (wakeup ch s') (myproc s)) = RUNNABLE \<and>
    (\<forall>ch'. ch' \<noteq> ch \<longrightarrow> procs (wakeup ch' s') (myproc s) = procs s' (myproc s) \<and> p_state (procs s' (myproc s)) = SLEEPING) \<and>
    (\<forall>ch' t q. procs (wakeup ch' t) q =
       (if q < NPROC \<and> p_state (procs t q) = SLEEPING \<and> p_chan (procs t q) = Some ch'
        then (procs t q)\<lparr>p_state := RUNNABLE\<rparr> else procs (t :: 'a pstate_scheme) q))"
proof -
  have s': "s' = set_sleeping ch s" using assms(1) by (auto simp: sleep_def Let_def bindE_eq_Inr)
  have w: "procs (wakeup ch' t) q = (if q < NPROC \<and> p_state (procs t q) = SLEEPING \<and> p_chan (procs t q) = Some ch'
        then (procs t q)\<lparr>p_state := RUNNABLE\<rparr> else procs t q)" for ch' q and t :: "'a pstate_scheme"
    by (simp add: wakeup_eq woken_def)
  show ?thesis using assms(2) by (simp add: w s')
qed

theorem wakeup_exactly_sleepers_witness:
  "\<exists>m' s'. sleep Chan_ticks 100 demo_locked (demo_machine (\<lambda>_ _. 0) ()) = Inr (m', s') \<and>
     p_state (procs (wakeup Chan_ticks s') 1) = RUNNABLE"
proof -
  obtain m' s' where sl: "sleep Chan_ticks 100 demo_locked (demo_machine (\<lambda>_ _. 0) ()) = Inr (m', s')"
    by (rule sleep_locks [of "demo_machine (\<lambda>_ _. 0) ()" 100 demo_locked Chan_ticks])
       (auto simp: demo_locked_def initlock_def holding_def plock_def sched_def Let_def)
  have "p_state (procs (wakeup Chan_ticks s') 1) = RUNNABLE"
    using conjunct1 [OF wakeup_exactly_sleepers [OF sl]] by (simp add: NPROC_def)
  with sl show ?thesis by blast
qed

section \<open>The machine\<close>

text \<open>
  What a CPU is doing: it is in the loop of \<^verbatim>\<open>scheduler\<close>; it has just switched to a process, whose lock it still holds;
  it runs the process; or the process has given it up and the scheduler has not yet resumed.
\<close>

datatype phase = In_sched | Switched nat | In_proc nat | Leaving nat

primrec on_cpu :: "phase \<Rightarrow> nat option" where
  "on_cpu In_sched = None"
| "on_cpu (Switched p) = Some p"
| "on_cpu (In_proc p) = Some p"
| "on_cpu (Leaving p) = Some p"

record 'a sched_state =
  lks :: smp
  ps :: "'a pstate_scheme"
  ph :: "nat \<Rightarrow> phase"

text \<open>One turn of the loop of \<^verbatim>\<open>wakeup\<close> or \<^verbatim>\<open>kill\<close>, or the end of \<^verbatim>\<open>fork\<close>, on the process \<open>q\<close>, under its lock.\<close>

definition wakeup_turn :: "chan \<Rightarrow> nat \<Rightarrow> 'a pstate_scheme \<Rightarrow> 'a pstate_scheme" where
  "wakeup_turn ch q s = (if p_state (procs s q) = SLEEPING \<and> p_chan (procs s q) = Some ch
     then upd_proc q (\<lambda>x. x\<lparr>p_state := RUNNABLE\<rparr>) s else s)"

definition kill_turn :: "int \<Rightarrow> nat \<Rightarrow> 'a pstate_scheme \<Rightarrow> 'a pstate_scheme" where
  "kill_turn pid q s = (if p_pid (procs s q) = pid then snd (kill_from 1 q pid s) else s)"

definition fork_publish :: "nat \<Rightarrow> 'a pstate_scheme \<Rightarrow> 'a pstate_scheme" where
  "fork_publish q s = (if p_state (procs s q) = UNUSED then upd_proc q (\<lambda>x. x\<lparr>p_state := RUNNABLE\<rparr>) s else s)"

lemma wakeup_turns: "wakeup ch s = fold (wakeup_turn ch) [0..<NPROC] s"
  unfolding wakeup_def wakeup_turn_def by (rule refl)

definition locked_turn ::
  "nat \<Rightarrow> nat \<Rightarrow> ('a pstate_scheme \<Rightarrow> 'a pstate_scheme kres) \<Rightarrow> smp \<Rightarrow> 'a pstate_scheme \<Rightarrow> (smp \<times> 'a pstate_scheme) kres" where
  "locked_turn c q f m s =
     bindE (acquire c (plock q) m) (\<lambda>m. bindE (f s) (\<lambda>s. bindE (release c (plock q) m) (\<lambda>m. Inr (m, s))))"

inductive sched_step :: "'a sched_state \<Rightarrow> 'a sched_state \<Rightarrow> bool" where
  dispatch:
    "ph st c = In_sched \<Longrightarrow> p < NPROC \<Longrightarrow> scheduler_run p (lks st) ((ps st)\<lparr>cpu := c\<rparr>) = Inr (True, m, s) \<Longrightarrow>
     sched_step st (st\<lparr>lks := m, ps := s, ph := (ph st)(c := Switched p)\<rparr>)"
| pass_over:
    "ph st c = In_sched \<Longrightarrow> p < NPROC \<Longrightarrow> scheduler_run p (lks st) ((ps st)\<lparr>cpu := c\<rparr>) = Inr (False, m, s) \<Longrightarrow>
     sched_step st (st\<lparr>lks := m, ps := s\<rparr>)"
| resume:
    "ph st c = Switched p \<Longrightarrow> release c (plock p) (lks st) = Inr m \<Longrightarrow>
     sched_step st (st\<lparr>lks := m, ps := tidy_up ((ps st)\<lparr>cpu := c\<rparr>), ph := (ph st)(c := In_proc p)\<rparr>)"
| take_lock:
    "acquire c l (lks st) = Inr m \<Longrightarrow> sched_step st (st\<lparr>lks := m\<rparr>)"
| drop_lock:
    "ph st c = In_proc p \<Longrightarrow> release c l (lks st) = Inr m \<Longrightarrow> sched_step st (st\<lparr>lks := m\<rparr>)"
| do_yield:
    "ph st c = In_proc p \<Longrightarrow> yield (lks st) ((ps st)\<lparr>cpu := c\<rparr>) = Inr (m, s) \<Longrightarrow>
     sched_step st (st\<lparr>lks := m, ps := s, ph := (ph st)(c := Leaving p)\<rparr>)"
| do_sleep:
    "ph st c = In_proc p \<Longrightarrow> sleep ch l (lks st) ((ps st)\<lparr>cpu := c\<rparr>) = Inr (m, s) \<Longrightarrow>
     sched_step st (st\<lparr>lks := m, ps := s, ph := (ph st)(c := Leaving p)\<rparr>)"
| do_exit:
    "ph st c = In_proc p \<Longrightarrow> exit_zombie p ini status (lks st) ((ps st)\<lparr>cpu := c\<rparr>) = Inr (m, s) \<Longrightarrow>
     sched_step st (st\<lparr>lks := m, ps := s, ph := (ph st)(c := Leaving p)\<rparr>)"
| go_back:
    "ph st c = Leaving p \<Longrightarrow> scheduler_back p (lks st) ((ps st)\<lparr>cpu := c\<rparr>) = Inr (m, s) \<Longrightarrow>
     sched_step st (st\<lparr>lks := m, ps := s, ph := (ph st)(c := In_sched)\<rparr>)"
| wake_turn:
    "locked_turn c q (\<lambda>s. Inr (wakeup_turn ch q s)) (lks st) (ps st) = Inr (m, s) \<Longrightarrow>
     sched_step st (st\<lparr>lks := m, ps := s\<rparr>)"
| kill:
    "ph st c = In_proc p \<Longrightarrow> locked_turn c q (\<lambda>s. Inr (kill_turn pid q s)) (lks st) (ps st) = Inr (m, s) \<Longrightarrow>
     sched_step st (st\<lparr>lks := m, ps := s\<rparr>)"
| fork:
    "ph st c = In_proc p \<Longrightarrow> locked_turn c q (\<lambda>s. Inr (fork_publish q s)) (lks st) (ps st) = Inr (m, s) \<Longrightarrow>
     sched_step st (st\<lparr>lks := m, ps := s\<rparr>)"
| reap:
    "ph st c = In_proc p \<Longrightarrow> p_state (procs (ps st) q) = ZOMBIE \<Longrightarrow>
     locked_turn c q (freeproc q) (lks st) (ps st) = Inr (m, s) \<Longrightarrow>
     sched_step st (st\<lparr>lks := m, ps := s\<rparr>)"

definition sched_init :: "'a sched_state \<Rightarrow> bool" where
  "sched_init st \<longleftrightarrow> (\<forall>c. ph st c = In_sched) \<and> (\<forall>c. cpu_proc (ps st) c = None) \<and>
     (\<forall>p. p_state (procs (ps st) p) \<noteq> RUNNING)"

definition sched_inv :: "'a sched_state \<Rightarrow> bool" where
  "sched_inv st \<longleftrightarrow>
     (\<forall>c. cpu_proc (ps st) c = on_cpu (ph st c)) \<and>
     (\<forall>c p. on_cpu (ph st c) = Some p \<longrightarrow> p < NPROC) \<and>
     (\<forall>c d p. on_cpu (ph st c) = Some p \<longrightarrow> on_cpu (ph st d) = Some p \<longrightarrow> c = d) \<and>
     (\<forall>c p. ph st c = Switched p \<or> ph st c = Leaving p \<longrightarrow> holding c (plock p) (lks st)) \<and>
     (\<forall>p. p_state (procs (ps st) p) = RUNNING \<longleftrightarrow> (\<exists>c. ph st c = Switched p \<or> ph st c = In_proc p)) \<and>
     (\<forall>c p. on_cpu (ph st c) = Some p \<longrightarrow> p_state (procs (ps st) p) \<noteq> UNUSED)"


text \<open>States that differ in nothing the invariant speaks of, except that processes not on a CPU may have been freed.\<close>

definition undisturbed :: "'a pstate_scheme \<Rightarrow> 'a pstate_scheme \<Rightarrow> nat set \<Rightarrow> bool" where
  "undisturbed s s' F \<longleftrightarrow> cpu_proc s' = cpu_proc s \<and>
     (\<forall>q. q \<notin> F \<longrightarrow> (p_state (procs s' q) = RUNNING \<longleftrightarrow> p_state (procs s q) = RUNNING) \<and>
          (p_state (procs s' q) = UNUSED \<longrightarrow> p_state (procs s q) = UNUSED))"

definition keeps_locks :: "nat \<Rightarrow> smp \<Rightarrow> smp \<Rightarrow> bool" where
  "keeps_locks c m m' \<longleftrightarrow> (\<forall>d l. holding d l m \<longrightarrow> d \<noteq> c \<longrightarrow> holding d l m')"

lemma sched_inv_quiet:
  assumes inv: "sched_inv st" and q: "undisturbed (ps st) s {}" and l: "keeps_locks c (lks st) m"
    and own: "\<And>p. ph st c = Switched p \<or> ph st c = Leaving p \<Longrightarrow> holding c (plock p) m"
  shows "sched_inv (st\<lparr>lks := m, ps := s\<rparr>)"
proof -
  have "holding d (plock p) m" if "ph st d = Switched p \<or> ph st d = Leaving p" for d p
    using that own l inv by (cases "d = c") (auto simp: keeps_locks_def sched_inv_def)
  with inv q show ?thesis by (auto simp: sched_inv_def undisturbed_def)
qed

lemma sched_inv_leave:
  assumes inv: "sched_inv st" and c: "ph st c = In_proc p" and q: "undisturbed (ps st) s {p}"
    and l: "keeps_locks c (lks st) m" and h: "holding c (plock p) m"
    and p: "p_state (procs s p) \<noteq> RUNNING" "p_state (procs s p) \<noteq> UNUSED"
  shows "sched_inv (st\<lparr>lks := m, ps := s, ph := (ph st)(c := Leaving p)\<rparr>)"
proof -
  note I = inv [unfolded sched_inv_def]
  have one: "d = c" if "on_cpu (ph st d) = Some p" for d using I c that by force
  have "p_state (procs s r) = RUNNING \<longleftrightarrow> (\<exists>d. ((ph st)(c := Leaving p)) d = Switched r \<or> ((ph st)(c := Leaving p)) d = In_proc r)" for r
  proof (cases "r = p")
    case True
    have "\<not> (d \<noteq> c \<and> (ph st d = Switched p \<or> ph st d = In_proc p))" for d using one [of d] by auto
    then show ?thesis using p(1) True by auto
  next
    case False
    then have "((ph st)(c := Leaving p)) d = Switched r \<or> ((ph st)(c := Leaving p)) d = In_proc r \<longleftrightarrow>
        ph st d = Switched r \<or> ph st d = In_proc r" for d
      using c by simp
    then show ?thesis using I q False by (simp add: undisturbed_def)
  qed
  moreover have "holding d (plock r) m" if "((ph st)(c := Leaving p)) d = Switched r \<or> ((ph st)(c := Leaving p)) d = Leaving r" for d r
    using that h l I by (cases "d = c") (auto simp: keeps_locks_def)
  moreover have o: "on_cpu (((ph st)(c := Leaving p)) d) = on_cpu (ph st d)" for d using c by simp
  moreover have "p_state (procs s r) \<noteq> UNUSED" if "on_cpu (ph st d) = Some r" for d r
  proof (cases "r = p")
    case False
    have "p_state (procs (ps st) r) \<noteq> UNUSED" using I that by blast
    then show ?thesis using q False by (auto simp: undisturbed_def)
  qed (use p(2) in simp)
  ultimately show ?thesis using I q by (simp add: sched_inv_def undisturbed_def)
qed

lemma keeps_locks_refl [simp]: "keeps_locks c m m" by (simp add: keeps_locks_def)

lemma keeps_locks_trans [trans]: "keeps_locks c m m' \<Longrightarrow> keeps_locks c m' m'' \<Longrightarrow> keeps_locks c m m''"
  by (simp add: keeps_locks_def)

lemma keeps_locks_acquire: "acquire c l m = Inr m' \<Longrightarrow> keeps_locks c m m'"
  by (auto simp: keeps_locks_def intro: holding_acquire)

lemma keeps_locks_release: "release c l m = Inr m' \<Longrightarrow> keeps_locks c m m'"
  by (auto simp: keeps_locks_def intro: holding_release)

lemma keeps_locks_acquire_other: "acquire c l m = Inr m' \<Longrightarrow> holding d k m \<Longrightarrow> holding d k m'"
  by (rule holding_acquire)

lemma locked_turn_Inr:
  assumes "locked_turn c q f m s = Inr (m', s')"
  shows "f s = Inr s'" and "\<not> sl_locked (slock m (plock q))" and "holding d l m \<Longrightarrow> holding d l m'"
proof -
  obtain m1 where a: "acquire c (plock q) m = Inr m1" and f: "f s = Inr s'" and r: "release c (plock q) m1 = Inr m'"
    using assms by (auto simp: locked_turn_def bindE_eq_Inr)
  show "f s = Inr s'" by (rule f)
  show "\<not> sl_locked (slock m (plock q))" by (rule acquire_Inr [OF a])
  show "holding d l m'" if "holding d l m"
    using that acquire_Inr [OF a] release_Inr(2) [OF r] by (auto simp: holding_def)
qed

section \<open>Freeing a process\<close>

text \<open>The routines of the virtual memory change memory and the free list only.\<close>

lemma kfree_more: "kfree pa s = Inr s' \<Longrightarrow> mstate.more s' = mstate.more s"
  by (auto simp: kfree_def Let_def split: if_splits)

lemma set_pte_more [simp]: "mstate.more (set_pte a v s) = mstate.more s"
  by (simp add: set_pte_def)

lemma walk_noalloc: "walk pt va False s = Inr (a, s') \<Longrightarrow> s' = s"
  by (auto simp: walk_def walk_loop_no_alloc split: if_splits)

lemma uvmunmap_loop_more: "uvmunmap_loop pt a e f s = Inr s' \<Longrightarrow> mstate.more s' = mstate.more s"
proof (induction pt a e f s rule: uvmunmap_loop.induct)
  case (1 pt a e f s)
  show ?case
  proof (cases "a < e")
    case False
    then show ?thesis using 1(2) by (simp add: uvmunmap_loop.simps)
  next
    case True
    obtain p where w0: "walk pt a False s = Inr (p, s)"
      using 1(2) [unfolded uvmunmap_loop.simps [of pt a e f s]] True
      by (cases "walk pt a False s") (auto dest: walk_noalloc)
    obtain t where w: "p \<noteq> 0" "pte_at (mem s) p AND PTE_V \<noteq> 0" "PTE_FLAGS (pte_at (mem s) p) \<noteq> PTE_V"
      and k: "(if f then kfree (PTE2PA (pte_at (mem s) p)) s else Inr s) = Inr t"
      and r: "uvmunmap_loop pt (a + PGSIZE) e f (set_pte p 0 t) = Inr s'"
      using 1(2) [unfolded uvmunmap_loop.simps [of pt a e f s]] True
      by (auto simp: w0 bindE_eq_Inr split: if_splits)
    have "mstate.more s' = mstate.more (set_pte p 0 t)"
      by (rule 1(1) [OF True w0 refl _ _ _ k r]) (use w in auto)
    moreover have "mstate.more t = mstate.more s" using k kfree_more by (auto split: if_splits)
    ultimately show ?thesis by simp
  qed
qed

lemma uvmunmap_more: "uvmunmap pt va n f s = Inr s' \<Longrightarrow> mstate.more s' = mstate.more s"
  by (auto simp: uvmunmap_def dest: uvmunmap_loop_more split: if_splits)

lemma fold_bindE_more:
  assumes "\<And>i s s'. i \<in> set is' \<Longrightarrow> g i s = Inr s' \<Longrightarrow> mstate.more s' = mstate.more s"
    and "fold (\<lambda>i r. bindE r (g i)) is' (Inr s) = Inr s'"
  shows "mstate.more s' = mstate.more s"
  using assms
proof (induction is' arbitrary: s)
  case (Cons i js)
  have stuck: "fold (\<lambda>i r. bindE r (g i)) ks (Inl e) = Inl e" for ks e by (induction ks) auto
  obtain t where t: "g i s = Inr t" using Cons.prems(2) stuck by (cases "g i s") auto
  have "mstate.more s' = mstate.more t"
    by (rule Cons.IH) (use Cons.prems t in auto)
  also have "mstate.more t = mstate.more s" using Cons.prems(1) t by auto
  finally show ?case .
qed simp

lemma freewalk_more: "freewalk n pt s = Inr s' \<Longrightarrow> mstate.more s' = mstate.more s"
proof (induction n arbitrary: pt s s')
  case (Suc n)
  define g where "g = (\<lambda>i s. let pte = pte_at (mem s) (pt + 8 * i) in
        if pte AND PTE_V \<noteq> 0 \<and> pte AND (PTE_R OR PTE_W OR PTE_X) = 0 then
          bindE (freewalk n (PTE2PA pte) s) (\<lambda>s. Inr (set_pte (pt + 8 * i) 0 s))
        else if pte AND PTE_V \<noteq> 0 then Inl (Panic ''freewalk: leaf'')
        else Inr (s :: 'a mstate_scheme))"
  obtain t where t: "fold (\<lambda>i r. bindE r (g i)) [0..<512] (Inr s) = Inr t" "kfree pt t = Inr s'"
    using Suc.prems by (auto simp: g_def bindE_eq_Inr)
  have "mstate.more t = mstate.more s"
  proof (rule fold_bindE_more [OF _ t(1)])
    fix i and s1 s2 :: "'a mstate_scheme" assume "g i s1 = Inr s2"
    then show "mstate.more s2 = mstate.more s1"
      by (auto simp: g_def Let_def bindE_eq_Inr dest: Suc.IH split: if_splits)
  qed
  with t(2) show ?case by (simp add: kfree_more)
qed simp

lemma uvmfree_more: "uvmfree pt sz s = Inr s' \<Longrightarrow> mstate.more s' = mstate.more s"
  by (auto simp: uvmfree_def bindE_eq_Inr dest!: freewalk_more uvmunmap_more split: if_splits)

lemma proc_freepagetable_more: "proc_freepagetable pt sz s = Inr s' \<Longrightarrow> mstate.more s' = mstate.more s"
  by (auto simp: proc_freepagetable_def bindE_eq_Inr dest!: uvmfree_more uvmunmap_more)

lemma pstate_more:
  fixes s s' :: "'a pstate_scheme"
  assumes "mstate.more s' = mstate.more s"
  shows "procs s' = procs s \<and> cpu_proc s' = cpu_proc s"
  using assms by (cases s; cases s'; simp add: mstate.defs pstate.defs lstate.defs bstate.defs)

lemma freeproc_procs:
  assumes "freeproc q s = Inr s'"
  shows "cpu_proc s' = cpu_proc s" and "r \<noteq> q \<Longrightarrow> procs s' r = procs s r" and "p_state (procs s' q) = UNUSED"
proof -
  obtain t where t: "(if p_trapframe (procs s q) \<noteq> 0 then kfree (p_trapframe (procs s q)) s else Inr s) = Inr t"
    and r: "bindE (if p_pagetable (procs (upd_proc q (\<lambda>x. x\<lparr>p_trapframe := 0\<rparr>) t) q) \<noteq> 0
            then proc_freepagetable (p_pagetable (procs (upd_proc q (\<lambda>x. x\<lparr>p_trapframe := 0\<rparr>) t) q)) (p_sz (procs (upd_proc q (\<lambda>x. x\<lparr>p_trapframe := 0\<rparr>) t) q)) (upd_proc q (\<lambda>x. x\<lparr>p_trapframe := 0\<rparr>) t)
            else Inr (upd_proc q (\<lambda>x. x\<lparr>p_trapframe := 0\<rparr>) t)) (\<lambda>s.
     Inr (upd_proc q (\<lambda>x. x\<lparr>p_pagetable := 0, p_sz := 0, p_pid := 0, p_parent := None,
                           p_name := (p_name x)(0 := 0), p_chan := None, p_killed := False,
                           p_xstate := 0, p_state := UNUSED\<rparr>) s)) = Inr s'"
    using assms unfolding freeproc_def bindE_eq_Inr Let_def by blast
  have t': "procs t = procs s" "cpu_proc t = cpu_proc s"
    using t pstate_more [OF kfree_more] by (auto split: if_splits)
  show "cpu_proc s' = cpu_proc s" "r \<noteq> q \<Longrightarrow> procs s' r = procs s r" "p_state (procs s' q) = UNUSED"
    using r t' by (auto simp: bindE_eq_Inr dest!: proc_freepagetable_more pstate_more split: if_splits)
qed

section \<open>Steps keep the invariant\<close>

lemma undisturbed_refl [simp]: "undisturbed s s F" by (simp add: undisturbed_def)

lemma undisturbed_trans: "undisturbed s t F \<Longrightarrow> undisturbed t u F \<Longrightarrow> undisturbed s u F"
  by (simp add: undisturbed_def)

lemma undisturbed_cpu [simp]: "undisturbed s (t\<lparr>cpu := c\<rparr>) F = undisturbed s t F" "undisturbed (s\<lparr>cpu := c\<rparr>) t F = undisturbed s t F"
  by (simp_all add: undisturbed_def)

lemma undisturbed_upd_proc:
  "p_state (f (procs s q)) = RUNNING \<longleftrightarrow> p_state (procs s q) = RUNNING \<Longrightarrow>
   p_state (f (procs s q)) = UNUSED \<longrightarrow> p_state (procs s q) = UNUSED \<Longrightarrow> undisturbed s (upd_proc q f s) F"
  by (simp add: undisturbed_def)

lemma myproc_at: "sched_inv st \<Longrightarrow> ph st c = In_proc p \<or> ph st c = Switched p \<Longrightarrow> myproc ((ps st)\<lparr>cpu := c\<rparr>) = p"
  by (auto simp: sched_inv_def myproc_def)

lemma wakeup1_quiet: "wakeup1 q m s = Inr s' \<Longrightarrow> undisturbed s s' F \<and> cpu s' = cpu s \<and> myproc s' = myproc s"
  by (auto simp: wakeup1_def undisturbed_upd_proc split: if_splits)

lemma reparent_quiet:
  assumes "reparent p m s = Inr (m', s')"
  shows "undisturbed s s' {} \<and> cpu s' = cpu s \<and> myproc s' = myproc s \<and> keeps_locks (cpu s) m m'"
proof -
  define P where "P = (\<lambda>(n, t). undisturbed s t {} \<and> cpu t = cpu s \<and> myproc t = myproc s \<and> keeps_locks (cpu s) m n)"
  have body: "P (n', t')" if pn: "P (n, t)" and rb: "reparent_body p q (n, t) = Inr (n', t')" for q n t n' t'
  proof (cases "p_parent (procs t q) = Some p")
    case True
    obtain m1 where a: "acquire (cpu t) (plock q) n = Inr m1" and r: "release (cpu t) (plock q) m1 = Inr n'"
      and t': "t' = upd_proc q (\<lambda>x. x\<lparr>p_parent := initproc t\<rparr>) t"
      using rb True by (auto simp: reparent_body_def bindE_eq_Inr Let_def)
    have "keeps_locks (cpu s) n n'"
      using keeps_locks_trans [OF keeps_locks_acquire [OF a] keeps_locks_release [OF r]] pn by (simp add: P_def)
    moreover have "undisturbed t t' {}" by (simp add: t' undisturbed_upd_proc)
    ultimately show ?thesis
      using pn t' by (auto simp: P_def elim: keeps_locks_trans undisturbed_trans)
  qed (use pn rb in \<open>simp add: reparent_body_def\<close>)
  have "P x \<Longrightarrow> foldE (reparent_body p) qs x = Inr y \<Longrightarrow> P y" for qs x y
  proof (induction qs arbitrary: x)
    case (Cons q qs)
    then show ?case by (cases x) (auto simp: bindE_eq_Inr dest: body)
  qed simp
  from this [of "(m, s)" "[0..<NPROC]" "(m', s')"] assms show ?thesis by (simp add: P_def reparent_def)
qed

lemma exit_zombie_leaves:
  assumes "exit_zombie p ini status m s = Inr (m', s')" and p: "myproc s = p"
  shows "undisturbed s s' {p}" and "keeps_locks (cpu s) m m'" and "holding (cpu s) (plock p) m'" and "p_state (procs s' p) = ZOMBIE"
proof -
  obtain m1 s1 m2 m3 m4 pp m5 m6 m7 s2 s3 m8 where
    l: "acquire (cpu s) (plock ini) m = Inr m1" "release (cpu s1) (plock ini) m1 = Inr m2"
       "acquire (cpu s1) (plock p) m2 = Inr m3" "release (cpu s1) (plock p) m3 = Inr m4"
       "acquire (cpu s1) (plock pp) m4 = Inr m5" "acquire (cpu s1) (plock p) m5 = Inr m6"
    and w1: "wakeup1 ini m1 s = Inr s1"
    and rp: "reparent p m6 s1 = Inr (m7, s2)" and w2: "wakeup1 pp m7 s2 = Inr s3"
    and r: "release (cpu s3) (plock pp) m7 = Inr m8"
    and sc: "sched m8 (upd_proc p (\<lambda>x. x\<lparr>p_xstate := status, p_state := ZOMBIE\<rparr>) s3) = Inr ()"
    and e: "m' = m8" "s' = upd_proc p (\<lambda>x. x\<lparr>p_xstate := status, p_state := ZOMBIE\<rparr>) s3"
    using assms(1) by (auto simp: exit_zombie_def bindE_eq_Inr Let_def split: option.splits)
  note W1 = wakeup1_quiet [OF w1] and R = reparent_quiet [OF rp] and W2 = wakeup1_quiet [OF w2]
  have c: "cpu s1 = cpu s" "cpu s3 = cpu s" "myproc s3 = p" using W1 R W2 p by auto
  show "undisturbed s s' {p}"
  proof -
    have "undisturbed s s3 {}"
      by (rule undisturbed_trans [OF undisturbed_trans [OF W1 [THEN conjunct1] R [THEN conjunct1]] W2 [THEN conjunct1]])
    then show ?thesis by (simp add: e(2) undisturbed_def)
  qed
  show "keeps_locks (cpu s) m m'"
  proof -
    note L = l [unfolded c]
    have "keeps_locks (cpu s) m m2" by (rule keeps_locks_trans [OF keeps_locks_acquire [OF L(1)] keeps_locks_release [OF L(2)]])
    also have "keeps_locks (cpu s) m2 m4"
      by (rule keeps_locks_trans [OF keeps_locks_acquire [OF L(3)] keeps_locks_release [OF L(4)]])
    also have "keeps_locks (cpu s) m4 m6"
      by (rule keeps_locks_trans [OF keeps_locks_acquire [OF L(5)] keeps_locks_acquire [OF L(6)]])
    also have "keeps_locks (cpu s) m6 m7" using R by (simp add: c)
    also have "keeps_locks (cpu s) m7 m'" using keeps_locks_release [OF r] by (simp add: c e(1))
    finally show ?thesis .
  qed
  show "holding (cpu s) (plock p) m'" using sched_Inr(1) [OF sc] by (simp add: c e(1))
  show "p_state (procs s' p) = ZOMBIE" by (simp add: e(2))
qed

lemma yield_leaves:
  assumes "yield m s = Inr (m', s')"
  shows "undisturbed s s' {myproc s}" and "keeps_locks (cpu s) m m'" and "holding (cpu s) (plock (myproc s)) m'"
    and "p_state (procs s' (myproc s)) = RUNNABLE"
proof -
  obtain a: "acquire (cpu s) (plock (myproc s)) m = Inr m'" and s': "s' = upd_proc (myproc s) (\<lambda>x. x\<lparr>p_state := RUNNABLE\<rparr>) s"
    using assms by (auto simp: yield_def Let_def bindE_eq_Inr)
  show "undisturbed s s' {myproc s}" "p_state (procs s' (myproc s)) = RUNNABLE" by (simp_all add: s' undisturbed_def)
  show "keeps_locks (cpu s) m m'" by (rule keeps_locks_acquire [OF a])
  show "holding (cpu s) (plock (myproc s)) m'" using acquire_Inr [OF a] by (simp add: holding_def)
qed

lemma sleep_leaves:
  assumes "sleep ch l m s = Inr (m', s')"
  shows "undisturbed s s' {myproc s}" and "keeps_locks (cpu s) m m'" and "holding (cpu s) (plock (myproc s)) m'"
    and "p_state (procs s' (myproc s)) = SLEEPING"
proof -
  obtain a: "(if l \<noteq> plock (myproc s) then bindE (acquire (cpu s) (plock (myproc s)) m) (release (cpu s) l) else Inr m) = Inr m'"
    and s': "s' = set_sleeping ch s" and sc: "sched m' (set_sleeping ch s) = Inr ()"
    using assms by (auto simp: sleep_def Let_def bindE_eq_Inr)
  show "undisturbed s s' {myproc s}" "p_state (procs s' (myproc s)) = SLEEPING" by (simp_all add: s' undisturbed_def)
  show "keeps_locks (cpu s) m m'"
    using a by (auto simp: bindE_eq_Inr split: if_splits intro: keeps_locks_trans [OF keeps_locks_acquire keeps_locks_release])
  show "holding (cpu s) (plock (myproc s)) m'" using sched_Inr(1) [OF sc] by simp
qed

lemma sched_invI:
  assumes "\<And>d. cpu_proc s d = on_cpu (f d)" and "\<And>d q. on_cpu (f d) = Some q \<Longrightarrow> q < NPROC"
    and "\<And>d e q. on_cpu (f d) = Some q \<Longrightarrow> on_cpu (f e) = Some q \<Longrightarrow> d = e"
    and "\<And>d q. f d = Switched q \<or> f d = Leaving q \<Longrightarrow> holding d (plock q) m"
    and "\<And>q. p_state (procs s q) = RUNNING \<longleftrightarrow> (\<exists>d. f d = Switched q \<or> f d = In_proc q)"
    and "\<And>d q. on_cpu (f d) = Some q \<Longrightarrow> p_state (procs s q) \<noteq> UNUSED"
  shows "sched_inv (st\<lparr>lks := m, ps := s, ph := f\<rparr>)"
  unfolding sched_inv_def using assms by simp

lemma sched_invD:
  assumes "sched_inv st"
  shows "cpu_proc (ps st) d = on_cpu (ph st d)" and "on_cpu (ph st d) = Some q \<Longrightarrow> q < NPROC"
    and "on_cpu (ph st d) = Some q \<Longrightarrow> on_cpu (ph st e) = Some q \<Longrightarrow> d = e"
    and "ph st d = Switched q \<or> ph st d = Leaving q \<Longrightarrow> holding d (plock q) (lks st)"
    and "p_state (procs (ps st) q) = RUNNING \<longleftrightarrow> (\<exists>d. ph st d = Switched q \<or> ph st d = In_proc q)"
    and "on_cpu (ph st d) = Some q \<Longrightarrow> p_state (procs (ps st) q) \<noteq> UNUSED"
  using assms unfolding sched_inv_def by blast+

lemma sched_inv_dispatch:
  assumes inv: "sched_inv st" and c: "ph st c = In_sched" "p < NPROC"
    and r: "scheduler_run p (lks st) ((ps st)\<lparr>cpu := c\<rparr>) = Inr (True, m, s)"
  shows "sched_inv (st\<lparr>lks := m, ps := s, ph := (ph st)(c := Switched p)\<rparr>)"
proof -
  define f where "f = (ph st)(c := Switched p)"
  have f: "f c = Switched p" "d \<noteq> c \<Longrightarrow> f d = ph st d" for d by (simp_all add: f_def)
  note I = sched_invD [OF inv]
  have a: "acquire c (plock p) (lks st) = Inr m" and runnable: "p_state (procs (ps st) p) = RUNNABLE"
    and s: "procs s = (procs (ps st))(p := (procs (ps st) p)\<lparr>p_state := RUNNING\<rparr>)"
           "cpu_proc s = (cpu_proc (ps st))(c := Some p)"
    using r by (auto simp: scheduler_run_def bindE_eq_Inr Let_def split: if_splits)
  have off: "on_cpu (ph st d) \<noteq> Some p" for d
  proof
    assume "on_cpu (ph st d) = Some p"
    then consider "ph st d = Switched p \<or> ph st d = Leaving p" | "ph st d = In_proc p" by (cases "ph st d") auto
    then show False
    proof cases
      case 1
      then show False using acquire_not_held [OF a] I(4) by blast
    next
      case 2
      then show False using runnable I(5) [of p] by auto
    qed
  qed
  have other: "f d = x \<Longrightarrow> x \<noteq> Switched p \<Longrightarrow> ph st d = x" for d x using f(2) [of d] f(1) by (cases "d = c") auto
  have "sched_inv (st\<lparr>lks := m, ps := s, ph := f\<rparr>)"
  proof (rule sched_invI)
    show "cpu_proc s d = on_cpu (f d)" for d using I(1) [of d] f by (cases "d = c") (simp_all add: s)
    show "q < NPROC" "p_state (procs s q) \<noteq> UNUSED" if "on_cpu (f d) = Some q" for d q
      using that c(2) I(2,6) [of d q] f by (cases "d = c"; simp add: s)+
    show "d = e" if "on_cpu (f d) = Some q" "on_cpu (f e) = Some q" for d e q
      using that off [of d] off [of e] I(3) [of d q e] f by (cases "d = c"; cases "e = c") simp_all
    show "holding d (plock q) m" if "f d = Switched q \<or> f d = Leaving q" for d q
    proof (cases "d = c")
      case True
      then show ?thesis using that f(1) acquire_Inr(2) [OF a] by (auto simp: holding_def)
    next
      case False
      then show ?thesis using that f(2) I(4) by (intro holding_acquire [OF a]) auto
    qed
    show "p_state (procs s q) = RUNNING \<longleftrightarrow> (\<exists>d. f d = Switched q \<or> f d = In_proc q)" for q
    proof (cases "q = p")
      case False
      have "f d = Switched q \<or> f d = In_proc q \<longleftrightarrow> ph st d = Switched q \<or> ph st d = In_proc q" for d
        using False c(1) f by (cases "d = c") auto
      then show ?thesis using I(5) [of q] False by (simp add: s)
    qed (use f(1) in \<open>auto simp: s\<close>)
  qed
  then show ?thesis by (simp add: f_def)
qed

lemma sched_inv_resume:
  assumes inv: "sched_inv st" and c: "ph st c = Switched p" and r: "release c (plock p) (lks st) = Inr m"
  shows "sched_inv (st\<lparr>lks := m, ps := tidy_up ((ps st)\<lparr>cpu := c\<rparr>), ph := (ph st)(c := In_proc p)\<rparr>)"
proof -
  define f where "f = (ph st)(c := In_proc p)"
  have f: "f c = In_proc p" "d \<noteq> c \<Longrightarrow> f d = ph st d" for d by (simp_all add: f_def)
  note I = sched_invD [OF inv]
  have o: "on_cpu (f d) = on_cpu (ph st d)" for d using c f by (cases "d = c") simp_all
  have sw: "f d = Switched q \<or> f d = In_proc q \<longleftrightarrow> ph st d = Switched q \<or> ph st d = In_proc q" for d q
    using c f by (cases "d = c") simp_all
  have st: "p_state (procs (tidy_up ((ps st)\<lparr>cpu := c\<rparr>)) q) = p_state (procs (ps st) q)"
    "cpu_proc (tidy_up ((ps st)\<lparr>cpu := c\<rparr>)) = cpu_proc (ps st)" for q
    by (simp_all add: tidy_up_def)
  have hold: "holding d (plock q) m" if "f d = Switched q \<or> f d = Leaving q" for d q
    using that f I(4) [of d q] by (cases "d = c") (auto intro: holding_release [OF r])
  have "sched_inv (st\<lparr>lks := m, ps := tidy_up ((ps st)\<lparr>cpu := c\<rparr>), ph := f\<rparr>)"
    by (rule sched_invI; (unfold o sw st)?; (fact I hold)?)
  then show ?thesis by (simp add: f_def)
qed

lemma sched_inv_back:
  assumes inv: "sched_inv st" and c: "ph st c = Leaving p"
    and r: "scheduler_back p (lks st) ((ps st)\<lparr>cpu := c\<rparr>) = Inr (m, s)"
  shows "sched_inv (st\<lparr>lks := m, ps := s, ph := (ph st)(c := In_sched)\<rparr>)"
proof -
  define f where "f = (ph st)(c := In_sched)"
  have f: "f c = In_sched" "d \<noteq> c \<Longrightarrow> f d = ph st d" for d by (simp_all add: f_def)
  note I = sched_invD [OF inv]
  have l: "release c (plock p) (lks st) = Inr m" and s: "procs s = procs (ps st)" "cpu_proc s = (cpu_proc (ps st))(c := None)"
    using r by (auto simp: scheduler_back_def bindE_eq_Inr Let_def)
  have o: "on_cpu (f d) = Some q \<Longrightarrow> on_cpu (ph st d) = Some q" for d q using f by (cases "d = c") simp_all
  have sw: "f d = Switched q \<or> f d = In_proc q \<longleftrightarrow> ph st d = Switched q \<or> ph st d = In_proc q" for d q
    using c f by (cases "d = c") simp_all
  have "sched_inv (st\<lparr>lks := m, ps := s, ph := f\<rparr>)"
  proof (rule sched_invI)
    show "cpu_proc s d = on_cpu (f d)" for d using I(1) [of d] f by (cases "d = c") (simp_all add: s)
    show "q < NPROC" "p_state (procs s q) \<noteq> UNUSED" if "on_cpu (f d) = Some q" for d q
      using I(2,6) [OF o [OF that]] by (simp_all add: s)
    show "d = e" if "on_cpu (f d) = Some q" "on_cpu (f e) = Some q" for d e q by (rule I(3) [OF o o]) (fact that)+
    show "holding d (plock q) m" if "f d = Switched q \<or> f d = Leaving q" for d q
      using that f I(4) [of d q] by (cases "d = c") (auto intro: holding_release [OF l])
    show "p_state (procs s q) = RUNNING \<longleftrightarrow> (\<exists>d. f d = Switched q \<or> f d = In_proc q)" for q
      unfolding sw s by (rule I(5))
  qed
  then show ?thesis by (simp add: f_def)
qed

lemma sched_inv_reap:
  assumes inv: "sched_inv st" and z: "p_state (procs (ps st) q) = ZOMBIE"
    and r: "locked_turn c q (freeproc q) (lks st) (ps st) = Inr (m, s)"
  shows "sched_inv (st\<lparr>lks := m, ps := s\<rparr>)"
proof -
  note I = sched_invD [OF inv] and R = locked_turn_Inr [OF r] and F = freeproc_procs [OF locked_turn_Inr(1) [OF r]]
  have off: "on_cpu (ph st d) \<noteq> Some q" for d
  proof
    assume "on_cpu (ph st d) = Some q"
    then consider "ph st d = Switched q \<or> ph st d = Leaving q" | "ph st d = In_proc q" by (cases "ph st d") auto
    then show False
    proof cases
      case 1
      then show False using I(4) [of d q] R(2) by (auto simp: holding_def)
    next
      case 2
      then show False using z I(5) [of q] by auto
    qed
  qed
  have st: "p_state (procs s p) = RUNNING \<longleftrightarrow> p_state (procs (ps st) p) = RUNNING" for p
    using F(2) [of p] F(3) z by (cases "p = q") auto
  have used: "p_state (procs s p) \<noteq> UNUSED" if "on_cpu (ph st d) = Some p" for d p
    using off [of d] that I(6) [OF that] F(2) [of p] by auto
  have "sched_inv (st\<lparr>lks := m, ps := s, ph := ph st\<rparr>)"
    by (rule sched_invI; (unfold st F(1))?; (fact I used R(3) [OF I(4)])?)
  then show ?thesis by simp
qed

lemma undisturbed_turns:
  "undisturbed s (wakeup_turn ch q s) F" "undisturbed s (kill_turn pid q s) F" "undisturbed s (fork_publish q s) F"
  by (auto simp: wakeup_turn_def kill_turn_def fork_publish_def Let_def undisturbed_def)

lemma sched_inv_turn:
  assumes "sched_inv st" and r: "locked_turn c q (\<lambda>s. Inr (g s)) (lks st) (ps st) = Inr (m, s)"
    and "undisturbed (ps st) (g (ps st)) {}"
  shows "sched_inv (st\<lparr>lks := m, ps := s\<rparr>)"
proof (rule sched_inv_quiet [OF assms(1), of _ c])
  show "undisturbed (ps st) s {}" using locked_turn_Inr(1) [OF r] assms(3) by simp
  show "keeps_locks c (lks st) m" using locked_turn_Inr(3) [OF r] by (simp add: keeps_locks_def)
  show "holding c (plock p) m" if "ph st c = Switched p \<or> ph st c = Leaving p" for p
    using locked_turn_Inr(3) [OF r] sched_invD(4) [OF assms(1) that] .
qed

lemma sched_inv_pass:
  assumes "sched_inv st" and c: "ph st c = In_sched" and r: "scheduler_run p (lks st) ((ps st)\<lparr>cpu := c\<rparr>) = Inr (False, m, s)"
  shows "sched_inv (st\<lparr>lks := m, ps := s\<rparr>)"
proof (rule sched_inv_quiet [OF assms(1), of _ c])
  obtain m1 where a: "acquire c (plock p) (lks st) = Inr m1" and l: "release c (plock p) m1 = Inr m"
    and s: "s = (ps st)\<lparr>cpu := c\<rparr>"
    using r by (auto simp: scheduler_run_def bindE_eq_Inr Let_def split: if_splits)
  show "undisturbed (ps st) s {}" by (simp add: s)
  show "keeps_locks c (lks st) m" by (rule keeps_locks_trans [OF keeps_locks_acquire [OF a] keeps_locks_release [OF l]])
qed (use c in auto)

lemma sched_step_inv:
  assumes "sched_inv st" and "sched_step st st'"
  shows "sched_inv st'"
  using assms(2,1)
proof (induction rule: sched_step.induct)
  case (take_lock c l st m)
  have "sched_inv (st\<lparr>lks := m, ps := ps st\<rparr>)"
    by (rule sched_inv_quiet [of _ _ c])
       (use take_lock in \<open>auto intro: keeps_locks_acquire holding_acquire dest: sched_invD(4)\<close>)
  then show ?case by simp
next
  case (drop_lock st c p l m)
  have "sched_inv (st\<lparr>lks := m, ps := ps st\<rparr>)"
    by (rule sched_inv_quiet [of _ _ c]) (use drop_lock in \<open>auto intro: keeps_locks_release\<close>)
  then show ?case by simp
next
  case (do_yield st c p m s)
  then show ?case using yield_leaves [OF do_yield(2)] myproc_at [of st c p] by (auto intro!: sched_inv_leave)
next
  case (do_sleep st c p ch l m s)
  then show ?case using sleep_leaves [OF do_sleep(2)] myproc_at [of st c p] by (auto intro!: sched_inv_leave)
next
  case (do_exit st c p ini status m s)
  then show ?case using exit_zombie_leaves [OF do_exit(2)] myproc_at [of st c p] by (auto intro!: sched_inv_leave)
qed (simp_all add: sched_inv_dispatch sched_inv_pass sched_inv_resume sched_inv_back sched_inv_reap sched_inv_turn undisturbed_turns)

lemma sched_init_inv: "sched_init st \<Longrightarrow> sched_inv st"
  by (simp add: sched_init_def sched_inv_def)

interpretation sched_machine: invariant_system sched_init sched_step sched_inv
  using sched_init_inv sched_step_inv by unfold_locales

text \<open>C22: One CPU per process: in every interleaving of CPUs that dispatch, resume, yield, sleep, exit, wake, kill,
  fork and reap processes, starting with idle CPUs, no process is on two CPUs, not even between the moment it gives up a CPU
  and the moment the scheduler there takes over; a process is \<^verbatim>\<open>RUNNING\<close> exactly if a CPU executes it; \<^verbatim>\<open>c->proc\<close> names
  the process of the CPU; and no CPU is on the kernel stack of a process that \<^verbatim>\<open>wait\<close> has freed.\<close>

theorem one_cpu_per_process:
  assumes "sched_init st" and "sched_step\<^sup>*\<^sup>* st st'"
  shows "(\<forall>c d p. on_cpu (ph st' c) = Some p \<and> on_cpu (ph st' d) = Some p \<longrightarrow> c = d) \<and>
    (\<forall>p. p_state (procs (ps st') p) = RUNNING \<longleftrightarrow> (\<exists>c. ph st' c = Switched p \<or> ph st' c = In_proc p)) \<and>
    (\<forall>c. cpu_proc (ps st') c = on_cpu (ph st' c)) \<and>
    (\<forall>c p. on_cpu (ph st' c) = Some p \<longrightarrow> p_state (procs (ps st') p) \<noteq> UNUSED)"
  using sched_invD [OF sched_machine.reachable_inv [OF assms]] by blast

definition demo_sched :: "unit sched_state" where
  "demo_sched = \<lparr>lks = machine demo_smp,
     ps = (demo_machine (\<lambda>_ _. 0) ())\<lparr>procs := (\<lambda>_. (demo_proc 4096)\<lparr>p_state := RUNNABLE\<rparr>), cpu_proc := (\<lambda>_. None)\<rparr>,
     ph = (\<lambda>_. In_sched)\<rparr>"

theorem one_cpu_per_process_witness:
  "\<exists>st'. sched_step\<^sup>*\<^sup>* demo_sched st' \<and> ph st' 0 = Switched 1 \<and> p_state (procs (ps st') 1) = RUNNING \<and>
     (\<forall>d. on_cpu (ph st' d) = Some 1 \<longrightarrow> d = 0)"
proof -
  obtain m where a: "acquire 0 (plock 1) (lks demo_sched) = Inr m"
    using acquire_free [of "lks demo_sched" "plock 1" 0] by (auto simp: demo_sched_def demo_smp_def initlock_def)
  obtain s where r: "scheduler_run 1 (lks demo_sched) ((ps demo_sched)\<lparr>cpu := 0\<rparr>) = Inr (True, m, s)"
    using a by (auto simp: scheduler_run_def Let_def demo_sched_def)
  define st where "st = demo_sched\<lparr>lks := m, ps := s, ph := (ph demo_sched)(0 := Switched 1)\<rparr>"
  have "sched_step demo_sched st"
    unfolding st_def by (rule sched_step.dispatch [OF _ _ r]) (simp_all add: demo_sched_def NPROC_def)
  then have run: "sched_step\<^sup>*\<^sup>* demo_sched st" by (rule r_into_rtranclp)
  have at: "ph st 0 = Switched 1" by (simp add: st_def)
  have "sched_init demo_sched" by (simp add: sched_init_def demo_sched_def)
  note T = one_cpu_per_process [OF this run]
  have "p_state (procs (ps st) 1) = RUNNING" using T at by blast
  moreover have "d = 0" if "on_cpu (ph st d) = Some 1" for d
  proof -
    have "on_cpu (ph st 0) = Some 1" by (simp add: at)
    with that T show ?thesis by blast
  qed
  ultimately show ?thesis using run at by blast
qed

end
