(* ===== verification/FreeMap.thy ===== *)
theory FreeMap
  imports Fs
begin

text \<open>
  The block allocator of \<^verbatim>\<open>fs.c\<close> inside a transaction. A step of a file system operation is described by \<open>tx N s s'\<close>: it
  keeps the transaction invariant and every buffer the caller holds, and logs and changes
  the contents of no block outside \<open>N\<close>; \<open>budget k s\<close> says that the operation may still log \<open>k\<close> blocks. On these the free map is
  the set of the block numbers whose bit is clear.
\<close>

section \<open>Steps of a file system operation\<close>

text \<open>Only buffers, the header in memory and the inode cache change.\<close>

definition iframe :: "'a istate_scheme \<Rightarrow> 'a istate_scheme \<Rightarrow> bool" where
  "iframe s s' \<longleftrightarrow> (\<exists>B n l I. s' = s\<lparr>bufs := B, lh_n := n, lh_block := l, inodes := I\<rparr>)"

lemma iframeI: "s' = s\<lparr>bufs := B, lh_n := n, lh_block := l, inodes := I\<rparr> \<Longrightarrow> iframe s s'"
  unfolding iframe_def by blast

lemma iframe_refl [simp]: "iframe s s"
  by (rule iframeI [where B = "bufs s" and n = "lh_n s" and l = "lh_block s" and I = "inodes s"]) simp

lemma iframe_trans [trans]: "iframe s t \<Longrightarrow> iframe t u \<Longrightarrow> iframe s u"
  unfolding iframe_def by (elim exE) (simp, blast)

lemma tframe_iframe: "tframe s s' \<Longrightarrow> iframe s s'" for s :: "'a istate_scheme"
  unfolding tframe_def by (elim exE, rule iframeI [where I = "inodes s"]) simp

lemma tframe_inodes:
  fixes s :: "'a istate_scheme"
  assumes "tframe s s'"
  shows "inodes s' = inodes s" "sb s' = sb s" "procs s' = procs s" "myproc s' = myproc s"
  using assms unfolding tframe_def by (auto simp: myproc_def)

lemma iframe_fields:
  assumes "iframe s s'"
  shows "disk s' = disk s" "curpid s' = curpid s" "log_start s' = log_start s" "log_size s' = log_size s" "log_dev s' = log_dev s"
    "log_outstanding s' = log_outstanding s" "log_committing s' = log_committing s" "home s' = home s" "mem s' = mem s"
    "sb s' = sb s" "procs s' = procs s" "myproc s' = myproc s" "cpu s' = cpu s" "cpu_proc s' = cpu_proc s"
    "istate.more s' = istate.more s" "src_block s' = src_block s"
proof -
  obtain B n l I where e: "s' = s\<lparr>bufs := B, lh_n := n, lh_block := l, inodes := I\<rparr>" using assms unfolding iframe_def by blast
  show "disk s' = disk s" "curpid s' = curpid s" "log_start s' = log_start s" "log_size s' = log_size s" "log_dev s' = log_dev s"
    "log_outstanding s' = log_outstanding s" "log_committing s' = log_committing s" "mem s' = mem s"
    "sb s' = sb s" "procs s' = procs s" "cpu s' = cpu s" "cpu_proc s' = cpu_proc s" "istate.more s' = istate.more s"
    by (simp_all add: e)
  show "home s' = home s" "myproc s' = myproc s" by (simp_all add: e home_def myproc_def)
  show "src_block s' = src_block s" by (simp add: e src_block_def should_use_mirror_def pbn_error_def fun_eq_iff)
qed

lemma upd_inode_frame [simp]:
  fixes s :: "'a istate_scheme"
  shows "view (upd_inode i f s) = view s" "lock_of (upd_inode i f s) = lock_of s" "owns (upd_inode i f s) = owns s"
    "txn_blocks (upd_inode i f s) = txn_blocks s" "lh_n (upd_inode i f s) = lh_n s" "home (upd_inode i f s) = home s"
    "sb (upd_inode i f s) = sb s" "log_size (upd_inode i f s) = log_size s" "log_outstanding (upd_inode i f s) = log_outstanding s"
    "held_blocks (upd_inode i f s) = held_blocks s" "curpid (upd_inode i f s) = curpid s" "mem (upd_inode i f s) = mem s"
    "procs (upd_inode i f s) = procs s" "myproc (upd_inode i f s) = myproc s" "disk (upd_inode i f s) = disk s"
    "txn (upd_inode i f s) = txn s" "iframe s (upd_inode i f s)"
    "inodes (upd_inode i f s) = (inodes s)(i := f (inodes s i))" "bufs (upd_inode i f s) = bufs s"
proof -
  have t: "bstate.truncate (upd_inode i f s) = bstate.truncate s" by (simp add: upd_inode_def bstate.truncate_def)
  note C = trunc_cong [OF t]
  show "view (upd_inode i f s) = view s" "lock_of (upd_inode i f s) = lock_of s" "owns (upd_inode i f s) = owns s" by (fact C)+
  show tb: "txn_blocks (upd_inode i f s) = txn_blocks s" "lh_n (upd_inode i f s) = lh_n s" "home (upd_inode i f s) = home s"
    by (simp_all add: upd_inode_def txn_blocks_def txn_block_def home_def)
  show "sb (upd_inode i f s) = sb s" "log_size (upd_inode i f s) = log_size s" "log_outstanding (upd_inode i f s) = log_outstanding s"
    "curpid (upd_inode i f s) = curpid s" "mem (upd_inode i f s) = mem s" "disk (upd_inode i f s) = disk s"
    "procs (upd_inode i f s) = procs s" "myproc (upd_inode i f s) = myproc s"
    "inodes (upd_inode i f s) = (inodes s)(i := f (inodes s i))" "bufs (upd_inode i f s) = bufs s"
    by (simp_all add: upd_inode_def myproc_def)
  show "held_blocks (upd_inode i f s) = held_blocks s" by (simp add: held_blocks_def C)
  have "log_geometry (upd_inode i f s) = log_geometry s" "log_dev (upd_inode i f s) = log_dev s" "lh_block (upd_inode i f s) = lh_block s"
    by (simp_all add: upd_inode_def log_geometry_def)
  then show "txn (upd_inode i f s) = txn s" unfolding txn_def C tb by (simp add: upd_inode_def)
  show "iframe s (upd_inode i f s)" unfolding upd_inode_def
    by (rule iframeI [where B = "bufs s" and n = "lh_n s" and l = "lh_block s"]) simp
qed

definition tx :: "nat set \<Rightarrow> 'a istate_scheme \<Rightarrow> 'a istate_scheme \<Rightarrow> bool" where
  "tx N s s' \<longleftrightarrow> txn s' \<and> iframe s s' \<and> lock_of s' = lock_of s \<and> (\<forall>n. n \<notin> N \<longrightarrow> view s' n = view s n) \<and>
     set (txn_blocks s) \<subseteq> set (txn_blocks s') \<and> set (txn_blocks s') \<subseteq> set (txn_blocks s) \<union> N \<and> (\<forall>c m. owns s c m \<longrightarrow> owns s' c m)"

definition budget :: "nat \<Rightarrow> 'a istate_scheme \<Rightarrow> bool" where
  "budget k s \<longleftrightarrow> lh_n s + int k \<le> log_size s - 1 \<and> 1 \<le> log_outstanding s \<and> room (k + 2) s"

lemma tx_refl: "txn s \<Longrightarrow> tx {} s s"
  by (simp add: tx_def)

lemma tx_trans: "tx M s t \<Longrightarrow> tx N t u \<Longrightarrow> tx (M \<union> N) s u"
  unfolding tx_def using iframe_trans by auto

lemma tx_mono: "tx M s t \<Longrightarrow> M \<subseteq> N \<Longrightarrow> tx N s t"
  unfolding tx_def by auto

lemma tx_upd_inode: "tx N s t \<Longrightarrow> tx N s (upd_inode i f t)"
  unfolding tx_def using iframe_trans [OF _ upd_inode_frame(17)] by auto

text \<open>The same with log slots and buffers counted apart.\<close>

definition quota :: "nat \<Rightarrow> nat \<Rightarrow> 'a istate_scheme \<Rightarrow> bool" where
  "quota k r s \<longleftrightarrow> lh_n s + int k \<le> log_size s - 1 \<and> 1 \<le> log_outstanding s \<and> room r s"

lemma budget_quota: "budget k s = quota k (k + 2) s"
  by (simp add: budget_def quota_def)

lemma quota_mono: "quota k r s \<Longrightarrow> k' \<le> k \<Longrightarrow> r' \<le> r \<Longrightarrow> quota k' r' s"
  by (simp add: quota_def room_def)

lemma quota_upd_inode [simp]: "quota k r (upd_inode i f s) = quota k r s"
  by (simp add: quota_def room_def)

lemma quota_can_log: "quota 1 r s \<Longrightarrow> can_log s" and quota_room: "quota k r s \<Longrightarrow> room r s"
  by (simp_all add: quota_def can_log_def)

lemma budget_upd_inode [simp]: "budget k (upd_inode i f s) = budget k s"
  by (simp add: budget_def room_def)

text \<open>The blocks that a step may log, and that are not in the log already, bound the growth of the log.\<close>

lemma tx_lh_new:
  assumes "tx N s t" and "txn s" and "finite N"
  shows "lh_n t \<le> lh_n s + int (card (N - set (txn_blocks s)))"
proof -
  have t: "txn t" using assms(1) by (simp add: tx_def)
  have "card (set (txn_blocks t)) \<le> card (set (txn_blocks s) \<union> (N - set (txn_blocks s)))"
    using assms(1,3) by (intro card_mono) (auto simp: tx_def)
  also have "\<dots> \<le> card (set (txn_blocks s)) + card (N - set (txn_blocks s))" by (rule card_Un_le)
  finally have "nat (lh_n t) \<le> nat (lh_n s) + card (N - set (txn_blocks s))" using txn_len [OF t] txn_len [OF assms(2)] by simp
  moreover have "0 \<le> lh_n s" using assms(2) by (simp add: txn_def)
  ultimately show ?thesis by linarith
qed

lemma tx_lh:
  assumes "tx N s t" and "txn s" and "finite N"
  shows "lh_n t \<le> lh_n s + int (card N)"
  using tx_lh_new [OF assms] card_mono [OF assms(3), of "N - set (txn_blocks s)"] by auto

lemma tx_quota:
  assumes "tx N s t" and "txn s" and "finite N" and "card (N - set (txn_blocks s)) \<le> j" and "quota (j + k) (j + r) s"
  shows "quota k r t"
proof -
  have 1: "lh_n t \<le> lh_n s + int j" "0 \<le> lh_n s" "held_blocks t = held_blocks s" "log_size t = log_size s" "log_outstanding t = log_outstanding s"
    using assms(1,2,4) tx_lh_new [OF assms(1-3)] iframe_fields [of s t] by (auto simp: tx_def txn_def held_blocks_def)
  then have "nat (lh_n t) \<le> nat (lh_n s) + j" by simp
  then show ?thesis using assms(5) 1 by (simp add: quota_def room_def)
qed

lemma tx_budget:
  assumes "tx N s t" and "txn s" and "finite N" and "card N \<le> j" and "budget (j + k) s"
  shows "budget k t"
proof -
  have "card (N - set (txn_blocks s)) \<le> j" using card_mono [OF assms(3), of "N - set (txn_blocks s)"] assms(4) by auto
  from tx_quota [OF assms(1-3) this, of k "k + 2"] show ?thesis using assms(5) by (simp add: budget_quota add.assoc)
qed

lemma budget_room: "budget k s \<Longrightarrow> i \<le> k + 2 \<Longrightarrow> room i s"
  by (simp add: budget_def room_def)

lemma budget_mono: "budget k s \<Longrightarrow> j \<le> k \<Longrightarrow> budget j s"
  by (simp add: budget_def room_def)

lemma budget_can_log: "budget (Suc k) s \<Longrightarrow> can_log s"
  by (simp add: budget_def can_log_def)

text \<open>A block that is held takes one buffer away.\<close>

lemma held_card_Suc:
  assumes "txn s" and "lock_of s' = (lock_of s)(n := Some p)"
  shows "card (held_blocks s') \<le> Suc (card (held_blocks s))"
proof -
  have "held_blocks s' \<subseteq> insert n (held_blocks s)" using assms(2) by (auto simp: held_blocks_def)
  then have "card (held_blocks s') \<le> card (insert n (held_blocks s))"
    using finite_held [OF assms(1)] by (intro card_mono) simp_all
  then show ?thesis using finite_held [OF assms(1)] by (simp add: card_insert_if split: if_splits)
qed

text \<open>Reading a block and releasing it, with a client in between that holds it.\<close>

lemma update_tx:
  fixes s :: "'a istate_scheme"
  assumes "update_post s n d s'"
  shows "tx {n} s s'" and "tframe s s'" and "view s' = (view s)(n := d)"
  using assms tframe_iframe [of s s'] by (auto simp: update_post_def tx_def)

lemma txn_update_tx:
  fixes s :: "'a istate_scheme"
  assumes "txn s" and "lock_of s n = None" and "n \<in> home s" and "quota 1 1 s" and "blk_ok (f (view s n))"
  shows "returns (bindE (bread ROOTDEV n s) (\<lambda>(b, s). bindE (log_write b (set_bdata b (f (bdata s b)) s)) (brelse b)))
    (\<lambda>s'. tx {n} s s' \<and> tframe s s' \<and> view s' = (view s)(n := f (view s n)))"
proof -
  from txn_update [OF assms(1-3) quota_room [OF assms(4)] quota_can_log [OF assms(4)], of f] show ?thesis
    using assms(5) by (auto elim!: returns_mono simp: update_tx simp del: One_nat_def)
qed

definition held :: "'a istate_scheme \<Rightarrow> nat \<Rightarrow> nat \<Rightarrow> 'a istate_scheme \<Rightarrow> bool" where
  "held s n b s1 \<longleftrightarrow> txn s1 \<and> frame s s1 \<and> owns s1 b n \<and> bdata s1 b = view s n \<and> view s1 = view s \<and>
    lock_of s1 = (lock_of s)(n := Some (curpid s)) \<and> txn_blocks s1 = txn_blocks s \<and> (\<forall>c m. owns s c m \<longrightarrow> owns s1 c m)"

lemma held_fields:
  fixes s :: "'a istate_scheme"
  assumes "held s n b s1"
  shows "inodes s1 = inodes s" "sb s1 = sb s" "lh_n s1 = lh_n s" "home s1 = home s" "log_size s1 = log_size s"
    "log_outstanding s1 = log_outstanding s" "mem s1 = mem s" "procs s1 = procs s" "myproc s1 = myproc s" "disk s1 = disk s"
    "src_block s1 = src_block s" "curpid s1 = curpid s" "iframe s s1"
proof -
  have f: "frame s s1" using assms by (simp add: held_def)
  note t = frame_tframe [OF f]
  show "inodes s1 = inodes s" "sb s1 = sb s" "lh_n s1 = lh_n s" "home s1 = home s" "log_size s1 = log_size s"
    "log_outstanding s1 = log_outstanding s" "mem s1 = mem s" "procs s1 = procs s" "myproc s1 = myproc s" "disk s1 = disk s"
    "src_block s1 = src_block s" "curpid s1 = curpid s" "iframe s s1"
    using tframe_inodes [OF t] tframe_fields [OF t] lframe_fields(4) [OF frame_lframe [OF f]] tframe_iframe [OF t] by simp_all
qed

lemma bread_held_room:
  assumes "txn s" and "lock_of s n = None" and "n < LOGICAL_DISK_SIZE" and "room 1 s"
  shows "\<exists>b s1. bread ROOTDEV n s = Inr (b, s1) \<and> held s n b s1"
  using txn_bread [OF assms] by (auto simp: returns_iff held_def)

lemma bread_held:
  assumes "txn s" and "lock_of s n = None" and "n < LOGICAL_DISK_SIZE" and "budget k s"
  shows "\<exists>b s1. bread ROOTDEV n s = Inr (b, s1) \<and> held s n b s1"
  using bread_held_room [OF assms(1-3) budget_room [OF assms(4)]] by simp

lemma held_quota:
  assumes "held s n b s1" and "txn s" and "quota k (Suc r) s"
  shows "quota k r s1"
proof -
  have "card (held_blocks s1) \<le> Suc (card (held_blocks s))"
    using assms(1,2) held_card_Suc by (auto simp: held_def)
  then show ?thesis using assms(3) held_fields [OF assms(1)] by (simp add: quota_def room_def)
qed

lemma held_budget:
  assumes "held s n b s1" and "txn s" and "budget (Suc k) s"
  shows "budget k s1"
proof -
  have "quota k (Suc (k + 2)) s" using assms(3) quota_mono unfolding budget_quota by (metis add_Suc le_refl lessI less_imp_le)
  from held_quota [OF assms(1,2) this] show ?thesis by (simp add: budget_quota)
qed

text \<open>The caller of \<^verbatim>\<open>bread\<close> releases the block, unchanged or after logging a change, when it has made other steps.\<close>

lemma held_release:
  fixes s :: "'a istate_scheme"
  assumes "txn s" and "held s n b s1" and "lock_of s n = None" and "tx N s1 t" and "n \<notin> N"
  shows "\<exists>s'. brelse b t = Inr s' \<and> tx N s s' \<and> tframe t s' \<and> view s' = view t"
proof -
  note H = assms(2) [unfolded held_def] and F = held_fields [OF assms(2)] and T = assms(4) [unfolded tx_def]
  have o: "owns t b n" and n: "n < LOGICAL_DISK_SIZE" using H T owns_abs(7) [of s1 b n] by (auto simp: txn_def)
  have v: "n \<in> set (txn_blocks t) \<or> view t n = disk t (src_block t n)"
  proof (cases "n \<in> set (txn_blocks s)")
    case False
    then have "view s n = disk s (src_block s n)" using assms(1,3) n by (simp add: txn_def)
    then show ?thesis using T H assms(5) F iframe_fields [of s1 t] by simp
  qed (use H T in auto)
  obtain s' where 1: "brelse b t = Inr s'" "txn s'" "frame t s'" "view s' = view t" "lock_of s' = (lock_of t)(n := None)"
    "txn_blocks s' = txn_blocks t" "\<And>c m. owns t c m \<Longrightarrow> m \<noteq> n \<Longrightarrow> owns s' c m"
    using txn_brelse [OF _ o v] T unfolding returns_iff by blast
  note f = frame_tframe [OF 1(3)]
  have l: "lock_of s' = lock_of s" using 1(5) H T assms(3) by auto
  have i: "iframe s s'" using F(13) T tframe_iframe [OF f] iframe_trans by blast
  have ow: "owns s' c m" if "owns s c m" for c m
  proof -
    have "m \<noteq> n" using owns_abs(3) [OF _ that] assms(1,3) by (auto simp: txn_def)
    then show ?thesis using that H T 1(7) by blast
  qed
  have "lh_n s' = lh_n t" using lframe_fields(4) [OF frame_lframe [OF 1(3)]] .
  then have "tx N s s'" using 1 l i ow T H F by (auto simp: tx_def)
  with 1 f show ?thesis by blast
qed

lemma held_update:
  fixes s :: "'a istate_scheme"
  assumes "txn s" and "held s n b s1" and "lock_of s n = None" and "tx N s1 t" and "n \<in> home s" and "can_log t" and "blk_ok d"
  shows "\<exists>s'. bindE (log_write b (set_bdata b d t)) (brelse b) = Inr s' \<and> tx (insert n N) s s' \<and> tframe t s' \<and>
    view s' = (view t)(n := d) \<and> n \<in> set (txn_blocks s')"
proof -
  note H = assms(2) [unfolded held_def] and F = held_fields [OF assms(2)] and T = assms(4) [unfolded tx_def]
  have o: "owns t b n" and h: "n \<in> home t" using H T F assms(5) iframe_fields(8) [of s1 t] by auto
  obtain s' where 1: "bindE (log_write b (set_bdata b d t)) (brelse b) = Inr s'" "txn s'" "tframe t s'" "view s' = (view t)(n := d)"
    "lock_of s' = (lock_of t)(n := None)" "set (txn_blocks s') = insert n (set (txn_blocks t))"
    "lh_n s' = (if n \<in> set (txn_blocks t) then lh_n t else lh_n t + 1)" "\<And>c m. owns t c m \<Longrightarrow> m \<noteq> n \<Longrightarrow> owns s' c m"
    using txn_finish [OF _ o h assms(6,7)] T unfolding returns_iff by blast
  have l: "lock_of s' = lock_of s" using 1(5) H T assms(3) by auto
  have i: "iframe s s'" using F(13) T tframe_iframe [OF 1(3)] iframe_trans by blast
  have ow: "owns s' c m" if "owns s c m" for c m
  proof -
    have "m \<noteq> n" using owns_abs(3) [OF _ that] assms(1,3) by (auto simp: txn_def)
    then show ?thesis using that H T 1(8) by blast
  qed
  have "tx (insert n N) s s'" using 1 l i ow T H F by (auto simp: tx_def)
  with 1 show ?thesis by blast
qed

section \<open>The free map\<close>

definition used :: "bytes \<Rightarrow> nat \<Rightarrow> bool" where
  "used d b \<longleftrightarrow> bit (d (b div 8)) (b mod 8)"

lemma bmask_free: "d (bi div 8) AND bmask bi = 0 \<longleftrightarrow> \<not> used d bi"
  by (simp add: bmask_def used_def push_bit_of_1 and_exp_eq_0_iff_not_bit)

lemma bit_bmask: "bit (bmask bi) k \<longleftrightarrow> k = bi mod 8"
  using mod_less_divisor [of 8 bi] by (auto simp: bmask_def push_bit_of_1 bit_exp_iff)

lemma byte_bit_div_mod: "x div 8 = b div 8 \<Longrightarrow> x mod 8 = b mod 8 \<longleftrightarrow> x = b" for x b :: nat
  by (metis div_mult_mod_eq)

lemma used_set: "used (d(bi div 8 := d (bi div 8) OR bmask bi)) x \<longleftrightarrow> x = bi \<or> used d x"
  using byte_bit_div_mod [of x bi] by (auto simp: used_def bit_or_iff bit_bmask)

lemma used_clear: "used (d(bi div 8 := d (bi div 8) AND NOT (bmask bi))) x \<longleftrightarrow> x \<noteq> bi \<and> used d x"
  using byte_bit_div_mod [of x bi] mod_less_divisor [of 8 x]
  by (auto simp: used_def bit_and_iff bit_not_iff bit_bmask)

lemma balloc_scan_Some:
  "balloc_scan k bi b sz d = Some x \<Longrightarrow>
    bi \<le> x \<and> x < bi + k \<and> b + x < sz \<and> \<not> used d x \<and> (\<forall>y. bi \<le> y \<longrightarrow> y < x \<longrightarrow> used d y)"
proof (induction k arbitrary: bi)
  case (Suc k)
  show ?case
  proof (cases "b + bi < sz \<and> used d bi")
    case True
    then have "balloc_scan k (Suc bi) b sz d = Some x" using Suc.prems by (simp add: bmask_free)
    from Suc.IH [OF this] True show ?thesis by (auto simp: Suc_le_eq nat_less_le)
  qed (use Suc.prems in \<open>auto simp: bmask_free split: if_splits\<close>)
qed simp

lemma balloc_scan_None:
  "balloc_scan k bi b sz d = None \<Longrightarrow> bi \<le> y \<Longrightarrow> y < bi + k \<Longrightarrow> b + y < sz \<Longrightarrow> used d y"
proof (induction k arbitrary: bi)
  case (Suc k)
  then show ?case by (cases "y = bi") (auto simp: bmask_free split: if_splits)
qed simp

text \<open>The whole logical disk has one block of the map, since it is shorter than \<^verbatim>\<open>BPB\<close> blocks.\<close>

definition bmap_blk :: "'a istate_scheme \<Rightarrow> nat" where
  "bmap_blk s = BBLOCK 0 (sb s)"

definition free_set :: "'a istate_scheme \<Rightarrow> nat set" where
  "free_set s = {b. b < sb_size (sb s) \<and> \<not> used (view s (bmap_blk s)) b}"

definition iblocks :: "'a istate_scheme \<Rightarrow> nat set" where
  "iblocks s = (\<lambda>i. IBLOCK i (sb s)) ` {..<sb_ninodes (sb s)}"

text \<open>
  The geometry \<^verbatim>\<open>mkfs\<close> gives the file system: it fits the logical disk, the map and the inodes are in home blocks,
  and none of these nor the boot block is ever free; free blocks are home blocks and not in use.
\<close>

definition map_ok :: "'a istate_scheme \<Rightarrow> bool" where
  "map_ok s \<longleftrightarrow> sb_size (sb s) \<le> LOGICAL_DISK_SIZE \<and> bmap_blk s \<in> home s \<and> lock_of s (bmap_blk s) = None \<and>
     iblocks s \<subseteq> home s - {bmap_blk s} \<and>
     free_set s \<subseteq> {b \<in> home s. b \<noteq> 0 \<and> b \<noteq> bmap_blk s \<and> b \<notin> iblocks s \<and> lock_of s b = None}"

lemma BBLOCK_small: "b < LOGICAL_DISK_SIZE \<Longrightarrow> BBLOCK b (sb s) = bmap_blk s"
  by (simp add: bmap_blk_def BBLOCK_def BPB_def BSIZE_def LOGICAL_DISK_SIZE_def FSSIZE_def)

lemma bzero_tx:
  fixes s :: "'a istate_scheme"
  assumes "txn s" and "lock_of s n = None" and "n \<in> home s" and "quota 1 1 s"
  shows "\<exists>s'. bzero ROOTDEV n s = Inr s' \<and> tx {n} s s' \<and> tframe s s' \<and> view s' = (view s)(n := (\<lambda>_. 0))"
proof -
  have ok: "blk_ok (view s n)" using assms(1) by (simp add: txn_def)
  then have "fill_bytes (view s n) 0 0 BSIZE = (\<lambda>_. 0)" by (auto simp: fill_bytes_def blk_ok_def fun_eq_iff)
  then show ?thesis
    using txn_update_tx [OF assms, where f = "\<lambda>d. fill_bytes d 0 0 BSIZE"]
    by (simp add: blk_ok_def returns_iff bzero_def Let_def)
qed

text \<open>Allocation takes the least free block, marks it and fills it with zeros.\<close>

lemma balloc_tx:
  fixes s :: "'a istate_scheme"
  assumes t: "txn s" and m: "map_ok s" and q: "quota 1 1 s" and q2: "bmap_blk s \<notin> set (txn_blocks s) \<Longrightarrow> quota 2 2 s" and f: "free_set s \<noteq> {}"
  defines "b \<equiv> LEAST b. b \<in> free_set s" and "d \<equiv> view s (bmap_blk s)"
  shows "\<exists>s'. balloc ROOTDEV s = Inr (b, s') \<and> tx {bmap_blk s, b} s s' \<and> tframe s s' \<and>
    view s' = (view s)(bmap_blk s := d(b div 8 := d (b div 8) OR bmask b), b := (\<lambda>_. 0)) \<and> bmap_blk s \<in> set (txn_blocks s')"
proof -
  let ?m = "bmap_blk s" and ?sz = "sb_size (sb s)"
  have b: "b \<in> free_set s" using f unfolding b_def by (auto intro: LeastI)
  then have bh: "b \<in> home s" "b \<noteq> ?m" "lock_of s b = None" "b < ?sz" "\<not> used d b" "b < LOGICAL_DISK_SIZE"
    using m by (auto simp: map_ok_def free_set_def d_def)
  have M: "?m \<in> home s" "lock_of s ?m = None" "?m < LOGICAL_DISK_SIZE" using m by (auto simp: map_ok_def home_def)
  obtain bp s1 where 1: "bread ROOTDEV ?m s = Inr (bp, s1)" and h: "held s ?m bp s1"
    using bread_held_room [OF t M(2,3) quota_room [OF q]] by blast
  note H = h [unfolded held_def] and F = held_fields [OF h]
  have d1: "bdata s1 bp = d" using H by (simp add: d_def)
  have sc: "balloc_scan BPB 0 0 ?sz d = Some b"
  proof (cases "balloc_scan BPB 0 0 ?sz d")
    case None
    then have "used d b" by (rule balloc_scan_None) (use bh in \<open>simp_all add: BPB_def BSIZE_def LOGICAL_DISK_SIZE_def FSSIZE_def\<close>)
    then show ?thesis using bh by simp
  next
    case (Some x)
    note S = balloc_scan_Some [OF Some]
    then have "x \<in> free_set s" by (simp add: free_set_def d_def)
    then have "b \<le> x" unfolding b_def by (rule Least_le)
    moreover have "\<not> b < x" using S bh(5) by auto
    ultimately show ?thesis using Some by simp
  qed
  let ?d = "d(b div 8 := d (b div 8) OR bmask b)"
  have "blk_ok d" using t by (simp add: d_def txn_def)
  moreover have "b div 8 < BSIZE" using bh(6) by (simp add: BSIZE_def LOGICAL_DISK_SIZE_def FSSIZE_def)
  ultimately have ok: "blk_ok ?d" by (auto simp: blk_ok_def)
  have t1: "tx {} s1 s1" and b1: "can_log s1" using H q F by (simp_all add: tx_refl quota_def can_log_def)
  obtain s2 where 2: "bindE (log_write bp (set_bdata bp ?d s1)) (brelse bp) = Inr s2" "tx (insert ?m {}) s s2"
    "tframe s1 s2" "view s2 = (view s)(?m := ?d)" and m2: "?m \<in> set (txn_blocks s2)"
    using held_update [OF t h M(2) t1 M(1) b1 ok] H by auto
  have "quota 1 1 s2"
  proof (cases "?m \<in> set (txn_blocks s)")
    case True
    then show ?thesis by (intro tx_quota [OF 2(2) t, of 0]) (use q in simp_all)
  next
    case False
    have "card ({?m} - set (txn_blocks s)) \<le> 1" using card_mono [of "{?m}" "{?m} - set (txn_blocks s)"] by simp
    then show ?thesis using q2 [OF False] by (intro tx_quota [OF 2(2) t, of 1]) (simp_all add: numeral_2_eq_2)
  qed
  then have T2: "txn s2" "lock_of s2 = lock_of s" "home s2 = home s" "quota 1 1 s2"
    using 2(2) iframe_fields(8) [of s s2] by (simp_all add: tx_def)
  obtain s3 where 3: "bzero ROOTDEV b s2 = Inr s3" "tx {b} s2 s3" "tframe s2 s3" "view s3 = (view s2)(b := (\<lambda>_. 0))"
    using bzero_tx [OF T2(1) _ _ T2(4), of b] T2 bh by auto
  have fr: "tframe s s3" using frame_tframe tframe_trans 2(3) 3(3) H by blast
  have sz: "0 < ?sz" using bh by simp
  obtain s2' where l: "log_write bp (set_bdata bp ?d s1) = Inr s2'" "brelse bp s2' = Inr s2"
    using 2(1) by (auto simp: bindE_iff)
  have "balloc ROOTDEV s = Inr (b, s3)"
    unfolding balloc_def
    by (subst balloc_from.simps) (use sz 1 sc l 3(1) in \<open>simp add: d1 bmap_blk_def [symmetric] Let_def\<close>)
  moreover have "tx {?m, b} s s3" using tx_trans [OF 2(2) 3(2)] by (simp add: numeral_2_eq_2 insert_commute)
  moreover have "?m \<in> set (txn_blocks s3)" using 3(2) m2 by (auto simp: tx_def)
  ultimately show ?thesis using 3(4) 2(4) fr by auto
qed

lemma balloc_full:
  fixes s :: "'a istate_scheme"
  assumes t: "txn s" and m: "map_ok s" and bu: "budget k s" and f: "free_set s = {}"
  shows "balloc ROOTDEV s = Inl (Panic ''balloc: out of blocks'')"
proof (cases "sb_size (sb s) = 0")
  case True
  then show ?thesis by (simp add: balloc_def balloc_from.simps)
next
  case False
  let ?m = "bmap_blk s" and ?sz = "sb_size (sb s)"
  have M: "?m \<in> home s" "lock_of s ?m = None" "?m < LOGICAL_DISK_SIZE" "?sz \<le> LOGICAL_DISK_SIZE"
    using m by (auto simp: map_ok_def home_def)
  obtain bp s1 where 1: "bread ROOTDEV ?m s = Inr (bp, s1)" and h: "held s ?m bp s1"
    using bread_held [OF t M(2,3) bu] by blast
  note H = h [unfolded held_def]
  have sc: "balloc_scan BPB 0 0 ?sz (bdata s1 bp) = None"
  proof (rule ccontr)
    assume "balloc_scan BPB 0 0 ?sz (bdata s1 bp) \<noteq> None"
    then obtain x where "balloc_scan BPB 0 0 ?sz (bdata s1 bp) = Some x" by blast
    from balloc_scan_Some [OF this] H have "x \<in> free_set s" by (simp add: free_set_def)
    then show False using f by simp
  qed
  have "tx {} s1 s1" using H by (simp add: tx_refl)
  from held_release [OF t h M(2) this] obtain s2 where "brelse bp s1 = Inr s2" by auto
  moreover have "\<not> BPB < ?sz" using M(4) by (simp add: BPB_def BSIZE_def LOGICAL_DISK_SIZE_def FSSIZE_def)
  ultimately show ?thesis
    unfolding balloc_def using False 1 sc
    by (subst balloc_from.simps) (simp add: bmap_blk_def [symmetric] balloc_from.simps [of ?sz BPB])
qed

lemma bfree_tx:
  fixes s :: "'a istate_scheme"
  assumes t: "txn s" and m: "map_ok s" and bu: "budget (Suc k) s" and b: "b < sb_size (sb s)"
  defines "d \<equiv> view s (bmap_blk s)"
  shows "if used d b then
      \<exists>s'. bfree ROOTDEV b s = Inr s' \<and> tx {bmap_blk s} s s' \<and> tframe s s' \<and>
        view s' = (view s)(bmap_blk s := d(b div 8 := d (b div 8) AND NOT (bmask b)))
    else bfree ROOTDEV b s = Inl (Panic ''freeing free block'')"
proof -
  let ?m = "bmap_blk s"
  have M: "?m \<in> home s" "lock_of s ?m = None" "?m < LOGICAL_DISK_SIZE" "b < LOGICAL_DISK_SIZE"
    using m b by (auto simp: map_ok_def home_def)
  have bi: "b mod BPB = b" using M(4) by (simp add: BPB_def BSIZE_def LOGICAL_DISK_SIZE_def FSSIZE_def)
  obtain bp s1 where 1: "bread ROOTDEV ?m s = Inr (bp, s1)" and h: "held s ?m bp s1"
    using bread_held [OF t M(2,3) bu] by blast
  note H = h [unfolded held_def] and F = held_fields [OF h]
  let ?d = "d(b div 8 := d (b div 8) AND NOT (bmask b))"
  have d1: "bdata s1 bp = d" using H by (simp add: d_def)
  have "blk_ok d" using t by (simp add: d_def txn_def)
  moreover have "b div 8 < BSIZE" using M(4) by (simp add: BSIZE_def LOGICAL_DISK_SIZE_def FSSIZE_def)
  ultimately have ok: "blk_ok ?d" by (auto simp: blk_ok_def)
  have "tx {} s1 s1" "can_log s1" using H bu F by (simp_all add: tx_refl budget_def can_log_def)
  from held_update [OF t h M(2) this(1) M(1) this(2) ok] obtain s2 where 2:
    "bindE (log_write bp (set_bdata bp ?d s1)) (brelse bp) = Inr s2" "tx {?m} s s2" "tframe s1 s2" "view s2 = (view s)(?m := ?d)"
    using H by auto
  have "tframe s s2" using frame_tframe tframe_trans 2(3) H by blast
  then show ?thesis
    using 1 2 by (auto simp: bfree_def BBLOCK_small M(4) bi d1 Let_def bmask_free)
qed

section \<open>A small file system\<close>

lemma mem_frame [simp]:
  fixes s :: "'a lstate_scheme"
  shows "view (s\<lparr>mem := m\<rparr>) = view s" "lock_of (s\<lparr>mem := m\<rparr>) = lock_of s" "owns (s\<lparr>mem := m\<rparr>) = owns s"
    "txn_blocks (s\<lparr>mem := m\<rparr>) = txn_blocks s" "home (s\<lparr>mem := m\<rparr>) = home s" "held_blocks (s\<lparr>mem := m\<rparr>) = held_blocks s"
    "txn (s\<lparr>mem := m\<rparr>) = txn s"
proof -
  let ?s = "s\<lparr>mem := m\<rparr>"
  have c: "cached ?s = cached s" by (simp add: cached_def fun_eq_iff)
  have b: "buf_of ?s = buf_of s" by (simp add: buf_of_def c fun_eq_iff)
  have f: "bufs ?s = bufs s" "disk ?s = disk s" "curpid ?s = curpid s" by simp_all
  have src: "src_block ?s = src_block s" unfolding src_block_def should_use_mirror_def pbn_error_def by (simp cong: if_cong)
  show v: "view ?s = view s" unfolding view_def b src f by (rule refl)
  show l: "lock_of ?s = lock_of s" unfolding lock_of_def b f by (rule refl)
  show "owns ?s = owns s" unfolding owns_def c f by (rule refl)
  show tb: "txn_blocks ?s = txn_blocks s" by (simp add: txn_blocks_def txn_block_def)
  show h: "home ?s = home s" by (simp add: home_def)
  show "held_blocks ?s = held_blocks s" by (simp add: held_blocks_def l)
  have "binv ?s = binv s" unfolding binv_def uniq_def buf_ok_def lru_def nextp_def prevp_def c src f by (rule refl)
  moreover have "rc ?s = rc s" unfolding rc_def b f by (rule refl)
  moreover have "raid_usable ?s = raid_usable s" unfolding raid_usable_def pbn_error_def by simp
  ultimately show "txn ?s = txn s" unfolding txn_def v l tb h src by (simp add: log_geometry_def)
qed

text \<open>
  A disk as \<^verbatim>\<open>mkfs\<close> lays it out: super block 1, log 2 to 31, inodes from 32, free map 45, data from 46. It holds a root directory
  (inode 1, block 46) and a file of five bytes (inode 2, block 47).
\<close>

definition demo_sb :: superblock where
  "demo_sb = \<lparr>sb_magic = FSMAGIC, sb_size = 2048, sb_nblocks = 2002, sb_ninodes = 200, sb_nlog = 30, sb_logstart = 2,
     sb_inodestart = 32, sb_bmapstart = 45\<rparr>"

definition demo_dinodes :: bytes where
  "demo_dinodes =
     put_dinode (no_inode\<lparr>i_type := T_FILE, i_minor := 3, i_nlink := 1, i_size := 5, i_addrs := (\<lambda>_. 0)(0 := 47)\<rparr>) 128
       (put_dinode (no_inode\<lparr>i_type := T_DIR, i_minor := 3, i_nlink := 1, i_size := 48, i_addrs := (\<lambda>_. 0)(0 := 46)\<rparr>) 64 (\<lambda>_. 0))"

definition demo_root :: bytes where
  "demo_root = blit (blit (mk_dirent (bytes_of_list (str ''.'')) 1) 16 (mk_dirent (bytes_of_list (str ''..'')) 1) 0 16)
     32 (mk_dirent (bytes_of_list (str ''a'')) 2) 0 16"

definition fs_image :: "nat \<Rightarrow> bytes" where
  "fs_image n = blit (\<lambda>_. 0) 0
     (if n = 32 then demo_dinodes else if n = 45 then (\<lambda>i. if i < 6 then 255 else 0) else if n = 46 then demo_root
      else if n = 47 then bytes_of_list (str ''hello'') else (\<lambda>_. 0)) 0 BSIZE"

text \<open>The machine in an operation on that disk; entries 0 and 1 of the inode cache are the directory and the file, locked by the caller.\<close>

definition demo_inode :: "nat \<Rightarrow> inode" where
  "demo_inode i = (get_dinode demo_dinodes (64 * (i + 1)) no_inode)\<lparr>i_dev := ROOTDEV, i_inum := i + 1, i_ref := 1, i_valid := True,
     i_lock := \<lparr>locked = True, lk_pid = 1\<rparr>\<rparr>"

definition demo_fs :: "'a \<Rightarrow> 'a istate_scheme" where
  "demo_fs r = demo_machine (\<lambda>n. fs_image (n mod 2048)) (istate_ext demo_sb (\<lambda>i. if i < 2 then demo_inode i else no_inode) r)"


lemma demo_fs_fields [simp]:
  "sb (demo_fs r) = demo_sb" "inodes (demo_fs r) = (\<lambda>i. if i < 2 then demo_inode i else no_inode)" "istate.more (demo_fs r) = r"
  "procs (demo_fs r) = (\<lambda>_. demo_proc 4096)" "myproc (demo_fs r) = 1" "curpid (demo_fs r) = 1" "mem (demo_fs r) = demo_mem"
  using istate_fields [of "demo_fs r"] by (simp_all add: demo_fs_def)

lemma demo_fs_txn [simp]:
  "txn (demo_fs r)" "lock_of (demo_fs r) = (\<lambda>_. None)" "home (demo_fs r) = {m. m < 2048 \<and> (m < 2 \<or> 32 \<le> m)}"
  "k \<le> 28 \<Longrightarrow> budget k (demo_fs r)" "n < 2048 \<Longrightarrow> view (demo_fs r) n = fs_image n"
proof -
  let ?d = "\<lambda>n. fs_image (n mod 2048)"
  let ?r = "pstate_ext (\<lambda>_. demo_proc 4096) 0 ((\<lambda>_. None)(0 := Some 1)) 2 (Some 0) 0 (istate_ext demo_sb (\<lambda>i. if i < 2 then demo_inode i else no_inode) r)"
  have e: "demo_fs r = (boot ?d ?r)\<lparr>mem := demo_mem\<rparr>" by (simp add: demo_fs_def demo_machine_def)
  have ok: "blk_ok (?d n)" for n by (simp add: blk_ok_def fs_image_def)
  note T = boot_txn [of ?d ?r, OF ok]
  show "txn (demo_fs r)" "lock_of (demo_fs r) = (\<lambda>_. None)"
    using T(1) by (simp_all add: e boot_abs)
  show "home (demo_fs r) = {m. m < 2048 \<and> (m < 2 \<or> 32 \<le> m)}"
    by (auto simp: e home_def boot_fields LOGSIZE_def LOGICAL_DISK_SIZE_def FSSIZE_def)
  show "view (demo_fs r) n = fs_image n" if "n < 2048" 
    using that by (simp add: e boot_abs LOGICAL_DISK_SIZE_def FSSIZE_def)
  show "budget k (demo_fs r)" if "k \<le> 28"
    using that T(4) by (simp add: e budget_def room_def boot_fields NBUF_def)
qed

lemma demo_map: "bmap_blk (demo_fs r) = 45" "free_set (demo_fs r) = {48..<2048}" "map_ok (demo_fs r)"
proof -
  show b: "bmap_blk (demo_fs r) = 45" by (simp add: bmap_blk_def BBLOCK_def demo_sb_def cint_simps)
  have "used (view (demo_fs r) 45) n \<longleftrightarrow> n < 48" if "n < 2048" for n
  proof -
    have "n div 8 < 6 \<longleftrightarrow> n < 48" "n div 8 < 1024" using that by auto
    moreover have "bit (255 :: byte) (n mod 8)"
      using mod_less_divisor [of 8 n] mask_eq_exp_minus_1 [of 8, where 'a = byte] bit_mask_iff [of 8 "n mod 8", where 'a = byte] by simp
    ultimately show ?thesis by (simp add: used_def fs_image_def blit_def BSIZE_def)
  qed
  then show f: "free_set (demo_fs r) = {48..<2048}" by (auto simp: free_set_def b demo_sb_def)
  have "iblocks (demo_fs r) \<subseteq> {32..<45}"
    by (auto simp: iblocks_def IBLOCK_def demo_sb_def IPB_def BSIZE_def cint_simps)
  then show "map_ok (demo_fs r)"
    unfolding map_ok_def f b by (fastforce simp: demo_sb_def LOGICAL_DISK_SIZE_def FSSIZE_def)
qed

section \<open>Properties\<close>

text \<open>C4: \<^verbatim>\<open>balloc\<close> inside a transaction returns the lowest free block of the disk. Afterwards exactly that block is no longer
  free, it is filled with zeros, every other block but the free map has its old contents, both changed blocks are in the log, and no buffer
  stays locked. When no block is free it panics. A double allocation is impossible: the block was free.\<close>

theorem balloc_least_free:
  fixes s :: "'a istate_scheme"
  assumes "txn s" and "map_ok s" and "budget 2 s"
  shows "if free_set s = {} then balloc ROOTDEV s = Inl (Panic ''balloc: out of blocks'')
    else \<exists>b s'. balloc ROOTDEV s = Inr (b, s') \<and> b \<in> free_set s \<and> (\<forall>c \<in> free_set s. b \<le> c) \<and>
      free_set s' = free_set s - {b} \<and> view s' b = (\<lambda>_. 0) \<and> (\<forall>n. n \<noteq> b \<and> n \<noteq> bmap_blk s \<longrightarrow> view s' n = view s n) \<and>
      lock_of s' = lock_of s \<and> txn s' \<and> lh_n s' \<le> lh_n s + 2"
proof (cases "free_set s = {}")
  case True
  then show ?thesis using balloc_full [OF assms] by simp
next
  case False
  define b where "b = (LEAST b. b \<in> free_set s)"
  let ?d = "view s (bmap_blk s)"
  have b: "b \<in> free_set s" "\<forall>c \<in> free_set s. b \<le> c" using False unfolding b_def by (auto intro: LeastI Least_le)
  have q2: "quota 2 2 s" by (rule quota_mono [OF assms(3) [unfolded budget_quota]]) simp_all
  have q: "quota 1 1 s" by (rule quota_mono [OF q2]) simp_all
  obtain s' where 1: "balloc ROOTDEV s = Inr (b, s')" "tx {bmap_blk s, b} s s'" "tframe s s'"
    "view s' = (view s)(bmap_blk s := ?d(b div 8 := ?d (b div 8) OR bmask b), b := (\<lambda>_. 0))"
    using balloc_tx [OF assms(1,2) q q2 False] unfolding b_def by blast
  have "b \<noteq> bmap_blk s" using b assms(2) by (auto simp: map_ok_def)
  moreover have "bmap_blk s' = bmap_blk s" "sb s' = sb s" using tframe_inodes [OF 1(3)] by (simp_all add: bmap_blk_def)
  ultimately have "free_set s' = free_set s - {b}" using 1(4) by (auto simp: free_set_def used_set)
  moreover have "lh_n s' \<le> lh_n s + 2" using tx_lh [OF 1(2) assms(1)] card_insert_le_m1 [of 2 "{b}" "bmap_blk s"] by simp
  ultimately show ?thesis using 1 b False by (auto simp: tx_def)
qed

theorem balloc_least_free_witness:
  "\<exists>s' :: istate. balloc ROOTDEV (demo_fs ()) = Inr (48, s') \<and> view s' 48 = (\<lambda>_. 0)"
proof -
  from balloc_least_free [of "demo_fs ()"] obtain b and s' :: istate where
    b: "balloc ROOTDEV (demo_fs ()) = Inr (b, s')" "b \<in> {48..<2048}" "\<forall>c \<in> {48..<2048}. b \<le> c" "view s' b = (\<lambda>_. 0)"
    by (auto simp: demo_map)
  then have "b \<le> 48" by simp
  then have "b = 48" using b(2) by simp
  with b show ?thesis by blast
qed

text \<open>C17: \<^verbatim>\<open>bfree\<close> of a block of the file system makes exactly that block free and changes no block but the free map; freeing a
  block that is already free panics. So \<^verbatim>\<open>bfree\<close> undoes the change of the free map that \<^verbatim>\<open>balloc\<close> makes.\<close>

theorem bfree_frees_once:
  fixes s :: "'a istate_scheme"
  assumes "txn s" and "map_ok s" and "budget 1 s" and "b < sb_size (sb s)"
  shows "if b \<in> free_set s then bfree ROOTDEV b s = Inl (Panic ''freeing free block'')
    else \<exists>s'. bfree ROOTDEV b s = Inr s' \<and> free_set s' = insert b (free_set s) \<and>
      (\<forall>n. n \<noteq> bmap_blk s \<longrightarrow> view s' n = view s n) \<and> lock_of s' = lock_of s \<and> txn s' \<and> lh_n s' \<le> lh_n s + 1"
proof -
  have f: "b \<in> free_set s \<longleftrightarrow> \<not> used (view s (bmap_blk s)) b" using assms(4) by (simp add: free_set_def)
  have bu: "budget (Suc 0) s" using assms(3) by simp
  note B = bfree_tx [OF assms(1,2) bu assms(4)]
  show ?thesis
  proof (cases "b \<in> free_set s")
    case False
    then obtain s' where 1: "bfree ROOTDEV b s = Inr s'" "tx {bmap_blk s} s s'" "tframe s s'"
      "view s' = (view s)(bmap_blk s := (view s (bmap_blk s))(b div 8 := view s (bmap_blk s) (b div 8) AND NOT (bmask b)))"
      using B f by auto
    have "bmap_blk s' = bmap_blk s" "sb s' = sb s" using tframe_inodes [OF 1(3)] by (simp_all add: bmap_blk_def)
    then have "free_set s' = insert b (free_set s)" using 1(4) assms(4) by (auto simp: free_set_def used_clear)
    moreover have "lh_n s' \<le> lh_n s + 1" using tx_lh [OF 1(2) assms(1)] by simp
    ultimately show ?thesis using 1 False by (auto simp: tx_def)
  qed (use B f in auto)
qed

theorem bfree_frees_once_witness:
  "(\<exists>s' :: istate. bfree ROOTDEV 47 (demo_fs ()) = Inr s' \<and> free_set s' = {47..<2048}) \<and>
   bfree ROOTDEV 48 (demo_fs ()) = Inl (Panic ''freeing free block'')"
proof
  have "insert 47 {48..<2048} = {47..<2048 :: nat}" by auto
  then show "\<exists>s' :: istate. bfree ROOTDEV 47 (demo_fs ()) = Inr s' \<and> free_set s' = {47..<2048}"
    using bfree_frees_once [of "demo_fs ()" 47] by (auto simp: demo_map demo_sb_def)
  show "bfree ROOTDEV 48 (demo_fs ()) = Inl (Panic ''freeing free block'')"
    using bfree_frees_once [of "demo_fs ()" 48] by (simp add: demo_map demo_sb_def)
qed

end
