(* ===== verification/InodeDisk.thy ===== *)
theory InodeDisk
  imports FreeMap
begin

text \<open>
  Inodes of \<^verbatim>\<open>fs.c\<close>: the on-disk encoding, \<^verbatim>\<open>iupdate\<close> and \<^verbatim>\<open>ilock\<close> as the two directions of its round trip, and the inode cache with
  its reference counts. The cache is described by \<open>refs\<close>, the number of references to each inode; \<^verbatim>\<open>iget\<close>, \<^verbatim>\<open>idup\<close> and \<^verbatim>\<open>iput\<close> change
  exactly one of these numbers by one.
\<close>

section \<open>On-disk inodes\<close>

lemma put_addrs_outside: "i < off \<or> off + 4 * k \<le> i \<Longrightarrow> put_addrs k a off d i = d i"
  by (induction k) (auto simp: put_le_outside)

lemma get_put_addrs:
  "j < k \<Longrightarrow> a j < 4294967296 \<Longrightarrow> get_le (put_addrs k a off d) (off + 4 * j) 4 = a j"
proof (induction k)
  case (Suc k)
  then show ?case by (cases "j = k") (auto simp: get_put_le get_put_le_other)
qed simp

lemma get_put_addrs_other: "off' + n \<le> off \<or> off + 4 * k \<le> off' \<Longrightarrow> get_le (put_addrs k a off d) off' n = get_le d off' n"
  by (rule get_le_cong) (auto simp: put_addrs_outside)

definition is_short :: "int \<Rightarrow> bool" where
  "is_short v \<longleftrightarrow> -32768 \<le> v \<and> v < 32768"

text \<open>The C types of the fields.\<close>

definition inode_ok :: "inode \<Rightarrow> bool" where
  "inode_ok ip \<longleftrightarrow> is_short (i_type ip) \<and> is_short (i_major ip) \<and> is_short (i_minor ip) \<and> is_short (i_nlink ip) \<and>
     i_size ip < 4294967296 \<and> (\<forall>k \<le> NDIRECT. i_addrs ip k < 4294967296)"

definition same_dinode :: "inode \<Rightarrow> inode \<Rightarrow> bool" where
  "same_dinode x y \<longleftrightarrow> i_type x = i_type y \<and> i_major x = i_major y \<and> i_minor x = i_minor y \<and> i_nlink x = i_nlink y \<and>
     i_size x = i_size y \<and> (\<forall>k \<le> NDIRECT. i_addrs x k = i_addrs y k)"

lemma short_of_int_less: "short_of_int v < 65536"
  by (simp add: short_of_int_def nat_less_iff)

lemma get_put_short: "is_short v \<Longrightarrow> get_short (put_short v off d) off = v"
  by (simp add: get_short_def put_short_def get_put_le short_of_int_less short_roundtrip is_short_def)

lemma get_short_put_short_other: "off + 2 \<le> off' \<or> off' + 2 \<le> off \<Longrightarrow> get_short (put_short v off d) off' = get_short d off'"
  by (simp add: get_short_def put_short_def get_put_le_other)

lemma get_short_put_le_other: "off + n \<le> off' \<or> off' + 2 \<le> off \<Longrightarrow> get_short (put_le d off n v) off' = get_short d off'"
  by (simp add: get_short_def get_put_le_other)

lemma get_short_put_addrs_other: "off' + 2 \<le> off \<or> off + 4 * k \<le> off' \<Longrightarrow> get_short (put_addrs k a off d) off' = get_short d off'"
  by (simp add: get_short_def get_put_addrs_other)

lemmas dinode_simps = get_put_short get_short_put_short_other get_short_put_le_other get_short_put_addrs_other get_put_le
  get_put_addrs_other

lemma get_put_dinode:
  assumes "inode_ok ip"
  shows "same_dinode (get_dinode (put_dinode ip off d) off jp) ip"
proof -
  have a: "get_le (put_dinode ip off d) (off + 12 + 4 * k) 4 = i_addrs ip k" if "k \<le> NDIRECT" for k
    using that assms by (simp add: put_dinode_def Let_def inode_ok_def del: put_addrs.simps) (rule get_put_addrs, simp_all)
  show ?thesis
    using assms a by (simp add: same_dinode_def get_dinode_def)
      (simp add: put_dinode_def Let_def inode_ok_def dinode_simps del: put_addrs.simps)
qed

lemma put_dinode_outside: "i < off \<or> off + 64 \<le> i \<Longrightarrow> put_dinode ip off d i = d i"
  by (auto simp: put_dinode_def Let_def put_addrs_outside put_le_outside put_short_def NDIRECT_def simp del: put_addrs.simps)

lemma get_dinode_cong:
  assumes "\<And>i. off \<le> i \<Longrightarrow> i < off + 64 \<Longrightarrow> d i = d' i"
  shows "get_dinode d off ip = get_dinode d' off ip"
proof -
  have "get_le d o' n = get_le d' o' n" if "off \<le> o'" "o' + n \<le> off + 64" for o' n
    using that assms by (intro get_le_cong) simp
  then show ?thesis by (simp add: get_dinode_def get_short_def NDIRECT_def cong: if_cong)
qed

section \<open>Writing and reading inodes\<close>

lemma dinode_off_less: "dinode_off inum + 64 \<le> BSIZE"
proof -
  have "inum mod 16 < 16" by simp
  then show ?thesis unfolding dinode_off_def IPB_def BSIZE_def by simp
qed

lemma dinode_off_apart:
  assumes "IBLOCK i sblk = IBLOCK j sblk" and "i < 65536" and "j < 65536" and "sb_inodestart sblk < LOGICAL_DISK_SIZE" and "i \<noteq> j"
  shows "dinode_off i + 64 \<le> dinode_off j \<or> dinode_off j + 64 \<le> dinode_off i"
proof -
  have "i div 16 = j div 16" using assms by (simp add: IBLOCK_def IPB_def BSIZE_def LOGICAL_DISK_SIZE_def FSSIZE_def cint_simps)
  then have "i mod 16 \<noteq> j mod 16" using assms(5) by (metis div_mult_mod_eq)
  then show ?thesis by (auto simp: dinode_off_def IPB_def BSIZE_def)
qed

lemma blk_ok_put_dinode: "blk_ok d \<Longrightarrow> blk_ok (put_dinode ip (dinode_off inum) d)"
  using dinode_off_less [of inum] by (auto simp: blk_ok_def put_dinode_outside)

lemma iupdate_tx:
  fixes s :: "'a istate_scheme"
  assumes t: "txn s" and bu: "budget (Suc k) s" and dev: "i_dev (inodes s ip) = ROOTDEV"
  defines "n \<equiv> IBLOCK (i_inum (inodes s ip)) (sb s)"
  assumes n: "n \<in> home s" "lock_of s n = None"
  shows "\<exists>s'. iupdate ip s = Inr s' \<and> tx {n} s s' \<and> tframe s s' \<and>
    view s' = (view s)(n := put_dinode (inodes s ip) (dinode_off (i_inum (inodes s ip))) (view s n))"
proof -
  have l: "n < LOGICAL_DISK_SIZE" using n(1) by (simp add: home_def)
  obtain b s1 where 1: "bread ROOTDEV n s = Inr (b, s1)" and h: "held s n b s1" using bread_held [OF t n(2) l bu] by blast
  note H = h [unfolded held_def] and F = held_fields [OF h]
  let ?d = "put_dinode (inodes s ip) (dinode_off (i_inum (inodes s ip))) (view s n)"
  have ok: "blk_ok ?d" using t by (intro blk_ok_put_dinode) (simp add: txn_def)
  have "tx {} s1 s1" "can_log s1" using H bu F by (simp_all add: tx_refl budget_def can_log_def)
  from held_update [OF t h n(2) this(1) n(1) this(2) ok] obtain s2 where 2:
    "bindE (log_write b (set_bdata b ?d s1)) (brelse b) = Inr s2" "tx {n} s s2" "tframe s1 s2" "view s2 = (view s)(n := ?d)"
    using H by auto
  have "tframe s s2" using frame_tframe tframe_trans 2(3) H by blast
  moreover have "iupdate ip s = Inr s2" using 1 2(1) H F dev by (simp add: iupdate_def Let_def n_def)
  ultimately show ?thesis using 2 by blast
qed

text \<open>The entry of an inode that is not yet valid is filled from the disk.\<close>

lemma ilock_load:
  fixes s :: "'a istate_scheme"
  assumes t: "txn s" and bu: "budget k s" and dev: "i_dev (inodes s ip) = ROOTDEV"
  defines "n \<equiv> IBLOCK (i_inum (inodes s ip)) (sb s)"
  defines "x \<equiv> get_dinode (view s n) (dinode_off (i_inum (inodes s ip))) (inodes s ip)"
  assumes n: "n < LOGICAL_DISK_SIZE" "lock_of s n = None"
    and ip: "1 \<le> i_ref (inodes s ip)" "\<not> locked (i_lock (inodes s ip))" "\<not> i_valid (inodes s ip)"
  shows "if i_type x = 0 then ilock (Some ip) s = Inl (Panic ''ilock: no type'')
    else \<exists>s'. ilock (Some ip) s = Inr s' \<and> tx {} s s' \<and>
      inodes s' = (inodes s)(ip := x\<lparr>i_valid := True, i_lock := \<lparr>locked = True, lk_pid = curpid s\<rparr>\<rparr>)"
proof -
  let ?lk = "\<lparr>locked = True, lk_pid = curpid s\<rparr>"
  let ?s0 = "upd_inode ip (\<lambda>x. x\<lparr>i_lock := ?lk\<rparr>) s"
  have a: "acquiresleep (curpid s) (i_lock (inodes s ip)) = Inr ?lk" using ip(2) by (simp add: acquiresleep_def)
  have t0: "txn ?s0" "budget k ?s0" "lock_of ?s0 n = None" "view ?s0 = view s" using t bu n by simp_all
  obtain b s1 where 1: "bread ROOTDEV n ?s0 = Inr (b, s1)" and h: "held ?s0 n b s1" using bread_held [OF t0(1,3) n(1) t0(2)] by blast
  note H = h [unfolded held_def] and F = held_fields [OF h]
  let ?s2 = "upd_inode ip (get_dinode (view s n) (dinode_off (i_inum (inodes s ip)))) s1"
  have "tx {} s1 ?s2" using H by (intro tx_upd_inode) (simp add: tx_refl)
  from held_release [OF t0(1) h t0(3) this] obtain s3 where 3: "brelse b ?s2 = Inr s3" "tx {} ?s0 s3" "tframe ?s2 s3" by auto
  have i3: "inodes s3 = inodes ?s2" using tframe_inodes [OF 3(3)] by simp
  let ?s4 = "upd_inode ip (\<lambda>x. x\<lparr>i_valid := True\<rparr>) s3"
  have i4: "inodes ?s4 = (inodes s)(ip := x\<lparr>i_valid := True, i_lock := ?lk\<rparr>)"
    using F(1) by (cases "inodes s ip") (simp add: i3 x_def get_dinode_def cong: if_cong)
  have ty: "i_type (inodes s3 ip) = i_type x" using arg_cong [OF fun_cong [OF i4, of ip], of i_type] by simp
  have "tx {} s ?s0" using t by (intro tx_upd_inode) (simp add: tx_refl)
  then have "tx {} s ?s4" using tx_upd_inode [OF tx_trans [OF _ 3(2)]] by simp
  moreover have "ilock (Some ip) s = (if i_type x = 0 then Inl (Panic ''ilock: no type'') else Inr ?s4)"
    using a ip dev 1 F(1,2) H 3(1) ty by (simp add: ilock_def n_def [symmetric] Let_def)
  ultimately show ?thesis using i4 by auto
qed

section \<open>The inode cache\<close>

text \<open>At most one entry in use for each inode, and the entries in use count their references.\<close>

definition in_use :: "inode \<Rightarrow> nat \<Rightarrow> nat \<Rightarrow> bool" where
  "in_use x dev inum \<longleftrightarrow> 0 < i_ref x \<and> i_dev x = dev \<and> i_inum x = inum"

definition icache_ok :: "(nat \<Rightarrow> inode) \<Rightarrow> bool" where
  "icache_ok tab \<longleftrightarrow> (\<forall>i < NINODE. 0 \<le> i_ref (tab i)) \<and>
     (\<forall>i < NINODE. \<forall>j < NINODE. \<forall>dev inum. in_use (tab i) dev inum \<longrightarrow> in_use (tab j) dev inum \<longrightarrow> i = j)"

text \<open>The number of references to an inode that the cache counts.\<close>

definition refs :: "(nat \<Rightarrow> inode) \<Rightarrow> nat \<Rightarrow> nat \<Rightarrow> int" where
  "refs tab dev inum = (\<Sum>i < NINODE. if in_use (tab i) dev inum then i_ref (tab i) else 0)"

lemma iget_scan_spec:
  "case iget_scan k i slot dev inum tab of
     Inl ip \<Rightarrow> i \<le> ip \<and> ip < i + k \<and> in_use (tab ip) dev inum
   | Inr r \<Rightarrow> (\<forall>j. i \<le> j \<longrightarrow> j < i + k \<longrightarrow> \<not> in_use (tab j) dev inum) \<and>
       (case r of None \<Rightarrow> slot = None \<and> (\<forall>j. i \<le> j \<longrightarrow> j < i + k \<longrightarrow> i_ref (tab j) \<noteq> 0)
        | Some e \<Rightarrow> slot = Some e \<or> (slot = None \<and> i \<le> e \<and> e < i + k \<and> i_ref (tab e) = 0))"
proof (induction k arbitrary: i slot)
  case (Suc k)
  let ?slot = "if slot = None \<and> i_ref (tab i) = 0 then Some i else slot"
  have ex: "(\<forall>j. i \<le> j \<longrightarrow> j < i + Suc k \<longrightarrow> P j) \<longleftrightarrow> P i \<and> (\<forall>j. Suc i \<le> j \<longrightarrow> j < Suc i + k \<longrightarrow> P j)" for P
  proof
    assume "P i \<and> (\<forall>j. Suc i \<le> j \<longrightarrow> j < Suc i + k \<longrightarrow> P j)"
    then show "\<forall>j. i \<le> j \<longrightarrow> j < i + Suc k \<longrightarrow> P j" by (metis Suc_leI add_Suc add_Suc_right le_neq_implies_less)
  qed simp
  show ?case
  proof (cases "in_use (tab i) dev inum")
    case False
    then have "iget_scan (Suc k) i slot dev inum tab = iget_scan k (Suc i) ?slot dev inum tab"
      by (auto simp: in_use_def Let_def)
    then show ?thesis
      using Suc.IH [of "Suc i" ?slot] False unfolding ex by (auto split: sum.splits option.splits if_splits)
  qed (simp add: in_use_def)
qed (auto split: option.splits)

lemma refs_upd:
  assumes "ip < NINODE"
  shows "refs (tab(ip := x)) dev inum = refs tab dev inum - (if in_use (tab ip) dev inum then i_ref (tab ip) else 0)
    + (if in_use x dev inum then i_ref x else 0)"
proof -
  have f: "finite {..<NINODE}" "ip \<in> {..<NINODE}" using assms by simp_all
  show ?thesis unfolding refs_def sum.remove [OF f] by (simp cong: if_cong)
qed

text \<open>Changing the count of an entry, and claiming a free one.\<close>

lemma icache_upd:
  assumes "icache_ok tab" and "ip < NINODE" and "0 \<le> i_ref x"
    and "\<And>dev inum i. in_use x dev inum \<Longrightarrow> i < NINODE \<Longrightarrow> i \<noteq> ip \<Longrightarrow> \<not> in_use (tab i) dev inum"
  shows "icache_ok (tab(ip := x))"
proof -
  have u: "i = j" if "i < NINODE" "j < NINODE" "in_use ((tab(ip := x)) i) dev inum" "in_use ((tab(ip := x)) j) dev inum" for i j dev inum
    using that assms(1) assms(4) [of dev inum] unfolding icache_ok_def by (cases "i = ip"; cases "j = ip"; simp; blast)
  have "0 \<le> i_ref ((tab(ip := x)) i)" if "i < NINODE" for i
    using that assms(1,3) by (simp add: icache_ok_def)
  then show ?thesis unfolding icache_ok_def using u by blast
qed

lemma iget_cases:
  assumes "icache_ok (inodes s)"
  obtains (hit) ip where "ip < NINODE" "in_use (inodes s ip) dev inum" "iget dev inum s = Inr (ip, idup ip s)"
  | (new) ip where "ip < NINODE" "i_ref (inodes s ip) = 0" "\<And>i. i < NINODE \<Longrightarrow> \<not> in_use (inodes s i) dev inum"
      "iget dev inum s = Inr (ip, upd_inode ip (\<lambda>x. x\<lparr>i_dev := dev, i_inum := inum, i_ref := 1, i_valid := False\<rparr>) s)"
  | (full) "iget dev inum s = Inl (Panic ''iget: no inodes'')" "\<And>i. i < NINODE \<Longrightarrow> \<not> in_use (inodes s i) dev inum \<and> i_ref (inodes s i) \<noteq> 0"
proof -
  note S = iget_scan_spec [where k = NINODE and i = 0 and slot = None and dev = dev and inum = inum and tab = "inodes s"]
  show thesis
  proof (cases "iget_scan NINODE 0 None dev inum (inodes s)")
    case (Inl ip)
    then show thesis using S by (intro hit [of ip]) (simp_all add: iget_def idup_def)
  next
    case (Inr r)
    then show thesis
    proof (cases r)
      case None
      then show thesis using S Inr by (intro full) (simp_all add: iget_def)
    next
      case (Some ip)
      then show thesis using S Inr by (intro new [of ip]) (simp_all add: iget_def)
    qed
  qed
qed

lemma idup_refs:
  assumes "icache_ok (inodes s)" and "ip < NINODE" and "in_use (inodes s ip) dev inum"
  shows "icache_ok (inodes (idup ip s))" and "in_use (inodes (idup ip s) ip) dev inum"
    and "refs (inodes (idup ip s)) d i = refs (inodes s) d i + (if (d, i) = (dev, inum) then 1 else 0)"
proof -
  let ?x = "(inodes s ip)\<lparr>i_ref := i_ref (inodes s ip) + 1\<rparr>"
  have e: "inodes (idup ip s) = (inodes s)(ip := ?x)" by (simp add: idup_def)
  have u: "in_use ?x d i \<longleftrightarrow> in_use (inodes s ip) d i" for d i using assms(3) by (auto simp: in_use_def)
  have "icache_ok ((inodes s)(ip := ?x))"
    by (rule icache_upd [OF assms(1,2)]) (use assms in \<open>auto simp: u icache_ok_def\<close>)
  then show "icache_ok (inodes (idup ip s))" by (simp only: e)
  show "in_use (inodes (idup ip s) ip) dev inum" using assms(3) by (simp add: e u)
  show "refs (inodes (idup ip s)) d i = refs (inodes s) d i + (if (d, i) = (dev, inum) then 1 else 0)"
    unfolding e refs_upd [OF assms(2)] u using assms(3) by (auto simp: in_use_def)
qed

lemma iclaim_refs:
  assumes "icache_ok (inodes s)" and "ip < NINODE" and "i_ref (inodes s ip) = 0" and "\<And>i. i < NINODE \<Longrightarrow> \<not> in_use (inodes s i) dev inum"
  defines "s' \<equiv> upd_inode ip (\<lambda>x. x\<lparr>i_dev := dev, i_inum := inum, i_ref := 1, i_valid := False\<rparr>) s"
  shows "icache_ok (inodes s')" and "in_use (inodes s' ip) dev inum"
    and "refs (inodes s') d i = refs (inodes s) d i + (if (d, i) = (dev, inum) then 1 else 0)"
proof -
  let ?x = "(inodes s ip)\<lparr>i_dev := dev, i_inum := inum, i_ref := 1, i_valid := False\<rparr>"
  have e: "inodes s' = (inodes s)(ip := ?x)" by (simp add: s'_def)
  have u: "in_use ?x d i \<longleftrightarrow> (d, i) = (dev, inum)" for d i by (auto simp: in_use_def)
  have "icache_ok ((inodes s)(ip := ?x))"
    by (rule icache_upd [OF assms(1,2)]) (use assms(4) in \<open>auto simp: u\<close>)
  then show "icache_ok (inodes s')" by (simp only: e)
  show "in_use (inodes s' ip) dev inum" by (simp add: e u)
  show "refs (inodes s') d i = refs (inodes s) d i + (if (d, i) = (dev, inum) then 1 else 0)"
    unfolding e refs_upd [OF assms(2)] u using assms(3) by (auto simp: in_use_def)
qed

lemma iput_refs:
  fixes s :: "'a istate_scheme"
  assumes "icache_ok (inodes s)" and "ip < NINODE" and "in_use (inodes s ip) dev inum"
    and "\<not> (i_ref (inodes s ip) = 1 \<and> i_valid (inodes s ip) \<and> i_nlink (inodes s ip) = 0)"
  shows "\<exists>s'. iput ip s = Inr s' \<and> icache_ok (inodes s') \<and>
    (\<forall>d i. refs (inodes s') d i = refs (inodes s) d i - (if (d, i) = (dev, inum) then 1 else 0))"
proof -
  let ?x = "(inodes s ip)\<lparr>i_ref := i_ref (inodes s ip) - 1\<rparr>"
  let ?s = "upd_inode ip (\<lambda>x. x\<lparr>i_ref := i_ref x - 1\<rparr>) s"
  have u: "in_use ?x d i \<longleftrightarrow> in_use (inodes s ip) d i \<and> 1 < i_ref (inodes s ip)" for d i by (auto simp: in_use_def)
  have "icache_ok ((inodes s)(ip := ?x))"
    by (rule icache_upd [OF assms(1,2)]) (use assms in \<open>auto simp: u icache_ok_def in_use_def\<close>)
  moreover have "refs ((inodes s)(ip := ?x)) d i = refs (inodes s) d i - (if (d, i) = (dev, inum) then 1 else 0)" for d i
    unfolding refs_upd [OF assms(2)] u using assms(3) by (auto simp: in_use_def)
  moreover have "iput ip s = Inr ?s" unfolding iput_def if_not_P [OF assms(4)] by simp
  ultimately show ?thesis by simp
qed

lemma iget_unique:
  assumes "icache_ok (inodes s)"
  shows "case iget dev inum s of
      Inr (ip, s') \<Rightarrow> ip < NINODE \<and> in_use (inodes s' ip) dev inum \<and> icache_ok (inodes s') \<and>
        (\<forall>d i. refs (inodes s') d i = refs (inodes s) d i + (if (d, i) = (dev, inum) then 1 else 0)) \<and>
        (\<not> in_use (inodes s ip) dev inum \<longrightarrow> \<not> i_valid (inodes s' ip))
    | Inl e \<Rightarrow> e = Panic ''iget: no inodes'' \<and> (\<forall>i < NINODE. \<not> in_use (inodes s i) dev inum \<and> i_ref (inodes s i) \<noteq> 0)"
  using assms
proof (cases rule: iget_cases [where dev = dev and inum = inum])
  case (hit ip)
  then show ?thesis using idup_refs [OF assms hit(1,2)] by simp
next
  case (new ip)
  then show ?thesis using iclaim_refs [OF assms new(1-3)] by simp
next
  case full
  then show ?thesis by simp
qed

section \<open>The inodes of the small file system\<close>

lemma inode_ok_get: "inode_ok (get_dinode d off x)"
proof -
  have "is_short (int_of_short v)" if "v < 65536" for v using that by (simp add: is_short_def int_of_short_def)
  then show ?thesis by (simp add: inode_ok_def get_dinode_def get_short_def)
qed

lemma inode_ok_upd [simp]:
  "inode_ok (x\<lparr>i_dev := a\<rparr>) = inode_ok x" "inode_ok (x\<lparr>i_inum := b\<rparr>) = inode_ok x" "inode_ok (x\<lparr>i_ref := c\<rparr>) = inode_ok x"
  "inode_ok (x\<lparr>i_valid := d\<rparr>) = inode_ok x" "inode_ok (x\<lparr>i_lock := e\<rparr>) = inode_ok x"
  by (simp_all add: inode_ok_def)

lemma demo_inode_fields:
  "inode_ok (demo_inode i)" "i_dev (demo_inode i) = ROOTDEV" "i_inum (demo_inode i) = i + 1" "i_ref (demo_inode i) = 1"
  "i_valid (demo_inode i)" "i_lock (demo_inode i) = \<lparr>locked = True, lk_pid = 1\<rparr>"
  "i_type (demo_inode 1) = T_FILE" "i_size (demo_inode 1) = 5" "k \<le> NDIRECT \<Longrightarrow> i_addrs (demo_inode 1) k = (if k = 0 then 47 else 0)"
  "i_type (demo_inode 0) = T_DIR" "i_size (demo_inode 0) = 48" "k \<le> NDIRECT \<Longrightarrow> i_addrs (demo_inode 0) k = (if k = 0 then 46 else 0)"
proof -
  show "inode_ok (demo_inode i)" "i_dev (demo_inode i) = ROOTDEV" "i_inum (demo_inode i) = i + 1" "i_ref (demo_inode i) = 1"
    "i_valid (demo_inode i)" "i_lock (demo_inode i) = \<lparr>locked = True, lk_pid = 1\<rparr>"
    by (simp_all add: demo_inode_def inode_ok_get)
  let ?f = "no_inode\<lparr>i_type := T_FILE, i_minor := 3, i_nlink := 1, i_size := 5, i_addrs := (\<lambda>_. 0)(0 := 47)\<rparr>"
  let ?r = "no_inode\<lparr>i_type := T_DIR, i_minor := 3, i_nlink := 1, i_size := 48, i_addrs := (\<lambda>_. 0)(0 := 46)\<rparr>"
  have ok: "inode_ok ?f" "inode_ok ?r" by (simp_all add: inode_ok_def is_short_def no_inode_def T_FILE_def T_DIR_def)
  have "same_dinode (demo_inode 1) ?f"
    using get_put_dinode [OF ok(1), of 128 _ no_inode] unfolding demo_inode_def demo_dinodes_def same_dinode_def by simp
  then show "i_type (demo_inode 1) = T_FILE" "i_size (demo_inode 1) = 5" "k \<le> NDIRECT \<Longrightarrow> i_addrs (demo_inode 1) k = (if k = 0 then 47 else 0)"
    by (simp_all add: same_dinode_def)
  have "get_dinode demo_dinodes 64 no_inode = get_dinode (put_dinode ?r 64 (\<lambda>_. 0)) 64 no_inode"
    unfolding demo_dinodes_def by (rule get_dinode_cong) (simp add: put_dinode_outside)
  then have "same_dinode (demo_inode 0) ?r"
    using get_put_dinode [OF ok(2), of 64 "\<lambda>_. 0" no_inode] unfolding demo_inode_def same_dinode_def by simp
  then show "i_type (demo_inode 0) = T_DIR" "i_size (demo_inode 0) = 48" "k \<le> NDIRECT \<Longrightarrow> i_addrs (demo_inode 0) k = (if k = 0 then 46 else 0)"
    by (simp_all add: same_dinode_def)
qed

lemma demo_icache: "icache_ok (inodes (demo_fs r))" "in_use (inodes (demo_fs r) 1) ROOTDEV 2"
  "in_use (inodes (demo_fs r) i) ROOTDEV 2 \<longleftrightarrow> i = 1"
proof -
  have u: "in_use (inodes (demo_fs r) i) dev inum \<longleftrightarrow> i < 2 \<and> dev = ROOTDEV \<and> inum = i + 1" for i dev inum
    by (auto simp: in_use_def demo_inode_fields no_inode_def)
  show "icache_ok (inodes (demo_fs r))" unfolding icache_ok_def u by (auto simp: demo_inode_fields no_inode_def)
  show "in_use (inodes (demo_fs r) 1) ROOTDEV 2" "in_use (inodes (demo_fs r) i) ROOTDEV 2 \<longleftrightarrow> i = 1"
    unfolding u by auto
qed

lemma demo_iget: "iget ROOTDEV 2 (demo_fs r) = Inr (1, idup 1 (demo_fs r))"
proof -
  have n: "1 < NINODE" by (simp add: NINODE_def)
  from demo_icache(1) [of r] show ?thesis
  proof (cases rule: iget_cases [where dev = ROOTDEV and inum = 2])
    case (hit ip)
    then show ?thesis using demo_icache(3) [of r ip] by simp
  next
    case (new ip)
    then show ?thesis using demo_icache(2) [of r] n by blast
  next
    case full
    then show ?thesis using demo_icache(2) [of r] n by blast
  qed
qed

section \<open>Properties\<close>

text \<open>C20: The inode cache holds each inode at most once, and its reference counts are exact. From a consistent cache \<^verbatim>\<open>iget\<close> returns an
  entry for the inode, gives the inode one more reference and every other inode the same number as before, and keeps the cache consistent;
  an entry that it recycles is marked as not yet read. It panics exactly when the inode is not cached and every entry is referenced.\<close>

theorem iget_unique_entry:
  assumes "icache_ok (inodes s)"
  shows "case iget dev inum s of
      Inr (ip, s') \<Rightarrow> ip < NINODE \<and> in_use (inodes s' ip) dev inum \<and> icache_ok (inodes s') \<and>
        (\<forall>d i. refs (inodes s') d i = refs (inodes s) d i + (if (d, i) = (dev, inum) then 1 else 0)) \<and>
        (\<not> in_use (inodes s ip) dev inum \<longrightarrow> \<not> i_valid (inodes s' ip))
    | Inl e \<Rightarrow> e = Panic ''iget: no inodes'' \<and> (\<forall>i < NINODE. \<not> in_use (inodes s i) dev inum \<and> i_ref (inodes s i) \<noteq> 0)"
  by (rule iget_unique [OF assms])

theorem iget_unique_entry_witness:
  "\<exists>s' :: istate. iget ROOTDEV 2 (demo_fs ()) = Inr (1, s') \<and> refs (inodes s') ROOTDEV 2 = refs (inodes (demo_fs () :: istate)) ROOTDEV 2 + 1"
  using iget_unique_entry [OF demo_icache(1) [of "()"], of ROOTDEV 2] unfolding demo_iget by simp

text \<open>Dropping a reference that is not the last one to an unlinked inode undoes taking one: after \<^verbatim>\<open>iget\<close>, \<^verbatim>\<open>iput\<close>
  of the entry returns, and every inode again has the number of references it had at first.\<close>

theorem iget_iput_refs:
  assumes "icache_ok (inodes s)" and "iget dev inum s = Inr (ip, s1)"
    and "\<not> (i_ref (inodes s1 ip) = 1 \<and> i_valid (inodes s1 ip) \<and> i_nlink (inodes s1 ip) = 0)"
  shows "\<exists>s2. iput ip s1 = Inr s2 \<and> icache_ok (inodes s2) \<and> refs (inodes s2) = refs (inodes s)"
proof -
  have 1: "ip < NINODE" "in_use (inodes s1 ip) dev inum" "icache_ok (inodes s1)"
    "\<And>d i. refs (inodes s1) d i = refs (inodes s) d i + (if (d, i) = (dev, inum) then 1 else 0)"
    using iget_unique [OF assms(1), of dev inum] assms(2) by simp_all
  from iput_refs [OF 1(3,1,2) assms(3)] show ?thesis using 1(4) by (auto simp: fun_eq_iff)
qed

theorem iget_iput_refs_witness:
  "\<exists>(s1 :: istate) s2. iget ROOTDEV 2 (demo_fs ()) = Inr (1, s1) \<and> iput 1 s1 = Inr s2 \<and> refs (inodes s2) = refs (inodes (demo_fs () :: istate))"
proof -
  have "i_ref (inodes (idup 1 (demo_fs () :: istate)) 1) = 2" by (simp add: idup_def demo_inode_fields)
  then show ?thesis using iget_iput_refs [OF demo_icache(1) demo_iget [of "()"]] demo_iget [of "()"] by auto
qed

text \<open>C19: \<^verbatim>\<open>iupdate\<close> and \<^verbatim>\<open>ilock\<close> are inverse to each other. \<^verbatim>\<open>iupdate\<close> of an inode returns, changes its inode block only,
  and leaves the on-disk inodes of all other numbers as they were. Whenever that block is later loaded by \<^verbatim>\<open>ilock\<close>, into whatever cache entry
  then stands for the inode, the entry has the type, device numbers, link count, size and block addresses that were written.\<close>

theorem iupdate_ilock_roundtrip:
  fixes s :: "'a istate_scheme"
  assumes "txn s" and "budget 1 s" and "i_dev (inodes s ip) = ROOTDEV" and "inode_ok (inodes s ip)" and "i_type (inodes s ip) \<noteq> 0"
    and "sb_inodestart (sb s) < LOGICAL_DISK_SIZE" and "i_inum (inodes s ip) < 65536"
  defines "inum \<equiv> i_inum (inodes s ip)" and "n \<equiv> IBLOCK (i_inum (inodes s ip)) (sb s)"
  assumes "n \<in> home s" and "lock_of s n = None"
  shows "\<exists>s'. iupdate ip s = Inr s' \<and> (\<forall>m. m \<noteq> n \<longrightarrow> view s' m = view s m) \<and>
    (\<forall>j x. j < 65536 \<and> j \<noteq> inum \<longrightarrow>
      get_dinode (view s' (IBLOCK j (sb s))) (dinode_off j) x = get_dinode (view s (IBLOCK j (sb s))) (dinode_off j) x) \<and>
    (\<forall>(t :: 'a istate_scheme) jp. txn t \<and> budget 0 t \<and> sb t = sb s \<and> lock_of t n = None \<and> view t n = view s' n \<and>
      i_dev (inodes t jp) = ROOTDEV \<and> i_inum (inodes t jp) = inum \<and> 1 \<le> i_ref (inodes t jp) \<and> \<not> i_valid (inodes t jp) \<and>
      \<not> locked (i_lock (inodes t jp)) \<longrightarrow>
      (\<exists>t'. ilock (Some jp) t = Inr t' \<and> same_dinode (inodes t' jp) (inodes s ip)))"
proof -
  have bu: "budget (Suc 0) s" using assms(2) by simp
  have n: "n < LOGICAL_DISK_SIZE" using assms(10) by (simp add: home_def)
  let ?d = "put_dinode (inodes s ip) (dinode_off inum) (view s n)"
  obtain s' where 1: "iupdate ip s = Inr s'" "view s' = (view s)(n := ?d)"
    using iupdate_tx [OF assms(1) bu assms(3)] assms(10,11) by (auto simp: n_def inum_def)
  have other: "get_dinode (view s' (IBLOCK j (sb s))) (dinode_off j) x = get_dinode (view s (IBLOCK j (sb s))) (dinode_off j) x"
    if "j < 65536" "j \<noteq> inum" for j x
  proof (cases "IBLOCK j (sb s) = n")
    case True
    then have "dinode_off j + 64 \<le> dinode_off inum \<or> dinode_off inum + 64 \<le> dinode_off j"
      using that assms(6,7) by (intro dinode_off_apart) (simp_all add: n_def inum_def)
    then have "get_dinode ?d (dinode_off j) x = get_dinode (view s n) (dinode_off j) x"
      by (intro get_dinode_cong put_dinode_outside) auto
    then show ?thesis using True 1(2) by simp
  qed (simp add: 1(2))
  have load: "\<exists>t'. ilock (Some jp) t = Inr t' \<and> same_dinode (inodes t' jp) (inodes s ip)"
    if t: "txn t" "budget 0 t" "sb t = sb s" "lock_of t n = None" "view t n = view s' n" "i_dev (inodes t jp) = ROOTDEV"
      "i_inum (inodes t jp) = inum" "1 \<le> i_ref (inodes t jp)" "\<not> i_valid (inodes t jp)" "\<not> locked (i_lock (inodes t jp))"
    for t :: "'a istate_scheme" and jp
  proof -
    have e: "IBLOCK (i_inum (inodes t jp)) (sb t) = n" "view t n = ?d" using t 1(2) by (simp_all add: n_def inum_def)
    note G = get_put_dinode [OF assms(4), of "dinode_off inum" "view s n" "inodes t jp"]
    have ty: "i_type (get_dinode ?d (dinode_off inum) (inodes t jp)) \<noteq> 0" using G assms(5) by (simp add: same_dinode_def)
    obtain t' where "ilock (Some jp) t = Inr t'"
      "inodes t' jp = (get_dinode ?d (dinode_off inum) (inodes t jp))\<lparr>i_valid := True, i_lock := \<lparr>locked = True, lk_pid = curpid t\<rparr>\<rparr>"
      using ilock_load [OF t(1,2,6)] t n e ty by auto
    then show ?thesis using G by (auto simp: same_dinode_def)
  qed
  from 1 other load show ?thesis by auto
qed

theorem iupdate_ilock_roundtrip_witness:
  "\<exists>s' :: istate. iupdate 1 (demo_fs ()) = Inr s' \<and> (\<forall>m. m \<noteq> 32 \<longrightarrow> view s' m = view (demo_fs () :: istate) m)"
proof -
  have n: "IBLOCK (i_inum (inodes (demo_fs () :: istate) 1)) (sb (demo_fs () :: istate)) = 32"
    by (simp add: demo_inode_fields demo_sb_def IBLOCK_def IPB_def BSIZE_def cint_simps)
  have "sb_inodestart (sb (demo_fs () :: istate)) < LOGICAL_DISK_SIZE" by (simp add: demo_sb_def LOGICAL_DISK_SIZE_def FSSIZE_def)
  then show ?thesis
    using iupdate_ilock_roundtrip [of "demo_fs ()" 1] unfolding n by (auto simp: demo_inode_fields T_FILE_def simp del: One_nat_def)
qed

end
