(* ===== verification/FileData.thy ===== *)
theory FileData
  imports InodeDisk
begin

text \<open>
  The contents of files. \<open>addr_of\<close> is the block that holds a part of a file, \<open>content\<close> the byte at an offset, and \<open>file_bytes\<close> the
  whole file as a list of bytes: the abstract file. \<^verbatim>\<open>readi\<close> and \<^verbatim>\<open>writei\<close> are then a sublist and an overwrite of that list.
\<close>

section \<open>Files as byte sequences\<close>

definition addr_of :: "'a istate_scheme \<Rightarrow> nat \<Rightarrow> nat \<Rightarrow> nat" where
  "addr_of s ip bn =
     (if bn < NDIRECT then i_addrs (inodes s ip) bn
      else if i_addrs (inodes s ip) NDIRECT = 0 then 0
      else get_le (view s (i_addrs (inodes s ip) NDIRECT)) (4 * (bn - NDIRECT)) 4)"

definition content :: "'a istate_scheme \<Rightarrow> nat \<Rightarrow> bytes" where
  "content s ip = (\<lambda>x. if addr_of s ip (x div BSIZE) = 0 then 0 else view s (addr_of s ip (x div BSIZE)) (x mod BSIZE))"

definition file_bytes :: "'a istate_scheme \<Rightarrow> nat \<Rightarrow> byte list" where
  "file_bytes s ip = list_of_bytes (content s ip) 0 (i_size (inodes s ip))"

text \<open>A block that may hold file contents.\<close>

definition data_blk :: "'a istate_scheme \<Rightarrow> nat \<Rightarrow> bool" where
  "data_blk s b \<longleftrightarrow> b \<noteq> 0 \<and> b \<in> home s \<and> b \<notin> free_set s \<and> b \<noteq> bmap_blk s \<and> b \<notin> iblocks s \<and> lock_of s b = None"

definition blocks_of :: "'a istate_scheme \<Rightarrow> nat \<Rightarrow> nat \<Rightarrow> nat" where
  "blocks_of s ip k = (if k = MAXFILE then i_addrs (inodes s ip) NDIRECT else addr_of s ip k)"

text \<open>The blocks of a file, its indirect block (number \<^verbatim>\<open>MAXFILE\<close>) included, are data blocks and all different.\<close>

definition file_ok :: "'a istate_scheme \<Rightarrow> nat \<Rightarrow> bool" where
  "file_ok s ip \<longleftrightarrow> i_dev (inodes s ip) = ROOTDEV \<and>
     (\<forall>k \<le> MAXFILE. blocks_of s ip k \<noteq> 0 \<longrightarrow> data_blk s (blocks_of s ip k)) \<and>
     (\<forall>k \<le> MAXFILE. \<forall>l \<le> MAXFILE. blocks_of s ip k \<noteq> 0 \<longrightarrow> blocks_of s ip k = blocks_of s ip l \<longrightarrow> k = l)"

definition mapped :: "'a istate_scheme \<Rightarrow> nat \<Rightarrow> nat \<Rightarrow> bool" where
  "mapped s ip n \<longleftrightarrow> (\<forall>bn. bn * BSIZE < n \<longrightarrow> addr_of s ip bn \<noteq> 0)"

lemma blocks_of_simps [simp]: "blocks_of s ip MAXFILE = i_addrs (inodes s ip) NDIRECT" "k < MAXFILE \<Longrightarrow> blocks_of s ip k = addr_of s ip k"
  by (simp_all add: blocks_of_def)

lemma fs_consts: "NDIRECT < MAXFILE" "NINDIRECT = 256" "MAXFILE = 268" "NDIRECT = 12"
  by (simp_all add: MAXFILE_def NDIRECT_def NINDIRECT_def BSIZE_def)

lemma file_okD:
  assumes "file_ok s ip"
  shows "bn < MAXFILE \<Longrightarrow> addr_of s ip bn \<noteq> 0 \<Longrightarrow> data_blk s (addr_of s ip bn)"
    and "i_addrs (inodes s ip) NDIRECT \<noteq> 0 \<Longrightarrow> data_blk s (i_addrs (inodes s ip) NDIRECT)"
    and "bn < MAXFILE \<Longrightarrow> cn < MAXFILE \<Longrightarrow> addr_of s ip bn \<noteq> 0 \<Longrightarrow> addr_of s ip bn = addr_of s ip cn \<Longrightarrow> bn = cn"
    and "bn < MAXFILE \<Longrightarrow> addr_of s ip bn \<noteq> 0 \<Longrightarrow> addr_of s ip bn \<noteq> i_addrs (inodes s ip) NDIRECT"
    and "i_dev (inodes s ip) = ROOTDEV"
proof -
  note F = assms [unfolded file_ok_def]
  show "i_dev (inodes s ip) = ROOTDEV" using F by blast
  show "data_blk s (addr_of s ip bn)" if "bn < MAXFILE" "addr_of s ip bn \<noteq> 0"
    using F that by (metis blocks_of_simps(2) less_imp_le)
  show "data_blk s (i_addrs (inodes s ip) NDIRECT)" if "i_addrs (inodes s ip) NDIRECT \<noteq> 0"
    using F that by (metis blocks_of_simps(1) order_refl)
  show "bn = cn" if "bn < MAXFILE" "cn < MAXFILE" "addr_of s ip bn \<noteq> 0" "addr_of s ip bn = addr_of s ip cn"
    using F that by (metis blocks_of_simps(2) less_imp_le)
  show "addr_of s ip bn \<noteq> i_addrs (inodes s ip) NDIRECT" if "bn < MAXFILE" "addr_of s ip bn \<noteq> 0"
    using F that by (metis blocks_of_simps less_imp_le order_refl less_irrefl)
qed

lemma file_okI:
  assumes "i_dev (inodes s ip) = ROOTDEV"
    and "\<And>bn. bn < MAXFILE \<Longrightarrow> addr_of s ip bn \<noteq> 0 \<Longrightarrow> data_blk s (addr_of s ip bn)"
    and "i_addrs (inodes s ip) NDIRECT \<noteq> 0 \<Longrightarrow> data_blk s (i_addrs (inodes s ip) NDIRECT)"
    and "\<And>bn cn. bn < MAXFILE \<Longrightarrow> cn < MAXFILE \<Longrightarrow> addr_of s ip bn \<noteq> 0 \<Longrightarrow> addr_of s ip bn = addr_of s ip cn \<Longrightarrow> bn = cn"
    and "\<And>bn. bn < MAXFILE \<Longrightarrow> addr_of s ip bn \<noteq> 0 \<Longrightarrow> addr_of s ip bn \<noteq> i_addrs (inodes s ip) NDIRECT"
  shows "file_ok s ip"
proof -
  have c: "k < MAXFILE \<or> k = MAXFILE" if "k \<le> MAXFILE" for k using that by auto
  show ?thesis
    unfolding file_ok_def using assms c by (metis blocks_of_simps)
qed

text \<open>What these depend on.\<close>

lemma free_set_cong: "sb s' = sb s \<Longrightarrow> view s' (bmap_blk s) = view s (bmap_blk s) \<Longrightarrow> free_set s' = free_set s"
  by (simp add: free_set_def bmap_blk_def)

lemma addr_of_cong:
  "i_addrs (inodes s' ip) = i_addrs (inodes s ip) \<Longrightarrow>
    (i_addrs (inodes s ip) NDIRECT \<noteq> 0 \<Longrightarrow> view s' (i_addrs (inodes s ip) NDIRECT) = view s (i_addrs (inodes s ip) NDIRECT)) \<Longrightarrow>
    addr_of s' ip bn = addr_of s ip bn"
  by (auto simp: addr_of_def)

lemma data_blk_cong:
  "sb s' = sb s \<Longrightarrow> home s' = home s \<Longrightarrow> free_set s' = free_set s \<Longrightarrow> lock_of s' b = lock_of s b \<Longrightarrow> data_blk s' b = data_blk s b"
  by (simp add: data_blk_def bmap_blk_def iblocks_def)

text \<open>A step that changes no block of a file and not its inode keeps the file; the size and the other fields are not part of this.\<close>

lemma same_file:
  fixes s s' :: "'a istate_scheme"
  assumes "file_ok s ip" and "tx N s s'" and "i_addrs (inodes s' ip) = i_addrs (inodes s ip)" and "i_dev (inodes s' ip) = i_dev (inodes s ip)"
    and "free_set s' = free_set s" and "\<And>b. b \<in> N \<Longrightarrow> data_blk s b \<Longrightarrow> view s' b = view s b"
  shows "file_ok s' ip" and "bn < MAXFILE \<Longrightarrow> addr_of s' ip bn = addr_of s ip bn"
    and "x < MAXFILE * BSIZE \<Longrightarrow> content s' ip x = content s ip x"
proof -
  have I: "sb s' = sb s" "home s' = home s" "lock_of s' = lock_of s" using assms(2) iframe_fields [of s s'] by (simp_all add: tx_def)
  have v: "view s' b = view s b" if "data_blk s b" for b
    using assms(2,6) that by (cases "b \<in> N") (auto simp: tx_def)
  have d: "data_blk s' b = data_blk s b" for b by (rule data_blk_cong) (simp_all add: I assms(5))
  have a: "addr_of s' ip bn = addr_of s ip bn" for bn
    using assms(3) v file_okD(2) [OF assms(1)] by (intro addr_of_cong) auto
  then show "bn < MAXFILE \<Longrightarrow> addr_of s' ip bn = addr_of s ip bn" .
  show "file_ok s' ip" by (rule file_okI) (use file_okD [OF assms(1)] a d assms(3,4) in auto)
  show "content s' ip x = content s ip x" if "x < MAXFILE * BSIZE"
  proof -
    have "x div BSIZE < MAXFILE" using that by (simp add: less_mult_imp_div_less)
    then show ?thesis using v file_okD(1) [OF assms(1)] by (simp add: content_def a)
  qed
qed

section \<open>Finding a block\<close>

lemma bmap_hit:
  fixes s :: "'a istate_scheme"
  assumes t: "txn s" and bu: "room 1 s" and f: "file_ok s ip" and bn: "bn < MAXFILE" and a: "addr_of s ip bn \<noteq> 0"
  shows "\<exists>s'. bmap ip bn s = Inr (addr_of s ip bn, s') \<and> tx {} s s' \<and> tframe s s' \<and> view s' = view s"
proof (cases "bn < NDIRECT")
  case True
  then show ?thesis using a t tx_refl [OF t] by (simp add: bmap_def addr_of_def)
next
  case False
  let ?i = "i_addrs (inodes s ip) NDIRECT"
  have i: "?i \<noteq> 0" "addr_of s ip bn = get_le (view s ?i) (4 * (bn - NDIRECT)) 4" using a False by (auto simp: addr_of_def split: if_splits)
  have l: "lock_of s ?i = None" "?i < LOGICAL_DISK_SIZE" using file_okD(2) [OF f i(1)] by (auto simp: data_blk_def home_def)
  obtain b s1 where 1: "bread ROOTDEV ?i s = Inr (b, s1)" and h: "held s ?i b s1" using bread_held_room [OF t l bu] by blast
  note H = h [unfolded held_def]
  have "tx {} s1 s1" using H by (simp add: tx_refl)
  from held_release [OF t h l(1) this] obtain s2 where 2: "brelse b s1 = Inr s2" "tx {} s s2" "tframe s1 s2" "view s2 = view s1" by auto
  have "bmap ip bn s = Inr (addr_of s ip bn, s2)"
    using False bn 1 2(1) H i a file_okD(5) [OF f] fs_consts by (simp add: bmap_def Let_def)
  moreover have "tframe s s2" using frame_tframe tframe_trans 2(3) H by blast
  ultimately show ?thesis using 2 H by auto
qed

section \<open>Reading\<close>

lemma blit_blit: "blit (blit k dst X off m) (dst + m) X (off + m) l = blit k dst X off (m + l)"
  by (auto simp: blit_def fun_eq_iff)

lemma blit_0 [simp]: "blit k dst X off 0 = k"
  by (rule ext) (auto simp: blit_def)

lemma blit_cong: "(\<And>i. i < n \<Longrightarrow> src (soff + i) = src' (soff' + i)) \<Longrightarrow> blit dst doff src soff n = blit dst doff src' soff' n"
proof
  fix x assume c: "\<And>i. i < n \<Longrightarrow> src (soff + i) = src' (soff' + i)"
  show "blit dst doff src soff n x = blit dst doff src' soff' n x" using c [of "x - doff"] by (auto simp: blit_def)
qed

lemma in_block: "i < BSIZE - off mod BSIZE \<Longrightarrow> (off + i) div BSIZE = off div BSIZE \<and> (off + i) mod BSIZE = off mod BSIZE + i"
proof -
  assume i: "i < BSIZE - off mod BSIZE"
  then have "i < BSIZE" "off mod BSIZE + i < BSIZE" by simp_all
  then show ?thesis using div_add1_eq [of off i BSIZE] mod_add_left_eq [of off BSIZE i] by simp
qed

text \<open>The part of a block that a loop turn of \<^verbatim>\<open>readi\<close> or \<^verbatim>\<open>writei\<close> works on.\<close>

lemma content_in_block:
  "i < BSIZE - off mod BSIZE \<Longrightarrow> addr_of s ip (off div BSIZE) \<noteq> 0 \<Longrightarrow>
    content s ip (off + i) = view s (addr_of s ip (off div BSIZE)) (off mod BSIZE + i)"
  by (simp add: content_def in_block)

lemma readi_loop_step:
  assumes "tot < n" and "bmap ip (off div BSIZE) s = Inr (a, s1)" and "bread (i_dev (inodes s1 ip)) a s1 = Inr (b, s2)"
    and "brelse b s2 = Inr s3" and "m = min (n - tot) (BSIZE - off mod BSIZE)"
  shows "readi_loop ip False dst kobj off tot n s =
    readi_loop ip False (u64 (dst + m)) (blit kobj dst (bdata s2 b) (off mod BSIZE) m) (off + m) (tot + m) n s3"
  unfolding readi_loop.simps [of ip False dst kobj off tot n s]
  using assms(1-4) by (simp add: either_copyout_def Let_def assms(5) [symmetric])

lemma readi_loop_kernel:
  fixes s :: "'a istate_scheme"
  assumes "txn s" and "budget k s" and "file_ok s ip" and "mapped s ip (off + (n - tot))" and "off + (n - tot) \<le> MAXFILE * BSIZE"
    and "tot \<le> n" and "dst + (n - tot) < 18446744073709551616"
  shows "\<exists>s'. readi_loop ip False dst kobj off tot n s = Inr (n, blit kobj dst (content s ip) off (n - tot), s') \<and>
    tx {} s s' \<and> tframe s s' \<and> view s' = view s"
  using assms
proof (induction "n - tot" arbitrary: s dst kobj off tot rule: less_induct)
  case less
  show ?case
  proof (cases "tot < n")
    case False
    then show ?thesis using less.prems(6) tx_refl [OF less.prems(1)] by (subst readi_loop.simps) simp
  next
    case True
    let ?bn = "off div BSIZE"
    define m where md: "m = min (n - tot) (BSIZE - off mod BSIZE)"
    have B: "0 < BSIZE - off mod BSIZE" by (simp add: BSIZE_def)
    then have m: "0 < m" "m \<le> n - tot" "m \<le> BSIZE - off mod BSIZE" using True by (auto simp: md)
    have bn: "?bn < MAXFILE" using less.prems(5) True by (intro less_mult_imp_div_less) simp
    have "?bn * BSIZE < off + (n - tot)" using div_times_less_eq_dividend [of off BSIZE] True by linarith
    then have a: "addr_of s ip ?bn \<noteq> 0" using less.prems(4) by (simp add: mapped_def)
    let ?a = "addr_of s ip ?bn"
    obtain s1 where 1: "bmap ip ?bn s = Inr (?a, s1)" "tx {} s s1" "tframe s s1" "view s1 = view s"
      using bmap_hit [OF less.prems(1) budget_room [OF less.prems(2)] less.prems(3) bn a] by auto
    have i1: "inodes s1 = inodes s" "sb s1 = sb s" using tframe_inodes [OF 1(3)] by simp_all
    have l: "lock_of s1 ?a = None" "?a < LOGICAL_DISK_SIZE" "txn s1"
      using file_okD(1) [OF less.prems(3) bn a] 1(2) by (auto simp: data_blk_def home_def tx_def)
    have bu1: "budget k s1" using tx_budget [OF 1(2) less.prems(1), of 0 k] less.prems(2) by simp
    obtain b s2 where 2: "bread ROOTDEV ?a s1 = Inr (b, s2)" and h: "held s1 ?a b s2" using bread_held [OF l(3,1,2) bu1] by blast
    have rd: "bread (i_dev (inodes s1 ip)) ?a s1 = Inr (b, s2)" using 2 i1 file_okD(5) [OF less.prems(3)] by simp
    note H = h [unfolded held_def]
    have "tx {} s2 s2" using H by (simp add: tx_refl)
    from held_release [OF l(3) h l(1) this] obtain s3 where 3: "brelse b s2 = Inr s3" "tx {} s1 s3" "tframe s2 s3" "view s3 = view s2" by auto
    have t3: "tx {} s s3" using tx_trans [OF 1(2) 3(2)] by simp
    have f3: "tframe s s3" using 1(3) 3(3) H frame_tframe tframe_trans by blast
    have v3: "view s3 = view s" using 3(4) H 1(4) by simp
    have i3: "inodes s3 = inodes s" "sb s3 = sb s" using tframe_inodes [OF f3] by simp_all
    have free: "free_set s3 = free_set s" by (rule free_set_cong) (simp_all add: i3 v3)
    have ad: "addr_of s3 ip = addr_of s ip" by (auto simp: addr_of_def fun_eq_iff i3 v3)
    have co: "content s3 ip = content s ip" unfolding content_def ad v3 by (rule refl)
    have fo: "file_ok s3 ip" by (rule same_file(1) [OF less.prems(3) t3]) (simp_all add: i3 free)
    have bu3: "budget k s3" using tx_budget [OF t3 less.prems(1), of 0 k] less.prems(2) by simp
    have tx3: "txn s3" using t3 by (simp add: tx_def)
    let ?k = "blit kobj dst (content s ip) off m"
    have d: "blit kobj dst (bdata s2 b) (off mod BSIZE) m = ?k"
      using H 1(4) a m(3) by (intro blit_cong) (simp add: content_in_block)
    have u: "u64 (dst + m) = dst + m" using less.prems(7) m by (intro u64_id) linarith
    have step: "readi_loop ip False dst kobj off tot n s = readi_loop ip False (dst + m) ?k (off + m) (tot + m) n s3"
      using readi_loop_step [OF True 1(1) rd 3(1) md, of dst kobj] by (simp only: d u)
    have "n - (tot + m) < n - tot" using m True by linarith
    moreover have "off + m + (n - (tot + m)) = off + (n - tot)" "dst + m + (n - (tot + m)) = dst + (n - tot)" "tot + m \<le> n" "m + (n - (tot + m)) = n - tot"
      using m True by linarith+
    moreover have "mapped s3 ip (off + (n - tot))" using less.prems(4) by (simp add: mapped_def ad)
    ultimately obtain s' where "readi_loop ip False (dst + m) ?k (off + m) (tot + m) n s3 =
        Inr (n, blit ?k (dst + m) (content s3 ip) (off + m) (n - (tot + m)), s')" "tx {} s3 s'" "tframe s3 s'" "view s' = view s3"
      using less.hyps [of "tot + m" s3 "off + m" "dst + m" ?k] tx3 bu3 fo less.prems(5,7) by auto
    then show ?thesis
      using step t3 f3 v3 tx_trans [OF t3] tframe_trans [OF f3] \<open>m + (n - (tot + m)) = n - tot\<close> by (auto simp: co blit_blit)
  qed
qed

definition file_inv :: "'a istate_scheme \<Rightarrow> nat \<Rightarrow> bool" where
  "file_inv s ip \<longleftrightarrow> file_ok s ip \<and> mapped s ip (i_size (inodes s ip)) \<and> i_size (inodes s ip) \<le> MAXFILE * BSIZE"

lemma max_size: "MAXFILE * BSIZE = 274432"
  by (simp add: fs_consts BSIZE_def)

lemma readi_kernel:
  fixes s :: "'a istate_scheme"
  assumes t: "txn s" and bu: "budget k s" and f: "file_inv s ip" and n: "off + n < 4294967296" and d: "dst + n < 18446744073709551616"
  defines "m \<equiv> min n (i_size (inodes s ip) - off)"
  shows "\<exists>s'. readi ip False dst kobj off n s = Inr (int m, blit kobj dst (content s ip) off m, s') \<and>
    tx {} s s' \<and> tframe s s' \<and> view s' = view s"
proof -
  let ?sz = "i_size (inodes s ip)"
  have F: "file_ok s ip" "mapped s ip ?sz" "?sz \<le> MAXFILE * BSIZE" using f by (simp_all add: file_inv_def)
  show ?thesis
  proof (cases "?sz < off")
    case True
    then show ?thesis using tx_refl [OF t] by (simp add: readi_def m_def)
  next
    case False
    then have le: "off + m \<le> ?sz" "m \<le> n" by (auto simp: m_def)
    have r: "(if off + n > ?sz then ?sz - off else n) = m" using False by (auto simp: m_def)
    have "mapped s ip (off + (m - 0))" using F(2) le by (simp add: mapped_def)
    then obtain s' where 1: "readi_loop ip False dst kobj off 0 m s = Inr (m, blit kobj dst (content s ip) off (m - 0), s')"
      "tx {} s s'" "tframe s s'" "view s' = view s"
      using readi_loop_kernel [OF t bu F(1), of off m 0 dst kobj] F(3) le d by auto
    have i: "int_of_u32 m = int m" using F(3) le by (simp add: int_of_u32_def max_size)
    have "\<not> (off > ?sz \<or> u32 (off + n) < off)" using False n by (simp add: cint_simps)
    then have "readi ip False dst kobj off n s = Inr (int m, blit kobj dst (content s ip) off m, s')"
      unfolding readi_def if_not_P [OF \<open>\<not> (off > ?sz \<or> u32 (off + n) < off)\<close>] Let_def r using 1(1) i by simp
    with 1 show ?thesis by blast
  qed
qed

section \<open>Growing a file\<close>

lemma alloc_effect:
  fixes s s' :: "'a istate_scheme"
  assumes "map_ok s" and "b \<in> free_set s" and "sb s' = sb s" and "home s' = home s" and "lock_of s' = lock_of s"
    and "used (view s' (bmap_blk s)) = (\<lambda>x. x = b \<or> used (view s (bmap_blk s)) x)"
  shows "free_set s' = free_set s - {b}" and "map_ok s'" and "data_blk s' b" and "data_blk s c \<Longrightarrow> data_blk s' c \<and> c \<noteq> b"
proof -
  have g: "bmap_blk s' = bmap_blk s" "iblocks s' = iblocks s" using assms(3) by (simp_all add: bmap_blk_def iblocks_def)
  show f: "free_set s' = free_set s - {b}" using assms(3,6) by (auto simp: free_set_def g)
  show "map_ok s'" using assms(1,3-5) by (auto simp: map_ok_def g f)
  show "data_blk s' b" using assms(1,2,4,5) by (auto simp: map_ok_def data_blk_def g f)
  show "data_blk s c \<Longrightarrow> data_blk s' c \<and> c \<noteq> b" using assms(2,4,5) by (auto simp: data_blk_def g f)
qed

lemma file_extend:
  assumes f: "file_ok s ip" and dev: "i_dev (inodes s' ip) = i_dev (inodes s ip)" and j: "j \<le> MAXFILE"
    and bl: "\<And>k. k \<le> MAXFILE \<Longrightarrow> blocks_of s' ip k = (if k = j then b else blocks_of s ip k)"
    and b: "data_blk s' b" "\<not> data_blk s b" and keep: "\<And>c. data_blk s c \<Longrightarrow> data_blk s' c"
  shows "file_ok s' ip"
proof -
  note F = f [unfolded file_ok_def]
  have d: "data_blk s' (blocks_of s' ip k)" if "k \<le> MAXFILE" "blocks_of s' ip k \<noteq> 0" for k
    using that F b(1) keep bl [OF that(1)] by (cases "k = j") auto
  have ne: "blocks_of s ip k \<noteq> b" if "k \<le> MAXFILE" for k
    using F b that by (auto simp: data_blk_def)
  have inj: "k = l" if "k \<le> MAXFILE" "l \<le> MAXFILE" "blocks_of s ip k \<noteq> 0" "blocks_of s ip k = blocks_of s ip l" for k l
    using F that by blast
  have i': "k = l" if "k \<le> MAXFILE" "l \<le> MAXFILE" "blocks_of s' ip k \<noteq> 0" "blocks_of s' ip k = blocks_of s' ip l" for k l
  proof (cases "k = j \<or> l = j")
    case True
    then show ?thesis using that(4) ne [OF that(1)] ne [OF that(2)] unfolding bl [OF that(1)] bl [OF that(2)] by (auto split: if_splits)
  next
    case False
    then show ?thesis using inj [OF that(1,2)] that(3,4) bl [OF that(1)] bl [OF that(2)] by simp
  qed
  have "i_dev (inodes s' ip) = ROOTDEV" using F dev by simp
  then show ?thesis unfolding file_ok_def using d i' by blast
qed

lemma content_extend:
  assumes "\<And>cn. cn < MAXFILE \<Longrightarrow> cn \<noteq> j \<Longrightarrow> addr_of s' ip cn = addr_of s ip cn"
    and "\<And>cn. cn < MAXFILE \<Longrightarrow> addr_of s ip cn \<noteq> 0 \<Longrightarrow> view s' (addr_of s ip cn) = view s (addr_of s ip cn)"
    and "j < MAXFILE \<Longrightarrow> addr_of s ip j = 0 \<and> view s' (addr_of s' ip j) = (\<lambda>_. 0)" and "x < MAXFILE * BSIZE"
  shows "content s' ip x = content s ip x"
proof -
  have x: "x div BSIZE < MAXFILE" using assms(4) by (simp add: less_mult_imp_div_less)
  show ?thesis
  proof (cases "x div BSIZE = j")
    case True
    then show ?thesis using assms(3) x by (simp add: content_def)
  qed (use assms(1,2) x in \<open>simp add: content_def\<close>)
qed

definition inds :: "'a istate_scheme \<Rightarrow> nat \<Rightarrow> nat set" where
  "inds s ip = {i_addrs (inodes s ip) NDIRECT} - {0}"

text \<open>
  \<open>grow s ip J s'\<close>: the blocks \<open>J\<close> of the file have been made to exist and perhaps written. Blocks are only taken from the free
  ones, and only they, the free map, the indirect block and the blocks \<open>J\<close> themselves are logged or changed.
\<close>

definition grow :: "'a istate_scheme \<Rightarrow> nat \<Rightarrow> nat set \<Rightarrow> 'a istate_scheme \<Rightarrow> bool" where
  "grow s ip J s' \<longleftrightarrow> tx ({bmap_blk s} \<union> inds s' ip \<union> addr_of s' ip ` J) s s' \<and> file_ok s' ip \<and> map_ok s' \<and>
     (\<forall>cn < MAXFILE. addr_of s' ip cn = addr_of s ip cn \<or> cn \<in> J \<and> addr_of s ip cn = 0 \<and> addr_of s' ip cn \<in> free_set s) \<and>
     (\<forall>cn \<in> J. addr_of s' ip cn \<noteq> 0) \<and> (\<exists>A. inodes s' = (inodes s)(ip := (inodes s ip)\<lparr>i_addrs := A\<rparr>)) \<and>
     inds s ip \<subseteq> inds s' ip \<and> inds s' ip \<subseteq> inds s ip \<union> free_set s \<and>
     free_set s' \<subseteq> free_set s \<and> card (free_set s) \<le> card (free_set s') + 2 * card J \<and>
     (\<forall>b. b \<notin> free_set s \<union> {bmap_blk s} \<union> inds s ip \<union> addr_of s ip ` J \<longrightarrow> view s' b = view s b)"

definition bmap_post :: "'a istate_scheme \<Rightarrow> nat \<Rightarrow> nat \<Rightarrow> nat \<Rightarrow> 'a istate_scheme \<Rightarrow> bool" where
  "bmap_post s ip bn a s' \<longleftrightarrow> grow s ip {bn} s' \<and> a = addr_of s' ip bn \<and> (\<forall>x < MAXFILE * BSIZE. content s' ip x = content s ip x)"

lemma finite_free_set [simp]: "finite (free_set s)"
  by (rule finite_subset [of _ "{..<sb_size (sb s)}"]) (auto simp: free_set_def)

definition alloc_post :: "'a istate_scheme \<Rightarrow> nat \<Rightarrow> 'a istate_scheme \<Rightarrow> bool" where
  "alloc_post s b s1 \<longleftrightarrow> tx {bmap_blk s, b} s s1 \<and> tframe s s1 \<and> b \<in> free_set s \<and> b \<noteq> 0 \<and> b \<noteq> bmap_blk s \<and> view s1 b = (\<lambda>_. 0) \<and>
     used (view s1 (bmap_blk s)) = (\<lambda>x. x = b \<or> used (view s (bmap_blk s)) x) \<and>
     (\<forall>c. c \<noteq> b \<longrightarrow> c \<noteq> bmap_blk s \<longrightarrow> view s1 c = view s c) \<and>
     inodes s1 = inodes s \<and> sb s1 = sb s \<and> home s1 = home s \<and> lock_of s1 = lock_of s"

lemma balloc_alloc:
  fixes s :: "'a istate_scheme"
  assumes "txn s" and "map_ok s" and "quota 1 1 s" and "bmap_blk s \<notin> set (txn_blocks s) \<Longrightarrow> quota 2 2 s"
    and "2 \<le> card (free_set s) + j" and "j < 2"
  shows "\<exists>b s1. balloc ROOTDEV s = Inr (b, s1) \<and> alloc_post s b s1 \<and> bmap_blk s \<in> set (txn_blocks s1)"
proof -
  have ne: "free_set s \<noteq> {}" using assms(5,6) by auto
  define b where "b = (LEAST b. b \<in> free_set s)"
  have b: "b \<in> free_set s" using ne unfolding b_def by (auto intro: LeastI)
  then have b': "b \<noteq> 0" "b \<noteq> bmap_blk s" using assms(2) by (auto simp: map_ok_def)
  let ?d = "view s (bmap_blk s)"
  obtain s1 where 1: "balloc ROOTDEV s = Inr (b, s1)" "tx {bmap_blk s, b} s s1" "tframe s s1"
    "view s1 = (view s)(bmap_blk s := ?d(b div 8 := ?d (b div 8) OR bmask b), b := (\<lambda>_. 0))" "bmap_blk s \<in> set (txn_blocks s1)"
    using balloc_tx [OF assms(1-4) ne] unfolding b_def by blast
  have "used (view s1 (bmap_blk s)) = (\<lambda>x. x = b \<or> used ?d x)" using b'(2) by (intro ext) (simp add: 1(4) used_set)
  then have "alloc_post s b s1"
    unfolding alloc_post_def using 1(2,3) b b' tframe_inodes [OF 1(3)] tframe_fields(11) [OF 1(3)] by (simp add: 1(4) tx_def)
  with 1(1,5) show ?thesis by blast
qed

lemma bmap_direct_new:
  fixes s :: "'a istate_scheme"
  assumes t: "txn s" and m: "map_ok s" and q: "quota 2 2 s" and f: "file_ok s ip" and fr: "2 \<le> card (free_set s)"
    and bn: "bn < NDIRECT" and a: "addr_of s ip bn = 0"
  shows "\<exists>a s'. bmap ip bn s = Inr (a, s') \<and> bmap_post s ip bn a s'"
proof -
  let ?i = "i_addrs (inodes s ip) NDIRECT"
  have q1: "quota 1 1 s" by (rule quota_mono [OF q]) simp_all
  obtain b s1 where 1: "balloc ROOTDEV s = Inr (b, s1)" and p: "alloc_post s b s1"
    using balloc_alloc [OF t m q1 q, of 0] fr by auto
  note P = p [unfolded alloc_post_def]
  let ?s = "set_addr ip bn b s1"
  have e: "view ?s = view s1" "sb ?s = sb s" "home ?s = home s" "lock_of ?s = lock_of s"
    "inodes ?s = (inodes s)(ip := (inodes s ip)\<lparr>i_addrs := (i_addrs (inodes s ip))(bn := b)\<rparr>)"
    using P by (simp_all add: set_addr_def)
  have bf: "b \<in> free_set s" and b0: "b \<noteq> 0" using P by simp_all
  have u: "used (view ?s (bmap_blk s)) = (\<lambda>x. x = b \<or> used (view s (bmap_blk s)) x)" using P by (simp add: e)
  note A = alloc_effect [OF m bf e(2-4) u]
  have v: "view ?s c = view s c" if "data_blk s c" for c using that A(4) [OF that] P by (simp add: e data_blk_def)
  have ad: "addr_of ?s ip cn = (if cn = bn then b else addr_of s ip cn)" for cn
    using bn v [OF file_okD(2) [OF f]] by (auto simp: addr_of_def e(5))
  have bn': "bn < MAXFILE" "bn \<noteq> NDIRECT" using bn fs_consts by simp_all
  have "file_ok ?s ip"
    by (rule file_extend [OF f, where j = bn and b = b]) (use A bf bn' in \<open>auto simp: e(5) blocks_of_def ad data_blk_def\<close>)
  moreover have "content ?s ip x = content s ip x" if "x < MAXFILE * BSIZE" for x
    by (rule content_extend [where j = bn]) (use a that v file_okD(1) [OF f] P in \<open>simp_all add: ad e(1)\<close>)
  moreover have "tx ({bmap_blk s} \<union> inds ?s ip \<union> addr_of ?s ip ` {bn}) s ?s"
    by (subst (3) set_addr_def, rule tx_upd_inode, rule tx_mono [of "{bmap_blk s, b}"]) (use P ad in auto)
  moreover have "card (free_set s) \<le> card (free_set ?s) + 2" "free_set ?s \<subseteq> free_set s" using A(1) bf by auto
  moreover have run: "bmap ip bn s = Inr (b, ?s)" using bn a 1 b0 file_okD(5) [OF f] by (simp add: bmap_def addr_of_def)
  moreover have "view ?s c = view s c" if "c \<notin> free_set s \<union> {bmap_blk s} \<union> inds s ip \<union> addr_of s ip ` {bn}" for c using that P by (auto simp: e(1))
  moreover have "\<exists>A. inodes ?s = (inodes s)(ip := (inodes s ip)\<lparr>i_addrs := A\<rparr>)" by (rule exI, rule e(5))
  moreover have "inds ?s ip = inds s ip" using bn' by (simp add: inds_def e(5))
  ultimately have "bmap_post s ip bn b ?s"
    unfolding bmap_post_def grow_def using A(2) b0 bf a by (simp add: ad)
  then show ?thesis using run by blast
qed

lemma held_alloc:
  fixes s :: "'a istate_scheme"
  assumes "held s i bp s1" and "map_ok s" and "i \<notin> free_set s" and "i \<noteq> bmap_blk s"
  shows "map_ok s1" and "free_set s1 = free_set s" and "bmap_blk s1 = bmap_blk s"
proof -
  note H = assms(1) [unfolded held_def] and F = held_fields [OF assms(1)]
  show b: "bmap_blk s1 = bmap_blk s" using F by (simp add: bmap_blk_def)
  show f: "free_set s1 = free_set s" by (rule free_set_cong) (use F H in simp_all)
  have "iblocks s1 = iblocks s" using F by (simp add: iblocks_def)
  then show "map_ok s1" using assms(2-4) F H by (auto simp: map_ok_def b f)
qed

lemma bmap_indirect_new:
  fixes s :: "'a istate_scheme"
  assumes t: "txn s" and m: "map_ok s" and q: "quota 2 2 s" and q3: "bmap_blk s \<notin> set (txn_blocks s) \<Longrightarrow> quota 3 3 s"
    and f: "file_ok s ip" and fr: "1 \<le> card (free_set s)"
    and bn: "NDIRECT \<le> bn" "bn < MAXFILE" and a: "addr_of s ip bn = 0" and i: "i_addrs (inodes s ip) NDIRECT \<noteq> 0"
  shows "\<exists>a s'. bmap ip bn s = Inr (a, s') \<and> bmap_post s ip bn a s' \<and> card (free_set s) \<le> card (free_set s') + 1"
proof -
  let ?i = "i_addrs (inodes s ip) NDIRECT" and ?m = "bmap_blk s"
  let ?o = "4 * (bn - NDIRECT)"
  note di = file_okD(2) [OF f i]
  have I: "lock_of s ?i = None" "?i < LOGICAL_DISK_SIZE" "?i \<in> home s" "?i \<notin> free_set s" "?i \<noteq> ?m"
    using di by (auto simp: data_blk_def home_def)
  have z: "get_le (view s ?i) ?o 4 = 0" using a bn(1) i by (simp add: addr_of_def)
  have nb: "\<not> bn < NDIRECT" "bn - NDIRECT < NINDIRECT" using bn by (simp_all add: fs_consts)
  obtain bp s1 where 1: "bread ROOTDEV ?i s = Inr (bp, s1)" and h: "held s ?i bp s1" using bread_held_room [OF t I(1,2)] quota_room [OF quota_mono [OF q, of 1 1]] by auto
  note H = h [unfolded held_def] and F = held_fields [OF h] and M = held_alloc [OF h m I(4,5)]
  have q1: "quota 2 1 s1" by (rule held_quota [OF h t]) (use q in \<open>simp add: numeral_2_eq_2\<close>)
  have q2: "quota 3 2 s1" if "bmap_blk s1 \<notin> set (txn_blocks s1)"
    by (rule held_quota [OF h t]) (use q3 that M(3) H in \<open>simp add: numeral_3_eq_3 numeral_2_eq_2\<close>)
  have q11: "quota 1 1 s1" by (rule quota_mono [OF q1]) simp_all
  have q22: "quota 2 2 s1" if "bmap_blk s1 \<notin> set (txn_blocks s1)" by (rule quota_mono [OF q2 [OF that]]) simp_all
  obtain b s2 where 2: "balloc ROOTDEV s1 = Inr (b, s2)" and p: "alloc_post s1 b s2"
    using balloc_alloc [OF _ M(1) q11 q22, of 1] H M fr by auto
  note P = p [unfolded alloc_post_def]
  have b: "b \<in> free_set s" "b \<noteq> 0" "b \<noteq> ?m" "b \<noteq> ?i" using P M I(4) by auto
  have v2i: "view s2 ?i = view s ?i" using P H b(4) I(5) M by auto
  let ?d = "put_le (view s ?i) ?o 4 b"
  have ok: "blk_ok ?d" using t nb by (intro blk_ok_put_le) (auto simp: txn_def fs_consts BSIZE_def)
  have P2: "tx {?m, b} s1 s2" "tframe s1 s2" "txn s2" using P M by (simp_all add: tx_def)
  have cl: "can_log s2"
  proof (cases "?m \<in> set (txn_blocks s1)")
    case True
    have "{?m, b} - set (txn_blocks s1) \<subseteq> {b}" using True by auto
    then have c: "card ({?m, b} - set (txn_blocks s1)) \<le> 1" using card_mono [of "{b}"] by fastforce
    have "quota 1 0 s2" by (rule tx_quota [OF P2(1) _ _ c]) (use H q1 in \<open>simp_all add: numeral_2_eq_2\<close>)
    then show ?thesis by (rule quota_can_log)
  next
    case False
    have c: "card ({?m, b} - set (txn_blocks s1)) \<le> 2"
      using card_mono [of "{?m, b}" "{?m, b} - set (txn_blocks s1)"] by (auto simp: card_insert_if split: if_splits)
    have "quota 1 0 s2" by (rule tx_quota [OF P2(1) _ _ c]) (use H q2 False M(3) in \<open>simp_all add: numeral_3_eq_3 numeral_2_eq_2\<close>)
    then show ?thesis by (rule quota_can_log)
  qed
  have "owns s2 bp ?i" using P2(1) H by (auto simp: tx_def)
  then have bd: "bdata s2 bp = view s ?i" using owns_abs(1) [of s2 bp ?i] P2(3) v2i by (simp add: txn_def)
  obtain s3 where 3: "bindE (log_write bp (set_bdata bp ?d s2)) (brelse bp) = Inr s3" "tx {?i, ?m, b} s s3" "tframe s2 s3"
    "view s3 = (view s2)(?i := ?d)"
    using held_update [OF t h I(1) P2(1) I(3) cl ok] by blast
  obtain s2' where l: "log_write bp (set_bdata bp ?d s2) = Inr s2'" "brelse bp s2' = Inr s3" using 3(1) by (auto simp: bindE_iff)
  have i3: "inodes s3 = inodes s" "sb s3 = sb s" "home s3 = home s" "lock_of s3 = lock_of s"
    using tframe_inodes [OF 3(3)] tframe_inodes [OF P2(2)] F 3(2) iframe_fields(8) [of s s3] by (simp_all add: tx_def)
  have run: "bmap ip bn s = Inr (b, s3)"
    using nb i 1 2 z l b(2) bd H F tframe_inodes [OF P2(2)] file_okD(5) [OF f] by (simp add: bmap_def Let_def)
  have u: "used (view s3 ?m) = (\<lambda>x. x = b \<or> used (view s ?m) x)" using P M H I(5) 3(4) by auto
  note A = alloc_effect [OF m b(1) i3(2-4) u]
  have v: "view s3 c = view s c" if "c \<noteq> b" "c \<noteq> ?m" "c \<noteq> ?i" for c using that P M H 3(4) by auto
  have v0: "view s3 b = (\<lambda>_. 0)" "view s3 ?i = ?d" using P 3(4) b(4) by auto
  have "b < 4294967296" using b(1) m by (auto simp: map_ok_def free_set_def LOGICAL_DISK_SIZE_def FSSIZE_def)
  moreover have "get_le ?d (4 * (cn - NDIRECT)) 4 = get_le (view s ?i) (4 * (cn - NDIRECT)) 4" if "cn \<noteq> bn" "\<not> cn < NDIRECT" for cn
    using that bn(1) by (intro get_put_le_other) linarith
  ultimately have ad: "addr_of s3 ip cn = (if cn = bn then b else addr_of s ip cn)" for cn
    using i nb bn(1) by (auto simp: addr_of_def i3 v0 get_put_le)
  have "file_ok s3 ip"
    by (rule file_extend [OF f, where j = bn and b = b]) (use A b bn in \<open>auto simp: i3 blocks_of_def ad data_blk_def\<close>)
  moreover have "content s3 ip x = content s ip x" if "x < MAXFILE * BSIZE" for x
  proof (rule content_extend [where j = bn])
    show "view s3 (addr_of s ip cn) = view s (addr_of s ip cn)" if "cn < MAXFILE" "addr_of s ip cn \<noteq> 0" for cn
      using file_okD(1,4) [OF f that] b(1) by (intro v) (auto simp: data_blk_def)
  qed (use a that v0 in \<open>simp_all add: ad\<close>)
  moreover have "tx ({?m} \<union> inds s3 ip \<union> addr_of s3 ip ` {bn}) s s3" by (rule tx_mono [OF 3(2)]) (use i in \<open>auto simp: inds_def i3 ad\<close>)
  moreover have fr1: "card (free_set s) \<le> card (free_set s3) + 1" "free_set s3 \<subseteq> free_set s" using A(1) b(1) by auto
  moreover have "view s3 c = view s c" if "c \<notin> free_set s \<union> {?m} \<union> inds s ip \<union> addr_of s ip ` {bn}" for c
    using that b(1) i by (intro v) (auto simp: inds_def)
  moreover have "\<exists>A. inodes s3 = (inodes s)(ip := (inodes s ip)\<lparr>i_addrs := A\<rparr>)"
    by (rule exI [of _ "i_addrs (inodes s ip)"]) (simp add: i3)
  moreover have "inds s3 ip = inds s ip" by (simp add: inds_def i3)
  ultimately have "bmap_post s ip bn b s3"
    unfolding bmap_post_def grow_def using A(2) b(1,2) a by (simp add: ad)
  then show ?thesis using run fr1(1) by blast
qed

text \<open>A new indirect block is empty, so it changes no address.\<close>

lemma indirect_alloc:
  fixes s :: "'a istate_scheme"
  assumes t: "txn s" and m: "map_ok s" and q: "quota 2 2 s" and f: "file_ok s ip" and fr: "2 \<le> card (free_set s)"
    and i: "i_addrs (inodes s ip) NDIRECT = 0"
  shows "\<exists>b s1. balloc ROOTDEV s = Inr (b, s1) \<and> bmap_blk s \<in> set (txn_blocks s1) \<and> b \<noteq> 0 \<and> b \<in> free_set s \<and>
    (let s' = set_addr ip NDIRECT b s1 in tx {bmap_blk s, b} s s' \<and> file_ok s' ip \<and> map_ok s' \<and> free_set s' = free_set s - {b} \<and>
      (\<forall>bn. addr_of s' ip bn = addr_of s ip bn) \<and> (\<forall>x < MAXFILE * BSIZE. content s' ip x = content s ip x) \<and>
      inodes s' = (inodes s)(ip := (inodes s ip)\<lparr>i_addrs := (i_addrs (inodes s ip))(NDIRECT := b)\<rparr>) \<and>
      (\<forall>c. c \<noteq> b \<longrightarrow> c \<noteq> bmap_blk s \<longrightarrow> view s' c = view s c))"
proof -
  have q1: "quota 1 1 s" by (rule quota_mono [OF q]) simp_all
  obtain b s1 where 1: "balloc ROOTDEV s = Inr (b, s1)" "bmap_blk s \<in> set (txn_blocks s1)" and p: "alloc_post s b s1"
    using balloc_alloc [OF t m q1 q, of 0] fr by auto
  note P = p [unfolded alloc_post_def]
  let ?s = "set_addr ip NDIRECT b s1"
  have e: "view ?s = view s1" "sb ?s = sb s" "home ?s = home s" "lock_of ?s = lock_of s"
    "inodes ?s = (inodes s)(ip := (inodes s ip)\<lparr>i_addrs := (i_addrs (inodes s ip))(NDIRECT := b)\<rparr>)"
    using P by (simp_all add: set_addr_def)
  have bf: "b \<in> free_set s" and b0: "b \<noteq> 0" using P by simp_all
  have u: "used (view ?s (bmap_blk s)) = (\<lambda>x. x = b \<or> used (view s (bmap_blk s)) x)" using P by (simp add: e)
  note A = alloc_effect [OF m bf e(2-4) u]
  have v: "view ?s c = view s c" if "data_blk s c" for c using that A(4) [OF that] P by (simp add: e data_blk_def)
  have ad: "addr_of ?s ip cn = addr_of s ip cn" for cn using i P by (auto simp: addr_of_def e)
  have "file_ok ?s ip"
    by (rule file_extend [OF f, where j = MAXFILE and b = b]) (use A bf i in \<open>auto simp: e(5) blocks_of_def ad data_blk_def\<close>)
  moreover have "content ?s ip x = content s ip x" if "x < MAXFILE * BSIZE" for x
    by (rule content_extend [where j = MAXFILE]) (use that v file_okD(1) [OF f] in \<open>simp_all add: ad\<close>)
  moreover have "tx {bmap_blk s, b} s ?s" unfolding set_addr_def by (rule tx_upd_inode) (use P in simp)
  moreover have "view ?s c = view s c" if "c \<noteq> b" "c \<noteq> bmap_blk s" for c using that P by (simp add: e)
  ultimately show ?thesis using 1 b0 bf A(1,2) e(5) ad by (auto simp: Let_def)
qed

lemma bmap_spec:
  fixes s :: "'a istate_scheme"
  assumes t: "txn s" and m: "map_ok s" and q: "quota 4 4 s" and f: "file_ok s ip" and fr: "2 \<le> card (free_set s)" and bn: "bn < MAXFILE"
  shows "\<exists>a s'. bmap ip bn s = Inr (a, s') \<and> bmap_post s ip bn a s'"
proof -
  have q2: "quota 2 2 s" and q3: "quota 3 3 s" by (rule quota_mono [OF q]; simp)+
  have bu1: "quota 1 1 s" by (rule quota_mono [OF q]) simp_all
  consider "addr_of s ip bn \<noteq> 0" | "addr_of s ip bn = 0" "bn < NDIRECT"
    | "addr_of s ip bn = 0" "NDIRECT \<le> bn" "i_addrs (inodes s ip) NDIRECT \<noteq> 0"
    | "NDIRECT \<le> bn" "i_addrs (inodes s ip) NDIRECT = 0" by linarith
  then show ?thesis
  proof cases
    case 1
    obtain s' where s': "bmap ip bn s = Inr (addr_of s ip bn, s')" "tx {} s s'" "tframe s s'" "view s' = view s"
      using bmap_hit [OF t quota_room [OF bu1] f bn 1] by blast
    have i: "inodes s' = inodes s" "sb s' = sb s" "home s' = home s" "lock_of s' = lock_of s"
      using tframe_inodes [OF s'(3)] tframe_fields [OF s'(3)] s'(2) by (simp_all add: tx_def)
    have fr': "free_set s' = free_set s" by (rule free_set_cong) (simp_all add: i s'(4))
    have ad: "addr_of s' ip = addr_of s ip" by (auto simp: addr_of_def fun_eq_iff i s'(4))
    have co: "content s' ip = content s ip" unfolding content_def ad s'(4) by (rule refl)
    have "file_ok s' ip" by (rule same_file(1) [OF f s'(2)]) (simp_all add: i fr')
    moreover have "map_ok s'" using m by (simp add: map_ok_def i fr' bmap_blk_def iblocks_def)
    moreover have "\<exists>A. inodes s' = (inodes s)(ip := (inodes s ip)\<lparr>i_addrs := A\<rparr>)"
      by (rule exI [of _ "i_addrs (inodes s ip)"]) (simp add: i)
    moreover have "inds s' ip = inds s ip" by (simp add: inds_def i)
    ultimately have "bmap_post s ip bn (addr_of s ip bn) s'"
      unfolding bmap_post_def grow_def using tx_mono [OF s'(2)] 1 by (simp add: ad co fr' s'(4))
    with s'(1) show ?thesis by blast
  next
    case 2
    then show ?thesis using bmap_direct_new [OF t m q2 f fr] by blast
  next
    case 3
    then show ?thesis using bmap_indirect_new [OF t m q2 q3 f _ 3(2) bn 3(1,3)] fr by auto
  next
    case 4
    let ?m = "bmap_blk s"
    obtain b s1 where ml: "?m \<in> set (txn_blocks s1)" and 1: "balloc ROOTDEV s = Inr (b, s1)" "b \<noteq> 0" "b \<in> free_set s" and S: "let s' = set_addr ip NDIRECT b s1 in tx {?m, b} s s' \<and>
      file_ok s' ip \<and> map_ok s' \<and> free_set s' = free_set s - {b} \<and>
      (\<forall>bn. addr_of s' ip bn = addr_of s ip bn) \<and> (\<forall>x < MAXFILE * BSIZE. content s' ip x = content s ip x) \<and>
      inodes s' = (inodes s)(ip := (inodes s ip)\<lparr>i_addrs := (i_addrs (inodes s ip))(NDIRECT := b)\<rparr>) \<and>
      (\<forall>c. c \<noteq> b \<longrightarrow> c \<noteq> ?m \<longrightarrow> view s' c = view s c)"
      using indirect_alloc [OF t m q2 f fr 4(2)] by blast
    define s' where sd: "s' = set_addr ip NDIRECT b s1"
    have S: "tx {?m, b} s s'" "file_ok s' ip" "map_ok s'" "free_set s' = free_set s - {b}" "\<And>bn. addr_of s' ip bn = addr_of s ip bn"
      "\<And>x. x < MAXFILE * BSIZE \<Longrightarrow> content s' ip x = content s ip x"
      "inodes s' = (inodes s)(ip := (inodes s ip)\<lparr>i_addrs := (i_addrs (inodes s ip))(NDIRECT := b)\<rparr>)"
      "\<And>c. c \<noteq> b \<Longrightarrow> c \<noteq> ?m \<Longrightarrow> view s' c = view s c"
      using S by (simp_all add: sd Let_def)
    have i': "i_addrs (inodes s' ip) NDIRECT = b" by (simp add: S(7))
    have a0: "addr_of s' ip bn = 0" unfolding S(5) using 4 by (simp add: addr_of_def)
    have t': "txn s'" and mb: "bmap_blk s' = ?m" using S(1) iframe_fields(10) [of s s'] by (simp_all add: tx_def bmap_blk_def)
    have c: "card ({?m, b} - set (txn_blocks s)) \<le> 2"
      using card_mono [of "{?m, b}" "{?m, b} - set (txn_blocks s)"] by (auto simp: card_insert_if split: if_splits)
    have q': "quota 2 2 s'" by (rule tx_quota [OF S(1) t _ c]) (use q in simp_all)
    have ml': "bmap_blk s' \<notin> set (txn_blocks s') \<Longrightarrow> quota 3 3 s'" using ml unfolding mb by (simp add: sd set_addr_def)
    have "card (free_set s') = card (free_set s) - 1" using 1(3) by (simp add: S(4))
    then have fr': "1 \<le> card (free_set s')" "card (free_set s) \<le> card (free_set s') + 1" using fr by auto
    obtain a s2 where 2: "bmap ip bn s' = Inr (a, s2)" and P: "bmap_post s' ip bn a s2" and c2: "card (free_set s') \<le> card (free_set s2) + 1"
      using bmap_indirect_new [OF t' S(3) q' ml' S(2) fr'(1) 4(1) bn a0] i' 1(2) by auto
    note P = P [unfolded bmap_post_def grow_def]
    have nb: "\<not> bn < NDIRECT" "bn - NDIRECT < NINDIRECT" using 4(1) bn by (simp_all add: fs_consts)
    have "bmap ip bn s = bmap ip bn s'"
      unfolding bmap_def Let_def if_not_P [OF nb(1)] if_P [OF nb(2)] i' using 4(2) 1 file_okD(5) [OF f] by (simp add: sd [symmetric])
    then have run: "bmap ip bn s = Inr (a, s2)" using 2 by simp
    have is0: "inds s ip = {}" and is1: "inds s' ip = {b}" using 4(2) i' 1(2) by (auto simp: inds_def)
    have is2: "inds s2 ip = {b}" using P is1 by (auto simp: inds_def)
    obtain A where "inodes s2 = (inodes s')(ip := (inodes s' ip)\<lparr>i_addrs := A\<rparr>)" using P by blast
    then have A: "\<exists>A. inodes s2 = (inodes s)(ip := (inodes s ip)\<lparr>i_addrs := A\<rparr>)" by (intro exI [of _ A]) (simp add: S(7))
    have tx2: "tx ({?m} \<union> inds s2 ip \<union> addr_of s2 ip ` {bn}) s s2"
      by (rule tx_mono [OF tx_trans [OF S(1), of "{?m} \<union> inds s2 ip \<union> addr_of s2 ip ` {bn}"]]) (use P is2 mb in auto)
    have vw: "view s2 c = view s c" if "c \<notin> free_set s \<union> {?m} \<union> inds s ip \<union> addr_of s ip ` {bn}" for c
    proof -
      have c: "c \<noteq> b" "c \<noteq> ?m" "c \<notin> free_set s'" using that 1(3) S(4) by auto
      then show ?thesis using P S(5) S(8) [OF c(1,2)] that is1 mb by auto
    qed
    have fr2: "free_set s2 \<subseteq> free_set s" "free_set s' \<subseteq> free_set s" "card (free_set s) \<le> card (free_set s2) + 2 * card {bn}"
      using P S(4) c2 fr' by auto
    have ad2: "addr_of s2 ip cn = addr_of s ip cn \<or> cn \<in> {bn} \<and> addr_of s ip cn = 0 \<and> addr_of s2 ip cn \<in> free_set s" if "cn < MAXFILE" for cn
      using P that fr2(2) unfolding S(5) by blast
    have "grow s ip {bn} s2"
      unfolding grow_def using P tx2 vw A fr2(1,3) ad2 is0 is2 1(3) by auto
    then have "bmap_post s ip bn a s2" unfolding bmap_post_def using P S(6) by simp
    with run show ?thesis by blast
  qed
qed

end
