(* ===== verification/FileWrite.thy ===== *)
theory FileWrite
  imports FileData
begin

text \<open>
  Writing files: the loop of \<^verbatim>\<open>writei\<close> as a sequence of \<open>grow\<close> steps, the update of the inode at its end, and the properties of \<^verbatim>\<open>readi\<close> and
  \<^verbatim>\<open>writei\<close> as operations on the abstract file. The source of a write is a kernel object or mapped user memory (\<open>copies\<close>). The number of logged
  blocks is bounded by the set of blocks that the steps touch, and the log slots and buffers that a write needs are counted (\<open>quota\<close>).
\<close>

section \<open>The source of a write\<close>

text \<open>A user copy of mapped bytes, whatever pages they are on.\<close>

lemma user_pa_page:
  assumes "k < PGSIZE - (va - PGROUNDDOWN va)"
  shows "user_pa m pagetable (va + k) =
    (if translate m pagetable (PGROUNDDOWN va) = 0 then None else Some (translate m pagetable (PGROUNDDOWN va) + (va - PGROUNDDOWN va) + k))"
proof -
  have "va mod 4096 + k < 4096" using assms mod_div_mult_eq [of va 4096] by (simp add: PGROUNDDOWN_def PGSIZE_def minus_div_mult_eq_mod)
  then have "(va + k) div 4096 = va div 4096" using div_add1_eq [of va k 4096] by simp
  then have "PGROUNDDOWN (va + k) = PGROUNDDOWN va" by (simp add: PGROUNDDOWN_def)
  moreover have "PGROUNDDOWN va \<le> va" by (simp add: PGROUNDDOWN_def)
  ultimately show ?thesis by (auto simp: user_pa_def Let_def)
qed

lemma copyin_bytes:
  "\<forall>k < len. \<exists>pa. user_pa (mem s) pagetable (srcva + k) = Some pa \<and> mem s pa = w k \<Longrightarrow>
   copyin pagetable dst doff srcva len s = Inr (0, blit dst doff w 0 len, s)"
proof (induction len arbitrary: dst doff srcva w rule: less_induct)
  case (less len)
  show ?case
  proof (cases "len = 0")
    case True
    then show ?thesis by (subst copyin.simps) simp
  next
    case False
    let ?va0 = "PGROUNDDOWN srcva" and ?r = "PGSIZE - (srcva - PGROUNDDOWN srcva)"
    let ?pa0 = "translate (mem s) pagetable ?va0"
    define n where "n = (if ?r > len then len else ?r)"
    have r: "1 \<le> ?r" using page_room [of srcva] by simp
    have n: "0 < n" "n \<le> len" "n \<le> ?r" using False r by (auto simp: n_def)
    have "0 < len" using False by simp
    then obtain q where "user_pa (mem s) pagetable (srcva + 0) = Some q" using less.prems by blast
    moreover have "0 < ?r" using r by linarith
    ultimately have pa: "?pa0 \<noteq> 0" using user_pa_page [of 0 srcva "mem s" pagetable] by (metis option.distinct(1))
    have b: "blit dst doff (mem s) (?pa0 + (srcva - ?va0)) n = blit dst doff w 0 n"
    proof (rule blit_cong)
      fix k assume k: "k < n"
      then have "k < len" using n(2) by simp
      then obtain q where "user_pa (mem s) pagetable (srcva + k) = Some q" "mem s q = w k" using less.prems by blast
      then show "mem s (?pa0 + (srcva - ?va0) + k) = w (0 + k)"
        using user_pa_page [of k srcva "mem s" pagetable] k n(3) pa by simp
    qed
    have u: "copyin pagetable dst doff srcva len s = copyin pagetable (blit dst doff w 0 n) (doff + n) (?va0 + PGSIZE) (len - n) s"
      by (subst copyin.simps) (use False pa b in \<open>simp add: walkaddr_translate Let_def n_def\<close>)
    show ?thesis
    proof (cases "n = len")
      case True
      then show ?thesis using u by (subst (asm) (2) copyin.simps) simp
    next
      case False
      then have e: "?va0 + PGSIZE = srcva + n" by (auto simp: n_def PGROUNDDOWN_def PGSIZE_def split: if_splits)
      have "copyin pagetable (blit dst doff w 0 n) (doff + n) (srcva + n) (len - n) s =
          Inr (0, blit (blit dst doff w 0 n) (doff + n) (\<lambda>k. w (n + k)) 0 (len - n), s)"
        by (rule less.IH) (use n less.prems in \<open>auto simp: add.assoc\<close>)
      moreover have "blit (blit dst doff w 0 n) (doff + n) (\<lambda>k. w (n + k)) 0 (len - n) = blit dst doff w 0 len"
        using n(2) by (auto simp: blit_def fun_eq_iff)
      ultimately show ?thesis using u by (simp add: e)
    qed
  qed
qed

text \<open>The \<open>n\<close> bytes \<open>w\<close> that \<^verbatim>\<open>either_copyin\<close> finds at \<open>src\<close>: in mapped pages of the current process, or in a kernel object.\<close>

definition copies :: "bool \<Rightarrow> nat \<Rightarrow> bytes \<Rightarrow> nat \<Rightarrow> (nat \<Rightarrow> byte) \<Rightarrow> 'a istate_scheme \<Rightarrow> bool" where
  "copies us src kobj n w s \<longleftrightarrow> src + n < 18446744073709551616 \<and>
     (\<forall>k < n. if us then \<exists>pa. user_pa (mem s) (mypt s) (src + k) = Some pa \<and> mem s pa = w k else kobj (src + k) = w k)"

lemma copies_kernel: "src + n < 18446744073709551616 \<Longrightarrow> copies False src kobj n (\<lambda>i. kobj (src + i)) s"
  by (simp add: copies_def)

lemma copies_step: "copies us src kobj n w s \<Longrightarrow> m \<le> n \<Longrightarrow> copies us (src + m) kobj (n - m) (\<lambda>k. w (m + k)) s"
  by (auto simp: copies_def add.assoc)

lemma copies_frame:
  assumes "iframe s t" and "copies us src kobj n w s"
  shows "copies us src kobj n w t"
proof -
  have "mem t = mem s" "procs t = procs s" "myproc t = myproc s" using assms(1) by (auto simp: iframe_def myproc_def)
  then show ?thesis using assms(2) by (simp add: copies_def)
qed

lemma either_copyin_copies:
  assumes "copies us src kobj n w s" and "l \<le> n"
  shows "either_copyin d doff us src kobj l s = Inr (0, blit d doff w 0 l, s)"
proof (cases us)
  case True
  then show ?thesis using assms by (simp add: either_copyin_def copies_def copyin_bytes)
next
  case False
  then have "blit d doff kobj src l = blit d doff w 0 l" using assms by (intro blit_cong) (simp add: copies_def)
  then show ?thesis using False by (simp add: either_copyin_def)
qed

section \<open>Writing\<close>

lemma grow_refl: "txn s \<Longrightarrow> file_ok s ip \<Longrightarrow> map_ok s \<Longrightarrow> grow s ip {} s"
  unfolding grow_def using tx_mono [OF tx_refl] by (auto intro!: exI [of _ "i_addrs (inodes s ip)"])

lemma grow_trans:
  fixes s :: "'a istate_scheme"
  assumes g: "grow s ip J t" and h: "grow t ip K u" and J: "J \<inter> K = {}" "finite J" "finite K" "J \<union> K \<subseteq> {..<MAXFILE}"
  shows "grow s ip (J \<union> K) u"
proof -
  note G = g [unfolded grow_def] and H = h [unfolded grow_def]
  have m: "bmap_blk t = bmap_blk s" using G iframe_fields(10) [of s t] by (simp add: tx_def bmap_blk_def)
  have ad: "addr_of u ip cn = addr_of s ip cn \<or> cn \<in> J \<union> K \<and> addr_of s ip cn = 0 \<and> addr_of u ip cn \<in> free_set s" if "cn < MAXFILE" for cn
  proof -
    have 1: "addr_of t ip cn = addr_of s ip cn \<or> cn \<in> J \<and> addr_of s ip cn = 0 \<and> addr_of t ip cn \<in> free_set s" using G that by blast
    have 2: "addr_of u ip cn = addr_of t ip cn \<or> cn \<in> K \<and> addr_of t ip cn = 0 \<and> addr_of u ip cn \<in> free_set t" using H that by blast
    have "free_set t \<subseteq> free_set s" using G by blast
    then show ?thesis using 1 2 J(1) by auto
  qed
  have same: "addr_of u ip cn = addr_of t ip cn" if "cn \<in> J" for cn
  proof -
    have "addr_of t ip cn \<noteq> 0" "cn < MAXFILE" using G that J(4) by auto
    then show ?thesis using H by metis
  qed
  have nz: "addr_of u ip cn \<noteq> 0" if "cn \<in> J \<union> K" for cn using that same G H by (metis UnE)
  have tx: "tx ({bmap_blk s} \<union> inds u ip \<union> addr_of u ip ` (J \<union> K)) s u"
  proof (rule tx_mono [OF tx_trans])
    show "tx ({bmap_blk s} \<union> inds t ip \<union> addr_of t ip ` J) s t" using G by blast
    show "tx ({bmap_blk s} \<union> inds u ip \<union> addr_of u ip ` K) t u" using H m by simp
    have "addr_of t ip ` J = addr_of u ip ` J" using same by force
    then show "{bmap_blk s} \<union> inds t ip \<union> addr_of t ip ` J \<union> ({bmap_blk s} \<union> inds u ip \<union> addr_of u ip ` K)
        \<subseteq> {bmap_blk s} \<union> inds u ip \<union> addr_of u ip ` (J \<union> K)" using H by auto
  qed
  have vw: "view u b = view s b" if b: "b \<notin> free_set s \<union> {bmap_blk s} \<union> inds s ip \<union> addr_of s ip ` (J \<union> K)" for b
  proof -
    have "b \<notin> addr_of t ip ` K"
    proof
      assume "b \<in> addr_of t ip ` K"
      then obtain cn where cn: "cn \<in> K" "b = addr_of t ip cn" by blast
      then have "cn \<notin> J" "cn < MAXFILE" using J by auto
      then have "addr_of t ip cn = addr_of s ip cn" using G by blast
      then show False using b cn by auto
    qed
    moreover have "b \<notin> free_set t" "b \<notin> inds t ip" "b \<noteq> bmap_blk t" using b G m by auto
    ultimately have "view u b = view t b" using H by blast
    also have "view t b = view s b" using G b by blast
    finally show ?thesis .
  qed
  obtain A B where "inodes t = (inodes s)(ip := (inodes s ip)\<lparr>i_addrs := A\<rparr>)" "inodes u = (inodes t)(ip := (inodes t ip)\<lparr>i_addrs := B\<rparr>)"
    using G H by blast
  then have I: "\<exists>A. inodes u = (inodes s)(ip := (inodes s ip)\<lparr>i_addrs := A\<rparr>)" by (intro exI [of _ B]) simp
  have "card (J \<union> K) = card J + card K" using J by (simp add: card_Un_disjoint)
  then have c: "card (free_set s) \<le> card (free_set u) + 2 * card (J \<union> K)" "free_set u \<subseteq> free_set s" "inds s ip \<subseteq> inds u ip"
    "inds u ip \<subseteq> inds s ip \<union> free_set s" using G H by auto
  show ?thesis unfolding grow_def using tx vw I c nz ad H by blast
qed

lemma write_data:
  fixes s :: "'a istate_scheme"
  assumes p: "bmap_post s ip bn a s1" and bn: "bn < MAXFILE" and t: "tx {a} s1 s3" "tframe s1 s3" and v: "view s3 = (view s1)(a := d)"
  shows "grow s ip {bn} s3"
    and "x < MAXFILE * BSIZE \<Longrightarrow> content s3 ip x = (if x div BSIZE = bn then d (x mod BSIZE) else content s ip x)"
proof -
  note P = p [unfolded bmap_post_def grow_def]
  have a: "a = addr_of s1 ip bn" "a \<noteq> 0" using P by auto
  have f: "file_ok s1 ip" using P by blast
  have da: "data_blk s1 a" using file_okD(1) [OF f bn] a by simp
  have I: "inodes s3 = inodes s1" "sb s3 = sb s1" "home s3 = home s1" "lock_of s3 = lock_of s1"
    using tframe_inodes [OF t(2)] tframe_fields(11) [OF t(2)] t(1) by (simp_all add: tx_def)
  have m: "bmap_blk s3 = bmap_blk s1" "iblocks s3 = iblocks s1" "bmap_blk s1 = bmap_blk s"
    using P iframe_fields(10) [of s s1] by (simp_all add: bmap_blk_def iblocks_def I tx_def)
  have fr: "free_set s3 = free_set s1" by (rule free_set_cong) (use I da v in \<open>auto simp: data_blk_def\<close>)
  have ai: "i_addrs (inodes s1 ip) NDIRECT \<noteq> a" using file_okD(4) [OF f bn] a by auto
  have ad: "addr_of s3 ip cn = addr_of s1 ip cn" for cn using ai by (simp add: addr_of_def I v)
  have ind: "inds s3 ip = inds s1 ip" by (simp add: inds_def I)
  have db: "data_blk s3 = data_blk s1" using I fr m by (simp add: data_blk_def fun_eq_iff)
  have "file_ok s3 ip" by (rule file_okI) (use file_okD [OF f] in \<open>simp_all add: ad db I\<close>)
  moreover have "map_ok s3" using P by (simp add: map_ok_def I m fr)
  moreover have "tx ({bmap_blk s} \<union> inds s3 ip \<union> addr_of s3 ip ` {bn}) s s3"
    by (rule tx_mono [OF tx_trans [OF _ t(1), of "{bmap_blk s} \<union> inds s1 ip \<union> addr_of s1 ip ` {bn}"]]) (use P ind ad a in auto)
  moreover have "view s3 b = view s b" if b: "b \<notin> free_set s \<union> {bmap_blk s} \<union> inds s ip \<union> addr_of s ip ` {bn}" for b
  proof -
    have "addr_of s1 ip bn = addr_of s ip bn \<or> addr_of s1 ip bn \<in> free_set s" using P bn by blast
    then have "b \<noteq> a" using b a(1) by auto
    then show ?thesis using b P by (simp add: v)
  qed
  ultimately show "grow s ip {bn} s3" unfolding grow_def ad ind I fr using P by simp
  show "content s3 ip x = (if x div BSIZE = bn then d (x mod BSIZE) else content s ip x)" if x: "x < MAXFILE * BSIZE"
  proof -
    have xb: "x div BSIZE < MAXFILE" using x by (simp add: less_mult_imp_div_less)
    have "addr_of s1 ip (x div BSIZE) \<noteq> a" if "x div BSIZE \<noteq> bn" "addr_of s1 ip (x div BSIZE) \<noteq> 0"
      using file_okD(3) [OF f xb bn] that a by auto
    then have "content s3 ip x = (if x div BSIZE = bn then d (x mod BSIZE) else content s1 ip x)"
      using a by (auto simp: content_def ad v)
    then show ?thesis using P x by simp
  qed
qed

lemma writei_loop_step:
  assumes "tot < n" and "bmap ip (off div BSIZE) s = Inr (a, s1)" and "bread (i_dev (inodes s1 ip)) a s1 = Inr (b, s2)"
    and "m = min (n - tot) (BSIZE - off mod BSIZE)" and "either_copyin (bdata s2 b) (off mod BSIZE) us src kobj m s2 = Inr (0, d, s2)"
    and "bindE (log_write b (set_bdata b d s2)) (brelse b) = Inr s3"
  shows "writei_loop ip us src kobj off tot n s = writei_loop ip us (u64 (src + m)) kobj (off + m) (tot + m) n s3"
proof -
  obtain s2' where l: "log_write b (set_bdata b d s2) = Inr s2'" "brelse b s2' = Inr s3" using assms(6) by (auto simp: bindE_iff)
  show ?thesis
    unfolding writei_loop.simps [of ip us src kobj off tot n s]
    using assms(1-3,5) l by (simp add: Let_def assms(4) [symmetric])
qed

text \<open>One turn of the loop.\<close>

lemma write_turn:
  fixes s :: "'a istate_scheme"
  assumes t: "txn s" and mo: "map_ok s" and q: "quota 4 4 s" and f: "file_ok s ip" and fr: "2 \<le> card (free_set s)"
    and bn: "off div BSIZE < MAXFILE" and md: "m = min (n - tot) (BSIZE - off mod BSIZE)" and tot: "tot < n"
    and cp: "copies us src kobj (n - tot) w s"
  shows "\<exists>s3. writei_loop ip us src kobj off tot n s = writei_loop ip us (u64 (src + m)) kobj (off + m) (tot + m) n s3 \<and>
    grow s ip {off div BSIZE} s3 \<and>
    (\<forall>x < MAXFILE * BSIZE. content s3 ip x = (if off \<le> x \<and> x < off + m then w (x - off) else content s ip x))"
proof -
  let ?bn = "off div BSIZE"
  obtain a s1 where 1: "bmap ip ?bn s = Inr (a, s1)" and p: "bmap_post s ip ?bn a s1" using bmap_spec [OF t mo q f fr bn] by blast
  note P = p [unfolded bmap_post_def grow_def]
  have t1: "txn s1" and f1: "file_ok s1 ip" and a: "a = addr_of s1 ip ?bn" "a \<noteq> 0" using P by (auto simp: tx_def)
  have da: "data_blk s1 a" using file_okD(1) [OF f1 bn] a by simp
  then have A: "lock_of s1 a = None" "a < LOGICAL_DISK_SIZE" "a \<in> home s1" by (auto simp: data_blk_def home_def)
  let ?N = "{bmap_blk s} \<union> inds s1 ip \<union> addr_of s1 ip ` {?bn}"
  have "?N \<subseteq> {bmap_blk s, i_addrs (inodes s1 ip) NDIRECT, a}" using a by (auto simp: inds_def)
  then have cN: "finite ?N" "card ?N \<le> 3" using card_mono [of "{bmap_blk s, i_addrs (inodes s1 ip) NDIRECT, a}" ?N]
    by (auto simp: inds_def intro: order_trans [OF _ card_insert_le_m1] simp: card_insert_if split: if_splits)
  have cN': "card (?N - set (txn_blocks s)) \<le> 3" using card_mono [OF cN(1), of "?N - set (txn_blocks s)"] cN(2) by auto
  have q1: "quota 1 1 s1" by (rule tx_quota [OF _ t cN(1) cN']) (use P q in simp_all)
  obtain b s2 where 2: "bread ROOTDEV a s1 = Inr (b, s2)" and h: "held s1 a b s2" using bread_held_room [OF t1 A(1,2) quota_room [OF q1]] by blast
  note H = h [unfolded held_def] and F = held_fields [OF h]
  let ?d = "blit (bdata s2 b) (off mod BSIZE) w 0 m"
  have "iframe s s2" using P F(13) iframe_trans [of s s1 s2] by (simp add: tx_def)
  from either_copyin_copies [OF copies_frame [OF this cp]]
  have ec: "either_copyin (bdata s2 b) (off mod BSIZE) us src kobj m s2 = Inr (0, ?d, s2)" by (simp add: md)
  have mb: "m \<le> BSIZE - off mod BSIZE" "off mod BSIZE < BSIZE" by (simp_all add: md BSIZE_def)
  have "blk_ok (bdata s2 b)" using H t1 by (simp add: txn_def)
  then have ok: "blk_ok ?d" using mb by (auto simp: blk_ok_def blit_def)
  have "tx {} s2 s2" "can_log s2" using H q1 F by (simp_all add: tx_refl quota_def can_log_def)
  from held_update [OF t1 h A(1) this(1) A(3) this(2) ok] obtain s3 where 3:
    "bindE (log_write b (set_bdata b ?d s2)) (brelse b) = Inr s3" "tx {a} s1 s3" "tframe s2 s3" "view s3 = (view s1)(a := ?d)"
    using H by auto
  have t3: "tframe s1 s3" using 3(3) H frame_tframe tframe_trans by blast
  note W = write_data [OF p bn 3(2) t3 3(4)]
  have rd: "bread (i_dev (inodes s1 ip)) a s1 = Inr (b, s2)" using 2 file_okD(5) [OF f1] by simp
  have c: "content s3 ip x = (if off \<le> x \<and> x < off + m then w (x - off) else content s ip x)" if x: "x < MAXFILE * BSIZE" for x
  proof (cases "x div BSIZE = ?bn")
    case True
    then have xe: "x = ?bn * BSIZE + x mod BSIZE" and oe: "off = ?bn * BSIZE + off mod BSIZE" by (metis div_mult_mod_eq)+
    have "content s ip x = view s1 a (x mod BSIZE)" using P x True a by (auto simp: content_def)
    moreover have "off \<le> x \<and> x < off + m \<longleftrightarrow> off mod BSIZE \<le> x mod BSIZE \<and> x mod BSIZE < off mod BSIZE + m"
      "off mod BSIZE \<le> x mod BSIZE \<Longrightarrow> x mod BSIZE - off mod BSIZE = x - off" using xe oe by linarith+
    ultimately show ?thesis using W(2) [OF x] True H by (auto simp: blit_def)
  next
    case False
    then have "\<not> (off \<le> x \<and> x < off + m)" using in_block [of "x - off" off] mb by force
    then show ?thesis using W(2) [OF x] False by auto
  qed
  show ?thesis using writei_loop_step [OF tot 1 rd md ec 3(1)] W(1) c by blast
qed

definition touched :: "nat \<Rightarrow> nat \<Rightarrow> nat set" where
  "touched off l = (\<lambda>x. x div BSIZE) ` {off..<off + l}"

lemma touched_step:
  assumes "m = min l (BSIZE - off mod BSIZE)" and "0 < l"
  shows "touched off l = insert (off div BSIZE) (touched (off + m) (l - m))" and "off div BSIZE \<notin> touched (off + m) (l - m)"
proof -
  have m: "0 < m" "m \<le> l" "m \<le> BSIZE - off mod BSIZE" using assms mod_less_divisor [of BSIZE off] by (auto simp: BSIZE_def)
  then have r: "{off..<off + l} = {off..<off + m} \<union> {off + m..<off + m + (l - m)}" by auto
  have b: "x div BSIZE = off div BSIZE" if "off \<le> x" "x < off + m" for x
  proof -
    have "x - off < BSIZE - off mod BSIZE" using that m(3) by linarith
    from in_block [OF this] show ?thesis using that(1) by simp
  qed
  have "(\<lambda>x. x div BSIZE) ` {off..<off + m} = (\<lambda>_. off div BSIZE) ` {off..<off + m}"
    by (rule image_cong [OF refl]) (rule b, simp_all)
  also have "\<dots> = {off div BSIZE}" using m(1) by (simp add: image_constant_conv)
  finally have "(\<lambda>x. x div BSIZE) ` {off..<off + m} = {off div BSIZE}" .
  then show "touched off l = insert (off div BSIZE) (touched (off + m) (l - m))" unfolding touched_def r by auto
  have "x div BSIZE \<noteq> off div BSIZE" if "off + m \<le> x" "x < off + l" for x
  proof -
    have "off mod BSIZE < BSIZE" by (simp add: BSIZE_def)
    then have "m + off mod BSIZE = BSIZE" using assms(1) that by auto
    then have "(off div BSIZE) * BSIZE + BSIZE \<le> x" using that(1) div_mult_mod_eq [of off BSIZE] by linarith
    then have "Suc (off div BSIZE) * BSIZE \<le> x" by simp
    then have "Suc (off div BSIZE) \<le> x div BSIZE" using less_eq_div_iff_mult_less_eq [of BSIZE] by (simp add: BSIZE_def)
    then show ?thesis by simp
  qed
  note ne = this
  show "off div BSIZE \<notin> touched (off + m) (l - m)"
  proof
    assume "off div BSIZE \<in> touched (off + m) (l - m)"
    then obtain x where "off + m \<le> x" "x < off + l" "off div BSIZE = x div BSIZE" using m(2) by (auto simp: touched_def)
    then show False using ne [of x] by simp
  qed
qed

lemma finite_touched [simp]: "finite (touched off l)"
  by (simp add: touched_def)

lemma grow_log:
  assumes "grow s ip J t" and "txn s" and "finite J"
  shows "finite ({bmap_blk s} \<union> inds t ip \<union> addr_of t ip ` J)" and "card ({bmap_blk s} \<union> inds t ip \<union> addr_of t ip ` J) \<le> 2 + card J"
proof -
  show "finite ({bmap_blk s} \<union> inds t ip \<union> addr_of t ip ` J)" using assms(3) by (simp add: inds_def)
  have "card ({bmap_blk s} \<union> inds t ip \<union> addr_of t ip ` J) \<le> card {bmap_blk s} + card (inds t ip) + card (addr_of t ip ` J)"
    by (meson add_le_mono1 card_Un_le order_trans)
  moreover have "card (inds t ip) \<le> 1" by (cases "i_addrs (inodes t ip) NDIRECT = 0") (auto simp: inds_def)
  moreover have "card (addr_of t ip ` J) \<le> card J" using assms(3) by (rule card_image_le)
  ultimately show "card ({bmap_blk s} \<union> inds t ip \<union> addr_of t ip ` J) \<le> 2 + card J" by simp
qed

lemma grow_quota:
  assumes "grow s ip J t" and "txn s" and "finite J" and "quota (2 + card J + k) (2 + card J + r) s"
  shows "quota k r t"
proof -
  note L = grow_log [OF assms(1-3)]
  have "card (({bmap_blk s} \<union> inds t ip \<union> addr_of t ip ` J) - set (txn_blocks s)) \<le> 2 + card J"
    using card_mono [OF L(1)] L(2) by (meson Diff_subset order_trans)
  from tx_quota [OF _ assms(2) L(1) this assms(4)] show ?thesis using assms(1) by (simp add: grow_def)
qed

lemma writei_loop_copies:
  fixes s0 :: "'a istate_scheme"
  assumes "grow s0 ip J s" and "txn s0" and "quota (5 + L) (5 + L) s0" and "2 * L \<le> card (free_set s0)"
    and "finite J" and "J \<subseteq> {..<MAXFILE}" and "J \<inter> touched off (n - tot) = {}" and "card J + card (touched off (n - tot)) \<le> L"
    and "off + (n - tot) \<le> MAXFILE * BSIZE" and "tot \<le> n" and "copies us src kobj (n - tot) w s"
  shows "\<exists>s'. writei_loop ip us src kobj off tot n s = Inr (off + (n - tot), s') \<and> grow s0 ip (J \<union> touched off (n - tot)) s' \<and>
    (\<forall>x < MAXFILE * BSIZE. content s' ip x = (if off \<le> x \<and> x < off + (n - tot) then w (x - off) else content s ip x))"
  using assms
proof (induction "n - tot" arbitrary: s src off tot J w rule: less_induct)
  case less
  show ?case
  proof (cases "tot < n")
    case False
    then show ?thesis using less.prems(1,10) by (subst writei_loop.simps) (auto simp: touched_def)
  next
    case True
    let ?bn = "off div BSIZE" and ?l = "n - tot"
    define m where md: "m = min ?l (BSIZE - off mod BSIZE)"
    have m: "0 < m" "m \<le> ?l" using True mod_less_divisor [of BSIZE off] by (auto simp: md BSIZE_def)
    note T = touched_step [OF md] 
    have l: "0 < ?l" using True by simp
    note T = T [OF l]
    have bnJ: "?bn \<notin> J" and bnM: "?bn < MAXFILE" using less.prems(7,9) T(1) l by (auto intro: less_mult_imp_div_less)
    have cT: "card (touched off ?l) = Suc (card (touched (off + m) (?l - m)))" unfolding T(1) using T(2) by simp
    note G = less.prems(1) [unfolded grow_def]
    have s: "txn s" "map_ok s" "file_ok s ip" using G by (auto simp: tx_def)
    have cJ: "card J + 1 \<le> L" using less.prems(8) cT by simp
    then have fr: "2 \<le> card (free_set s)" using G less.prems(4) by auto
    have "quota (2 + card J + 4) (2 + card J + 4) s0" using less.prems(3) by (rule quota_mono) (use cJ in simp_all)
    then have q: "quota 4 4 s" by (rule grow_quota [OF less.prems(1,2,5)])
    obtain s3 where 3: "writei_loop ip us src kobj off tot n s = writei_loop ip us (u64 (src + m)) kobj (off + m) (tot + m) n s3"
      "grow s ip {?bn} s3"
      "\<And>x. x < MAXFILE * BSIZE \<Longrightarrow> content s3 ip x = (if off \<le> x \<and> x < off + m then w (x - off) else content s ip x)"
      using write_turn [OF s(1,2) q s(3) fr bnM md True less.prems(11)] by blast
    have g3: "grow s0 ip (J \<union> {?bn}) s3" by (rule grow_trans [OF less.prems(1) 3(2)]) (use bnJ bnM less.prems(5,6) in auto)
    have e: "n - (tot + m) = ?l - m" by simp
    have u: "u64 (src + m) = src + m" using less.prems(11) m by (intro u64_id) (unfold copies_def, linarith)
    have fr3: "iframe s s3" using 3(2) by (simp add: grow_def tx_def)
    have cp: "copies us (src + m) kobj (?l - m) (\<lambda>k. w (m + k)) s3"
      by (rule copies_frame [OF fr3 copies_step [OF less.prems(11) m(2)]])
    have "\<exists>s'. writei_loop ip us (src + m) kobj (off + m) (tot + m) n s3 = Inr (off + m + (n - (tot + m)), s') \<and>
      grow s0 ip ((J \<union> {?bn}) \<union> touched (off + m) (n - (tot + m))) s' \<and>
      (\<forall>x < MAXFILE * BSIZE. content s' ip x =
         (if off + m \<le> x \<and> x < off + m + (n - (tot + m)) then w (m + (x - (off + m))) else content s3 ip x))"
    proof (rule less.hyps)
      show "n - (tot + m) < n - tot" "off + m + (n - (tot + m)) \<le> MAXFILE * BSIZE" "tot + m \<le> n"
        using m True less.prems(9) by linarith+
      show "copies us (src + m) kobj (n - (tot + m)) (\<lambda>k. w (m + k)) s3" using cp unfolding e .
      show "(J \<union> {?bn}) \<inter> touched (off + m) (n - (tot + m)) = {}" using less.prems(7) T unfolding e by auto
      show "card (J \<union> {?bn}) + card (touched (off + m) (n - (tot + m))) \<le> L" using less.prems(5,8) bnJ cT unfolding e by simp
    qed (use g3 less.prems bnM in auto)
    then obtain s' where s': "writei_loop ip us (src + m) kobj (off + m) (tot + m) n s3 = Inr (off + ?l, s')"
      "grow s0 ip (J \<union> touched off ?l) s'"
      "\<And>x. x < MAXFILE * BSIZE \<Longrightarrow> content s' ip x = (if off + m \<le> x \<and> x < off + ?l then w (m + (x - (off + m))) else content s3 ip x)"
      using m True unfolding e T(1) by auto
    have "content s' ip x = (if off \<le> x \<and> x < off + ?l then w (x - off) else content s ip x)" if x: "x < MAXFILE * BSIZE" for x
    proof (cases "off + m \<le> x")
      case True
      then have "m + (x - (off + m)) = x - off" by simp
      then show ?thesis using s'(3) [OF x] 3(3) [OF x] True by auto
    qed (use s'(3) [OF x] 3(3) [OF x] m(2) in auto)
    then show ?thesis using 3(1) u s'(1,2) by auto
  qed
qed

lemma size_update_file:
  fixes s :: "'a istate_scheme" and v :: nat
  assumes "file_ok s ip" and "txn s"
  defines "s' \<equiv> upd_inode ip (\<lambda>x. x\<lparr>i_size := v\<rparr>) s"
  shows "file_ok s' ip" and "addr_of s' ip = addr_of s ip" and "content s' ip = content s ip" and "free_set s' = free_set s" and "map_ok s' = map_ok s"
proof -
  have e: "view s' = view s" "sb s' = sb s" "home s' = home s" "lock_of s' = lock_of s" by (simp_all add: s'_def)
  show a: "addr_of s' ip = addr_of s ip" by (rule ext, rule addr_of_cong) (simp_all add: s'_def)
  show "content s' ip = content s ip" unfolding content_def a e by (rule refl)
  show f: "free_set s' = free_set s" by (rule free_set_cong) (simp_all add: e)
  show "map_ok s' = map_ok s" by (simp add: map_ok_def e f bmap_blk_def iblocks_def)
  have "tx {} s s'" unfolding s'_def using tx_refl [OF assms(2)] by (rule tx_upd_inode)
  then show "file_ok s' ip" by (rule same_file(1) [OF assms(1)]) (simp_all add: s'_def f [unfolded s'_def])
qed

text \<open>The file \<open>jp\<close> shares no block with the file \<open>ip\<close>.\<close>

definition apart :: "'a istate_scheme \<Rightarrow> nat \<Rightarrow> nat \<Rightarrow> bool" where
  "apart s ip jp \<longleftrightarrow> (\<forall>k \<le> MAXFILE. \<forall>l \<le> MAXFILE. blocks_of s jp l \<noteq> 0 \<longrightarrow> blocks_of s jp l \<noteq> blocks_of s ip k)"

definition write_post :: "'a istate_scheme \<Rightarrow> nat \<Rightarrow> nat \<Rightarrow> nat \<Rightarrow> (nat \<Rightarrow> byte) \<Rightarrow> 'a istate_scheme \<Rightarrow> bool" where
  "write_post s ip off n w s' \<longleftrightarrow> txn s' \<and> iframe s s' \<and> lock_of s' = lock_of s \<and> file_inv s' ip \<and> map_ok s' \<and>
     i_size (inodes s' ip) = max (i_size (inodes s ip)) (off + n) \<and>
     (\<exists>A v. inodes s' ip = (inodes s ip)\<lparr>i_addrs := A, i_size := v\<rparr>) \<and>
     (\<forall>x < MAXFILE * BSIZE. content s' ip x = (if off \<le> x \<and> x < off + n then w (x - off) else content s ip x)) \<and>
     (\<forall>j. j \<noteq> ip \<longrightarrow> inodes s' j = inodes s j) \<and> lh_n s' \<le> lh_n s + 3 + int (card (touched off n)) \<and>
     (\<forall>b. data_blk s b \<longrightarrow> b \<notin> inds s ip \<union> addr_of s ip ` touched off n \<longrightarrow> view s' b = view s b)"

lemma touched_less: "off + n \<le> MAXFILE * BSIZE \<Longrightarrow> touched off n \<subseteq> {..<MAXFILE}"
  by (auto simp: touched_def intro: less_mult_imp_div_less)

lemma mapped_after:
  assumes "mapped s ip sz" and "\<And>cn. cn < MAXFILE \<Longrightarrow> addr_of s ip cn \<noteq> 0 \<Longrightarrow> addr_of s' ip cn \<noteq> 0"
    and "\<And>cn. cn \<in> touched off n \<Longrightarrow> addr_of s' ip cn \<noteq> 0" and "off \<le> sz" and "off + n \<le> MAXFILE * BSIZE" and "sz \<le> MAXFILE * BSIZE"
  shows "mapped s' ip (max sz (off + n))"
  unfolding mapped_def
proof (intro allI impI)
  fix bn assume bn: "bn * BSIZE < max sz (off + n)"
  then have m: "bn < MAXFILE" using assms(5,6) by (metis (no_types) le_less_trans less_max_iff_disj less_le_trans mult_less_cancel2)
  show "addr_of s' ip bn \<noteq> 0"
  proof (cases "bn * BSIZE < sz")
    case True
    then show ?thesis using assms(1,2) m by (simp add: mapped_def)
  next
    case False
    then have "off \<le> bn * BSIZE" "bn * BSIZE < off + n" using bn assms(4) by auto
    moreover have "bn = bn * BSIZE div BSIZE" by (simp add: BSIZE_def)
    ultimately have "bn \<in> touched off n" unfolding touched_def by (intro image_eqI [of _ _ "bn * BSIZE"]) simp_all
    then show ?thesis by (rule assms(3))
  qed
qed

lemma writei_copies:
  fixes s :: "'a istate_scheme"
  assumes t: "txn s" and mo: "map_ok s" and f: "file_inv s ip" and num: "i_inum (inodes s ip) < sb_ninodes (sb s)"
    and lk: "lock_of s (IBLOCK (i_inum (inodes s ip)) (sb s)) = None" and off: "off \<le> i_size (inodes s ip)" and n: "off + n \<le> MAXFILE * BSIZE"
    and cp: "copies us src kobj n w s" and q: "quota (5 + card (touched off n)) (5 + card (touched off n)) s" and fr: "2 * card (touched off n) \<le> card (free_set s)"
  shows "\<exists>s'. writei ip us src kobj off n s = Inr (int n, s') \<and> write_post s ip off n w s'"
proof -
  let ?sz = "i_size (inodes s ip)" and ?T = "touched off n" and ?ib = "IBLOCK (i_inum (inodes s ip)) (sb s)"
  have F: "file_ok s ip" "mapped s ip ?sz" "?sz \<le> MAXFILE * BSIZE" using f by (simp_all add: file_inv_def)
  obtain s1 where 1: "writei_loop ip us src kobj off 0 n s = Inr (off + n, s1)" and g: "grow s ip ?T s1"
    and c1: "\<And>x. x < MAXFILE * BSIZE \<Longrightarrow> content s1 ip x = (if off \<le> x \<and> x < off + n then w (x - off) else content s ip x)"
    using writei_loop_copies [OF grow_refl [OF t F(1) mo] t q fr, of off n 0 us src kobj w] n cp by auto
  note G = g [unfolded grow_def]
  obtain A where A: "inodes s1 = (inodes s)(ip := (inodes s ip)\<lparr>i_addrs := A\<rparr>)" using G by blast
  have t1: "txn s1" "file_ok s1 ip" "map_ok s1" "lock_of s1 = lock_of s" "sb s1 = sb s" "home s1 = home s" "iframe s s1"
    using G iframe_fields(8,10) [of s s1] by (auto simp: tx_def)
  have i: "int_of_u32 n = int n" using n by (simp add: int_of_u32_def max_size)
  have guard: "\<not> (off > ?sz \<or> u32 (off + n) < off)" using off n by (simp add: cint_simps max_size)
  have ld: "addr_of s1 ip cn \<noteq> 0" if "cn < MAXFILE" "addr_of s ip cn \<noteq> 0" for cn
  proof -
    have "addr_of s1 ip cn = addr_of s ip cn" using G that by metis
    then show ?thesis using that by simp
  qed
  have mp: "mapped s1 ip (max ?sz (off + n))"
    by (rule mapped_after [OF F(2) ld _ off n F(3)]) (use G in auto)
  have vd: "view s1 b = view s b" if "data_blk s b" "b \<notin> inds s ip \<union> addr_of s ip ` ?T" for b
    using G that by (auto simp: data_blk_def)
  show ?thesis
  proof (cases "n = 0")
    case True
    then have w: "writei ip us src kobj off n s = Inr (int n, s1)"
      unfolding writei_def if_not_P [OF guard] using 1 n by (simp add: int_of_u32_def)
    have "lh_n s1 \<le> lh_n s + 3"
      using tx_lh [of _ s s1, OF _ t grow_log(1) [OF g t]] grow_log(2) [OF g t] G True by (auto simp: touched_def)
    moreover have "\<exists>A v. inodes s1 ip = (inodes s ip)\<lparr>i_addrs := A, i_size := v\<rparr>"
      by (rule exI [of _ A], rule exI [of _ ?sz]) (simp add: A)
    ultimately have "write_post s ip off n w s1"
      unfolding write_post_def file_inv_def using t1 mp F c1 vd A True off by (simp add: max_def)
    with w show ?thesis by blast
  next
    case False
    let ?s2 = "upd_inode ip (\<lambda>x. x\<lparr>i_size := max ?sz (off + n)\<rparr>) s1"
    have e2: "(if off + n > i_size (inodes s1 ip) then upd_inode ip (\<lambda>x. x\<lparr>i_size := off + n\<rparr>) s1 else s1) = ?s2"
      using A by (auto simp: max_def upd_inode_def fun_upd_idem_iff)
    note S = size_update_file [OF t1(2,1), of "max ?sz (off + n)"]
    have ib: "IBLOCK (i_inum (inodes ?s2 ip)) (sb ?s2) = ?ib" "?ib \<in> iblocks s" using num A t1(5) by (auto simp: iblocks_def)
    have b2: "budget (Suc 0) ?s2"
    proof -
      have "?T \<noteq> {}" using False by (simp add: touched_def)
      then have "1 \<le> card ?T" by (simp add: Suc_le_eq card_gt_0_iff)
      then have "quota (2 + card ?T + 1) (2 + card ?T + 3) s" using q by (intro quota_mono [OF q]) simp_all
      from grow_quota [OF g t _ this] show ?thesis by (simp add: budget_quota numeral_3_eq_3)
    qed
    have "\<exists>s3. iupdate ip ?s2 = Inr s3 \<and> tx {?ib} ?s2 s3 \<and> tframe ?s2 s3 \<and>
        view s3 = (view ?s2)(?ib := put_dinode (inodes ?s2 ip) (dinode_off (i_inum (inodes ?s2 ip))) (view ?s2 ?ib))"
      unfolding ib(1) [symmetric]
      by (rule iupdate_tx [OF _ b2]) (use t1 ib mo lk A file_okD(5) [OF F(1)] in \<open>auto simp: map_ok_def\<close>)
    then obtain s3 where 3: "iupdate ip ?s2 = Inr s3" "tx {?ib} ?s2 s3" "tframe ?s2 s3" by blast
    have w: "writei ip us src kobj off n s = Inr (int n, s3)"
      unfolding writei_def if_not_P [OF guard] using 1 n i 3(1) False e2 by (simp add: Let_def)
    have I3: "inodes s3 = inodes ?s2" "sb s3 = sb s" "home s3 = home s" "lock_of s3 = lock_of s"
      using tframe_inodes [OF 3(3)] tframe_fields(11) [OF 3(3)] 3(2) t1 by (simp_all add: tx_def)
    have ibm: "?ib \<noteq> bmap_blk s" "bmap_blk s1 = bmap_blk s" "iblocks s1 = iblocks s"
      using mo ib(2) t1 by (auto simp: map_ok_def bmap_blk_def iblocks_def)
    have v3: "view s3 b = view s1 b" if "b \<noteq> ?ib" for b using 3(2) that by (simp add: tx_def)
    have fr3: "free_set s3 = free_set ?s2"
      by (rule free_set_cong) (use I3 t1 ibm v3 in \<open>auto simp: bmap_blk_def\<close>)
    have nd: "\<not> data_blk ?s2 ?ib" "\<not> data_blk s ?ib" using ib(2) ibm by (auto simp: data_blk_def iblocks_def)
    note E = same_file [OF S(1) 3(2), unfolded S]
    have f3: "file_ok s3 ip" "\<And>bn. bn < MAXFILE \<Longrightarrow> addr_of s3 ip bn = addr_of s1 ip bn" "\<And>x. x < MAXFILE * BSIZE \<Longrightarrow> content s3 ip x = content s1 ip x"
      by (rule E; use I3 fr3 S(4) nd in auto)+
    have mp3: "mapped s3 ip (max ?sz (off + n))"
      unfolding mapped_def
    proof (intro allI impI)
      fix bn assume b: "bn * BSIZE < max ?sz (off + n)"
      then have "bn < MAXFILE" using n F(3) by (metis (no_types) le_less_trans less_max_iff_disj less_le_trans mult_less_cancel2)
      then show "addr_of s3 ip bn \<noteq> 0" using f3(2) mp b by (simp add: mapped_def)
    qed
    have mo3: "map_ok s3" using S(5) t1(3) I3 fr3 ibm S(4) t1 by (simp add: map_ok_def bmap_blk_def iblocks_def)
    have l3: "lh_n s3 \<le> lh_n s + 3 + int (card ?T)"
    proof -
      have "lh_n s1 \<le> lh_n s + int (2 + card ?T)" using tx_lh [of _ s s1, OF _ t grow_log(1) [OF g t]] grow_log(2) [OF g t] G
        by (smt (verit) finite_touched of_nat_mono)
      moreover have "lh_n s3 \<le> lh_n ?s2 + 1" using tx_lh [OF 3(2)] t1 by simp
      ultimately show ?thesis by simp
    qed
    have fr': "iframe s s3" using t1(7) upd_inode_frame(17) [of s1 ip] tframe_iframe [OF 3(3)] iframe_trans by blast
    have sz3: "i_size (inodes s3 ip) = max ?sz (off + n)" "\<And>j. j \<noteq> ip \<Longrightarrow> inodes s3 j = inodes s j" using I3 A by simp_all
    have vd3: "view s3 b = view s b" if "data_blk s b" "b \<notin> inds s ip \<union> addr_of s ip ` ?T" for b
      using vd [OF that] v3 [of b] that(1) nd(2) by auto
    have i3: "\<exists>A v. inodes s3 ip = (inodes s ip)\<lparr>i_addrs := A, i_size := v\<rparr>"
      by (rule exI [of _ A], rule exI [of _ "max ?sz (off + n)"]) (simp add: I3(1) A)
    have "write_post s ip off n w s3"
      unfolding write_post_def file_inv_def sz3(1)
      using i3 f3 mp3 mo3 l3 fr' sz3(2) vd3 I3(4) c1 n F(3) 3(2) by (auto simp: tx_def)
    with w show ?thesis by blast
  qed
qed

lemma writei_kernel:
  fixes s :: "'a istate_scheme"
  assumes "txn s" and "map_ok s" and "file_inv s ip" and "i_inum (inodes s ip) < sb_ninodes (sb s)"
    and "lock_of s (IBLOCK (i_inum (inodes s ip)) (sb s)) = None" and "off \<le> i_size (inodes s ip)" and "off + n \<le> MAXFILE * BSIZE"
    and "src + n < 18446744073709551616" and bu: "budget (9 + card (touched off n)) s" and fr: "2 * card (touched off n) \<le> card (free_set s)"
  shows "\<exists>s'. writei ip False src kobj off n s = Inr (int n, s') \<and> write_post s ip off n (\<lambda>i. kobj (src + i)) s'"
proof -
  have "quota (5 + card (touched off n)) (5 + card (touched off n)) s" by (rule quota_mono [OF bu [unfolded budget_quota]]) simp_all
  from writei_copies [OF assms(1-7) copies_kernel [OF assms(8)] this fr] show ?thesis .
qed

section \<open>The abstract file\<close>

lemma length_file_bytes [simp]: "length (file_bytes s ip) = i_size (inodes s ip)"
  by (simp add: file_bytes_def)

lemma nth_file_bytes: "x < i_size (inodes s ip) \<Longrightarrow> file_bytes s ip ! x = content s ip x"
  by (simp add: file_bytes_def)

lemma read_sublist:
  assumes "m = min n (i_size (inodes s ip) - off)"
  shows "list_of_bytes (blit kobj dst (content s ip) off m) dst m = take n (drop off (file_bytes s ip))"
proof (rule nth_equalityI)
  show "length (list_of_bytes (blit kobj dst (content s ip) off m) dst m) = length (take n (drop off (file_bytes s ip)))"
    using assms by simp
  fix i assume "i < length (list_of_bytes (blit kobj dst (content s ip) off m) dst m)"
  then have i: "i < m" by simp
  then have l: "off + i < i_size (inodes s ip)" "i < n" using assms by auto
  show "list_of_bytes (blit kobj dst (content s ip) off m) dst m ! i = take n (drop off (file_bytes s ip)) ! i"
    using i l by (simp add: nth_file_bytes)
qed

lemma overwrite_list:
  assumes "off \<le> i_size (inodes s ip)" and "i_size (inodes s' ip) = max (i_size (inodes s ip)) (off + n)"
    and "\<And>x. x < i_size (inodes s' ip) \<Longrightarrow> content s' ip x = (if off \<le> x \<and> x < off + n then kobj (src + (x - off)) else content s ip x)"
  shows "file_bytes s' ip = take off (file_bytes s ip) @ list_of_bytes kobj src n @ drop (off + n) (file_bytes s ip)"
proof (rule nth_equalityI)
  show "length (file_bytes s' ip) = length (take off (file_bytes s ip) @ list_of_bytes kobj src n @ drop (off + n) (file_bytes s ip))"
    using assms(1,2) by auto
  fix x assume "x < length (file_bytes s' ip)"
  then have x: "x < i_size (inodes s' ip)" by simp
  consider "x < off" | "off \<le> x" "x < off + n" | "off + n \<le> x" by linarith
  then show "file_bytes s' ip ! x = (take off (file_bytes s ip) @ list_of_bytes kobj src n @ drop (off + n) (file_bytes s ip)) ! x"
    using assms x by cases (auto simp: nth_append nth_file_bytes)
qed

lemma apart_unchanged:
  fixes s :: "'a istate_scheme"
  assumes p: "write_post s ip off n w s'" and off: "off + n \<le> MAXFILE * BSIZE" and j: "file_inv s jp" "apart s ip jp" "jp \<noteq> ip"
  shows "file_bytes s' jp = file_bytes s jp"
proof -
  note P = p [unfolded write_post_def]
  have fo: "file_ok s jp" and sz: "i_size (inodes s jp) \<le> MAXFILE * BSIZE" using j(1) by (simp_all add: file_inv_def)
  have i: "inodes s' jp = inodes s jp" using P j(3) by blast
  have keep: "view s' b = view s b" if "b = blocks_of s jp l" "l \<le> MAXFILE" "b \<noteq> 0" for b l
  proof -
    have d: "data_blk s b" using fo that by (auto simp: file_ok_def)
    have ne: "b \<noteq> blocks_of s ip k" if "k \<le> MAXFILE" for k using j(2) that \<open>b = blocks_of s jp l\<close> \<open>l \<le> MAXFILE\<close> \<open>b \<noteq> 0\<close> by (auto simp: apart_def)
    have "b \<notin> inds s ip" using ne [of MAXFILE] by (auto simp: inds_def)
    moreover have "b \<notin> addr_of s ip ` touched off n"
    proof
      assume "b \<in> addr_of s ip ` touched off n"
      then obtain k where "k < MAXFILE" "b = addr_of s ip k" using touched_less [OF off] by auto
      then show False using ne [of k] by simp
    qed
    ultimately show ?thesis using P d by blast
  qed
  have a: "addr_of s' jp bn = addr_of s jp bn" for bn
    by (rule addr_of_cong) (use i keep [of _ MAXFILE] in auto)
  have "content s' jp x = content s jp x" if "x < i_size (inodes s jp)" for x
  proof -
    have "x div BSIZE < MAXFILE" using that sz by (intro less_mult_imp_div_less) simp
    then show ?thesis using keep [of _ "x div BSIZE"] by (simp add: content_def a)
  qed
  then show ?thesis unfolding file_bytes_def i by (intro list_of_bytes_cong) simp
qed

lemma card_touched: "n \<le> k * BSIZE \<Longrightarrow> card (touched off n) \<le> k + 1"
proof -
  assume n: "n \<le> k * BSIZE"
  have "touched off n \<subseteq> {off div BSIZE..off div BSIZE + k}"
  proof
    fix b assume "b \<in> touched off n"
    then obtain x where x: "off \<le> x" "x < off + n" "b = x div BSIZE" by (auto simp: touched_def)
    have "b \<le> (off + k * BSIZE) div BSIZE" unfolding x(3) using x(2) n by (intro div_le_mono) simp
    also have "\<dots> = off div BSIZE + k" by (simp add: BSIZE_def)
    finally show "b \<in> {off div BSIZE..off div BSIZE + k}" using x by (simp add: div_le_mono)
  qed
  from card_mono [OF _ this] show ?thesis by simp
qed

section \<open>The file of the small file system\<close>

lemma demo_addr: "addr_of (demo_fs r) 1 bn = (if bn = 0 then 47 else 0)" "addr_of (demo_fs r) 0 bn = (if bn = 0 then 46 else 0)"
  using demo_inode_fields(9,12) [of NDIRECT] by (auto simp: addr_of_def demo_inode_fields fs_consts simp del: One_nat_def)

lemma demo_file: "file_inv (demo_fs r) 1" "file_inv (demo_fs r) 0"
proof -
  have "iblocks (demo_fs r) \<subseteq> {32..<45}"
    by (auto simp: iblocks_def IBLOCK_def demo_sb_def IPB_def BSIZE_def cint_simps)
  then have d: "data_blk (demo_fs r) 47" "data_blk (demo_fs r) 46" by (auto simp: data_blk_def demo_map)
  have nd: "i_addrs (inodes (demo_fs r) 1) NDIRECT = 0" "i_addrs (inodes (demo_fs r) 0) NDIRECT = 0"
    using demo_inode_fields(9,12) [of NDIRECT] by (simp_all add: fs_consts)
  have "file_ok (demo_fs r) 1" "file_ok (demo_fs r) 0"
    by (rule file_okI; use d nd in \<open>auto simp: demo_addr demo_inode_fields simp del: One_nat_def split: if_splits\<close>)+
  moreover have "mapped (demo_fs r) 1 5" "mapped (demo_fs r) 0 48" by (auto simp: mapped_def demo_addr BSIZE_def simp del: One_nat_def)
  ultimately show "file_inv (demo_fs r) 1" "file_inv (demo_fs r) 0"
    by (simp_all add: file_inv_def demo_inode_fields max_size del: One_nat_def)
qed

lemma demo_hello: "file_bytes (demo_fs r) 1 = str ''hello''"
proof -
  have "content (demo_fs r) 1 x = bytes_of_list (str ''hello'') x" if "x < 5" for x
    using that by (simp add: content_def demo_addr BSIZE_def fs_image_def blit_def del: One_nat_def)
  then have "file_bytes (demo_fs r) 1 = list_of_bytes (bytes_of_list (str ''hello'')) 0 5"
    using demo_inode_fields(8) by (simp add: file_bytes_def list_of_bytes_def del: One_nat_def)
  moreover have "length (str ''hello'') = 5" by (simp add: str_def)
  ultimately show ?thesis using list_of_bytes_of_list [of "str ''hello''"] by (simp del: One_nat_def)
qed

section \<open>Properties\<close>

text \<open>C5: \<^verbatim>\<open>readi\<close> refines reading a byte sequence: from a well-formed file, a read of \<open>n\<close> bytes at \<open>off\<close> into a kernel buffer
  returns the number of bytes that the file has there and stores exactly those bytes of the abstract file, across block boundaries and the
  indirect block; nothing else of the buffer changes, and neither does the contents of any block, the log or the set of locked buffers.\<close>

theorem readi_reads_file:
  fixes s :: "'a istate_scheme"
  assumes "txn s" and "budget 0 s" and "file_inv s ip" and "off + n < 4294967296" and "dst + n < 18446744073709551616"
  defines "out \<equiv> take n (drop off (file_bytes s ip))"
  shows "\<exists>kobj' s'. readi ip False dst kobj off n s = Inr (int (length out), kobj', s') \<and>
    list_of_bytes kobj' dst (length out) = out \<and> (\<forall>i. i < dst \<or> dst + length out \<le> i \<longrightarrow> kobj' i = kobj i) \<and>
    view s' = view s \<and> lock_of s' = lock_of s \<and> txn s' \<and> lh_n s' = lh_n s \<and> inodes s' = inodes s"
proof -
  let ?m = "min n (i_size (inodes s ip) - off)"
  obtain s' where 1: "readi ip False dst kobj off n s = Inr (int ?m, blit kobj dst (content s ip) off ?m, s')" "tx {} s s'" "tframe s s'" "view s' = view s"
    using readi_kernel [OF assms(1-5), of kobj] by blast
  have out: "out = list_of_bytes (blit kobj dst (content s ip) off ?m) dst ?m" unfolding out_def by (rule read_sublist [OF refl, symmetric])
  then have l: "length out = ?m" by simp
  have t: "txn s'" using 1(2) by (simp add: tx_def)
  have "set (txn_blocks s') = set (txn_blocks s)" using 1(2) by (auto simp: tx_def)
  then have "nat (lh_n s') = nat (lh_n s)" using txn_len [OF assms(1)] txn_len [OF t] by simp
  moreover have "0 \<le> lh_n s" "0 \<le> lh_n s'" using assms(1) t by (simp_all add: txn_def)
  ultimately have "lh_n s' = lh_n s" by simp
  then show ?thesis
    using 1 t tframe_inodes [OF 1(3)] unfolding l by (auto simp: out tx_def)
qed

theorem readi_reads_file_witness:
  "\<exists>kobj' (s' :: istate). readi 1 False 0 (\<lambda>_. 0) 1 10 (demo_fs ()) = Inr (4, kobj', s') \<and> list_of_bytes kobj' 0 4 = str ''ello''"
proof -
  have e: "take 10 (drop 1 (file_bytes (demo_fs () :: istate) 1)) = str ''ello''" unfolding demo_hello by (simp add: str_def)
  have l: "length (str ''ello'') = 4" by (simp add: str_def)
  have "(1 :: nat) + 10 < 4294967296" "(0 :: nat) + 10 < 18446744073709551616" "budget 0 (demo_fs () :: istate)" by simp_all
  from readi_reads_file [OF demo_fs_txn(1) this(3) demo_file(1) this(1,2), of "\<lambda>_. 0"] show ?thesis
    unfolding e l by auto
qed

text \<open>C2: \<^verbatim>\<open>writei\<close> refines overwriting a byte sequence: inside a transaction with room in the log and enough free blocks, a write of \<open>n\<close> bytes
  from a kernel buffer (\<^verbatim>\<open>user_src\<close> 0) at \<open>off\<close>, not past the end of a well-formed file and within the maximal file size, returns \<open>n\<close>, and the abstract file afterwards is the old one with these bytes put in
  at \<open>off\<close>, grown if necessary by direct, indirect and doubly new blocks. The file is well formed again, every other file that shares no block with it keeps its contents, and
  at most three blocks more than the blocks written are added to the log.\<close>

theorem writei_overwrites_file:
  fixes s :: "'a istate_scheme"
  assumes "txn s" and "map_ok s" and "file_inv s ip" and "i_inum (inodes s ip) < sb_ninodes (sb s)"
    and "lock_of s (IBLOCK (i_inum (inodes s ip)) (sb s)) = None" and "off \<le> i_size (inodes s ip)" and "off + n \<le> MAXFILE * BSIZE"
    and "src + n < 18446744073709551616" and "budget (9 + card (touched off n)) s" and "2 * card (touched off n) \<le> card (free_set s)"
  shows "\<exists>s'. writei ip False src kobj off n s = Inr (int n, s') \<and>
    file_bytes s' ip = take off (file_bytes s ip) @ list_of_bytes kobj src n @ drop (off + n) (file_bytes s ip) \<and>
    file_inv s' ip \<and> map_ok s' \<and> txn s' \<and> lock_of s' = lock_of s \<and>
    (\<forall>jp. jp \<noteq> ip \<and> file_inv s jp \<and> apart s ip jp \<longrightarrow> file_bytes s' jp = file_bytes s jp) \<and>
    lh_n s' \<le> lh_n s + 3 + int (card (touched off n))"
proof -
  obtain s' where 1: "writei ip False src kobj off n s = Inr (int n, s')" and p: "write_post s ip off n (\<lambda>i. kobj (src + i)) s'"
    using writei_kernel [OF assms, of kobj] by blast
  note P = p [unfolded write_post_def]
  have sz: "i_size (inodes s' ip) \<le> MAXFILE * BSIZE" using P file_inv_def by blast
  have "file_bytes s' ip = take off (file_bytes s ip) @ list_of_bytes kobj src n @ drop (off + n) (file_bytes s ip)"
    by (rule overwrite_list [OF assms(6)]) (use P less_le_trans [OF _ sz] in \<open>blast+\<close>)
  then show ?thesis using 1 P apart_unchanged [OF p assms(7)] by blast
qed

theorem writei_overwrites_file_witness:
  "\<exists>s' :: istate. writei 1 False 0 (bytes_of_list (str ''J'')) 0 1 (demo_fs ()) = Inr (1, s') \<and> file_bytes s' 1 = str ''Jello''"
proof -
  let ?s = "demo_fs () :: istate"
  have t: "card (touched 0 1) = 1" by (simp add: touched_def)
  have "IBLOCK (i_inum (inodes ?s 1)) (sb ?s) = 32" by (simp add: demo_inode_fields demo_sb_def IBLOCK_def IPB_def BSIZE_def cint_simps del: One_nat_def)
  moreover have "i_inum (inodes ?s 1) < sb_ninodes (sb ?s)" "0 \<le> i_size (inodes ?s 1)" "0 + 1 \<le> MAXFILE * BSIZE"
    "budget (9 + card (touched 0 1)) ?s" "2 * card (touched 0 1) \<le> card (free_set ?s)"
    by (simp_all add: t demo_map demo_inode_fields demo_sb_def max_size del: One_nat_def)
  ultimately obtain s' :: istate where "writei 1 False 0 (bytes_of_list (str ''J'')) 0 1 ?s = Inr (int 1, s')"
    "file_bytes s' 1 = take 0 (file_bytes ?s 1) @ list_of_bytes (bytes_of_list (str ''J'')) 0 1 @ drop (0 + 1) (file_bytes ?s 1)"
    using writei_overwrites_file [OF demo_fs_txn(1) demo_map(3) demo_file(1), of "()" 0 1 0 "bytes_of_list (str ''J'')"] by auto
  moreover have "list_of_bytes (bytes_of_list (str ''J'')) 0 1 = str ''J''" using list_of_bytes_of_list [of "str ''J''"] by (simp add: str_def)
  ultimately show ?thesis unfolding demo_hello by (auto simp: str_def)
qed

text \<open>What \<^verbatim>\<open>begin_op\<close> has made sure of when it returns.\<close>

lemma begin_op_reserves:
  assumes "begin_op s0 = Inr s" and "0 \<le> log_outstanding s0"
  shows "lh_n s + MAXOPBLOCKS * log_outstanding s \<le> LOGSIZE" and "1 \<le> log_outstanding s" and "lh_n s + MAXOPBLOCKS \<le> LOGSIZE"
  using assms by (auto simp: begin_op_def MAXOPBLOCKS_def LOGSIZE_def split: if_splits)

text \<open>C18: The transactions of \<^verbatim>\<open>filewrite\<close> fit what \<^verbatim>\<open>begin_op\<close> reserves. When \<^verbatim>\<open>begin_op\<close> has returned, \<^verbatim>\<open>writei\<close> of a chunk of user bytes as
  \<^verbatim>\<open>filewrite\<close> cuts them (at most \<^verbatim>\<open>((MAXOPBLOCKS-1-1-2)/2)*BSIZE\<close> = 3072 bytes), at an address that is mapped and an offset in the file, neither panics nor
  finds the log full: it writes all of the chunk, the file has the bytes of the user's pages there and is otherwise as
  it was, and it adds no more than \<^verbatim>\<open>MAXOPBLOCKS\<close> = 10 blocks to the log, wherever the chunk starts and however many blocks it
  allocates. The log has its 30 blocks, nothing is
  logged between the two calls, nine buffers of the cache are not in use by others, and eight blocks of the disk are free.\<close>

theorem write_chunk_fits_reservation:
  fixes s :: "'a istate_scheme"
  assumes "begin_op s0 = Inr s" and "0 \<le> log_outstanding s0" and "log_size s = LOGSIZE" and "room 9 s" and "txn s" and "map_ok s"
    and "file_inv s ip" and "i_inum (inodes s ip) < sb_ninodes (sb s)" and "lock_of s (IBLOCK (i_inum (inodes s ip)) (sb s)) = None"
    and "off \<le> i_size (inodes s ip)" and "off + n \<le> MAXFILE * BSIZE" and "8 \<le> card (free_set s)"
    and "int n \<le> (MAXOPBLOCKS - 1 - 1 - 2) div 2 * int BSIZE" and "src + n < 18446744073709551616"
    and "\<forall>k < n. user_pa (mem s) (mypt s) (src + k) \<noteq> None"
  shows "\<exists>s'. writei ip True src kobj off n s = Inr (int n, s') \<and> lh_n s' \<le> lh_n s + MAXOPBLOCKS \<and> txn s' \<and>
    file_bytes s' ip = take off (file_bytes s ip) @ map (\<lambda>k. mem s (the (user_pa (mem s) (mypt s) (src + k)))) [0..<n] @
      drop (off + n) (file_bytes s ip)"
proof -
  let ?w = "\<lambda>k. mem s (the (user_pa (mem s) (mypt s) (src + k)))"
  have c: "card (touched off n) \<le> 4" using card_touched [of n 3 off] assms(13) by (simp add: MAXOPBLOCKS_def BSIZE_def)
  have "quota 9 9 s" using begin_op_reserves [OF assms(1,2)] assms(3,4) by (simp add: quota_def MAXOPBLOCKS_def LOGSIZE_def)
  then have q: "quota (5 + card (touched off n)) (5 + card (touched off n)) s" by (rule quota_mono) (use c in simp_all)
  have cp: "copies True src kobj n ?w s" using assms(14,15) by (auto simp: copies_def)
  have fr: "2 * card (touched off n) \<le> card (free_set s)" using c assms(12) by simp
  obtain s' where 1: "writei ip True src kobj off n s = Inr (int n, s')" and p: "write_post s ip off n ?w s'"
    using writei_copies [OF assms(5-11) cp q fr] by blast
  note P = p [unfolded write_post_def]
  have sz: "i_size (inodes s' ip) \<le> MAXFILE * BSIZE" using P file_inv_def by blast
  have l: "list_of_bytes ?w 0 n = map ?w [0..<n]" by (simp add: list_of_bytes_def)
  have "file_bytes s' ip = take off (file_bytes s ip) @ list_of_bytes ?w 0 n @ drop (off + n) (file_bytes s ip)"
    by (rule overwrite_list [OF assms(10)]) (use P less_le_trans [OF _ sz] in \<open>auto\<close>)
  moreover have "lh_n s' \<le> lh_n s + MAXOPBLOCKS" using P c by (auto simp: MAXOPBLOCKS_def)
  ultimately show ?thesis using 1 P unfolding l by blast
qed

lemma demo_log: "log_size (demo_fs r) = 30" "log_outstanding (demo_fs r) = 1" "log_committing (demo_fs r) = False" "lh_n (demo_fs r) = 0"
  by (simp_all add: demo_fs_def demo_machine_def boot_fields)

lemma demo_begin_op: "begin_op ((demo_fs r)\<lparr>log_outstanding := 0\<rparr>) = Inr (demo_fs r)"
proof -
  have "s\<lparr>log_outstanding := 1\<rparr> = s" if "log_outstanding s = 1" for s :: "'a istate_scheme" using that by (cases s) simp
  then show ?thesis by (simp add: begin_op_def demo_log MAXOPBLOCKS_def LOGSIZE_def)
qed

theorem write_chunk_fits_reservation_witness:
  "\<exists>s' :: istate. writei 1 True 100 (\<lambda>_. 0) 5 3072 (demo_fs ()) = Inr (3072, s') \<and> lh_n s' \<le> lh_n (demo_fs () :: istate) + MAXOPBLOCKS"
proof -
  let ?s = "demo_fs () :: istate"
  have "IBLOCK (i_inum (inodes ?s 1)) (sb ?s) = 32" by (simp add: demo_inode_fields demo_sb_def IBLOCK_def IPB_def BSIZE_def cint_simps del: One_nat_def)
  moreover have "i_inum (inodes ?s 1) < sb_ninodes (sb ?s)" "5 \<le> i_size (inodes ?s 1)" "5 + 3072 \<le> MAXFILE * BSIZE"
    "8 \<le> card (free_set ?s)" "int 3072 \<le> (MAXOPBLOCKS - 1 - 1 - 2) div 2 * int BSIZE"
    by (simp_all add: demo_map demo_inode_fields demo_sb_def fs_consts MAXOPBLOCKS_def BSIZE_def del: One_nat_def)
  moreover have "room 9 ?s" by (rule budget_room [OF demo_fs_txn(4) [of 28 "()"]]) simp_all
  moreover have "log_size ?s = LOGSIZE" by (simp add: demo_log LOGSIZE_def)
  moreover have "\<forall>k < 3072. user_pa (mem ?s) (mypt ?s) (100 + k) \<noteq> None"
    using demo_user_pa [of demo_mem] by (simp add: demo_proc_def)
  ultimately show ?thesis
    using write_chunk_fits_reservation [OF demo_begin_op _ _ _ demo_fs_txn(1) demo_map(3) demo_file(1), of "()" 5 3072 100 "\<lambda>_. 0"] by auto
qed

text \<open>
  \<^verbatim>\<open>writei\<close> refuses with -1, and changes nothing, a write that starts past the end of the file, one whose end overflows 32 bits, and
  one past the maximal file size; no such write is made in part.\<close>

theorem writei_refuses:
  assumes "off > i_size (inodes s ip) \<or> 4294967296 \<le> off + n \<or> MAXFILE * BSIZE < off + n" and "off < 4294967296" and "n < 4294967296"
  shows "writei ip user_src src kobj off n s = Inr (-1, s)"
proof -
  have "u32 (off + n) < off" if "4294967296 \<le> off + n"
  proof -
    have "off + n = (off + n - 4294967296) + 4294967296" using that by simp
    then have "u32 (off + n) = u32 (off + n - 4294967296)" unfolding u32_def by (metis mod_add_self2)
    then show ?thesis using assms(2,3) that by (simp add: cint_simps)
  qed
  then show ?thesis using assms(1) by (auto simp: writei_def max_size)
qed

theorem writei_refuses_witness:
  "writei 1 False 0 (\<lambda>_. 0) 6 1 (demo_fs () :: istate) = Inr (-1, demo_fs ())"
  by (rule writei_refuses) (simp_all add: demo_inode_fields del: One_nat_def)

end
