(* ===== verification/Dir.thy ===== *)
theory Dir
  imports FileWrite
begin

text \<open>
  Directories of \<^verbatim>\<open>fs.c\<close>. A directory is a file of 16-byte entries; abstractly it is a list of pairs of an inode number (0 for an empty slot) and a
  name. \<^verbatim>\<open>dirlookup\<close> is the search for the first used entry with a name, \<^verbatim>\<open>dirlink\<close> fills the first empty slot or appends one.
  The last section is about paths: what \<^verbatim>\<open>skipelem\<close> takes off the front of a path.
\<close>

section \<open>Names\<close>

text \<open>The string in a field of \<^verbatim>\<open>DIRSIZ\<close> bytes.\<close>

definition cname :: "bytes \<Rightarrow> nat \<Rightarrow> byte list" where
  "cname d off = takeWhile (\<lambda>c. c \<noteq> 0) (list_of_bytes d off DIRSIZ)"

lemma cname_cong: "(\<And>i. i < DIRSIZ \<Longrightarrow> d (off + i) = d' (off' + i)) \<Longrightarrow> cname d off = cname d' off'"
  unfolding cname_def by (subst list_of_bytes_cong [of DIRSIZ d off d' off']) simp_all

lemma list_of_bytes_Suc: "list_of_bytes d off (Suc n) = d off # list_of_bytes d (Suc off) n"
  by (simp add: list_of_bytes_def map_upt_Suc del: upt_Suc)

lemma strncmp_cname_gen:
  "strncmp p i q j n = 0 \<longleftrightarrow> takeWhile (\<lambda>c. c \<noteq> 0) (list_of_bytes p i n) = takeWhile (\<lambda>c. c \<noteq> 0) (list_of_bytes q j n)"
proof (induction n arbitrary: i j)
  case (Suc n)
  then show ?case by (auto simp: list_of_bytes_Suc uint_0_iff)
qed (simp add: list_of_bytes_def)

lemma namecmp_cname: "namecmp p q j = 0 \<longleftrightarrow> cname p 0 = cname q j"
  by (simp add: namecmp_def cname_def strncmp_cname_gen)

section \<open>The entries of a directory\<close>

definition dirent_at :: "bytes \<Rightarrow> nat \<Rightarrow> nat \<times> byte list" where
  "dirent_at d k = (get_le d (DESIZE * k) 2, cname d (DESIZE * k + 2))"

definition entries :: "'a istate_scheme \<Rightarrow> nat \<Rightarrow> (nat \<times> byte list) list" where
  "entries s dp = map (dirent_at (content s dp)) [0..<i_size (inodes s dp) div DESIZE]"

text \<open>The first used entry with a name, and the first empty slot.\<close>

definition dfind :: "(nat \<times> byte list) list \<Rightarrow> byte list \<Rightarrow> nat option" where
  "dfind es nm = find (\<lambda>k. fst (es ! k) \<noteq> 0 \<and> snd (es ! k) = nm) [0..<length es]"

definition dslot :: "(nat \<times> byte list) list \<Rightarrow> nat" where
  "dslot es = (case find (\<lambda>k. fst (es ! k) = 0) [0..<length es] of Some k \<Rightarrow> k | None \<Rightarrow> length es)"

definition dir_inv :: "'a istate_scheme \<Rightarrow> nat \<Rightarrow> bool" where
  "dir_inv s dp \<longleftrightarrow> file_inv s dp \<and> i_type (inodes s dp) = T_DIR \<and> i_size (inodes s dp) mod DESIZE = 0"

lemma length_entries [simp]: "length (entries s dp) = i_size (inodes s dp) div DESIZE"
  by (simp add: entries_def)

lemma nth_entries: "k < i_size (inodes s dp) div DESIZE \<Longrightarrow> entries s dp ! k = dirent_at (content s dp) k"
  by (simp add: entries_def)

lemma find_from:
  assumes "k < n" and "P k" and "\<And>j. j < k \<Longrightarrow> \<not> P j"
  shows "find P [0..<n] = Some k"
  using assms by (auto simp: find_Some_iff intro!: exI [of _ k])

text \<open>Reading one entry.\<close>

lemma read_entry:
  fixes s :: "'a istate_scheme"
  assumes t: "txn s" and bu: "budget b s" and f: "file_inv s dp" and k: "DESIZE * k + DESIZE \<le> i_size (inodes s dp)"
  shows "\<exists>de s'. readi dp False 0 (\<lambda>_. 0) (DESIZE * k) DESIZE s = Inr (int DESIZE, de, s') \<and> tx {} s s' \<and> tframe s s' \<and> view s' = view s \<and>
    (get_le de 0 2, cname de 2) = dirent_at (content s dp) k"
proof -
  let ?de = "blit (\<lambda>_. 0) 0 (content s dp) (DESIZE * k) DESIZE"
  have sz: "i_size (inodes s dp) \<le> 274432" using f by (simp add: file_inv_def max_size)
  have m: "min DESIZE (i_size (inodes s dp) - DESIZE * k) = DESIZE" using k by simp
  have "DESIZE * k + DESIZE < 4294967296" using k sz by simp
  then obtain s' where 1: "readi dp False 0 (\<lambda>_. 0) (DESIZE * k) DESIZE s = Inr (int DESIZE, ?de, s')" "tx {} s s'" "tframe s s'" "view s' = view s"
    using readi_kernel [OF t bu f, of "DESIZE * k" DESIZE 0 "\<lambda>_. 0"] unfolding m by (auto simp: DESIZE_def)
  have b: "?de i = content s dp (DESIZE * k + i)" if "i < 16" for i using that by (simp add: blit_def DESIZE_def)
  have "get_le ?de 0 2 = get_le (content s dp) (DESIZE * k) 2" by (simp add: numeral_2_eq_2 b)
  moreover have "cname ?de 2 = cname (content s dp) (DESIZE * k + 2)"
    by (rule cname_cong) (subst b, simp_all add: DIRSIZ_def add.assoc)
  ultimately show ?thesis using 1 by (auto simp: dirent_at_def)
qed

text \<open>Reading leaves the file as it is.\<close>

lemma quiet_step:
  fixes s s' :: "'a istate_scheme"
  assumes "tx {} s s'" and "tframe s s'" and "view s' = view s"
  shows "content s' ip = content s ip" and "file_inv s' ip = file_inv s ip" and "entries s' ip = entries s ip" and "map_ok s' = map_ok s"
    and "free_set s' = free_set s" and "inodes s' = inodes s" and "addr_of s' ip = addr_of s ip"
proof -
  have i: "inodes s' = inodes s" "sb s' = sb s" "home s' = home s" "lock_of s' = lock_of s"
    using tframe_inodes [OF assms(2)] tframe_fields(11) [OF assms(2)] assms(1) by (simp_all add: tx_def)
  show "inodes s' = inodes s" by (rule i)
  show a: "addr_of s' ip = addr_of s ip" for ip unfolding addr_of_def i assms(3) by (rule refl)
  show c: "content s' ip = content s ip" for ip unfolding content_def a assms(3) by (rule refl)
  show f: "free_set s' = free_set s" by (rule free_set_cong) (simp_all add: i assms(3))
  have d: "data_blk s' = data_blk s" unfolding data_blk_def f i bmap_blk_def iblocks_def by (rule refl)
  have b: "blocks_of s' ip = blocks_of s ip" unfolding blocks_of_def a i by (rule refl)
  show "file_inv s' ip = file_inv s ip" unfolding file_inv_def file_ok_def mapped_def d b a i by (rule refl)
  show "entries s' ip = entries s ip" unfolding entries_def c i by (rule refl)
  show "map_ok s' = map_ok s" unfolding map_ok_def f i bmap_blk_def iblocks_def by (rule refl)
qed

lemma entries_bound: "k < i_size (inodes s dp) div DESIZE \<Longrightarrow> DESIZE * k + DESIZE \<le> i_size (inodes s dp)"
proof -
  assume "k < i_size (inodes s dp) div DESIZE"
  then have "DESIZE * Suc k \<le> DESIZE * (i_size (inodes s dp) div DESIZE)" by (intro mult_le_mono2) simp
  also have "\<dots> \<le> i_size (inodes s dp)" by simp
  finally show ?thesis by simp
qed

section \<open>Looking up a name\<close>

lemma dirlookup_step:
  assumes "off < sz" and "readi dp False 0 (\<lambda>_. 0) off DESIZE s = Inr (int DESIZE, de, s1)"
  shows "dirlookup_from sz off dp name s =
    (if get_le de 0 2 \<noteq> 0 \<and> cname de 2 = cname name 0
     then bindE (iget (i_dev (inodes s1 dp)) (get_le de 0 2) s1) (\<lambda>(ip, s). Inr (Some (ip, off), s))
     else dirlookup_from sz (off + DESIZE) dp name s1)"
  unfolding dirlookup_from.simps [of sz off dp name s] using assms by (auto simp: namecmp_cname)

lemma dirlookup_from_run:
  fixes s :: "'a istate_scheme"
  assumes "txn s" and "budget b s" and "dir_inv s dp" and "k \<le> length (entries s dp)"
    and "\<And>j. j < k \<Longrightarrow> \<not> (fst (entries s dp ! j) \<noteq> 0 \<and> snd (entries s dp ! j) = cname name 0)"
  shows "\<exists>s'. tx {} s s' \<and> tframe s s' \<and> view s' = view s \<and>
    dirlookup_from (i_size (inodes s dp)) (DESIZE * k) dp name s =
      (case dfind (entries s dp) (cname name 0) of
         None \<Rightarrow> Inr (None, s')
       | Some j \<Rightarrow> bindE (iget ROOTDEV (fst (entries s dp ! j)) s') (\<lambda>(ip, s). Inr (Some (ip, DESIZE * j), s)))"
  using assms
proof (induction "length (entries s dp) - k" arbitrary: s k)
  case 0
  let ?n = "i_size (inodes s dp) div DESIZE"
  have k: "k = ?n" using 0 by simp
  have "DESIZE * k = i_size (inodes s dp)" using 0(4) by (simp add: k dir_inv_def) (metis div_mult_mod_eq add_0_right mult.commute)
  moreover have "dfind (entries s dp) (cname name 0) = None" using 0(6) k by (auto simp: dfind_def find_None_iff)
  ultimately show ?case using tx_refl [OF 0(2)] by (subst dirlookup_from.simps) (auto intro!: exI [of _ s])
next
  case (Suc d)
  let ?n = "i_size (inodes s dp) div DESIZE"
  have k: "k < ?n" using Suc.hyps(2) by simp
  have fi: "file_inv s dp" using Suc.prems(3) by (simp add: dir_inv_def)
  obtain de s1 where 1: "readi dp False 0 (\<lambda>_. 0) (DESIZE * k) DESIZE s = Inr (int DESIZE, de, s1)" "tx {} s s1" "tframe s s1" "view s1 = view s"
    and de: "(get_le de 0 2, cname de 2) = dirent_at (content s dp) k"
    using read_entry [OF Suc.prems(1,2) fi entries_bound [OF k]] by blast
  note Q = quiet_step [OF 1(2-4)]
  have e: "get_le de 0 2 = fst (entries s dp ! k)" "cname de 2 = snd (entries s dp ! k)" using de k by (simp_all add: nth_entries flip: de)
  have lt: "DESIZE * k < i_size (inodes s dp)" using entries_bound [OF k] by (simp add: DESIZE_def)
  have dev: "i_dev (inodes s1 dp) = ROOTDEV" using fi Q(6) by (simp add: file_inv_def file_ok_def)
  show ?case
  proof (cases "fst (entries s dp ! k) \<noteq> 0 \<and> snd (entries s dp ! k) = cname name 0")
    case True
    have "dfind (entries s dp) (cname name 0) = Some k"
      unfolding dfind_def by (rule find_from) (use k True Suc.prems(5) in auto)
    then show ?thesis
      using dirlookup_step [OF lt 1(1), of name] 1(2-4) True e dev by (intro exI [of _ s1]) simp
  next
    case False
    then have no: "\<not> (fst (entries s1 dp ! j) \<noteq> 0 \<and> snd (entries s1 dp ! j) = cname name 0)" if "j < Suc k" for j
      using that Suc.prems(5) unfolding Q(3) by (cases "j = k") auto
    have "d = length (entries s1 dp) - Suc k" "txn s1" "budget b s1" "dir_inv s1 dp" "Suc k \<le> length (entries s1 dp)"
      using Suc.hyps(2) 1(2) Suc.prems k tx_budget [OF 1(2) Suc.prems(1), of 0 b] Q by (auto simp: tx_def dir_inv_def)
    from Suc.hyps(1) [OF this no] obtain s' where s': "tx {} s1 s'" "tframe s1 s'" "view s' = view s1"
      "dirlookup_from (i_size (inodes s dp)) (DESIZE * Suc k) dp name s1 = (case dfind (entries s dp) (cname name 0) of
         None \<Rightarrow> Inr (None, s')
       | Some j \<Rightarrow> bindE (iget ROOTDEV (fst (entries s dp ! j)) s') (\<lambda>(ip, s). Inr (Some (ip, DESIZE * j), s)))"
      unfolding Q(3,6) by blast
    have "dirlookup_from (i_size (inodes s dp)) (DESIZE * k) dp name s = dirlookup_from (i_size (inodes s dp)) (DESIZE * Suc k) dp name s1"
      using dirlookup_step [OF lt 1(1), of name] False unfolding e by (simp only: if_False mult_Suc_right add.commute)
    moreover have "tx {} s s'" "tframe s s'" "view s' = view s"
      using tx_trans [OF 1(2) s'(1)] tframe_trans [OF 1(3) s'(2)] s'(3) 1(4) by simp_all
    ultimately show ?thesis using s'(4) by (intro exI [of _ s'] conjI) (assumption | simp only:)+
  qed
qed

lemma dirlookup_run:
  fixes s :: "'a istate_scheme"
  assumes "txn s" and "budget b s" and "dir_inv s dp"
  shows "\<exists>s'. tx {} s s' \<and> tframe s s' \<and> view s' = view s \<and> dirlookup dp name s =
      (case dfind (entries s dp) (cname name 0) of
         None \<Rightarrow> Inr (None, s')
       | Some j \<Rightarrow> bindE (iget ROOTDEV (fst (entries s dp ! j)) s') (\<lambda>(ip, s). Inr (Some (ip, DESIZE * j), s)))"
  using dirlookup_from_run [OF assms, of 0 name] assms(3) by (simp add: dirlookup_def dir_inv_def)

lemma dirlink_scan_step:
  assumes "off < sz" and "readi dp False 0 (\<lambda>_. 0) off DESIZE s = Inr (int DESIZE, de, s1)"
  shows "dirlink_scan sz off dp s = (if get_le de 0 2 = 0 then Inr (off, s1) else dirlink_scan sz (off + DESIZE) dp s1)"
  unfolding dirlink_scan.simps [of sz off dp s] using assms by auto

lemma dirlink_scan_run:
  fixes s :: "'a istate_scheme"
  assumes "txn s" and "budget b s" and "dir_inv s dp" and "k \<le> length (entries s dp)" and "\<And>j. j < k \<Longrightarrow> fst (entries s dp ! j) \<noteq> 0"
  shows "\<exists>s'. tx {} s s' \<and> tframe s s' \<and> view s' = view s \<and>
    dirlink_scan (i_size (inodes s dp)) (DESIZE * k) dp s = Inr (DESIZE * dslot (entries s dp), s')"
  using assms
proof (induction "length (entries s dp) - k" arbitrary: s k)
  case 0
  let ?n = "i_size (inodes s dp) div DESIZE"
  have k: "k = ?n" using 0 by simp
  have "DESIZE * k = i_size (inodes s dp)" using 0(4) by (simp add: k dir_inv_def) (metis div_mult_mod_eq add_0_right mult.commute)
  moreover have "find (\<lambda>k. fst (entries s dp ! k) = 0) [0..<length (entries s dp)] = None" using 0(6) k by (auto simp: find_None_iff)
  then have "dslot (entries s dp) = k" using k by (simp add: dslot_def)
  ultimately show ?case using tx_refl [OF 0(2)] by (subst dirlink_scan.simps) (auto intro!: exI [of _ s])
next
  case (Suc d)
  let ?n = "i_size (inodes s dp) div DESIZE"
  have k: "k < ?n" using Suc.hyps(2) by simp
  have fi: "file_inv s dp" using Suc.prems(3) by (simp add: dir_inv_def)
  obtain de s1 where 1: "readi dp False 0 (\<lambda>_. 0) (DESIZE * k) DESIZE s = Inr (int DESIZE, de, s1)" "tx {} s s1" "tframe s s1" "view s1 = view s"
    and de: "(get_le de 0 2, cname de 2) = dirent_at (content s dp) k"
    using read_entry [OF Suc.prems(1,2) fi entries_bound [OF k]] by blast
  note Q = quiet_step [OF 1(2-4)]
  have e: "get_le de 0 2 = fst (entries s dp ! k)" using de k by (simp add: nth_entries flip: de)
  have lt: "DESIZE * k < i_size (inodes s dp)" using entries_bound [OF k] by (simp add: DESIZE_def)
  show ?case
  proof (cases "fst (entries s dp ! k) = 0")
    case True
    have "find (\<lambda>k. fst (entries s dp ! k) = 0) [0..<length (entries s dp)] = Some k"
      by (rule find_from) (use k True Suc.prems(5) in auto)
    then have "dslot (entries s dp) = k" by (simp add: dslot_def)
    then show ?thesis using dirlink_scan_step [OF lt 1(1)] 1(2-4) True e by (intro exI [of _ s1]) simp
  next
    case False
    then have no: "fst (entries s1 dp ! j) \<noteq> 0" if "j < Suc k" for j
      using that Suc.prems(5) unfolding Q(3) by (cases "j = k") auto
    have "d = length (entries s1 dp) - Suc k" "txn s1" "budget b s1" "dir_inv s1 dp" "Suc k \<le> length (entries s1 dp)"
      using Suc.hyps(2) 1(2) Suc.prems k tx_budget [OF 1(2) Suc.prems(1), of 0 b] Q by (auto simp: tx_def dir_inv_def)
    from Suc.hyps(1) [OF this no] obtain s' where s': "tx {} s1 s'" "tframe s1 s'" "view s' = view s1"
      "dirlink_scan (i_size (inodes s dp)) (DESIZE * Suc k) dp s1 = Inr (DESIZE * dslot (entries s dp), s')"
      unfolding Q(3,6) by blast
    have "dirlink_scan (i_size (inodes s dp)) (DESIZE * k) dp s = dirlink_scan (i_size (inodes s dp)) (DESIZE * Suc k) dp s1"
      using dirlink_scan_step [OF lt 1(1)] False unfolding e by (simp only: if_False mult_Suc_right add.commute)
    moreover have "tx {} s s'" "tframe s s'" "view s' = view s"
      using tx_trans [OF 1(2) s'(1)] tframe_trans [OF 1(3) s'(2)] s'(3) 1(4) by simp_all
    ultimately show ?thesis using s'(4) by (intro exI [of _ s'] conjI) (assumption | simp only:)+
  qed
qed

section \<open>Adding an entry\<close>

lemma mk_dirent_fields: "inum < 65536 \<Longrightarrow> get_le (mk_dirent name inum) 0 2 = inum" "cname (mk_dirent name inum) 2 = cname name 0"
proof -
  show "inum < 65536 \<Longrightarrow> get_le (mk_dirent name inum) 0 2 = inum" by (simp add: mk_dirent_def get_put_le)
  have m: "mk_dirent name inum (2 + k) = (if \<forall>l < k. name l \<noteq> 0 then name k else 0)" if "k < DIRSIZ" for k
    using strncpy_inside [OF that, of "\<lambda>_. 0" 2 name 0] by (simp add: mk_dirent_def put_le_outside cong: conj_cong if_cong)
  have "namecmp name (mk_dirent name inum) 2 = 0" unfolding namecmp_def strncmp_eq_0_iff using m by simp
  then show "cname (mk_dirent name inum) 2 = cname name 0" by (simp add: namecmp_cname)
qed

lemma dirent_at_cong: "(\<And>i. i < DESIZE \<Longrightarrow> d (DESIZE * k + i) = d' (DESIZE * l + i)) \<Longrightarrow> dirent_at d k = dirent_at d' l"
proof -
  assume c: "\<And>i. i < DESIZE \<Longrightarrow> d (DESIZE * k + i) = d' (DESIZE * l + i)"
  have "get_le d (DESIZE * k) 2 = get_le d' (DESIZE * l) 2" using c [of 0] c [of 1] by (simp add: numeral_2_eq_2 DESIZE_def)
  moreover have "cname d (DESIZE * k + 2) = cname d' (DESIZE * l + 2)"
  proof (rule cname_cong)
    show "d (DESIZE * k + 2 + i) = d' (DESIZE * l + 2 + i)" if "i < DIRSIZ" for i
      using c [of "2 + i"] that by (simp add: add.assoc DIRSIZ_def DESIZE_def)
  qed
  ultimately show ?thesis by (simp add: dirent_at_def)
qed

lemma dirent_at_mk:
  assumes "\<And>i. i < DESIZE \<Longrightarrow> d (DESIZE * k + i) = mk_dirent name inum i" and "inum < 65536"
  shows "dirent_at d k = (inum, cname name 0)"
proof -
  have "dirent_at d k = dirent_at (mk_dirent name inum) 0" using assms(1) by (intro dirent_at_cong) simp
  also have "\<dots> = (inum, cname name 0)" unfolding dirent_at_def by (simp only: mult_0_right add_0 mk_dirent_fields(1) [OF assms(2)] mk_dirent_fields(2))
  finally show ?thesis .
qed

lemma touched_entry: "touched (DESIZE * k) DESIZE = {DESIZE * k div BSIZE}"
proof -
  have "DESIZE * k mod BSIZE = DESIZE * (k mod 64)" using mult_mod_right [of DESIZE k 64] by (simp add: DESIZE_def BSIZE_def)
  also have "\<dots> \<le> DESIZE * 63" by (intro mult_le_mono2) (simp add: less_Suc_eq_le [symmetric])
  finally have "x < DESIZE \<Longrightarrow> x < BSIZE - DESIZE * k mod BSIZE" for x by (simp add: DESIZE_def BSIZE_def)
  then have b: "(DESIZE * k + x) div BSIZE = DESIZE * k div BSIZE" if "x < DESIZE" for x using in_block that by blast
  have "x div BSIZE = DESIZE * k div BSIZE" if "DESIZE * k \<le> x" "x < DESIZE * k + DESIZE" for x
    using b [of "x - DESIZE * k"] that by simp
  then have "touched (DESIZE * k) DESIZE = (\<lambda>_. DESIZE * k div BSIZE) ` {DESIZE * k..<DESIZE * k + DESIZE}"
    unfolding touched_def by (rule image_cong [OF refl]) auto
  then show ?thesis by (simp add: image_constant_conv DESIZE_def)
qed

definition add_entry :: "nat \<Rightarrow> 'e \<Rightarrow> 'e list \<Rightarrow> 'e list" where
  "add_entry k e es = (if k < length es then es[k := e] else es @ [e])"

lemma dslot_le: "dslot es \<le> length es" "dslot es < length es \<Longrightarrow> fst (es ! dslot es) = 0"
proof -
  have "dslot es \<le> length es \<and> (dslot es < length es \<longrightarrow> fst (es ! dslot es) = 0)"
  proof (cases "find (\<lambda>k. fst (es ! k) = 0) [0..<length es]")
    case (Some k)
    then have "dslot es = k" by (simp add: dslot_def)
    moreover have "k < length es" "fst (es ! k) = 0" using Some by (auto simp: find_Some_iff)
    ultimately show ?thesis by simp
  qed (simp add: dslot_def)
  then show "dslot es \<le> length es" "dslot es < length es \<Longrightarrow> fst (es ! dslot es) = 0" by simp_all
qed

lemma find_upt_cong: "(\<And>k. k < n \<Longrightarrow> P k = Q k) \<Longrightarrow> find P [0..<n] = find Q [0..<n]"
  by (rule find_cong) simp_all

lemma dfind_add:
  assumes "dfind es nm = None" and "inum \<noteq> 0"
  shows "dfind (add_entry (dslot es) (inum, nm) es) nm = Some (dslot es)"
proof -
  have no: "\<not> (fst (es ! k) \<noteq> 0 \<and> snd (es ! k) = nm)" if "k < length es" for k using assms(1) that by (auto simp: dfind_def find_None_iff)
  show ?thesis
    unfolding dfind_def
  proof (rule find_from)
    show "dslot es < length (add_entry (dslot es) (inum, nm) es)" using dslot_le(1) [of es] by (auto simp: add_entry_def)
    show "fst (add_entry (dslot es) (inum, nm) es ! dslot es) \<noteq> 0 \<and> snd (add_entry (dslot es) (inum, nm) es ! dslot es) = nm"
      using assms(2) dslot_le(1) [of es] by (auto simp: add_entry_def nth_append)
    show "\<not> (fst (add_entry (dslot es) (inum, nm) es ! j) \<noteq> 0 \<and> snd (add_entry (dslot es) (inum, nm) es ! j) = nm)" if "j < dslot es" for j
      using that no [of j] dslot_le(1) [of es] by (auto simp: add_entry_def nth_append)
  qed
qed

lemma dfind_add_other:
  assumes "nm' \<noteq> nm"
  shows "map_option ((!) (add_entry (dslot es) (inum, nm) es)) (dfind (add_entry (dslot es) (inum, nm) es) nm') = map_option ((!) es) (dfind es nm')"
proof (cases "dslot es < length es")
  case True
  let ?es = "es[dslot es := (inum, nm)]"
  have e: "(fst (?es ! k) \<noteq> 0 \<and> snd (?es ! k) = nm') = (fst (es ! k) \<noteq> 0 \<and> snd (es ! k) = nm')" if "k < length es" for k
    using that assms dslot_le(2) [OF True] by (cases "k = dslot es") auto
  then have "dfind ?es nm' = dfind es nm'" unfolding dfind_def length_list_update by (rule find_upt_cong)
  moreover have "?es ! k = es ! k" if "dfind es nm' = Some k" for k
    using that e [of k] dslot_le(2) [OF True] by (cases "k = dslot es") (auto simp: dfind_def find_Some_iff)
  ultimately show ?thesis using True by (cases "dfind es nm'") (auto simp: add_entry_def)
next
  case False
  have "dfind (es @ [(inum, nm)]) nm' = dfind es nm'"
  proof (cases "dfind es nm'")
    case None
    then have "\<forall>k < length es. \<not> (fst (es ! k) \<noteq> 0 \<and> snd (es ! k) = nm')" by (auto simp: dfind_def find_None_iff)
    then have "dfind (es @ [(inum, nm)]) nm' = None"
      unfolding dfind_def find_None_iff using assms by (auto simp: nth_append less_Suc_eq)
    then show ?thesis using None by simp
  next
    case (Some k)
    then have "k < length es" "fst (es ! k) \<noteq> 0 \<and> snd (es ! k) = nm'" "\<And>j. j < k \<Longrightarrow> \<not> (fst (es ! j) \<noteq> 0 \<and> snd (es ! j) = nm')"
      by (auto simp: dfind_def find_Some_iff)
    then have "dfind (es @ [(inum, nm)]) nm' = Some k" unfolding dfind_def by (intro find_from) (auto simp: nth_append)
    then show ?thesis using Some by simp
  qed
  moreover have "k < length es" if "dfind es nm' = Some k" for k using that by (auto simp: dfind_def find_Some_iff)
  ultimately show ?thesis using False by (cases "dfind es nm'") (auto simp: add_entry_def nth_append)
qed

lemma dirlink_run:
  fixes s :: "'a istate_scheme"
  assumes t: "txn s" and mo: "map_ok s" and d: "dir_inv s dp" and num: "i_inum (inodes s dp) < sb_ninodes (sb s)"
    and lk: "lock_of s (IBLOCK (i_inum (inodes s dp)) (sb s)) = None" and bu: "budget 10 s" and fr: "2 \<le> card (free_set s)"
    and room: "i_size (inodes s dp) + DESIZE \<le> MAXFILE * BSIZE" and no: "dfind (entries s dp) (cname name 0) = None" and inum: "inum < 65536"
  defines "k \<equiv> dslot (entries s dp)"
  shows "\<exists>s'. dirlink dp name inum s = Inr (0, s') \<and> txn s' \<and> map_ok s' \<and> dir_inv s' dp \<and> lock_of s' = lock_of s \<and>
    entries s' dp = add_entry k (inum, cname name 0) (entries s dp)"
proof -
  let ?de = "mk_dirent name inum" and ?sz = "i_size (inodes s dp)" and ?n = "i_size (inodes s dp) div DESIZE"
  obtain s1 where 1: "dirlookup dp name s = Inr (None, s1)" "tx {} s s1" "tframe s s1" "view s1 = view s"
    using dirlookup_run [OF t bu d, of name] no by auto
  note Q1 = quiet_step [OF 1(2-4)]
  have b1: "txn s1" "budget 10 s1" "dir_inv s1 dp" using 1(2) tx_budget [OF 1(2) t, of 0 10] bu d Q1 by (simp_all add: tx_def dir_inv_def)
  obtain s2 where 2: "dirlink_scan ?sz 0 dp s1 = Inr (DESIZE * k, s2)" "tx {} s1 s2" "tframe s1 s2" "view s2 = view s1"
    using dirlink_scan_run [OF b1, of 0] unfolding k_def Q1 by auto
  note Q2 = quiet_step [OF 2(2-4)]
  have q: "tx {} s s2" "tframe s s2" "view s2 = view s" using tx_trans [OF 1(2) 2(2)] tframe_trans [OF 1(3) 2(3)] 2(4) 1(4) by simp_all
  note Q = quiet_step [OF q]
  have al: "DESIZE * ?n = ?sz" using d by (simp add: dir_inv_def) (metis div_mult_mod_eq add_0_right mult.commute)
  have k: "k \<le> ?n" "DESIZE * k \<le> ?sz" using dslot_le(1) [of "entries s dp"] al unfolding k_def by (simp_all, metis mult_le_mono2)
  have c: "card (touched (DESIZE * k) DESIZE) = 1" by (simp add: touched_entry)
  have s2: "txn s2" "lock_of s2 = lock_of s" "sb s2 = sb s" using q(1) tframe_inodes [OF q(2)] by (simp_all add: tx_def)
  have "\<exists>s'. writei dp False 0 ?de (DESIZE * k) DESIZE s2 = Inr (int DESIZE, s') \<and> write_post s2 dp (DESIZE * k) DESIZE (\<lambda>i. ?de (0 + i)) s'"
  proof (rule writei_kernel)
    show "file_inv s2 dp" "map_ok s2" using d mo Q by (simp_all add: dir_inv_def)
    show "budget (9 + card (touched (DESIZE * k) DESIZE)) s2" using tx_budget [OF q(1) t, of 0 10] bu by (simp add: c)
    show "DESIZE * k + DESIZE \<le> MAXFILE * BSIZE" using k room by simp
    show "0 + DESIZE < 18446744073709551616" by (simp add: DESIZE_def)
  qed (use s2 num lk k fr Q in \<open>simp_all add: c\<close>)
  then obtain s' where 3: "writei dp False 0 ?de (DESIZE * k) DESIZE s2 = Inr (int DESIZE, s')"
    and p: "write_post s2 dp (DESIZE * k) DESIZE ?de s'" by auto
  note P = p [unfolded write_post_def]
  have run: "dirlink dp name inum s = Inr (0, s')" using 1(1) 2(1) 3 Q1 by (simp add: dirlink_def)
  have sz': "i_size (inodes s' dp) = max ?sz (DESIZE * k + DESIZE)" using P Q by simp
  have n': "i_size (inodes s' dp) div DESIZE = (if k < ?n then ?n else Suc ?n)" "i_size (inodes s' dp) mod DESIZE = 0"
  proof -
    have "i_size (inodes s' dp) = DESIZE * (if k < ?n then ?n else Suc ?n)" using k al unfolding sz'
      by (cases "k < ?n") (auto simp: max_def not_less dest!: mult_le_mono2 [of "Suc k" ?n DESIZE, OF Suc_leI])
    then show "i_size (inodes s' dp) div DESIZE = (if k < ?n then ?n else Suc ?n)" "i_size (inodes s' dp) mod DESIZE = 0"
      by (simp_all add: DESIZE_def)
  qed
  have ct: "content s' dp x = (if DESIZE * k \<le> x \<and> x < DESIZE * k + DESIZE then ?de (x - DESIZE * k) else content s dp x)" if "x < MAXFILE * BSIZE" for x
    using P that Q(1) by simp
  have mx: "i_size (inodes s' dp) \<le> MAXFILE * BSIZE" using P file_inv_def by blast
  have ek: "dirent_at (content s' dp) k = (inum, cname name 0)"
    by (rule dirent_at_mk [OF _ inum]) (use ct k room in auto)
  have ej: "dirent_at (content s' dp) j = dirent_at (content s dp) j" if "j \<noteq> k" "j < i_size (inodes s' dp) div DESIZE" for j
  proof (rule dirent_at_cong)
    fix i assume i: "i < DESIZE"
    have "DESIZE * j + i < MAXFILE * BSIZE" using entries_bound [OF that(2)] i mx by simp
    moreover have "\<not> (DESIZE * k \<le> DESIZE * j + i \<and> DESIZE * j + i < DESIZE * k + DESIZE)"
    proof (cases "j < k")
      case True
      then have "DESIZE * Suc j \<le> DESIZE * k" by (intro mult_le_mono2) simp
      then show ?thesis using i by simp
    next
      case False
      then have "DESIZE * Suc k \<le> DESIZE * j" using that(1) by (intro mult_le_mono2) simp
      then show ?thesis by simp
    qed
    ultimately show "content s' dp (DESIZE * j + i) = content s dp (DESIZE * j + i)" using ct by auto
  qed
  have "entries s' dp = add_entry k (inum, cname name 0) (entries s dp)"
  proof (rule nth_equalityI)
    show "length (entries s' dp) = length (add_entry k (inum, cname name 0) (entries s dp))" using n' k by (auto simp: add_entry_def)
    fix j assume "j < length (entries s' dp)"
    then have j: "j < i_size (inodes s' dp) div DESIZE" by simp
    show "entries s' dp ! j = add_entry k (inum, cname name 0) (entries s dp) ! j"
    proof (cases "j = k")
      case True
      then show ?thesis using ek j k n' by (auto simp: nth_entries add_entry_def nth_append)
    next
      case False
      then show ?thesis using ej [OF False j] j k n' by (auto simp: nth_entries add_entry_def nth_append split: if_splits)
    qed
  qed
  moreover have "i_type (inodes s' dp) = T_DIR"
    using P d Q by (auto simp: dir_inv_def)
  ultimately show ?thesis using run P n' s2 by (auto simp: dir_inv_def)
qed

section \<open>Path elements\<close>

text \<open>The elements of a path: what lies between slashes, empty parts left out.\<close>

primrec split_on :: "'a \<Rightarrow> 'a list \<Rightarrow> 'a list list" where
  "split_on x [] = [[]]"
| "split_on x (c # cs) = (if c = x then [] # split_on x cs else (c # hd (split_on x cs)) # tl (split_on x cs))"

definition elems :: "byte list \<Rightarrow> byte list list" where
  "elems path = filter (\<lambda>e. e \<noteq> []) (split_on SLASH path)"

lemma split_on_ne [simp]: "split_on x cs \<noteq> []"
  by (cases cs) simp_all

lemma split_on_takeWhile:
  "split_on x cs = takeWhile (\<lambda>c. c \<noteq> x) cs # (case dropWhile (\<lambda>c. c \<noteq> x) cs of [] \<Rightarrow> [] | c # ds \<Rightarrow> split_on x ds)"
proof (induction cs)
  case (Cons c cs)
  show ?case
  proof (cases "c = x")
    case False
    have "hd (split_on x cs) = takeWhile (\<lambda>c. c \<noteq> x) cs" "tl (split_on x cs) = (case dropWhile (\<lambda>c. c \<noteq> x) cs of [] \<Rightarrow> [] | c # ds \<Rightarrow> split_on x ds)"
      by (subst Cons, simp)+
    then show ?thesis using False by simp
  qed simp
qed simp

lemma elems_slash [simp]: "elems (SLASH # p) = elems p" "elems [] = []"
  by (simp_all add: elems_def)

lemma elems_slashes: "elems (dropWhile (\<lambda>c. c = SLASH) p) = elems p"
  by (induction p) (auto simp: elems_def)

lemma elems_Cons:
  assumes "p \<noteq> []" and "hd p \<noteq> SLASH"
  shows "elems p = takeWhile (\<lambda>c. c \<noteq> SLASH) p # elems (dropWhile (\<lambda>c. c \<noteq> SLASH) p)"
proof -
  let ?d = "dropWhile (\<lambda>c. c \<noteq> SLASH) p"
  have t: "takeWhile (\<lambda>c. c \<noteq> SLASH) p \<noteq> []" using assms by (cases p) auto
  have "elems ?d = filter (\<lambda>e. e \<noteq> []) (case ?d of [] \<Rightarrow> [] | c # ds \<Rightarrow> split_on SLASH ds)"
  proof (cases ?d)
    case (Cons c ds)
    then have "c = SLASH" using hd_dropWhile [of "\<lambda>c. c \<noteq> SLASH" p] by simp
    then show ?thesis using Cons by (simp add: elems_def)
  next
    case Nil
    then show ?thesis unfolding Nil by simp
  qed
  then show ?thesis using t by (simp add: elems_def split_on_takeWhile [of SLASH p])
qed

text \<open>The element that is copied to \<^verbatim>\<open>name\<close>, cut off after \<^verbatim>\<open>DIRSIZ\<close> bytes.\<close>

lemma takeWhile_True: "(\<And>c. c \<in> set cs \<Longrightarrow> P c) \<Longrightarrow> takeWhile P cs = cs"
  by (simp add: takeWhile_eq_all_conv)

lemma cname_long:
  assumes "DIRSIZ \<le> length e" and "0 \<notin> set e"
  shows "cname (blit nm 0 (bytes_of_list e) 0 DIRSIZ) 0 = take DIRSIZ e"
proof -
  have "list_of_bytes (blit nm 0 (bytes_of_list e) 0 DIRSIZ) 0 DIRSIZ = take DIRSIZ e"
    using assms(1) by (intro nth_equalityI) (simp_all add: blit_def bytes_of_list_def)
  then show ?thesis unfolding cname_def using assms(2) by (auto intro!: takeWhile_True dest: in_set_takeD)
qed

lemma cname_short:
  assumes "length e < DIRSIZ" and "0 \<notin> set e"
  shows "cname ((blit nm 0 (bytes_of_list e) 0 (length e))(length e := 0)) 0 = e"
proof -
  let ?d = "(blit nm 0 (bytes_of_list e) 0 (length e))(length e := 0)"
  have "list_of_bytes ?d 0 DIRSIZ = e @ 0 # list_of_bytes ?d (Suc (length e)) (DIRSIZ - Suc (length e))"
  proof (rule nth_equalityI)
    fix i assume "i < length (list_of_bytes ?d 0 DIRSIZ)"
    then have i: "i < DIRSIZ" by simp
    consider "i < length e" | "i = length e" | j where "i = Suc (length e) + j" by (metis less_iff_Suc_add linorder_neqE_nat add_Suc)
    then show "list_of_bytes ?d 0 DIRSIZ ! i = (e @ 0 # list_of_bytes ?d (Suc (length e)) (DIRSIZ - Suc (length e))) ! i"
      using i by cases (simp_all add: nth_append blit_def bytes_of_list_def)
  qed (use assms(1) in simp)
  then have "cname ?d 0 = takeWhile (\<lambda>c. c \<noteq> 0) (e @ 0 # list_of_bytes ?d (Suc (length e)) (DIRSIZ - Suc (length e)))"
    by (simp add: cname_def)
  also have "\<dots> = e" using assms(2) by (subst takeWhile_append2) auto
  finally show ?thesis .
qed

section \<open>The root directory of the small file system\<close>

lemma cname_short_list: "length e < DIRSIZ \<Longrightarrow> 0 \<notin> set e \<Longrightarrow> cname (bytes_of_list e) 0 = e"
proof -
  assume e: "length e < DIRSIZ" "0 \<notin> set e"
  have "(blit (\<lambda>_. 0) 0 (bytes_of_list e) 0 (length e))(length e := 0) = bytes_of_list e" by (auto simp: blit_def bytes_of_list_def)
  then show ?thesis using cname_short [OF e, of "\<lambda>_. 0"] by simp
qed

lemma demo_entries: "entries (demo_fs r) 0 = [(1, str ''.''), (1, str ''..''), (2, str ''a'')]" "dir_inv (demo_fs r) 0"
proof -
  let ?d = "content (demo_fs r) 0"
  have c: "?d x = demo_root x" if "x < 48" for x
    using that by (simp add: content_def demo_addr BSIZE_def fs_image_def blit_def)
  have n: "cname (bytes_of_list (str ''.'')) 0 = str ''.''" "cname (bytes_of_list (str ''..'')) 0 = str ''..''" "cname (bytes_of_list (str ''a'')) 0 = str ''a''"
    by (rule cname_short_list; simp add: str_def DIRSIZ_def)+
  have "dirent_at ?d 0 = (1, cname (bytes_of_list (str ''.'')) 0)" "dirent_at ?d 1 = (1, cname (bytes_of_list (str ''..'')) 0)"
    "dirent_at ?d 2 = (2, cname (bytes_of_list (str ''a'')) 0)"
    by (rule dirent_at_mk; simp add: c DESIZE_def demo_root_def blit_def)+
  moreover have "[0..<3] = [0, 1, 2 :: nat]" by (simp add: upt_rec)
  moreover have "entries (demo_fs r) 0 = map (dirent_at ?d) [0..<3]" by (simp add: entries_def demo_inode_fields DESIZE_def)
  ultimately show "entries (demo_fs r) 0 = [(1, str ''.''), (1, str ''..''), (2, str ''a'')]" by (simp add: n del: One_nat_def)
  show "dir_inv (demo_fs r) 0" using demo_file(2) by (simp add: dir_inv_def demo_inode_fields DESIZE_def)
qed

section \<open>Properties\<close>

text \<open>
  \<^verbatim>\<open>dirlookup\<close> in a well-formed directory returns a null pointer exactly when no used entry has the name, compared as in
  \<^verbatim>\<open>namecmp\<close>. Otherwise it returns the offset of the first such entry and a counted reference to its inode, or panics because the inode cache is full.
  It changes no block.\<close>

theorem dirlookup_first_match:
  fixes s :: "'a istate_scheme"
  assumes "txn s" and "budget 0 s" and "dir_inv s dp" and "icache_ok (inodes s)"
  shows "case dfind (entries s dp) (cname name 0) of
      None \<Rightarrow> (\<exists>s'. dirlookup dp name s = Inr (None, s') \<and> view s' = view s \<and> inodes s' = inodes s)
    | Some j \<Rightarrow> (case dirlookup dp name s of
        Inr (Some (ip, off), s') \<Rightarrow> off = DESIZE * j \<and> in_use (inodes s' ip) ROOTDEV (fst (entries s dp ! j)) \<and> icache_ok (inodes s') \<and>
          refs (inodes s') ROOTDEV (fst (entries s dp ! j)) = refs (inodes s) ROOTDEV (fst (entries s dp ! j)) + 1 \<and> view s' = view s
      | Inr (None, s') \<Rightarrow> False
      | Inl e \<Rightarrow> e = Panic ''iget: no inodes'')"
proof -
  obtain s' where s': "tx {} s s'" "tframe s s'" "view s' = view s" "dirlookup dp name s =
      (case dfind (entries s dp) (cname name 0) of
         None \<Rightarrow> Inr (None, s')
       | Some j \<Rightarrow> bindE (iget ROOTDEV (fst (entries s dp ! j)) s') (\<lambda>(ip, s). Inr (Some (ip, DESIZE * j), s)))"
    using dirlookup_run [OF assms(1-3), of name] by blast
  have i: "inodes s' = inodes s" using tframe_inodes [OF s'(2)] by simp
  show ?thesis
  proof (cases "dfind (entries s dp) (cname name 0)")
    case None
    then show ?thesis using s' i by simp
  next
    case (Some j)
    let ?n = "fst (entries s dp ! j)"
    have ok: "icache_ok (inodes s')" using assms(4) i by simp
    then have v: "view t = view s'" if "iget ROOTDEV ?n s' = Inr (ip, t)" for ip t
      using that by (cases rule: iget_cases [where dev = ROOTDEV and inum = ?n]) (auto simp: idup_def)
    show ?thesis
    proof (cases "iget ROOTDEV ?n s'")
      case (Inl e)
      then show ?thesis using iget_unique [OF ok, of ROOTDEV ?n] s'(4) Some by simp
    next
      case (Inr p)
      obtain ip t where p: "p = (ip, t)" by (cases p)
      show ?thesis using iget_unique [OF ok, of ROOTDEV ?n] Inr v [of ip t] s'(3,4) Some i by (simp add: p)
    qed
  qed
qed

theorem dirlookup_first_match_witness:
  "\<exists>ip (s' :: istate). dirlookup 0 (bytes_of_list (str ''a'')) (demo_fs ()) = Inr (Some (ip, 32), s') \<and> in_use (inodes s' ip) ROOTDEV 2"
proof -
  let ?s = "demo_fs () :: istate" and ?nm = "bytes_of_list (str ''a'')"
  have n: "cname ?nm 0 = str ''a''" by (rule cname_short_list) (simp_all add: str_def DIRSIZ_def)
  have f: "dfind (entries ?s 0) (cname ?nm 0) = Some 2" unfolding n demo_entries(1)
    by (simp add: dfind_def str_def upt_rec)
  obtain s1 :: istate where s1: "tframe ?s s1" "dirlookup 0 ?nm ?s = bindE (iget ROOTDEV 2 s1) (\<lambda>(ip, s). Inr (Some (ip, DESIZE * 2), s))"
    using dirlookup_run [OF demo_fs_txn(1) demo_fs_txn(4) demo_entries(2) [of "()"], of 0 ?nm] unfolding f by (auto simp: demo_entries(1))
  have e: "inodes s1 = inodes ?s" using tframe_inodes [OF s1(1)] by simp
  have "icache_ok (inodes s1)" using demo_icache(1) e by simp
  then have "\<exists>p. iget ROOTDEV 2 s1 = Inr p"
  proof (cases rule: iget_cases [where dev = ROOTDEV and inum = 2])
    case full
    then show ?thesis using full(2) [of 1] demo_icache(2) [of "()"] e by (simp add: NINODE_def)
  qed auto
  then obtain ip and t :: istate where "dirlookup 0 ?nm ?s = Inr (Some (ip, DESIZE * 2), t)" using s1(2) by auto
  then show ?thesis
    using dirlookup_first_match [OF demo_fs_txn(1) demo_fs_txn(4) demo_entries(2) [of "()"] demo_icache(1), of ?nm]
    unfolding f by (auto simp: DESIZE_def demo_entries(1))
qed

text \<open>C21: \<^verbatim>\<open>dirlink\<close> of a name that is not in a well-formed directory, in a transaction with room for it, succeeds: the entry goes to the first empty slot, or to the end when there is none,
  and every other entry stays as it is. The directory is well formed again, the new name is found with the new inode number, and every other name is found
  with the number it had.\<close>

theorem dirlink_adds_entry:
  fixes s :: "'a istate_scheme"
  assumes "txn s" and "map_ok s" and "dir_inv s dp" and "i_inum (inodes s dp) < sb_ninodes (sb s)"
    and "lock_of s (IBLOCK (i_inum (inodes s dp)) (sb s)) = None" and "budget 10 s" and "2 \<le> card (free_set s)"
    and "i_size (inodes s dp) + DESIZE \<le> MAXFILE * BSIZE" and "dfind (entries s dp) (cname name 0) = None" and "inum < 65536" and "inum \<noteq> 0"
  shows "\<exists>s'. dirlink dp name inum s = Inr (0, s') \<and> txn s' \<and> map_ok s' \<and> dir_inv s' dp \<and> lock_of s' = lock_of s \<and>
    entries s' dp = add_entry (dslot (entries s dp)) (inum, cname name 0) (entries s dp) \<and>
    dfind (entries s' dp) (cname name 0) = Some (dslot (entries s dp)) \<and>
    (\<forall>nm. nm \<noteq> cname name 0 \<longrightarrow> map_option ((!) (entries s' dp)) (dfind (entries s' dp) nm) = map_option ((!) (entries s dp)) (dfind (entries s dp) nm))"
proof -
  obtain s' where "dirlink dp name inum s = Inr (0, s')" "txn s'" "map_ok s'" "dir_inv s' dp" "lock_of s' = lock_of s"
    "entries s' dp = add_entry (dslot (entries s dp)) (inum, cname name 0) (entries s dp)"
    using dirlink_run [OF assms(1-10)] by blast
  then show ?thesis using dfind_add [OF assms(9,11)] dfind_add_other [of _ "cname name 0" "entries s dp" inum] by auto
qed

theorem dirlink_adds_entry_witness:
  "\<exists>s' :: istate. dirlink 0 (bytes_of_list (str ''b'')) 7 (demo_fs ()) = Inr (0, s') \<and>
     entries s' 0 = [(1, str ''.''), (1, str ''..''), (2, str ''a''), (7, str ''b'')]"
proof -
  let ?s = "demo_fs () :: istate" and ?nm = "bytes_of_list (str ''b'')"
  have n: "cname ?nm 0 = str ''b''" by (rule cname_short_list) (simp_all add: str_def DIRSIZ_def)
  have f: "dfind (entries ?s 0) (cname ?nm 0) = None" unfolding n demo_entries(1) by (simp add: dfind_def str_def upt_rec)
  have sl: "dslot [(1, str ''.''), (1, str ''..''), (2, str ''a'')] = 3" by (simp add: dslot_def upt_rec)
  have "IBLOCK (i_inum (inodes ?s 0)) (sb ?s) = 32" by (simp add: demo_inode_fields demo_sb_def IBLOCK_def IPB_def BSIZE_def cint_simps)
  moreover have "i_inum (inodes ?s 0) < sb_ninodes (sb ?s)" "budget 10 ?s" "2 \<le> card (free_set ?s)" "i_size (inodes ?s 0) + DESIZE \<le> MAXFILE * BSIZE"
    by (simp_all add: demo_map demo_inode_fields demo_sb_def max_size DESIZE_def)
  ultimately show ?thesis
    using dirlink_adds_entry [OF demo_fs_txn(1) demo_map(3) demo_entries(2) _ _ _ _ _ f, of 7] unfolding demo_entries(1) sl n
    by (auto simp: add_entry_def)
qed

text \<open>\<^verbatim>\<open>skipelem\<close> takes the first element off a path: with the elements of a path being its non-empty parts between slashes, it returns a null pointer exactly
  when there is none; otherwise the rest has the remaining elements and no leading slash, and \<^verbatim>\<open>name\<close> holds the first \<^verbatim>\<open>DIRSIZ\<close> bytes of the first element. So the loop of
  \<^verbatim>\<open>namex\<close> visits the elements in order and ends.\<close>

theorem skipelem_first_element:
  assumes "0 \<notin> set path"
  shows "case skipelem path nm of None \<Rightarrow> elems path = []
    | Some (path', nm') \<Rightarrow> \<exists>e. elems path = e # elems path' \<and> (path' = [] \<or> hd path' \<noteq> SLASH) \<and> cname nm' 0 = take DIRSIZ e"
proof (cases "dropWhile (\<lambda>c. c = SLASH) path = []")
  case True
  have "elems path = []" using elems_slashes [of path] unfolding True by simp
  then show ?thesis using True by (simp add: skipelem_def)
next
  case False
  let ?p = "dropWhile (\<lambda>c. c = SLASH) path"
  let ?e = "takeWhile (\<lambda>c. c \<noteq> SLASH) ?p" and ?r = "dropWhile (\<lambda>c. c = SLASH) (dropWhile (\<lambda>c. c \<noteq> SLASH) ?p)"
  have "hd ?p \<noteq> SLASH" using hd_dropWhile [OF False] .
  then have el: "elems path = ?e # elems ?r" using elems_Cons [OF False] by (simp add: elems_slashes)
  have r: "?r = [] \<or> hd ?r \<noteq> SLASH" using hd_dropWhile [of "\<lambda>c. c = SLASH"] by blast
  have z: "0 \<notin> set ?e" using assms by (meson set_dropWhileD set_takeWhileD)
  show ?thesis
  proof (cases "DIRSIZ \<le> length ?e")
    case True
    then show ?thesis using el r cname_long [OF True z, of nm] False by (simp add: skipelem_def Let_def)
  next
    case short: False
    then have "cname ((blit nm 0 (bytes_of_list ?e) 0 (length ?e))(length ?e := 0)) 0 = take DIRSIZ ?e"
      using cname_short [of ?e nm] z by simp
    then show ?thesis using el r short False by (simp add: skipelem_def Let_def)
  qed
qed

theorem skipelem_first_element_witness:
  "(\<exists>nm'. skipelem (str ''///a//bb'') (\<lambda>_. 0) = Some (str ''bb'', nm') \<and> cname nm' 0 = str ''a'') \<and> skipelem (str ''////'') (\<lambda>_. 0) = None"
proof
  have e: "elems (str ''///a//bb'') = [str ''a'', str ''bb'']" "elems (str ''bb'') = [str ''bb'']" by (simp_all add: elems_def str_def SLASH_def)
  obtain nm' where s: "skipelem (str ''///a//bb'') (\<lambda>_. 0) = Some (str ''bb'', nm')" by (simp add: skipelem_def str_def SLASH_def Let_def)
  have "0 \<notin> set (str ''///a//bb'')" by (simp add: str_def)
  from skipelem_first_element [OF this, of "\<lambda>_. 0"] show "\<exists>nm'. skipelem (str ''///a//bb'') (\<lambda>_. 0) = Some (str ''bb'', nm') \<and> cname nm' 0 = str ''a''"
    using s e by (simp add: str_def DIRSIZ_def)
  show "skipelem (str ''////'') (\<lambda>_. 0) = None" by (simp add: skipelem_def str_def SLASH_def)
qed

end
