(* ===== verification/Console.thy ===== *)
theory Console
  imports File
begin

text \<open>
  The console: line editing of the input (\<^verbatim>\<open>FileSystem-RAID/kernel/console.c\<close>), the serial port's transmit buffer
  (\<^verbatim>\<open>uart.c\<close>) and the kernel's \<^verbatim>\<open>printf\<close> (\<^verbatim>\<open>printf.c\<close>) with \<^verbatim>\<open>procdump\<close> of \<^verbatim>\<open>proc.c\<close>. What the hardware supplies is part
  of the state: \<open>tx_ready\<close> are the values that the next readings of \<^verbatim>\<open>LSR_TX_IDLE\<close> give, \<open>rx\<close> the characters that have arrived;
  \<open>uart_out\<close> is what has been written to the port. A loop that waits for the port ends with the first reading that says it is
  idle; when there is none, it does not return. \<^verbatim>\<open>uartinit\<close> only sets registers.

  The abstract console is a pair of the bytes that \<^verbatim>\<open>consoleread\<close> may take and the line that is still being edited; the
  interrupt handler with its three wrapping indices implements an editor on it.
\<close>

section \<open>State\<close>

record constate = fstate +
  cons_buf :: bytes
  cons_r :: nat
  cons_w :: nat
  cons_e :: nat
  uart_tx_buf :: bytes
  uart_tx_w :: nat
  uart_tx_r :: nat
  uart_out :: "byte list"
  tx_ready :: "bool list"
  rx :: "byte list"
  panicked :: bool

definition INPUT_BUF :: nat where "INPUT_BUF = 128"
definition UART_TX_BUF_SIZE :: nat where "UART_TX_BUF_SIZE = 32"

abbreviation Chan_cons_r :: chan where "Chan_cons_r \<equiv> Chan_other 0"
abbreviation Chan_uart_tx_r :: chan where "Chan_uart_tx_r \<equiv> Chan_other 1"

section \<open>The serial port\<close>

definition uartputc_sync :: "byte \<Rightarrow> 'a constate_scheme \<Rightarrow> 'a constate_scheme kres" where
  "uartputc_sync c s =
     (if panicked s then Inl (Sleep ''panicked'')
      else case dropWhile Not (tx_ready s) of
        [] \<Rightarrow> Inl (Sleep ''uart'')
      | _ # rs \<Rightarrow> Inr (s\<lparr>tx_ready := rs, uart_out := uart_out s @ [c]\<rparr>))"

lemma wakeup_constate [simp]:
  "tx_ready (wakeup ch s) = tx_ready s" "uart_tx_w (wakeup ch s) = uart_tx_w s" "uart_tx_r (wakeup ch s) = uart_tx_r s"
  "uart_tx_buf (wakeup ch s) = uart_tx_buf s" "uart_out (wakeup ch s) = uart_out s" "rx (wakeup ch s) = rx s"
  "cons_buf (wakeup ch s) = cons_buf s" "cons_r (wakeup ch s) = cons_r s" "cons_w (wakeup ch s) = cons_w s"
  "cons_e (wakeup ch s) = cons_e s" "panicked (wakeup ch s) = panicked s"
  by (simp_all add: wakeup_eq)

text \<open>The loop of \<^verbatim>\<open>uartstart\<close>; each turn that does not return takes a reading that says the port is idle.\<close>

function uartstart :: "'a constate_scheme \<Rightarrow> 'a constate_scheme" where
  "uartstart s =
     (if uart_tx_w s = uart_tx_r s then s
      else case tx_ready s of
        [] \<Rightarrow> s
      | idle # rs \<Rightarrow>
          let s = s\<lparr>tx_ready := rs\<rparr> in
          if \<not> idle then s
          else
            let c = uart_tx_buf s (uart_tx_r s);
                s = s\<lparr>uart_tx_r := (uart_tx_r s + 1) mod UART_TX_BUF_SIZE\<rparr>;
                s = wakeup Chan_uart_tx_r s;
                s = s\<lparr>uart_out := uart_out s @ [c]\<rparr> in
            uartstart s)"
  by pat_completeness auto

termination
  by (relation "measure (\<lambda>s. length (tx_ready s))") auto

declare uartstart.simps [simp del]

text \<open>\<^verbatim>\<open>uartputc\<close> from the test of the buffer on; \<open>None\<close> if the caller has to sleep.\<close>

definition uartputc :: "byte \<Rightarrow> 'a constate_scheme \<Rightarrow> (bool \<times> 'a constate_scheme) kres" where
  "uartputc c s =
     (if panicked s then Inl (Sleep ''panicked'')
      else if (uart_tx_w s + 1) mod UART_TX_BUF_SIZE = uart_tx_r s then Inr (False, set_sleeping Chan_uart_tx_r s)
      else
        let s = s\<lparr>uart_tx_buf := (uart_tx_buf s)(uart_tx_w s := c)\<rparr>;
            s = s\<lparr>uart_tx_w := (uart_tx_w s + 1) mod UART_TX_BUF_SIZE\<rparr> in
        Inr (True, uartstart s))"

definition uartgetc :: "'a constate_scheme \<Rightarrow> int \<times> 'a constate_scheme" where
  "uartgetc s = (case rx s of [] \<Rightarrow> (-1, s) | c # cs \<Rightarrow> (uint c, s\<lparr>rx := cs\<rparr>))"

section \<open>Printing\<close>

definition BACKSPACE :: int where "BACKSPACE = 256"

definition consputc :: "int \<Rightarrow> 'a constate_scheme \<Rightarrow> 'a constate_scheme kres" where
  "consputc c s =
     (if c = BACKSPACE then
        bindE (uartputc_sync 8 s) (\<lambda>s. bindE (uartputc_sync 32 s) (uartputc_sync 8))
      else uartputc_sync (of_int c) s)"

definition digit :: "nat \<Rightarrow> byte" where
  "digit d = (str ''0123456789abcdef'') ! d"

text \<open>The digits that \<^verbatim>\<open>printint\<close> stores in \<^verbatim>\<open>buf\<close>, the least significant first; it is called with the bases 10 and 16.\<close>

function printint_buf :: "nat \<Rightarrow> nat \<Rightarrow> byte list" where
  "printint_buf base x =
     digit (x mod base) # (if x div base \<noteq> 0 \<and> 1 < base then printint_buf base (x div base) else [])"
  by pat_completeness auto
termination
  by (relation "measure snd") (auto intro!: div_less_dividend intro: gr0I)

declare printint_buf.simps [simp del]

definition printint_bytes :: "int \<Rightarrow> nat \<Rightarrow> bool \<Rightarrow> byte list" where
  "printint_bytes xx base sign =
     (let neg = (sign \<and> xx < 0);
          x = (if neg then u32_of_int (- xx) else u32_of_int xx);
          buf = printint_buf base x;
          buf = (if neg then buf @ [45] else buf) in
      rev buf)"

definition consputs :: "byte list \<Rightarrow> 'a constate_scheme \<Rightarrow> 'a constate_scheme kres" where
  "consputs bs s = foldE (\<lambda>c. consputc (uint c)) bs s"

definition printint :: "int \<Rightarrow> nat \<Rightarrow> bool \<Rightarrow> 'a constate_scheme \<Rightarrow> 'a constate_scheme kres" where
  "printint xx base sign s = consputs (printint_bytes xx base sign) s"

definition printptr :: "nat \<Rightarrow> 'a constate_scheme \<Rightarrow> 'a constate_scheme kres" where
  "printptr x s =
     bindE (consputc 48 s) (\<lambda>s.
     bindE (consputc 120 s) (\<lambda>s.
     consputs (map (\<lambda>i. digit (u64 (x * 16 ^ i) div 2 ^ 60)) [0..<16]) s))"

text \<open>The arguments of \<^verbatim>\<open>printf\<close>; a null string is \<open>None\<close>. Too few or mismatched arguments are undefined.\<close>

datatype parg = PInt int | PPtr nat | PStr "byte list option"

fun printf_loop :: "byte list \<Rightarrow> parg list \<Rightarrow> 'a constate_scheme \<Rightarrow> 'a constate_scheme kres" where
  "printf_loop [] ap s = Inr s"
| "printf_loop [c] ap s = (if c \<noteq> 37 then consputc (uint c) s else Inr s)"
| "printf_loop (c # d # fmt) ap s =
     (if c \<noteq> 37 then bindE (consputc (uint c) s) (printf_loop (d # fmt) ap)
      else if d = 100 then (case ap of PInt v # ap \<Rightarrow> bindE (printint v 10 True s) (printf_loop fmt ap) | _ \<Rightarrow> Inl (Undef ''va_arg''))
      else if d = 120 then (case ap of PInt v # ap \<Rightarrow> bindE (printint v 16 True s) (printf_loop fmt ap) | _ \<Rightarrow> Inl (Undef ''va_arg''))
      else if d = 112 then (case ap of PPtr v # ap \<Rightarrow> bindE (printptr v s) (printf_loop fmt ap) | _ \<Rightarrow> Inl (Undef ''va_arg''))
      else if d = 115 then
        (case ap of
           PStr v # ap \<Rightarrow> bindE (consputs (case v of None \<Rightarrow> str ''(null)'' | Some b \<Rightarrow> b) s) (printf_loop fmt ap)
         | _ \<Rightarrow> Inl (Undef ''va_arg''))
      else if d = 37 then bindE (consputc 37 s) (printf_loop fmt ap)
      else bindE (consputc 37 s) (\<lambda>s. bindE (consputc (uint d) s) (printf_loop fmt ap)))"

definition printf :: "string \<Rightarrow> parg list \<Rightarrow> 'a constate_scheme \<Rightarrow> 'a constate_scheme kres" where
  "printf fmt ap s = printf_loop (str fmt) ap s"

definition state_name :: "procstate \<Rightarrow> string" where
  "state_name st = (case st of UNUSED \<Rightarrow> ''unused'' | SLEEPING \<Rightarrow> ''sleep '' | RUNNABLE \<Rightarrow> ''runble''
     | RUNNING \<Rightarrow> ''run   '' | ZOMBIE \<Rightarrow> ''zombie'')"

definition procdump_body :: "nat \<Rightarrow> 'a constate_scheme \<Rightarrow> 'a constate_scheme kres" where
  "procdump_body p s =
     (if p_state (procs s p) = UNUSED then Inr s
      else
        bindE (printf ''%d %s %s'' [PInt (p_pid (procs s p)), PStr (Some (str (state_name (p_state (procs s p))))),
                 PStr (Some (cstr (p_name (procs s p)) 16))] s) (\<lambda>s.
        consputc 10 s))"

definition procdump :: "'a constate_scheme \<Rightarrow> 'a constate_scheme kres" where
  "procdump s = bindE (consputc 10 s) (foldE procdump_body [0..<NPROC])"

section \<open>The console\<close>

text \<open>\<^verbatim>\<open>consolewrite\<close> from byte \<open>i\<close> on. When the transmit buffer is full it sleeps with the character \<open>c\<close> in hand;
  \<open>consolewrite_resume\<close> continues there.\<close>

function consolewrite_from ::
  "nat \<Rightarrow> bool \<Rightarrow> nat \<Rightarrow> int \<Rightarrow> 'a constate_scheme \<Rightarrow> (call_result \<times> 'a constate_scheme) kres" where
  "consolewrite_from i user_src src n s =
     (if int i < n then
        bindE (either_copyin (\<lambda>_. 0) 0 user_src (u64 (src + i)) (\<lambda>_. 0) 1 s) (\<lambda>(r, c, s).
        if r = -1 then Inr (Done (int i), s)
        else
          bindE (uartputc (c 0) s) (\<lambda>(sent, s).
          if sent then consolewrite_from (Suc i) user_src src n s else Inr (Asleep i, s)))
      else Inr (Done (int i), s))"
  by pat_completeness auto
termination
  by (relation "measure (\<lambda>(i, user_src, src, n, s). nat (n - int i))") auto

declare consolewrite_from.simps [simp del]

definition consolewrite_resume ::
  "byte \<Rightarrow> nat \<Rightarrow> bool \<Rightarrow> nat \<Rightarrow> int \<Rightarrow> 'a constate_scheme \<Rightarrow> (call_result \<times> 'a constate_scheme) kres" where
  "consolewrite_resume c i user_src src n s =
     bindE (uartputc c (tidy_up s)) (\<lambda>(sent, s).
     if sent then consolewrite_from (Suc i) user_src src n s else Inr (Asleep i, s))"

definition consolewrite :: "bool \<Rightarrow> nat \<Rightarrow> int \<Rightarrow> 'a constate_scheme \<Rightarrow> (int \<times> 'a constate_scheme) kres" where
  "consolewrite user_src src n s = pipe_call ''consolewrite'' (consolewrite_from 0 user_src src n s)"

text \<open>\<^verbatim>\<open>consoleread\<close> with \<open>i\<close> bytes of \<^verbatim>\<open>target\<close> copied. Files are read into user memory, so \<open>user_dst\<close> is set.\<close>

function consoleread_from ::
  "nat \<Rightarrow> bool \<Rightarrow> nat \<Rightarrow> int \<Rightarrow> 'a constate_scheme \<Rightarrow> (call_result \<times> 'a constate_scheme) kres" where
  "consoleread_from i user_dst dst target s =
     (if int i < target then
        if cons_r s = cons_w s then
          if p_killed (procs s (myproc s)) then Inr (Done (-1), s)
          else Inr (Asleep i, set_sleeping Chan_cons_r s)
        else
          let c = cons_buf s (cons_r s mod INPUT_BUF);
              s = s\<lparr>cons_r := u32 (cons_r s + 1)\<rparr> in
          if c = 4 then
            let s = (if 0 < i then s\<lparr>cons_r := u32_dec (cons_r s)\<rparr> else s) in
            Inr (Done (int i), s)
          else
            bindE (either_copyout user_dst (u64 (dst + i)) (\<lambda>_. 0) (\<lambda>_. c) 0 1 s) (\<lambda>(r, _, s).
            if r = -1 then Inr (Done (int i), s)
            else if c = 10 then Inr (Done (int (Suc i)), s)
            else consoleread_from (Suc i) user_dst dst target s)
      else Inr (Done (int i), s))"
  by pat_completeness auto
termination
  by (relation "measure (\<lambda>(i, user_dst, dst, target, s). nat (target - int i))") auto

declare consoleread_from.simps [simp del]

definition consoleread_resume ::
  "nat \<Rightarrow> bool \<Rightarrow> nat \<Rightarrow> int \<Rightarrow> 'a constate_scheme \<Rightarrow> (call_result \<times> 'a constate_scheme) kres" where
  "consoleread_resume i user_dst dst target s = consoleread_from i user_dst dst target (tidy_up s)"

definition consoleread :: "bool \<Rightarrow> nat \<Rightarrow> int \<Rightarrow> 'a constate_scheme \<Rightarrow> (int \<times> 'a constate_scheme) kres" where
  "consoleread user_dst dst n s = pipe_call ''consoleread'' (consoleread_from 0 user_dst dst n s)"

text \<open>The loop for Control-U. The distance of the edit index to the write index, which bounds the turns, is passed along.\<close>

definition uint_diff :: "nat \<Rightarrow> nat \<Rightarrow> nat" where
  "uint_diff b a = (b + 4294967296 - a) mod 4294967296"

primrec kill_line :: "nat \<Rightarrow> 'a constate_scheme \<Rightarrow> 'a constate_scheme kres" where
  "kill_line 0 s = Inr s"
| "kill_line (Suc k) s =
     (if cons_e s \<noteq> cons_w s \<and> cons_buf s (u32_dec (cons_e s) mod INPUT_BUF) \<noteq> 10 then
        bindE (consputc BACKSPACE (s\<lparr>cons_e := u32_dec (cons_e s)\<rparr>)) (kill_line k)
      else Inr s)"

definition consoleintr :: "int \<Rightarrow> 'a constate_scheme \<Rightarrow> 'a constate_scheme kres" where
  "consoleintr c s =
     (if c = 16 then procdump s
      else if c = 21 then kill_line (uint_diff (cons_e s) (cons_w s)) s
      else if c = 8 \<or> c = 127 then
        if cons_e s \<noteq> cons_w s then consputc BACKSPACE (s\<lparr>cons_e := u32_dec (cons_e s)\<rparr>) else Inr s
      else if c \<noteq> 0 \<and> uint_diff (cons_e s) (cons_r s) < INPUT_BUF then
        let c = (if c = 13 then 10 else c) in
        bindE (consputc c s) (\<lambda>s.
        let s = s\<lparr>cons_buf := (cons_buf s)(cons_e s mod INPUT_BUF := of_int c), cons_e := u32 (cons_e s + 1)\<rparr> in
        if c = 10 \<or> c = 4 \<or> cons_e s = u32 (cons_r s + INPUT_BUF) then
          Inr (wakeup Chan_cons_r (s\<lparr>cons_w := cons_e s\<rparr>))
        else Inr s)
      else Inr s)"

text \<open>The loop of \<^verbatim>\<open>uartintr\<close> over the characters that have arrived.\<close>

primrec uartintr_loop :: "nat \<Rightarrow> 'a constate_scheme \<Rightarrow> 'a constate_scheme kres" where
  "uartintr_loop 0 s = Inr s"
| "uartintr_loop (Suc k) s =
     (case uartgetc s of (c, s) \<Rightarrow> if c = -1 then Inr s else bindE (consoleintr c s) (uartintr_loop k))"

definition uartintr :: "'a constate_scheme \<Rightarrow> 'a constate_scheme kres" where
  "uartintr s = bindE (uartintr_loop (Suc (length (rx s))) s) (\<lambda>s. Inr (uartstart s))"

definition CONSOLE :: nat where "CONSOLE = 1"

definition console_read_sw :: "nat \<Rightarrow> (bool \<Rightarrow> nat \<Rightarrow> int \<Rightarrow> 'a constate_scheme \<Rightarrow> (int \<times> 'a constate_scheme) kres) option" where
  "console_read_sw = (\<lambda>_. None)(CONSOLE := Some consoleread)"

definition console_write_sw :: "nat \<Rightarrow> (bool \<Rightarrow> nat \<Rightarrow> int \<Rightarrow> 'a constate_scheme \<Rightarrow> (int \<times> 'a constate_scheme) kres) option" where
  "console_write_sw = (\<lambda>_. None)(CONSOLE := Some consolewrite)"

section \<open>Numbers print as their digits\<close>

definition digit_value :: "byte \<Rightarrow> nat" where
  "digit_value b = (if b < 58 then unat b - 48 else unat b - 87)"

definition number_of :: "nat \<Rightarrow> byte list \<Rightarrow> nat" where
  "number_of base ds = foldl (\<lambda>v d. v * base + digit_value d) 0 ds"

lemma digits_str: "str ''0123456789abcdef'' = [48, 49, 50, 51, 52, 53, 54, 55, 56, 57, 97, 98, 99, 100, 101, 102]"
  by (simp add: str_def of_char_def)

lemma digit_value_digit:
  assumes "d < 16"
  shows "digit_value (digit d) = d" and "digit d = 48 \<longleftrightarrow> d = 0"
proof -
  have "list_all (\<lambda>d. digit_value (digit d) = d \<and> (digit d = 48 \<longleftrightarrow> d = 0)) [0..<16]"
    by (simp add: upt_rec digit_def digits_str digit_value_def)
  then show "digit_value (digit d) = d" "digit d = 48 \<longleftrightarrow> d = 0" using assms by (auto simp: list_all_iff)
qed

lemma number_of_snoc: "number_of base (ds @ [d]) = number_of base ds * base + digit_value d"
  by (simp add: number_of_def)

lemma printint_buf_rec:
  assumes "1 < base"
  shows "printint_buf base x = digit (x mod base) # (if x < base then [] else printint_buf base (x div base))"
  using assms by (subst printint_buf.simps) (simp add: div_eq_0_iff)

lemma printint_buf_spec:
  assumes b: "1 < base" "base \<le> 16"
  shows "number_of base (rev (printint_buf base x)) = x \<and> (x \<noteq> 0 \<longrightarrow> last (printint_buf base x) \<noteq> 48) \<and>
    (\<forall>n. x < base ^ Suc n \<longrightarrow> length (printint_buf base x) \<le> Suc n)"
proof (induction x rule: less_induct)
  case (less x)
  have "x mod base < 16" using b less_le_trans [OF mod_less_divisor [of base x] b(2)] by simp
  note D = digit_value_digit [OF this]
  show ?case
  proof (cases "x < base")
    case True
    then show ?thesis using D b by (simp add: printint_buf_rec number_of_def)
  next
    case False
    have lt: "x div base < x" "x div base \<noteq> 0" using False b by (auto simp: div_eq_0_iff)
    note I = less.IH [OF lt(1)]
    have l: "length (printint_buf base (x div base)) \<le> n" if "x < base ^ Suc n" for n
    proof (cases n)
      case 0
      then show ?thesis using that False by simp
    next
      case (Suc m)
      have "x div base < base ^ Suc m" using that b Suc by (simp add: less_mult_imp_div_less mult.commute)
      then show ?thesis using I Suc by blast
    qed
    have ne: "printint_buf base (x div base) \<noteq> []" by (subst printint_buf.simps) simp
    have "number_of base (rev (printint_buf base x)) = x"
      using I D False b by (simp add: printint_buf_rec [of base x] number_of_snoc)
    moreover have "last (printint_buf base x) \<noteq> 48"
      using I lt(2) ne False b by (simp add: printint_buf_rec [of base x])
    moreover have "length (printint_buf base x) \<le> Suc n" if "x < base ^ Suc n" for n
      using l [OF that] False b by (simp add: printint_buf_rec [of base x])
    ultimately show ?thesis by blast
  qed
qed

text \<open>
  Printing integers: what \<^verbatim>\<open>printf\<close> prints for \<^verbatim>\<open>%d\<close> and \<^verbatim>\<open>%x\<close> is a minus sign exactly for a negative number, followed by
  digits that denote its absolute value in base 10 or 16, the smallest integer included, without leading zeros; the
  characters always fit into the buffer of 16.\<close>

theorem printint_denotes:
  assumes "base = 10 \<or> base = 16" and "- 2147483648 \<le> xx" and "xx < 2147483648"
  shows "\<exists>ds. printint_bytes xx base True = (if xx < 0 then [45] else []) @ ds \<and> int (number_of base ds) = \<bar>xx\<bar> \<and>
    (xx \<noteq> 0 \<longrightarrow> hd ds \<noteq> 48) \<and> length (printint_bytes xx base True) \<le> 11"
proof -
  define x where "x = nat \<bar>xx\<bar>"
  define buf where "buf = printint_buf base x"
  have u: "(if xx < 0 then u32_of_int (- xx) else u32_of_int xx) = x"
    using assms(2,3) by (simp add: x_def u32_of_int_def)
  have p: "printint_bytes xx base True = (if xx < 0 then [45] else []) @ rev buf"
    using u by (auto simp: printint_bytes_def buf_def Let_def)
  have b: "1 < base" "base \<le> 16" using assms(1) by auto
  have "x < base ^ Suc 9" using assms by (auto simp: x_def)
  then have "length buf \<le> Suc 9" using printint_buf_spec [OF b, of x] unfolding buf_def by blast
  then have S: "number_of base (rev buf) = x" "x \<noteq> 0 \<longrightarrow> last buf \<noteq> 48" "length buf \<le> 10"
    using printint_buf_spec [OF b, of x] by (simp_all add: buf_def)
  have "buf \<noteq> []" unfolding buf_def by (subst printint_buf.simps) simp
  with S p show ?thesis by (intro exI [of _ "rev buf"]) (auto simp: x_def hd_rev)
qed

theorem printint_denotes_witness: "\<exists>ds. printint_bytes (-305) 10 True = [45] @ ds \<and> int (number_of 10 ds) = 305"
  using printint_denotes [of 10 "-305"] by auto

section \<open>Line editing\<close>

text \<open>The bytes between the indices \<^verbatim>\<open>r\<close> and \<^verbatim>\<open>e\<close>; those before \<^verbatim>\<open>w\<close> may be read, the others are being edited.\<close>

definition cons_len :: "'a constate_scheme \<Rightarrow> nat" where
  "cons_len s = uint_diff (cons_e s) (cons_r s)"

definition cons_done :: "'a constate_scheme \<Rightarrow> nat" where
  "cons_done s = uint_diff (cons_w s) (cons_r s)"

definition cons_bytes :: "'a constate_scheme \<Rightarrow> byte list" where
  "cons_bytes s = map (\<lambda>k. cons_buf s ((cons_r s + k) mod INPUT_BUF)) [0..<cons_len s]"

definition lines_of :: "'a constate_scheme \<Rightarrow> byte list \<times> byte list" where
  "lines_of s = (take (cons_done s) (cons_bytes s), drop (cons_done s) (cons_bytes s))"

definition cons_ok :: "'a constate_scheme \<Rightarrow> bool" where
  "cons_ok s \<longleftrightarrow> cons_r s < 4294967296 \<and> cons_w s < 4294967296 \<and> cons_e s < 4294967296 \<and>
     cons_done s \<le> cons_len s \<and> cons_len s \<le> INPUT_BUF \<and> 10 \<notin> set (snd (lines_of s))"

text \<open>The editor on a finished part and a line in progress.\<close>

definition line_edit :: "byte \<Rightarrow> byte list \<times> byte list \<Rightarrow> byte list \<times> byte list" where
  "line_edit c l = (case l of (rd, ed) \<Rightarrow>
     if c = 21 then (rd, [])
     else if c = 8 \<or> c = 127 then (rd, butlast ed)
     else if c = 0 \<or> length rd + length ed \<ge> INPUT_BUF then (rd, ed)
     else
       let c = (if c = 13 then 10 else c); ed = ed @ [c] in
       if c = 10 \<or> c = 4 \<or> length rd + length ed = INPUT_BUF then (rd @ ed, []) else (rd, ed))"

lemma uint_diff_cases:
  "a < 4294967296 \<Longrightarrow> b < 4294967296 \<Longrightarrow> uint_diff b a = (if a \<le> b then b - a else b + 4294967296 - a)"
  unfolding uint_diff_def by (rule mod_4G_cases)

lemma uint_diff_inc:
  assumes "a < 4294967296" and "b < 4294967296" and "uint_diff b a < 4294967295"
  shows "uint_diff (u32 (b + 1)) a = Suc (uint_diff b a)"
  using assms u32_add_cases [of b 1] uint_diff_cases [OF assms(1), of "u32 (b + 1)"]
  by (auto simp: uint_diff_cases split: if_splits)

lemma uint_diff_dec:
  assumes "a < 4294967296" and "b < 4294967296" and "0 < uint_diff b a"
  shows "uint_diff (u32_dec b) a = uint_diff b a - 1" and "u32_dec b < 4294967296"
  using assms by (auto simp: uint_diff_cases u32_dec_def split: if_splits)

lemma uint_diff_inj:
  "a < 4294967296 \<Longrightarrow> b < 4294967296 \<Longrightarrow> c < 4294967296 \<Longrightarrow> uint_diff b a = uint_diff c a \<longleftrightarrow> b = c"
  by (auto simp: uint_diff_cases split: if_splits)

lemma uint_diff_mod:
  assumes "a < 4294967296" and "b < 4294967296"
  shows "b mod INPUT_BUF = (a + uint_diff b a) mod INPUT_BUF"
proof (cases "a \<le> b")
  case False
  then have "a + uint_diff b a = b + INPUT_BUF * 33554432" using assms by (simp add: uint_diff_cases INPUT_BUF_def)
  then show ?thesis by (simp only: mod_mult_self2)
qed (use assms in \<open>simp add: uint_diff_cases\<close>)

lemma length_cons_bytes [simp]: "length (cons_bytes s) = cons_len s"
  by (simp add: cons_bytes_def)

lemma ring_index_inj:
  "i < INPUT_BUF \<Longrightarrow> j < INPUT_BUF \<Longrightarrow> (a + i) mod INPUT_BUF = (a + j) mod INPUT_BUF \<longleftrightarrow> i = j"
proof -
  have "(a + i) mod INPUT_BUF \<noteq> (a + j) mod INPUT_BUF" if "i < j" "j < INPUT_BUF" for i j
  proof
    assume "(a + i) mod INPUT_BUF = (a + j) mod INPUT_BUF"
    then have "INPUT_BUF dvd j - i" using that mod_eq_dvd_iff_nat [of "a + i" "a + j" INPUT_BUF] by simp
    then show False using that by (auto dest!: dvd_imp_le)
  qed
  then show "i < INPUT_BUF \<Longrightarrow> j < INPUT_BUF \<Longrightarrow> (a + i) mod INPUT_BUF = (a + j) mod INPUT_BUF \<longleftrightarrow> i = j"
    by (metis linorder_neqE_nat)
qed

text \<open>Moving the edit index by one.\<close>

lemma cons_bytes_snoc:
  fixes s :: "'a constate_scheme" and c :: byte
  assumes "cons_ok s" and "cons_len s < INPUT_BUF"
  defines "s' \<equiv> s\<lparr>cons_buf := (cons_buf s)(cons_e s mod INPUT_BUF := c), cons_e := u32 (cons_e s + 1)\<rparr>"
  shows "cons_len s' = Suc (cons_len s)" and "cons_bytes s' = cons_bytes s @ [c]" and "cons_done s' = cons_done s"
    and "cons_e s' < 4294967296"
proof -
  have b: "cons_r s < 4294967296" "cons_e s < 4294967296" using assms(1) by (simp_all add: cons_ok_def)
  show l: "cons_len s' = Suc (cons_len s)"
    using uint_diff_inc [OF b] assms(2) by (simp add: s'_def cons_len_def INPUT_BUF_def)
  have e: "cons_e s mod INPUT_BUF = (cons_r s + cons_len s) mod INPUT_BUF"
    using uint_diff_mod [OF b] by (simp add: cons_len_def)
  show "cons_bytes s' = cons_bytes s @ [c]"
  proof (rule nth_equalityI)
    show "length (cons_bytes s') = length (cons_bytes s @ [c])" using l by simp
    fix k assume "k < length (cons_bytes s')"
    then have k: "k < Suc (cons_len s)" using l by simp
    then have "cons_bytes s' ! k = cons_buf s' ((cons_r s + k) mod INPUT_BUF)"
      using l by (simp add: cons_bytes_def s'_def del: upt_Suc)
    also have "\<dots> = (cons_bytes s @ [c]) ! k"
      using k assms(2) ring_index_inj [of k "cons_len s" "cons_r s"]
      by (auto simp: s'_def e nth_append cons_bytes_def less_Suc_eq)
    finally show "cons_bytes s' ! k = (cons_bytes s @ [c]) ! k" .
  qed
  show "cons_done s' = cons_done s" "cons_e s' < 4294967296" by (simp_all add: s'_def cons_done_def)
qed

lemma cons_bytes_butlast:
  assumes "cons_ok s" and "cons_done s < cons_len s"
  defines "s' \<equiv> s\<lparr>cons_e := u32_dec (cons_e s)\<rparr>"
  shows "cons_ok s'" and "lines_of s' = (fst (lines_of s), butlast (snd (lines_of s)))" and "cons_len s' = cons_len s - 1"
proof -
  have b: "cons_r s < 4294967296" "cons_e s < 4294967296" using assms(1) by (simp_all add: cons_ok_def)
  have pos: "0 < uint_diff (cons_e s) (cons_r s)" using assms(2) by (simp add: cons_len_def)
  show l: "cons_len s' = cons_len s - 1" using uint_diff_dec(1) [OF b pos] by (simp add: s'_def cons_len_def)
  have d: "cons_done s' = cons_done s" by (simp add: s'_def cons_done_def)
  have cb: "cons_bytes s' = butlast (cons_bytes s)"
    using l by (auto simp: cons_bytes_def s'_def map_butlast [symmetric] intro!: arg_cong2 [where f = map] nth_equalityI simp: nth_butlast)
  show ln: "lines_of s' = (fst (lines_of s), butlast (snd (lines_of s)))"
    using assms(2) by (simp add: lines_of_def d cb take_butlast drop_butlast)
  show "cons_ok s'"
    using assms(1,2) l d uint_diff_dec(2) [OF b pos] ln
    by (auto simp: cons_ok_def s'_def dest: in_set_butlastD)
qed

text \<open>Echoing changes the output only, and returns if the port says often enough that it is idle.\<close>

definition idle :: "'a constate_scheme \<Rightarrow> nat" where
  "idle s = length (filter id (tx_ready s))"

definition echoed :: "'a constate_scheme \<Rightarrow> 'a constate_scheme \<Rightarrow> nat \<Rightarrow> bool" where
  "echoed s s' n \<longleftrightarrow> (\<exists>rs out. s' = s\<lparr>tx_ready := rs, uart_out := out\<rparr>) \<and> idle s \<le> idle s' + n"

lemma uartputc_sync_echo:
  assumes "\<not> panicked s" and "0 < idle s"
  obtains s' where "uartputc_sync c s = Inr s'" "echoed s s' 1"
proof -
  have "filter id (dropWhile Not xs) = filter id xs" for xs by (induction xs) auto
  then have f: "length (filter id (dropWhile Not (tx_ready s))) = idle s" by (simp add: idle_def)
  then obtain x rs where d: "dropWhile Not (tx_ready s) = x # rs"
    using assms(2) by (cases "dropWhile Not (tx_ready s)") auto
  let ?s = "s\<lparr>tx_ready := rs, uart_out := uart_out s @ [c]\<rparr>"
  have "idle s \<le> Suc (length (filter id rs))" using f d by (cases x) auto
  then have i: "idle s \<le> idle ?s + 1" by (simp add: idle_def [of ?s])
  show ?thesis
  proof (rule that)
    show "uartputc_sync c s = Inr ?s" using assms(1) d by (simp add: uartputc_sync_def)
    show "echoed s ?s 1" unfolding echoed_def using i by blast
  qed
qed

lemma echoed_trans: "echoed s t m \<Longrightarrow> echoed t u n \<Longrightarrow> echoed s u (m + n)"
  unfolding echoed_def by (elim conjE exE, intro conjI exI) (hypsubst, simp, linarith)

lemma echoed_fields:
  assumes "echoed s s' n"
  shows "cons_buf s' = cons_buf s" "cons_r s' = cons_r s" "cons_w s' = cons_w s" "cons_e s' = cons_e s"
    "panicked s' = panicked s" "procs s' = procs s" "idle s \<le> idle s' + n"
    "cons_ok s' = cons_ok s" "lines_of s' = lines_of s" "cons_len s' = cons_len s" "cons_done s' = cons_done s" "cons_bytes s' = cons_bytes s"
  using assms by (auto simp: echoed_def cons_ok_def lines_of_def cons_len_def cons_done_def cons_bytes_def)

lemma consputc_echo:
  assumes "\<not> panicked s" and "3 \<le> idle s"
  obtains s' where "consputc c s = Inr s'" "echoed s s' 3"
proof (cases "c = BACKSPACE")
  case True
  obtain t where t: "uartputc_sync 8 s = Inr t" "echoed s t 1" using uartputc_sync_echo [of s 8] assms by auto
  note T = echoed_fields [OF t(2)]
  obtain u where u: "uartputc_sync 32 t = Inr u" "echoed t u 1" using uartputc_sync_echo [of t 32] assms T by auto
  note U = echoed_fields [OF u(2)]
  obtain v where v: "uartputc_sync 8 u = Inr v" "echoed u v 1" using uartputc_sync_echo [of u 8] assms T U by auto
  have "echoed s v 3" using echoed_trans [OF t(2) echoed_trans [OF u(2) v(2)]] by (simp add: numeral_eq_Suc)
  then show ?thesis using that [of v] True t u v by (simp add: consputc_def)
next
  case False
  obtain t where "uartputc_sync (of_int c) s = Inr t" "echoed s t 1" using uartputc_sync_echo [of s "of_int c"] assms by auto
  then show ?thesis using that [of t] False by (simp add: consputc_def echoed_def)
qed

lemma cons_e_w: "cons_ok s \<Longrightarrow> cons_e s = cons_w s \<longleftrightarrow> cons_len s = cons_done s"
  using uint_diff_inj [of "cons_r s" "cons_e s" "cons_w s"] by (simp add: cons_ok_def cons_len_def cons_done_def)

lemma uint_diff_e_w: "cons_ok s \<Longrightarrow> uint_diff (cons_e s) (cons_w s) = cons_len s - cons_done s"
  by (auto simp: cons_ok_def cons_len_def cons_done_def uint_diff_cases INPUT_BUF_def split: if_splits)

lemma last_edited:
  assumes "cons_ok s" and "cons_done s < cons_len s"
  shows "cons_buf s (u32_dec (cons_e s) mod INPUT_BUF) = last (snd (lines_of s))"
proof -
  have b: "cons_r s < 4294967296" "cons_e s < 4294967296" using assms(1) by (simp_all add: cons_ok_def)
  have pos: "0 < uint_diff (cons_e s) (cons_r s)" using assms(2) by (simp add: cons_len_def)
  have "u32_dec (cons_e s) mod INPUT_BUF = (cons_r s + (cons_len s - 1)) mod INPUT_BUF"
    using uint_diff_mod [OF b(1) uint_diff_dec(2) [OF b pos]] uint_diff_dec(1) [OF b pos] by (simp add: cons_len_def)
  moreover have "last (snd (lines_of s)) = cons_bytes s ! (cons_len s - 1)"
    using assms(2) by (simp add: lines_of_def last_drop last_conv_nth flip: length_greater_0_conv)
  ultimately show ?thesis using assms(2) by (simp add: cons_bytes_def)
qed

lemma kill_line_clears:
  assumes "cons_ok s" and "\<not> panicked s" and "3 * k \<le> idle s" and "k = cons_len s - cons_done s"
  shows "\<exists>s'. kill_line k s = Inr s' \<and> cons_ok s' \<and> lines_of s' = (fst (lines_of s), [])"
  using assms
proof (induction k arbitrary: s)
  case 0
  then show ?case by (simp add: lines_of_def)
next
  case (Suc k)
  then have lt: "cons_done s < cons_len s" by linarith
  have ne: "snd (lines_of s) \<noteq> []" using lt by (simp add: lines_of_def)
  have nl: "cons_buf s (u32_dec (cons_e s) mod INPUT_BUF) \<noteq> 10"
    using last_edited [OF Suc.prems(1) lt] Suc.prems(1) last_in_set [OF ne] by (auto simp: cons_ok_def)
  let ?s = "s\<lparr>cons_e := u32_dec (cons_e s)\<rparr>"
  note B = cons_bytes_butlast [OF Suc.prems(1) lt]
  have i: "idle ?s = idle s" "panicked ?s = panicked s" "cons_done ?s = cons_done s" by (simp_all add: idle_def cons_done_def)
  obtain t where t: "consputc BACKSPACE ?s = Inr t" "echoed ?s t 3"
    using consputc_echo [of ?s BACKSPACE] Suc.prems(2,3) i by auto
  note T = echoed_fields [OF t(2)]
  obtain s' where "kill_line k t = Inr s'" "cons_ok s'" "lines_of s' = (fst (lines_of t), [])"
  proof -
    have "k = cons_len t - cons_done t" using T B i Suc.prems(4) by simp
    moreover have "3 * k \<le> idle t" using T(7) i(1) Suc.prems(3) by simp
    ultimately show ?thesis using Suc.IH [of t] T B i Suc.prems(2) that by auto
  qed
  moreover have "fst (lines_of t) = fst (lines_of s)" using T B by simp
  ultimately show ?case using t nl cons_e_w [OF Suc.prems(1)] lt by simp
qed

lemma uint_byte_eq: "uint c = 21 \<longleftrightarrow> c = 21" "uint c = 8 \<longleftrightarrow> c = 8" "uint c = 127 \<longleftrightarrow> c = 127" "uint c = 0 \<longleftrightarrow> c = 0"
  "uint c = 13 \<longleftrightarrow> c = 13" "uint c = 16 \<longleftrightarrow> c = 16" "uint c = 10 \<longleftrightarrow> c = 10" "uint c = 4 \<longleftrightarrow> c = 4" for c :: byte
  by (simp_all add: word_uint_eq_iff)

text \<open>An ordinary character.\<close>

lemma consoleintr_char:
  fixes s :: "'a constate_scheme" and c :: byte
  assumes ok: "cons_ok s" and p: "\<not> panicked s" and i: "3 \<le> idle s" and len: "cons_len s < INPUT_BUF"
    and c: "c \<noteq> 21" "c \<noteq> 8" "c \<noteq> 127" "c \<noteq> 0" "c \<noteq> 16"
  defines "d \<equiv> if c = 13 then 10 else c"
  defines "full \<equiv> d = 10 \<or> d = 4 \<or> Suc (cons_len s) = INPUT_BUF"
  shows "\<exists>s'. consoleintr (uint c) s = Inr s' \<and> cons_ok s' \<and>
    lines_of s' = (if full then (fst (lines_of s) @ snd (lines_of s) @ [d], []) else (fst (lines_of s), snd (lines_of s) @ [d])) \<and>
    (full \<longrightarrow> (\<forall>p<NPROC. p_state (procs s p) = SLEEPING \<and> p_chan (procs s p) = Some Chan_cons_r \<longrightarrow> p_state (procs s' p) = RUNNABLE))"
proof -
  have e: "(if uint c = 13 then 10 else uint c) = uint d" by (simp add: d_def uint_byte_eq)
  obtain t where t: "consputc (uint d) s = Inr t" "echoed s t 3" using consputc_echo [OF p i] by blast
  note T = echoed_fields [OF t(2)]
  have okt: "cons_ok t" "cons_len t < INPUT_BUF" using T ok len by simp_all
  define u where "u = t\<lparr>cons_buf := (cons_buf t)(cons_e t mod INPUT_BUF := d), cons_e := u32 (cons_e t + 1)\<rparr>"
  note U = cons_bytes_snoc [OF okt, of d, folded u_def]
  have f: "cons_r u = cons_r s" "cons_w u = cons_w s" "procs u = procs s" using T by (simp_all add: u_def)
  have bnd: "cons_r s < 4294967296" "cons_w s < 4294967296" "cons_done s \<le> cons_len s" "10 \<notin> set (snd (lines_of s))"
    using ok by (simp_all add: cons_ok_def)
  have lu: "cons_len u = Suc (cons_len s)" "cons_done u = cons_done s" "cons_bytes u = cons_bytes s @ [d]"
    using U T by simp_all
  have "uint_diff (u32 (cons_r s + INPUT_BUF)) (cons_r s) = INPUT_BUF"
    using u32_add_cases [OF bnd(1), of INPUT_BUF] uint_diff_cases [OF bnd(1), of "u32 (cons_r s + INPUT_BUF)"] bnd(1)
    by (auto simp: INPUT_BUF_def split: if_splits)
  then have wrap: "cons_e u = u32 (cons_r u + INPUT_BUF) \<longleftrightarrow> Suc (cons_len s) = INPUT_BUF"
    using uint_diff_inj [OF bnd(1) U(4), of "u32 (cons_r s + INPUT_BUF)"] lu(1) f by (simp add: cons_len_def)
  let ?w = "wakeup Chan_cons_r (u\<lparr>cons_w := cons_e u\<rparr>)"
  have "consoleintr (uint c) s =
      (if uint d = 10 \<or> uint d = 4 \<or> cons_e u = u32 (cons_r u + INPUT_BUF) then Inr ?w else Inr u)"
    using c len t(1) unfolding consoleintr_def e by (simp add: uint_byte_eq Let_def cons_len_def [symmetric] u_def)
  then have run: "consoleintr (uint c) s = Inr (if full then ?w else u)"
    unfolding wrap by (simp add: full_def uint_byte_eq)
  show ?thesis
  proof (cases full)
    case True
    have d: "cons_done ?w = cons_len u" "cons_len ?w = cons_len u" "cons_bytes ?w = cons_bytes u"
      by (simp_all add: cons_done_def cons_len_def cons_bytes_def)
    have l: "lines_of ?w = (cons_bytes u, [])" by (simp add: lines_of_def d)
    have "cons_ok ?w" using U(4) f bnd lu len by (simp add: cons_ok_def d l)
    moreover have "fst (lines_of s) @ snd (lines_of s) = cons_bytes s" by (simp add: lines_of_def)
    moreover have "p_state (procs ?w p) = RUNNABLE" if "p < NPROC" "p_state (procs s p) = SLEEPING \<and> p_chan (procs s p) = Some Chan_cons_r" for p
      using that f(3) by (simp add: wakeup_eq woken_def)
    ultimately show ?thesis using run True l lu by (intro exI [of _ ?w]) simp
  next
    case False
    have l: "lines_of u = (fst (lines_of s), snd (lines_of s) @ [d])" using lu bnd(3) by (simp add: lines_of_def)
    have "cons_ok u" using U(4) f bnd lu len False by (auto simp: cons_ok_def l full_def)
    then show ?thesis using run False l by (intro exI [of _ u]) simp
  qed
qed

text \<open>C26: Line editing: the console interrupt handler, on its circular buffer with three 32-bit indices that wrap, implements
  an editor of lines: a character is appended to the line being edited, backspace takes the last one back, Control-U all of
  them, and a newline, a Control-D or a full buffer hands the line over to readers and wakes every one that sleeps; input
  that does not fit is dropped, and nothing that has been handed over is ever edited. The handler returns if the port
  becomes idle often enough for the echo.\<close>

theorem consoleintr_edits:
  fixes s :: "'a constate_scheme"
  assumes "cons_ok s" and "\<not> panicked s" and "3 * INPUT_BUF \<le> idle s" and "c \<noteq> 16"
  shows "\<exists>s'. consoleintr (uint c) s = Inr s' \<and> cons_ok s' \<and> lines_of s' = line_edit c (lines_of s) \<and>
    (fst (lines_of s') \<noteq> fst (lines_of s) \<longrightarrow>
      (\<forall>p<NPROC. p_state (procs s p) = SLEEPING \<and> p_chan (procs s p) = Some Chan_cons_r \<longrightarrow> p_state (procs s' p) = RUNNABLE))"
proof -
  have B: "cons_done s \<le> cons_len s" "cons_len s \<le> INPUT_BUF" using assms(1) by (simp_all add: cons_ok_def)
  have L: "length (fst (lines_of s)) + length (snd (lines_of s)) = cons_len s" using B by (simp add: lines_of_def)
  have I: "3 \<le> idle s" using assms(3) by (simp add: INPUT_BUF_def)
  consider "c = 21" | "c = 8 \<or> c = 127" | "c = 0 \<or> c \<noteq> 21 \<and> c \<noteq> 8 \<and> c \<noteq> 127 \<and> INPUT_BUF \<le> cons_len s"
    | "c \<noteq> 21" "c \<noteq> 8" "c \<noteq> 127" "c \<noteq> 0" "cons_len s < INPUT_BUF"
    using not_less by blast
  then show ?thesis
  proof cases
    case 1
    have "3 * (cons_len s - cons_done s) \<le> idle s" using B assms(3) by simp
    from kill_line_clears [OF assms(1,2) this refl] 1 show ?thesis
      by (auto simp: consoleintr_def uint_diff_e_w [OF assms(1)] line_edit_def split: prod.splits)
  next
    case 2
    show ?thesis
    proof (cases "cons_len s = cons_done s")
      case True
      then have "snd (lines_of s) = []" by (simp add: lines_of_def)
      with True 2 assms(1) show ?thesis
        by (auto simp: consoleintr_def cons_e_w line_edit_def split: prod.splits)
    next
      case False
      then have lt: "cons_done s < cons_len s" using B by simp
      let ?s = "s\<lparr>cons_e := u32_dec (cons_e s)\<rparr>"
      obtain t where t: "consputc BACKSPACE ?s = Inr t" "echoed ?s t 3"
        using consputc_echo [of ?s BACKSPACE] assms(2) I by (auto simp: idle_def)
      note T = echoed_fields [OF t(2)] and N = cons_bytes_butlast [OF assms(1) lt]
      have "consoleintr (uint c) s = Inr t" using 2 t False by (auto simp: consoleintr_def cons_e_w [OF assms(1)])
      then show ?thesis using T N 2 by (auto simp: line_edit_def split: prod.splits)
    qed
  next
    case 3
    then have "consoleintr (uint c) s = Inr s"
      using assms(4) by (auto simp: consoleintr_def uint_byte_eq cons_len_def)
    moreover have "line_edit c (lines_of s) = lines_of s" using 3 L by (auto simp: line_edit_def split: prod.splits)
    ultimately show ?thesis using assms(1) by simp
  next
    case 4
    define d where "d = (if c = 13 then 10 else c)"
    have "line_edit c (lines_of s) = (if d = 10 \<or> d = 4 \<or> Suc (cons_len s) = INPUT_BUF
        then (fst (lines_of s) @ snd (lines_of s) @ [d], []) else (fst (lines_of s), snd (lines_of s) @ [d]))"
      using 4 L by (auto simp: line_edit_def d_def Let_def split: prod.splits)
    with consoleintr_char [OF assms(1,2) I 4(5,1-4) assms(4), folded d_def] show ?thesis by (auto split: if_splits)
  qed
qed

definition demo_console :: constate where
  "demo_console = fstate.extend (demo_machine demo_disk (istate_ext (superblock_of (\<lambda>_. 0)) (\<lambda>_. no_inode) (pipestate_ext (\<lambda>_. demo_pipe)
     (fstate_ext (\<lambda>_. \<lparr>f_type = FD_NONE, f_ref = 0, f_readable = False, f_writable = False, f_pipe = 0, f_ip = None, f_off = 0, f_major = 0\<rparr>) ()))))
     (constate.fields (\<lambda>_. 0) 4294967295 4294967295 4294967295 (\<lambda>_. 0) 0 0 [] (replicate 400 True) [] False)"

lemma demo_console_fields: "cons_r demo_console = 4294967295" "cons_w demo_console = 4294967295" "cons_e demo_console = 4294967295"
  "tx_ready demo_console = replicate 400 True" "\<not> panicked demo_console"
  by (simp_all add: demo_console_def constate.defs fstate.defs)

theorem consoleintr_edits_witness:
  "\<exists>s'. consoleintr 65 demo_console = Inr s' \<and> lines_of s' = ([], [65])"
proof -
  have z: "cons_len demo_console = 0" "cons_done demo_console = 0"
    by (simp_all add: cons_len_def cons_done_def uint_diff_def demo_console_fields)
  then have l: "lines_of demo_console = ([], [])" by (simp add: lines_of_def cons_bytes_def)
  have "cons_ok demo_console" using z l by (simp add: cons_ok_def demo_console_fields)
  moreover have "3 * INPUT_BUF \<le> idle demo_console" by (simp add: idle_def demo_console_fields INPUT_BUF_def)
  ultimately show ?thesis
    using consoleintr_edits [of demo_console 65] demo_console_fields(5) l by (auto simp: line_edit_def INPUT_BUF_def)
qed

end
