(* ===== verification/Virtio.thy ===== *)
theory Virtio
  imports Proc
begin

text \<open>
  The disk driver (\<^verbatim>\<open>FileSystem-RAID/kernel/virtio_disk.c\<close>): the table of descriptors, the chains of three that make up a
  request, the ring in which the driver offers them and the ring in which the device returns them. \<^verbatim>\<open>virtio_disk_rw\<close> is cut where it
  sleeps: \<open>rw_submit\<close> builds and offers a request, \<open>rw_finish\<close> is the rest, once the request is done. The address of a
  descriptor is what it points to: the request header, the data of a buffer, or a status byte. \<^verbatim>\<open>virtio_disk_init\<close> is the negotiation with
  the device, of which the model keeps the initial state.

  The machine \<open>disk_step\<close> interleaves processes that submit and finish requests, the interrupt handler, and the device. The device is
  not part of the sources: its rules (\<open>take\<close> and \<open>device\<close>) are those of the virtio specification, over the memory that the driver sets up. It
  takes the entries of the available ring up to the published index, reads a request from the descriptors, completes requests in any
  order with any status, and fills the used ring. The invariant says that requests in flight own disjoint chains, which are exactly
  the descriptors in use, that the head of a chain is in exactly one place, and that a request finishes only after the device has
  completed it with status zero; with another status the handler panics.
\<close>

unbundle bit_operations_syntax

section \<open>State\<close>

datatype vaddr = VNull | VHdr bool nat | VData nat | VStatus nat

record VRingDesc =
  d_addr :: vaddr
  d_len :: nat
  d_flags :: nat
  d_next :: nat

record vstate = pstate +
  desc :: "nat \<Rightarrow> VRingDesc"
  desc_free :: "nat \<Rightarrow> bool"
  avail_idx :: nat
  avail_ring :: "nat \<Rightarrow> nat"
  used_idx :: nat
  used_id :: nat
  used_elem :: "nat \<Rightarrow> nat"
  info_b :: "nat \<Rightarrow> nat option"
  info_status :: "nat \<Rightarrow> nat"
  buf_disk :: "nat \<Rightarrow> bool"

definition NUM :: nat where "NUM = 8"
definition VRING_DESC_F_NEXT :: nat where "VRING_DESC_F_NEXT = 1"
definition VRING_DESC_F_WRITE :: nat where "VRING_DESC_F_WRITE = 2"

abbreviation Chan_free :: chan where "Chan_free \<equiv> Chan_other 2"
abbreviation Chan_buf :: "nat \<Rightarrow> chan" where "Chan_buf b \<equiv> Chan_other (3 + b)"

section \<open>Descriptors\<close>

primrec alloc_desc_from :: "nat \<Rightarrow> nat \<Rightarrow> 'a vstate_scheme \<Rightarrow> nat option \<times> 'a vstate_scheme" where
  "alloc_desc_from 0 i s = (None, s)"
| "alloc_desc_from (Suc k) i s =
     (if desc_free s i then (Some i, s\<lparr>desc_free := (desc_free s)(i := False)\<rparr>) else alloc_desc_from k (Suc i) s)"

definition alloc_desc :: "'a vstate_scheme \<Rightarrow> nat option \<times> 'a vstate_scheme" where
  "alloc_desc s = alloc_desc_from NUM 0 s"

definition free_desc :: "nat \<Rightarrow> 'a vstate_scheme \<Rightarrow> 'a vstate_scheme kres" where
  "free_desc i s =
     (if i \<ge> NUM then Inl (Panic ''virtio_disk_intr 1'')
      else if desc_free s i then Inl (Panic ''virtio_disk_intr 2'')
      else
        let s = s\<lparr>desc := (desc s)(i := (desc s i)\<lparr>d_addr := VNull\<rparr>)\<rparr>;
            s = s\<lparr>desc_free := (desc_free s)(i := True)\<rparr> in
        Inr (wakeup Chan_free s))"

lemma wakeup_vstate [simp]:
  "desc (wakeup ch s) = desc s" "desc_free (wakeup ch s) = desc_free s" "avail_idx (wakeup ch s) = avail_idx s"
  "avail_ring (wakeup ch s) = avail_ring s" "used_idx (wakeup ch s) = used_idx s" "used_id (wakeup ch s) = used_id s"
  "used_elem (wakeup ch s) = used_elem s" "info_b (wakeup ch s) = info_b s" "info_status (wakeup ch s) = info_status s"
  "buf_disk (wakeup ch s) = buf_disk s"
  by (simp_all add: wakeup_eq)

text \<open>The loop of \<^verbatim>\<open>free_chain\<close> ends because \<^verbatim>\<open>free_desc\<close> panics on a descriptor that is free already.\<close>

definition busy :: "'a vstate_scheme \<Rightarrow> nat set" where
  "busy s = {i. i < NUM \<and> \<not> desc_free s i}"

lemma finite_busy [simp]: "finite (busy s)" by (simp add: busy_def)

lemma free_desc_Inr:
  assumes "free_desc i s = Inr s'"
  shows "i \<in> busy s" and "busy s' = busy s - {i}" and "desc s' = (desc s)(i := (desc s i)\<lparr>d_addr := VNull\<rparr>)"
    and "desc_free s' = (desc_free s)(i := True)"
  using assms by (auto simp: free_desc_def busy_def Let_def split: if_splits)

lemma free_desc_less: "free_desc i s = Inr s' \<Longrightarrow> card (busy s') < card (busy s)"
  by (simp add: free_desc_Inr(2) card_Diff1_less [OF finite_busy free_desc_Inr(1)])

function free_chain :: "nat \<Rightarrow> 'a vstate_scheme \<Rightarrow> 'a vstate_scheme kres" where
  "free_chain i s =
     bindE (free_desc i s) (\<lambda>s.
     if d_flags (desc s i) AND VRING_DESC_F_NEXT \<noteq> 0 then free_chain (d_next (desc s i)) s else Inr s)"
  by pat_completeness auto
termination
  by (relation "measure (\<lambda>(i, s). card (busy s))") (auto intro: free_desc_less)

declare free_chain.simps [simp del]

definition alloc3_desc :: "'a vstate_scheme \<Rightarrow> ((nat \<times> nat \<times> nat) option \<times> 'a vstate_scheme) kres" where
  "alloc3_desc s =
     (case alloc_desc s of
        (None, s) \<Rightarrow> Inr (None, s)
      | (Some i0, s) \<Rightarrow>
          (case alloc_desc s of
             (None, s) \<Rightarrow> bindE (free_desc i0 s) (\<lambda>s. Inr (None, s))
           | (Some i1, s) \<Rightarrow>
               (case alloc_desc s of
                  (None, s) \<Rightarrow> bindE (free_desc i0 s) (\<lambda>s. bindE (free_desc i1 s) (\<lambda>s. Inr (None, s)))
                | (Some i2, s) \<Rightarrow> Inr (Some (i0, i1, i2), s))))"

section \<open>Requests\<close>

definition set_desc :: "nat \<Rightarrow> vaddr \<Rightarrow> nat \<Rightarrow> nat \<Rightarrow> nat \<Rightarrow> 'a vstate_scheme \<Rightarrow> 'a vstate_scheme" where
  "set_desc i a l f n s = s\<lparr>desc := (desc s)(i := \<lparr>d_addr = a, d_len = l, d_flags = f, d_next = n\<rparr>)\<rparr>"

definition rw_submit :: "nat \<Rightarrow> nat \<Rightarrow> bool \<Rightarrow> 'a vstate_scheme \<Rightarrow> (nat option \<times> 'a vstate_scheme) kres" where
  "rw_submit b blockno write s =
     (let sector = u32 (blockno * (BSIZE div 512)) in
      bindE (alloc3_desc s) (\<lambda>(idx, s). case idx of
        None \<Rightarrow> Inr (None, set_sleeping Chan_free s)
      | Some (i0, i1, i2) \<Rightarrow>
          let s = set_desc i0 (VHdr write sector) 16 VRING_DESC_F_NEXT i1 s;
              s = set_desc i1 (VData b) BSIZE ((if write then 0 else VRING_DESC_F_WRITE) OR VRING_DESC_F_NEXT) i2 s;
              s = s\<lparr>info_status := (info_status s)(i0 := 0)\<rparr>;
              s = set_desc i2 (VStatus i0) 1 VRING_DESC_F_WRITE 0 s;
              s = s\<lparr>buf_disk := (buf_disk s)(b := True)\<rparr>;
              s = s\<lparr>info_b := (info_b s)(i0 := Some b)\<rparr>;
              s = s\<lparr>avail_ring := (avail_ring s)(avail_idx s mod NUM := i0)\<rparr>;
              s = s\<lparr>avail_idx := (avail_idx s + 1) mod 65536\<rparr> in
          Inr (Some i0, s)))"

definition rw_finish :: "nat \<Rightarrow> nat \<Rightarrow> 'a vstate_scheme \<Rightarrow> (bool \<times> 'a vstate_scheme) kres" where
  "rw_finish b i0 s =
     (if buf_disk s b then Inr (False, set_sleeping (Chan_buf b) s)
      else
        let s = s\<lparr>info_b := (info_b s)(i0 := None)\<rparr> in
        bindE (free_chain i0 s) (\<lambda>s. Inr (True, s)))"

section \<open>The interrupt handler\<close>

lemma ring_closer:
  fixes i j :: nat
  assumes "i mod NUM \<noteq> j mod NUM"
  shows "(j mod NUM + NUM - (i + 1) mod NUM) mod NUM < (j mod NUM + NUM - i mod NUM) mod NUM"
proof -
  have l: "list_all (\<lambda>a. list_all (\<lambda>b. a = b \<or> (b + 8 - (a + 1) mod 8) mod 8 < (b + 8 - a) mod 8) [0..<8]) [0..<8 :: nat]"
    by code_simp
  have "i mod 8 < 8" "j mod 8 < 8" by simp_all
  then have "i mod 8 = j mod 8 \<or> (j mod 8 + 8 - (i mod 8 + 1) mod 8) mod 8 < (j mod 8 + 8 - i mod 8) mod 8"
    using l unfolding list_all_iff set_upt by (metis atLeastLessThan_iff le0)
  then show ?thesis using assms by (simp add: NUM_def mod_Suc_eq)
qed

function virtio_disk_intr :: "'a vstate_scheme \<Rightarrow> 'a vstate_scheme kres" where
  "virtio_disk_intr s =
     (if used_idx s mod NUM \<noteq> used_id s mod NUM then
        let i = used_elem s (used_idx s) in
        if info_status s i \<noteq> 0 then Inl (Panic ''virtio_disk_intr status'')
        else case info_b s i of
          None \<Rightarrow> Inl (Undef ''virtio_disk_intr'')
        | Some b \<Rightarrow>
            let s = s\<lparr>buf_disk := (buf_disk s)(b := False)\<rparr>;
                s = wakeup (Chan_buf b) s;
                s = s\<lparr>used_idx := (used_idx s + 1) mod NUM\<rparr> in
            virtio_disk_intr s
      else Inr s)"
  by pat_completeness auto

termination
  by (relation "measure (\<lambda>s. (used_id s mod NUM + NUM - used_idx s mod NUM) mod NUM)") (use ring_closer in \<open>auto simp: mod_simps\<close>)

declare virtio_disk_intr.simps [simp del]

section \<open>Allocating and freeing chains\<close>

lemma alloc_desc_from_spec:
  "(\<forall>j<k. \<not> desc_free s (i + j)) \<and> alloc_desc_from k i s = (None, s) \<or>
   (\<exists>j<k. desc_free s (i + j) \<and> alloc_desc_from k i s = (Some (i + j), s\<lparr>desc_free := (desc_free s)(i + j := False)\<rparr>))"
proof (induction k arbitrary: i)
  case (Suc k)
  show ?case
  proof (cases "desc_free s i")
    case False
    from Suc [of "Suc i"] show ?thesis
    proof (elim disjE exE conjE)
      fix j assume "j < k" "desc_free s (Suc i + j)"
        "alloc_desc_from k (Suc i) s = (Some (Suc i + j), s\<lparr>desc_free := (desc_free s)(Suc i + j := False)\<rparr>)"
      then show ?thesis using False
        by (intro disjI2 exI [of _ "Suc j"]) (simp only: add_Suc_shift alloc_desc_from.simps if_False Suc_less_eq simp_thms)
    qed (use False in \<open>simp add: All_less_Suc2\<close>)
  qed (intro disjI2 exI [of _ 0], simp only: add_0_right alloc_desc_from.simps if_True zero_less_Suc simp_thms)
qed simp

lemma alloc_desc_cases:
  obtains (none) "busy s = {..<NUM}" "alloc_desc s = (None, s)"
  | (some) i where "i < NUM" "i \<notin> busy s" "alloc_desc s = (Some i, s\<lparr>desc_free := (desc_free s)(i := False)\<rparr>)"
  using alloc_desc_from_spec [of NUM s 0] by (auto simp: alloc_desc_def busy_def)

text \<open>What the driver's bookkeeping may differ in after an allocation that failed: free descriptors only.\<close>

definition same_requests :: "'a vstate_scheme \<Rightarrow> 'a vstate_scheme \<Rightarrow> bool" where
  "same_requests s s' \<longleftrightarrow> busy s' = busy s \<and> (\<forall>i \<in> busy s. desc s' i = desc s i) \<and>
     info_b s' = info_b s \<and> info_status s' = info_status s \<and> buf_disk s' = buf_disk s \<and>
     used_idx s' = used_idx s \<and> used_id s' = used_id s \<and> used_elem s' = used_elem s \<and>
     avail_idx s' = avail_idx s \<and> avail_ring s' = avail_ring s"

text \<open>Everything but the descriptor tables.\<close>

definition same_rings :: "'a vstate_scheme \<Rightarrow> 'a vstate_scheme \<Rightarrow> bool" where
  "same_rings s s' \<longleftrightarrow> info_b s' = info_b s \<and> info_status s' = info_status s \<and> buf_disk s' = buf_disk s \<and>
     used_idx s' = used_idx s \<and> used_id s' = used_id s \<and> used_elem s' = used_elem s \<and>
     avail_idx s' = avail_idx s \<and> avail_ring s' = avail_ring s"

lemma same_rings_trans: "same_rings s t \<Longrightarrow> same_rings t u \<Longrightarrow> same_rings s u"
  by (simp add: same_rings_def)

lemma free_desc_ok:
  assumes "i < NUM" and "\<not> desc_free s i"
  obtains s' where "free_desc i s = Inr s'" "desc_free s' = (desc_free s)(i := True)"
    "\<And>j. d_flags (desc s' j) = d_flags (desc s j) \<and> d_next (desc s' j) = d_next (desc s j)"
    "\<And>j. j \<noteq> i \<Longrightarrow> desc s' j = desc s j" "same_rings s s'"
proof -
  let ?s = "wakeup Chan_free (s\<lparr>desc := (desc s)(i := (desc s i)\<lparr>d_addr := VNull\<rparr>), desc_free := (desc_free s)(i := True)\<rparr>)"
  show ?thesis by (rule that [of ?s]) (use assms in \<open>simp_all add: free_desc_def same_rings_def\<close>)
qed

lemma alloc3_cases:
  obtains (none) s' where "alloc3_desc s = Inr (None, s')" "same_requests s s'"
  | (some) i0 i1 i2 where "distinct [i0, i1, i2]" "set [i0, i1, i2] \<inter> busy s = {}" "set [i0, i1, i2] \<subseteq> {..<NUM}"
      "alloc3_desc s = Inr (Some (i0, i1, i2), s\<lparr>desc_free := (desc_free s)(i0 := False, i1 := False, i2 := False)\<rparr>)"
proof (cases s rule: alloc_desc_cases)
  case none
  then show ?thesis using that(1) [of s] by (simp add: alloc3_desc_def same_requests_def)
next
  case (some i0)
  note 0 = some
  let ?s0 = "s\<lparr>desc_free := (desc_free s)(i0 := False)\<rparr>"
  show ?thesis
  proof (cases ?s0 rule: alloc_desc_cases)
    case none
    obtain t where t: "free_desc i0 ?s0 = Inr t" "desc_free t = (desc_free ?s0)(i0 := True)"
      "\<And>j. j \<noteq> i0 \<Longrightarrow> desc t j = desc ?s0 j" "same_rings ?s0 t"
      by (rule free_desc_ok [of i0 ?s0]) (use 0 in simp_all)
    have "busy t = busy s" using t(2) 0 by (auto simp: busy_def)
    moreover have "desc t j = desc s j" if "j \<in> busy s" for j 
    proof -
      have "j \<noteq> i0" using that 0(2) by blast
      then show ?thesis using t(3) by simp
    qed
    ultimately have "same_requests s t" using t(4) by (simp add: same_requests_def same_rings_def)
    then show ?thesis using that(1) [of t] t(1) 0 none by (simp add: alloc3_desc_def)
  next
    case (some i1)
    note 1 = some
    let ?s1 = "s\<lparr>desc_free := (desc_free s)(i0 := False, i1 := False)\<rparr>"
    have ne: "i1 \<noteq> i0" and f1: "i1 \<notin> busy s" using 1 0 by (auto simp: busy_def split: if_splits)
    show ?thesis
    proof (cases ?s1 rule: alloc_desc_cases)
      case none
      obtain t where t: "free_desc i0 ?s1 = Inr t" "desc_free t = (desc_free ?s1)(i0 := True)"
        "\<And>j. j \<noteq> i0 \<Longrightarrow> desc t j = desc ?s1 j" "same_rings ?s1 t"
        by (rule free_desc_ok [of i0 ?s1]) (use 0 in simp_all)
      obtain u where u: "free_desc i1 t = Inr u" "desc_free u = (desc_free t)(i1 := True)"
        "\<And>j. j \<noteq> i1 \<Longrightarrow> desc u j = desc t j" "same_rings t u"
        by (rule free_desc_ok [of i1 t]) (use 1 ne t(2) in simp_all)
      have "same_rings ?s1 u" using t(4) u(4) by (rule same_rings_trans)
      moreover have "busy u = busy s" using u(2) t(2) 0 f1 1(1) by (auto simp: busy_def)
      moreover have "desc u j = desc s j" if "j \<in> busy s" for j 
      proof -
        have "j \<noteq> i0" "j \<noteq> i1" using that 0(2) f1 by blast+
        then show ?thesis using u(3) t(3) by simp
      qed
      ultimately have "same_requests s u" by (simp add: same_requests_def same_rings_def)
      then show ?thesis using that(1) [of u] t(1) u(1) 0 1 none by (simp add: alloc3_desc_def)
    next
      case (some i2)
      have "i2 \<noteq> i0" "i2 \<noteq> i1" "i2 \<notin> busy s" using some by (auto simp: busy_def split: if_splits)
      then show ?thesis using that(2) [of i0 i1 i2] 0 1 some ne f1 by (simp add: alloc3_desc_def)
    qed
  qed
qed

text \<open>
  A chain of three descriptors: its links, the request it describes (write or read, first sector, buffer) in the form the
  device expects, and the entry in \<^verbatim>\<open>info\<close> for the handler.
\<close>

definition nodes :: "nat \<times> nat \<times> nat \<Rightarrow> nat set" where
  "nodes c = (case c of (i0, i1, i2) \<Rightarrow> {i0, i1, i2})"

definition chain_links :: "'a vstate_scheme \<Rightarrow> nat \<times> nat \<times> nat \<Rightarrow> bool" where
  "chain_links s c \<longleftrightarrow> (case c of (i0, i1, i2) \<Rightarrow> distinct [i0, i1, i2] \<and> i0 < NUM \<and> i1 < NUM \<and> i2 < NUM \<and>
     d_flags (desc s i0) AND VRING_DESC_F_NEXT \<noteq> 0 \<and> d_next (desc s i0) = i1 \<and>
     d_flags (desc s i1) AND VRING_DESC_F_NEXT \<noteq> 0 \<and> d_next (desc s i1) = i2 \<and>
     d_flags (desc s i2) AND VRING_DESC_F_NEXT = 0)"

definition chain_req :: "'a vstate_scheme \<Rightarrow> nat \<times> nat \<times> nat \<Rightarrow> nat \<Rightarrow> bool \<times> nat \<Rightarrow> bool" where
  "chain_req s c b q \<longleftrightarrow> (case c of (i0, i1, i2) \<Rightarrow>
     d_addr (desc s i0) = VHdr (fst q) (snd q) \<and> d_len (desc s i0) = 16 \<and> d_flags (desc s i0) AND VRING_DESC_F_WRITE = 0 \<and>
     d_addr (desc s i1) = VData b \<and> d_len (desc s i1) = BSIZE \<and> (d_flags (desc s i1) AND VRING_DESC_F_WRITE = 0 \<longleftrightarrow> fst q) \<and>
     d_addr (desc s i2) = VStatus i0 \<and> d_len (desc s i2) = 1 \<and> d_flags (desc s i2) AND VRING_DESC_F_WRITE \<noteq> 0)"

definition chain_ok :: "'a vstate_scheme \<Rightarrow> nat \<Rightarrow> nat \<times> nat \<times> nat \<Rightarrow> bool \<times> nat \<Rightarrow> bool" where
  "chain_ok s b c q \<longleftrightarrow> chain_links s c \<and> chain_req s c b q \<and> info_b s (fst c) = Some b"

lemma chain_ok_cong:
  assumes "chain_ok s b c q" and "\<And>j. j \<in> nodes c \<Longrightarrow> desc s' j = desc s j \<and> info_b s' j = info_b s j"
  shows "chain_ok s' b c q"
proof -
  obtain i0 i1 i2 where c: "c = (i0, i1, i2)" by (cases c)
  have "desc s' i0 = desc s i0" "desc s' i1 = desc s i1" "desc s' i2 = desc s i2" "info_b s' i0 = info_b s i0"
    using assms(2) [of i0] assms(2) [of i1] assms(2) [of i2] unfolding c by (simp_all add: nodes_def)
  then show ?thesis using assms(1) unfolding chain_ok_def chain_links_def chain_req_def c by simp
qed

lemma free_chain_ok:
  assumes c: "chain_links s (i0, i1, i2)" and u: "nodes (i0, i1, i2) \<subseteq> busy s"
  obtains s' where "free_chain i0 s = Inr s'" "busy s' = busy s - nodes (i0, i1, i2)"
    "\<And>j. j \<notin> nodes (i0, i1, i2) \<Longrightarrow> desc s' j = desc s j" "same_rings s s'"
proof -
  note C = c [unfolded chain_links_def, simplified] and U = u [unfolded nodes_def busy_def, simplified]
  obtain t where t: "free_desc i0 s = Inr t" "desc_free t = (desc_free s)(i0 := True)"
    "\<And>j. d_flags (desc t j) = d_flags (desc s j) \<and> d_next (desc t j) = d_next (desc s j)"
    "\<And>j. j \<noteq> i0 \<Longrightarrow> desc t j = desc s j" "same_rings s t"
    by (rule free_desc_ok [of i0 s]) (use U in simp_all)
  obtain v where v: "free_desc i1 t = Inr v" "desc_free v = (desc_free t)(i1 := True)"
    "\<And>j. d_flags (desc v j) = d_flags (desc t j) \<and> d_next (desc v j) = d_next (desc t j)"
    "\<And>j. j \<noteq> i1 \<Longrightarrow> desc v j = desc t j" "same_rings t v"
    by (rule free_desc_ok [of i1 t]) (use U C t(2) in simp_all)
  obtain w where w: "free_desc i2 v = Inr w" "desc_free w = (desc_free v)(i2 := True)"
    "\<And>j. d_flags (desc w j) = d_flags (desc v j) \<and> d_next (desc w j) = d_next (desc v j)"
    "\<And>j. j \<noteq> i2 \<Longrightarrow> desc w j = desc v j" "same_rings v w"
    by (rule free_desc_ok [of i2 v]) (use U C t(2) v(2) in simp_all)
  show ?thesis
  proof (rule that)
    show "free_chain i0 s = Inr w"
      using C t v w by (simp add: free_chain.simps [of i0 s] free_chain.simps [of i1 t] free_chain.simps [of i2 v])
    show "busy w = busy s - nodes (i0, i1, i2)" using t(2) v(2) w(2) by (auto simp: busy_def nodes_def)
    show "desc w j = desc s j" if "j \<notin> nodes (i0, i1, i2)" for j
      using that t(4) v(4) w(4) by (simp add: nodes_def)
    show "same_rings s w" using t(5) v(5) w(5) same_rings_trans by blast
  qed
qed

section \<open>Processes, interrupts and the device\<close>

text \<open>
  The device follows the rules of the legacy virtio block device. It takes entries of the available ring in order, up to the index that the
  driver has published; \<open>dev_seen\<close> is its own index, and \<open>dev_work\<close> are the heads of chains it has taken. It finishes the
  requests it has taken in any order: it reads from the descriptors what to do, writes a status, zero or not, to where the
  last descriptor points, and puts the head into the used ring. It does nothing with a chain of another form.

  \<open>flight\<close> are the requests that processes have submitted and not finished, by buffer, with their chains, and \<open>asked\<close> what they
  asked for; \<open>completed\<close> is what the device has done for a buffer, with the status.
\<close>

record 'a disk_machine =
  drv :: "'a vstate_scheme"
  flight :: "nat \<Rightarrow> (nat \<times> nat \<times> nat) option"
  asked :: "nat \<Rightarrow> bool \<times> nat"
  dev_seen :: nat
  dev_work :: "nat set"
  completed :: "nat \<Rightarrow> ((bool \<times> nat) \<times> nat) option"

definition chain_from :: "nat \<Rightarrow> 'a vstate_scheme \<Rightarrow> nat \<times> nat \<times> nat" where
  "chain_from i s = (i, d_next (desc s i), d_next (desc s (d_next (desc s i))))"

definition dev_request :: "nat \<Rightarrow> 'a vstate_scheme \<Rightarrow> ((bool \<times> nat) \<times> nat \<times> nat) option" where
  "dev_request i s =
     (let h = desc s i; d = desc s (d_next h); t = desc s (d_next d) in
      if d_flags h AND VRING_DESC_F_NEXT \<noteq> 0 \<and> d_flags d AND VRING_DESC_F_NEXT \<noteq> 0 \<and> d_flags t AND VRING_DESC_F_NEXT = 0 \<and>
        d_len h = 16 \<and> d_len d = BSIZE \<and> d_len t = 1 \<and>
        d_flags h AND VRING_DESC_F_WRITE = 0 \<and> d_flags t AND VRING_DESC_F_WRITE \<noteq> 0
      then
        (case (d_addr h, d_addr d, d_addr t) of
           (VHdr wr sector, VData b, VStatus k) \<Rightarrow>
             if d_flags d AND VRING_DESC_F_WRITE = 0 \<longleftrightarrow> wr then Some ((wr, sector), b, k) else None
         | _ \<Rightarrow> None)
      else None)"

definition complete :: "nat \<Rightarrow> nat \<Rightarrow> nat \<Rightarrow> 'a vstate_scheme \<Rightarrow> 'a vstate_scheme" where
  "complete i k st s = s\<lparr>info_status := (info_status s)(k := st), used_elem := (used_elem s)(used_id s mod NUM := i),
     used_id := (used_id s + 1) mod 65536\<rparr>"

inductive disk_step :: "'a disk_machine \<Rightarrow> 'a disk_machine \<Rightarrow> bool" where
  submit:
    "flight m b = None \<Longrightarrow> rw_submit b blockno write (drv m) = Inr (Some i, s) \<Longrightarrow>
     disk_step m (m\<lparr>drv := s, flight := (flight m)(b := Some (chain_from i s)),
       asked := (asked m)(b := (write, u32 (blockno * 2)))\<rparr>)"
| wait_free:
    "rw_submit b blockno write (drv m) = Inr (None, s) \<Longrightarrow> disk_step m (m\<lparr>drv := s\<rparr>)"
| take:
    "dev_seen m \<noteq> avail_idx (drv m) \<Longrightarrow>
     disk_step m (m\<lparr>dev_seen := (dev_seen m + 1) mod 65536,
       dev_work := insert (avail_ring (drv m) (dev_seen m mod NUM)) (dev_work m)\<rparr>)"
| device:
    "i \<in> dev_work m \<Longrightarrow> dev_request i (drv m) = Some (q, b, k) \<Longrightarrow>
     disk_step m (m\<lparr>drv := complete i k st (drv m), dev_work := dev_work m - {i}, completed := (completed m)(b := Some (q, st))\<rparr>)"
| intr:
    "virtio_disk_intr (drv m) = Inr s \<Longrightarrow> disk_step m (m\<lparr>drv := s\<rparr>)"
| wait_done:
    "flight m b = Some (i0, i1, i2) \<Longrightarrow> rw_finish b i0 (drv m) = Inr (False, s) \<Longrightarrow> disk_step m (m\<lparr>drv := s\<rparr>)"
| finish:
    "flight m b = Some (i0, i1, i2) \<Longrightarrow> rw_finish b i0 (drv m) = Inr (True, s) \<Longrightarrow>
     disk_step m (m\<lparr>drv := s, flight := (flight m)(b := None), completed := (completed m)(b := None)\<rparr>)"

definition disk_init :: "'a disk_machine \<Rightarrow> bool" where
  "disk_init m \<longleftrightarrow> busy (drv m) = {} \<and> used_idx (drv m) = 0 \<and> used_id (drv m) = 0 \<and> avail_idx (drv m) = 0 \<and>
     flight m = (\<lambda>_. None) \<and> dev_seen m = 0 \<and> dev_work m = {} \<and> completed m = (\<lambda>_. None)"

text \<open>
  The entries of the available ring that the device has not taken from its index \<open>v\<close> on, and the entries of the used ring that the
  interrupt handler has not looked at.
\<close>

definition noffer :: "nat \<Rightarrow> 'a vstate_scheme \<Rightarrow> nat" where
  "noffer v s = (avail_idx s + 65536 - v) mod 65536"

definition offer :: "nat \<Rightarrow> 'a vstate_scheme \<Rightarrow> nat list" where
  "offer v s = map (\<lambda>k. avail_ring s ((v + k) mod NUM)) [0..<noffer v s]"

definition npend :: "'a vstate_scheme \<Rightarrow> nat" where
  "npend s = (used_id s mod NUM + NUM - used_idx s mod NUM) mod NUM"

definition pend :: "'a vstate_scheme \<Rightarrow> nat list" where
  "pend s = map (\<lambda>k. used_elem s ((used_idx s + k) mod NUM)) [0..<npend s]"

text \<open>
  The invariant. Every request in flight has its chain, and no two share a descriptor; its head is in exactly one place: offered, with the
  device, in the used ring, or done.
\<close>

definition head_of :: "(nat \<Rightarrow> (nat \<times> nat \<times> nat) option) \<Rightarrow> nat \<Rightarrow> nat \<Rightarrow> bool" where
  "head_of F b i \<longleftrightarrow> (\<exists>i1 i2. F b = Some (i, i1, i2))"

definition chains_inv ::
  "'a vstate_scheme \<Rightarrow> (nat \<Rightarrow> (nat \<times> nat \<times> nat) option) \<Rightarrow> (nat \<Rightarrow> bool \<times> nat) \<Rightarrow> bool" where
  "chains_inv s F Q \<longleftrightarrow>
     (\<forall>b c. F b = Some c \<longrightarrow> chain_ok s b c (Q b)) \<and>
     (\<forall>b b' c c'. F b = Some c \<longrightarrow> F b' = Some c' \<longrightarrow> b \<noteq> b' \<longrightarrow> nodes c \<inter> nodes c' = {}) \<and>
     busy s = (\<Union>c \<in> ran F. nodes c)"

definition places_inv ::
  "'a vstate_scheme \<Rightarrow> (nat \<Rightarrow> (nat \<times> nat \<times> nat) option) \<Rightarrow> (nat \<Rightarrow> bool \<times> nat) \<Rightarrow>
   (nat \<Rightarrow> ((bool \<times> nat) \<times> nat) option) \<Rightarrow> nat \<Rightarrow> nat set \<Rightarrow> bool" where
  "places_inv s F Q D v W \<longleftrightarrow>
     (\<forall>b q st. D b = Some (q, st) \<longrightarrow> q = Q b \<and> (\<exists>i. head_of F b i \<and> info_status s i = st)) \<and>
     (\<forall>b i. head_of F b i \<longrightarrow> \<not> buf_disk s b \<longrightarrow> D b = Some (Q b, 0)) \<and>
     distinct (pend s) \<and> used_idx s < NUM \<and> set (pend s) = {i. \<exists>b. head_of F b i \<and> D b \<noteq> None \<and> buf_disk s b} \<and>
     distinct (offer v s) \<and> set (offer v s) \<inter> W = {} \<and> set (offer v s) \<union> W = {i. \<exists>b. head_of F b i \<and> D b = None} \<and>
     v < 65536 \<and> avail_idx s < 65536"

lemma chains_invD:
  assumes "chains_inv s F Q"
  shows "F b = Some c \<Longrightarrow> chain_ok s b c (Q b)"
    and "F b = Some c \<Longrightarrow> F b' = Some c' \<Longrightarrow> b \<noteq> b' \<Longrightarrow> nodes c \<inter> nodes c' = {}"
    and "busy s = (\<Union>c \<in> ran F. nodes c)" and "F b = Some c \<Longrightarrow> nodes c \<subseteq> busy s"
proof -
  note A = assms [unfolded chains_inv_def]
  show "F b = Some c \<Longrightarrow> chain_ok s b c (Q b)" using A by blast
  show "F b = Some c \<Longrightarrow> F b' = Some c' \<Longrightarrow> b \<noteq> b' \<Longrightarrow> nodes c \<inter> nodes c' = {}" using A by blast
  show "busy s = (\<Union>c \<in> ran F. nodes c)" using A by blast
  then show "F b = Some c \<Longrightarrow> nodes c \<subseteq> busy s" using ranI [of F b c] by blast
qed

lemma chains_invI:
  assumes "\<And>b c. F b = Some c \<Longrightarrow> chain_ok s b c (Q b)"
    and "\<And>b b' c c'. F b = Some c \<Longrightarrow> F b' = Some c' \<Longrightarrow> b \<noteq> b' \<Longrightarrow> nodes c \<inter> nodes c' = {}"
    and "busy s = (\<Union>c \<in> ran F. nodes c)"
  shows "chains_inv s F Q"
  using assms unfolding chains_inv_def by blast

lemma places_invD:
  assumes "places_inv s F Q D v W"
  shows "D b = Some (q, st) \<Longrightarrow> q = Q b" and "D b = Some (q, st) \<Longrightarrow> \<exists>i. head_of F b i \<and> info_status s i = st"
    and "head_of F b i \<Longrightarrow> \<not> buf_disk s b \<Longrightarrow> D b = Some (Q b, 0)"
    and "distinct (pend s)" and "used_idx s < NUM" and "set (pend s) = {i. \<exists>b. head_of F b i \<and> D b \<noteq> None \<and> buf_disk s b}"
    and "distinct (offer v s)" and "set (offer v s) \<inter> W = {}" and "set (offer v s) \<union> W = {i. \<exists>b. head_of F b i \<and> D b = None}"
    and "v < 65536" and "avail_idx s < 65536"
  using assms unfolding places_inv_def by blast+

lemma places_invI:
  assumes "\<And>b q st. D b = Some (q, st) \<Longrightarrow> q = Q b \<and> (\<exists>i. head_of F b i \<and> info_status s i = st)"
    and "\<And>b i. head_of F b i \<Longrightarrow> \<not> buf_disk s b \<Longrightarrow> D b = Some (Q b, 0)"
    and "distinct (pend s)" and "used_idx s < NUM" and "set (pend s) = {i. \<exists>b. head_of F b i \<and> D b \<noteq> None \<and> buf_disk s b}"
    and "distinct (offer v s)" and "set (offer v s) \<inter> W = {}" and "set (offer v s) \<union> W = {i. \<exists>b. head_of F b i \<and> D b = None}"
    and "v < 65536" and "avail_idx s < 65536"
  shows "places_inv s F Q D v W"
  using assms unfolding places_inv_def by blast

lemma head_inj:
  assumes "chains_inv s F Q" and "head_of F b i" and "head_of F b' i"
  shows "b = b'"
proof (rule ccontr)
  assume "b \<noteq> b'"
  moreover obtain c c' where "F b = Some c" "F b' = Some c'" "i \<in> nodes c" "i \<in> nodes c'"
    using assms(2,3) by (auto simp: head_of_def nodes_def)
  ultimately show False using chains_invD(2) [OF assms(1)] by blast
qed

text \<open>Heads of different requests cannot fill a ring, as every request has descriptors that are no heads.\<close>

lemma heads_few:
  assumes inv: "chains_inv s F Q" and "distinct L" and h: "\<And>i. i \<in> set L \<Longrightarrow> \<exists>b. head_of F b i"
  shows "length L < NUM"
proof (cases L)
  case Nil
  then show ?thesis by (simp add: NUM_def)
next
  case (Cons i L')
  have inside: "j < NUM" if m: "j \<in> set L" for j
  proof -
    obtain b i1 i2 where "F b = Some (j, i1, i2)" using h [OF m] by (auto simp: head_of_def)
    from chains_invD(1) [OF inv this] show ?thesis by (simp add: chain_ok_def chain_links_def)
  qed
  obtain b i1 i2 where F: "F b = Some (i, i1, i2)" using h [of i] Cons by (auto simp: head_of_def)
  have c: "i1 < NUM" "i1 \<noteq> i" using chains_invD(1) [OF inv F] by (auto simp: chain_ok_def chain_links_def)
  have "i1 \<notin> set L"
  proof
    assume m: "i1 \<in> set L"
    obtain b' j1 j2 where F': "F b' = Some (i1, j1, j2)" using h [OF m] by (auto simp: head_of_def)
    then have "b' \<noteq> b" using F c by auto
    from chains_invD(2) [OF inv F' F this] show False by (auto simp: nodes_def)
  qed
  then have "Suc (length L) = card (insert i1 (set L))" using distinct_card [OF assms(2)] by simp
  also have "\<dots> \<le> card {..<NUM}" using inside c(1) by (intro card_mono) auto
  finally show ?thesis by simp
qed

section \<open>The rings\<close>

lemma ring_dist:
  fixes a b n :: nat
  assumes "a < n" and "b < n"
  shows "(b + n - a) mod n = (if a \<le> b then b - a else b + n - a)"
proof (cases "a \<le> b")
  case True
  then have "b + n - a = b - a + n" by simp
  then have "(b + n - a) mod n = (b - a) mod n" by (simp only: mod_add_self2)
  then show ?thesis using True assms by simp
qed (use assms in simp)

lemma ring_next:
  fixes a b n :: nat
  assumes "a < n" and "b < n"
  shows "(a + (b + n - a) mod n) mod n = b"
    and "Suc ((b + n - a) mod n) < n \<Longrightarrow> ((b + 1) mod n + n - a) mod n = Suc ((b + n - a) mod n)"
    and "a \<noteq> b \<Longrightarrow> (b + n - a) mod n = Suc ((b + n - (a + 1) mod n) mod n)"
proof -
  show "(a + (b + n - a) mod n) mod n = b"
    using assms by (simp add: ring_dist)
  show "((b + 1) mod n + n - a) mod n = Suc ((b + n - a) mod n)" if "Suc ((b + n - a) mod n) < n"
  proof (cases "Suc b = n")
    case True
    then have "(b + 1) mod n = 0" by simp
    then show ?thesis using that assms True by (auto simp: ring_dist split: if_splits)
  next
    case False
    then have "(b + 1) mod n = Suc b" using assms by simp
    then show ?thesis using that assms False by (simp only: ring_dist [of a n "Suc b"]) (auto simp: ring_dist split: if_splits)
  qed
  show "(b + n - a) mod n = Suc ((b + n - (a + 1) mod n) mod n)" if "a \<noteq> b"
  proof (cases "Suc a = n")
    case True
    then have "(a + 1) mod n = 0" by simp
    then show ?thesis using that assms True by (auto simp: ring_dist split: if_splits)
  next
    case False
    then have "(a + 1) mod n = Suc a" using assms by simp
    then show ?thesis using that assms False by (simp only: ring_dist [of "Suc a" n b]) (auto simp: ring_dist split: if_splits)
  qed
qed

lemma mod_NUM [simp]: "n mod NUM < NUM" by (simp add: NUM_def)

lemma mod_65536_NUM: "n mod 65536 mod NUM = n mod NUM"
  by (simp add: NUM_def mod_mod_cancel)

text \<open>Positions less than a round apart are different.\<close>

lemma ring_apart: "k < n \<Longrightarrow> n < NUM \<Longrightarrow> (a + k) mod NUM \<noteq> (a + n) mod NUM"
proof
  assume "k < n" "n < NUM" "(a + k) mod NUM = (a + n) mod NUM"
  then have "NUM dvd n - k" using mod_eq_dvd_iff_nat [of "a + k" "a + n" NUM] by simp
  with \<open>k < n\<close> \<open>n < NUM\<close> show False by (auto dest!: dvd_imp_le)
qed

lemma npend_bound: "npend s < NUM" by (simp add: npend_def NUM_def)

lemma pend_end: "(used_idx s + npend s) mod NUM = used_id s mod NUM"
  using ring_next(1) [of "used_idx s mod NUM" NUM "used_id s mod NUM"] by (simp add: npend_def mod_add_left_eq)

lemma length_pend [simp]: "length (pend s) = npend s" by (simp add: pend_def)

lemma length_offer [simp]: "length (offer v s) = noffer v s" by (simp add: offer_def)

lemma pend_complete:
  assumes "Suc (npend s) < NUM"
  shows "pend (complete i k st s) = pend s @ [i]"
proof -
  have n: "npend (complete i k st s) = Suc (npend s)"
    using ring_next(2) [of "used_idx s mod NUM" NUM "used_id s mod NUM"] assms
    by (simp add: npend_def complete_def mod_65536_NUM mod_simps)
  have neq: "(used_idx s + k) mod NUM \<noteq> used_id s mod NUM" if "k < npend s" for k
    using ring_apart [OF that npend_bound, of "used_idx s"] by (simp add: pend_end)
  show ?thesis
    unfolding pend_def n using neq by (simp add: complete_def pend_end)
qed

lemma pend_step:
  assumes "used_idx s mod NUM \<noteq> used_id s mod NUM" and "used_idx s < NUM"
  shows "pend s = used_elem s (used_idx s) # pend (s\<lparr>used_idx := (used_idx s + 1) mod NUM\<rparr>)"
proof -
  have n: "npend s = Suc (npend (s\<lparr>used_idx := (used_idx s + 1) mod NUM\<rparr>))"
    using ring_next(3) [of "used_idx s" NUM "used_id s mod NUM"] assms by (simp add: npend_def)
  show ?thesis
    unfolding pend_def n using assms(2) by (simp add: upt_conv_Cons map_Suc_upt [symmetric] mod_simps del: upt_Suc)
qed

lemma pend_empty: "used_idx s mod NUM = used_id s mod NUM \<Longrightarrow> pend s = []"
  by (simp add: pend_def npend_def)

text \<open>The driver offers a request, and the device takes one.\<close>

lemma offer_end:
  assumes "v < 65536" and "avail_idx s < 65536"
  shows "(v + noffer v s) mod NUM = avail_idx s mod NUM"
proof -
  have "(v + noffer v s) mod 65536 = avail_idx s"
    using ring_next(1) [of v 65536 "avail_idx s"] assms by (simp add: noffer_def)
  then show ?thesis by (metis mod_65536_NUM)
qed

lemma offer_add:
  assumes v: "v < 65536" "avail_idx s < 65536" and n: "noffer v s < NUM"
    and t: "avail_ring t = (avail_ring s)(avail_idx s mod NUM := i)" "avail_idx t = (avail_idx s + 1) mod 65536"
  shows "offer v t = offer v s @ [i]"
proof -
  have "noffer v t = Suc (noffer v s)"
    using ring_next(2) [of v 65536 "avail_idx s"] v n t(2) by (simp add: noffer_def NUM_def)
  moreover have "(v + k) mod NUM \<noteq> avail_idx s mod NUM" if "k < noffer v s" for k
    using ring_apart [OF that n, of v] by (simp add: offer_end [OF v])
  ultimately show ?thesis by (simp add: offer_def t(1) offer_end [OF v])
qed

lemma offer_take:
  assumes v: "v < 65536" "avail_idx s < 65536" and ne: "v \<noteq> avail_idx s"
  shows "offer v s = avail_ring s (v mod NUM) # offer ((v + 1) mod 65536) s"
proof -
  have n: "noffer v s = Suc (noffer ((v + 1) mod 65536) s)"
    using ring_next(3) [of v 65536 "avail_idx s"] v ne by (simp add: noffer_def)
  have "((v + 1) mod 65536 + k) mod NUM = (v + Suc k) mod NUM" for k
    by (metis add_Suc_shift mod_65536_NUM mod_add_left_eq Suc_eq_plus1)
  then show ?thesis
    unfolding offer_def n by (simp add: upt_conv_Cons map_Suc_upt [symmetric] del: upt_Suc)
qed

section \<open>Every step keeps the invariant\<close>

lemma same_requests_inv:
  assumes e: "same_requests s s'"
  shows "chains_inv s F Q \<Longrightarrow> chains_inv s' F Q" and "places_inv s F Q D v W \<Longrightarrow> places_inv s' F Q D v W"
proof -
  note E = e [unfolded same_requests_def]
  show "chains_inv s' F Q" if inv: "chains_inv s F Q"
  proof (rule chains_invI)
    show "chain_ok s' b c (Q b)" if "F b = Some c" for b c
      by (rule chain_ok_cong [OF chains_invD(1) [OF inv that]]) (use chains_invD(4) [OF inv that] E in auto)
    show "busy s' = (\<Union>c \<in> ran F. nodes c)" using chains_invD(3) [OF inv] E by simp
  qed (rule chains_invD(2) [OF inv])
  have "pend s' = pend s" "offer v s' = offer v s" using E by (simp_all add: pend_def npend_def offer_def noffer_def)
  then show "places_inv s' F Q D v W" if "places_inv s F Q D v W"
    using that E unfolding places_inv_def by simp
qed

lemma rw_submit_cases:
  obtains (none) s' where "rw_submit b blockno write s = Inr (None, s')" "same_requests s s'"
  | (some) i0 i1 i2 s' where "rw_submit b blockno write s = Inr (Some i0, s')" "chain_from i0 s' = (i0, i1, i2)"
      "chain_ok s' b (i0, i1, i2) (write, u32 (blockno * 2))" "nodes (i0, i1, i2) \<inter> busy s = {}" "busy s' = busy s \<union> nodes (i0, i1, i2)"
      "\<And>j. j \<notin> nodes (i0, i1, i2) \<Longrightarrow> desc s' j = desc s j" "info_b s' = (info_b s)(i0 := Some b)"
      "info_status s' = (info_status s)(i0 := 0)" "buf_disk s' = (buf_disk s)(b := True)"
      "used_idx s' = used_idx s" "used_id s' = used_id s" "used_elem s' = used_elem s"
      "avail_ring s' = (avail_ring s)(avail_idx s mod NUM := i0)" "avail_idx s' = (avail_idx s + 1) mod 65536"
proof (cases s rule: alloc3_cases)
  case (none s')
  have "same_requests s (set_sleeping Chan_free s')"
    using none(2) by (simp add: same_requests_def busy_def set_sleeping_def upd_proc_def)
  then show ?thesis using that(1) none(1) by (simp add: rw_submit_def)
next
  case (some i0 i1 i2)
  have d: "i0 \<noteq> i1" "i0 \<noteq> i2" "i1 \<noteq> i2" "i0 < NUM" "i1 < NUM" "i2 < NUM" using some by auto
  let ?t = "s\<lparr>desc_free := (desc_free s)(i0 := False, i1 := False, i2 := False),
     desc := (desc s)(i0 := \<lparr>d_addr = VHdr write (u32 (blockno * (BSIZE div 512))), d_len = 16, d_flags = VRING_DESC_F_NEXT, d_next = i1\<rparr>,
       i1 := \<lparr>d_addr = VData b, d_len = BSIZE, d_flags = (if write then 0 else VRING_DESC_F_WRITE) OR VRING_DESC_F_NEXT, d_next = i2\<rparr>,
       i2 := \<lparr>d_addr = VStatus i0, d_len = 1, d_flags = VRING_DESC_F_WRITE, d_next = 0\<rparr>),
     info_status := (info_status s)(i0 := 0), buf_disk := (buf_disk s)(b := True), info_b := (info_b s)(i0 := Some b),
     avail_ring := (avail_ring s)(avail_idx s mod NUM := i0), avail_idx := (avail_idx s + 1) mod 65536\<rparr>"
  have r: "rw_submit b blockno write s = Inr (Some i0, ?t)"
    by (simp add: rw_submit_def some(4) set_desc_def Let_def)
  have f: "VRING_DESC_F_NEXT AND VRING_DESC_F_NEXT \<noteq> 0" "((if write then 0 else VRING_DESC_F_WRITE) OR VRING_DESC_F_NEXT) AND VRING_DESC_F_NEXT \<noteq> 0"
    "VRING_DESC_F_WRITE AND VRING_DESC_F_NEXT = 0" "VRING_DESC_F_NEXT AND VRING_DESC_F_WRITE = 0" "VRING_DESC_F_WRITE AND VRING_DESC_F_WRITE \<noteq> 0"
    "((if write then 0 else VRING_DESC_F_WRITE) OR VRING_DESC_F_NEXT) AND VRING_DESC_F_WRITE = 0 \<longleftrightarrow> write"
    by (simp_all add: VRING_DESC_F_NEXT_def VRING_DESC_F_WRITE_def)
  have sec: "BSIZE div 512 = 2" by (simp add: BSIZE_def)
  show ?thesis
  proof (rule that(2) [OF r])
    show "chain_from i0 ?t = (i0, i1, i2)" using d by (simp add: chain_from_def)
    show "chain_ok ?t b (i0, i1, i2) (write, u32 (blockno * 2))" using d f sec by (simp add: chain_ok_def chain_links_def chain_req_def)
    show "nodes (i0, i1, i2) \<inter> busy s = {}" using some(2) by (auto simp: nodes_def)
    show "busy ?t = busy s \<union> nodes (i0, i1, i2)" using d by (auto simp: busy_def nodes_def)
    show "desc ?t j = desc s j" if "j \<notin> nodes (i0, i1, i2)" for j using that by (simp add: nodes_def)
  qed simp_all
qed

lemma head_of_upd: "head_of (F(b := Some (i0, i1, i2))) b' i \<longleftrightarrow> (if b' = b then i = i0 else head_of F b' i)"
  by (auto simp: head_of_def)

lemma head_of_del: "head_of (F(b := None)) b' i \<longleftrightarrow> b' \<noteq> b \<and> head_of F b' i"
  by (auto simp: head_of_def)

lemma head_node: "head_of F b i \<Longrightarrow> \<exists>c. F b = Some c \<and> i \<in> nodes c"
  by (auto simp: head_of_def nodes_def)

lemma inv_submit_chains:
  assumes inv: "chains_inv s F Q" and b: "F b = None" and t: "chain_ok t b c q" "nodes c \<inter> busy s = {}"
    "busy t = busy s \<union> nodes c" "\<And>j. j \<notin> nodes c \<Longrightarrow> desc t j = desc s j" "info_b t = (info_b s)(fst c := Some b)"
  shows "chains_inv t (F(b := Some c)) (Q(b := q))"
proof -
  note I = chains_invD [OF inv]
  let ?F = "F(b := Some c)"
  have out: "nodes c' \<inter> nodes c = {}" if "F b' = Some c'" for b' c' using I(4) [OF that] t(2) by blast
  have f: "fst c \<in> nodes c" by (cases c) (simp add: nodes_def)
  show ?thesis
  proof (rule chains_invI)
    show "chain_ok t b' c' ((Q(b := q)) b')" if h: "?F b' = Some c'" for b' c'
    proof (cases "b' = b")
      case False
      then have c: "F b' = Some c'" using h by simp
      have n: "j \<notin> nodes c" "j \<noteq> fst c" if "j \<in> nodes c'" for j using out [OF c] f that by blast+
      have "chain_ok t b' c' (Q b')" by (rule chain_ok_cong [OF I(1) [OF c]]) (use n t(4,5) in simp)
      then show ?thesis using False by simp
    qed (use h t(1) in simp)
    show "nodes c1 \<inter> nodes c2 = {}" if "?F b1 = Some c1" "?F b2 = Some c2" "b1 \<noteq> b2" for b1 b2 c1 c2
      using that I(2) [of b1 c1 b2 c2] out [of b1 c1] out [of b2 c2] by (cases "b1 = b"; cases "b2 = b") auto
    show "busy t = (\<Union>c \<in> ran ?F. nodes c)" using t(3) I(3) ran_map_upd [of F b c] b by auto
  qed
qed

lemma inv_submit:
  assumes inv: "chains_inv s F Q" "places_inv s F Q D v W" and b: "F b = None" and r: "rw_submit b blockno wr s = Inr (Some i, s')"
  shows "chains_inv s' (F(b := Some (chain_from i s'))) (Q(b := (wr, u32 (blockno * 2))))"
    and "places_inv s' (F(b := Some (chain_from i s'))) (Q(b := (wr, u32 (blockno * 2)))) D v W"
proof -
  obtain i0 i1 i2 t where t: "rw_submit b blockno wr s = Inr (Some i0, t)" "chain_from i0 t = (i0, i1, i2)"
      "chain_ok t b (i0, i1, i2) (wr, u32 (blockno * 2))" "nodes (i0, i1, i2) \<inter> busy s = {}" "busy t = busy s \<union> nodes (i0, i1, i2)"
      "\<And>j. j \<notin> nodes (i0, i1, i2) \<Longrightarrow> desc t j = desc s j" "info_b t = (info_b s)(i0 := Some b)"
      "info_status t = (info_status s)(i0 := 0)" "buf_disk t = (buf_disk s)(b := True)"
      "used_idx t = used_idx s" "used_id t = used_id s" "used_elem t = used_elem s"
      "avail_ring t = (avail_ring s)(avail_idx s mod NUM := i0)" "avail_idx t = (avail_idx s + 1) mod 65536"
    by (rule rw_submit_cases [of b blockno wr s]) (use r in simp_all)
  have e: "i = i0" "s' = t" using t(1) r by simp_all
  note I = chains_invD [OF inv(1)] and P = places_invD [OF inv(2)]
  let ?F = "F(b := Some (i0, i1, i2))" and ?Q = "Q(b := (wr, u32 (blockno * 2)))"
  show "chains_inv s' (F(b := Some (chain_from i s'))) ?Q"
    unfolding e t(2) using inv_submit_chains [OF inv(1) b t(3-6)] t(7) by simp
  have i0: "\<not> head_of F b' i0" for b'
  proof
    assume "head_of F b' i0"
    then obtain c where "F b' = Some c" "i0 \<in> nodes c" using head_node by blast
    then show False using I(4) t(4) by (auto simp: nodes_def)
  qed
  have b0: "D b = None" using P(2) [of b] b by (auto simp: head_of_def intro: option.exhaust [of "D b"])
  have p: "pend t = pend s" by (simp add: pend_def npend_def t(10-12))
  have "length (offer v s) < NUM" by (rule heads_few [OF inv(1) P(7)]) (use P(9) in blast)
  then have o: "offer v t = offer v s @ [i0]"
    using offer_add [OF P(10,11) _ t(13,14)] by simp
  have "places_inv t ?F ?Q D v W"
  proof (rule places_invI)
    show "q = ?Q b' \<and> (\<exists>i. head_of ?F b' i \<and> info_status t i = st)" if h: "D b' = Some (q, st)" for b' q st
    proof -
      have ne: "b' \<noteq> b" using h b0 by auto
      obtain j where "head_of F b' j" "info_status s j = st" using P(2) [OF h] by blast
      moreover from this have "j \<noteq> i0" using i0 by blast
      ultimately show ?thesis using P(1) [OF h] ne by (auto simp: head_of_upd t(8))
    qed
    show "D b' = Some (?Q b', 0)" if "head_of ?F b' i" "\<not> buf_disk t b'" for b' i
      using that P(3) by (auto simp: head_of_upd t(9) split: if_splits)
    show "distinct (pend t)" "used_idx t < NUM" using P(4,5) p t(10) by simp_all
    show "set (pend t) = {i. \<exists>b'. head_of ?F b' i \<and> D b' \<noteq> None \<and> buf_disk t b'}"
    proof -
      have "head_of ?F b' i \<and> D b' \<noteq> None \<and> buf_disk t b' \<longleftrightarrow> head_of F b' i \<and> D b' \<noteq> None \<and> buf_disk s b'" for b' i
        by (cases "b' = b") (simp_all add: head_of_upd t(9) b0)
      then show ?thesis unfolding p P(6) by simp
    qed
    have n: "i0 \<notin> set (offer v s)" "i0 \<notin> W" using P(9) i0 by blast+
    show "distinct (offer v t)" using P(7) n by (simp add: o)
    show "set (offer v t) \<inter> W = {}" using P(8) n by (simp add: o)
    have "set (offer v t) \<union> W = insert i0 {i. \<exists>b. head_of F b i \<and> D b = None}" using P(9) by (simp add: o)
    also have "\<dots> = {i. \<exists>b. head_of ?F b i \<and> D b = None}"
    proof -
      have "\<not> head_of F b i" for i using b by (simp add: head_of_def)
      then have "head_of ?F b' i \<and> D b' = None \<longleftrightarrow> b' = b \<and> i = i0 \<or> head_of F b' i \<and> D b' = None" for b' i
        by (cases "b' = b") (simp_all add: head_of_upd b0)
      then show ?thesis by blast
    qed
    finally show "set (offer v t) \<union> W = {i. \<exists>b. head_of ?F b i \<and> D b = None}" .
  qed (use P(10) t(14) in simp_all)
  then show "places_inv s' (F(b := Some (chain_from i s'))) ?Q D v W" unfolding e t(2) .
qed

text \<open>The device takes an offer, and completes a request.\<close>

lemma inv_take:
  assumes "places_inv s F Q D v W" and "v \<noteq> avail_idx s"
  shows "places_inv s F Q D ((v + 1) mod 65536) (insert (avail_ring s (v mod NUM)) W)"
proof -
  note P = places_invD [OF assms(1)]
  have o: "offer v s = avail_ring s (v mod NUM) # offer ((v + 1) mod 65536) s" by (rule offer_take [OF P(10,11) assms(2)])
  show ?thesis
  proof (rule places_invI)
    show "q = Q b \<and> (\<exists>i. head_of F b i \<and> info_status s i = st)" if "D b = Some (q, st)" for b q st
      using P(1,2) [OF that] by blast
    show "D b = Some (Q b, 0)" if "head_of F b i" "\<not> buf_disk s b" for b i by (rule P(3) [OF that])
  qed (use P(4-11) o in auto)
qed

lemma dev_request_chain: "chain_ok s b (i, i1, i2) q \<Longrightarrow> dev_request i s = Some (q, b, i)"
  unfolding chain_ok_def chain_links_def chain_req_def dev_request_def Let_def by (cases q) simp

lemma inv_device:
  assumes inv: "chains_inv s F Q" "places_inv s F Q D v W" and i: "i \<in> W" and r: "dev_request i s = Some (q, b, k)"
  shows "chains_inv (complete i k st s) F Q" and "places_inv (complete i k st s) F Q (D(b := Some (q, st))) v (W - {i})"
proof -
  note I = chains_invD [OF inv(1)] and P = places_invD [OF inv(2)] and inj = head_inj [OF inv(1)]
  let ?t = "complete i k st s"
  show "chains_inv ?t F Q"
  proof (rule chains_invI)
    show "chain_ok ?t b c (Q b)" if "F b = Some c" for b c
      using I(1) [OF that] by (rule chain_ok_cong) (simp add: complete_def)
    show "busy ?t = (\<Union>c \<in> ran F. nodes c)" using I(3) by (simp add: busy_def complete_def)
  qed (rule I(2))
  obtain b' where b': "head_of F b' i" "D b' = None" using i P(9) by blast
  then obtain i1 i2 where "F b' = Some (i, i1, i2)" by (auto simp: head_of_def)
  from dev_request_chain [OF I(1) [OF this]] r have e: "b' = b" "q = Q b" "k = i" by auto
  have h: "head_of F b i" "D b = None" using b' e by simp_all
  have bd: "buf_disk s b" using P(3) [OF h(1)] h(2) by auto
  have np: "i \<notin> set (pend s)"
  proof
    assume "i \<in> set (pend s)"
    then obtain b2 where "head_of F b2 i" "D b2 \<noteq> None" unfolding P(6) by blast
    then show False using inj [of b2 i b] h by auto
  qed
  have "length (pend s @ [i]) < NUM"
    by (rule heads_few [OF inv(1)]) (use P(4,6) np h in auto)
  then have p: "pend ?t = pend s @ [i]" by (intro pend_complete) simp
  have o: "offer v ?t = offer v s" by (simp add: offer_def noffer_def complete_def)
  have f: "info_status ?t = (info_status s)(i := st)" "buf_disk ?t = buf_disk s" "used_idx ?t = used_idx s" "avail_idx ?t = avail_idx s"
    by (simp_all add: complete_def e)
  let ?D = "D(b := Some (q, st))"
  show "places_inv ?t F Q ?D v (W - {i})"
  proof (rule places_invI)
    show "q' = Q b' \<and> (\<exists>j. head_of F b' j \<and> info_status ?t j = st')" if d: "?D b' = Some (q', st')" for b' q' st'
    proof (cases "b' = b")
      case True
      then show ?thesis using d h e f(1) by auto
    next
      case False
      then have d': "D b' = Some (q', st')" using d by simp
      obtain j where j: "head_of F b' j" "info_status s j = st'" using P(2) [OF d'] by blast
      have "j \<noteq> i" using inj [of b' j b] j(1) h(1) False by blast
      then show ?thesis using j P(1) [OF d'] f(1) by auto
    qed
    show "?D b' = Some (Q b', 0)" if "head_of F b' j" "\<not> buf_disk ?t b'" for b' j
      using that P(3) [of b' j] bd f(2) by auto
    show "distinct (pend ?t)" using P(4) np by (simp add: p)
    show "set (pend ?t) = {i. \<exists>b. head_of F b i \<and> ?D b \<noteq> None \<and> buf_disk ?t b}"
    proof -
      have "set (pend ?t) = insert i {i. \<exists>b. head_of F b i \<and> D b \<noteq> None \<and> buf_disk s b}" using P(6) by (simp add: p)
      also have "\<dots> = {i. \<exists>b. head_of F b i \<and> ?D b \<noteq> None \<and> buf_disk ?t b}"
      proof (rule set_eqI)
        fix j
        show "j \<in> insert i {i. \<exists>b. head_of F b i \<and> D b \<noteq> None \<and> buf_disk s b} \<longleftrightarrow>
          j \<in> {i. \<exists>b. head_of F b i \<and> ?D b \<noteq> None \<and> buf_disk ?t b}"
        proof (cases "head_of F b j")
          case True
          then have "j = i" using h(1) by (auto simp: head_of_def)
          then show ?thesis using h(1) bd by (auto simp: f)
        next
          case False
          then have "j \<noteq> i" using h(1) by blast
          then show ?thesis using False by (auto simp: f)
        qed
      qed
      finally show ?thesis .
    qed
    show "set (offer v ?t) \<union> (W - {i}) = {i. \<exists>b. head_of F b i \<and> ?D b = None}"
    proof -
      have "set (offer v ?t) \<union> (W - {i}) = (set (offer v s) \<union> W) - {i}" using i P(8) by (auto simp: o)
      also have "\<dots> = {i. \<exists>b. head_of F b i \<and> ?D b = None}"
      proof (rule set_eqI)
        fix j
        show "j \<in> (set (offer v s) \<union> W) - {i} \<longleftrightarrow> j \<in> {i. \<exists>b. head_of F b i \<and> ?D b = None}"
        proof (cases "j = i")
          case True
          have "?D b' \<noteq> None" if "head_of F b' i" for b' using inj [OF that h(1)] by simp
          then show ?thesis using True by blast
        next
          case False
          then have "\<not> head_of F b j" using h(1) by (auto simp: head_of_def)
          then show ?thesis using False P(9) by auto
        qed
      qed
      finally show ?thesis .
    qed
  qed (use P(5,7,8,10,11) f o in auto)
qed

text \<open>One turn of the interrupt handler, and the whole loop.\<close>

definition turn :: "nat \<Rightarrow> 'a vstate_scheme \<Rightarrow> 'a vstate_scheme" where
  "turn b s = (wakeup (Chan_buf b) (s\<lparr>buf_disk := (buf_disk s)(b := False)\<rparr>))\<lparr>used_idx := (used_idx s + 1) mod NUM\<rparr>"

lemma turn_simps [simp]:
  "desc (turn b s) = desc s" "busy (turn b s) = busy s" "info_b (turn b s) = info_b s" "info_status (turn b s) = info_status s"
  "buf_disk (turn b s) = (buf_disk s)(b := False)" "used_idx (turn b s) = (used_idx s + 1) mod NUM" "avail_idx (turn b s) = avail_idx s"
  "offer v (turn b s) = offer v s" "pend (turn b s) = pend (s\<lparr>used_idx := (used_idx s + 1) mod NUM\<rparr>)"
  by (simp_all add: turn_def busy_def offer_def noffer_def pend_def npend_def)

lemma inv_turn:
  assumes inv: "chains_inv s F Q" "places_inv s F Q D v W" and ne: "used_idx s mod NUM \<noteq> used_id s mod NUM"
  defines "i \<equiv> used_elem s (used_idx s)"
  obtains b where "info_b s i = Some b" "buf_disk s b" "D b = Some (Q b, info_status s i)"
    "info_status s i = 0 \<longrightarrow> chains_inv (turn b s) F Q \<and> places_inv (turn b s) F Q D v W"
proof -
  note I = chains_invD [OF inv(1)] and P = places_invD [OF inv(2)]
  let ?u = "s\<lparr>used_idx := (used_idx s + 1) mod NUM\<rparr>"
  have p: "pend s = i # pend ?u" using pend_step [OF ne P(5)] by (simp add: i_def)
  then have "i \<in> {i. \<exists>b. head_of F b i \<and> D b \<noteq> None \<and> buf_disk s b}" using P(6) by (metis list.set_intros(1))
  then obtain b where b: "head_of F b i" "D b \<noteq> None" "buf_disk s b" by blast
  then obtain i1 i2 where F: "F b = Some (i, i1, i2)" by (auto simp: head_of_def)
  obtain q st where "D b = Some (q, st)" using b(2) by auto
  then have D: "D b = Some (Q b, info_status s i)" using P(1,2) [of b q st] F by (auto simp: head_of_def)
  show ?thesis
  proof (rule that [OF _ b(3) D])
    show "info_b s i = Some b" using I(1) [OF F] by (simp add: chain_ok_def)
    have "chains_inv (turn b s) F Q \<and> places_inv (turn b s) F Q D v W" if st: "info_status s i = 0"
    proof -
      have "chains_inv (turn b s) F Q"
      proof (rule chains_invI)
        show "chain_ok (turn b s) b' c (Q b')" if "F b' = Some c" for b' c
          using I(1) [OF that] by (rule chain_ok_cong) simp
      qed (use I(2,3) in simp_all)
      moreover have "places_inv (turn b s) F Q D v W"
      proof (rule places_invI)
        show "q = Q b' \<and> (\<exists>i. head_of F b' i \<and> info_status (turn b s) i = st)" if "D b' = Some (q, st)" for b' q st
          using P(1,2) [OF that] by simp
        show "D b' = Some (Q b', 0)" if "head_of F b' j" "\<not> buf_disk (turn b s) b'" for b' j
          using that P(3) [of b' j] D st by (cases "b' = b") simp_all
        show "set (pend (turn b s)) = {i. \<exists>b'. head_of F b' i \<and> D b' \<noteq> None \<and> buf_disk (turn b s) b'}"
        proof (rule set_eqI)
          fix j
          have "j \<in> set (pend ?u) \<longleftrightarrow> j \<noteq> i \<and> j \<in> set (pend s)" using P(4) p by auto
          also have "\<dots> \<longleftrightarrow> (\<exists>b'. head_of F b' j \<and> D b' \<noteq> None \<and> buf_disk s b' \<and> b' \<noteq> b)"
          proof -
            have "head_of F b' j \<Longrightarrow> b' \<noteq> b \<longleftrightarrow> j \<noteq> i" for b'
              using head_inj [OF inv(1) b(1), of b'] F by (auto simp: head_of_def)
            then show ?thesis unfolding P(6) by blast
          qed
          finally show "j \<in> set (pend (turn b s)) \<longleftrightarrow> j \<in> {i. \<exists>b'. head_of F b' i \<and> D b' \<noteq> None \<and> buf_disk (turn b s) b'}"
            by auto
        qed
      qed (use P(4,7-11) p in auto)
      ultimately show ?thesis by blast
    qed
    then show "info_status s i = 0 \<longrightarrow> chains_inv (turn b s) F Q \<and> places_inv (turn b s) F Q D v W" by blast
  qed
qed

lemma intr_turn:
  assumes "used_idx s mod NUM \<noteq> used_id s mod NUM" and "info_b s (used_elem s (used_idx s)) = Some b"
  shows "virtio_disk_intr s =
    (if info_status s (used_elem s (used_idx s)) \<noteq> 0 then Inl (Panic ''virtio_disk_intr status'') else virtio_disk_intr (turn b s))"
  using assms by (subst virtio_disk_intr.simps) (simp add: turn_def)

lemma intr_end: "used_idx s mod NUM = used_id s mod NUM \<Longrightarrow> virtio_disk_intr s = Inr s"
  by (subst virtio_disk_intr.simps) simp

definition intr_panics :: "'a vstate_scheme \<Rightarrow> (nat \<Rightarrow> ((bool \<times> nat) \<times> nat) option) \<Rightarrow> bool" where
  "intr_panics s D \<longleftrightarrow> (\<exists>b q st. D b = Some (q, st) \<and> st \<noteq> 0 \<and> buf_disk s b) \<and> virtio_disk_intr s = Inl (Panic ''virtio_disk_intr status'')"

definition intr_returns ::
  "'a vstate_scheme \<Rightarrow> (nat \<Rightarrow> (nat \<times> nat \<times> nat) option) \<Rightarrow> (nat \<Rightarrow> bool \<times> nat) \<Rightarrow>
   (nat \<Rightarrow> ((bool \<times> nat) \<times> nat) option) \<Rightarrow> nat \<Rightarrow> nat set \<Rightarrow> bool" where
  "intr_returns s F Q D v W \<longleftrightarrow>
     (\<exists>s'. virtio_disk_intr s = Inr s' \<and> pend s' = [] \<and> chains_inv s' F Q \<and> places_inv s' F Q D v W)"

lemma inv_intr:
  "chains_inv s F Q \<Longrightarrow> places_inv s F Q D v W \<Longrightarrow> intr_panics s D \<or> intr_returns s F Q D v W"
proof (induction "npend s" arbitrary: s rule: less_induct)
  case less
  show ?case
  proof (cases "used_idx s mod NUM = used_id s mod NUM")
    case True
    then show ?thesis using less(2,3) intr_end pend_empty unfolding intr_returns_def by blast
  next
    case False
    obtain b where b: "info_b s (used_elem s (used_idx s)) = Some b" "buf_disk s b" "D b = Some (Q b, info_status s (used_elem s (used_idx s)))"
      "info_status s (used_elem s (used_idx s)) = 0 \<longrightarrow> chains_inv (turn b s) F Q \<and> places_inv (turn b s) F Q D v W"
      by (rule inv_turn [OF less(2,3) False])
    note V = intr_turn [OF False b(1)]
    show ?thesis
    proof (cases "info_status s (used_elem s (used_idx s)) = 0")
      case False
      then show ?thesis using V b(2,3) unfolding intr_panics_def by (intro disjI1 conjI) (blast, simp)
    next
      case True
      have "length (pend (turn b s)) < length (pend s)"
        using pend_step [OF False places_invD(5) [OF less(3)]] by (simp del: length_pend)
      then have "npend (turn b s) < npend s" by (simp only: length_pend)
      then have "intr_panics (turn b s) D \<or> intr_returns (turn b s) F Q D v W" using less(1) [of "turn b s"] b(4) True by blast
      moreover have "virtio_disk_intr s = virtio_disk_intr (turn b s)" using V True by simp
      moreover have "buf_disk s b'" if "buf_disk (turn b s) b'" for b' using that by (simp split: if_splits)
      ultimately show ?thesis unfolding intr_panics_def intr_returns_def by metis
    qed
  qed
qed

lemma intr_outcome:
  assumes "chains_inv s F Q" and "places_inv s F Q D v W"
  shows "if \<exists>b q st. D b = Some (q, st) \<and> st \<noteq> 0 then virtio_disk_intr s = Inl (Panic ''virtio_disk_intr status'')
    else \<exists>s'. virtio_disk_intr s = Inr s' \<and> (\<forall>b. D b \<noteq> None \<longrightarrow> \<not> buf_disk s' b)"
proof -
  consider "intr_panics s D" | s' where "virtio_disk_intr s = Inr s'" "pend s' = []" "places_inv s' F Q D v W"
    using inv_intr [OF assms] unfolding intr_returns_def by blast
  then show ?thesis
  proof cases
    case 1
    then have "\<exists>b q st. D b = Some (q, st) \<and> st \<noteq> 0" unfolding intr_panics_def by blast
    then show ?thesis using 1 by (simp add: intr_panics_def)
  next
    case 2
    note P = places_invD [OF 2(3)]
    have nd: "\<not> buf_disk s' b" if d: "D b \<noteq> None" for b
    proof
      assume "buf_disk s' b"
      moreover obtain q st where "D b = Some (q, st)" using d by (cases "D b") auto
      then obtain i where "head_of F b i" using P(2) [of b q st] by blast
      ultimately have "i \<in> set (pend s')" using P(6) d by blast
      then show False using 2(2) by simp
    qed
    have "st = 0" if h: "D b = Some (q, st)" for b q st
    proof -
      obtain i where i: "head_of F b i" using P(2) [OF h] by blast
      from P(3) [OF i] nd [of b] h show ?thesis by simp
    qed
    then have "\<not> (\<exists>b q st. D b = Some (q, st) \<and> st \<noteq> 0)" by blast
    moreover have "\<exists>u. virtio_disk_intr s = Inr u \<and> (\<forall>b. D b \<noteq> None \<longrightarrow> \<not> buf_disk u b)" using 2(1) nd by blast
    ultimately show ?thesis by (simp only: if_False)
  qed
qed

text \<open>The rest of a request, after the wait.\<close>

lemma inv_finish_chains:
  assumes inv: "chains_inv s F Q" and b: "F b = Some c" and t: "busy t = busy s - nodes c"
    "\<And>j. j \<notin> nodes c \<Longrightarrow> desc t j = desc s j \<and> info_b t j = info_b s j"
  shows "chains_inv t (F(b := None)) Q"
proof -
  note I = chains_invD [OF inv]
  let ?F = "F(b := None)"
  have out: "nodes c' \<inter> nodes c = {}" if "?F b' = Some c'" for b' c'
    using I(2) [of b' c' b c] that b by (auto split: if_splits)
  show ?thesis
  proof (rule chains_invI)
    show "chain_ok t b' c' (Q b')" if h: "?F b' = Some c'" for b' c'
    proof -
      have "F b' = Some c'" using h by (simp split: if_splits)
      then show ?thesis by (rule chain_ok_cong [OF I(1)]) (use out [OF h] t(2) in blast)
    qed
    show "nodes c1 \<inter> nodes c2 = {}" if "?F b1 = Some c1" "?F b2 = Some c2" "b1 \<noteq> b2" for b1 b2 c1 c2
      using that I(2) [of b1 c1 b2 c2] by (auto split: if_splits)
    have "F = ?F(b := Some c)" using b by (simp add: fun_upd_idem)
    then have "ran F = insert c (ran ?F)" using ran_map_upd [of ?F b c] by simp
    then have "busy s = nodes c \<union> (\<Union>c \<in> ran ?F. nodes c)" using I(3) by simp
    moreover have "nodes c \<inter> nodes c' = {}" if h: "c' \<in> ran ?F" for c'
    proof -
      obtain b' where "?F b' = Some c'" using h unfolding ran_def by blast
      from out [OF this] show ?thesis by blast
    qed
    ultimately show "busy t = (\<Union>c \<in> ran ?F. nodes c)" unfolding t(1) by blast
  qed
qed

lemma inv_finish:
  assumes inv: "chains_inv s F Q" "places_inv s F Q D v W" and b: "F b = Some (i0, i1, i2)" and nd: "\<not> buf_disk s b"
  obtains s' where "rw_finish b i0 s = Inr (True, s')" "busy s' = busy s - {i0, i1, i2}"
    "chains_inv s' (F(b := None)) Q" "places_inv s' (F(b := None)) Q (D(b := None)) v W"
proof -
  note I = chains_invD [OF inv(1)] and P = places_invD [OF inv(2)]
  let ?c = "(i0, i1, i2)" let ?s = "s\<lparr>info_b := (info_b s)(i0 := None)\<rparr>" let ?F = "F(b := None)" let ?D = "D(b := None)"
  have bs: "busy ?s = busy s" by (simp add: busy_def)
  have cl: "chain_links ?s ?c" using I(1) [OF b] by (simp add: chain_ok_def chain_links_def)
  have nb: "nodes ?c \<subseteq> busy ?s" using I(4) [OF b] bs by simp
  obtain t where t: "free_chain i0 ?s = Inr t" "busy t = busy ?s - nodes ?c"
    "\<And>j. j \<notin> nodes ?c \<Longrightarrow> desc t j = desc ?s j" "same_rings ?s t"
    by (rule free_chain_ok [OF cl nb]) simp
  note E = t(4) [unfolded same_rings_def, simplified]
  have hb: "head_of F b i0" using b by (simp add: head_of_def)
  have d: "D b \<noteq> None" using P(3) [OF hb nd] by simp
  have p: "pend t = pend s" "offer v t = offer v s" using E by (simp_all add: pend_def npend_def offer_def noffer_def)
  show ?thesis
  proof (rule that)
    show "rw_finish b i0 s = Inr (True, t)" using t(1) nd by (simp add: rw_finish_def)
    show "busy t = busy s - {i0, i1, i2}" using t(2) bs by (simp add: nodes_def)
    show "chains_inv t ?F Q"
      by (rule inv_finish_chains [OF inv(1) b]) (use t(2,3) bs E in \<open>auto simp: nodes_def\<close>)
    show "places_inv t ?F Q ?D v W"
    proof (rule places_invI)
      show "q = Q b' \<and> (\<exists>i. head_of ?F b' i \<and> info_status t i = st)" if "?D b' = Some (q, st)" for b' q st
        using that P(1,2) [of b' q st] E by (auto simp: head_of_del split: if_splits)
      show "?D b' = Some (Q b', 0)" if "head_of ?F b' i" "\<not> buf_disk t b'" for b' i
        using that P(3) [of b' i] E by (simp add: head_of_del)
      have "head_of ?F b' i \<and> ?D b' \<noteq> None \<and> buf_disk t b' \<longleftrightarrow> head_of F b' i \<and> D b' \<noteq> None \<and> buf_disk s b'" for b' i
        using nd E by (auto simp: head_of_del)
      then show "set (pend t) = {i. \<exists>b'. head_of ?F b' i \<and> ?D b' \<noteq> None \<and> buf_disk t b'}" unfolding p P(6) by simp
      have "head_of ?F b' i \<and> ?D b' = None \<longleftrightarrow> head_of F b' i \<and> D b' = None" for b' i
        using d by (auto simp: head_of_del)
      then show "set (offer v t) \<union> W = {i. \<exists>b'. head_of ?F b' i \<and> ?D b' = None}" unfolding p P(9) by simp
    qed (use P(4,5,7,8,10,11) p E in simp_all)
  qed
qed

definition machine_inv :: "'a disk_machine \<Rightarrow> bool" where
  "machine_inv m \<longleftrightarrow> chains_inv (drv m) (flight m) (asked m) \<and>
     places_inv (drv m) (flight m) (asked m) (completed m) (dev_seen m) (dev_work m)"

lemma disk_step_inv:
  assumes "machine_inv m" and "disk_step m m'"
  shows "machine_inv m'"
  using assms(2,1)
proof (induction rule: disk_step.induct)
  case (submit m b blockno wr i s)
  have inv: "chains_inv (drv m) (flight m) (asked m)"
    "places_inv (drv m) (flight m) (asked m) (completed m) (dev_seen m) (dev_work m)"
    using submit(3) by (simp_all add: machine_inv_def)
  show ?case using inv_submit [OF inv submit(1,2)] by (simp add: machine_inv_def del: fun_upd_apply)
next
  case (wait_free b blockno wr m s)
  have "same_requests (drv m) s"
    using wait_free(1) by (cases b blockno wr "drv m" rule: rw_submit_cases) auto
  then show ?case using wait_free(2) same_requests_inv by (auto simp: machine_inv_def)
next
  case (take m)
  then show ?case using inv_take [OF _ take(1)] by (simp add: machine_inv_def)
next
  case (device i m q b k st)
  have inv: "chains_inv (drv m) (flight m) (asked m)"
    "places_inv (drv m) (flight m) (asked m) (completed m) (dev_seen m) (dev_work m)"
    using device(3) by (simp_all add: machine_inv_def)
  show ?case using inv_device [OF inv device(1,2)] by (simp add: machine_inv_def del: fun_upd_apply)
next
  case (intr m s)
  then have "intr_panics (drv m) (completed m) \<or>
      intr_returns (drv m) (flight m) (asked m) (completed m) (dev_seen m) (dev_work m)"
    using inv_intr unfolding machine_inv_def by blast
  then show ?case using intr(1) by (auto simp: machine_inv_def intr_panics_def intr_returns_def)
next
  case (wait_done m b i0 i1 i2 s)
  then have "same_requests (drv m) s"
    by (auto simp: rw_finish_def bindE_eq_Inr Let_def same_requests_def busy_def set_sleeping_def upd_proc_def split: if_splits)
  then show ?case using wait_done(3) same_requests_inv by (auto simp: machine_inv_def)
next
  case (finish m b i0 i1 i2 s)
  have inv: "chains_inv (drv m) (flight m) (asked m)"
    "places_inv (drv m) (flight m) (asked m) (completed m) (dev_seen m) (dev_work m)"
    using finish(3) by (simp_all add: machine_inv_def)
  have nd: "\<not> buf_disk (drv m) b" using finish(2) by (auto simp: rw_finish_def)
  obtain t where "rw_finish b i0 (drv m) = Inr (True, t)" "chains_inv t ((flight m)(b := None)) (asked m)"
    "places_inv t ((flight m)(b := None)) (asked m) ((completed m)(b := None)) (dev_seen m) (dev_work m)"
    by (rule inv_finish [OF inv finish(1) nd])
  then show ?case using finish(2) by (simp add: machine_inv_def del: fun_upd_apply)
qed

lemma disk_init_inv: "disk_init m \<Longrightarrow> machine_inv m"
  by (auto simp: disk_init_def machine_inv_def chains_inv_def places_inv_def pend_def npend_def offer_def noffer_def head_of_def NUM_def)

interpretation disk_driver: invariant_system disk_init disk_step machine_inv
  by unfold_locales (rule disk_init_inv, assumption, rule disk_step_inv)

text \<open>C27: The disk driver and the device agree on the requests. In every interleaving of processes that submit and finish requests, of
  the interrupt handler, and of a device that follows the available ring and completes what it has taken in any order and with
  any status: the descriptors in use are exactly those of the requests in flight, no two of which share one; from the head of
  such a chain the device reads the request that was asked for; a head is in the available ring, not yet taken, or with
  the device, in one of the two and only once, as long as its request is not completed, and nothing else is there. The handler
  panics when a completed request has a status other than zero, and otherwise returns with every completed buffer handed back to
  its process. A request whose buffer is no longer marked as owned by the disk has been completed as asked, with status
  zero, and finishing it returns and frees exactly its descriptors.\<close>

theorem disk_requests_disjoint:
  fixes m m' :: "'a disk_machine"
  assumes "disk_init m" and "disk_step\<^sup>*\<^sup>* m m'"
  shows "busy (drv m') = (\<Union>c \<in> ran (flight m'). nodes c) \<and>
    (\<forall>b b' c c'. flight m' b = Some c \<and> flight m' b' = Some c' \<and> b \<noteq> b' \<longrightarrow> nodes c \<inter> nodes c' = {}) \<and>
    (\<forall>b i0 i1 i2. flight m' b = Some (i0, i1, i2) \<longrightarrow> dev_request i0 (drv m') = Some (asked m' b, b, i0)) \<and>
    distinct (offer (dev_seen m') (drv m')) \<and> set (offer (dev_seen m') (drv m')) \<inter> dev_work m' = {} \<and>
    set (offer (dev_seen m') (drv m')) \<union> dev_work m' = {i. \<exists>b. head_of (flight m') b i \<and> completed m' b = None} \<and>
    (if \<exists>b q st. completed m' b = Some (q, st) \<and> st \<noteq> 0
     then virtio_disk_intr (drv m') = Inl (Panic ''virtio_disk_intr status'')
     else \<exists>s. virtio_disk_intr (drv m') = Inr s \<and> (\<forall>b. completed m' b \<noteq> None \<longrightarrow> \<not> buf_disk s b)) \<and>
    (\<forall>b i0 i1 i2. flight m' b = Some (i0, i1, i2) \<and> \<not> buf_disk (drv m') b \<longrightarrow>
       completed m' b = Some (asked m' b, 0) \<and>
       (\<exists>s. rw_finish b i0 (drv m') = Inr (True, s) \<and> busy s = busy (drv m') - {i0, i1, i2}))"
proof -
  have inv: "chains_inv (drv m') (flight m') (asked m')"
    "places_inv (drv m') (flight m') (asked m') (completed m') (dev_seen m') (dev_work m')"
    using disk_driver.reachable_inv [OF assms] by (simp_all add: machine_inv_def)
  note I = chains_invD [OF inv(1)] and P = places_invD [OF inv(2)]
  have f: "completed m' b = Some (asked m' b, 0) \<and> (\<exists>s. rw_finish b i0 (drv m') = Inr (True, s) \<and> busy s = busy (drv m') - {i0, i1, i2})"
    if "flight m' b = Some (i0, i1, i2)" "\<not> buf_disk (drv m') b" for b i0 i1 i2
    using inv_finish [OF inv that] P(3) [of b i0] that by (metis head_of_def)
  have r: "dev_request i0 (drv m') = Some (asked m' b, b, i0)" if "flight m' b = Some (i0, i1, i2)" for b i0 i1 i2
    using I(1) [OF that] by (rule dev_request_chain)
  show ?thesis
    by (intro conjI I(3) P(7,8,9) intr_outcome [OF inv]) (use I(2) r f in blast)+
qed

definition demo_disk_machine :: "unit disk_machine" where
  "demo_disk_machine = \<lparr>drv = pstate.extend (demo_machine demo_disk ())
       (vstate.fields (\<lambda>_. \<lparr>d_addr = VNull, d_len = 0, d_flags = 0, d_next = 0\<rparr>) (\<lambda>_. True) 0 (\<lambda>_. 0) 0 0 (\<lambda>_. 0) (\<lambda>_. None) (\<lambda>_. 0) (\<lambda>_. False)),
     flight = (\<lambda>_. None), asked = (\<lambda>_. (False, 0)), dev_seen = 0, dev_work = {}, completed = (\<lambda>_. None)\<rparr>"

theorem disk_requests_disjoint_witness:
  "\<exists>m'. disk_step\<^sup>*\<^sup>* demo_disk_machine m' \<and> flight m' 5 \<noteq> None \<and> busy (drv m') = (\<Union>c \<in> ran (flight m'). nodes c) \<and>
     distinct (offer (dev_seen m') (drv m'))"
proof -
  have z: "busy (drv demo_disk_machine) = {}" "flight demo_disk_machine = (\<lambda>_. None)"
    by (simp_all add: demo_disk_machine_def busy_def vstate.defs pstate.defs)
  have i: "disk_init demo_disk_machine"
    using z by (simp add: disk_init_def) (simp add: demo_disk_machine_def vstate.defs pstate.defs)
  obtain i0 s where r: "rw_submit 5 77 True (drv demo_disk_machine) = Inr (Some i0, s)"
  proof -
    have "desc_free (drv demo_disk_machine) = (\<lambda>_. True)" by (simp add: demo_disk_machine_def vstate.defs pstate.defs)
    moreover have "alloc_desc s = (if desc_free s 0 then (Some 0, s\<lparr>desc_free := (desc_free s)(0 := False)\<rparr>)
        else if desc_free s 1 then (Some 1, s\<lparr>desc_free := (desc_free s)(1 := False)\<rparr>)
        else if desc_free s 2 then (Some 2, s\<lparr>desc_free := (desc_free s)(2 := False)\<rparr>) else alloc_desc_from 5 3 s)" for s :: vstate
    proof -
      have n: "NUM = Suc (Suc (Suc 5))" by (simp add: NUM_def)
      show ?thesis unfolding alloc_desc_def n by (simp only: alloc_desc_from.simps One_nat_def numeral_2_eq_2 numeral_3_eq_3)
    qed
    ultimately obtain t where a: "alloc3_desc (drv demo_disk_machine) = Inr (Some (0, 1, 2), t)"
      by (simp add: alloc3_desc_def)
    have "rw_submit 5 77 True (drv demo_disk_machine) \<noteq> Inr (None, s)" for s
      unfolding rw_submit_def a Let_def by (simp only: bindE_Inr split option.simps sum.inject prod.inject) simp
    then show ?thesis using that by (cases "5 :: nat" "77 :: nat" True "drv demo_disk_machine" rule: rw_submit_cases) auto
  qed
  let ?m = "demo_disk_machine\<lparr>drv := s, flight := (flight demo_disk_machine)(5 := Some (chain_from i0 s)),
    asked := (asked demo_disk_machine)(5 := (True, u32 (77 * 2)))\<rparr>"
  have "disk_step demo_disk_machine ?m" by (rule disk_step.submit [OF _ r]) (simp add: z)
  then have run: "disk_step\<^sup>*\<^sup>* demo_disk_machine ?m" by (rule r_into_rtranclp)
  have f: "flight ?m 5 \<noteq> None" by simp
  note T = disk_requests_disjoint [OF i run]
  show ?thesis
    using run f T [THEN conjunct1] T [THEN conjunct2, THEN conjunct2, THEN conjunct2, THEN conjunct1] by (intro exI [of _ ?m] conjI)
qed

end
