(* ===== verification/Ulib.thy ===== *)
theory Ulib
  imports CStrings
begin

text \<open>
  The library of the user programs (\<^verbatim>\<open>FileSystem-RAID/user/ulib.c\<close>), loop by loop, on one
  memory with addresses into it. Loops that run to a terminating NUL are partial functions:
  \<open>None\<close> is a loop that does not end. \<open>cstring mem p xs\<close> says that the string at \<open>p\<close> is \<open>xs\<close>; the lemmas
  show that every routine returns on such strings, and what it returns. The loops of \<^verbatim>\<open>memmove\<close> are those of the
  kernel's routine, but the choice between them is not.
\<close>

section \<open>The routines\<close>

text \<open>\<^verbatim>\<open>strcpy\<close> returns its first argument; the model returns the memory.\<close>

partial_function (option) strcpy :: "bytes \<Rightarrow> nat \<Rightarrow> nat \<Rightarrow> bytes option" where
  "strcpy mem s t =
     (let mem' = mem(s := mem t) in
      if mem t = 0 then Some mem' else strcpy mem' (Suc s) (Suc t))"

partial_function (option) strcmp :: "bytes \<Rightarrow> nat \<Rightarrow> nat \<Rightarrow> int option" where
  "strcmp mem p q =
     (if mem p \<noteq> 0 \<and> mem p = mem q then strcmp mem (Suc p) (Suc q)
      else Some (int (unat (mem p)) - int (unat (mem q))))"

partial_function (option) strlen_u_from :: "bytes \<Rightarrow> nat \<Rightarrow> nat \<Rightarrow> nat option" where
  "strlen_u_from mem s n = (if mem (s + n) = 0 then Some n else strlen_u_from mem s (Suc n))"

definition strlen_u :: "bytes \<Rightarrow> nat \<Rightarrow> nat option" where
  "strlen_u mem s = strlen_u_from mem s 0"

function memset_u_from :: "bytes \<Rightarrow> nat \<Rightarrow> byte \<Rightarrow> nat \<Rightarrow> nat \<Rightarrow> bytes" where
  "memset_u_from mem dst c i n =
     (if i < n then memset_u_from (mem(dst + i := c)) dst c (Suc i) n else mem)"
  by pat_completeness auto
termination
  by (relation "measure (\<lambda>(mem, dst, c, i, n). n - i)") auto

declare memset_u_from.simps [simp del]

definition memset_u :: "bytes \<Rightarrow> nat \<Rightarrow> int \<Rightarrow> nat \<Rightarrow> bytes" where
  "memset_u mem dst c n = memset_u_from mem dst (of_int c) 0 n"

text \<open>The result of \<^verbatim>\<open>strchr\<close> is an address, 0 when the byte does not occur.\<close>

partial_function (option) strchr :: "bytes \<Rightarrow> nat \<Rightarrow> byte \<Rightarrow> nat option" where
  "strchr mem s c =
     (if mem s = 0 then Some 0 else if mem s = c then Some s else strchr mem (Suc s) c)"

text \<open>
  \<^verbatim>\<open>gets\<close> reads single bytes with \<^verbatim>\<open>read(0, &c, 1)\<close>. The bytes still to come are the list
  \<open>inp\<close>; when it is empty \<^verbatim>\<open>read\<close> returns less than 1. The result is the memory with the bytes left.
\<close>

fun gets_loop :: "bytes \<Rightarrow> nat \<Rightarrow> int \<Rightarrow> nat \<Rightarrow> byte list \<Rightarrow> bytes \<times> nat \<times> byte list" where
  "gets_loop mem buf m i [] = (mem, i, [])"
| "gets_loop mem buf m i (c # inp) =
     (if int i + 1 < m
      then (let mem' = mem(buf + i := c) in
            if c = 10 \<or> c = 13 then (mem', Suc i, inp)
            else gets_loop mem' buf m (Suc i) inp)
      else (mem, i, c # inp))"

definition gets :: "bytes \<Rightarrow> nat \<Rightarrow> int \<Rightarrow> byte list \<Rightarrow> bytes \<times> byte list" where
  "gets mem buf m inp =
     (case gets_loop mem buf m 0 inp of (mem', i, inp') \<Rightarrow> (mem'(buf + i := 0), inp'))"

text \<open>
  The accumulator of \<^verbatim>\<open>atoi\<close> is a signed 32-bit number. The machine's arithmetic wraps around, which is
  written out; the language leaves the overflow undefined.
\<close>

partial_function (option) atoi_from :: "bytes \<Rightarrow> nat \<Rightarrow> 32 word \<Rightarrow> int option" where
  "atoi_from mem s n =
     (if 48 \<le> mem s \<and> mem s \<le> 57
      then atoi_from mem (Suc s) (n * 10 + ucast (mem s) - 48)
      else Some (sint n))"

definition atoi :: "bytes \<Rightarrow> nat \<Rightarrow> int option" where
  "atoi mem s = atoi_from mem s 0"

definition memmove_u :: "bytes \<Rightarrow> nat \<Rightarrow> nat \<Rightarrow> int \<Rightarrow> bytes" where
  "memmove_u mem dst src n =
     (if n \<le> 0 then mem
      else if dst < src then memmove_up mem dst src (nat n)
      else memmove_down mem (dst + nat n) (src + nat n) (nat n))"

primrec memcmp_u :: "bytes \<Rightarrow> nat \<Rightarrow> nat \<Rightarrow> nat \<Rightarrow> int" where
  "memcmp_u mem p1 p2 0 = 0"
| "memcmp_u mem p1 p2 (Suc n) =
     (if mem p1 \<noteq> mem p2 then int (unat (mem p1)) - int (unat (mem p2))
      else memcmp_u mem (Suc p1) (Suc p2) n)"

text \<open>\<^verbatim>\<open>memcpy\<close> hands its unsigned length to \<^verbatim>\<open>memmove\<close>, whose length is signed.\<close>

definition memcpy_u :: "bytes \<Rightarrow> nat \<Rightarrow> nat \<Rightarrow> 32 word \<Rightarrow> bytes" where
  "memcpy_u mem dst src n = memmove_u mem dst src (sint n)"

section \<open>Strings in memory\<close>

primrec cstring :: "bytes \<Rightarrow> nat \<Rightarrow> byte list \<Rightarrow> bool" where
  "cstring mem p [] = (mem p = 0)"
| "cstring mem p (x # xs) = (mem p = x \<and> x \<noteq> 0 \<and> cstring mem (Suc p) xs)"

lemma cstring_iff:
  "cstring mem p xs \<longleftrightarrow>
     (\<forall>i<length xs. mem (p + i) = xs ! i \<and> xs ! i \<noteq> 0) \<and> mem (p + length xs) = 0"
proof (induction xs arbitrary: p)
  case Nil
  then show ?case by simp
next
  case (Cons x xs)
  show ?case
    using Cons.IH [of "Suc p"] by (auto simp: All_less_Suc2)
qed

lemma cstring_unique: "cstring mem p xs \<Longrightarrow> cstring mem p ys \<Longrightarrow> xs = ys"
proof (induction xs arbitrary: p ys)
  case Nil
  then show ?case by (cases ys) auto
next
  case (Cons x xs)
  then show ?case by (cases ys) auto
qed

lemma cstring_no_nul: "cstring mem p xs \<Longrightarrow> 0 \<notin> set xs"
  by (induction xs arbitrary: p) auto

lemma cstring_cong:
  "(\<And>i. i \<le> length xs \<Longrightarrow> mem (p + i) = mem' (p' + i)) \<Longrightarrow> cstring mem p xs = cstring mem' p' xs"
  by (auto simp: cstring_iff)

lemma cstring_append:
  "cstring mem p (xs @ ys) \<longleftrightarrow>
     (\<forall>i<length xs. mem (p + i) = xs ! i \<and> xs ! i \<noteq> 0) \<and> cstring mem (p + length xs) ys"
proof (induction xs arbitrary: p)
  case Nil
  then show ?case by simp
next
  case (Cons x xs)
  show ?case
    using Cons.IH [of "Suc p"] by (auto simp: All_less_Suc2)
qed

section \<open>The routines on strings\<close>

lemma strlen_u_from_eq:
  "cstring mem (s + n) xs \<Longrightarrow> strlen_u_from mem s n = Some (n + length xs)"
proof (induction xs arbitrary: n)
  case Nil
  then show ?case by (subst strlen_u_from.simps) simp
next
  case (Cons x xs)
  have "strlen_u_from mem s (Suc n) = Some (Suc n + length xs)"
    using Cons.prems by (intro Cons.IH) simp
  with Cons.prems show ?case by (subst strlen_u_from.simps) simp
qed

lemma strlen_u_cstring: "cstring mem s xs \<Longrightarrow> strlen_u mem s = Some (length xs)"
  using strlen_u_from_eq [of mem s 0 xs] by (simp add: strlen_u_def)

lemma strchr_cstring:
  "cstring mem s xs \<Longrightarrow> strchr mem s c =
     Some (if c \<in> set xs then s + length (takeWhile (\<lambda>x. x \<noteq> c) xs) else 0)"
proof (induction xs arbitrary: s)
  case Nil
  then show ?case by (subst strchr.simps) simp
next
  case (Cons x xs)
  have "strchr mem (Suc s) c =
      Some (if c \<in> set xs then Suc s + length (takeWhile (\<lambda>x. x \<noteq> c) xs) else 0)"
    using Cons.prems by (intro Cons.IH) simp
  with Cons.prems show ?case by (subst strchr.simps) auto
qed

text \<open>\<^verbatim>\<open>strcmp\<close> orders the strings as their bytes are ordered, with a proper prefix first.\<close>

primrec byte_cmp :: "byte list \<Rightarrow> byte list \<Rightarrow> int" where
  "byte_cmp [] ys = (case ys of [] \<Rightarrow> 0 | y # _ \<Rightarrow> - int (unat y))"
| "byte_cmp (x # xs) ys =
     (case ys of [] \<Rightarrow> int (unat x)
      | y # ys \<Rightarrow> if x = y then byte_cmp xs ys else int (unat x) - int (unat y))"

lemma strcmp_cstring:
  "cstring mem p xs \<Longrightarrow> cstring mem q ys \<Longrightarrow> strcmp mem p q = Some (byte_cmp xs ys)"
proof (induction xs arbitrary: p q ys)
  case Nil
  then show ?case by (subst strcmp.simps) (cases ys; auto)
next
  case (Cons x xs)
  show ?case
  proof (cases ys)
    case Nil
    with Cons.prems show ?thesis by (subst strcmp.simps) auto
  next
    case (Cons y zs)
    show ?thesis
    proof (cases "x = y")
      case True
      have "strcmp mem (Suc p) (Suc q) = Some (byte_cmp xs zs)"
        using Cons Cons.prems by (intro Cons.IH) auto
      with True Cons Cons.prems show ?thesis by (subst strcmp.simps) auto
    next
      case False
      with Cons Cons.prems show ?thesis by (subst strcmp.simps) auto
    qed
  qed
qed

lemma uint_pos_iff: "0 < uint (x :: byte) \<longleftrightarrow> x \<noteq> 0"
  by (simp add: order_less_le uint_0_iff)

lemma byte_cmp_eq_0_iff:
  "0 \<notin> set xs \<Longrightarrow> 0 \<notin> set ys \<Longrightarrow> byte_cmp xs ys = 0 \<longleftrightarrow> xs = ys"
proof (induction xs arbitrary: ys)
  case Nil
  then show ?case by (cases ys) (auto simp: uint_0_iff)
next
  case (Cons x xs)
  then show ?case by (cases ys) (auto simp: uint_0_iff)
qed

lemma byte_cmp_less_0_iff:
  "0 \<notin> set xs \<Longrightarrow> 0 \<notin> set ys \<Longrightarrow> byte_cmp xs ys < 0 \<longleftrightarrow> (xs, ys) \<in> lexord {(x, y). x < y}"
proof (induction xs arbitrary: ys)
  case Nil
  then show ?case by (cases ys) (auto simp: uint_pos_iff)
next
  case (Cons x xs)
  then show ?case
    by (cases ys) (auto simp: word_less_def uint_pos_iff)
qed

text \<open>Digits, most significant first.\<close>

definition digit_value :: "byte \<Rightarrow> nat" where
  "digit_value c = unat c - 48"

primrec dec_value :: "nat \<Rightarrow> byte list \<Rightarrow> nat" where
  "dec_value n [] = n"
| "dec_value n (c # cs) = dec_value (n * 10 + digit_value c) cs"

definition is_digit :: "byte \<Rightarrow> bool" where
  "is_digit c \<longleftrightarrow> 48 \<le> c \<and> c \<le> 57"

lemma digit_step:
  "is_digit c \<Longrightarrow> (of_nat n :: 32 word) * 10 + ucast c - 48 = of_nat (n * 10 + digit_value c)"
proof -
  assume "is_digit c"
  then have "48 \<le> unat c" by (simp add: is_digit_def word_le_nat_alt)
  then have "n * 10 + digit_value c + 48 = n * 10 + unat c" by (simp add: digit_value_def)
  then have "(of_nat (n * 10 + digit_value c) :: 32 word) + 48 = of_nat n * 10 + of_nat (unat c)"
    by (metis of_nat_add of_nat_mult of_nat_numeral)
  then show ?thesis by (simp add: diff_eq_eq)
qed

lemma atoi_from_eq:
  assumes "\<forall>c\<in>set ds. is_digit c" and "\<forall>i<length ds. mem (s + i) = ds ! i"
    and "\<not> is_digit (mem (s + length ds))"
  shows "atoi_from mem s (of_nat n) = Some (sint (of_nat (dec_value n ds) :: 32 word))"
  using assms
proof (induction ds arbitrary: s n)
  case Nil
  then show ?case by (subst atoi_from.simps) (auto simp: is_digit_def)
next
  case (Cons d ds)
  have "atoi_from mem (Suc s) (of_nat (n * 10 + digit_value d))
      = Some (sint (of_nat (dec_value (n * 10 + digit_value d) ds) :: 32 word))"
    using Cons.prems by (intro Cons.IH) (auto simp: All_less_Suc2)
  moreover have "mem s = d" "is_digit d" using Cons.prems by auto
  ultimately show ?case
    by (subst atoi_from.simps) (simp add: digit_step is_digit_def del: of_nat_add of_nat_mult)
qed

section \<open>Copying\<close>

text \<open>
  \<^verbatim>\<open>strcpy\<close> may overlap only if the destination does not start inside the string. Then it
  returns, copies the string with its NUL, and changes nothing else.
\<close>

lemma strcpy_eq_blit:
  assumes "cstring mem t xs" and "s \<le> t \<or> t + length xs < s"
  shows "strcpy mem s t = Some (blit mem s mem t (Suc (length xs)))"
  using assms
proof (induction xs arbitrary: mem s t)
  case Nil
  then show ?case
    by (subst strcpy.simps) (auto simp: Let_def blit_def fun_eq_iff)
next
  case (Cons x xs)
  let ?m = "mem(s := mem t)"
  have "cstring ?m (Suc t) xs \<longleftrightarrow> cstring mem (Suc t) xs"
    using Cons.prems(2) by (intro cstring_cong) auto
  then have "strcpy ?m (Suc s) (Suc t) = Some (blit ?m (Suc s) ?m (Suc t) (Suc (length xs)))"
    using Cons.prems by (intro Cons.IH) (auto simp del: fun_upd_apply)
  also have "blit ?m (Suc s) ?m (Suc t) (Suc (length xs)) = blit mem s mem t (Suc (Suc (length xs)))"
    using Cons.prems(2) by (intro blit_step) auto
  finally show ?case using Cons.prems by (subst strcpy.simps) (simp add: Let_def del: fun_upd_apply)
qed

lemma strcpy_cstring:
  assumes "cstring mem t xs" and "s \<le> t \<or> t + length xs < s"
  obtains mem' where "strcpy mem s t = Some mem'" and "cstring mem' s xs"
    and "\<And>a. a < s \<or> s + length xs < a \<Longrightarrow> mem' a = mem a"
proof -
  let ?m = "blit mem s mem t (Suc (length xs))"
  have "cstring ?m s xs = cstring mem t xs"
    by (intro cstring_cong) simp
  with assms show ?thesis
    by (intro that [of ?m] strcpy_eq_blit) auto
qed

lemma memmove_u_eq_blit: "memmove_u mem dst src n = blit mem dst mem src (nat n)"
proof (cases "dst = src")
  case True
  have "memmove_down mem (src + k) (src + k) k = mem" for k
    by (induction k) (simp_all add: Let_def)
  then show ?thesis using True
    by (auto simp: memmove_u_def blit_def fun_eq_iff)
next
  case False
  then show ?thesis
    by (auto simp: memmove_u_def memmove_up_eq memmove_down_eq blit_def fun_eq_iff)
qed

lemma memset_u_eq: "memset_u mem dst c n = fill_bytes mem dst (of_int c) n"
proof -
  have "memset_u_from mem dst b i n = memset_from mem dst b i n" for b i
  proof (induction mem dst b i n rule: memset_from.induct)
    case (1 mem dst c i n)
    then show ?case by (subst memset_u_from.simps, subst memset_from.simps) (simp del: fun_upd_apply)
  qed
  then show ?thesis by (simp add: memset_u_def memset_from_eq)
qed

lemma memcmp_u_eq_memcmp: "memcmp_u mem p q n = memcmp mem p q n"
  by (induction n arbitrary: p q) simp_all

section \<open>Reading a line\<close>

text \<open>The bytes that \<^verbatim>\<open>gets\<close> takes: up to and with the first line end, at most \<open>m - 1\<close> of them.\<close>

fun line_of :: "nat \<Rightarrow> byte list \<Rightarrow> byte list" where
  "line_of 0 inp = []"
| "line_of (Suc k) [] = []"
| "line_of (Suc k) (c # inp) = (if c = 10 \<or> c = 13 then [c] else c # line_of k inp)"

lemma line_of_prefix: "inp = line_of k inp @ drop (length (line_of k inp)) inp"
  by (induction k inp rule: line_of.induct) auto

lemma length_line_of: "length (line_of k inp) \<le> k"
  by (induction k inp rule: line_of.induct) auto

lemma line_of_butlast: "\<forall>c\<in>set (butlast (line_of k inp)). c \<noteq> 10 \<and> c \<noteq> 13"
proof (induction k inp rule: line_of.induct)
  case (3 k c inp)
  then show ?case by (cases "c = 10 \<or> c = 13") simp_all
qed simp_all

lemma line_of_end:
  "line_of k inp = [] \<or> last (line_of k inp) \<noteq> 10 \<and> last (line_of k inp) \<noteq> 13 \<Longrightarrow>
     length (line_of k inp) = k \<or> drop (length (line_of k inp)) inp = []"
  by (induction k inp rule: line_of.induct) (auto split: if_splits)

lemma gets_loop_eq:
  "gets_loop mem buf m i inp =
     (let l = line_of (nat (m - 1 - int i)) inp
      in (blit mem (buf + i) (bytes_of_list l) 0 (length l), i + length l, drop (length l) inp))"
proof (induction mem buf m i inp rule: gets_loop.induct)
  case (1 mem buf m i)
  then show ?case by (cases "nat (m - 1 - int i)") (auto simp: blit_def fun_eq_iff)
next
  case (2 mem buf m i c inp)
  show ?case
  proof (cases "int i + 1 < m")
    case False
    then show ?thesis by (auto simp: Let_def blit_def fun_eq_iff)
  next
    case True
    then have k: "nat (m - 1 - int i) = Suc (nat (m - 1 - int (Suc i)))" by simp
    let ?l = "line_of (nat (m - 1 - int (Suc i))) inp"
    have b: "blit (mem(buf + i := c)) (buf + Suc i) (bytes_of_list ?l) 0 (length ?l)
        = blit mem (buf + i) (bytes_of_list (c # ?l)) 0 (length (c # ?l))"
      by (auto simp: blit_def fun_eq_iff bytes_of_list_def nth_Cons' Suc_le_eq)
    show ?thesis
    proof (cases "c = 10 \<or> c = 13")
      case True
      with k \<open>int i + 1 < m\<close> show ?thesis
        by (auto simp: Let_def blit_def fun_eq_iff bytes_of_list_def)
    next
      case False
      have "gets_loop (mem(buf + i := c)) buf m (Suc i) inp =
          (blit (mem(buf + i := c)) (buf + Suc i) (bytes_of_list ?l) 0 (length ?l),
           Suc i + length ?l, drop (length ?l) inp)"
        using "2.IH" [OF \<open>int i + 1 < m\<close> refl False] by (simp only: Let_def)
      with False b k \<open>int i + 1 < m\<close> show ?thesis by (simp add: Let_def)
    qed
  qed
qed

lemma gets_eq:
  "gets mem buf m inp =
     (let l = line_of (nat (m - 1)) inp
      in ((blit mem buf (bytes_of_list l) 0 (length l))(buf + length l := 0), drop (length l) inp))"
  by (simp add: gets_def gets_loop_eq Let_def)

section \<open>Properties\<close>

text \<open>
  On two strings in memory \<^verbatim>\<open>strcmp\<close> returns; its result is 0 exactly for equal
  strings and negative exactly when the first comes before the second in the lexicographic order of
  unsigned bytes.
\<close>

theorem strcmp_orders:
  assumes "cstring mem p xs" and "cstring mem q ys"
  shows "\<exists>r. strcmp mem p q = Some r \<and> (r = 0 \<longleftrightarrow> xs = ys) \<and>
    (r < 0 \<longleftrightarrow> (xs, ys) \<in> lexord {(x, y). x < y})"
  using strcmp_cstring [OF assms] assms [THEN cstring_no_nul]
  by (simp add: byte_cmp_eq_0_iff byte_cmp_less_0_iff)

theorem strcmp_orders_witness:
  "\<exists>r. strcmp (bytes_of_list (str ''ab'' @ [0] @ str ''abc'' @ [0])) 0 3 = Some r \<and> (r = 0 \<longleftrightarrow> str ''ab'' = str ''abc'') \<and>
    (r < 0 \<longleftrightarrow> (str ''ab'', str ''abc'') \<in> lexord {(x, y). x < y})"
  by (rule strcmp_orders) (simp_all add: bytes_of_list_def str_def)

text \<open>
  \<^verbatim>\<open>gets\<close> leaves a string in its buffer: the input up to the first line end, cut at \<open>max - 1\<close> bytes,
  when the input holds no NUL. No byte outside the buffer is written, and the bytes taken from the
  input are exactly those of the string.
\<close>

theorem gets_line:
  assumes "0 < m" and "0 \<notin> set inp" and "gets mem buf m inp = (mem', inp')"
  shows "\<exists>l. cstring mem' buf l \<and> inp = l @ inp' \<and> int (length l) < m
    \<and> (\<forall>c\<in>set (butlast l). c \<noteq> 10 \<and> c \<noteq> 13)
    \<and> (l \<noteq> [] \<and> (last l = 10 \<or> last l = 13) \<or> int (length l) = m - 1 \<or> inp' = [])
    \<and> (\<forall>a. a < buf \<or> buf + nat m \<le> a \<longrightarrow> mem' a = mem a)"
proof (intro exI conjI)
  define l where "l = line_of (nat (m - 1)) inp"
  have res: "mem' = (blit mem buf (bytes_of_list l) 0 (length l))(buf + length l := 0)"
    "inp' = drop (length l) inp"
    using assms(3) by (simp_all add: gets_eq Let_def l_def)
  have "inp = l @ drop (length l) inp" unfolding l_def by (rule line_of_prefix)
  then have "set l \<subseteq> set inp" by (metis set_append Un_upper1)
  then have "l ! i \<noteq> 0" if "i < length l" for i
    using assms(2) that nth_mem by fastforce
  then show "cstring mem' buf l"
    by (auto simp: cstring_iff res blit_def bytes_of_list_def)
  show "inp = l @ inp'" unfolding res l_def by (rule line_of_prefix)
  have len: "length l \<le> nat (m - 1)" unfolding l_def by (rule length_line_of)
  with assms(1) show "int (length l) < m" by linarith
  show "\<forall>a. a < buf \<or> buf + nat m \<le> a \<longrightarrow> mem' a = mem a"
    using len assms(1) by (auto simp: res blit_def)
  show "\<forall>c\<in>set (butlast l). c \<noteq> 10 \<and> c \<noteq> 13" unfolding l_def by (rule line_of_butlast)
  have "l = [] \<or> last l \<noteq> 10 \<and> last l \<noteq> 13 \<Longrightarrow> length l = nat (m - 1) \<or> drop (length l) inp = []"
    unfolding l_def by (rule line_of_end)
  then show "l \<noteq> [] \<and> (last l = 10 \<or> last l = 13) \<or> int (length l) = m - 1 \<or> inp' = []"
    using assms(1) unfolding res by fastforce
qed

theorem gets_line_witness:
  "\<exists>l. cstring (fst (gets (\<lambda>_. 7) 3 5 [97, 10, 98])) 3 l \<and> [97, 10, 98] = l @ [98] \<and> int (length l) < 5
    \<and> (\<forall>c\<in>set (butlast l). c \<noteq> 10 \<and> c \<noteq> 13)
    \<and> (l \<noteq> [] \<and> (last l = 10 \<or> last l = 13) \<or> int (length l) = 5 - 1 \<or> [98 :: byte] = [])
    \<and> (\<forall>a. a < 3 \<or> 3 + nat 5 \<le> a \<longrightarrow> fst (gets (\<lambda>_. 7) 3 5 [97, 10, 98]) a = 7)"
  by (rule gets_line [where mem = "\<lambda>_. 7"]) (simp_all add: gets_def)

text \<open>
  A copy with \<^verbatim>\<open>memmove\<close> is that of the old contents, whatever the overlap; \<^verbatim>\<open>memcpy\<close>
  of \<open>2 ^ 31\<close> bytes or more copies nothing, as its length becomes negative.
\<close>

theorem memcpy_u_eq:
  "memcpy_u mem dst src n = (if unat n < 2 ^ 31 then blit mem dst mem src (unat n) else mem)"
proof -
  define k where "k = unat n"
  have n: "n = of_nat k" by (simp add: k_def)
  have "k < 4294967296" using unsigned_less [of n] by (simp add: k_def)
  show ?thesis
  proof (cases "k < 2147483648")
    case True
    then have "sint n = int k"
      unfolding n by (simp add: signed_of_nat signed_take_bit_int_eq_self)
    with True show ?thesis by (simp add: memcpy_u_def memmove_u_eq_blit k_def)
  next
    case False
    with \<open>k < 4294967296\<close> have "k div 2147483648 = 1"
      by (intro div_nat_eqI) simp_all
    then have "int k div 2147483648 = 1" using zdiv_int [of k 2147483648] by simp
    then have "signed_take_bit 31 (int k) < 0" by (simp add: bit_iff_odd)
    then have "sint n < 0" unfolding n by (simp add: signed_of_nat)
    with False show ?thesis by (simp add: memcpy_u_def memmove_u_def k_def)
  qed
qed

text \<open>
  \<^verbatim>\<open>atoi\<close> returns the number that the leading digits of the string denote, if it is below
  \<open>2 ^ 31\<close>.
\<close>

theorem atoi_value:
  assumes "cstring mem s (ds @ xs)" and "\<forall>c\<in>set ds. is_digit c" and "xs = [] \<or> \<not> is_digit (hd xs)"
    and "dec_value 0 ds < 2 ^ 31"
  shows "atoi mem s = Some (int (dec_value 0 ds))"
proof -
  have "\<forall>i<length ds. mem (s + i) = ds ! i" "cstring mem (s + length ds) xs"
    using assms(1) by (simp_all add: cstring_append)
  moreover from this(2) assms(3) have "\<not> is_digit (mem (s + length ds))"
    by (cases xs) (auto simp: is_digit_def)
  ultimately have "atoi_from mem s (of_nat 0) = Some (sint (of_nat (dec_value 0 ds) :: 32 word))"
    using assms(2) by (intro atoi_from_eq)
  moreover have "sint (of_nat (dec_value 0 ds) :: 32 word) = int (dec_value 0 ds)"
    using assms(4) by (simp add: signed_of_nat signed_take_bit_int_eq_self)
  ultimately show ?thesis by (simp add: atoi_def)
qed

end
