(* ===== verification/Grep.thy ===== *)
theory Grep
  imports Prelude
begin

text \<open>
  The search program (\<^verbatim>\<open>FileSystem-RAID/user/grep.c\<close>). A NUL-terminated string is the list
  of its characters, the end of the list being the NUL. The matcher is shown to decide the
  pattern language its comments describe, given as a set of words. The reading loop is shown to
  print the matching lines of its input however the input is cut into reads, as long as no line is
  too long for the buffer.
\<close>

section \<open>The matcher\<close>

text \<open>The three routines call each other; the loop of \<^verbatim>\<open>matchstar\<close> is its recursion on the text.\<close>

function matchhere :: "string \<Rightarrow> string \<Rightarrow> bool"
  and matchstar :: "char \<Rightarrow> string \<Rightarrow> string \<Rightarrow> bool" where
  "matchhere re s =
     (case re of
        [] \<Rightarrow> True
      | c # re' \<Rightarrow>
          if re' \<noteq> [] \<and> hd re' = CHR ''*'' then matchstar c (tl re') s
          else if c = CHR ''$'' \<and> re' = [] then s = []
          else if s \<noteq> [] \<and> (c = CHR ''.'' \<or> c = hd s) then matchhere re' (tl s)
          else False)"
| "matchstar c re s =
     (if matchhere re s then True
      else if s \<noteq> [] \<and> (hd s = c \<or> c = CHR ''.'') then matchstar c re (tl s)
      else False)"
  by pat_completeness auto
termination
  by (relation "measure (\<lambda>x. case x of
        Inl (re, s) \<Rightarrow> 2 * length re + 2 * length s
      | Inr (c, re, s) \<Rightarrow> 2 * length re + 2 * length s + 1)")
    (auto simp: neq_Nil_conv)

declare matchhere.simps [simp del] matchstar.simps [simp del]

text \<open>The \<^verbatim>\<open>do\<close> loop of \<^verbatim>\<open>match\<close> looks at every suffix of the text, the empty one included.\<close>

fun match_from :: "string \<Rightarrow> string \<Rightarrow> bool" where
  "match_from re [] = matchhere re []"
| "match_from re (x # s) = (if matchhere re (x # s) then True else match_from re s)"

definition match :: "string \<Rightarrow> string \<Rightarrow> bool" where
  "match re s =
     (if re \<noteq> [] \<and> hd re = CHR ''^'' then matchhere (tl re) s else match_from re s)"

section \<open>The loop over the input\<close>

text \<open>
  \<open>strchr_pos\<close> is the offset at which \<^verbatim>\<open>strchr\<close> stops; it does not look past a NUL. The inner loop of \<^verbatim>\<open>grep\<close> takes the lines off
  the buffer: its result is what it writes and the bytes that remain from \<^verbatim>\<open>p\<close> on.
\<close>

primrec strchr_pos :: "string \<Rightarrow> char \<Rightarrow> nat option" where
  "strchr_pos [] c = None"
| "strchr_pos (x # xs) c =
     (if x = CHR 0x00 then None else if x = c then Some 0 else map_option Suc (strchr_pos xs c))"

function grep_lines :: "string \<Rightarrow> string \<Rightarrow> string \<times> string" where
  "grep_lines pattern p =
     (case strchr_pos p (CHR 0x0A) of
        None \<Rightarrow> ([], p)
      | Some q \<Rightarrow>
          let out = (if match pattern (take q p) then take (q + 1) p else []);
              (outs, rest) = grep_lines pattern (drop (q + 1) p)
          in (out @ outs, rest))"
  by pat_completeness auto
termination
proof (relation "measure (\<lambda>(pattern, p). length p)")
  fix pattern p q
  assume "strchr_pos p (CHR 0x0A) = Some q"
  then have "p \<noteq> []" by auto
  then show "((pattern, drop (q + 1) p), pattern, p) \<in> measure (\<lambda>(pattern, p). length p)"
    by simp
qed simp

declare grep_lines.simps [simp del]

text \<open>
  \<^verbatim>\<open>read\<close> returns at most the number of bytes asked for, and at least one when both that
  number and the input are not empty; a device may return fewer than a file would. \<open>lim i\<close> bounds the \<open>i\<close>-th read. \<open>buf\<close> holds the
  \<open>m\<close> bytes kept from the reads before, the output is returned.
\<close>

definition BUFSZ :: nat where "BUFSZ = 1024"

definition read_len :: "(nat \<Rightarrow> nat) \<Rightarrow> nat \<Rightarrow> nat \<Rightarrow> string \<Rightarrow> nat" where
  "read_len lim i k inp = min k (min (Suc (lim i)) (length inp))"

function grep :: "(nat \<Rightarrow> nat) \<Rightarrow> nat \<Rightarrow> string \<Rightarrow> string \<Rightarrow> string \<Rightarrow> string" where
  "grep lim i pattern buf inp =
     (let n = read_len lim i (BUFSZ - length buf - 1) inp in
      if n = 0 then []
      else let (out, rest) = grep_lines pattern (buf @ take n inp)
           in out @ grep lim (Suc i) pattern rest (drop n inp))"
  by pat_completeness auto
termination
  by (relation "measure (\<lambda>(lim, i, pattern, buf, inp). length inp)") (auto simp: read_len_def)

declare grep.simps [simp del]

section \<open>The pattern language\<close>

datatype atom = AnyChar | Only char

datatype item = One atom | Many atom

fun atom_ok :: "atom \<Rightarrow> char \<Rightarrow> bool" where
  "atom_ok AnyChar x = True"
| "atom_ok (Only c) x = (x = c)"

definition atom_of :: "char \<Rightarrow> atom" where
  "atom_of c = (if c = CHR ''.'' then AnyChar else Only c)"

text \<open>
  A pattern is a list of items and whether it must end at the end of the text. A star
  applies to the character before it, whatever that is; a dollar sign is special only as the last character.
\<close>

fun items_of :: "string \<Rightarrow> item list \<times> bool" where
  "items_of [] = ([], False)"
| "items_of [c] = (if c = CHR ''$'' then ([], True) else ([One (atom_of c)], False))"
| "items_of (c # d # re) =
     (if d = CHR ''*'' then (case items_of re of (its, e) \<Rightarrow> (Many (atom_of c) # its, e))
      else (case items_of (d # re) of (its, e) \<Rightarrow> (One (atom_of c) # its, e)))"

primrec item_lang :: "item \<Rightarrow> string set" where
  "item_lang (One a) = {[x] | x. atom_ok a x}"
| "item_lang (Many a) = {xs. \<forall>x\<in>set xs. atom_ok a x}"

primrec lang :: "item list \<Rightarrow> string set" where
  "lang [] = {[]}"
| "lang (it # its) = {u @ v | u v. u \<in> item_lang it \<and> v \<in> lang its}"

definition accepts :: "item list \<Rightarrow> bool \<Rightarrow> string \<Rightarrow> bool" where
  "accepts its e s \<longleftrightarrow> (\<exists>u v. s = u @ v \<and> u \<in> lang its \<and> (e \<longrightarrow> v = []))"

definition spec_here :: "string \<Rightarrow> string \<Rightarrow> bool" where
  "spec_here re s = (case items_of re of (its, e) \<Rightarrow> accepts its e s)"

lemma accepts_Cons:
  "accepts (it # its) e s \<longleftrightarrow> (\<exists>u r. s = u @ r \<and> u \<in> item_lang it \<and> accepts its e r)"
proof
  assume "accepts (it # its) e s"
  then obtain u w v where "s = (u @ w) @ v" "u \<in> item_lang it" "w \<in> lang its" "e \<longrightarrow> v = []"
    unfolding accepts_def lang.simps by blast
  then show "\<exists>u r. s = u @ r \<and> u \<in> item_lang it \<and> accepts its e r"
    unfolding accepts_def by (intro exI [of _ u] exI [of _ "w @ v"]) auto
next
  assume "\<exists>u r. s = u @ r \<and> u \<in> item_lang it \<and> accepts its e r"
  then obtain u w v where "s = u @ w @ v" "u \<in> item_lang it" "w \<in> lang its" "e \<longrightarrow> v = []"
    unfolding accepts_def by blast
  then show "accepts (it # its) e s"
    unfolding accepts_def lang.simps by (intro exI [of _ "u @ w"] exI [of _ v]) auto
qed

lemma accepts_One:
  "accepts (One a # its) e s \<longleftrightarrow> s \<noteq> [] \<and> atom_ok a (hd s) \<and> accepts its e (tl s)"
proof (cases s)
  case Nil
  then show ?thesis by (auto simp: accepts_Cons)
next
  case (Cons x s')
  have "x # s' = u @ r \<and> u \<in> {[x] | x. atom_ok a x} \<longleftrightarrow> u = [x] \<and> r = s' \<and> atom_ok a x" for u r
    by auto
  then show ?thesis unfolding accepts_Cons item_lang.simps Cons by auto
qed

lemma accepts_Many:
  "accepts (Many a # its) e s \<longleftrightarrow>
     accepts its e s \<or> s \<noteq> [] \<and> atom_ok a (hd s) \<and> accepts (Many a # its) e (tl s)"
proof -
  have iff: "accepts (Many a # its) e t \<longleftrightarrow> (\<exists>u r. t = u @ r \<and> (\<forall>x\<in>set u. atom_ok a x) \<and> accepts its e r)" for t
    by (simp add: accepts_Cons)
  have "(\<exists>u r. s = u @ r \<and> (\<forall>x\<in>set u. atom_ok a x) \<and> accepts its e r) \<longleftrightarrow>
      accepts its e s \<or>
      s \<noteq> [] \<and> atom_ok a (hd s) \<and> (\<exists>u r. tl s = u @ r \<and> (\<forall>x\<in>set u. atom_ok a x) \<and> accepts its e r)"
    (is "?l \<longleftrightarrow> ?r")
  proof
    assume ?l
    then obtain u r where u: "s = u @ r" "\<forall>x\<in>set u. atom_ok a x" "accepts its e r" by blast
    then show ?r by (cases u) auto
  next
    assume ?r
    then show ?l
    proof
      assume "accepts its e s"
      then show ?l by (intro exI [of _ "[]"] exI [of _ s]) simp
    next
      assume h: "s \<noteq> [] \<and> atom_ok a (hd s) \<and> (\<exists>u r. tl s = u @ r \<and> (\<forall>x\<in>set u. atom_ok a x) \<and> accepts its e r)"
      then obtain u r where "tl s = u @ r" "\<forall>x\<in>set u. atom_ok a x" "accepts its e r" by blast
      with h show ?l by (intro exI [of _ "hd s # u"] exI [of _ r]) (cases s; simp)
    qed
  qed
  then show ?thesis by (simp only: iff)
qed

lemma spec_here_Nil: "spec_here [] s"
  by (simp add: spec_here_def accepts_def)

lemma spec_here_dollar: "spec_here ''$'' s \<longleftrightarrow> s = []"
  by (simp add: spec_here_def accepts_def)

lemma atom_of_ok: "atom_ok (atom_of c) x \<longleftrightarrow> c = CHR ''.'' \<or> c = x"
  by (auto simp: atom_of_def)

lemma spec_here_One:
  assumes "\<not> (re' \<noteq> [] \<and> hd re' = CHR ''*'')" and "\<not> (c = CHR ''$'' \<and> re' = [])"
  shows "spec_here (c # re') s \<longleftrightarrow>
    s \<noteq> [] \<and> (c = CHR ''.'' \<or> c = hd s) \<and> spec_here re' (tl s)"
  using assms by (cases re') (auto simp: spec_here_def accepts_One atom_of_ok split: prod.splits)

lemma spec_here_Many:
  "spec_here (c # CHR ''*'' # re') s \<longleftrightarrow>
     spec_here re' s \<or>
     s \<noteq> [] \<and> (hd s = c \<or> c = CHR ''.'') \<and> spec_here (c # CHR ''*'' # re') (tl s)"
proof -
  obtain its e where "items_of re' = (its, e)" by (cases "items_of re'")
  then show ?thesis
    using accepts_Many [of "atom_of c" its e s] by (auto simp: spec_here_def atom_of_ok)
qed

lemma matchhere_iff: "matchhere re s = spec_here re s"
  and matchstar_iff: "matchstar c re s = spec_here (c # CHR ''*'' # re) s"
proof (induction re s and c re s rule: matchhere_matchstar.induct)
  case (1 re s)
  show ?case
  proof (cases re)
    case Nil
    then show ?thesis by (subst matchhere.simps) (simp add: spec_here_Nil)
  next
    case (Cons c re')
    show ?thesis
    proof (cases "re' \<noteq> [] \<and> hd re' = CHR ''*''")
      case True
      then obtain r where r: "re' = CHR ''*'' # r" by (cases re') auto
      with 1(1) [OF Cons True] Cons show ?thesis by (subst matchhere.simps) simp
    next
      case False
      note nostar = this
      show ?thesis
      proof (cases "c = CHR ''$'' \<and> re' = []")
        case True
        then show ?thesis using Cons by (subst matchhere.simps) (simp add: spec_here_dollar)
      next
        case False
        note * = spec_here_One [OF nostar False, of s]
        show ?thesis
        proof (cases "s \<noteq> [] \<and> (c = CHR ''.'' \<or> c = hd s)")
          case True
          from 1(2) [OF Cons nostar False True] * True nostar False Cons show ?thesis
            by (subst matchhere.simps) auto
        next
          case False
          with * nostar \<open>\<not> (c = CHR ''$'' \<and> re' = [])\<close> Cons show ?thesis by (subst matchhere.simps) auto
        qed
      qed
    qed
  qed
next
  case (2 c re s)
  show ?case
    by (subst matchstar.simps, subst spec_here_Many) (auto simp: 2)
qed

lemma match_from_iff: "match_from re s \<longleftrightarrow> (\<exists>w t. s = w @ t \<and> matchhere re t)"
proof (induction s)
  case Nil
  then show ?case by simp
next
  case (Cons x s)
  then show ?case
    by (auto simp: Cons_eq_append_conv)
qed

section \<open>Lines\<close>

text \<open>The complete lines of a text, without their newlines, and what follows the last newline.\<close>

abbreviation NL :: char where "NL \<equiv> CHR 0x0A"

fun split_lines :: "string \<Rightarrow> string list \<times> string" where
  "split_lines [] = ([], [])"
| "split_lines (x # xs) =
     (case split_lines xs of (ls, r) \<Rightarrow>
        if x = NL then ([] # ls, r)
        else case ls of [] \<Rightarrow> ([], x # r) | l # ls' \<Rightarrow> ((x # l) # ls', r))"

lemma split_lines_no_NL: "NL \<notin> set s \<Longrightarrow> split_lines s = ([], s)"
  by (induction s) auto

lemma split_lines_line: "NL \<notin> set l \<Longrightarrow> split_lines (l @ NL # s) = (l # fst (split_lines s), snd (split_lines s))"
  by (induction l) (auto split: prod.splits)

lemma split_lines_rest: "NL \<notin> set (snd (split_lines s))"
  by (induction s) (auto split: prod.splits list.splits)

lemma split_lines_append:
  "split_lines (s @ t) =
     (case split_lines s of (ls, r) \<Rightarrow> case split_lines (r @ t) of (ls', r') \<Rightarrow> (ls @ ls', r'))"
proof (induction s)
  case Nil
  then show ?case by (auto split: prod.splits)
next
  case (Cons x s)
  obtain ls r where s: "split_lines s = (ls, r)" by (cases "split_lines s")
  obtain ls' r' where t: "split_lines (r @ t) = (ls', r')" by (cases "split_lines (r @ t)")
  from Cons s t have "split_lines (s @ t) = (ls @ ls', r')" by simp
  with s t show ?case by (cases ls; cases "x = NL") (auto split: list.splits)
qed

lemma split_lines_length:
  "l \<in> set (fst (split_lines s)) \<Longrightarrow> length l < length s"
  "length (snd (split_lines s)) \<le> length s"
  by (induction s arbitrary: l) (force split: prod.splits list.splits if_splits)+

lemma split_lines_set: "set (snd (split_lines s)) \<subseteq> set s"
  by (induction s) (auto split: prod.splits list.splits)

definition print_matching :: "string \<Rightarrow> string list \<Rightarrow> string" where
  "print_matching pattern ls = concat (map (\<lambda>l. l @ [NL]) (filter (match pattern) ls))"

lemma strchr_pos_None:
  "CHR 0x00 \<notin> set s \<Longrightarrow> strchr_pos s c = None \<longleftrightarrow> c \<notin> set s"
  by (induction s) auto

lemma strchr_pos_Some:
  "strchr_pos s c = Some q \<Longrightarrow> q < length s \<and> s ! q = c \<and> c \<notin> set (take q s)"
  by (induction s arbitrary: q) (auto split: if_splits)

lemma grep_lines_eq:
  "CHR 0x00 \<notin> set p \<Longrightarrow>
     grep_lines pattern p = (print_matching pattern (fst (split_lines p)), snd (split_lines p))"
proof (induction pattern p rule: grep_lines.induct)
  case (1 pattern p)
  show ?case
  proof (cases "strchr_pos p NL")
    case None
    with 1(2) have "NL \<notin> set p" by (simp add: strchr_pos_None)
    with None show ?thesis
      by (subst grep_lines.simps) (simp add: split_lines_no_NL print_matching_def)
  next
    case (Some q)
    then have q: "q < length p" "p ! q = NL" "NL \<notin> set (take q p)"
      using strchr_pos_Some by blast+
    then have p: "p = take q p @ NL # drop (q + 1) p" by (metis Suc_eq_plus1 id_take_nth_drop)
    have "CHR 0x00 \<notin> set (drop (q + 1) p)" using 1(2) by (meson in_set_dropD)
    from 1(1) [OF Some refl this]
    have IH: "grep_lines pattern (drop (q + 1) p) =
      (print_matching pattern (fst (split_lines (drop (q + 1) p))), snd (split_lines (drop (q + 1) p)))" .
    have "split_lines p = (take q p # fst (split_lines (drop (q + 1) p)), snd (split_lines (drop (q + 1) p)))"
      using split_lines_line [OF q(3), of "drop (q + 1) p"] p by simp
    moreover have "take (q + 1) p = take q p @ [NL]"
      using q by (simp add: take_Suc_conv_app_nth)
    ultimately show ?thesis
      using Some IH by (subst grep_lines.simps) (simp add: print_matching_def)
  qed
qed

text \<open>The bytes kept between two reads never hold a complete line, and fit the buffer.\<close>

lemma grep_eq:
  assumes "CHR 0x00 \<notin> set (buf @ inp)" and "NL \<notin> set buf" and "length buf < BUFSZ"
  shows "grep lim i pattern buf inp =
    print_matching pattern (takeWhile (\<lambda>l. length l < BUFSZ - 1) (fst (split_lines (buf @ inp))))"
  using assms
proof (induction lim i pattern buf inp rule: grep.induct)
  case (1 lim i pattern buf inp)
  define n where "n = read_len lim i (BUFSZ - length buf - 1) inp"
  show ?case
  proof (cases "n = 0")
    case True
    then have "length buf = BUFSZ - 1 \<or> inp = []"
      using 1(4) by (auto simp: n_def read_len_def min_def split: if_splits)
    then have "takeWhile (\<lambda>l. length l < BUFSZ - 1) (fst (split_lines (buf @ inp))) = []"
    proof
      assume full: "length buf = BUFSZ - 1"
      obtain ls r where s: "split_lines (buf @ inp) = (ls, r)" by (cases "split_lines (buf @ inp)")
      show ?thesis
      proof (cases ls)
        case (Cons l ls')
        have "length buf \<le> length l"
          using 1(3) s Cons
        proof (induction buf arbitrary: ls r l)
          case (Cons x buf)
          then show ?case by (fastforce split: prod.splits list.splits)
        qed simp
        with Cons s full show ?thesis by simp
      qed (simp add: s)
    next
      assume "inp = []"
      with 1(3) show ?thesis by (simp add: split_lines_no_NL)
    qed
    with True show ?thesis
      by (subst grep.simps) (simp add: n_def print_matching_def del: One_nat_def)
  next
    case False
    define b where "b = buf @ take n inp"
    obtain ls r where b: "split_lines b = (ls, r)" by (cases "split_lines b")
    have nul: "CHR 0x00 \<notin> set b" "CHR 0x00 \<notin> set (drop n inp)"
      using 1(2) in_set_takeD in_set_dropD unfolding b_def by fastforce+
    then have gl: "grep_lines pattern b = (print_matching pattern ls, r)" by (simp add: grep_lines_eq b)
    have "length b < BUFSZ"
      using 1(4) unfolding b_def n_def read_len_def by auto
    then have short: "length l < BUFSZ - 1" if "l \<in> set ls" for l
      using that split_lines_length(1) [of l b] b by fastforce
    have r: "CHR 0x00 \<notin> set (r @ drop n inp)" "NL \<notin> set r" "length r < BUFSZ"
      using nul split_lines_set [of b] split_lines_rest [of b] split_lines_length(2) [of b] b
        \<open>length b < BUFSZ\<close> by auto
    have IH: "grep lim (Suc i) pattern r (drop n inp) =
      print_matching pattern (takeWhile (\<lambda>l. length l < BUFSZ - 1) (fst (split_lines (r @ drop n inp))))"
      using "1.IH" [OF n_def False gl [unfolded b_def, symmetric] refl r] .
    have "buf @ inp = b @ drop n inp" by (simp add: b_def)
    then have "fst (split_lines (buf @ inp)) = ls @ fst (split_lines (r @ drop n inp))"
      by (simp add: split_lines_append [of b] b split: prod.splits)
    moreover have "grep lim i pattern buf inp = print_matching pattern ls @ grep lim (Suc i) pattern r (drop n inp)"
      using False gl unfolding b_def n_def by (subst grep.simps) (simp add: Let_def)
    ultimately show ?thesis
      using IH short by (simp add: takeWhile_append2 print_matching_def)
  qed
qed

section \<open>Properties\<close>

text \<open>C33: The matcher decides the pattern language: \<^verbatim>\<open>match\<close> succeeds exactly when the text contains a word of the
  language of the pattern, at its start if the pattern begins with a caret, at its end if it
  ends with a dollar sign.
\<close>

theorem match_iff_language:
  "match re s \<longleftrightarrow>
     (case re of
        [] \<Rightarrow> True
      | c # re' \<Rightarrow>
          if c = CHR ''^''
          then \<exists>u v. s = u @ v \<and> u \<in> lang (fst (items_of re')) \<and> (snd (items_of re') \<longrightarrow> v = [])
          else \<exists>w u v. s = w @ u @ v \<and> u \<in> lang (fst (items_of re)) \<and> (snd (items_of re) \<longrightarrow> v = []))"
proof (cases re)
  case Nil
  then show ?thesis by (auto simp: match_def match_from_iff matchhere_iff spec_here_Nil)
next
  case (Cons c re')
  have "spec_here r t \<longleftrightarrow> (\<exists>u v. t = u @ v \<and> u \<in> lang (fst (items_of r)) \<and> (snd (items_of r) \<longrightarrow> v = []))" for r t
    by (simp add: spec_here_def accepts_def split: prod.split)
  with Cons show ?thesis by (simp add: match_def match_from_iff matchhere_iff) blast
qed

theorem match_iff_language_witness: "match ''^b*a$'' ''bba''"
proof -
  have "''bb'' \<in> item_lang (Many (Only (CHR ''b'')))" and "''a'' \<in> lang [One (Only (CHR ''a''))]"
    by (auto intro: exI [of _ "''a''"])
  then have "''bb'' @ ''a'' \<in> lang [Many (Only (CHR ''b'')), One (Only (CHR ''a''))]"
    unfolding lang.simps(2) [of "Many (Only (CHR ''b''))"] by blast
  then show ?thesis
    by (subst match_iff_language) (auto simp: atom_of_def intro!: exI [of _ "''bba''"])
qed

text \<open>C34: However the input is cut into reads, \<^verbatim>\<open>grep\<close> prints the matching lines of its input, each with its newline, in order,
  up to the first line of 1023 bytes or more, at which it stops; a last line without newline is not
  searched. This is for input without NUL bytes.
\<close>

theorem grep_prints_matching_lines:
  assumes "CHR 0x00 \<notin> set inp"
  shows "grep lim 0 pattern [] inp =
    concat (map (\<lambda>l. l @ [NL])
      (filter (match pattern) (takeWhile (\<lambda>l. length l < 1023) (fst (split_lines inp)))))"
  using grep_eq [of "[]" inp lim 0 pattern] assms by (simp add: print_matching_def BUFSZ_def)

theorem grep_prints_matching_lines_witness:
  "CHR 0x00 \<notin> set (''abc'' @ [NL] @ ''xbz'' @ [NL] @ ''ay'') \<and>
   grep (\<lambda>i. i) 0 ''^a.*c$'' [] (''abc'' @ [NL] @ ''xbz'' @ [NL] @ ''ay'') =
    concat (map (\<lambda>l. l @ [NL]) (filter (match ''^a.*c$'') (takeWhile (\<lambda>l. length l < 1023)
      (fst (split_lines (''abc'' @ [NL] @ ''xbz'' @ [NL] @ ''ay''))))))"
  by (intro conjI grep_prints_matching_lines) simp_all

end
