(* ===== verification/Shell.thy ===== *)
theory Shell
  imports Sysfile
begin

text \<open>
  The shell (\<^verbatim>\<open>FileSystem-RAID/user/sh.c\<close>): its tokens, its recursive descent parser and the
  termination of the words in place. A command line is the list of its characters, the NUL at its
  end being the end of the list, and a pointer into it is an offset. \<^verbatim>\<open>panic\<close> exits the process and is an
  error value. Memory for commands does not run out in the model.

  Commands are polymorphic in their words: the parser yields commands over pairs of pointers \<open>(q, eq)\<close>, as the
  code stores them in \<^verbatim>\<open>argv\<close> and \<^verbatim>\<open>eargv\<close>; mapping them to texts gives commands
  over strings.
\<close>

unbundle bit_operations_syntax

section \<open>Commands\<close>

definition MAXARGS :: nat where "MAXARGS = 10"

text \<open>\<open>REDIR\<close> holds the command, the file, the mode and the descriptor.\<close>

datatype 'w cmd = EXEC "'w list" | REDIR "'w cmd" 'w int int | PIPE "'w cmd" "'w cmd"
  | LIST "'w cmd" "'w cmd" | BACK "'w cmd"

type_synonym span = "nat \<times> nat"

section \<open>Tokens\<close>

abbreviation NUL :: char where "NUL \<equiv> CHR 0x00"

definition whitespace :: string where
  "whitespace = [CHR '' '', CHR 0x09, CHR 0x0D, CHR 0x0A, CHR 0x0B]"

definition symbols :: string where "symbols = ''<|>&;()''"

text \<open>Reading \<^verbatim>\<open>*s\<close>: at the end of the line there is the NUL.\<close>

definition deref :: "string \<Rightarrow> nat \<Rightarrow> char" where
  "deref buf s = (if s < length buf then buf ! s else NUL)"

function skip_space :: "string \<Rightarrow> nat \<Rightarrow> nat" where
  "skip_space buf s =
     (if s < length buf \<and> deref buf s \<in> set whitespace then skip_space buf (Suc s) else s)"
  by pat_completeness auto
termination
  by (relation "measure (\<lambda>(buf, s). length buf - s)") auto

function scan_word :: "string \<Rightarrow> nat \<Rightarrow> nat" where
  "scan_word buf s =
     (if s < length buf \<and> deref buf s \<notin> set whitespace \<and> deref buf s \<notin> set symbols
      then scan_word buf (Suc s) else s)"
  by pat_completeness auto
termination
  by (relation "measure (\<lambda>(buf, s). length buf - s)") auto

declare skip_space.simps [simp del] scan_word.simps [simp del]

text \<open>The token, its start and end, and the new value of \<^verbatim>\<open>*ps\<close>.\<close>

definition gettoken :: "string \<Rightarrow> nat \<Rightarrow> char \<times> nat \<times> nat \<times> nat" where
  "gettoken buf s =
     (let q = skip_space buf s; c = deref buf q;
          (ret, e) =
            (if c = NUL then (c, q)
             else if c \<in> set ''|();&<'' then (c, Suc q)
             else if c = CHR ''>'' then
               (if deref buf (Suc q) = CHR ''>'' then (CHR ''+'', Suc (Suc q)) else (c, Suc q))
             else (CHR ''a'', scan_word buf q))
      in (ret, q, e, skip_space buf e))"

definition peek :: "string \<Rightarrow> nat \<Rightarrow> string \<Rightarrow> nat \<times> bool" where
  "peek buf s toks =
     (let s = skip_space buf s in (s, deref buf s \<noteq> NUL \<and> deref buf s \<in> set toks))"

lemma skip_space_ge: "s \<le> skip_space buf s"
  by (induction buf s rule: skip_space.induct) (subst skip_space.simps, auto)

lemma skip_space_le: "s \<le> length buf \<Longrightarrow> skip_space buf s \<le> length buf"
  by (induction buf s rule: skip_space.induct) (subst skip_space.simps, auto)

lemma scan_word_ge: "s \<le> scan_word buf s"
  by (induction buf s rule: scan_word.induct) (subst scan_word.simps, auto)

lemma scan_word_le: "s \<le> length buf \<Longrightarrow> scan_word buf s \<le> length buf"
  by (induction buf s rule: scan_word.induct) (subst scan_word.simps, auto)

lemma skip_space_stop: "skip_space buf s < length buf \<Longrightarrow> deref buf (skip_space buf s) \<notin> set whitespace"
  by (induction buf s rule: skip_space.induct) (subst (asm) skip_space.simps, subst skip_space.simps, auto split: if_splits)

lemma deref_NUL: "NUL \<notin> set buf \<Longrightarrow> deref buf s = NUL \<longleftrightarrow> length buf \<le> s"
  by (auto simp: deref_def) (metis nth_mem)

text \<open>
  A word of the line is a longest run of characters that are neither white space nor symbols.
\<close>

definition word_char :: "char \<Rightarrow> bool" where
  "word_char c \<longleftrightarrow> c \<noteq> NUL \<and> c \<notin> set whitespace \<and> c \<notin> set symbols"

fun is_word :: "string \<Rightarrow> span \<Rightarrow> bool" where
  "is_word buf (q, e) \<longleftrightarrow> q < e \<and> e \<le> length buf \<and> (\<forall>i. q \<le> i \<and> i < e \<longrightarrow> word_char (deref buf i)) \<and>
     \<not> word_char (deref buf e)"

lemma word_char_deref: "word_char (deref buf i) \<Longrightarrow> i < length buf"
  by (auto simp: word_char_def deref_def split: if_splits)

lemma scan_word_stop: "\<not> word_char (deref buf (scan_word buf s))"
proof (induction buf s rule: scan_word.induct)
  case (1 buf s)
  show ?case
  proof (cases "s < length buf \<and> deref buf s \<notin> set whitespace \<and> deref buf s \<notin> set symbols")
    case True
    with 1 show ?thesis by (subst scan_word.simps) simp
  next
    case False
    then show ?thesis by (subst scan_word.simps) (auto simp: word_char_def deref_def)
  qed
qed

lemma scan_word_chars:
  "NUL \<notin> set buf \<Longrightarrow> s \<le> i \<Longrightarrow> i < scan_word buf s \<Longrightarrow> word_char (deref buf i)"
proof (induction buf s rule: scan_word.induct)
  case (1 buf s)
  have c: "s < length buf \<and> deref buf s \<notin> set whitespace \<and> deref buf s \<notin> set symbols"
    using 1(3,4) by (subst (asm) scan_word.simps) (auto split: if_splits)
  show ?case
  proof (cases "i = s")
    case True
    with c 1(2) show ?thesis by (simp add: word_char_def deref_NUL)
  next
    case False
    with 1(3) have "Suc s \<le> i" by simp
    moreover have "i < scan_word buf (Suc s)"
      using 1(4) c by (subst (asm) scan_word.simps) simp
    ultimately show ?thesis using 1(1) [OF c 1(2)] by blast
  qed
qed

lemma scan_word_advances: "word_char (deref buf q) \<Longrightarrow> q < scan_word buf q"
  using scan_word_ge [of "Suc q" buf] word_char_deref [of buf q]
  by (subst scan_word.simps) (auto simp: word_char_def)

lemma scan_word_is_word:
  assumes "NUL \<notin> set buf" and "word_char (deref buf q)"
  shows "is_word buf (q, scan_word buf q)"
proof -
  have "q < length buf" using assms(2) by (rule word_char_deref)
  then show ?thesis
    using assms scan_word_advances scan_word_le [of q buf] scan_word_stop scan_word_chars [of buf q] by auto
qed

text \<open>The four forms of a token: the end of the line, a word, an operator of one or of two characters.\<close>

lemma gettoken_advances:
  assumes "gettoken buf s = (ret, q, e, s')"
  shows "s \<le> q" and "q \<le> e" and "e \<le> s'" and "ret \<noteq> NUL \<Longrightarrow> q < length buf \<and> q < e"
    and "s \<le> length buf \<Longrightarrow> s' \<le> length buf"
proof -
  define p where "p = skip_space buf s"
  note sw = skip_space_ge [of s buf] scan_word_ge [of p buf]
  have q: "q = p" using assms by (auto simp: gettoken_def p_def Let_def split: prod.splits)
  have s': "s' = skip_space buf e" using assms by (auto simp: gettoken_def p_def Let_def split: prod.splits)
  have adv: "word_char (deref buf p) \<Longrightarrow> p < scan_word buf p" by (rule scan_word_advances)
  have ws: "p < length buf \<Longrightarrow> deref buf p \<notin> set whitespace"
    using skip_space_stop [of buf s] by (simp add: p_def)
  have ret: "ret = NUL \<and> e = p \<or> p < length buf \<and> p < e"
    and le: "p \<le> length buf \<Longrightarrow> e \<le> length buf"
    using assms adv ws scan_word_le [of p buf]
    by (auto simp: gettoken_def p_def [symmetric] Let_def word_char_def symbols_def deref_def split: if_splits prod.splits)
  show "s \<le> q" using sw q by (simp add: p_def)
  show "q \<le> e" using ret q by auto
  show "e \<le> s'" using s' skip_space_ge by simp
  show "ret \<noteq> NUL \<Longrightarrow> q < length buf \<and> q < e" using ret q by auto
  show "s \<le> length buf \<Longrightarrow> s' \<le> length buf"
    using le skip_space_le [of s buf] skip_space_le [of e buf] s' by (simp add: p_def)
qed

lemma gettoken_word:
  assumes "gettoken buf s = (CHR ''a'', q, e, s')" and "NUL \<notin> set buf"
  shows "is_word buf (q, e)"
proof -
  define p where "p = skip_space buf s"
  have ws: "p < length buf \<Longrightarrow> deref buf p \<notin> set whitespace"
    using skip_space_stop [of buf s] by (simp add: p_def)
  have "q = p" and "e = scan_word buf p" and "word_char (deref buf p)"
    using assms(1) ws
    by (auto simp: gettoken_def p_def [symmetric] Let_def word_char_def symbols_def deref_def split: if_splits prod.splits)
  then show ?thesis using scan_word_is_word [OF assms(2)] by simp
qed

lemma peek_ge: "peek buf s toks = (s', b) \<Longrightarrow> s \<le> s'"
  using skip_space_ge by (auto simp: peek_def Let_def)

lemma peek_le: "peek buf s toks = (s', b) \<Longrightarrow> s \<le> length buf \<Longrightarrow> s' \<le> length buf"
  using skip_space_le by (auto simp: peek_def Let_def)

lemma skip_space_idem: "skip_space buf (skip_space buf s) = skip_space buf s"
  using skip_space_stop [of buf s] by (subst skip_space.simps) auto

text \<open>After a successful \<^verbatim>\<open>peek\<close> the token is not the end of the line.\<close>

lemma peek_token:
  assumes "peek buf s toks = (s', True)" and "gettoken buf s' = (ret, q, e, s'')"
  shows "ret \<noteq> NUL" and "s' < length buf"
proof -
  have "s' = skip_space buf s" "deref buf s' \<noteq> NUL"
    using assms(1) by (auto simp: peek_def Let_def)
  moreover from this have "skip_space buf s' = s'" using skip_space_idem by simp
  ultimately show "ret \<noteq> NUL" and "s' < length buf"
    using assms(2)
    by (auto simp: gettoken_def Let_def deref_def split: if_splits prod.splits)
qed

lemma gettoken_mono: "gettoken buf s = (ret, q, e, s') \<Longrightarrow> s \<le> s'"
  using gettoken_advances(1-3) by (meson order_trans)

lemma peek_token_less:
  assumes "peek buf s toks = (s', True)" and "gettoken buf s' = (ret, q, e, s'')"
  shows "s < s''" and "s < length buf"
  using peek_token [OF assms] gettoken_advances [OF assms(2)] peek_ge [OF assms(1)] by auto

section \<open>The parser\<close>

text \<open>
  \<^verbatim>\<open>redircmd\<close> with the arguments of its three calls; \<^verbatim>\<open>+\<close> stands for \<^verbatim>\<open>>>\<close>.
\<close>

definition redircmd :: "char \<Rightarrow> 'w cmd \<Rightarrow> 'w \<Rightarrow> 'w cmd" where
  "redircmd tok cmd f =
     (if tok = CHR ''<'' then REDIR cmd f O_RDONLY 0
      else if tok = CHR ''>'' then REDIR cmd f (O_WRONLY OR O_CREATE OR O_TRUNC) 1
      else if tok = CHR ''+'' then REDIR cmd f (O_WRONLY OR O_CREATE) 1
      else cmd)"

function parseredirs :: "span cmd \<Rightarrow> string \<Rightarrow> nat \<Rightarrow> (span cmd \<times> nat) kres" where
  "parseredirs cmd buf s =
     (case peek buf s ''<>'' of (s, b) \<Rightarrow>
      if b then
        (case gettoken buf s of (tok, _, _, s) \<Rightarrow>
         case gettoken buf s of (t, q, eq, s) \<Rightarrow>
           if t \<noteq> CHR ''a'' then Inl (Panic ''missing file for redirection'')
           else parseredirs (redircmd tok cmd (q, eq)) buf s)
      else Inr (cmd, s))"
  by pat_completeness auto
termination
proof (relation "measure (\<lambda>(cmd, buf, s). length buf - s)", goal_cases)
  case (2 cmd buf s s1 b tok x1 y1 x2 x3 s2 t x4 q x5 eq s3)
  then have "peek buf s ''<>'' = (s1, True)" "gettoken buf s1 = (tok, y1, x3, s2)" "gettoken buf s2 = (t, q, eq, s3)"
    by auto
  then show ?case
    using peek_token_less [of buf s] gettoken_mono [of buf s2] by fastforce
qed simp

declare parseredirs.simps [simp del]

lemma parseredirs_mono:
  "parseredirs cmd buf s = Inr (cmd', s') \<Longrightarrow> s \<le> s' \<and> (s \<le> length buf \<longrightarrow> s' \<le> length buf)"
proof (induction cmd buf s rule: parseredirs.induct)
  case (1 cmd buf s)
  obtain s1 b where p: "peek buf s ''<>'' = (s1, b)" by (cases "peek buf s ''<>''")
  show ?case
  proof (cases b)
    case False
    with 1(2) p peek_ge [OF p] peek_le [OF p] show ?thesis by (subst (asm) parseredirs.simps) simp
  next
    case True
    obtain tok x y s2 where g: "gettoken buf s1 = (tok, x, y, s2)" by (cases "gettoken buf s1")
    obtain t q eq s3 where h: "gettoken buf s2 = (t, q, eq, s3)" by (cases "gettoken buf s2")
    have t: "t = CHR ''a''" and r: "parseredirs (redircmd tok cmd (q, eq)) buf s3 = Inr (cmd', s')"
      using 1(2) p g h True by (subst (asm) parseredirs.simps, auto split: if_splits)+
    have "s3 \<le> s' \<and> (s3 \<le> length buf \<longrightarrow> s' \<le> length buf)"
      using 1(1) [OF p [symmetric] True g [symmetric] refl refl h [symmetric] refl refl] t r by simp
    then show ?thesis
      using peek_ge [OF p] peek_le [OF p] gettoken_mono [OF g] gettoken_mono [OF h]
        gettoken_advances(5) [OF g] gettoken_advances(5) [OF h] by linarith
  qed
qed

text \<open>
  The loop of \<^verbatim>\<open>parseexec\<close>. \<^verbatim>\<open>cmd\<close> points to the \<open>EXEC\<close> inside the redirections that
  \<^verbatim>\<open>ret\<close> has got so far, so an argument is added there.
\<close>

fun add_arg :: "'w \<Rightarrow> 'w cmd \<Rightarrow> 'w cmd" where
  "add_arg w (EXEC args) = EXEC (args @ [w])"
| "add_arg w (REDIR c f mode fd) = REDIR (add_arg w c) f mode fd"
| "add_arg w c = c"

function parseexec_loop :: "nat \<Rightarrow> span cmd \<Rightarrow> string \<Rightarrow> nat \<Rightarrow> (span cmd \<times> nat) kres" where
  "parseexec_loop argc ret buf s =
     (case peek buf s ''|)&;'' of (s, b) \<Rightarrow>
      if b then Inr (ret, s)
      else
        (case gettoken buf s of (tok, q, eq, s) \<Rightarrow>
           if tok = NUL then Inr (ret, s)
           else if tok \<noteq> CHR ''a'' then Inl (Panic ''syntax'')
           else if MAXARGS \<le> Suc argc then Inl (Panic ''too many args'')
           else bindE (parseredirs (add_arg (q, eq) ret) buf s)
                  (\<lambda>(ret, s). parseexec_loop (Suc argc) ret buf s)))"
  by pat_completeness auto
termination
proof (relation "measure (\<lambda>(argc, ret, buf, s). length buf - s)", goal_cases)
  case (2 argc ret buf s s1 b tok x1 q x2 eq s2 r ret' s3)
  then have p: "peek buf s ''|)&;'' = (s1, b)" and g: "gettoken buf s1 = (tok, q, eq, s2)" and "tok \<noteq> NUL"
    and "parseredirs (add_arg (q, eq) ret) buf s2 = Inr (ret', s3)"
    by auto
  from parseredirs_mono [OF this(4)] gettoken_advances(1-4) [OF g] \<open>tok \<noteq> NUL\<close> peek_ge [OF p] show ?case
    by auto
qed simp

declare parseexec_loop.simps [simp del]

function parse_back :: "span cmd \<Rightarrow> string \<Rightarrow> nat \<Rightarrow> span cmd \<times> nat" where
  "parse_back cmd buf s =
     (case peek buf s ''&'' of (s, b) \<Rightarrow>
      if b then (case gettoken buf s of (_, _, _, s) \<Rightarrow> parse_back (BACK cmd) buf s)
      else (cmd, s))"
  by pat_completeness auto
termination
proof (relation "measure (\<lambda>(cmd, buf, s). length buf - s)", goal_cases)
  case (2 cmd buf s s1 b tok x1 q x2 eq s2)
  then have "peek buf s ''&'' = (s1, True)" "gettoken buf s1 = (tok, q, eq, s2)" by auto
  from peek_token_less [OF this] show ?case by auto
qed simp

declare parse_back.simps [simp del]

text \<open>
  The four routines that call each other. Their recursion is cut at a depth \<open>n\<close>; \<open>Fuel\<close> is
  the result beyond it. The depth \<^term>\<open>4 * length buf + 4\<close> is never reached, as is shown below.
\<close>

fun parseline :: "nat \<Rightarrow> string \<Rightarrow> nat \<Rightarrow> (span cmd \<times> nat) kres"
  and parsepipe :: "nat \<Rightarrow> string \<Rightarrow> nat \<Rightarrow> (span cmd \<times> nat) kres"
  and parseexec :: "nat \<Rightarrow> string \<Rightarrow> nat \<Rightarrow> (span cmd \<times> nat) kres"
  and parseblock :: "nat \<Rightarrow> string \<Rightarrow> nat \<Rightarrow> (span cmd \<times> nat) kres" where
  "parseline 0 buf s = Inl Fuel"
| "parseline (Suc n) buf s =
     bindE (parsepipe n buf s) (\<lambda>(cmd, s).
       case parse_back cmd buf s of (cmd, s) \<Rightarrow>
       case peek buf s '';'' of (s, b) \<Rightarrow>
         if b then
           (case gettoken buf s of (_, _, _, s) \<Rightarrow>
            bindE (parseline n buf s) (\<lambda>(right, s). Inr (LIST cmd right, s)))
         else Inr (cmd, s))"
| "parsepipe 0 buf s = Inl Fuel"
| "parsepipe (Suc n) buf s =
     bindE (parseexec n buf s) (\<lambda>(cmd, s).
       case peek buf s ''|'' of (s, b) \<Rightarrow>
         if b then
           (case gettoken buf s of (_, _, _, s) \<Rightarrow>
            bindE (parsepipe n buf s) (\<lambda>(right, s). Inr (PIPE cmd right, s)))
         else Inr (cmd, s))"
| "parseexec 0 buf s = Inl Fuel"
| "parseexec (Suc n) buf s =
     (case peek buf s ''('' of (s, b) \<Rightarrow>
      if b then parseblock n buf s
      else bindE (parseredirs (EXEC []) buf s) (\<lambda>(ret, s). parseexec_loop 0 ret buf s))"
| "parseblock 0 buf s = Inl Fuel"
| "parseblock (Suc n) buf s =
     (case peek buf s ''('' of (s, b) \<Rightarrow>
      if \<not> b then Inl (Panic ''parseblock'')
      else
        (case gettoken buf s of (_, _, _, s) \<Rightarrow>
         bindE (parseline n buf s) (\<lambda>(cmd, s).
           case peek buf s '')'' of (s, b) \<Rightarrow>
           if \<not> b then Inl (Panic ''syntax - missing )'')
           else (case gettoken buf s of (_, _, _, s) \<Rightarrow> parseredirs cmd buf s))))"

text \<open>
  \<^verbatim>\<open>nulterminate\<close> writes a NUL behind every word, in the line itself; \<open>m\<close> is the line with the NUL
  at its end.
\<close>

fun nulterminate :: "span cmd \<Rightarrow> string \<Rightarrow> string" where
  "nulterminate (EXEC args) m = fold (\<lambda>(q, eq) m. m[eq := NUL]) args m"
| "nulterminate (REDIR c f mode fd) m = (nulterminate c m)[snd f := NUL]"
| "nulterminate (PIPE l r) m = nulterminate r (nulterminate l m)"
| "nulterminate (LIST l r) m = nulterminate r (nulterminate l m)"
| "nulterminate (BACK c) m = nulterminate c m"

definition parsecmd :: "string \<Rightarrow> (span cmd \<times> string) kres" where
  "parsecmd buf =
     bindE (parseline (4 * length buf + 4) buf 0) (\<lambda>(cmd, s).
       case peek buf s [] of (s, _) \<Rightarrow>
         if s \<noteq> length buf then Inl (Panic ''syntax'')
         else Inr (cmd, nulterminate cmd (buf @ [NUL])))"

section \<open>The recursion ends\<close>

lemma case_prod_ex: "(case p of (a, b) \<Rightarrow> f a b) = r \<longleftrightarrow> (\<exists>a b. p = (a, b) \<and> f a b = r)"
  by (cases p) simp

lemma redir_token:
  assumes "peek buf s ''<>'' = (s1, True)" and "gettoken buf s1 = (tok, x, y, s2)"
  shows "tok \<in> {CHR ''<'', CHR ''>'', CHR ''+''}"
proof -
  have s1: "skip_space buf s1 = s1" and "deref buf s1 = CHR ''<'' \<or> deref buf s1 = CHR ''>''"
    using assms(1) skip_space_idem [of buf s] by (auto simp: peek_def Let_def)
  from this(2) show ?thesis
  proof
    assume "deref buf s1 = CHR ''<''"
    with s1 assms(2) show ?thesis by (simp add: gettoken_def Let_def)
  next
    assume "deref buf s1 = CHR ''>''"
    with s1 assms(2) show ?thesis by (simp add: gettoken_def Let_def split: if_splits)
  qed
qed

lemma parseredirs_induct [consumes 1, case_names base step]:
  assumes "parseredirs cmd buf s = Inr (cmd', s')" and "P cmd"
    and "\<And>tok c w. P c \<Longrightarrow> tok \<in> {CHR ''<'', CHR ''>'', CHR ''+''} \<Longrightarrow> (NUL \<notin> set buf \<Longrightarrow> is_word buf w) \<Longrightarrow> P (redircmd tok c w)"
  shows "P cmd'"
  using assms
proof (induction cmd buf s rule: parseredirs.induct)
  case (1 cmd buf s)
  obtain s1 b where p: "peek buf s ''<>'' = (s1, b)" by (cases "peek buf s ''<>''")
  show ?case
  proof (cases b)
    case False
    with 1(2,3) p show ?thesis by (subst (asm) parseredirs.simps) simp
  next
    case True
    obtain tok x y s2 where g: "gettoken buf s1 = (tok, x, y, s2)" by (cases "gettoken buf s1")
    obtain t q eq s3 where h: "gettoken buf s2 = (t, q, eq, s3)" by (cases "gettoken buf s2")
    have t: "t = CHR ''a''" and r: "parseredirs (redircmd tok cmd (q, eq)) buf s3 = Inr (cmd', s')"
      using 1(2) p g h True by (subst (asm) parseredirs.simps, auto split: if_splits)+
    have "tok \<in> {CHR ''<'', CHR ''>'', CHR ''+''}"
      using redir_token p True g by simp
    moreover have "NUL \<notin> set buf \<Longrightarrow> is_word buf (q, eq)" using h t gettoken_word by blast
    ultimately have "P (redircmd tok cmd (q, eq))" by (intro 1(4) 1(3))
    moreover have "\<not> t \<noteq> CHR ''a''" using t by simp
    ultimately show ?thesis
      using 1(1) [OF p [symmetric] True g [symmetric] refl refl h [symmetric] refl refl _ r _ 1(4)] by blast
  qed
qed

lemma parseredirs_no_Fuel: "parseredirs cmd buf s \<noteq> Inl Fuel"
proof (induction cmd buf s rule: parseredirs.induct)
  case (1 cmd buf s)
  then show ?case by (subst parseredirs.simps) (auto split: prod.splits)
qed

lemma parseexec_loop_no_Fuel: "parseexec_loop argc ret buf s \<noteq> Inl Fuel"
proof (induction argc ret buf s rule: parseexec_loop.induct)
  case (1 argc ret buf s)
  then show ?case
    by (subst parseexec_loop.simps) (auto simp: bindE_iff parseredirs_no_Fuel split: prod.splits)
qed

lemma parseexec_loop_mono:
  "parseexec_loop argc ret buf s = Inr (ret', s') \<Longrightarrow> s \<le> s' \<and> (s \<le> length buf \<longrightarrow> s' \<le> length buf)"
proof (induction argc ret buf s rule: parseexec_loop.induct)
  case (1 argc ret buf s)
  obtain s1 b where p: "peek buf s ''|)&;'' = (s1, b)" by (cases "peek buf s ''|)&;''")
  obtain tok q eq s2 where g: "gettoken buf s1 = (tok, q, eq, s2)" by (cases "gettoken buf s1")
  note le = peek_ge [OF p] peek_le [OF p] gettoken_mono [OF g] gettoken_advances(5) [OF g]
  show ?case
  proof (cases "b \<or> tok = NUL")
    case True
    with 1(2) p g le show ?thesis by (subst (asm) parseexec_loop.simps) (auto split: if_splits)
  next
    case False
    with 1(2) p g obtain r s3 where pr: "parseredirs (add_arg (q, eq) ret) buf s2 = Inr (r, s3)"
      and rec: "parseexec_loop (Suc argc) r buf s3 = Inr (ret', s')" and tok: "tok = CHR ''a''" "\<not> MAXARGS \<le> Suc argc"
      by (subst (asm) parseexec_loop.simps) (auto simp: bindE_iff split: if_splits)
    then show ?thesis
      using 1(1) [OF p [symmetric] _ g [symmetric] refl refl _ _ tok(2) pr refl rec] tok
        parseredirs_mono [OF pr] False le by auto
  qed
qed

lemma parse_back_mono:
  "parse_back cmd buf s = (cmd', s') \<Longrightarrow> s \<le> s' \<and> (s \<le> length buf \<longrightarrow> s' \<le> length buf)"
proof (induction cmd buf s rule: parse_back.induct)
  case (1 cmd buf s)
  obtain s1 b where p: "peek buf s ''&'' = (s1, b)" by (cases "peek buf s ''&''")
  obtain tok q eq s2 where g: "gettoken buf s1 = (tok, q, eq, s2)" by (cases "gettoken buf s1")
  note le = peek_ge [OF p] peek_le [OF p] gettoken_mono [OF g] gettoken_advances(5) [OF g]
  show ?case
  proof (cases b)
    case False
    with 1(2) p le show ?thesis by (subst (asm) parse_back.simps) auto
  next
    case True
    then have "parse_back (BACK cmd) buf s2 = (cmd', s')"
      using 1(2) p g by (subst (asm) parse_back.simps) simp
    with 1(1) [OF p [symmetric] True g [symmetric] refl refl] le show ?thesis by auto
  qed
qed


text \<open>No routine moves the pointer backwards or past the end of the line.\<close>

definition moves :: "string \<Rightarrow> nat \<Rightarrow> nat \<Rightarrow> bool" where
  "moves buf s s' \<longleftrightarrow> s \<le> s' \<and> (s \<le> length buf \<longrightarrow> s' \<le> length buf)"

lemma moves_trans [trans]: "moves buf a b \<Longrightarrow> moves buf b c \<Longrightarrow> moves buf a c"
  by (auto simp: moves_def)

lemma moves_steps:
  "peek buf s toks = (s', b) \<Longrightarrow> moves buf s s'"
  "gettoken buf s = (tok, q, e, s') \<Longrightarrow> moves buf s s'"
  "parseredirs cmd buf s = Inr (cmd', s') \<Longrightarrow> moves buf s s'"
  "parseexec_loop argc cmd buf s = Inr (cmd', s') \<Longrightarrow> moves buf s s'"
  "parse_back cmd buf s = (cmd', s') \<Longrightarrow> moves buf s s'"
  by (simp_all add: moves_def peek_ge peek_le gettoken_mono gettoken_advances(5) parseredirs_mono
      parseexec_loop_mono parse_back_mono)

text \<open>
  The grammar that the four routines follow, as relations between the pointer before, the command
  and the pointer after. Their runs are derivations of it, and every derivation is
  found with the depth that \<^verbatim>\<open>parsecmd\<close> is given.
\<close>

inductive is_line :: "string \<Rightarrow> nat \<Rightarrow> span cmd \<Rightarrow> nat \<Rightarrow> bool"
  and is_pipe :: "string \<Rightarrow> nat \<Rightarrow> span cmd \<Rightarrow> nat \<Rightarrow> bool"
  and is_exec :: "string \<Rightarrow> nat \<Rightarrow> span cmd \<Rightarrow> nat \<Rightarrow> bool" for buf where
  line_end: "is_pipe buf s c1 s1 \<Longrightarrow> parse_back c1 buf s1 = (c2, s2) \<Longrightarrow> peek buf s2 '';'' = (s3, False) \<Longrightarrow>
    is_line buf s c2 s3"
| line_list: "is_pipe buf s c1 s1 \<Longrightarrow> parse_back c1 buf s1 = (c2, s2) \<Longrightarrow> peek buf s2 '';'' = (s3, True) \<Longrightarrow>
    gettoken buf s3 = (tok, q, eq, s4) \<Longrightarrow> is_line buf s4 r s5 \<Longrightarrow> is_line buf s (LIST c2 r) s5"
| pipe_end: "is_exec buf s c s1 \<Longrightarrow> peek buf s1 ''|'' = (s2, False) \<Longrightarrow> is_pipe buf s c s2"
| pipe_pipe: "is_exec buf s c s1 \<Longrightarrow> peek buf s1 ''|'' = (s2, True) \<Longrightarrow>
    gettoken buf s2 = (tok, q, eq, s3) \<Longrightarrow> is_pipe buf s3 r s4 \<Longrightarrow> is_pipe buf s (PIPE c r) s4"
| exec_simple: "peek buf s ''('' = (s1, False) \<Longrightarrow> parseredirs (EXEC []) buf s1 = Inr (c, s2) \<Longrightarrow>
    parseexec_loop 0 c buf s2 = Inr (c', s3) \<Longrightarrow> is_exec buf s c' s3"
| exec_block: "peek buf s ''('' = (s1, True) \<Longrightarrow> peek buf s1 ''('' = (s2, True) \<Longrightarrow> gettoken buf s2 = (tok, q, eq, s3) \<Longrightarrow>
    is_line buf s3 c s4 \<Longrightarrow> peek buf s4 '')'' = (s5, True) \<Longrightarrow> gettoken buf s5 = (tok', q', eq', s6) \<Longrightarrow>
    parseredirs c buf s6 = Inr (c', s7) \<Longrightarrow> is_exec buf s c' s7"

lemma parse_sound:
  "(\<forall>s c s'. parseline n buf s = Inr (c, s') \<longrightarrow> is_line buf s c s') \<and>
   (\<forall>s c s'. parsepipe n buf s = Inr (c, s') \<longrightarrow> is_pipe buf s c s') \<and>
   (\<forall>s c s'. parseexec n buf s = Inr (c, s') \<longrightarrow> is_exec buf s c s') \<and>
   (\<forall>s s1 c s'. peek buf s ''('' = (s1, True) \<longrightarrow> parseblock n buf s1 = Inr (c, s') \<longrightarrow> is_exec buf s c s')"
proof (induction n)
  case 0
  then show ?case by simp
next
  case (Suc n)
  then have L: "\<And>s c s'. parseline n buf s = Inr (c, s') \<Longrightarrow> is_line buf s c s'"
    and P: "\<And>s c s'. parsepipe n buf s = Inr (c, s') \<Longrightarrow> is_pipe buf s c s'"
    and E: "\<And>s c s'. parseexec n buf s = Inr (c, s') \<Longrightarrow> is_exec buf s c s'"
    and B: "\<And>s s1 c s'. peek buf s ''('' = (s1, True) \<Longrightarrow> parseblock n buf s1 = Inr (c, s') \<Longrightarrow> is_exec buf s c s'"
    by auto
  show ?case
  proof (intro conjI allI impI)
    fix s c s'
    assume "parseline (Suc n) buf s = Inr (c, s')"
    then show "is_line buf s c s'"
      by (auto simp: bindE_iff case_prod_ex split: if_splits intro: line_end line_list L P)
  next
    fix s c s'
    assume "parsepipe (Suc n) buf s = Inr (c, s')"
    then show "is_pipe buf s c s'"
      by (auto simp: bindE_iff case_prod_ex split: if_splits intro: pipe_end pipe_pipe P E)
  next
    fix s c s'
    assume "parseexec (Suc n) buf s = Inr (c, s')"
    then show "is_exec buf s c s'"
      by (auto simp: bindE_iff case_prod_ex split: if_splits intro: exec_simple B)
  next
    fix s s1 c s'
    assume "peek buf s ''('' = (s1, True)" and "parseblock (Suc n) buf s1 = Inr (c, s')"
    then show "is_exec buf s c s'"
      by (auto simp: bindE_iff case_prod_ex split: if_splits intro: exec_block L)
  qed
qed

lemma is_moves:
  "is_line buf s c s' \<Longrightarrow> moves buf s s'" "is_pipe buf s c s' \<Longrightarrow> moves buf s s'" "is_exec buf s c s' \<Longrightarrow> moves buf s s'"
proof (induction rule: is_line_is_pipe_is_exec.inducts)
  case (line_end s c1 s1 c2 s2 s3)
  note line_end(2) also note moves_steps(5) [OF line_end(3)] also note moves_steps(1) [OF line_end(4)]
  finally show ?case .
next
  case (line_list s c1 s1 c2 s2 s3 tok q eq s4 r s5)
  note line_list(2) also note moves_steps(5) [OF line_list(3)] also note moves_steps(1) [OF line_list(4)]
  also note moves_steps(2) [OF line_list(5)] also note line_list(7)
  finally show ?case .
next
  case (pipe_end s c s1 s2)
  note pipe_end(2) also note moves_steps(1) [OF pipe_end(3)]
  finally show ?case .
next
  case (pipe_pipe s c s1 s2 tok q eq s3 r s4)
  note pipe_pipe(2) also note moves_steps(1) [OF pipe_pipe(3)] also note moves_steps(2) [OF pipe_pipe(4)]
  also note pipe_pipe(6)
  finally show ?case .
next
  case (exec_simple s s1 c s2 c' s3)
  note moves_steps(1) [OF exec_simple(1)] also note moves_steps(3) [OF exec_simple(2)] also note moves_steps(4) [OF exec_simple(3)]
  finally show ?case .
next
  case (exec_block s s1 s2 tok q eq s3 c s4 s5 tok' q' eq' s6 c' s7)
  note moves_steps(1) [OF exec_block(1)] also note moves_steps(1) [OF exec_block(2)]
  also note moves_steps(2) [OF exec_block(3)] also note exec_block(5)
  also note moves_steps(1) [OF exec_block(6)] also note moves_steps(2) [OF exec_block(7)]
  also note moves_steps(3) [OF exec_block(8)]
  finally show ?case .
qed

lemmas parse_sounds = parse_sound [THEN conjunct1, rule_format] parse_sound [THEN conjunct2, THEN conjunct1, rule_format]
  parse_sound [THEN conjunct2, THEN conjunct2, THEN conjunct1, rule_format]

lemma parse_moves:
  "parseline n buf s = Inr (c, s') \<Longrightarrow> moves buf s s'"
  "parsepipe n buf s = Inr (c, s') \<Longrightarrow> moves buf s s'"
  "parseexec n buf s = Inr (c, s') \<Longrightarrow> moves buf s s'"
  by (auto intro: is_moves parse_sounds)

text \<open>The depth: each round through the four routines passes at least one character.\<close>

lemma fuel_step:
  assumes "peek buf s toks = (s1, True)" and "gettoken buf s1 = (tok, q, eq, s2)"
    and "4 * (length buf - s) + k \<le> n + 4"
  shows "4 * (length buf - s2) + k \<le> n"
proof -
  have "length buf - s2 < length buf - s" using peek_token_less [OF assms(1,2)] by (rule diff_less_mono2)
  with assms(3) show ?thesis by linarith
qed

lemma parse_no_Fuel:
  "(\<forall>s. 4 * (length buf - s) + 4 \<le> n \<longrightarrow> parseline n buf s \<noteq> Inl Fuel) \<and>
   (\<forall>s. 4 * (length buf - s) + 3 \<le> n \<longrightarrow> parsepipe n buf s \<noteq> Inl Fuel) \<and>
   (\<forall>s. 4 * (length buf - s) + 2 \<le> n \<longrightarrow> parseexec n buf s \<noteq> Inl Fuel) \<and>
   (\<forall>s. 4 * (length buf - s) + 1 \<le> n \<longrightarrow> parseblock n buf s \<noteq> Inl Fuel)"
proof (induction n)
  case 0
  then show ?case by simp
next
  case (Suc n)
  then have L: "\<And>s. 4 * (length buf - s) + 4 \<le> n \<Longrightarrow> parseline n buf s \<noteq> Inl Fuel"
    and P: "\<And>s. 4 * (length buf - s) + 3 \<le> n \<Longrightarrow> parsepipe n buf s \<noteq> Inl Fuel"
    and E: "\<And>s. 4 * (length buf - s) + 2 \<le> n \<Longrightarrow> parseexec n buf s \<noteq> Inl Fuel"
    and B: "\<And>s. 4 * (length buf - s) + 1 \<le> n \<Longrightarrow> parseblock n buf s \<noteq> Inl Fuel"
    by blast+
  show ?case
  proof (intro conjI allI impI notI)
    fix s
    assume s: "4 * (length buf - s) + 4 \<le> Suc n" and "parseline (Suc n) buf s = Inl Fuel"
    then obtain c1 s1 c2 s2 s3 tok q eq s4 where "parsepipe n buf s = Inr (c1, s1)" "parse_back c1 buf s1 = (c2, s2)"
      and p: "peek buf s2 '';'' = (s3, True)" and g: "gettoken buf s3 = (tok, q, eq, s4)" and l: "parseline n buf s4 = Inl Fuel"
      using P [of s] by (auto simp: bindE_iff case_prod_ex split: if_splits)
    then have "s \<le> s2" using parse_moves(2) moves_steps(5) unfolding moves_def by (meson order_trans)
    with s have "4 * (length buf - s2) + 4 \<le> n + 4" by linarith
    from L [OF fuel_step [OF p g this]] l show False by simp
  next
    fix s
    assume s: "4 * (length buf - s) + 3 \<le> Suc n" and "parsepipe (Suc n) buf s = Inl Fuel"
    then obtain c1 s1 s3 tok q eq s4 where "parseexec n buf s = Inr (c1, s1)"
      and p: "peek buf s1 ''|'' = (s3, True)" and g: "gettoken buf s3 = (tok, q, eq, s4)" and l: "parsepipe n buf s4 = Inl Fuel"
      using E [of s] by (auto simp: bindE_iff case_prod_ex split: if_splits)
    then have "s \<le> s1" using parse_moves(3) unfolding moves_def by blast
    with s have "4 * (length buf - s1) + 3 \<le> n + 4" by linarith
    from P [OF fuel_step [OF p g this]] l show False by simp
  next
    fix s
    assume s: "4 * (length buf - s) + 2 \<le> Suc n" and "parseexec (Suc n) buf s = Inl Fuel"
    then obtain s1 where p: "peek buf s ''('' = (s1, True)" and b: "parseblock n buf s1 = Inl Fuel"
      by (auto simp: bindE_iff case_prod_ex parseredirs_no_Fuel parseexec_loop_no_Fuel split: if_splits)
    have "s \<le> s1" using peek_ge [OF p] .
    with s have "4 * (length buf - s1) + 1 \<le> n" by linarith
    from B [OF this] b show False by simp
  next
    fix s
    assume s: "4 * (length buf - s) + 1 \<le> Suc n" and "parseblock (Suc n) buf s = Inl Fuel"
    then obtain s1 tok q eq s2 where p: "peek buf s ''('' = (s1, True)" and g: "gettoken buf s1 = (tok, q, eq, s2)"
      and l: "parseline n buf s2 = Inl Fuel"
      by (auto simp: bindE_iff case_prod_ex parseredirs_no_Fuel split: if_splits)
    from s have "4 * (length buf - s) + 4 \<le> n + 4" by simp
    from L [OF fuel_step [OF p g this]] l show False by simp
  qed
qed

lemma parse_complete:
  "is_line buf s c s' \<Longrightarrow> 4 * (length buf - s) + 4 \<le> n \<Longrightarrow> parseline n buf s = Inr (c, s')"
  "is_pipe buf s c s' \<Longrightarrow> 4 * (length buf - s) + 3 \<le> n \<Longrightarrow> parsepipe n buf s = Inr (c, s')"
  "is_exec buf s c s' \<Longrightarrow> 4 * (length buf - s) + 2 \<le> n \<Longrightarrow> parseexec n buf s = Inr (c, s')"
proof (induction arbitrary: n and n and n rule: is_line_is_pipe_is_exec.inducts)
  case (line_end s c1 s1 c2 s2 s3)
  then obtain m where n: "n = Suc m" by (cases n) auto
  with line_end have "parsepipe m buf s = Inr (c1, s1)" by simp
  with line_end n show ?case by simp
next
  case (line_list s c1 s1 c2 s2 s3 tok q eq s4 r s5)
  then obtain m where n: "n = Suc m" by (cases n) auto
  have "parsepipe m buf s = Inr (c1, s1)" using line_list n by simp
  moreover have "s \<le> s2" using is_moves(2) [OF line_list(1)] moves_steps(5) [OF line_list(3)] by (simp add: moves_def)
  then have "4 * (length buf - s2) + 4 \<le> m + 4" using line_list(8) n by linarith
  then have "parseline m buf s4 = Inr (r, s5)"
    by (intro line_list(7) fuel_step [OF line_list(4,5)])
  ultimately show ?case using line_list n by simp
next
  case (pipe_end s c s1 s2)
  then obtain m where n: "n = Suc m" by (cases n) auto
  with pipe_end have "parseexec m buf s = Inr (c, s1)" by simp
  with pipe_end n show ?case by simp
next
  case (pipe_pipe s c s1 s2 tok q eq s3 r s4)
  then obtain m where n: "n = Suc m" by (cases n) auto
  have "parseexec m buf s = Inr (c, s1)" using pipe_pipe n by simp
  moreover have "s \<le> s1" using is_moves(3) [OF pipe_pipe(1)] by (simp add: moves_def)
  then have "4 * (length buf - s1) + 3 \<le> m + 4" using pipe_pipe(7) n by linarith
  then have "parsepipe m buf s3 = Inr (r, s4)"
    by (intro pipe_pipe(6) fuel_step [OF pipe_pipe(3,4)])
  ultimately show ?case using pipe_pipe n by simp
next
  case (exec_simple s s1 c s2 c' s3)
  then obtain m where n: "n = Suc m" by (cases n) auto
  with exec_simple show ?case by simp
next
  case (exec_block s s1 s2 tok q eq s3 c s4 s5 tok' q' eq' s6 c' s7)
  then obtain m where n: "n = Suc (Suc m)" by (cases n; cases "n - 1") auto
  have "s \<le> s1" using peek_ge [OF exec_block(1)] .
  then have "4 * (length buf - s1) + 4 \<le> m + 4" using exec_block(9) n by linarith
  then have "parseline m buf s3 = Inr (c, s4)"
    by (intro exec_block(5) fuel_step [OF exec_block(2,3)])
  with exec_block n show ?case by simp
qed

lemma parsecmd_iff:
  "parsecmd buf = Inr (cmd, m) \<longleftrightarrow>
     (\<exists>s. is_line buf 0 cmd s \<and> skip_space buf s = length buf \<and> m = nulterminate cmd (buf @ [NUL]))"
proof
  assume "parsecmd buf = Inr (cmd, m)"
  then show "\<exists>s. is_line buf 0 cmd s \<and> skip_space buf s = length buf \<and> m = nulterminate cmd (buf @ [NUL])"
    using parse_sound [of "4 * length buf + 4" buf]
    by (fastforce simp: parsecmd_def bindE_iff peek_def Let_def split: if_splits)
next
  assume "\<exists>s. is_line buf 0 cmd s \<and> skip_space buf s = length buf \<and> m = nulterminate cmd (buf @ [NUL])"
  then obtain s where s: "is_line buf 0 cmd s" "skip_space buf s = length buf" "m = nulterminate cmd (buf @ [NUL])" by blast
  with parse_complete(1) [OF s(1), of "4 * length buf + 4"] show "parsecmd buf = Inr (cmd, m)"
    by (simp add: parsecmd_def peek_def Let_def del: parseline.simps)
qed

section \<open>The commands the parser builds\<close>

text \<open>
  A command is well formed when every \<open>EXEC\<close> has fewer than \<^verbatim>\<open>MAXARGS\<close> arguments, every redirection has the mode and the
  descriptor of one of the three operators, and every word satisfies \<open>W\<close>.
\<close>

definition redir_modes :: "(int \<times> int) set" where
  "redir_modes = {(O_RDONLY, 0), (O_WRONLY OR O_CREATE OR O_TRUNC, 1), (O_WRONLY OR O_CREATE, 1)}"

primrec cmd_ok :: "('w \<Rightarrow> bool) \<Rightarrow> 'w cmd \<Rightarrow> bool" where
  "cmd_ok W (EXEC args) \<longleftrightarrow> length args < MAXARGS \<and> list_all W args"
| "cmd_ok W (REDIR c f mode fd) \<longleftrightarrow> cmd_ok W c \<and> W f \<and> (mode, fd) \<in> redir_modes"
| "cmd_ok W (PIPE l r) \<longleftrightarrow> cmd_ok W l \<and> cmd_ok W r"
| "cmd_ok W (LIST l r) \<longleftrightarrow> cmd_ok W l \<and> cmd_ok W r"
| "cmd_ok W (BACK c) \<longleftrightarrow> cmd_ok W c"

text \<open>The arguments of the \<open>EXEC\<close> under the redirections, if there is one.\<close>

fun nargs :: "'w cmd \<Rightarrow> nat" where
  "nargs (EXEC args) = length args"
| "nargs (REDIR c f mode fd) = nargs c"
| "nargs c = 0"

lemma redircmd_ok:
  "tok \<in> {CHR ''<'', CHR ''>'', CHR ''+''} \<Longrightarrow> cmd_ok W c \<Longrightarrow> W w \<Longrightarrow> cmd_ok W (redircmd tok c w)"
  "nargs (redircmd tok c w) = nargs c"
  by (auto simp: redircmd_def redir_modes_def)

lemma add_arg_ok:
  "cmd_ok W c \<Longrightarrow> W w \<Longrightarrow> Suc (nargs c) < MAXARGS \<Longrightarrow> cmd_ok W (add_arg w c)"
  "nargs (add_arg w c) \<le> Suc (nargs c)"
  by (induction w c rule: add_arg.induct) auto

lemma parseredirs_ok:
  assumes "parseredirs cmd buf s = Inr (cmd', s')" and "NUL \<notin> set buf" and "cmd_ok (is_word buf) cmd"
  shows "cmd_ok (is_word buf) cmd' \<and> nargs cmd' = nargs cmd"
  using assms(1)
proof (induction rule: parseredirs_induct)
  case base
  then show ?case using assms(3) by simp
next
  case (step tok c w)
  then show ?case using assms(2) by (auto simp: redircmd_ok(2) intro!: redircmd_ok(1))
qed

lemma parseexec_loop_ok:
  assumes "parseexec_loop argc ret buf s = Inr (ret', s')" and "NUL \<notin> set buf" and "cmd_ok (is_word buf) ret"
    and "nargs ret \<le> argc"
  shows "cmd_ok (is_word buf) ret'"
  using assms
proof (induction argc ret buf s rule: parseexec_loop.induct)
  case (1 argc ret buf s)
  obtain s1 b where p: "peek buf s ''|)&;'' = (s1, b)" by (cases "peek buf s ''|)&;''")
  obtain tok q eq s2 where g: "gettoken buf s1 = (tok, q, eq, s2)" by (cases "gettoken buf s1")
  show ?case
  proof (cases "b \<or> tok = NUL")
    case True
    with 1(2,4) p g show ?thesis by (subst (asm) parseexec_loop.simps) (auto split: if_splits)
  next
    case False
    with 1(2) p g obtain r s3 where pr: "parseredirs (add_arg (q, eq) ret) buf s2 = Inr (r, s3)"
      and rec: "parseexec_loop (Suc argc) r buf s3 = Inr (ret', s')" and tok: "tok = CHR ''a''" "\<not> MAXARGS \<le> Suc argc"
      by (subst (asm) parseexec_loop.simps) (auto simp: bindE_iff split: if_splits)
    have "is_word buf (q, eq)" using g tok(1) 1(3) gettoken_word by blast
    then have "cmd_ok (is_word buf) (add_arg (q, eq) ret)"
      using 1(4,5) tok(2) by (intro add_arg_ok) simp_all
    with parseredirs_ok [OF pr 1(3)] add_arg_ok(2) [of "(q, eq)" ret] 1(5)
    have "cmd_ok (is_word buf) r" "nargs r \<le> Suc argc" by auto
    then show ?thesis
      using 1(1) [OF p [symmetric] _ g [symmetric] refl refl _ _ tok(2) pr refl rec 1(3)] False tok by simp
  qed
qed

lemma parse_back_ok: "parse_back cmd buf s = (cmd', s') \<Longrightarrow> cmd_ok W cmd' = cmd_ok W cmd"
proof (induction cmd buf s rule: parse_back.induct)
  case (1 cmd buf s)
  obtain s1 b where p: "peek buf s ''&'' = (s1, b)" by (cases "peek buf s ''&''")
  obtain tok q eq s2 where g: "gettoken buf s1 = (tok, q, eq, s2)" by (cases "gettoken buf s1")
  show ?case
  proof (cases b)
    case False
    with 1(2) p show ?thesis by (subst (asm) parse_back.simps) auto
  next
    case True
    then have "parse_back (BACK cmd) buf s2 = (cmd', s')"
      using 1(2) p g by (subst (asm) parse_back.simps) simp
    with 1(1) [OF p [symmetric] True g [symmetric] refl refl] show ?thesis by auto
  qed
qed

lemma is_ok:
  "is_line buf s c s' \<Longrightarrow> NUL \<notin> set buf \<Longrightarrow> cmd_ok (is_word buf) c"
  "is_pipe buf s c s' \<Longrightarrow> NUL \<notin> set buf \<Longrightarrow> cmd_ok (is_word buf) c"
  "is_exec buf s c s' \<Longrightarrow> NUL \<notin> set buf \<Longrightarrow> cmd_ok (is_word buf) c"
proof (induction rule: is_line_is_pipe_is_exec.inducts)
  case (exec_simple s s1 c s2 c' s3)
  have "cmd_ok (is_word buf) (EXEC [])" by (simp add: MAXARGS_def)
  from parseredirs_ok [OF exec_simple(2,4) this] exec_simple(4) show ?case
    by (intro parseexec_loop_ok [OF exec_simple(3)]) simp_all
next
  case (exec_block s s1 s2 tok q eq s3 c s4 s5 tok' q' eq' s6 c' s7)
  then show ?case using parseredirs_ok [OF exec_block(8,9)] by simp
qed (simp_all add: parse_back_ok)

section \<open>The words in place\<close>

text \<open>The text of a pair of pointers, and the string that a pointer has after \<^verbatim>\<open>nulterminate\<close>.\<close>

fun word_text :: "string \<Rightarrow> span \<Rightarrow> string" where
  "word_text buf (q, e) = take (e - q) (drop q buf)"

definition string_at :: "string \<Rightarrow> span \<Rightarrow> string" where
  "string_at m w = takeWhile (\<lambda>c. c \<noteq> NUL) (drop (fst w) m)"

lemma nth_upd: "i < length xs \<Longrightarrow> xs[j := x] ! i = (if i = j then x else xs ! i)"
  by (cases "i = j") simp_all

lemma fold_nul_nth:
  "length (fold (\<lambda>(q, eq) m. m[eq := NUL]) ws m) = length m"
  "i < length m \<Longrightarrow> fold (\<lambda>(q, eq) m. m[eq := NUL]) ws m ! i = (if i \<in> snd ` set ws then NUL else m ! i)"
  by (induction ws arbitrary: m) (auto simp: nth_list_update image_iff split: prod.splits)

lemma nulterminate_nth:
  "length (nulterminate c m) = length m"
  "i < length m \<Longrightarrow> nulterminate c m ! i = (if i \<in> snd ` set_cmd c then NUL else m ! i)"
  by (induction c m rule: nulterminate.induct) (simp_all add: fold_nul_nth nth_upd image_Un)

lemma cmd_ok_words: "cmd_ok W c \<Longrightarrow> w \<in> set_cmd c \<Longrightarrow> W w"
  by (induction c) (auto simp: list_all_iff)

lemma string_at_nulterminate:
  assumes "\<And>w. w \<in> set_cmd c \<Longrightarrow> is_word buf w" and "w \<in> set_cmd c"
  shows "string_at (nulterminate c (buf @ [NUL])) w = word_text buf w"
proof -
  obtain q e where w: "w = (q, e)" by (cases w)
  with assms(1) [OF assms(2)] have q: "q < e" "e \<le> length buf" "\<And>i. q \<le> i \<Longrightarrow> i < e \<Longrightarrow> word_char (deref buf i)" by auto
  let ?m = "nulterminate c (buf @ [NUL])"
  have len: "length ?m = Suc (length buf)" by (simp add: nulterminate_nth)
  have keep: "?m ! i = buf ! i" "buf ! i \<noteq> NUL" if i: "q \<le> i" "i < e" for i
  proof -
    have "word_char (deref buf i)" using q(3) i by blast
    moreover have "\<not> word_char (deref buf i)" if "i \<in> snd ` set_cmd c"
      using that assms(1) by fastforce
    ultimately have "i \<notin> snd ` set_cmd c" by blast
    with i q(2) show "?m ! i = buf ! i" by (simp add: nulterminate_nth nth_append)
    show "buf ! i \<noteq> NUL"
      using \<open>word_char (deref buf i)\<close> i q(2) by (auto simp: word_char_def deref_def)
  qed
  have "e \<in> snd ` set_cmd c" using assms(2) w by force
  then have nul: "?m ! e = NUL" using q(2) by (simp add: nulterminate_nth)
  have "drop q ?m = take (e - q) (drop q buf) @ NUL # drop (Suc e) ?m"
  proof -
    have "drop q ?m = take (e - q) (drop q ?m) @ drop e ?m"
      using q(1) by (metis append_take_drop_id drop_drop le_add_diff_inverse2 less_imp_le)
    also have "drop e ?m = NUL # drop (Suc e) ?m"
      using q(2) len nul Cons_nth_drop_Suc [of e ?m] by simp
    also have "take (e - q) (drop q ?m) = take (e - q) (drop q buf)"
      using q(1,2) len keep by (intro nth_equalityI) auto
    finally show ?thesis .
  qed
  moreover have "\<forall>c\<in>set (take (e - q) (drop q buf)). c \<noteq> NUL"
    using keep(2) q(2) by (auto simp: in_set_conv_nth)
  ultimately show ?thesis by (simp add: string_at_def w takeWhile_append2)
qed

end
