(* ===== verification/ShellPrint.thy ===== *)
theory ShellPrint
  imports Shell
begin

text \<open>
  The round trip between commands of the shell and their texts. A printer for command trees is read back by
  the parser (\<^verbatim>\<open>FileSystem-RAID/user/sh.c\<close>): first token by token, then by a derivation in the grammar of
  the theory Shell for each command. At the end are the properties of the parser.
\<close>

section \<open>Printing commands\<close>

text \<open>
  A printer for commands, which brackets every part of a command. Tokens are separated by one space.
\<close>

definition plain_word :: "string \<Rightarrow> bool" where
  "plain_word w \<longleftrightarrow> w \<noteq> [] \<and> list_all word_char w"

definition redir_op :: "int \<Rightarrow> string" where
  "redir_op mode = (if mode = O_RDONLY then ''<'' else if mode = (O_WRONLY OR O_CREATE) then ''>>'' else ''>'')"

primrec cmd_tokens :: "string cmd \<Rightarrow> string list" where
  "cmd_tokens (EXEC args) = args"
| "cmd_tokens (REDIR c f mode fd) = ''('' # cmd_tokens c @ [ '')'', redir_op mode, f]"
| "cmd_tokens (PIPE l r) = ''('' # cmd_tokens l @ '')'' # ''|'' # ''('' # cmd_tokens r @ [ '')'' ]"
| "cmd_tokens (LIST l r) = ''('' # cmd_tokens l @ '')'' # '';'' # ''('' # cmd_tokens r @ [ '')'' ]"
| "cmd_tokens (BACK c) = ''('' # cmd_tokens c @ [ '')'', ''&'' ]"

fun join :: "string list \<Rightarrow> string" where
  "join [] = []"
| "join [t] = t"
| "join (t # ts) = t @ CHR '' '' # join ts"

definition print_cmd :: "string cmd \<Rightarrow> string" where
  "print_cmd c = join (cmd_tokens c)"

section \<open>Reading back tokens\<close>

definition op_token :: "string \<Rightarrow> bool" where
  "op_token t \<longleftrightarrow> t \<in> {''('', '')'', ''|'', '';'', ''&'', ''<'', ''>'', ''>>''}"

definition token :: "string \<Rightarrow> bool" where
  "token t \<longleftrightarrow> op_token t \<or> plain_word t"

definition token_class :: "string \<Rightarrow> char" where
  "token_class t = (if op_token t then (if t = ''>>'' then CHR ''+'' else hd t) else CHR ''a'')"

text \<open>\<open>ahead buf s ts\<close>: from \<open>s\<close> on the line holds the tokens \<open>ts\<close>.\<close>

definition ahead :: "string \<Rightarrow> nat \<Rightarrow> string list \<Rightarrow> bool" where
  "ahead buf s ts \<longleftrightarrow> drop (skip_space buf s) buf = join ts \<and> list_all token ts"

lemma join_Cons: "join (t # ts) = t @ (if ts = [] then [] else CHR '' '' # join ts)"
  by (cases ts) simp_all

lemma token_hd: "token t \<Longrightarrow> t \<noteq> [] \<and> hd t \<notin> set whitespace \<and> hd t \<noteq> NUL"
  by (cases t) (auto simp: token_def op_token_def plain_word_def word_char_def whitespace_def)

lemma deref_drop: "drop s buf = c # cs \<Longrightarrow> deref buf s = c \<and> s < length buf \<and> drop (Suc s) buf = cs"
  by (metis Cons_nth_drop_Suc deref_def drop_all leI list.distinct(1) list.inject)

lemma deref_end: "drop s buf = [] \<Longrightarrow> deref buf s = NUL"
  by (simp add: deref_def)

lemma skip_space_at:
  "drop s buf = [] \<or> hd (drop s buf) \<notin> set whitespace \<Longrightarrow> skip_space buf s = s"
  by (cases "drop s buf") (auto simp: skip_space.simps [of buf s] dest!: deref_drop)

lemma skip_space_space: "drop s buf = CHR '' '' # cs \<Longrightarrow> skip_space buf s = skip_space buf (Suc s)"
  by (subst skip_space.simps) (auto simp: whitespace_def dest!: deref_drop)

lemma ahead_at:
  assumes "drop s buf = join ts" and "list_all token ts"
  shows "ahead buf s ts"
proof -
  have "skip_space buf s = s"
    using assms token_hd by (intro skip_space_at) (cases ts; auto simp: join_Cons)
  with assms show ?thesis by (simp add: ahead_def)
qed

lemma ahead_after:
  assumes "drop s buf = (if ts = [] then [] else CHR '' '' # join ts)" and "list_all token ts"
  shows "ahead buf (skip_space buf s) ts"
proof (cases ts)
  case Nil
  then show ?thesis using assms by (simp add: ahead_def skip_space_idem skip_space_at)
next
  case (Cons t ts')
  with assms have d: "drop s buf = CHR '' '' # join ts" by simp
  then have "ahead buf (Suc s) ts" using deref_drop [OF d] assms(2) by (intro ahead_at) simp_all
  then show ?thesis using skip_space_space [OF d] by (simp add: ahead_def skip_space_idem)
qed

lemma scan_word_at:
  assumes "drop q buf = w @ r" and "list_all word_char w" and "r = [] \<or> \<not> word_char (hd r) \<and> hd r \<noteq> NUL"
  shows "scan_word buf q = q + length w"
  using assms
proof (induction w arbitrary: q)
  case Nil
  then show ?case
    by (cases r) (auto simp: scan_word.simps [of buf q] word_char_def dest!: deref_drop)
next
  case (Cons c w)
  then have d: "deref buf q = c" "q < length buf" "drop (Suc q) buf = w @ r"
    using deref_drop [of q buf c "w @ r"] by simp_all
  have "scan_word buf (Suc q) = Suc q + length w" using Cons d by (intro Cons.IH) simp_all
  with d Cons.prems(2) show ?case by (subst scan_word.simps) (simp add: word_char_def)
qed

lemma peek_ahead:
  assumes "ahead buf s ts"
  shows "peek buf s toks = (skip_space buf s, ts \<noteq> [] \<and> hd (hd ts) \<in> set toks)" "ahead buf (skip_space buf s) ts"
proof -
  show "ahead buf (skip_space buf s) ts" using assms by (simp add: ahead_def skip_space_idem)
  have "deref buf (skip_space buf s) = (if ts = [] then NUL else hd (hd ts))"
  proof (cases ts)
    case Nil
    with assms show ?thesis by (simp add: ahead_def deref_end)
  next
    case (Cons t ts')
    with assms have "token t" by (simp add: ahead_def)
    then obtain c cs where "t = c # cs" using token_hd by (cases t) auto
    with assms Cons show ?thesis by (auto simp: ahead_def join_Cons dest!: deref_drop)
  qed
  moreover have "ts \<noteq> [] \<Longrightarrow> hd (hd ts) \<noteq> NUL"
    using assms token_hd by (cases ts) (auto simp: ahead_def)
  ultimately show "peek buf s toks = (skip_space buf s, ts \<noteq> [] \<and> hd (hd ts) \<in> set toks)"
    by (auto simp: peek_def Let_def)
qed

lemma gettoken_end: "ahead buf s [] \<Longrightarrow> \<exists>q e s'. gettoken buf s = (NUL, q, e, s') \<and> ahead buf s' []"
  using deref_end by (auto simp: ahead_def gettoken_def Let_def skip_space_idem)

lemma gettoken_ahead:
  assumes "ahead buf s (t # ts)"
  shows "\<exists>q e s'. gettoken buf s = (token_class t, q, e, s') \<and> word_text buf (q, e) = t \<and> ahead buf s' ts"
proof -
  define q where "q = skip_space buf s"
  let ?r = "if ts = [] then [] else CHR '' '' # join ts"
  have d: "drop q buf = t @ ?r" and t: "token t" "list_all token ts"
    using assms by (simp_all add: ahead_def q_def join_Cons)
  obtain c cs where c: "t = c # cs" using token_hd [OF t(1)] by (cases t) auto
  have dc: "deref buf q = c" using d c deref_drop [of q buf c "cs @ ?r"] by simp
  have "gettoken buf s = (token_class t, q, q + length t, skip_space buf (q + length t))"
  proof (cases "op_token t")
    case True
    have next': "deref buf (Suc q) = (if cs \<noteq> [] then hd cs else if ts = [] then NUL else CHR '' '')"
      using d c deref_drop [of q buf c "cs @ ?r"] deref_drop [of "Suc q" buf] deref_end [of "Suc q" buf]
      by (cases cs) (auto split: if_splits)
    from True show ?thesis
      using dc next' c by (auto simp: op_token_def token_class_def gettoken_def q_def [symmetric] Let_def)
  next
    case False
    then have w: "list_all word_char t" using t(1) by (simp add: token_def plain_word_def)
    have "scan_word buf q = q + length t"
      using d w by (intro scan_word_at [where r = ?r]) (auto simp: word_char_def whitespace_def)
    moreover have "word_char c" using w c by simp
    ultimately show ?thesis
      using dc False by (auto simp: token_class_def gettoken_def q_def [symmetric] Let_def word_char_def symbols_def)
  qed
  moreover have "drop (q + length t) buf = ?r"
    using d by (simp add: add.commute [of q] flip: drop_drop)
  then have "ahead buf (skip_space buf (q + length t)) ts" using t(2) by (rule ahead_after)
  moreover have "word_text buf (q, q + length t) = t" using d by simp
  ultimately show ?thesis by blast
qed

section \<open>The round trip\<close>

lemma parseredirs_none:
  assumes "ahead buf s ts" and "ts = [] \<or> hd (hd ts) \<notin> {CHR ''<'', CHR ''>''}"
  shows "parseredirs c buf s = Inr (c, skip_space buf s)"
  using assms(2) by (subst parseredirs.simps, subst peek_ahead(1) [OF assms(1)]) auto

lemma plain_word_token: "plain_word w \<Longrightarrow> token w \<and> token_class w = CHR ''a'' \<and> hd w \<notin> set symbols"
  by (cases w) (auto simp: token_def token_class_def op_token_def plain_word_def word_char_def symbols_def)

lemma args_ahead:
  assumes "ahead buf s (args @ rest)" and "rest = [] \<or> hd rest = '')''" and "list_all plain_word args"
    and "argc + length args < MAXARGS"
  shows "\<exists>ws s'. parseexec_loop argc (EXEC ws0) buf s = Inr (EXEC (ws0 @ ws), s') \<and>
    map (word_text buf) ws = args \<and> ahead buf s' rest"
  using assms
proof (induction args arbitrary: argc ws0 s)
  case Nil
  then have a: "ahead buf s rest" by simp
  show ?case
  proof (cases "rest = []")
    case False
    with Nil(2) have "peek buf s ''|)&;'' = (skip_space buf s, True)" by (simp add: peek_ahead(1) [OF a])
    then show ?thesis using peek_ahead(2) [OF a] by (subst parseexec_loop.simps) simp
  next
    case True
    then have p: "peek buf s ''|)&;'' = (skip_space buf s, False)" by (simp add: peek_ahead(1) [OF a])
    obtain q e s' where "gettoken buf (skip_space buf s) = (NUL, q, e, s')" "ahead buf s' []"
      using gettoken_end [of buf "skip_space buf s"] peek_ahead(2) [OF a] True by auto
    with p True show ?thesis by (subst parseexec_loop.simps) simp
  qed
next
  case (Cons w args)
  have w: "plain_word w" "token_class w = CHR ''a''" "hd w \<notin> set symbols"
    using Cons.prems(3) plain_word_token by auto
  have p: "peek buf s ''|)&;'' = (skip_space buf s, False)"
    using w(3) by (auto simp: peek_ahead(1) [OF Cons.prems(1)] symbols_def)
  obtain q e s2 where g: "gettoken buf (skip_space buf s) = (CHR ''a'', q, e, s2)" "word_text buf (q, e) = w"
    and a: "ahead buf s2 (args @ rest)"
    using gettoken_ahead [of buf "skip_space buf s" w "args @ rest"] peek_ahead(2) [OF Cons.prems(1)] w(2) by auto
  have "args @ rest = [] \<or> hd (hd (args @ rest)) \<notin> {CHR ''<'', CHR ''>''}"
    using Cons.prems(2,3) plain_word_token by (cases args) (auto simp: symbols_def)
  with a have r: "parseredirs (EXEC (ws0 @ [(q, e)])) buf s2 = Inr (EXEC (ws0 @ [(q, e)]), skip_space buf s2)"
    by (rule parseredirs_none)
  obtain ws s' where IH: "parseexec_loop (Suc argc) (EXEC (ws0 @ [(q, e)])) buf (skip_space buf s2)
      = Inr (EXEC ((ws0 @ [(q, e)]) @ ws), s')" "map (word_text buf) ws = args" "ahead buf s' rest"
    using Cons.IH [OF peek_ahead(2) [OF a] Cons.prems(2), of "Suc argc" "ws0 @ [(q, e)]"] Cons.prems(3,4) by auto
  have "parseexec_loop argc (EXEC ws0) buf s = Inr (EXEC (ws0 @ (q, e) # ws), s')"
    using p g(1) r IH(1) Cons.prems(4) by (subst parseexec_loop.simps) simp
  with g(2) IH show ?case by (intro exI [of _ "(q, e) # ws"] exI [of _ s']) simp
qed

definition reads_back :: "string cmd \<Rightarrow> bool" where
  "reads_back c \<longleftrightarrow> (\<forall>buf s rest. ahead buf s (cmd_tokens c @ rest) \<longrightarrow> (rest = [] \<or> hd rest = '')'') \<longrightarrow>
     (\<exists>cmd s'. is_line buf s cmd s' \<and> map_cmd (word_text buf) cmd = c \<and> ahead buf s' rest))"

lemma block_ahead:
  assumes "reads_back c" and "ahead buf s (''('' # cmd_tokens c @ '')'' # rest)"
  shows "\<exists>cmd s'. map_cmd (word_text buf) cmd = c \<and> ahead buf s' rest \<and>
    (\<forall>c' s''. parseredirs cmd buf s' = Inr (c', s'') \<longrightarrow> is_exec buf s c' s'')"
proof -
  let ?s = "skip_space buf s"
  note a = peek_ahead [OF assms(2)]
  have p: "peek buf s ''('' = (?s, True)" "peek buf ?s ''('' = (?s, True)"
    by (simp_all add: a(1) peek_ahead(1) [OF a(2)] skip_space_idem)
  obtain q e s3 where g: "gettoken buf ?s = (token_class ''('', q, e, s3)" "ahead buf s3 (cmd_tokens c @ '')'' # rest)"
    using gettoken_ahead [OF a(2)] by auto
  from assms(1) g(2) obtain cmd s4 where l: "is_line buf s3 cmd s4" "map_cmd (word_text buf) cmd = c" "ahead buf s4 ('')'' # rest)"
    unfolding reads_back_def by fastforce
  have p': "peek buf s4 '')'' = (skip_space buf s4, True)" by (simp add: peek_ahead(1) [OF l(3)])
  obtain q' e' s6 where g': "gettoken buf (skip_space buf s4) = (token_class '')'', q', e', s6)" "ahead buf s6 rest"
    using gettoken_ahead [OF peek_ahead(2) [OF l(3)]] by auto
  show ?thesis
    using l(2) g'(2) exec_block [OF p g(1) l(1) p' g'(1)] by blast
qed

lemma block_plain:
  assumes "reads_back c" and "ahead buf s (''('' # cmd_tokens c @ '')'' # rest)"
    and "rest = [] \<or> hd (hd rest) \<notin> {CHR ''<'', CHR ''>''}"
  shows "\<exists>cmd s'. map_cmd (word_text buf) cmd = c \<and> is_exec buf s cmd s' \<and> ahead buf s' rest"
proof -
  obtain cmd s1 where b: "map_cmd (word_text buf) cmd = c" "ahead buf s1 rest"
    "\<And>c' s''. parseredirs cmd buf s1 = Inr (c', s'') \<Longrightarrow> is_exec buf s c' s''"
    using block_ahead [OF assms(1,2)] by blast
  from b(3) [OF parseredirs_none [OF b(2) assms(3)]] b(1) peek_ahead(2) [OF b(2)] show ?thesis by blast
qed

lemma exec_to_pipe:
  assumes "is_exec buf s c s1" and "ahead buf s1 rest" and "rest = [] \<or> hd (hd rest) \<noteq> CHR ''|''"
  shows "\<exists>s'. is_pipe buf s c s' \<and> ahead buf s' rest"
proof -
  have "peek buf s1 ''|'' = (skip_space buf s1, False)"
    using assms(3) by (auto simp: peek_ahead(1) [OF assms(2)])
  from pipe_end [OF assms(1) this] peek_ahead(2) [OF assms(2)] show ?thesis by blast
qed

lemma parse_back_none:
  assumes "ahead buf s ts" and "ts = [] \<or> hd (hd ts) \<noteq> CHR ''&''"
  shows "parse_back c buf s = (c, skip_space buf s)"
  using assms(2) by (subst parse_back.simps, subst peek_ahead(1) [OF assms(1)]) auto

lemma pipe_to_line:
  assumes "is_pipe buf s c s1" and "parse_back c buf s1 = (c', s2)" and "ahead buf s2 rest"
    and "rest = [] \<or> hd rest = '')''"
  shows "\<exists>s'. is_line buf s c' s' \<and> ahead buf s' rest"
proof -
  have "peek buf s2 '';'' = (skip_space buf s2, False)"
    using assms(4) by (auto simp: peek_ahead(1) [OF assms(3)])
  from line_end [OF assms(1,2) this] peek_ahead(2) [OF assms(3)] show ?thesis by blast
qed

lemma exec_to_line:
  assumes "is_exec buf s c s1" and "ahead buf s1 rest" and "rest = [] \<or> hd rest = '')''"
  shows "\<exists>s'. is_line buf s c s' \<and> ahead buf s' rest"
proof -
  obtain s2 where s2: "is_pipe buf s c s2" "ahead buf s2 rest"
    using exec_to_pipe [OF assms(1,2)] assms(3) by auto
  have "parse_back c buf s2 = (c, skip_space buf s2)"
    using assms(3) by (intro parse_back_none [OF s2(2)]) auto
  from pipe_to_line [OF s2(1) this peek_ahead(2) [OF s2(2)] assms(3)] show ?thesis .
qed

text \<open>The separator \<open>op\<close> behind a bracketed command is the next token.\<close>

lemma next_op:
  assumes "ahead buf s (t # rest)" and "hd t \<in> set toks"
  shows "\<exists>tok q e s'. peek buf s toks = (skip_space buf s, True) \<and>
    gettoken buf (skip_space buf s) = (tok, q, e, s') \<and> tok = token_class t \<and> word_text buf (q, e) = t \<and> ahead buf s' rest"
  using assms(2) gettoken_ahead [OF peek_ahead(2) [OF assms(1)]] by (auto simp: peek_ahead(1) [OF assms(1)])

lemma reads_back_EXEC:
  assumes "cmd_ok plain_word (EXEC args)"
  shows "reads_back (EXEC args)"
  unfolding reads_back_def
proof (intro allI impI)
  fix buf s rest
  assume a: "ahead buf s (cmd_tokens (EXEC args) @ rest)" and r: "rest = [] \<or> hd rest = '')''"
  let ?ts = "args @ rest"
  from a have a: "ahead buf s ?ts" by simp
  have h: "?ts = [] \<or> hd (hd ?ts) \<notin> {CHR ''('', CHR ''<'', CHR ''>''}"
    using assms r plain_word_token by (cases args) (auto simp: symbols_def)
  have p: "peek buf s ''('' = (skip_space buf s, False)" using h by (auto simp: peek_ahead(1) [OF a])
  let ?s = "skip_space buf (skip_space buf s)"
  have pr: "parseredirs (EXEC []) buf (skip_space buf s) = Inr (EXEC [], ?s)"
    using h by (intro parseredirs_none [OF peek_ahead(2) [OF a]]) auto
  obtain ws s3 where l: "parseexec_loop 0 (EXEC []) buf ?s = Inr (EXEC ws, s3)"
    and w: "map (word_text buf) ws = args" and a3: "ahead buf s3 rest"
    using args_ahead [OF peek_ahead(2) [OF peek_ahead(2) [OF a]] r, of 0 "[]"] assms by auto
  obtain s' where "is_line buf s (EXEC ws) s'" "ahead buf s' rest"
    using exec_to_line [OF exec_simple [OF p pr l] a3 r] by blast
  with w show "\<exists>cmd s'. is_line buf s cmd s' \<and> map_cmd (word_text buf) cmd = EXEC args \<and> ahead buf s' rest"
    by (intro exI [of _ "EXEC ws"] exI [of _ s']) simp
qed

lemma reads_back_REDIR:
  assumes "reads_back c" and "plain_word f" and "(mode, fd) \<in> redir_modes"
  shows "reads_back (REDIR c f mode fd)"
  unfolding reads_back_def
proof (intro allI impI)
  fix buf s rest
  assume a: "ahead buf s (cmd_tokens (REDIR c f mode fd) @ rest)" and r: "rest = [] \<or> hd rest = '')''"
  from a have "ahead buf s (''('' # cmd_tokens c @ '')'' # redir_op mode # f # rest)" by simp
  from block_ahead [OF assms(1) this] obtain cmd s1 where b: "map_cmd (word_text buf) cmd = c"
    "ahead buf s1 (redir_op mode # f # rest)"
    "\<And>c' s''. parseredirs cmd buf s1 = Inr (c', s'') \<Longrightarrow> is_exec buf s c' s''" by blast
  have "hd (redir_op mode) \<in> set ''<>''" by (simp add: redir_op_def)
  from next_op [OF b(2) this] obtain q e s2 where p: "peek buf s1 ''<>'' = (skip_space buf s1, True)"
    and g: "gettoken buf (skip_space buf s1) = (token_class (redir_op mode), q, e, s2)" and a2: "ahead buf s2 (f # rest)" by blast
  obtain q' e' s3 where h: "gettoken buf s2 = (CHR ''a'', q', e', s3)" "word_text buf (q', e') = f" and a3: "ahead buf s3 rest"
    using gettoken_ahead [OF a2] plain_word_token [OF assms(2)] by auto
  have "redircmd (token_class (redir_op mode)) cmd (q', e') = REDIR cmd (q', e') mode fd"
    using assms(3)
    by (auto simp: redir_modes_def redircmd_def redir_op_def token_class_def op_token_def O_RDONLY_def O_WRONLY_def O_CREATE_def O_TRUNC_def)
  moreover have "parseredirs (REDIR cmd (q', e') mode fd) buf s3 = Inr (REDIR cmd (q', e') mode fd, skip_space buf s3)"
    using r by (intro parseredirs_none [OF a3]) auto
  ultimately have "parseredirs cmd buf s1 = Inr (REDIR cmd (q', e') mode fd, skip_space buf s3)"
    using p g h(1) by (subst parseredirs.simps) simp
  from exec_to_line [OF b(3) [OF this] peek_ahead(2) [OF a3] r] obtain s' where
    "is_line buf s (REDIR cmd (q', e') mode fd) s'" "ahead buf s' rest" by blast
  with b(1) h(2) show "\<exists>cmd s'. is_line buf s cmd s' \<and> map_cmd (word_text buf) cmd = REDIR c f mode fd \<and> ahead buf s' rest"
    by (intro exI [of _ "REDIR cmd (q', e') mode fd"] exI [of _ s']) (simp del: word_text.simps)
qed

lemma reads_back_PIPE:
  assumes "reads_back l" and "reads_back r"
  shows "reads_back (PIPE l r)"
  unfolding reads_back_def
proof (intro allI impI)
  fix buf s rest
  assume "ahead buf s (cmd_tokens (PIPE l r) @ rest)" and rest: "rest = [] \<or> hd rest = '')''"
  then have "ahead buf s (''('' # cmd_tokens l @ '')'' # ''|'' # ''('' # cmd_tokens r @ '')'' # rest)" by simp
  from block_plain [OF assms(1) this] obtain c s1 where l: "map_cmd (word_text buf) c = l" "is_exec buf s c s1"
    and a1: "ahead buf s1 (''|'' # ''('' # cmd_tokens r @ '')'' # rest)" by auto
  from next_op [OF a1, of "''|''"] obtain tok q e s2 where o: "peek buf s1 ''|'' = (skip_space buf s1, True)"
    "gettoken buf (skip_space buf s1) = (tok, q, e, s2)" and a2: "ahead buf s2 (''('' # cmd_tokens r @ '')'' # rest)" by auto
  from block_plain [OF assms(2) a2] rest obtain d s3 where d: "map_cmd (word_text buf) d = r" "is_exec buf s2 d s3" "ahead buf s3 rest"
    by auto
  from exec_to_pipe [OF d(2,3)] rest obtain s4 where "is_pipe buf s2 d s4" and a4: "ahead buf s4 rest" by auto
  note pipe_pipe [OF l(2) o this(1)]
  moreover have "parse_back (PIPE c d) buf s4 = (PIPE c d, skip_space buf s4)"
    using rest by (intro parse_back_none [OF a4]) auto
  ultimately obtain s' where "is_line buf s (PIPE c d) s'" "ahead buf s' rest"
    using pipe_to_line [OF _ _ peek_ahead(2) [OF a4] rest] by blast
  with l(1) d(1) show "\<exists>cmd s'. is_line buf s cmd s' \<and> map_cmd (word_text buf) cmd = PIPE l r \<and> ahead buf s' rest"
    by (intro exI [of _ "PIPE c d"] exI [of _ s']) simp
qed

lemma reads_back_LIST:
  assumes "reads_back l" and "reads_back r"
  shows "reads_back (LIST l r)"
  unfolding reads_back_def
proof (intro allI impI)
  fix buf s rest
  assume "ahead buf s (cmd_tokens (LIST l r) @ rest)" and rest: "rest = [] \<or> hd rest = '')''"
  then have "ahead buf s (''('' # cmd_tokens l @ '')'' # '';'' # ''('' # cmd_tokens r @ '')'' # rest)" by simp
  from block_plain [OF assms(1) this] obtain c s0 where l: "map_cmd (word_text buf) c = l" "is_exec buf s c s0"
    and a0: "ahead buf s0 ('';'' # ''('' # cmd_tokens r @ '')'' # rest)" by auto
  from exec_to_pipe [OF l(2) a0] obtain s1 where c: "is_pipe buf s c s1"
    and a1: "ahead buf s1 ('';'' # ''('' # cmd_tokens r @ '')'' # rest)" by auto
  let ?s1 = "skip_space buf s1"
  have pb: "parse_back c buf s1 = (c, ?s1)" by (rule parse_back_none [OF a1]) simp
  from next_op [OF peek_ahead(2) [OF a1], of "'';''"] obtain tok q e s2 where
    o: "peek buf ?s1 '';'' = (skip_space buf ?s1, True)" "gettoken buf (skip_space buf ?s1) = (tok, q, e, s2)"
    and a2: "ahead buf s2 (''('' # cmd_tokens r @ '')'' # rest)" by auto
  from block_plain [OF assms(2) a2] rest obtain d s3 where d: "map_cmd (word_text buf) d = r" "is_exec buf s2 d s3" "ahead buf s3 rest"
    by auto
  from exec_to_line [OF d(2,3) rest] obtain s' where "is_line buf s2 d s'" "ahead buf s' rest" by blast
  with line_list [OF c pb o] l(1) d(1)
  show "\<exists>cmd s'. is_line buf s cmd s' \<and> map_cmd (word_text buf) cmd = LIST l r \<and> ahead buf s' rest"
    by (intro exI [of _ "LIST c d"] exI [of _ s']) simp
qed

lemma reads_back_BACK:
  assumes "reads_back c"
  shows "reads_back (BACK c)"
  unfolding reads_back_def
proof (intro allI impI)
  fix buf s rest
  assume "ahead buf s (cmd_tokens (BACK c) @ rest)" and rest: "rest = [] \<or> hd rest = '')''"
  then have "ahead buf s (''('' # cmd_tokens c @ '')'' # ''&'' # rest)" by simp
  from block_plain [OF assms(1) this] obtain d s0 where d: "map_cmd (word_text buf) d = c" "is_exec buf s d s0"
    and a0: "ahead buf s0 (''&'' # rest)" by auto
  from exec_to_pipe [OF d(2) a0] obtain s1 where p: "is_pipe buf s d s1" and a1: "ahead buf s1 (''&'' # rest)" by auto
  from next_op [OF a1, of "''&''"] obtain tok q e s2 where o: "peek buf s1 ''&'' = (skip_space buf s1, True)"
    "gettoken buf (skip_space buf s1) = (tok, q, e, s2)" and a2: "ahead buf s2 rest" by auto
  have "parse_back (BACK d) buf s2 = (BACK d, skip_space buf s2)"
    using rest by (intro parse_back_none [OF a2]) auto
  then have "parse_back d buf s1 = (BACK d, skip_space buf s2)"
    using o by (subst parse_back.simps) simp
  from pipe_to_line [OF p this peek_ahead(2) [OF a2] rest] obtain s' where "is_line buf s (BACK d) s'" "ahead buf s' rest" by blast
  with d(1) show "\<exists>cmd s'. is_line buf s cmd s' \<and> map_cmd (word_text buf) cmd = BACK c \<and> ahead buf s' rest"
    by (intro exI [of _ "BACK d"] exI [of _ s']) simp
qed

lemma cmd_reads_back: "cmd_ok plain_word c \<Longrightarrow> reads_back c"
  by (induction c) (simp_all add: reads_back_EXEC reads_back_REDIR reads_back_PIPE reads_back_LIST reads_back_BACK del: cmd_ok.simps(1))

lemma op_tokens:
  "token ''(''" "token '')''" "token ''|''" "token '';''" "token ''&''" "token (redir_op mode)"
  by (simp_all add: token_def op_token_def redir_op_def)

lemma cmd_tokens_ok: "cmd_ok plain_word c \<Longrightarrow> list_all token (cmd_tokens c)"
  by (induction c) (simp_all add: op_tokens plain_word_token list_all_iff ball_Un)

section \<open>Properties\<close>

text \<open>C31: The parser always returns: the depth it is given is never reached, so a line either parses or
  ends in one of the panics of the source.
\<close>

theorem parsecmd_returns: "parsecmd buf \<noteq> Inl Fuel"
proof -
  have "parseline (4 * length buf + 4) buf 0 \<noteq> Inl Fuel"
    using parse_no_Fuel [of buf "4 * length buf + 4", THEN conjunct1, rule_format, of 0] by simp
  then show ?thesis by (auto simp: parsecmd_def bindE_iff peek_def Let_def simp del: parseline.simps)
qed

text \<open>C30: A command that the parser returns is well formed: each of its simple commands has at most nine arguments, so \<^verbatim>\<open>argv\<close> and its null pointer fit
  \<^verbatim>\<open>MAXARGS\<close>; each redirection has one of three pairs of mode and descriptor; and each of its words is a
  longest run of word characters of the line.
\<close>

theorem parsecmd_well_formed:
  assumes "parsecmd buf = Inr (cmd, m)" and "NUL \<notin> set buf"
  shows "cmd_ok (is_word buf) cmd"
  using assms is_ok(1) by (auto simp: parsecmd_iff)

lemma parsecmd_demo:
  "parsecmd ''a>b'' = Inr (REDIR (EXEC [(0, 1)]) (2, 3) 1537 1, [CHR ''a'', NUL, CHR ''b'', NUL])"
  by code_simp

theorem parsecmd_well_formed_witness: "cmd_ok (is_word ''a>b'') (REDIR (EXEC [(0, 1)]) (2, 3) 1537 1)"
  by (rule parsecmd_well_formed [OF parsecmd_demo]) simp

text \<open>C29: The NULs that \<^verbatim>\<open>nulterminate\<close> writes into the line cut no word: every argument and file
  name of the command, read as a C string from the line it leaves, is the word as it was typed.
\<close>

theorem nulterminate_keeps_words:
  assumes "parsecmd buf = Inr (cmd, m)" and "NUL \<notin> set buf"
  shows "map_cmd (string_at m) cmd = map_cmd (word_text buf) cmd"
proof -
  have m: "m = nulterminate cmd (buf @ [NUL])" and ok: "cmd_ok (is_word buf) cmd"
    using assms is_ok(1) by (auto simp: parsecmd_iff)
  show ?thesis
    unfolding m by (intro cmd.map_cong refl string_at_nulterminate cmd_ok_words [OF ok])
qed

theorem nulterminate_keeps_words_witness:
  "map_cmd (string_at [CHR ''a'', NUL, CHR ''b'', NUL]) (REDIR (EXEC [(0, 1)]) (2, 3) 1537 1) = REDIR (EXEC [''a'']) ''b'' 1537 1"
  using nulterminate_keeps_words [OF parsecmd_demo] by simp

text \<open>C28: Printing a command and parsing the text gives the command back: every command tree over plain words, with
  at most nine arguments and the modes of the three redirections, is what \<^verbatim>\<open>parsecmd\<close> returns for
  its bracketed text.
\<close>

theorem parse_print_cmd:
  assumes "cmd_ok plain_word c"
  shows "\<exists>cmd m. parsecmd (print_cmd c) = Inr (cmd, m) \<and> map_cmd (word_text (print_cmd c)) cmd = c"
proof -
  let ?buf = "print_cmd c"
  have "ahead ?buf 0 (cmd_tokens c @ [])"
    using cmd_tokens_ok [OF assms] by (intro ahead_at) (simp_all add: print_cmd_def)
  with cmd_reads_back [OF assms] obtain cmd s where "is_line ?buf 0 cmd s" "map_cmd (word_text ?buf) cmd = c" "ahead ?buf s []"
    unfolding reads_back_def by blast
  moreover from this(1,3) have "skip_space ?buf s = length ?buf"
    using is_moves(1) [of ?buf 0 cmd s] skip_space_le [of s ?buf] by (auto simp: ahead_def moves_def)
  ultimately show ?thesis using parsecmd_iff [of ?buf cmd "nulterminate cmd (?buf @ [NUL])"] by blast
qed

theorem parse_print_cmd_witness:
  "\<exists>cmd m. parsecmd (print_cmd (PIPE (REDIR (EXEC [''ls'']) ''f'' 513 1) (BACK (EXEC [''wc'', ''-l''])))) = Inr (cmd, m) \<and>
    map_cmd (word_text (print_cmd (PIPE (REDIR (EXEC [''ls'']) ''f'' 513 1) (BACK (EXEC [''wc'', ''-l'']))))) cmd =
      PIPE (REDIR (EXEC [''ls'']) ''f'' 513 1) (BACK (EXEC [''wc'', ''-l'']))"
  by (rule parse_print_cmd)
    (simp add: MAXARGS_def plain_word_def word_char_def whitespace_def symbols_def redir_modes_def O_WRONLY_def O_CREATE_def)

end
