(* ===== verification/ShellRun.thy ===== *)
theory ShellRun
  imports Shell
begin

text \<open>
  How the shell runs a command (\<^verbatim>\<open>runcmd\<close>, \<^verbatim>\<open>fork1\<close> and the loop of \<^verbatim>\<open>main\<close> in
  \<^verbatim>\<open>FileSystem-RAID/user/sh.c\<close>). The behaviour of a process is a tree of its system calls: a call that can fail
  has a branch for the failure, \<^verbatim>\<open>fork\<close> has one for the child. The descriptors of
  the process are threaded through the tree as the kernel keeps them; a call that needs a
  descriptor gets the lowest free one. The main result is that the programs of a command are started with
  the standard input and output that the command describes, and that no end of a pipe leaks into any of them.
\<close>

section \<open>Descriptors\<close>

text \<open>
  What a descriptor refers to: what the shell was started with, an opened file, or an end of a pipe. A pipe
  is named by the position of its command in the command tree.
\<close>

datatype chan = Given nat | Opened string int | PipeRead "nat list" | PipeWrite "nat list"

type_synonym fds = "chan option list"

primrec lowest_free :: "fds \<Rightarrow> nat option" where
  "lowest_free [] = None"
| "lowest_free (x # xs) = (if x = None then Some 0 else map_option Suc (lowest_free xs))"

definition close_fd :: "nat \<Rightarrow> fds \<Rightarrow> fds" where
  "close_fd fd fds = fds[fd := None]"

text \<open>A call that creates a descriptor; \<open>None\<close> when the table is full.\<close>

definition new_fd :: "chan \<Rightarrow> fds \<Rightarrow> (nat \<times> fds) option" where
  "new_fd x fds = map_option (\<lambda>fd. (fd, fds[fd := Some x])) (lowest_free fds)"

text \<open>\<^verbatim>\<open>dup\<close>: on a descriptor that is not open, or with a full table, it fails and changes nothing; its result is ignored.\<close>

definition dup_fd :: "nat \<Rightarrow> fds \<Rightarrow> fds" where
  "dup_fd fd fds =
     (case (if fd < length fds then fds ! fd else None) of
        None \<Rightarrow> fds
      | Some x \<Rightarrow> (case new_fd x fds of None \<Rightarrow> fds | Some (_, fds') \<Rightarrow> fds'))"

section \<open>Behaviours\<close>

text \<open>
  \<open>BExec argv fds f\<close> replaces the program, or goes on with \<open>f\<close> if that fails; \<open>BOpen\<close> and \<open>BPipe\<close> go on with
  their first branch when the call fails and with the second when it succeeds; \<open>BFork\<close> has the branches of failure, child and parent.
\<close>

datatype beh = BExit int | BExec "string list" fds beh | BOpen string int beh beh
  | BPipe beh beh | BFork beh beh beh | BWait beh

text \<open>\<^verbatim>\<open>panic\<close> prints its message and exits with status 1.\<close>

definition panic :: "string \<Rightarrow> beh" where
  "panic msg = BExit 1"

definition fork1 :: "beh \<Rightarrow> beh \<Rightarrow> beh" where
  "fork1 child parent = BFork (panic ''fork'') child parent"

primrec runcmd :: "nat list \<Rightarrow> string cmd \<Rightarrow> fds \<Rightarrow> beh" where
  "runcmd path (EXEC argv) fds = (if argv = [] then BExit 1 else BExec argv fds (BExit 0))"
| "runcmd path (REDIR c f mode fd) fds =
     (let fds = close_fd (nat fd) fds in
      case new_fd (Opened f mode) fds of
        None \<Rightarrow> BOpen f mode (BExit 1) (BExit 1)
      | Some (_, fds') \<Rightarrow> BOpen f mode (BExit 1) (runcmd (0 # path) c fds'))"
| "runcmd path (LIST l r) fds =
     fork1 (runcmd (0 # path) l fds) (BWait (runcmd (1 # path) r fds))"
| "runcmd path (PIPE l r) fds =
     (case new_fd (PipeRead path) fds of
        None \<Rightarrow> BPipe (panic ''pipe'') (panic ''pipe'')
      | Some (p0, fds0) \<Rightarrow>
        (case new_fd (PipeWrite path) fds0 of
           None \<Rightarrow> BPipe (panic ''pipe'') (panic ''pipe'')
         | Some (p1, fds1) \<Rightarrow>
           BPipe (panic ''pipe'')
             (fork1
               (runcmd (0 # path) l (close_fd p1 (close_fd p0 (dup_fd p1 (close_fd 1 fds1)))))
               (fork1
                 (runcmd (1 # path) r (close_fd p1 (close_fd p0 (dup_fd p0 (close_fd 0 fds1)))))
                 (BWait (BWait (BExit 0)))))))"
| "runcmd path (BACK c) fds = fork1 (runcmd (0 # path) c fds) (BExit 0)"

text \<open>One line of the loop of \<^verbatim>\<open>main\<close>: \<^verbatim>\<open>cd\<close> is done by the shell itself, everything else by a child.\<close>

datatype sh_action = Chdir string | RunLine string

definition main_line :: "string \<Rightarrow> sh_action" where
  "main_line buf =
     (if take 3 buf = ''cd '' then Chdir (drop 3 (butlast buf)) else RunLine buf)"

section \<open>Programs started\<close>

text \<open>The programs that are started when every call succeeds, with their descriptors.\<close>

primrec started :: "beh \<Rightarrow> (string list \<times> fds) list" where
  "started (BExit n) = []"
| "started (BExec argv fds f) = [(argv, fds)]"
| "started (BOpen f mode e b) = started b"
| "started (BPipe e b) = started b"
| "started (BFork e child parent) = started child @ started parent"
| "started (BWait b) = started b"

text \<open>What the command describes: each program with its standard input and output.\<close>

primrec plan :: "nat list \<Rightarrow> string cmd \<Rightarrow> chan \<Rightarrow> chan \<Rightarrow> (string list \<times> chan \<times> chan) list" where
  "plan path (EXEC argv) i out = (if argv = [] then [] else [(argv, i, out)])"
| "plan path (REDIR c f mode fd) i out =
     (if fd = 0 then plan (0 # path) c (Opened f mode) out else plan (0 # path) c i (Opened f mode))"
| "plan path (LIST l r) i out = plan (0 # path) l i out @ plan (1 # path) r i out"
| "plan path (PIPE l r) i out =
     plan (0 # path) l i (PipeWrite path) @ plan (1 # path) r (PipeRead path) out"
| "plan path (BACK c) i out = plan (0 # path) c i out"

text \<open>A table with standard input \<open>i\<close>, output \<open>out\<close> and the rest \<open>xs\<close>.\<close>

abbreviation table :: "chan \<Rightarrow> chan \<Rightarrow> fds \<Rightarrow> fds" where
  "table i out xs \<equiv> Some i # Some out # xs"

lemma lowest_free_Some: "lowest_free xs = Some n \<Longrightarrow> n < length xs \<and> xs ! n = None"
  by (induction xs arbitrary: n) (auto split: if_splits)

lemma lowest_free_None: "lowest_free xs = None \<longleftrightarrow> None \<notin> set xs"
  by (induction xs) auto

lemma redirect_table:
  assumes "fd = 0 \<or> fd = 1"
  shows "new_fd x (close_fd fd (table i out xs)) = Some (fd, if fd = 0 then table x out xs else table i x xs)"
  using assms by (auto simp: new_fd_def close_fd_def)

text \<open>Two descriptors must be free for a pipe.\<close>

lemma pipe_table:
  assumes "lowest_free xs = Some a" and "lowest_free (xs[a := Some (PipeRead p)]) = Some b"
  shows "new_fd (PipeRead p) (table i out xs) = Some (a + 2, table i out (xs[a := Some (PipeRead p)]))"
    and "new_fd (PipeWrite p) (table i out (xs[a := Some (PipeRead p)])) =
      Some (b + 2, table i out (xs[a := Some (PipeRead p), b := Some (PipeWrite p)]))"
    and "close_fd (b + 2) (close_fd (a + 2) (dup_fd (b + 2)
      (close_fd 1 (table i out (xs[a := Some (PipeRead p), b := Some (PipeWrite p)]))))) = table i (PipeWrite p) xs"
    and "close_fd (b + 2) (close_fd (a + 2) (dup_fd (a + 2)
      (close_fd 0 (table i out (xs[a := Some (PipeRead p), b := Some (PipeWrite p)]))))) = table (PipeRead p) out xs"
proof -
  have a: "a < length xs" "xs ! a = None" and b: "b < length xs" "b \<noteq> a" "xs ! b = None"
    using lowest_free_Some [OF assms(1)] lowest_free_Some [OF assms(2)] by (auto simp: nth_list_update split: if_splits)
  have back': "xs[a := v, b := w, a := None, b := None] = xs" for v w
    using a b by (intro nth_equalityI) (auto simp: nth_list_update)
  show "new_fd (PipeRead p) (table i out xs) = Some (a + 2, table i out (xs[a := Some (PipeRead p)]))"
    "new_fd (PipeWrite p) (table i out (xs[a := Some (PipeRead p)])) =
      Some (b + 2, table i out (xs[a := Some (PipeRead p), b := Some (PipeWrite p)]))"
    using assms by (simp_all add: new_fd_def)
  show "close_fd (b + 2) (close_fd (a + 2) (dup_fd (b + 2)
      (close_fd 1 (table i out (xs[a := Some (PipeRead p), b := Some (PipeWrite p)]))))) = table i (PipeWrite p) xs"
    using a b back' by (simp add: close_fd_def dup_fd_def new_fd_def)
  show "close_fd (b + 2) (close_fd (a + 2) (dup_fd (a + 2)
      (close_fd 0 (table i out (xs[a := Some (PipeRead p), b := Some (PipeWrite p)]))))) = table (PipeRead p) out xs"
    using a b back' by (simp add: close_fd_def dup_fd_def new_fd_def nth_list_update)
qed

definition two_free :: "fds \<Rightarrow> bool" where
  "two_free xs \<longleftrightarrow> 2 \<le> length (filter (\<lambda>x. x = None) xs)"

lemma two_free_lowest:
  "two_free xs \<Longrightarrow> \<exists>a b. lowest_free xs = Some a \<and> lowest_free (xs[a := Some y]) = Some b"
proof (induction xs)
  case Nil
  then show ?case by (simp add: two_free_def)
next
  case (Cons x xs)
  show ?case
  proof (cases x)
    case None
    with Cons.prems have "filter (\<lambda>x. x = None) xs \<noteq> []" by (auto simp: two_free_def)
    then have "None \<in> set xs" by (auto simp: filter_empty_conv)
    with lowest_free_None [of xs] obtain b where "lowest_free xs = Some b" by (cases "lowest_free xs") auto
    with None show ?thesis by simp
  next
    case (Some z)
    with Cons obtain a b where "lowest_free xs = Some a" "lowest_free (xs[a := Some y]) = Some b"
      by (auto simp: two_free_def)
    with Some show ?thesis by simp
  qed
qed

lemma runcmd_PIPE:
  assumes "two_free xs"
  shows "runcmd path (PIPE l r) (table i out xs) =
    BPipe (panic ''pipe'')
      (fork1 (runcmd (0 # path) l (table i (PipeWrite path) xs))
        (fork1 (runcmd (1 # path) r (table (PipeRead path) out xs)) (BWait (BWait (BExit 0)))))"
proof -
  obtain a b where a: "lowest_free xs = Some a" and b: "lowest_free (xs[a := Some (PipeRead path)]) = Some b"
    using two_free_lowest [OF assms, of "PipeRead path"] by blast
  show ?thesis
    unfolding runcmd.simps pipe_table [OF a b] option.case prod.case by (rule refl)
qed

lemma runcmd_started:
  assumes "cmd_ok W c" and "two_free xs"
  shows "started (runcmd path c (table i out xs)) =
    map (\<lambda>(argv, i', out'). (argv, table i' out' xs)) (plan path c i out)"
  using assms(1)
proof (induction c arbitrary: path i out)
  case (REDIR c f mode fd)
  then have "nat fd = 0 \<or> nat fd = 1" and fd: "fd = 0 \<or> fd = 1" and "cmd_ok W c"
    by (auto simp: redir_modes_def)
  with redirect_table [of "nat fd"] REDIR.IH show ?case
    by (auto simp: Let_def)
next
  case (PIPE l r)
  then show ?case
    unfolding runcmd_PIPE [OF assms(2)] by (simp add: fork1_def)
qed (auto simp: fork1_def)

section \<open>Properties\<close>

text \<open>C32: When the system calls succeed and at least two descriptors are free, the shell starts exactly the programs that the command
  describes, in its order, each with the standard input and output that the redirections and pipes around
  it give it; every other descriptor is as the shell had it, so no end of a pipe is left open in any program.
\<close>

theorem runcmd_starts_plan:
  assumes "cmd_ok W c" and "2 \<le> length (filter (\<lambda>x. x = None) xs)"
  shows "started (runcmd path c (Some i # Some out # xs)) =
    map (\<lambda>(argv, i', out'). (argv, Some i' # Some out' # xs)) (plan path c i out)"
  using assms by (intro runcmd_started) (simp_all add: two_free_def)

theorem runcmd_starts_plan_witness:
  "started (runcmd [] (PIPE (EXEC [''cat'']) (REDIR (EXEC [''wc'']) ''f'' 1537 1))
      (Some (Given 0) # Some (Given 1) # [Some (Given 2), None, None])) =
    [([''cat''], [Some (Given 0), Some (PipeWrite []), Some (Given 2), None, None]),
     ([''wc''], [Some (PipeRead []), Some (Opened ''f'' 1537), Some (Given 2), None, None])]"
  by (subst runcmd_starts_plan [where W = "\<lambda>_. True"])
    (simp_all add: MAXARGS_def redir_modes_def O_WRONLY_def O_CREATE_def O_TRUNC_def)

text \<open>
  The loop of \<^verbatim>\<open>main\<close> cuts off the last character of a \<^verbatim>\<open>cd\<close> line, taking it for the newline. At the
  end of the input, or when the line fills the buffer, there is no newline, and the directory is another one.
\<close>

theorem main_cd_chops:
  "main_line (''cd '' @ d @ [CHR 0x0A]) = Chdir d"
  "main_line (''cd '' @ d @ [x]) = Chdir d"
  by (simp_all add: main_line_def butlast_append)

end
