(* ===== verification/Mkfs.thy ===== *)
theory Mkfs
  imports InodeDisk
begin

text \<open>
  The program that builds the file system image (\<^verbatim>\<open>FileSystem-RAID/mkfs/mkfs.c\<close>). The image is a file of
  sectors; the routines of the host (\<^verbatim>\<open>lseek\<close>, \<^verbatim>\<open>read\<close>, \<^verbatim>\<open>write\<close>) are taken to work, except that a sector behind the
  end of the file cannot be read. Inodes on the image are those of the kernel (\<open>put_dinode\<close>,
  \<open>get_dinode\<close>); \<^verbatim>\<open>xint\<close> and \<^verbatim>\<open>xshort\<close> are the little-endian order that these encodings have. An
  \<^verbatim>\<open>assert\<close> that does not hold is an error value.
\<close>

section \<open>The image\<close>

record mkfs =
  mk_img :: "nat \<Rightarrow> bytes"
  mk_len :: nat
  freeinode :: nat
  freeblock :: nat

definition NINODES :: nat where "NINODES = 200"
definition nbitmap :: nat where "nbitmap = LOGICAL_DISK_SIZE div (BSIZE * 8) + 1"
definition ninodeblocks :: nat where "ninodeblocks = NINODES div IPB + 1"
definition nlog :: nat where "nlog = nat LOGSIZE"
definition nmeta :: nat where "nmeta = 2 + nlog + ninodeblocks + nbitmap"
definition nblocks :: nat where "nblocks = LOGICAL_DISK_SIZE - nmeta"

definition mkfs_sb :: superblock where
  "mkfs_sb = \<lparr>sb_magic = FSMAGIC, sb_size = LOGICAL_DISK_SIZE, sb_nblocks = nblocks, sb_ninodes = NINODES, sb_nlog = nlog,
     sb_logstart = 2, sb_inodestart = 2 + nlog, sb_bmapstart = 2 + nlog + ninodeblocks\<rparr>"

text \<open>The bytes of a \<^verbatim>\<open>struct superblock\<close>, as \<^verbatim>\<open>memmove(buf, &sb, sizeof(sb))\<close> copies them.\<close>

definition put_superblock :: "superblock \<Rightarrow> bytes \<Rightarrow> bytes" where
  "put_superblock b d =
     put_addrs 8 ((!) [sb_magic b, sb_size b, sb_nblocks b, sb_ninodes b, sb_nlog b, sb_logstart b,
       sb_inodestart b, sb_bmapstart b]) 0 d"

definition wsect :: "nat \<Rightarrow> bytes \<Rightarrow> mkfs \<Rightarrow> mkfs" where
  "wsect sec buf s = s\<lparr>mk_img := (mk_img s)(sec := buf), mk_len := max (mk_len s) (Suc sec)\<rparr>"

definition rsect :: "nat \<Rightarrow> mkfs \<Rightarrow> bytes kres" where
  "rsect sec s = (if sec < mk_len s then Inr (mk_img s sec) else Inl (Panic ''read''))"

definition winode :: "nat \<Rightarrow> inode \<Rightarrow> mkfs \<Rightarrow> mkfs kres" where
  "winode inum ip s =
     (let bn = IBLOCK inum mkfs_sb in
      bindE (rsect bn s) (\<lambda>buf. Inr (wsect bn (put_dinode ip (dinode_off inum) buf) s)))"

definition rinode :: "nat \<Rightarrow> mkfs \<Rightarrow> inode kres" where
  "rinode inum s =
     bindE (rsect (IBLOCK inum mkfs_sb) s) (\<lambda>buf. Inr (get_dinode buf (dinode_off inum) no_inode))"

definition mk_ialloc :: "int \<Rightarrow> mkfs \<Rightarrow> (nat \<times> mkfs) kres" where
  "mk_ialloc type s =
     (let inum = freeinode s; s = s\<lparr>freeinode := Suc (freeinode s)\<rparr>;
          din = no_inode\<lparr>i_type := type, i_nlink := 1, i_size := 0, i_major := 0,
                  i_minor := (if type = T_DEVICE then 0 else M_READ + M_WRITE)\<rparr> in
      bindE (winode inum din s) (\<lambda>s. Inr (inum, s)))"

definition mk_balloc :: "nat \<Rightarrow> mkfs \<Rightarrow> mkfs kres" where
  "mk_balloc n s =
     (if BSIZE * 8 \<le> n then Inl (Panic ''assert'')
      else
        let buf = fold (\<lambda>i buf. buf(i div 8 := buf (i div 8) OR bmask i)) [0..<n] (\<lambda>_. 0) in
        Inr (wsect (sb_bmapstart mkfs_sb) buf s))"

section \<open>Appending to a file\<close>

text \<open>The block of the file at index \<open>fbn\<close>, allocated if there is none: the first part of the loop of \<^verbatim>\<open>iappend\<close>.\<close>

definition mk_bmap :: "nat \<Rightarrow> inode \<Rightarrow> mkfs \<Rightarrow> (nat \<times> inode \<times> mkfs) kres" where
  "mk_bmap fbn din s =
     (if fbn < NDIRECT then
        let (din, s) =
              (if i_addrs din fbn = 0
               then (din\<lparr>i_addrs := (i_addrs din)(fbn := freeblock s)\<rparr>, s\<lparr>freeblock := Suc (freeblock s)\<rparr>)
               else (din, s)) in
        Inr (i_addrs din fbn, din, s)
      else
        let (din, s) =
              (if i_addrs din NDIRECT = 0
               then (din\<lparr>i_addrs := (i_addrs din)(NDIRECT := freeblock s)\<rparr>, s\<lparr>freeblock := Suc (freeblock s)\<rparr>)
               else (din, s)) in
        bindE (rsect (i_addrs din NDIRECT) s) (\<lambda>indirect.
        if get_le indirect (4 * (fbn - NDIRECT)) 4 = 0
        then
          let x = freeblock s; s = s\<lparr>freeblock := Suc (freeblock s)\<rparr>;
              s = wsect (i_addrs din NDIRECT) (put_le indirect (4 * (fbn - NDIRECT)) 4 x) s in
          Inr (x, din, s)
        else Inr (get_le indirect (4 * (fbn - NDIRECT)) 4, din, s)))"

lemma block_end: "off < (off div BSIZE + 1) * BSIZE"
  using dividend_less_div_times [of BSIZE off] by (simp add: BSIZE_def)

function iappend_loop :: "inode \<Rightarrow> nat \<Rightarrow> byte list \<Rightarrow> mkfs \<Rightarrow> (inode \<times> nat \<times> mkfs) kres" where
  "iappend_loop din off p s =
     (if p = [] then Inr (din, off, s)
      else
        let fbn = off div BSIZE in
        if MAXFILE \<le> fbn then Inl (Panic ''assert'')
        else
          bindE (mk_bmap fbn din s) (\<lambda>(x, din, s).
          let n1 = min (length p) ((fbn + 1) * BSIZE - off) in
          bindE (rsect x s) (\<lambda>buf.
          let s = wsect x (blit buf (off - fbn * BSIZE) (bytes_of_list p) 0 n1) s in
          iappend_loop din (off + n1) (drop n1 p) s)))"
  by pat_completeness auto
termination
proof (relation "measure (\<lambda>(din, off, p, s). length p)", goal_cases)
  case (2 din off p s)
  with block_end [of off] show ?case by simp
qed simp

declare iappend_loop.simps [simp del]

definition iappend :: "nat \<Rightarrow> byte list \<Rightarrow> mkfs \<Rightarrow> mkfs kres" where
  "iappend inum p s =
     bindE (rinode inum s) (\<lambda>din.
     bindE (iappend_loop din (i_size din) p s) (\<lambda>(din, off, s).
     winode inum (din\<lparr>i_size := off\<rparr>) s))"

section \<open>The main program\<close>

text \<open>
  The files to be added, with their path names and contents. \<^verbatim>\<open>main\<close> reads a file in pieces of one block.
\<close>

function append_all :: "nat \<Rightarrow> byte list \<Rightarrow> mkfs \<Rightarrow> mkfs kres" where
  "append_all inum data s =
     (if data = [] then Inr s
      else bindE (iappend inum (take BSIZE data) s) (append_all inum (drop BSIZE data)))"
  by pat_completeness auto
termination
  by (relation "measure (\<lambda>(inum, data, s). length data)") (auto simp: BSIZE_def)

declare append_all.simps [simp del]

definition short_name :: "byte list \<Rightarrow> byte list kres" where
  "short_name path =
     (let name = (if take 5 path = str ''user/'' then drop 5 path else path) in
      if SLASH \<in> set name then Inl (Panic ''assert'')
      else Inr (if name \<noteq> [] \<and> hd name = of_char (CHR ''_'') then tl name else name))"

definition dirent :: "byte list \<Rightarrow> nat \<Rightarrow> byte list" where
  "dirent name inum = list_of_bytes (mk_dirent (bytes_of_list name) inum) 0 DESIZE"

definition add_file :: "byte list \<times> byte list \<Rightarrow> mkfs \<Rightarrow> mkfs kres" where
  "add_file f s =
     bindE (short_name (fst f)) (\<lambda>name.
     bindE (mk_ialloc T_FILE s) (\<lambda>(inum, s).
     bindE (iappend ROOTINO (dirent name inum) s) (append_all inum (snd f))))"

definition mkfs_init :: mkfs where
  "mkfs_init = wsect 1 (put_superblock mkfs_sb (\<lambda>_. 0))
     \<lparr>mk_img = (\<lambda>_ _. 0), mk_len = FSSIZE, freeinode = 1, freeblock = nmeta\<rparr>"

definition fix_root_size :: "mkfs \<Rightarrow> mkfs kres" where
  "fix_root_size s =
     bindE (rinode ROOTINO s) (\<lambda>din.
     winode ROOTINO (din\<lparr>i_size := (i_size din div BSIZE + 1) * BSIZE\<rparr>) s)"

definition mkfs_main :: "(byte list \<times> byte list) list \<Rightarrow> mkfs kres" where
  "mkfs_main files =
     bindE (mk_ialloc T_DIR mkfs_init) (\<lambda>(rootino, s).
     if rootino \<noteq> ROOTINO then Inl (Panic ''assert'')
     else
       bindE (iappend rootino (dirent (str ''.'') rootino) s) (\<lambda>s.
       bindE (iappend rootino (dirent (str ''..'') rootino) s) (\<lambda>s.
       bindE (foldE add_file files s) (\<lambda>s.
       bindE (fix_root_size s) (\<lambda>s.
       mk_balloc (freeblock s) s)))))"

end
