(* ===== verification/MkfsProofs.thy ===== *)
theory MkfsProofs
  imports Mkfs
begin

text \<open>
  The image that \<^verbatim>\<open>mkfs\<close> builds is a file system the kernel can use. The invariant \<open>image_ok\<close> says that the block numbers in
  inodes and indirect blocks are distinct data blocks below \<^verbatim>\<open>freeblock\<close>; allocation, the loop of \<^verbatim>\<open>iappend\<close> and the writing of inodes keep
  it, and the contents of files are followed through them. The last lemmas compose these steps to the whole of \<^verbatim>\<open>main\<close>.
\<close>

section \<open>Slots\<close>

text \<open>
  The block numbers an inode holds: slots up to \<open>NDIRECT\<close> are the addresses in the inode, the last of them that of the indirect
  block; the slots behind are the entries of the indirect block. \<open>D\<close> gives the inodes by number.
\<close>

definition NI :: nat where "NI = ninodeblocks * IPB"
definition NSLOT :: nat where "NSLOT = NDIRECT + 1 + NINDIRECT"

definition slot :: "(nat \<Rightarrow> bytes) \<Rightarrow> inode \<Rightarrow> nat \<Rightarrow> nat" where
  "slot img d k =
     (if k \<le> NDIRECT then i_addrs d k
      else if i_addrs d NDIRECT = 0 then 0
      else get_le (img (i_addrs d NDIRECT)) (4 * (k - NDIRECT - 1)) 4)"

definition blk_slot :: "nat \<Rightarrow> nat" where
  "blk_slot fbn = (if fbn < NDIRECT then fbn else Suc fbn)"

definition slots :: "(nat \<times> nat) set" where
  "slots = {..<NI} \<times> {..<NSLOT}"

definition slots_ok :: "(nat \<times> nat \<Rightarrow> nat) \<Rightarrow> nat \<Rightarrow> bool" where
  "slots_ok f fb \<longleftrightarrow> (\<forall>p\<in>slots. f p = 0 \<or> nmeta \<le> f p \<and> f p < fb) \<and>
     (\<forall>p\<in>slots. \<forall>q\<in>slots. f p \<noteq> 0 \<longrightarrow> f p = f q \<longrightarrow> p = q)"

text \<open>
  The state of an image: block numbers in use are data blocks below \<open>freeblock\<close> and belong to one
  slot each, everything from \<open>freeblock\<close> on is zero, and every byte of a file has a block.
\<close>

definition image_ok :: "(nat \<Rightarrow> bytes) \<Rightarrow> nat \<Rightarrow> (nat \<Rightarrow> inode) \<Rightarrow> bool" where
  "image_ok img fb D \<longleftrightarrow> slots_ok (\<lambda>(i, k). slot img (D i) k) fb \<and> nmeta \<le> fb \<and>
     (\<forall>b\<ge>fb. img b = (\<lambda>_. 0)) \<and> (\<forall>b. blk_ok (img b)) \<and>
     (\<forall>i<NI. \<forall>fbn. fbn * BSIZE < i_size (D i) \<longrightarrow> fbn < MAXFILE \<and> slot img (D i) (blk_slot fbn) \<noteq> 0)"

definition fdata :: "(nat \<Rightarrow> bytes) \<Rightarrow> inode \<Rightarrow> nat \<Rightarrow> byte" where
  "fdata img d off = img (slot img d (blk_slot (off div BSIZE))) (off mod BSIZE)"

lemma blk_slot_less: "fbn < MAXFILE \<Longrightarrow> blk_slot fbn < NSLOT"
  by (auto simp: blk_slot_def MAXFILE_def NSLOT_def)

lemma blk_slot_neq: "blk_slot fbn \<noteq> NDIRECT"
  by (simp add: blk_slot_def)

lemma blk_slot_inject: "blk_slot a = blk_slot b \<longleftrightarrow> a = b"
  by (auto simp: blk_slot_def)

lemma nmeta_pos: "0 < nmeta"
  by (simp add: nmeta_def)

lemma slots_ok_extend:
  assumes "slots_ok f fb" and "nmeta \<le> fb" and "p0 \<in> slots"
    and "\<And>p. p \<in> slots \<Longrightarrow> f' p = (if p = p0 then fb else f p)"
  shows "slots_ok f' (Suc fb)"
proof -
  have b: "f p = 0 \<or> nmeta \<le> f p \<and> f p < fb" if "p \<in> slots" for p
    using assms(1) that by (auto simp: slots_ok_def)
  have i: "p = q" if "p \<in> slots" "q \<in> slots" "f p \<noteq> 0" "f p = f q" for p q
    using assms(1) that unfolding slots_ok_def by blast
  have "p = q" if pq: "p \<in> slots" "q \<in> slots" "f' p \<noteq> 0" "f' p = f' q" for p q
  proof -
    note e = assms(4) [OF pq(1)] assms(4) [OF pq(2)]
    consider "p = p0" "q = p0" | "p = p0" "q \<noteq> p0" | "p \<noteq> p0" "q = p0" | "p \<noteq> p0" "q \<noteq> p0" by blast
    then show ?thesis
    proof cases
      case 2
      with e pq(4) have "f q = fb" by simp
      with b [OF pq(2)] assms(2) nmeta_pos show ?thesis by simp
    next
      case 3
      with e pq(4) have "f p = fb" by simp
      with b [OF pq(1)] assms(2) nmeta_pos show ?thesis by simp
    next
      case 4
      with e pq(3,4) have "f p \<noteq> 0" "f p = f q" by simp_all
      then show ?thesis by (rule i [OF pq(1,2)])
    qed simp
  qed
  moreover have "f' p = 0 \<or> nmeta \<le> f' p \<and> f' p < Suc fb" if "p \<in> slots" for p
    using assms(2) assms(4) [OF that] b [OF that] by auto
  ultimately show ?thesis unfolding slots_ok_def by blast
qed

lemma slots_ok_cong: "(\<And>p. p \<in> slots \<Longrightarrow> f p = g p) \<Longrightarrow> slots_ok f fb = slots_ok g fb"
  by (simp add: slots_ok_def)

text \<open>One fact per field of the invariant.\<close>

lemma image_okD:
  assumes "image_ok img fb D"
  shows "i < NI \<Longrightarrow> k < NSLOT \<Longrightarrow> slot img (D i) k \<noteq> 0 \<Longrightarrow> nmeta \<le> slot img (D i) k \<and> slot img (D i) k < fb"
    and "i < NI \<Longrightarrow> k < NSLOT \<Longrightarrow> j < NI \<Longrightarrow> m < NSLOT \<Longrightarrow> slot img (D i) k \<noteq> 0 \<Longrightarrow>
      slot img (D i) k = slot img (D j) m \<Longrightarrow> i = j \<and> k = m"
    and "nmeta \<le> fb" and "fb \<le> b \<Longrightarrow> img b = (\<lambda>_. 0)" and "blk_ok (img b)"
    and "i < NI \<Longrightarrow> fbn * BSIZE < i_size (D i) \<Longrightarrow> fbn < MAXFILE \<and> slot img (D i) (blk_slot fbn) \<noteq> 0"
proof -
  have s: "slots_ok (\<lambda>(i, k). slot img (D i) k) fb" using assms by (simp add: image_ok_def)
  show "i < NI \<Longrightarrow> k < NSLOT \<Longrightarrow> slot img (D i) k \<noteq> 0 \<Longrightarrow> nmeta \<le> slot img (D i) k \<and> slot img (D i) k < fb"
    using s [unfolded slots_ok_def, THEN conjunct1, rule_format, of "(i, k)"] by (simp add: slots_def)
  show "i < NI \<Longrightarrow> k < NSLOT \<Longrightarrow> j < NI \<Longrightarrow> m < NSLOT \<Longrightarrow> slot img (D i) k \<noteq> 0 \<Longrightarrow>
      slot img (D i) k = slot img (D j) m \<Longrightarrow> i = j \<and> k = m"
    using s [unfolded slots_ok_def, THEN conjunct2, rule_format, of "(i, k)" "(j, m)"] by (simp add: slots_def)
qed (use assms in \<open>simp_all add: image_ok_def\<close>)

lemma image_ok_sizes:
  assumes "image_ok img fb D" and "slots_ok (\<lambda>(i, k). slot img' (D' i) k) fb'" and "fb \<le> fb'"
    and "\<And>b. fb' \<le> b \<Longrightarrow> img' b = img b" and "\<And>b. blk_ok (img' b)"
    and "\<And>i k. i < NI \<Longrightarrow> k < NSLOT \<Longrightarrow> slot img (D i) k \<noteq> 0 \<Longrightarrow> slot img' (D' i) k \<noteq> 0"
    and "\<And>i. i_size (D' i) = i_size (D i)"
  shows "image_ok img' fb' D'"
  unfolding image_ok_def
proof (intro conjI allI impI)
  fix i fbn
  assume i: "i < NI" and f: "fbn * BSIZE < i_size (D' i)"
  with assms(7) image_okD(6) [OF assms(1) i] show "fbn < MAXFILE" by simp
  with i f assms(6) [OF i blk_slot_less] assms(7) image_okD(6) [OF assms(1) i]
  show "slot img' (D' i) (blk_slot fbn) \<noteq> 0" by simp
qed (use assms(2-5) image_okD(3,4) [OF assms(1)] in \<open>auto\<close>)

section \<open>Allocation\<close>

definition set_addr_at :: "nat \<Rightarrow> nat \<Rightarrow> inode \<Rightarrow> inode" where
  "set_addr_at k b d = d\<lparr>i_addrs := (i_addrs d)(k := b)\<rparr>"

lemma alloc_addr:
  assumes "image_ok img fb D" and "i < NI" and "k \<le> NDIRECT" and "i_addrs (D i) k = 0"
  defines "D' \<equiv> D(i := set_addr_at k fb (D i))"
  shows "image_ok img (Suc fb) D'"
    and "\<And>j m. (j, m) \<noteq> (i, k) \<Longrightarrow> slot img (D' j) m = slot img (D j) m"
    and "slot img (D' i) k = fb"
proof -
  have fb: "nmeta \<le> fb" "img fb = (\<lambda>_. 0)" using image_okD(3,4) [OF assms(1)] by auto
  show new: "slot img (D' i) k = fb" using assms(3) by (simp add: D'_def slot_def set_addr_at_def)
  have "slot img (D' i) m = slot img (D i) m" if "m \<noteq> k" for m
    using that assms(3,4) fb nmeta_pos by (cases "k = NDIRECT") (auto simp: D'_def slot_def set_addr_at_def)
  then show same: "\<And>j m. (j, m) \<noteq> (i, k) \<Longrightarrow> slot img (D' j) m = slot img (D j) m"
    by (auto simp: D'_def)
  have "slots_ok (\<lambda>(i, k). slot img (D' i) k) (Suc fb)"
    using assms(1-3) fb(1) new same
    by (intro slots_ok_extend [of "\<lambda>(i, k). slot img (D i) k" fb "(i, k)"])
      (auto simp: image_ok_def slots_def NSLOT_def)
  moreover have "slot img (D' j) m \<noteq> 0" if "slot img (D j) m \<noteq> 0" for j m
    using that new same [of j m] nmeta_pos fb(1) by (cases "(j, m) = (i, k)") auto
  ultimately show "image_ok img (Suc fb) D'"
    by (intro image_ok_sizes [OF assms(1)]) (simp_all add: D'_def set_addr_at_def image_okD(5) [OF assms(1)])
qed

lemma slot_entry: "slot img d (Suc (NDIRECT + j)) = (if i_addrs d NDIRECT = 0 then 0 else get_le (img (i_addrs d NDIRECT)) (4 * j) 4)"
  by (simp add: slot_def)

lemma blk_ok_put_entry:
  assumes "blk_ok d" and "j < NINDIRECT"
  shows "blk_ok (put_le d (4 * j) 4 v)"
  using assms by (auto simp: blk_ok_def put_le_outside NINDIRECT_def BSIZE_def)

lemma alloc_entry:
  assumes ok: "image_ok img fb D" and i: "i < NI" and j: "j < NINDIRECT" and a: "i_addrs (D i) NDIRECT = a" "a \<noteq> 0"
    and free: "get_le (img a) (4 * j) 4 = 0" and fb: "fb < 4294967296"
  defines "img' \<equiv> img(a := put_le (img a) (4 * j) 4 fb)"
  shows "image_ok img' (Suc fb) D"
    and "\<And>i' m. i' < NI \<Longrightarrow> m < NSLOT \<Longrightarrow> (i', m) \<noteq> (i, Suc (NDIRECT + j)) \<Longrightarrow> slot img' (D i') m = slot img (D i') m"
    and "slot img' (D i) (Suc (NDIRECT + j)) = fb"
proof -
  have nd: "NDIRECT < NSLOT" by (simp add: NSLOT_def)
  have sa: "slot img (D i) NDIRECT = a" using a by (simp add: slot_def)
  show new: "slot img' (D i) (Suc (NDIRECT + j)) = fb"
    using a fb by (simp add: slot_entry img'_def get_put_le)
  show same: "slot img' (D i') m = slot img (D i') m"
    if h: "i' < NI" "m < NSLOT" "(i', m) \<noteq> (i, Suc (NDIRECT + j))" for i' m
  proof (cases "m \<le> NDIRECT")
    case True
    then show ?thesis by (simp add: slot_def)
  next
    case False
    then obtain l where m: "m = Suc (NDIRECT + l)" by (metis less_eqE not_less_eq_eq add_Suc)
    show ?thesis
    proof (cases "i_addrs (D i') NDIRECT = a")
      case True
      then have "slot img (D i) NDIRECT = slot img (D i') NDIRECT" using sa by (simp add: slot_def)
      with image_okD(2) [OF ok i nd h(1) nd] sa a(2) have "i' = i" by simp
      with h(3) m have "l \<noteq> j" by simp
      with \<open>i' = i\<close> m a show ?thesis
        by (auto simp: slot_entry img'_def intro!: get_put_le_other)
    next
      case False
      with m show ?thesis by (simp add: slot_entry img'_def)
    qed
  qed
  have "slot img (D i) (Suc (NDIRECT + j)) = 0" using a free by (simp add: slot_entry)
  have le: "nmeta \<le> fb" using image_okD(3) [OF ok] .
  have "slots_ok (\<lambda>(i, k). slot img' (D i) k) (Suc fb)"
    using ok le i j new same
    by (intro slots_ok_extend [of "\<lambda>(i, k). slot img (D i) k" fb "(i, Suc (NDIRECT + j))"])
      (auto simp: image_ok_def slots_def NSLOT_def)
  moreover have "slot img' (D i') m \<noteq> 0" if "i' < NI" "m < NSLOT" "slot img (D i') m \<noteq> 0" for i' m
    using that new same [of i' m] nmeta_pos le by (cases "(i', m) = (i, Suc (NDIRECT + j))") auto
  moreover have "a < fb" using image_okD(1) [OF ok i nd] sa a(2) by simp
  moreover have "blk_ok (img' b)" for b
    using image_okD(5) [OF ok] blk_ok_put_entry [OF _ j] by (simp add: img'_def)
  ultimately show "image_ok img' (Suc fb) D"
    by (intro image_ok_sizes [OF ok]) (simp_all add: img'_def)
qed

lemma write_slot:
  assumes ok: "image_ok img fb D" and i: "i < NI" and f: "fbn < MAXFILE" and x: "slot img (D i) (blk_slot fbn) = x" "x \<noteq> 0"
    and buf: "blk_ok buf"
  shows "image_ok (img(x := buf)) fb D"
    and "\<And>i' m. i' < NI \<Longrightarrow> m < NSLOT \<Longrightarrow> slot (img(x := buf)) (D i') m = slot img (D i') m"
proof -
  have nd: "NDIRECT < NSLOT" by (simp add: NSLOT_def)
  have "i_addrs (D i') NDIRECT \<noteq> x" if "i' < NI" for i'
  proof
    assume "i_addrs (D i') NDIRECT = x"
    then have "slot img (D i) (blk_slot fbn) = slot img (D i') NDIRECT" using x(1) by (simp add: slot_def)
    with image_okD(2) [OF ok i blk_slot_less [OF f] that nd] x blk_slot_neq show False by simp
  qed
  then show same: "\<And>i' m. i' < NI \<Longrightarrow> m < NSLOT \<Longrightarrow> slot (img(x := buf)) (D i') m = slot img (D i') m"
    by (simp add: slot_def)
  have "slots_ok (\<lambda>(i, k). slot (img(x := buf)) (D i) k) fb = slots_ok (\<lambda>(i, k). slot img (D i) k) fb"
    by (intro slots_ok_cong) (auto simp: slots_def same)
  moreover have "x < fb" using image_okD(1) [OF ok i blk_slot_less [OF f]] x by simp
  ultimately show "image_ok (img(x := buf)) fb D"
    using ok image_okD(5) [OF ok] buf same
    by (intro image_ok_sizes [OF ok]) (simp_all add: image_ok_def)
qed

section \<open>The block of a file\<close>

text \<open>
  What \<open>mk_bmap\<close> does: it returns the block of the file, which it has if it had one, keeps every block of this and of the other
  inodes, and needs at most two new blocks.
\<close>

definition extends :: "(nat \<Rightarrow> bytes) \<Rightarrow> (nat \<Rightarrow> inode) \<Rightarrow> (nat \<Rightarrow> bytes) \<Rightarrow> (nat \<Rightarrow> inode) \<Rightarrow> bool" where
  "extends img D img' D' \<longleftrightarrow>
     (\<forall>i<NI. \<forall>m<NSLOT. slot img (D i) m \<noteq> 0 \<longrightarrow> slot img' (D' i) m = slot img (D i) m) \<and>
     (\<forall>i<NI. \<forall>fbn<MAXFILE. slot img (D i) (blk_slot fbn) \<noteq> 0 \<longrightarrow>
        img' (slot img (D i) (blk_slot fbn)) = img (slot img (D i) (blk_slot fbn))) \<and>
     (\<forall>b<nmeta. img' b = img b)"

lemma extends_trans:
  assumes "extends img D img' D'" and "extends img' D' img'' D''"
  shows "extends img D img'' D''"
  using assms blk_slot_less unfolding extends_def by (metis (no_types, lifting))

lemma extends_fdata:
  assumes "extends img D img' D'" and "i < NI" and "slot img (D i) (blk_slot (off div BSIZE)) \<noteq> 0" and "off div BSIZE < MAXFILE"
  shows "fdata img' (D' i) off = fdata img (D i) off"
  using assms blk_slot_less by (simp add: extends_def fdata_def)

lemma extends_refl: "extends img D img D"
  by (simp add: extends_def)

text \<open>The state of a run of \<open>iappend_loop\<close>: the inodes are \<open>D\<close>, except that number \<open>i\<close> is the local copy \<open>d\<close>.\<close>

definition with_inode :: "mkfs \<Rightarrow> (nat \<Rightarrow> inode) \<Rightarrow> bool" where
  "with_inode s D \<longleftrightarrow> image_ok (mk_img s) (freeblock s) D"

lemma with_inode_alloc:
  assumes ok: "image_ok (mk_img s) (freeblock s) D" and i: "i < NI" and k: "k \<le> NDIRECT" and z: "i_addrs (D i) k = 0"
  defines "d \<equiv> set_addr_at k (freeblock s) (D i)"
  shows "image_ok (mk_img s) (Suc (freeblock s)) (D(i := d))" and "extends (mk_img s) D (mk_img s) (D(i := d))"
    and "slot (mk_img s) d k = freeblock s"
proof -
  note a = alloc_addr [OF ok i k z, folded d_def]
  show "image_ok (mk_img s) (Suc (freeblock s)) (D(i := d))" by (rule a(1))
  show "slot (mk_img s) d k = freeblock s" using a(3) by simp
  have "slot (mk_img s) (D i) k = 0" using k z by (simp add: slot_def)
  with a(2) show "extends (mk_img s) D (mk_img s) (D(i := d))"
    unfolding extends_def by (metis prod.inject)
qed

lemma with_inode_entry:
  assumes ok: "image_ok img fb D" and i: "i < NI" and j: "j < NINDIRECT" and a: "i_addrs (D i) NDIRECT = a" "a \<noteq> 0"
    and free: "get_le (img a) (4 * j) 4 = 0" and fb: "fb < 4294967296"
  defines "img' \<equiv> img(a := put_le (img a) (4 * j) 4 fb)"
  shows "extends img D img' D"
proof -
  note e = alloc_entry [OF ok i j a free fb, folded img'_def]
  have nd: "NDIRECT < NSLOT" by (simp add: NSLOT_def)
  have s0: "slot img (D i) (Suc (NDIRECT + j)) = 0" using a free by (simp add: slot_entry)
  have sa: "slot img (D i) NDIRECT = a" using a by (simp add: slot_def)
  have "slot img (D i') (blk_slot fbn) \<noteq> a" if "i' < NI" "fbn < MAXFILE" "slot img (D i') (blk_slot fbn) \<noteq> 0" for i' fbn
  proof
    assume "slot img (D i') (blk_slot fbn) = a"
    with image_okD(2) [OF ok that(1) blk_slot_less [OF that(2)] i nd that(3)] sa blk_slot_neq show False by simp
  qed
  moreover have "nmeta \<le> a" using image_okD(1) [OF ok i nd] sa a(2) by simp
  moreover have "slot img' (D i') m = slot img (D i') m" if "i' < NI" "m < NSLOT" "slot img (D i') m \<noteq> 0" for i' m
    using that s0 e(2) by (cases "(i', m) = (i, Suc (NDIRECT + j))") auto
  ultimately show ?thesis by (auto simp: extends_def img'_def)
qed

definition same_meta :: "inode \<Rightarrow> inode \<Rightarrow> bool" where
  "same_meta d d' \<longleftrightarrow> i_type d' = i_type d \<and> i_major d' = i_major d \<and> i_minor d' = i_minor d \<and> i_nlink d' = i_nlink d \<and> i_size d' = i_size d"

definition bmap_result :: "nat \<Rightarrow> nat \<Rightarrow> (nat \<Rightarrow> inode) \<Rightarrow> mkfs \<Rightarrow> nat \<Rightarrow> inode \<Rightarrow> mkfs \<Rightarrow> bool" where
  "bmap_result i fbn D s x d s' \<longleftrightarrow>
     image_ok (mk_img s') (freeblock s') (D(i := d)) \<and> extends (mk_img s) D (mk_img s') (D(i := d)) \<and>
     x = slot (mk_img s') d (blk_slot fbn) \<and> x \<noteq> 0 \<and> same_meta (D i) d \<and>
     mk_len s' = mk_len s \<and> freeinode s' = freeinode s \<and> freeblock s \<le> freeblock s' \<and> freeblock s' \<le> freeblock s + 2"

lemma mk_bmap_direct:
  assumes ok: "image_ok (mk_img s) (freeblock s) D" and i: "i < NI" and f: "fbn < NDIRECT"
  shows "\<exists>x d s'. mk_bmap fbn (D i) s = Inr (x, d, s') \<and> bmap_result i fbn D s x d s'"
proof (cases "i_addrs (D i) fbn = 0")
  case True
  let ?d = "set_addr_at fbn (freeblock s) (D i)"
  note a = with_inode_alloc [OF ok i less_imp_le [OF f] True]
  have "freeblock s \<noteq> 0" using image_okD(3) [OF ok] nmeta_pos by simp
  then have "mk_bmap fbn (D i) s = Inr (freeblock s, ?d, s\<lparr>freeblock := Suc (freeblock s)\<rparr>)"
    using True f by (simp add: mk_bmap_def set_addr_at_def)
  moreover have "bmap_result i fbn D s (freeblock s) ?d (s\<lparr>freeblock := Suc (freeblock s)\<rparr>)"
    using a f \<open>freeblock s \<noteq> 0\<close> by (simp add: bmap_result_def same_meta_def blk_slot_def) (simp add: set_addr_at_def)
  ultimately show ?thesis by blast
next
  case False
  then have "mk_bmap fbn (D i) s = Inr (i_addrs (D i) fbn, D i, s)" using f by (simp add: mk_bmap_def)
  moreover have "bmap_result i fbn D s (i_addrs (D i) fbn) (D i) s"
    using ok f False by (simp add: bmap_result_def same_meta_def blk_slot_def extends_refl slot_def)
  ultimately show ?thesis by blast
qed

lemma mk_bmap_entry:
  assumes ok: "image_ok (mk_img s) (freeblock s) D" and i: "i < NI" and f: "NDIRECT \<le> fbn" "fbn < MAXFILE"
    and a: "i_addrs (D i) NDIRECT \<noteq> 0" and room: "freeblock s \<le> mk_len s" "freeblock s < 4294967296"
  shows "\<exists>x s'. mk_bmap fbn (D i) s = Inr (x, D i, s') \<and> bmap_result i fbn D s x (D i) s' \<and> freeblock s' \<le> Suc (freeblock s)"
proof -
  let ?a = "i_addrs (D i) NDIRECT" and ?j = "fbn - NDIRECT"
  have j: "?j < NINDIRECT" and b: "blk_slot fbn = Suc (NDIRECT + ?j)" using f by (auto simp: MAXFILE_def blk_slot_def)
  have "slot (mk_img s) (D i) NDIRECT = ?a" by (simp add: slot_def)
  with image_okD(1) [OF ok i, of NDIRECT] a have al: "?a < freeblock s" by (simp add: NSLOT_def)
  then have r: "rsect ?a s = Inr (mk_img s ?a)" using room by (simp add: rsect_def)
  show ?thesis
  proof (cases "get_le (mk_img s ?a) (4 * ?j) 4 = 0")
    case True
    note e = alloc_entry [OF ok i j refl a True room(2)] and x = with_inode_entry [OF ok i j refl a True room(2)]
    let ?s = "wsect ?a (put_le (mk_img s ?a) (4 * ?j) 4 (freeblock s)) (s\<lparr>freeblock := Suc (freeblock s)\<rparr>)"
    have m: "mk_bmap fbn (D i) s = Inr (freeblock s, D i, ?s)"
      using True f a r by (simp add: mk_bmap_def Let_def rsect_def)
    have "freeblock s \<noteq> 0" using image_okD(3) [OF ok] nmeta_pos by simp
    moreover have "max (mk_len s) (Suc ?a) = mk_len s" using al room by simp
    ultimately have "bmap_result i fbn D s (freeblock s) (D i) ?s"
      using e(1,3) x b by (simp add: bmap_result_def same_meta_def wsect_def)
    with m show ?thesis by (auto simp: wsect_def)
  next
    case False
    have "mk_bmap fbn (D i) s = Inr (get_le (mk_img s ?a) (4 * ?j) 4, D i, s)"
      using False f a r by (simp add: mk_bmap_def Let_def)
    moreover have "bmap_result i fbn D s (get_le (mk_img s ?a) (4 * ?j) 4) (D i) s"
      using ok False b a by (simp add: bmap_result_def same_meta_def extends_refl slot_entry)
    ultimately show ?thesis by auto
  qed
qed

lemma mk_bmap_ok:
  assumes ok: "image_ok (mk_img s) (freeblock s) D" and i: "i < NI" and f: "fbn < MAXFILE"
    and room: "freeblock s + 2 \<le> mk_len s" "mk_len s < 4294967296"
  shows "\<exists>x d s'. mk_bmap fbn (D i) s = Inr (x, d, s') \<and> bmap_result i fbn D s x d s'"
proof (cases "fbn < NDIRECT")
  case True
  with ok i show ?thesis by (intro mk_bmap_direct)
next
  case False
  show ?thesis
  proof (cases "i_addrs (D i) NDIRECT = 0")
    case notyet: True
    let ?d = "set_addr_at NDIRECT (freeblock s) (D i)" and ?s = "s\<lparr>freeblock := Suc (freeblock s)\<rparr>"
    let ?D = "D(i := ?d)"
    note a = with_inode_alloc [OF ok i le_refl notyet]
    have fb: "freeblock s \<noteq> 0" using image_okD(3) [OF ok] nmeta_pos by simp
    have "mk_bmap fbn (D i) s = mk_bmap fbn (?D i) ?s"
      using False notyet fb by (simp add: mk_bmap_def set_addr_at_def)
    moreover obtain x s' where "mk_bmap fbn (?D i) ?s = Inr (x, ?d, s')" and r: "bmap_result i fbn ?D ?s x ?d s'"
      "freeblock s' \<le> Suc (freeblock ?s)"
      using mk_bmap_entry [of ?s ?D i fbn] a(1) i f False fb room by (auto simp: set_addr_at_def)
    moreover have "bmap_result i fbn D s x ?d s'"
      using r extends_trans [OF a(2)] by (auto simp: bmap_result_def same_meta_def set_addr_at_def)
    ultimately show ?thesis by auto
  next
    case False
    with \<open>\<not> fbn < NDIRECT\<close> show ?thesis
      using mk_bmap_entry [OF ok i _ f False] room by fastforce
  qed
qed

section \<open>One turn of the loop\<close>

lemma mk_bmap_size:
  "mk_bmap fbn (d\<lparr>i_size := z\<rparr>) s =
     (case mk_bmap fbn d s of Inl e \<Rightarrow> Inl e | Inr (x, d', s') \<Rightarrow> Inr (x, d'\<lparr>i_size := z\<rparr>, s'))"
  by (cases "rsect (i_addrs d NDIRECT) s"; cases "rsect (freeblock s) (s\<lparr>freeblock := Suc (freeblock s)\<rparr>)")
    (simp_all add: mk_bmap_def Let_def)

text \<open>The number of blocks that \<open>n\<close> bytes at \<open>off\<close> touch.\<close>

definition touched :: "nat \<Rightarrow> nat \<Rightarrow> nat" where
  "touched off n = (if n = 0 then 0 else Suc ((off + n - 1) div BSIZE - off div BSIZE))"

definition turn :: "nat \<Rightarrow> nat \<Rightarrow> nat" where
  "turn off n = min n ((off div BSIZE + 1) * BSIZE - off)"

lemma block_bounds: "off div BSIZE * BSIZE \<le> off" "off < (off div BSIZE + 1) * BSIZE"
  "off - off div BSIZE * BSIZE = off mod BSIZE"
  using block_end [of off] by (simp_all add: minus_div_mult_eq_mod)

lemma turn_pos: "0 < n \<Longrightarrow> 0 < turn off n"
  using block_bounds(2) [of off] by (simp add: turn_def)

lemma turn_le: "turn off n \<le> n" "off mod BSIZE + turn off n \<le> BSIZE"
proof -
  show "turn off n \<le> n" by (simp add: turn_def)
  have "off mod BSIZE + ((off div BSIZE + 1) * BSIZE - off) = BSIZE"
    using block_bounds [of off] by (simp add: algebra_simps)
  then show "off mod BSIZE + turn off n \<le> BSIZE" by (simp add: turn_def)
qed

lemma turn_full: "turn off n < n \<Longrightarrow> off + turn off n = (off div BSIZE + 1) * BSIZE"
  using block_bounds(2) [of off] by (simp add: turn_def min_def split: if_splits)

lemma turn_block:
  assumes "off \<le> x" and "x < off + turn off n"
  shows "x div BSIZE = off div BSIZE" and "x mod BSIZE = off mod BSIZE + (x - off)"
proof -
  have "x < (off div BSIZE + 1) * BSIZE" using assms(2) block_bounds(2) [of off] by (simp add: turn_def)
  moreover have "off div BSIZE * BSIZE \<le> x" using block_bounds(1) [of off] assms(1) by (rule order_trans)
  ultimately show d: "x div BSIZE = off div BSIZE"
    by (intro div_nat_eqI) (simp_all add: algebra_simps)
  have "x = x div BSIZE * BSIZE + x mod BSIZE" "off = off div BSIZE * BSIZE + off mod BSIZE" by simp_all
  with d assms(1) show "x mod BSIZE = off mod BSIZE + (x - off)" by (metis Nat.add_diff_assoc add_diff_cancel_left' add.assoc le_add1 le_add_diff_inverse)
qed

lemma touched_turn: "0 < n \<Longrightarrow> touched off n = Suc (touched (off + turn off n) (n - turn off n))"
proof (cases "turn off n < n")
  case True
  have "BSIZE \<noteq> 0" by (simp add: BSIZE_def)
  note e = turn_full [OF True]
  have d: "(off + turn off n) div BSIZE = off div BSIZE + 1" using e \<open>BSIZE \<noteq> 0\<close> by simp
  have q: "off + turn off n + (n - turn off n) - 1 = off + n - 1" using True by simp
  have "(off + turn off n) div BSIZE \<le> (off + n - 1) div BSIZE" using True by (intro div_le_mono) simp
  then show ?thesis using True d q by (simp add: touched_def)
next
  case False
  assume "0 < n"
  from False have t: "turn off n = n" using turn_le(1) [of off n] by simp
  have "(off + n - 1) div BSIZE = off div BSIZE"
    using turn_block(1) [of off "off + n - 1" n] t \<open>0 < n\<close> by simp
  with t \<open>0 < n\<close> show ?thesis by (simp add: touched_def)
qed

section \<open>The whole loop\<close>

text \<open>
  What an append to inode \<open>i\<close> does to the contents: the file is longer by \<open>p\<close>, every other file is as it was, and so are the
  sectors before the data blocks.
\<close>

definition appended :: "nat \<Rightarrow> nat \<Rightarrow> byte list \<Rightarrow> (nat \<Rightarrow> bytes) \<Rightarrow> (nat \<Rightarrow> inode) \<Rightarrow> (nat \<Rightarrow> bytes) \<Rightarrow> inode \<Rightarrow> bool" where
  "appended i off p img D img' d' \<longleftrightarrow>
     (\<forall>j<NI. j \<noteq> i \<longrightarrow> (\<forall>x<i_size (D j). fdata img' (D j) x = fdata img (D j) x)) \<and>
     (\<forall>x<off. fdata img' d' x = fdata img (D i) x) \<and>
     (\<forall>x<length p. fdata img' d' (off + x) = p ! x) \<and>
     (\<forall>b<nmeta. img' b = img b)"

definition same_kind :: "inode \<Rightarrow> inode \<Rightarrow> bool" where
  "same_kind d d' \<longleftrightarrow> i_type d' = i_type d \<and> i_major d' = i_major d \<and> i_minor d' = i_minor d \<and> i_nlink d' = i_nlink d"

lemma fdata_size: "fdata img (d\<lparr>i_size := z\<rparr>) = fdata img d"
  by (simp add: fdata_def slot_def fun_eq_iff)

lemma slot_size: "slot img (d\<lparr>i_size := z\<rparr>) k = slot img d k"
  by (simp add: slot_def)

lemma old_slot:
  assumes "image_ok img fb D" and "i < NI" and "x < i_size (D i)"
  shows "x div BSIZE < MAXFILE \<and> slot img (D i) (blk_slot (x div BSIZE)) \<noteq> 0"
  using image_okD(6) [OF assms(1,2), of "x div BSIZE"] assms(3) block_bounds(1) [of x] by linarith

text \<open>One turn: \<open>m\<close> bytes of \<open>p\<close> go to the block that \<open>mk_bmap\<close> gave.\<close>

lemma turn_ok:
  assumes ok: "image_ok (mk_img s) (freeblock s) D" and i: "i < NI" and size: "i_size (D i) = off"
    and f: "off div BSIZE < MAXFILE" and room: "freeblock s + 2 \<le> mk_len s" "mk_len s < 4294967296"
    and p: "p \<noteq> []"
  defines "m \<equiv> turn off (length p)"
  shows "\<exists>x d s' buf. mk_bmap (off div BSIZE) (D i) s = Inr (x, d, s') \<and> rsect x s' = Inr buf \<and>
    (let s'' = wsect x (blit buf (off - off div BSIZE * BSIZE) (bytes_of_list p) 0 m) s'; d' = d\<lparr>i_size := off + m\<rparr> in
     image_ok (mk_img s'') (freeblock s'') (D(i := d')) \<and> appended i off (take m p) (mk_img s) D (mk_img s'') d' \<and>
     same_kind (D i) d' \<and> mk_len s'' = mk_len s \<and> freeinode s'' = freeinode s \<and> freeblock s \<le> freeblock s'' \<and>
     freeblock s'' \<le> freeblock s + 2)"
proof -
  let ?fbn = "off div BSIZE"
  obtain x d s' where b: "mk_bmap ?fbn (D i) s = Inr (x, d, s')" and r: "bmap_result i ?fbn D s x d s'"
    using mk_bmap_ok [OF ok i f room] by blast
  let ?D = "D(i := d)"
  have ok1: "image_ok (mk_img s') (freeblock s') ?D" and ext: "extends (mk_img s) D (mk_img s') ?D"
    and x: "slot (mk_img s') (?D i) (blk_slot ?fbn) = x" "x \<noteq> 0" and sz: "i_size d = off"
    and rest: "same_meta (D i) d" "mk_len s' = mk_len s" "freeinode s' = freeinode s" "freeblock s \<le> freeblock s'" "freeblock s' \<le> freeblock s + 2"
    using r size by (simp_all add: bmap_result_def same_meta_def)
  have xb: "nmeta \<le> x" "x < freeblock s'" using image_okD(1) [OF ok1 i blk_slot_less [OF f]] x by simp_all
  then have rd: "rsect x s' = Inr (mk_img s' x)" using rest room by (simp add: rsect_def)
  define img where "img = mk_img s'"
  define buf where "buf = blit (img x) (off - ?fbn * BSIZE) (bytes_of_list p) 0 m"
  define img' where "img' = img(x := buf)"
  define d' where "d' = d\<lparr>i_size := off + m\<rparr>"
  have m: "0 < m" "m \<le> length p" "off mod BSIZE + m \<le> BSIZE"
    using p turn_pos turn_le unfolding m_def by simp_all
  have "blk_ok buf"
    using image_okD(5) [OF ok1, of x] m(3) by (auto simp: buf_def img_def blk_ok_def blit_def block_bounds(3))
  note w = write_slot [OF ok1 i f x this, folded img_def, folded img'_def]
  have slots': "slot img' (D j) k = slot img (D j) k" if "j < NI" "k < NSLOT" "j \<noteq> i" for j k
    using w(2) [OF that(1,2)] that(3) by simp
  have sloti: "slot img' d' k = slot img d k" if "k < NSLOT" for k
    using w(2) [OF i that] by (simp add: d'_def slot_size)
  have ok2: "image_ok img' (freeblock s') (D(i := d'))"
  proof -
    have "slots_ok (\<lambda>(j, k). slot img' ((D(i := d')) j) k) (freeblock s') = slots_ok (\<lambda>(j, k). slot img' (?D j) k) (freeblock s')"
      by (intro slots_ok_cong) (auto simp: d'_def slot_size)
    moreover have "fbn < MAXFILE \<and> slot img' ((D(i := d')) j) (blk_slot fbn) \<noteq> 0"
      if "j < NI" "fbn * BSIZE < i_size ((D(i := d')) j)" for j fbn
    proof (cases "j = i \<and> off \<le> fbn * BSIZE")
      case False
      then have "fbn * BSIZE < i_size (?D j)" using that(2) sz by (auto simp: d'_def)
      with image_okD(6) [OF w(1) that(1)] show ?thesis by (auto simp: d'_def slot_size)
    next
      case True
      with that(2) have "fbn * BSIZE < off + turn off (length p)" by (simp add: d'_def m_def)
      with True turn_block(1) [of off "fbn * BSIZE"] have "fbn = ?fbn" by (simp add: BSIZE_def)
      with True x f sloti [OF blk_slot_less [OF f]] show ?thesis by (simp add: img_def)
    qed
    ultimately show ?thesis using w(1) by (simp add: image_ok_def)
  qed
  have "appended i off (take m p) (mk_img s) D img' d'"
    unfolding appended_def
  proof (intro conjI allI impI)
    fix j y assume j: "j < NI" "j \<noteq> i" and y: "y < i_size (D j)"
    note os = old_slot [OF ok j(1) y]
    let ?k = "blk_slot (y div BSIZE)"
    have same: "slot img (D j) ?k = slot (mk_img s) (D j) ?k"
      using ext os j blk_slot_less unfolding extends_def img_def by fastforce
    have "slot img (D j) ?k \<noteq> x"
    proof
      assume "slot img (D j) ?k = x"
      with image_okD(2) [OF ok1 i blk_slot_less [OF f] j(1), of ?k] x j(2) blk_slot_less os show False
        by (simp add: img_def)
    qed
    then have "fdata img' (D j) y = fdata img (D j) y"
      using slots' [OF j(1) blk_slot_less j(2)] os by (simp add: fdata_def img'_def)
    also have "\<dots> = fdata (mk_img s) (D j) y"
      using extends_fdata [OF ext j(1)] os j(2) by (simp add: img_def)
    finally show "fdata img' (D j) y = fdata (mk_img s) (D j) y" .
  next
    fix y assume y: "y < off"
    note os = old_slot [OF ok i, of y, unfolded size, OF y]
    have "fdata img' d' y = fdata img d y"
    proof (cases "y div BSIZE = ?fbn")
      case True
      have "y mod BSIZE < off mod BSIZE"
        using True y by (metis add_less_cancel_left div_mult_mod_eq)
      with True x sloti [OF blk_slot_less [OF f]] show ?thesis
        by (simp add: fdata_def img'_def img_def buf_def blit_def block_bounds(3))
    next
      case False
      then have "slot img d (blk_slot (y div BSIZE)) \<noteq> x"
        using image_okD(2) [OF ok1 i blk_slot_less [OF f] i, of "blk_slot (y div BSIZE)"] x os blk_slot_less blk_slot_inject
        by (auto simp: img_def)
      with sloti [OF blk_slot_less] os show ?thesis by (simp add: fdata_def img'_def)
    qed
    also have "\<dots> = fdata (mk_img s) (D i) y"
      using extends_fdata [OF ext i] os by (simp add: img_def)
    finally show "fdata img' d' y = fdata (mk_img s) (D i) y" .
  next
    fix k assume "k < length (take m p)"
    then have k: "k < m" by simp
    then have b: "(off + k) div BSIZE = ?fbn" "(off + k) mod BSIZE = off mod BSIZE + k"
      using turn_block [of off "off + k" "length p"] by (simp_all add: m_def)
    then show "fdata img' d' (off + k) = take m p ! k"
      using x k m(2) sloti [OF blk_slot_less [OF f]]
      by (simp add: fdata_def img'_def img_def buf_def blit_def block_bounds(3) bytes_of_list_def)
  next
    fix b assume "b < nmeta"
    with xb ext show "img' b = mk_img s b" by (simp add: img'_def img_def extends_def)
  qed
  moreover have "max (mk_len s') (Suc x) = mk_len s" using xb rest room by simp
  ultimately show ?thesis
    using b rd ok2 rest
    by (intro exI [of _ x] exI [of _ d] exI [of _ s'] exI [of _ "img x"])
      (simp add: wsect_def img'_def img_def buf_def d'_def same_kind_def same_meta_def)
qed

lemma appended_trans:
  assumes "appended i off p img D img' d'" and "appended i (off + length p) q img' (D(i := d')) img'' d''" and "i < NI"
  shows "appended i off (p @ q) img D img'' d''"
  unfolding appended_def
proof (intro conjI allI impI)
  fix j x assume "j < NI" "j \<noteq> i" "x < i_size (D j)"
  with assms(1,2) show "fdata img'' (D j) x = fdata img (D j) x" by (simp add: appended_def)
next
  fix x assume "x < length (p @ q)"
  show "fdata img'' d'' (off + x) = (p @ q) ! x"
  proof (cases "x < length p")
    case True
    with assms(1,2) show ?thesis by (simp add: appended_def nth_append)
  next
    case False
    with \<open>x < length (p @ q)\<close> assms(2) [unfolded appended_def, THEN conjunct2, THEN conjunct2, THEN conjunct1, rule_format, of "x - length p"]
    show ?thesis by (simp add: nth_append)
  qed
next
  fix x assume "x < off"
  with assms(1,2) show "fdata img'' d'' x = fdata img (D i) x" by (simp add: appended_def)
next
  fix b assume "b < nmeta"
  with assms(1,2) show "img'' b = img b" by (simp add: appended_def)
qed

lemma iappend_loop_ok:
  assumes "image_ok (mk_img s) (freeblock s) D" and "i < NI" and "D i = din\<lparr>i_size := off\<rparr>"
    and "off + length p \<le> MAXFILE * BSIZE" and "freeblock s + 2 * touched off (length p) \<le> mk_len s" and "mk_len s < 4294967296"
  shows "\<exists>d s'. iappend_loop din off p s = Inr (d, off + length p, s') \<and>
    (let d' = d\<lparr>i_size := off + length p\<rparr> in
     image_ok (mk_img s') (freeblock s') (D(i := d')) \<and> appended i off p (mk_img s) D (mk_img s') d' \<and> same_kind din d' \<and>
     mk_len s' = mk_len s \<and> freeinode s' = freeinode s \<and> freeblock s \<le> freeblock s' \<and>
     freeblock s' \<le> freeblock s + 2 * touched off (length p))"
  using assms
proof (induction "length p" arbitrary: p din off s D rule: less_induct)
  case less
  show ?case
  proof (cases "p = []")
    case True
    have "D(i := din\<lparr>i_size := off\<rparr>) = D" using less.prems(3) by auto
    with True less.prems show ?thesis
      by (subst iappend_loop.simps) (auto simp: appended_def same_kind_def fdata_size)
  next
    case False
    define m where "m = turn off (length p)"
    have m: "0 < m" "m \<le> length p" using False turn_pos turn_le(1) unfolding m_def by simp_all
    have tt: "touched off (length p) = Suc (touched (off + m) (length p - m))"
      using touched_turn [of "length p" off] False by (simp add: m_def)
    have "off < MAXFILE * BSIZE" using less.prems(4) False by (cases p) auto
    then have f: "off div BSIZE < MAXFILE" by (simp add: less_mult_imp_div_less)
    have sz: "i_size (D i) = off" using less.prems(3) by simp
    have room: "freeblock s + 2 \<le> mk_len s" using less.prems(5) tt by simp
    obtain x d1 s1 buf where b1: "mk_bmap (off div BSIZE) (D i) s = Inr (x, d1, s1)" and rd: "rsect x s1 = Inr buf"
      and P: "(let s'' = wsect x (blit buf (off - off div BSIZE * BSIZE) (bytes_of_list p) 0 m) s1; d' = d1\<lparr>i_size := off + m\<rparr> in
     image_ok (mk_img s'') (freeblock s'') (D(i := d')) \<and> appended i off (take m p) (mk_img s) D (mk_img s'') d' \<and>
     same_kind (D i) d' \<and> mk_len s'' = mk_len s \<and> freeinode s'' = freeinode s \<and> freeblock s \<le> freeblock s'' \<and>
     freeblock s'' \<le> freeblock s + 2)"
      using turn_ok [OF less.prems(1,2) sz f room less.prems(6) False] unfolding m_def by blast
    define s2 where "s2 = wsect x (blit buf (off - off div BSIZE * BSIZE) (bytes_of_list p) 0 m) s1"
    from b1 less.prems(3) obtain d where b: "mk_bmap (off div BSIZE) din s = Inr (x, d, s1)" and d1: "d1 = d\<lparr>i_size := off\<rparr>"
      by (auto simp: mk_bmap_size split: sum.splits)
    let ?d = "d\<lparr>i_size := off + m\<rparr>"
    from P d1 have s2: "image_ok (mk_img s2) (freeblock s2) (D(i := ?d))" "appended i off (take m p) (mk_img s) D (mk_img s2) ?d"
      "same_kind (D i) ?d" "mk_len s2 = mk_len s" "freeinode s2 = freeinode s" "freeblock s \<le> freeblock s2" "freeblock s2 \<le> freeblock s + 2"
      by (simp_all add: Let_def s2_def)
    have "length (drop m p) < length p" using m by simp
    moreover have "(D(i := ?d)) i = ?d" by simp
    ultimately obtain d' s3 where
      l: "iappend_loop d (off + m) (drop m p) s2 = Inr (d', off + m + length (drop m p), s3)"
      and Q: "(let d'' = d'\<lparr>i_size := off + m + length (drop m p)\<rparr> in
     image_ok (mk_img s3) (freeblock s3) ((D(i := ?d))(i := d'')) \<and> appended i (off + m) (drop m p) (mk_img s2) (D(i := ?d)) (mk_img s3) d'' \<and>
     same_kind d d'' \<and> mk_len s3 = mk_len s2 \<and> freeinode s3 = freeinode s2 \<and> freeblock s2 \<le> freeblock s3 \<and>
     freeblock s3 \<le> freeblock s2 + 2 * touched (off + m) (length (drop m p)))"
      using less.hyps [OF _ s2(1) less.prems(2), of "drop m p" "off + m" d] less.prems(4-6) s2(4,7) tt m by auto
    have "iappend_loop din off p s = Inr (d', off + length p, s3)"
      using False f b rd l m by (subst iappend_loop.simps) (simp add: Let_def s2_def m_def turn_def)
    moreover have "appended i off p (mk_img s) D (mk_img s3) (d'\<lparr>i_size := off + length p\<rparr>)"
      using appended_trans [OF s2(2) _ less.prems(2), of "drop m p"] Q m by (simp add: Let_def)
    ultimately show ?thesis
      using Q s2 tt m less.prems(3) by (simp add: Let_def same_kind_def)
  qed
qed

section \<open>Inodes on the image\<close>

definition dino :: "(nat \<Rightarrow> bytes) \<Rightarrow> nat \<Rightarrow> inode" where
  "dino img i = get_dinode (img (IBLOCK i mkfs_sb)) (dinode_off i) no_inode"

lemma layout:
  "nmeta = 46" "NI = 208" "sb_inodestart mkfs_sb = 32" "sb_bmapstart mkfs_sb = 45"
  by (simp_all add: nmeta_def nlog_def ninodeblocks_def nbitmap_def NINODES_def IPB_def BSIZE_def NI_def mkfs_sb_def
      LOGSIZE_def MAXOPBLOCKS_def LOGICAL_DISK_SIZE_def FSSIZE_def)

lemma inode_block:
  assumes "i < NI"
  shows "32 \<le> IBLOCK i mkfs_sb" and "IBLOCK i mkfs_sb < 45"
proof -
  have "i div 16 < 13" using assms by (simp add: layout less_mult_imp_div_less)
  then show "32 \<le> IBLOCK i mkfs_sb" and "IBLOCK i mkfs_sb < 45"
    by (simp_all add: IBLOCK_def layout IPB_def BSIZE_def cint_simps)
qed

lemma winode_ok:
  assumes i: "i < NI" and ip: "inode_ok ip" and len: "nmeta \<le> mk_len s" and blk: "\<And>b. blk_ok (mk_img s b)"
  defines "img' \<equiv> (mk_img s)(IBLOCK i mkfs_sb := put_dinode ip (dinode_off i) (mk_img s (IBLOCK i mkfs_sb)))"
  shows "winode i ip s = Inr (s\<lparr>mk_img := img'\<rparr>)"
    and "same_dinode (dino img' i) ip" and "j < NI \<Longrightarrow> j \<noteq> i \<Longrightarrow> dino img' j = dino (mk_img s) j"
    and "nmeta \<le> b \<Longrightarrow> img' b = mk_img s b" and "blk_ok (img' b)"
proof -
  let ?n = "IBLOCK i mkfs_sb"
  note n = inode_block [OF i]
  then have "?n < mk_len s" "max (mk_len s) (Suc ?n) = mk_len s" using len by (simp_all add: layout)
  then show "winode i ip s = Inr (s\<lparr>mk_img := img'\<rparr>)"
    by (simp add: winode_def rsect_def wsect_def img'_def Let_def)
  show "same_dinode (dino img' i) ip" using get_put_dinode [OF ip] by (simp add: dino_def img'_def)
  show "nmeta \<le> b \<Longrightarrow> img' b = mk_img s b" using n by (auto simp: img'_def layout)
  show "blk_ok (img' b)" using blk by (simp add: img'_def blk_ok_put_dinode)
  assume j: "j < NI" "j \<noteq> i"
  show "dino img' j = dino (mk_img s) j"
  proof (cases "IBLOCK j mkfs_sb = ?n")
    case False
    then show ?thesis by (simp add: dino_def img'_def)
  next
    case True
    then have "dinode_off i + 64 \<le> dinode_off j \<or> dinode_off j + 64 \<le> dinode_off i"
      using dinode_off_apart [of i mkfs_sb j] i j by (simp add: layout LOGICAL_DISK_SIZE_def FSSIZE_def)
    then have "get_dinode (put_dinode ip (dinode_off i) (mk_img s ?n)) (dinode_off j) no_inode = get_dinode (mk_img s ?n) (dinode_off j) no_inode"
      by (intro get_dinode_cong put_dinode_outside) auto
    with True show ?thesis by (simp add: dino_def img'_def)
  qed
qed

lemma slot_same:
  assumes "same_dinode d' d" and "i_addrs d NDIRECT \<noteq> 0 \<Longrightarrow> img' (i_addrs d NDIRECT) = img (i_addrs d NDIRECT)"
  shows "slot img' d' k = slot img d k"
  using assms by (auto simp: slot_def same_dinode_def)

text \<open>A change of sectors before the data blocks, after which the inodes on the image are \<open>D'\<close>.\<close>

lemma image_ok_meta:
  assumes ok: "image_ok img fb D" and b: "\<And>b. nmeta \<le> b \<Longrightarrow> img' b = img b" "\<And>b. blk_ok (img' b)"
    and D: "\<And>i. i < NI \<Longrightarrow> same_dinode (D' i) (D i)"
  shows "image_ok img' fb D'" and "i < NI \<Longrightarrow> slot img' (D' i) k = slot img (D i) k"
    and "i < NI \<Longrightarrow> x < i_size (D i) \<Longrightarrow> fdata img' (D' i) x = fdata img (D i) x"
proof -
  show s: "slot img' (D' i) k = slot img (D i) k" if "i < NI" for i k
  proof (rule slot_same [OF D [OF that]])
    assume "i_addrs (D i) NDIRECT \<noteq> 0"
    with image_okD(1) [OF ok that, of NDIRECT] have "nmeta \<le> i_addrs (D i) NDIRECT" by (simp add: slot_def NSLOT_def)
    then show "img' (i_addrs (D i) NDIRECT) = img (i_addrs (D i) NDIRECT)" by (rule b(1))
  qed
  have "slots_ok (\<lambda>(i, k). slot img' (D' i) k) fb = slots_ok (\<lambda>(i, k). slot img (D i) k) fb"
    by (intro slots_ok_cong) (auto simp: slots_def s)
  moreover have "i_size (D' i) = i_size (D i)" if "i < NI" for i using D [OF that] by (simp add: same_dinode_def)
  ultimately show "image_ok img' fb D'"
    using ok b image_okD(3) [OF ok] s by (simp add: image_ok_def)
  show "fdata img' (D' i) x = fdata img (D i) x" if "i < NI" "x < i_size (D i)"
  proof -
    note os = old_slot [OF ok that]
    with image_okD(1) [OF ok that(1) blk_slot_less] have "nmeta \<le> slot img (D i) (blk_slot (x div BSIZE))" by simp
    with b(1) s [OF that(1)] show ?thesis by (simp add: fdata_def)
  qed
qed

section \<open>Files\<close>

definition mk_file :: "mkfs \<Rightarrow> nat \<Rightarrow> byte list" where
  "mk_file s i = map (fdata (mk_img s) (dino (mk_img s) i)) [0..<i_size (dino (mk_img s) i)]"

definition disk_ok :: "mkfs \<Rightarrow> bool" where
  "disk_ok s \<longleftrightarrow> image_ok (mk_img s) (freeblock s) (dino (mk_img s)) \<and> mk_len s = FSSIZE"

definition keeps_others :: "nat \<Rightarrow> mkfs \<Rightarrow> mkfs \<Rightarrow> bool" where
  "keeps_others i s s' \<longleftrightarrow>
     (\<forall>j<NI. j \<noteq> i \<longrightarrow> mk_file s' j = mk_file s j \<and> same_kind (dino (mk_img s) j) (dino (mk_img s') j)) \<and>
     (\<forall>b. b < 32 \<or> b = 45 \<longrightarrow> mk_img s' b = mk_img s b)"

lemma length_mk_file: "length (mk_file s i) = i_size (dino (mk_img s) i)"
  by (simp add: mk_file_def)

lemma keeps_others_sector: "keeps_others i s s' \<Longrightarrow> b < 32 \<or> b = 45 \<Longrightarrow> mk_img s' b = mk_img s b"
  by (auto simp: keeps_others_def)

lemma winode_meta:
  assumes "i < NI" and "b < 32 \<or> b = 45"
  shows "((mk_img s)(IBLOCK i mkfs_sb := v)) b = mk_img s b"
  using inode_block [OF assms(1)] assms(2) by auto

text \<open>An inode whose addresses are those of an image in order can be stored.\<close>

lemma storable:
  assumes ok: "image_ok img fb D" and i: "i < NI" and fb: "fb \<le> FSSIZE" and k: "same_kind (get_dinode b off x) (D i)"
    and sz: "i_size (D i) < 4294967296"
  shows "inode_ok (D i)"
proof -
  have "i_addrs (D i) n < 4294967296" if "n \<le> NDIRECT" for n
  proof (cases "i_addrs (D i) n = 0")
    case False
    with image_okD(1) [OF ok i, of n] that fb show ?thesis by (simp add: slot_def NSLOT_def FSSIZE_def)
  qed simp
  with inode_ok_get [of b off x] k sz show ?thesis by (simp add: inode_ok_def same_kind_def)
qed

lemma iappend_ok:
  assumes ok: "disk_ok s" and i: "i < NI" and sz: "length (mk_file s i) + length p \<le> MAXFILE * BSIZE"
    and room: "freeblock s + 2 * touched (length (mk_file s i)) (length p) \<le> FSSIZE"
  shows "\<exists>s'. iappend i p s = Inr s' \<and> disk_ok s' \<and> mk_file s' i = mk_file s i @ p \<and> keeps_others i s s' \<and>
    same_kind (dino (mk_img s) i) (dino (mk_img s') i) \<and> freeinode s' = freeinode s \<and> freeblock s \<le> freeblock s' \<and>
    freeblock s' \<le> freeblock s + 2 * touched (length (mk_file s i)) (length p)"
proof -
  let ?D = "dino (mk_img s)" and ?off = "length (mk_file s i)"
  have off: "i_size (?D i) = ?off" by (simp add: length_mk_file)
  have im: "image_ok (mk_img s) (freeblock s) ?D" and len: "mk_len s = FSSIZE" using ok by (simp_all add: disk_ok_def)
  have ri: "rinode i s = Inr (?D i)"
    using inode_block [OF i] len by (simp add: rinode_def rsect_def dino_def FSSIZE_def)
  have "?D i = (?D i)\<lparr>i_size := ?off\<rparr>" using off [symmetric] by simp
  from iappend_loop_ok [OF im i this sz] room len obtain d s1 where
    l: "iappend_loop (?D i) ?off p s = Inr (d, ?off + length p, s1)" and P: "let d' = d\<lparr>i_size := ?off + length p\<rparr> in
     image_ok (mk_img s1) (freeblock s1) (?D(i := d')) \<and> appended i ?off p (mk_img s) ?D (mk_img s1) d' \<and> same_kind (?D i) d' \<and>
     mk_len s1 = mk_len s \<and> freeinode s1 = freeinode s \<and> freeblock s \<le> freeblock s1 \<and>
     freeblock s1 \<le> freeblock s + 2 * touched ?off (length p)"
    by (auto simp: FSSIZE_def)
  define d' where "d' = d\<lparr>i_size := ?off + length p\<rparr>"
  let ?D1 = "?D(i := d')"
  from P have im1: "image_ok (mk_img s1) (freeblock s1) ?D1" and ap: "appended i ?off p (mk_img s) ?D (mk_img s1) d'"
    and kind: "same_kind (?D i) d'" and r: "mk_len s1 = mk_len s" "freeinode s1 = freeinode s" "freeblock s \<le> freeblock s1"
      "freeblock s1 \<le> freeblock s + 2 * touched ?off (length p)"
    by (simp_all add: Let_def d'_def)
  have "i_size d' < 4294967296" using sz by (simp add: d'_def MAXFILE_def NDIRECT_def NINDIRECT_def BSIZE_def)
  then have ipok: "inode_ok d'"
    using storable [OF im1 i, of "mk_img s (IBLOCK i mkfs_sb)" "dinode_off i" no_inode] kind r(4) room by (simp add: dino_def [symmetric])
  have "nmeta \<le> mk_len s1" using r len by (simp add: layout FSSIZE_def)
  define img where "img = (mk_img s1)(IBLOCK i mkfs_sb := put_dinode d' (dinode_off i) (mk_img s1 (IBLOCK i mkfs_sb)))"
  note w = winode_ok [OF i ipok \<open>nmeta \<le> mk_len s1\<close> image_okD(5) [OF im1], folded img_def]
  have meta: "mk_img s1 b = mk_img s b" if "b < nmeta" for b using ap that by (simp add: appended_def)
  have dj: "dino (mk_img s1) j = ?D j" if "j < NI" for j
    using meta inode_block(2) [OF that] by (simp add: dino_def layout)
  have same: "same_dinode (dino img j) (?D1 j)" if "j < NI" for j
    using that w(2,3) dj by (cases "j = i") (simp_all add: same_dinode_def)
  note m = image_ok_meta [OF im1 w(4,5) same]
  let ?s = "s1\<lparr>mk_img := img\<rparr>"
  have "iappend i p s = Inr ?s"
    using ri l w(1) off by (simp add: iappend_def d'_def)
  moreover have "disk_ok ?s" using m(1) r len by (simp add: disk_ok_def)
  moreover have "mk_file ?s i = mk_file s i @ p"
  proof (rule nth_equalityI)
    have sz': "i_size (dino img i) = ?off + length p" using same [OF i] by (simp add: same_dinode_def d'_def)
    then show "length (mk_file ?s i) = length (mk_file s i @ p)" by (simp add: length_mk_file [of ?s])
    fix x assume "x < length (mk_file ?s i)"
    then have x: "x < ?off + length p" using sz' by (simp add: length_mk_file [of ?s])
    then have "mk_file ?s i ! x = fdata (mk_img s1) d' x"
      using i m(3) [where i = i and x = x] sz' by (simp add: mk_file_def d'_def)
    also have "\<dots> = (mk_file s i @ p) ! x"
    proof (cases "x < ?off")
      case True
      with ap show ?thesis by (simp add: appended_def nth_append) (simp add: mk_file_def)
    next
      case False
      with x ap [unfolded appended_def, THEN conjunct2, THEN conjunct2, THEN conjunct1, rule_format, of "x - ?off"]
      show ?thesis by (simp add: nth_append)
    qed
    finally show "mk_file ?s i ! x = (mk_file s i @ p) ! x" .
  qed
  moreover have "keeps_others i s ?s"
    unfolding keeps_others_def
  proof (intro conjI allI impI)
    fix j assume j: "j < NI" "j \<noteq> i"
    have eq: "dino img j = ?D j" using w(3) [OF j] dj [OF j(1)] by simp
    have "fdata img (?D j) x = fdata (mk_img s) (?D j) x" if "x < i_size (?D j)" for x
      using j m(3) [where i = j and x = x] eq ap j that by (simp add: appended_def)
    then show "mk_file ?s j = mk_file s j" using eq by (simp add: mk_file_def)
    show "same_kind (?D j) (dino (mk_img ?s) j)" using eq by (simp add: same_kind_def)
  next
    fix b :: nat assume b: "b < 32 \<or> b = 45"
    then show "mk_img ?s b = mk_img s b" using winode_meta [OF i b, of s1] meta b by (auto simp: layout img_def)
  qed
  moreover have "same_kind (?D i) (dino img i)"
    using kind same [OF i] by (simp add: same_kind_def same_dinode_def)
  ultimately show ?thesis using r by (intro exI [of _ ?s]) simp
qed

section \<open>New inodes\<close>

lemma image_ok_clear:
  assumes ok: "image_ok img fb D" and d: "\<And>k. k \<le> NDIRECT \<Longrightarrow> i_addrs d k = 0" "i_size d = 0"
  shows "image_ok img fb (D(i := d))"
proof -
  have z: "slot img d k = 0" for k using d(1) by (simp add: slot_def)
  have "slots_ok (\<lambda>(j, k). slot img (D j) k) fb" using ok by (simp add: image_ok_def)
  then have "slots_ok (\<lambda>(j, k). slot img ((D(i := d)) j) k) fb"
    using z unfolding slots_ok_def by (fastforce split: if_splits)
  moreover have "fbn < MAXFILE \<and> slot img ((D(i := d)) j) (blk_slot fbn) \<noteq> 0" if "j < NI" "fbn * BSIZE < i_size ((D(i := d)) j)" for j fbn
    using image_okD(6) [OF ok that(1), of fbn] that d(2) by (cases "j = i") auto
  ultimately show ?thesis using ok by (simp add: image_ok_def)
qed

lemma mk_ialloc_ok:
  assumes ok: "disk_ok s" and i: "freeinode s < NI" and ty: "is_short type"
  shows "\<exists>s'. mk_ialloc type s = Inr (freeinode s, s') \<and> disk_ok s' \<and> mk_file s' (freeinode s) = [] \<and>
    keeps_others (freeinode s) s s' \<and> i_type (dino (mk_img s') (freeinode s)) = type \<and> freeinode s' = Suc (freeinode s) \<and>
    freeblock s' = freeblock s"
proof -
  let ?i = "freeinode s" and ?s = "s\<lparr>freeinode := Suc (freeinode s)\<rparr>"
  define din where "din = no_inode\<lparr>i_type := type, i_nlink := 1, i_size := 0, i_major := 0,
    i_minor := (if type = T_DEVICE then 0 else M_READ + M_WRITE)\<rparr>"
  have im: "image_ok (mk_img s) (freeblock s) (dino (mk_img s))" and len: "mk_len s = FSSIZE"
    using ok by (simp_all add: disk_ok_def)
  have din: "inode_ok din" "\<And>k. i_addrs din k = 0" "i_size din = 0"
    using ty by (simp_all add: inode_ok_def din_def no_inode_def is_short_def M_READ_def M_WRITE_def)
  have "nmeta \<le> mk_len ?s" using len by (simp add: layout FSSIZE_def)
  have blk: "\<And>b. blk_ok (mk_img ?s b)" using image_okD(5) [OF im] by simp
  define img where "img = (mk_img ?s)(IBLOCK ?i mkfs_sb := put_dinode din (dinode_off ?i) (mk_img ?s (IBLOCK ?i mkfs_sb)))"
  note w = winode_ok [OF i din(1) \<open>nmeta \<le> mk_len ?s\<close> blk, folded img_def]
  have "image_ok (mk_img s) (freeblock s) ((dino (mk_img s))(?i := din))" by (rule image_ok_clear [OF im din(2,3)])
  moreover have same: "same_dinode (dino img j) (((dino (mk_img s))(?i := din)) j)" if "j < NI" for j
    using that w(2,3) by (cases "j = ?i") (simp_all add: same_dinode_def)
  ultimately have m: "image_ok img (freeblock s) (dino img)"
      "\<And>j x. j < NI \<Longrightarrow> x < i_size (((dino (mk_img s))(?i := din)) j) \<Longrightarrow>
        fdata img (dino img j) x = fdata (mk_img s) (((dino (mk_img s))(?i := din)) j) x"
    using image_ok_meta [of "mk_img s" "freeblock s" _ img "dino img"] w(4,5) by auto
  let ?t = "s\<lparr>mk_img := img, freeinode := Suc ?i\<rparr>"
  have "mk_ialloc type s = Inr (?i, ?t)" using w(1) by (simp add: mk_ialloc_def Let_def din_def [symmetric])
  moreover have "mk_file ?t ?i = []" using same [OF i] din(3) by (simp add: mk_file_def same_dinode_def)
  moreover have "keeps_others ?i s ?t"
    unfolding keeps_others_def
  proof (intro conjI allI impI)
    fix j assume j: "j < NI" "j \<noteq> ?i"
    have eq: "dino img j = dino (mk_img s) j" using w(3) [OF j] by simp
    then show "mk_file ?t j = mk_file s j" using m(2) [OF j(1)] j(2) by (simp add: mk_file_def)
    show "same_kind (dino (mk_img s) j) (dino (mk_img ?t) j)" using eq by (simp add: same_kind_def)
  next
    fix b :: nat assume b: "b < 32 \<or> b = 45"
    then show "mk_img ?t b = mk_img s b" using winode_meta [OF i b, of s] by (simp add: img_def)
  qed
  moreover have "i_type (dino (mk_img ?t) ?i) = type" using w(2) by (simp add: same_dinode_def din_def)
  ultimately show ?thesis using m(1) len by (intro exI [of _ ?t]) (simp add: disk_ok_def)
qed

section \<open>Adding a file\<close>

lemma keeps_others_trans:
  "keeps_others i s t \<Longrightarrow> keeps_others i t u \<Longrightarrow> keeps_others i s u"
  by (simp add: keeps_others_def same_kind_def)

lemma touched_block: "off mod BSIZE = 0 \<Longrightarrow> n \<le> BSIZE \<Longrightarrow> touched off n \<le> 1"
proof -
  assume "off mod BSIZE = 0" "n \<le> BSIZE"
  then have "(off + n - 1) div BSIZE = off div BSIZE" if "0 < n"
    using that by (intro div_nat_eqI) (auto simp: algebra_simps dvd_div_mult_self mod_eq_0_iff_dvd)
  then show ?thesis by (simp add: touched_def)
qed

definition blocks_for :: "nat \<Rightarrow> nat" where
  "blocks_for n = (n + BSIZE - 1) div BSIZE"

lemma blocks_for_step: "0 < n \<Longrightarrow> blocks_for n = Suc (blocks_for (n - BSIZE))"
  by (cases "n \<le> BSIZE") (auto simp: blocks_for_def BSIZE_def div_if)

lemma append_all_ok:
  assumes "disk_ok s" and "i < NI" and "length (mk_file s i) mod BSIZE = 0" and "length (mk_file s i) + length p \<le> MAXFILE * BSIZE"
    and "freeblock s + 2 * blocks_for (length p) \<le> FSSIZE"
  shows "\<exists>s'. append_all i p s = Inr s' \<and> disk_ok s' \<and> mk_file s' i = mk_file s i @ p \<and> keeps_others i s s' \<and>
    same_kind (dino (mk_img s) i) (dino (mk_img s') i) \<and> freeinode s' = freeinode s \<and> freeblock s \<le> freeblock s' \<and>
    freeblock s' \<le> freeblock s + 2 * blocks_for (length p)"
  using assms
proof (induction i p s rule: append_all.induct)
  case (1 i p s)
  show ?case
  proof (cases "p = []")
    case True
    with 1 show ?thesis by (subst append_all.simps) (simp add: keeps_others_def same_kind_def)
  next
    case False
    let ?q = "take BSIZE p"
    have b: "blocks_for (length p) = Suc (blocks_for (length p - BSIZE))" using False by (simp add: blocks_for_step)
    have t: "touched (length (mk_file s i)) (length ?q) \<le> 1" using 1(4) by (intro touched_block) simp_all
    obtain s1 where s1: "iappend i ?q s = Inr s1" "disk_ok s1" "mk_file s1 i = mk_file s i @ ?q" "keeps_others i s s1"
      "same_kind (dino (mk_img s) i) (dino (mk_img s1) i)" "freeinode s1 = freeinode s" "freeblock s \<le> freeblock s1"
      "freeblock s1 \<le> freeblock s + 2"
      using iappend_ok [OF 1(2,3), of ?q] 1(5,6) t b by fastforce
    show ?thesis
    proof (cases "length p \<le> BSIZE")
      case True
      then have "?q = p" "drop BSIZE p = []" by simp_all
      then have "append_all i p s = Inr s1" using s1(1) False by (subst append_all.simps, simp, subst append_all.simps) simp
      with s1 b \<open>?q = p\<close> show ?thesis by auto
    next
      case long: False
      then have "length (mk_file s1 i) mod BSIZE = 0" using s1(3) 1(4) by (simp add: mod_add_left_eq [symmetric])
      moreover have "length (mk_file s1 i) + length (drop BSIZE p) \<le> MAXFILE * BSIZE" using s1(3) 1(5) long by simp
      moreover have "freeblock s1 + 2 * blocks_for (length (drop BSIZE p)) \<le> FSSIZE" using s1(8) 1(6) b by simp
      ultimately obtain s2 where s2: "append_all i (drop BSIZE p) s1 = Inr s2" "disk_ok s2" "mk_file s2 i = mk_file s1 i @ drop BSIZE p"
        "keeps_others i s1 s2" "same_kind (dino (mk_img s1) i) (dino (mk_img s2) i)" "freeinode s2 = freeinode s1"
        "freeblock s1 \<le> freeblock s2" "freeblock s2 \<le> freeblock s1 + 2 * blocks_for (length (drop BSIZE p))"
        using "1.IH" [OF False s1(1,2) 1(3)] by auto
      have "append_all i p s = Inr s2" using s1(1) s2(1) False by (subst append_all.simps) simp
      moreover have "keeps_others i s s2" using s1(4) s2(4) by (rule keeps_others_trans)
      ultimately show ?thesis using s1 s2 b by (simp add: same_kind_def)
    qed
  qed
qed

lemma touched_dirent:
  assumes "off mod DESIZE = 0"
  shows "touched off DESIZE = 1"
proof -
  have "off mod BSIZE mod 16 = 0"
    using assms by (simp add: BSIZE_def DESIZE_def mod_mod_cancel)
  moreover have "off mod BSIZE < 1024" by (simp add: BSIZE_def)
  then have "off mod BSIZE div 16 < 64" by (simp add: less_mult_imp_div_less)
  ultimately have "off mod BSIZE \<le> 1008"
    using div_mult_mod_eq [of "off mod BSIZE" 16] by linarith
  then have "DESIZE \<le> (off div BSIZE + 1) * BSIZE - off"
    using block_bounds [of off] by (simp add: DESIZE_def) (simp add: BSIZE_def)
  then have "turn off DESIZE = DESIZE" by (simp add: turn_def)
  with touched_turn [of DESIZE off] show ?thesis by (simp add: DESIZE_def touched_def)
qed

lemma length_dirent: "length (dirent n i) = DESIZE"
  by (simp add: dirent_def)

definition file_name :: "byte list \<Rightarrow> byte list" where
  "file_name path = (case short_name path of Inl e \<Rightarrow> [] | Inr n \<Rightarrow> n)"

lemma add_file_ok:
  assumes ok: "disk_ok s" and i: "2 \<le> freeinode s" "freeinode s < NI" and name: "short_name (fst f) = Inr name"
    and root: "length (mk_file s ROOTINO) mod DESIZE = 0" "length (mk_file s ROOTINO) + DESIZE \<le> MAXFILE * BSIZE"
    and sz: "length (snd f) \<le> MAXFILE * BSIZE" and room: "freeblock s + 2 * (1 + blocks_for (length (snd f))) \<le> FSSIZE"
  shows "\<exists>s'. add_file f s = Inr s' \<and> disk_ok s' \<and> mk_file s' (freeinode s) = snd f \<and>
    mk_file s' ROOTINO = mk_file s ROOTINO @ dirent name (freeinode s) \<and>
    (\<forall>j<NI. j \<noteq> freeinode s \<longrightarrow> j \<noteq> ROOTINO \<longrightarrow> mk_file s' j = mk_file s j) \<and>
    (\<forall>j<NI. j \<noteq> freeinode s \<longrightarrow> i_type (dino (mk_img s') j) = i_type (dino (mk_img s) j)) \<and>
    i_type (dino (mk_img s') (freeinode s)) = T_FILE \<and> (\<forall>b. b < 32 \<or> b = 45 \<longrightarrow> mk_img s' b = mk_img s b) \<and>
    freeinode s' = Suc (freeinode s) \<and> freeblock s' \<le> freeblock s + 2 * (1 + blocks_for (length (snd f)))"
proof -
  let ?i = "freeinode s"
  have r: "ROOTINO < NI" "ROOTINO \<noteq> ?i" using i by (simp_all add: ROOTINO_def layout)
  obtain s1 where a: "mk_ialloc T_FILE s = Inr (?i, s1)" and s1: "disk_ok s1" "mk_file s1 ?i = []" "keeps_others ?i s s1"
    "i_type (dino (mk_img s1) ?i) = T_FILE" "freeinode s1 = Suc ?i" "freeblock s1 = freeblock s"
    using mk_ialloc_ok [OF ok i(2), of T_FILE] by (auto simp: is_short_def T_FILE_def)
  have root1: "mk_file s1 ROOTINO = mk_file s ROOTINO" using s1(3) r by (simp add: keeps_others_def)
  obtain s2 where b: "iappend ROOTINO (dirent name ?i) s1 = Inr s2" and s2: "disk_ok s2" "mk_file s2 ROOTINO = mk_file s ROOTINO @ dirent name ?i"
    "keeps_others ROOTINO s1 s2" "same_kind (dino (mk_img s1) ROOTINO) (dino (mk_img s2) ROOTINO)" "freeinode s2 = freeinode s1"
    "freeblock s2 \<le> freeblock s + 2"
    using iappend_ok [OF s1(1) r(1), of "dirent name ?i"] root root1 room s1(6) by (auto simp: length_dirent touched_dirent)
  have f2: "mk_file s2 ?i = []" "i_type (dino (mk_img s2) ?i) = T_FILE"
    using s2(3) r(2) i(2) s1(2,4) by (auto simp: keeps_others_def same_kind_def)
  obtain s3 where c: "append_all ?i (snd f) s2 = Inr s3" and s3: "disk_ok s3" "mk_file s3 ?i = snd f" "keeps_others ?i s2 s3"
    "same_kind (dino (mk_img s2) ?i) (dino (mk_img s3) ?i)" "freeinode s3 = freeinode s2"
    "freeblock s3 \<le> freeblock s2 + 2 * blocks_for (length (snd f))"
    using append_all_ok [OF s2(1) i(2), of "snd f"] f2(1) sz s2(6) room by auto
  have "add_file f s = Inr s3" using name a b c by (simp add: add_file_def)
  moreover have "mk_file s3 j = mk_file s j" if "j < NI" "j \<noteq> ?i" "j \<noteq> ROOTINO" for j
    using that s1(3) s2(3) s3(3) by (simp add: keeps_others_def)
  moreover have "i_type (dino (mk_img s3) j) = i_type (dino (mk_img s) j)" if "j < NI" "j \<noteq> ?i" for j
    using that s1(3) s2(3,4) s3(3) by (cases "j = ROOTINO") (simp_all add: keeps_others_def same_kind_def)
  moreover have "mk_file s3 ROOTINO = mk_file s ROOTINO @ dirent name ?i"
    using s2(2) s3(3) r by (simp add: keeps_others_def)
  moreover have "\<forall>b. b < 32 \<or> b = 45 \<longrightarrow> mk_img s3 b = mk_img s b"
    using s1(3) s2(3) s3(3) by (simp add: keeps_others_def)
  ultimately show ?thesis
    using s3 s2 s1 f2(2) by (intro exI [of _ s3]) (simp add: same_kind_def)
qed

section \<open>The whole image\<close>

definition root_dir :: "(byte list \<times> byte list) list \<Rightarrow> byte list" where
  "root_dir files = dirent (str ''.'') ROOTINO @ dirent (str ''..'') ROOTINO @
     concat (map (\<lambda>k. dirent (file_name (fst (files ! k))) (2 + k)) [0..<length files])"

definition block_need :: "(byte list \<times> byte list) list \<Rightarrow> nat" where
  "block_need files = 2 + (\<Sum>f\<leftarrow>files. 1 + blocks_for (length (snd f)))"

text \<open>The state after the files \<open>fs\<close> have been added.\<close>

definition built :: "(byte list \<times> byte list) list \<Rightarrow> mkfs \<Rightarrow> bool" where
  "built fs s \<longleftrightarrow> disk_ok s \<and> freeinode s = 2 + length fs \<and>
     (\<forall>k<length fs. mk_file s (2 + k) = snd (fs ! k) \<and> i_type (dino (mk_img s) (2 + k)) = T_FILE) \<and>
     mk_file s ROOTINO = root_dir fs \<and> i_type (dino (mk_img s) ROOTINO) = T_DIR \<and>
     mk_img s 1 = put_superblock mkfs_sb (\<lambda>_. 0) \<and> mk_img s 45 = (\<lambda>_. 0) \<and>
     freeblock s \<le> nmeta + 2 * block_need fs"

lemma length_concat_dirents: "length (concat (map (\<lambda>k. dirent (g k) (h k)) xs)) = DESIZE * length xs"
  by (induction xs) (simp_all add: length_dirent)

lemma length_root_dir: "length (root_dir files) = DESIZE * (2 + length files)"
  by (simp add: root_dir_def length_dirent length_concat_dirents)

lemma root_dir_snoc:
  "root_dir (fs @ [f]) = root_dir fs @ dirent (file_name (fst f)) (2 + length fs)"
proof -
  have eq: "map (\<lambda>k. dirent (file_name (fst ((fs @ [f]) ! k))) (2 + k)) [0..<length fs]
      = map (\<lambda>k. dirent (file_name (fst (fs ! k))) (2 + k)) [0..<length fs]"
    by (intro map_cong refl) (simp add: nth_append)
  have upt: "[0..<length (fs @ [f])] = [0..<length fs] @ [length fs]" by simp
  show ?thesis unfolding root_dir_def upt map_append concat_append eq by simp
qed

lemma block_need_snoc: "block_need (fs @ [f]) = block_need fs + (1 + blocks_for (length (snd f)))"
  by (simp add: block_need_def)

lemma add_file_built:
  assumes b: "built fs s" and n: "length fs < 198" and name: "short_name (fst f) = Inr name" and sz: "length (snd f) \<le> MAXFILE * BSIZE"
    and room: "nmeta + 2 * block_need (fs @ [f]) \<le> FSSIZE"
  shows "\<exists>s'. add_file f s = Inr s' \<and> built (fs @ [f]) s'"
proof -
  have i: "freeinode s = 2 + length fs" "2 \<le> freeinode s" "freeinode s < NI" using b n by (simp_all add: built_def layout)
  have rl: "length (mk_file s ROOTINO) = DESIZE * (2 + length fs)" using b by (simp add: built_def length_root_dir)
  have "length (mk_file s ROOTINO) mod DESIZE = 0" "length (mk_file s ROOTINO) + DESIZE \<le> MAXFILE * BSIZE"
    using rl n by (simp_all add: DESIZE_def MAXFILE_def NDIRECT_def NINDIRECT_def BSIZE_def)
  moreover have "freeblock s + 2 * (1 + blocks_for (length (snd f))) \<le> FSSIZE"
    using b room by (simp add: built_def block_need_snoc)
  ultimately obtain s' where s': "add_file f s = Inr s'" "disk_ok s'" "mk_file s' (freeinode s) = snd f"
    "mk_file s' ROOTINO = mk_file s ROOTINO @ dirent name (freeinode s)"
    "\<forall>j<NI. j \<noteq> freeinode s \<longrightarrow> j \<noteq> ROOTINO \<longrightarrow> mk_file s' j = mk_file s j"
    "\<forall>j<NI. j \<noteq> freeinode s \<longrightarrow> i_type (dino (mk_img s') j) = i_type (dino (mk_img s) j)"
    "i_type (dino (mk_img s') (freeinode s)) = T_FILE" "\<forall>b. b < 32 \<or> b = 45 \<longrightarrow> mk_img s' b = mk_img s b"
    "freeinode s' = Suc (freeinode s)" "freeblock s' \<le> freeblock s + 2 * (1 + blocks_for (length (snd f)))"
    using add_file_ok [OF _ i(2,3) name _ _ sz] b by (auto simp: built_def)
  have "mk_file s' (2 + k) = snd ((fs @ [f]) ! k) \<and> i_type (dino (mk_img s') (2 + k)) = T_FILE" if "k < length (fs @ [f])" for k
  proof (cases "k = length fs")
    case True
    with s' i show ?thesis by simp
  next
    case False
    with that have k: "k < length fs" by simp
    then have "2 + k < NI" "2 + k \<noteq> freeinode s" "2 + k \<noteq> ROOTINO" using i by (simp_all add: ROOTINO_def)
    with s'(5,6) b k show ?thesis by (simp add: built_def nth_append)
  qed
  moreover have "ROOTINO < NI" "ROOTINO \<noteq> freeinode s" using i(2) by (simp_all add: ROOTINO_def layout)
  moreover have "mk_file s' ROOTINO = root_dir (fs @ [f])"
    using s'(4) b i(1) name by (simp add: built_def root_dir_snoc file_name_def)
  moreover have "freeblock s' \<le> nmeta + 2 * block_need (fs @ [f])"
    using s'(10) b by (simp add: built_def block_need_snoc)
  ultimately show ?thesis using s' i b by (intro exI [of _ s']) (simp add: built_def)
qed

lemma add_files_built:
  assumes "built fs s" and "length fs + length gs \<le> 198" and "\<And>f. f \<in> set gs \<Longrightarrow> \<exists>name. short_name (fst f) = Inr name"
    and "\<And>f. f \<in> set gs \<Longrightarrow> length (snd f) \<le> MAXFILE * BSIZE" and "nmeta + 2 * block_need (fs @ gs) \<le> FSSIZE"
  shows "\<exists>s'. foldE add_file gs s = Inr s' \<and> built (fs @ gs) s'"
  using assms
proof (induction gs arbitrary: fs s)
  case Nil
  then show ?case by simp
next
  case (Cons g gs)
  obtain name where name: "short_name (fst g) = Inr name" using Cons.prems(3) [of g] by auto
  have "block_need (fs @ [g]) \<le> block_need (fs @ g # gs)" by (simp add: block_need_def)
  then have room: "nmeta + 2 * block_need (fs @ [g]) \<le> FSSIZE" using Cons.prems(5) by linarith
  have n: "length fs < 198" and sz: "length (snd g) \<le> MAXFILE * BSIZE" using Cons.prems(2) Cons.prems(4) [of g] by simp_all
  obtain s1 where s1: "add_file g s = Inr s1" "built (fs @ [g]) s1"
    using add_file_built [OF Cons.prems(1) n name sz room] by auto
  have "length (fs @ [g]) + length gs \<le> 198" "nmeta + 2 * block_need ((fs @ [g]) @ gs) \<le> FSSIZE"
    using Cons.prems(2,5) by simp_all
  from Cons.IH [OF s1(2) this(1) Cons.prems(3,4) this(2)] s1(1) show ?case by simp
qed

lemma get_dinode_zero: "dino (\<lambda>_ _. 0) i = no_inode"
  by (simp add: dino_def get_dinode_def get_short_def int_of_short_def no_inode_def fun_eq_iff)

lemma mkfs_init_ok: "disk_ok mkfs_init" "freeinode mkfs_init = 1" "freeblock mkfs_init = nmeta"
  "mk_img mkfs_init 1 = put_superblock mkfs_sb (\<lambda>_. 0)" "mk_img mkfs_init 45 = (\<lambda>_. 0)"
proof -
  have d: "dino (mk_img mkfs_init) i = no_inode" if "i < NI" for i
    using inode_block(1) [OF that] get_dinode_zero [of i] by (simp add: dino_def mkfs_init_def wsect_def)
  have "blk_ok (mk_img mkfs_init b)" for b
    by (simp add: mkfs_init_def wsect_def put_superblock_def blk_ok_def put_addrs_outside BSIZE_def del: put_addrs.simps)
  moreover have "slot (mk_img mkfs_init) (dino (mk_img mkfs_init) i) k = 0" if "i < NI" for i k
    using d [OF that] by (simp add: slot_def no_inode_def)
  ultimately show "disk_ok mkfs_init"
    using d by (auto simp: disk_ok_def image_ok_def slots_ok_def slots_def no_inode_def)
      (simp_all add: mkfs_init_def wsect_def layout FSSIZE_def)
qed (simp_all add: mkfs_init_def wsect_def)

lemma superblock_roundtrip: "superblock_of (put_superblock mkfs_sb d) = mkfs_sb"
proof -
  let ?xs = "[sb_magic mkfs_sb, sb_size mkfs_sb, sb_nblocks mkfs_sb, sb_ninodes mkfs_sb, sb_nlog mkfs_sb, sb_logstart mkfs_sb,
    sb_inodestart mkfs_sb, sb_bmapstart mkfs_sb]"
  have "?xs ! j < 4294967296" if "j < 8" for j
  proof -
    have "\<forall>x\<in>set ?xs. x < 4294967296"
      by (simp add: mkfs_sb_def FSMAGIC_def LOGICAL_DISK_SIZE_def FSSIZE_def nblocks_def NINODES_def nlog_def ninodeblocks_def
          LOGSIZE_def MAXOPBLOCKS_def IPB_def BSIZE_def)
    with that show ?thesis using nth_mem [of j ?xs] by auto
  qed
  then have g: "get_le (put_superblock mkfs_sb d) (4 * j) 4 = ?xs ! j" if "j < 8" for j
    using that get_put_addrs [of j 8 "(!) ?xs" 0 d] by (simp add: put_superblock_def del: put_addrs.simps)
  show ?thesis
    using g [of 0] g [of 1] g [of 2] g [of 3] g [of 4] g [of 5] g [of 6] g [of 7] by (simp add: superblock_of_def)
qed

lemma fold_bmask: "used (fold (\<lambda>i buf. buf(i div 8 := buf (i div 8) OR bmask i)) [0..<n] (\<lambda>_. 0)) b \<longleftrightarrow> b < n"
  by (induction n) (auto simp: used_set used_def [of "\<lambda>_. 0"] simp del: fun_upd_apply)

lemma root_entries_built:
  "\<exists>s0 s1 s2. mk_ialloc T_DIR mkfs_init = Inr (ROOTINO, s0) \<and> iappend ROOTINO (dirent (str ''.'') ROOTINO) s0 = Inr s1 \<and>
     iappend ROOTINO (dirent (str ''..'') ROOTINO) s1 = Inr s2 \<and> built [] s2"
proof -
  have r: "ROOTINO < NI" "ROOTINO = 1" by (simp_all add: ROOTINO_def layout)
  note I = mkfs_init_ok
  obtain s0 where s0: "mk_ialloc T_DIR mkfs_init = Inr (ROOTINO, s0)" "disk_ok s0" "mk_file s0 ROOTINO = []"
    "keeps_others ROOTINO mkfs_init s0" "i_type (dino (mk_img s0) ROOTINO) = T_DIR" "freeinode s0 = 2" "freeblock s0 = nmeta"
    using mk_ialloc_ok [OF I(1), of T_DIR] I(2,3) r by (auto simp: is_short_def T_DIR_def)
  obtain s1 where s1: "iappend ROOTINO (dirent (str ''.'') ROOTINO) s0 = Inr s1" "disk_ok s1"
    "mk_file s1 ROOTINO = dirent (str ''.'') ROOTINO" "keeps_others ROOTINO s0 s1"
    "same_kind (dino (mk_img s0) ROOTINO) (dino (mk_img s1) ROOTINO)" "freeinode s1 = 2" "freeblock s1 \<le> nmeta + 2"
    using iappend_ok [OF s0(2) r(1), of "dirent (str ''.'') ROOTINO"] s0(3,6,7) touched_dirent [of 0]
    by (auto simp: length_dirent layout FSSIZE_def MAXFILE_def NDIRECT_def BSIZE_def DESIZE_def)
  obtain s2 where s2: "iappend ROOTINO (dirent (str ''..'') ROOTINO) s1 = Inr s2" "disk_ok s2"
    "mk_file s2 ROOTINO = dirent (str ''.'') ROOTINO @ dirent (str ''..'') ROOTINO" "keeps_others ROOTINO s1 s2"
    "same_kind (dino (mk_img s1) ROOTINO) (dino (mk_img s2) ROOTINO)" "freeinode s2 = 2" "freeblock s2 \<le> nmeta + 4"
    using iappend_ok [OF s1(2) r(1), of "dirent (str ''..'') ROOTINO"] s1(3,6,7) touched_dirent [of DESIZE]
    by (auto simp: length_dirent layout FSSIZE_def MAXFILE_def NDIRECT_def BSIZE_def DESIZE_def)
  have "mk_img s2 b = mk_img mkfs_init b" if "b < 32 \<or> b = 45" for b
    using keeps_others_sector [OF s0(4) that] keeps_others_sector [OF s1(4) that] keeps_others_sector [OF s2(4) that] by simp
  then have "built [] s2"
    using s2 s1(5) s0(5) I(4,5) by (simp add: built_def root_dir_def block_need_def same_kind_def)
  with s0(1) s1(1) s2(1) show ?thesis by blast
qed

text \<open>
  The last two steps. The rounded size of the root directory may go one block beyond its blocks, so the image is described by
  its slots from here on.
\<close>

definition image_built :: "(byte list \<times> byte list) list \<Rightarrow> mkfs \<Rightarrow> bool" where
  "image_built files s \<longleftrightarrow>
     superblock_of (mk_img s 1) = mkfs_sb \<and>
     (\<forall>k<length files. mk_file s (2 + k) = snd (files ! k) \<and> i_type (dino (mk_img s) (2 + k)) = T_FILE) \<and>
     i_type (dino (mk_img s) ROOTINO) = T_DIR \<and>
     i_size (dino (mk_img s) ROOTINO) = (length (root_dir files) div BSIZE + 1) * BSIZE \<and>
     take (length (root_dir files)) (mk_file s ROOTINO) = root_dir files \<and>
     slots_ok (\<lambda>(i, k). slot (mk_img s) (dino (mk_img s) i) k) (freeblock s) \<and>
     (\<forall>b\<ge>freeblock s. mk_img s b = (\<lambda>_. 0)) \<and>
     freeblock s \<le> nmeta + 2 * block_need files"

lemma fix_root_size_ok:
  assumes b: "built files s" and n: "length files \<le> 198" and v: "blk_ok v"
  shows "\<exists>s'. fix_root_size s = Inr s' \<and> freeblock s' = freeblock s \<and> image_built files (wsect 45 v s')"
proof -
  have r: "ROOTINO < NI" "ROOTINO = 1" by (simp_all add: ROOTINO_def layout)
  have ok: "disk_ok s" and im: "image_ok (mk_img s) (freeblock s) (dino (mk_img s))" and len: "mk_len s = FSSIZE"
    using b by (simp_all add: built_def disk_ok_def)
  let ?D = "dino (mk_img s)" and ?l = "length (root_dir files)"
  have sz: "i_size (?D ROOTINO) = ?l" using b length_mk_file [of s ROOTINO] by (simp add: built_def)
  define d where "d = (?D ROOTINO)\<lparr>i_size := (?l div BSIZE + 1) * BSIZE\<rparr>"
  have ri: "rinode ROOTINO s = Inr (?D ROOTINO)"
    using inode_block [OF r(1)] len by (simp add: rinode_def rsect_def dino_def FSSIZE_def)
  have "?l div BSIZE < 4"
    using n by (intro less_mult_imp_div_less) (simp add: length_root_dir DESIZE_def BSIZE_def)
  then have "inode_ok d"
    using inode_ok_get [of "mk_img s (IBLOCK ROOTINO mkfs_sb)" "dinode_off ROOTINO" no_inode]
    by (simp add: d_def inode_ok_def dino_def BSIZE_def)
  have "nmeta \<le> mk_len s" using len by (simp add: layout FSSIZE_def)
  define img1 where "img1 = (mk_img s)(IBLOCK ROOTINO mkfs_sb := put_dinode d (dinode_off ROOTINO) (mk_img s (IBLOCK ROOTINO mkfs_sb)))"
  note w1 = winode_ok [OF r(1) \<open>inode_ok d\<close> \<open>nmeta \<le> mk_len s\<close> image_okD(5) [OF im], folded img1_def]
  define img where "img = img1(45 := v)"
  have "dino img j = dino img1 j" if "j < NI" for j using inode_block(2) [OF that] by (simp add: dino_def img_def)
  then have w: "winode ROOTINO d s = Inr (s\<lparr>mk_img := img1\<rparr>)" "same_dinode (dino img ROOTINO) d"
    "\<And>j. j < NI \<Longrightarrow> j \<noteq> ROOTINO \<Longrightarrow> dino img j = dino (mk_img s) j"
    "\<And>b. nmeta \<le> b \<Longrightarrow> img b = mk_img s b" "\<And>b. blk_ok (img b)"
    using w1 r(1) v by (simp_all add: img_def layout)
  let ?s = "wsect 45 v (s\<lparr>mk_img := img1\<rparr>)"
  have sf: "mk_img ?s = img" "freeblock ?s = freeblock s" by (simp_all add: wsect_def img_def)
  have same: "same_dinode ((dino img j)\<lparr>i_size := i_size (?D j)\<rparr>) (?D j)" if "j < NI" for j
    using that w(2,3) by (cases "j = ROOTINO") (simp_all add: same_dinode_def d_def)
  define D' where "D' = (\<lambda>j. (dino img j)\<lparr>i_size := i_size (?D j)\<rparr>)"
  have m: "image_ok img (freeblock s) D'" "\<And>j k. j < NI \<Longrightarrow> slot img (D' j) k = slot (mk_img s) (?D j) k"
      "\<And>j x. j < NI \<Longrightarrow> x < i_size (?D j) \<Longrightarrow> fdata img (D' j) x = fdata (mk_img s) (?D j) x"
    using image_ok_meta [OF im, of img D'] w(4,5) same by (auto simp: D'_def)
  have fd: "fdata img (dino img j) x = fdata (mk_img s) (?D j) x" if "j < NI" "x < i_size (?D j)" for j x
    using m(3) [OF that] by (simp add: D'_def fdata_size)
  have "fix_root_size s = Inr (s\<lparr>mk_img := img1\<rparr>)" using ri w(1) sz by (simp add: fix_root_size_def d_def)
  moreover have "image_built files ?s"
    unfolding image_built_def sf
  proof (intro conjI allI impI)
    show "superblock_of (img 1) = mkfs_sb"
      using winode_meta [OF r(1), of 1 s] b superblock_roundtrip by (simp add: img_def img1_def built_def)
    show "i_type (dino img ROOTINO) = T_DIR" "i_size (dino img ROOTINO) = (?l div BSIZE + 1) * BSIZE"
      using w(2) b by (simp_all add: same_dinode_def d_def built_def)
    then have big: "?l \<le> i_size (dino img ROOTINO)" using block_bounds(2) [of ?l] by simp
    have "take ?l (mk_file ?s ROOTINO) = map (fdata img (dino img ROOTINO)) [0..<?l]"
      using big unfolding mk_file_def sf by (simp add: take_map)
    also have "\<dots> = map (fdata (mk_img s) (?D ROOTINO)) [0..<?l]"
      using fd [OF r(1)] sz by simp
    also have "\<dots> = mk_file s ROOTINO" using sz by (simp add: mk_file_def)
    also have "\<dots> = root_dir files" using b by (simp add: built_def)
    finally show "take ?l (mk_file ?s ROOTINO) = root_dir files" .
    fix k assume k: "k < length files"
    then have k': "2 + k < NI" "2 + k \<noteq> ROOTINO" using n r by (simp_all add: layout)
    then have "dino img (2 + k) = ?D (2 + k)" using w(3) by blast
    then have "mk_file ?s (2 + k) = mk_file s (2 + k)"
      unfolding mk_file_def sf using fd [OF k'(1)] by simp
    with \<open>dino img (2 + k) = ?D (2 + k)\<close> b k
    show "mk_file ?s (2 + k) = snd (files ! k)" "i_type (dino img (2 + k)) = T_FILE"
      by (simp_all add: built_def)
  next
    have "slots_ok (\<lambda>(i, k). slot img (dino img i) k) (freeblock s) = slots_ok (\<lambda>(i, k). slot img (D' i) k) (freeblock s)"
      by (intro slots_ok_cong) (auto simp: D'_def slot_size)
    then show "slots_ok (\<lambda>(i, k). slot img (dino img i) k) (freeblock s)"
      using m(1) by (simp add: image_ok_def)
    show "img x = (\<lambda>_. 0)" if "freeblock s \<le> x" for x using image_okD(4) [OF m(1)] that by simp
    show "freeblock s \<le> nmeta + 2 * block_need files" using b by (simp add: built_def)
  qed
  ultimately show ?thesis by (intro exI [of _ "s\<lparr>mk_img := img1\<rparr>"]) simp
qed

lemma mkfs_image:
  assumes "length files \<le> 198" and "\<And>f. f \<in> set files \<Longrightarrow> \<exists>name. short_name (fst f) = Inr name"
    and "\<And>f. f \<in> set files \<Longrightarrow> length (snd f) \<le> MAXFILE * BSIZE" and "nmeta + 2 * block_need files \<le> LOGICAL_DISK_SIZE"
  shows "\<exists>s. mkfs_main files = Inr s \<and> image_built files s \<and>
    (\<forall>b. used (mk_img s (sb_bmapstart mkfs_sb)) b \<longleftrightarrow> b < freeblock s)"
proof -
  obtain s0 s1 s2 where s: "mk_ialloc T_DIR mkfs_init = Inr (ROOTINO, s0)" "iappend ROOTINO (dirent (str ''.'') ROOTINO) s0 = Inr s1"
     "iappend ROOTINO (dirent (str ''..'') ROOTINO) s1 = Inr s2" "built [] s2"
    using root_entries_built by blast
  have "nmeta + 2 * block_need ([] @ files) \<le> FSSIZE" using assms(4) by (simp add: LOGICAL_DISK_SIZE_def FSSIZE_def)
  from add_files_built [OF s(4) _ assms(2,3) this] assms(1) obtain s3 where s3: "foldE add_file files s2 = Inr s3" "built files s3" by auto
  let ?m = "\<lambda>n. fold (\<lambda>i buf. buf(i div 8 := buf (i div 8) OR bmask i)) [0..<n] (\<lambda>_. 0)"
  have m: "blk_ok (?m n)" if "n \<le> BSIZE * 8" for n
    using that by (induction n) (auto simp: blk_ok_def simp del: fun_upd_apply, auto simp: BSIZE_def)
  have fb: "freeblock s3 < BSIZE * 8"
    using s3(2) assms(4) by (simp add: built_def LOGICAL_DISK_SIZE_def FSSIZE_def BSIZE_def)
  obtain s4 where s4: "fix_root_size s3 = Inr s4" "freeblock s4 = freeblock s3" "image_built files (wsect 45 (?m (freeblock s3)) s4)"
    using fix_root_size_ok [OF s3(2) assms(1) m [OF less_imp_le [OF fb]]] by blast
  have "mkfs_main files = Inr (wsect 45 (?m (freeblock s3)) s4)"
    using s(1-3) s3(1) s4(1,2) fb by (simp add: mkfs_main_def mk_balloc_def layout Let_def)
  then show ?thesis using s4(2,3) fold_bmask by (auto simp: wsect_def layout)
qed

section \<open>Properties\<close>

text \<open>C36: Appending to a file of the image appends: as long as the file stays within the maximal
  size and enough sectors are left, \<^verbatim>\<open>iappend\<close> returns, the file is its old contents followed by the new bytes, every
  other file is as it was, and the image stays in order.
\<close>

theorem iappend_appends:
  assumes "disk_ok s" and "i < NI" and "length (mk_file s i) + length p \<le> MAXFILE * BSIZE"
    and "freeblock s + 2 * touched (length (mk_file s i)) (length p) \<le> FSSIZE"
  shows "\<exists>s'. iappend i p s = Inr s' \<and> disk_ok s' \<and> mk_file s' i = mk_file s i @ p \<and>
    (\<forall>j<NI. j \<noteq> i \<longrightarrow> mk_file s' j = mk_file s j)"
  using iappend_ok [OF assms] by (auto simp: keeps_others_def)

theorem iappend_appends_witness:
  "\<exists>s'. iappend 1 [1, 2, 3] mkfs_init = Inr s' \<and> disk_ok s' \<and> mk_file s' 1 = mk_file mkfs_init 1 @ [1, 2, 3] \<and>
    (\<forall>j<NI. j \<noteq> 1 \<longrightarrow> mk_file s' j = mk_file mkfs_init j)"
proof (rule iappend_appends)
  have "dino (mk_img mkfs_init) 1 = no_inode"
    using get_dinode_zero [of 1] inode_block(1) [of 1] by (simp add: dino_def mkfs_init_def wsect_def layout)
  then have "length (mk_file mkfs_init 1) = 0" by (simp add: length_mk_file no_inode_def)
  then show "length (mk_file mkfs_init 1) + length [1, 2, 3] \<le> MAXFILE * BSIZE"
    "freeblock mkfs_init + 2 * touched (length (mk_file mkfs_init 1)) (length [1, 2, 3]) \<le> FSSIZE"
    by (simp_all add: mkfs_init_ok layout touched_def MAXFILE_def NDIRECT_def BSIZE_def FSSIZE_def)
qed (simp_all add: mkfs_init_ok layout)

text \<open>C35: \<^verbatim>\<open>mkfs\<close> builds the file system the kernel expects: for at most 198 files with proper names, of at most the maximal size, that
  fit the logical disk even with two blocks for each block of data, \<^verbatim>\<open>main\<close> returns. The kernel reads back the super block; file \<open>k\<close>
  is a regular file at inode \<open>2 + k\<close> with its contents; the root directory, a whole number of blocks, begins with its
  entries; no two places of inodes and indirect blocks hold the same block, and all of these are data blocks that the free map marks as used.
\<close>

theorem mkfs_builds_image:
  assumes "length files \<le> 198" and "\<And>f. f \<in> set files \<Longrightarrow> \<exists>name. short_name (fst f) = Inr name"
    and "\<And>f. f \<in> set files \<Longrightarrow> length (snd f) \<le> MAXFILE * BSIZE" and "nmeta + 2 * block_need files \<le> LOGICAL_DISK_SIZE"
  shows "\<exists>s. mkfs_main files = Inr s \<and> image_built files s \<and>
    (\<forall>b. used (mk_img s (sb_bmapstart mkfs_sb)) b \<longleftrightarrow> b < freeblock s)"
  by (rule mkfs_image [OF assms])

theorem mkfs_builds_image_witness:
  "\<exists>s. mkfs_main [(str ''user/_ls'', [1, 2, 3]), (str ''README'', [])] = Inr s \<and>
    image_built [(str ''user/_ls'', [1, 2, 3]), (str ''README'', [])] s \<and>
    (\<forall>b. used (mk_img s (sb_bmapstart mkfs_sb)) b \<longleftrightarrow> b < freeblock s)"
  by (rule mkfs_builds_image)
    (auto simp: short_name_def str_def SLASH_def block_need_def blocks_for_def BSIZE_def MAXFILE_def NDIRECT_def layout
      LOGICAL_DISK_SIZE_def FSSIZE_def Let_def)

text \<open>C37: The second disk of the image is empty: \<^verbatim>\<open>mkfs\<close> writes the file system to the first
  disk only, and leaves every sector of the mirror zero. A block that the kernel has not written itself since is lost with the first disk.
\<close>

theorem mkfs_leaves_mirror_empty:
  assumes "length files \<le> 198" and "\<And>f. f \<in> set files \<Longrightarrow> \<exists>name. short_name (fst f) = Inr name"
    and "\<And>f. f \<in> set files \<Longrightarrow> length (snd f) \<le> MAXFILE * BSIZE" and "nmeta + 2 * block_need files \<le> LOGICAL_DISK_SIZE"
  shows "\<exists>s. mkfs_main files = Inr s \<and> superblock_of (mk_img s 1) = mkfs_sb \<and>
    (\<forall>b\<ge>DISK1_START_BLOCK. mk_img s b = (\<lambda>_. 0))"
proof -
  obtain s where "mkfs_main files = Inr s" "image_built files s"
    using mkfs_image [OF assms] by blast
  moreover have "freeblock s \<le> DISK1_START_BLOCK"
    using \<open>image_built files s\<close> assms(4) by (simp add: image_built_def LOGICAL_DISK_SIZE_def DISK1_START_BLOCK_def)
  ultimately show ?thesis by (auto simp: image_built_def)
qed

theorem mkfs_leaves_mirror_empty_witness:
  "\<exists>s. mkfs_main [] = Inr s \<and> superblock_of (mk_img s 1) = mkfs_sb \<and> (\<forall>b\<ge>DISK1_START_BLOCK. mk_img s b = (\<lambda>_. 0))"
  by (rule mkfs_leaves_mirror_empty) (simp_all add: block_need_def layout LOGICAL_DISK_SIZE_def FSSIZE_def)

end
