(* ===== verification/Umalloc.thy ===== *)
theory Umalloc
  imports Syscall
begin

text \<open>
  The storage allocator of the user programs (\<^verbatim>\<open>FileSystem-RAID/user/umalloc.c\<close>): a circular list of free
  blocks in the order of their addresses, first fit from where the last search ended, neighbours merged when a
  block is freed. The headers of blocks are kept by address; what programs store in their blocks is not in the state. An
  address is a number of bytes, and pointer arithmetic on headers counts units of 16 bytes. \<^verbatim>\<open>sbrk\<close> is
  the system call as a program sees it; the kernel decides with \<open>grants\<close> whether it finds memory.

  The abstract heap is the sorted list of the free blocks with their sizes. The lemmas show what \<^verbatim>\<open>free\<close> and
  taking a block do to it, and that blocks in use stay apart from each other and from the free ones.
\<close>

section \<open>State\<close>

record umem =
  h_ptr :: "nat \<Rightarrow> nat"
  h_size :: "nat \<Rightarrow> nat"
  base_at :: nat
  freep :: nat
  brk :: nat
  grants :: "bool list"

text \<open>The size of a header, and the null pointer minus one that \<^verbatim>\<open>sbrk\<close> returns when it fails.\<close>

definition HDR :: nat where "HDR = 16"
definition SBRK_FAILED :: nat where "SBRK_FAILED = 18446744073709551615"

abbreviation set_ptr :: "nat \<Rightarrow> nat \<Rightarrow> umem \<Rightarrow> umem" where
  "set_ptr p v s \<equiv> s\<lparr>h_ptr := (h_ptr s)(p := v)\<rparr>"

abbreviation set_size :: "nat \<Rightarrow> nat \<Rightarrow> umem \<Rightarrow> umem" where
  "set_size p v s \<equiv> s\<lparr>h_size := (h_size s)(p := v)\<rparr>"

text \<open>\<open>p + k\<close> for a pointer to headers.\<close>

definition hdr_add :: "nat \<Rightarrow> nat \<Rightarrow> nat" where
  "hdr_add p k = u64 (p + HDR * k)"

section \<open>The routines\<close>

text \<open>
  \<^verbatim>\<open>sbrk\<close>: \<^verbatim>\<open>growproc\<close> works with the size as a \<^verbatim>\<open>uint\<close>, and does nothing when a
  negative argument is larger than the process; the old size is returned as an \<^verbatim>\<open>int\<close> and becomes a pointer again.
\<close>

definition sbrk :: "int \<Rightarrow> umem \<Rightarrow> nat \<times> umem" where
  "sbrk n s =
     (let sz = brk s; new = u32_of_int (int sz + n); addr = u64_of_int (int_of_u32 sz) in
      if n > 0 then
        (if new < sz then (addr, s)
         else case grants s of
           [] \<Rightarrow> (SBRK_FAILED, s)
         | g # gs \<Rightarrow> if g then (addr, s\<lparr>grants := gs, brk := new\<rparr>) else (SBRK_FAILED, s\<lparr>grants := gs\<rparr>))
      else if n < 0 then (addr, s\<lparr>brk := (if new \<ge> sz then sz else new)\<rparr>)
      else (addr, s))"

text \<open>The loop of \<^verbatim>\<open>free\<close> that finds the free block in front of \<open>bp\<close>.\<close>

partial_function (option) free_loop :: "nat \<Rightarrow> nat \<Rightarrow> umem \<Rightarrow> nat option" where
  "free_loop bp p s =
     (if bp > p \<and> bp < h_ptr s p then Some p
      else if p \<ge> h_ptr s p \<and> (bp > p \<or> bp < h_ptr s p) then Some p
      else free_loop bp (h_ptr s p) s)"

definition free_link :: "nat \<Rightarrow> nat \<Rightarrow> umem \<Rightarrow> umem" where
  "free_link bp p s =
     (let s = (if hdr_add bp (h_size s bp) = h_ptr s p then
                 let s = set_size bp (u32 (h_size s bp + h_size s (h_ptr s p))) s in
                 set_ptr bp (h_ptr s (h_ptr s p)) s
               else set_ptr bp (h_ptr s p) s);
          s = (if hdr_add p (h_size s p) = bp then
                 let s = set_size p (u32 (h_size s p + h_size s bp)) s in
                 set_ptr p (h_ptr s bp) s
               else set_ptr p bp s) in
      s\<lparr>freep := p\<rparr>)"

definition free :: "nat \<Rightarrow> umem \<Rightarrow> umem option" where
  "free ap s =
     (let bp = ap - HDR in
      case free_loop bp (freep s) s of None \<Rightarrow> None | Some p \<Rightarrow> Some (free_link bp p s))"

text \<open>
  \<^verbatim>\<open>morecore\<close>: the argument of \<^verbatim>\<open>sbrk\<close> is an \<^verbatim>\<open>int\<close>. A store to a page that the process does not have
  ends it.
\<close>

definition morecore :: "nat \<Rightarrow> umem \<Rightarrow> (nat \<times> umem) kres option" where
  "morecore nu s =
     (let nu = (if nu < 4096 then 4096 else nu) in
      case sbrk (int_of_u32 (u32 (nu * HDR))) s of
        (p, s) \<Rightarrow>
          if p = SBRK_FAILED then Some (Inr (0, s))
          else if PGROUNDUP (brk s) < p + HDR then Some (Inl (Undef ''page fault''))
          else
            case free (p + HDR) (set_size p nu s) of
              None \<Rightarrow> None
            | Some s \<Rightarrow> Some (Inr (freep s, s)))"

text \<open>The block that \<^verbatim>\<open>malloc\<close> has found: all of it, or its end.\<close>

definition malloc_take :: "nat \<Rightarrow> nat \<Rightarrow> nat \<Rightarrow> umem \<Rightarrow> nat \<times> umem" where
  "malloc_take nunits pr p s =
     (let (p, s) =
        (if h_size s p = nunits then (p, set_ptr pr (h_ptr s p) s)
         else
           let s = set_size p (h_size s p - nunits) s;
               p = hdr_add p (h_size s p);
               s = set_size p nunits s in
           (p, s)) in
      (p + HDR, s\<lparr>freep := pr\<rparr>))"

partial_function (option) malloc_loop ::
  "nat \<Rightarrow> nat \<Rightarrow> nat \<Rightarrow> umem \<Rightarrow> (nat \<times> umem) kres option" where
  "malloc_loop nunits pr p s =
     (if h_size s p \<ge> nunits then Some (Inr (malloc_take nunits pr p s))
      else if p = freep s then
        (case morecore nunits s of
           None \<Rightarrow> None
         | Some r \<Rightarrow>
             (case r of
                Inl e \<Rightarrow> Some (Inl e)
              | Inr ps \<Rightarrow>
                  (if fst ps = 0 then Some (Inr (0, snd ps))
                   else malloc_loop nunits (fst ps) (h_ptr (snd ps) (fst ps)) (snd ps))))
      else malloc_loop nunits p (h_ptr s p) s)"

definition units_of :: "nat \<Rightarrow> nat" where
  "units_of nbytes = u32 ((nbytes + HDR - 1) div HDR + 1)"

definition malloc :: "nat \<Rightarrow> umem \<Rightarrow> (nat \<times> umem) kres option" where
  "malloc nbytes s =
     (let nunits = units_of nbytes;
          s = (if freep s = 0 then
                 (set_size (base_at s) 0 (set_ptr (base_at s) (base_at s) s))\<lparr>freep := base_at s\<rparr>
               else s) in
      malloc_loop nunits (freep s) (h_ptr s (freep s)) s)"

section \<open>The abstract heap\<close>

text \<open>
  Blocks with their sizes in units, in the order of their addresses and with a gap between any two. \<open>insert_block\<close> adds a block
  and merges it with its neighbours.
\<close>

type_synonym block = "nat \<times> nat"

definition before :: "block \<Rightarrow> block \<Rightarrow> bool" where
  "before b c \<longleftrightarrow> fst b + HDR * snd b < fst c"

fun join :: "block \<Rightarrow> block list \<Rightarrow> block list" where
  "join (b, k) ((y, m) # r) = (if b + HDR * k = y then (b, k + m) # r else (b, k) # (y, m) # r)"
| "join (b, k) [] = [(b, k)]"

fun insert_block :: "block \<Rightarrow> block list \<Rightarrow> block list" where
  "insert_block (b, k) [] = [(b, k)]"
| "insert_block (b, k) ((x, n) # r) =
     (if b < x then join (b, k) ((x, n) # r)
      else if x + HDR * n = b then join (x, n + k) r
      else (x, n) # insert_block (b, k) r)"

text \<open>The list in memory: every block points to the next one, the last one to \<open>z\<close>.\<close>

definition first :: "block list \<Rightarrow> nat \<Rightarrow> nat" where
  "first bs z = (case bs of [] \<Rightarrow> z | b # _ \<Rightarrow> fst b)"

lemma first_simps [simp]: "first [] z = z" "first (b # bs) z = fst b"
  by (simp_all add: first_def)

lemma first_append [simp]: "first (us @ vs) z = first us (first vs z)"
  by (cases us) simp_all

primrec links :: "(nat \<Rightarrow> nat) \<Rightarrow> (nat \<Rightarrow> nat) \<Rightarrow> block list \<Rightarrow> nat \<Rightarrow> bool" where
  "links P S [] z = True"
| "links P S (b # bs) z = (P (fst b) = first bs z \<and> S (fst b) = snd b \<and> links P S bs z)"

lemma links_append [simp]: "links P S (us @ vs) z \<longleftrightarrow> links P S us (first vs z) \<and> links P S vs z"
  by (induction us) simp_all

lemma links_upd [simp]:
  "x \<notin> fst ` set bs \<Longrightarrow> links (P(x := v)) S bs z = links P S bs z"
  "x \<notin> fst ` set bs \<Longrightarrow> links P (S(x := v)) bs z = links P S bs z"
  by (induction bs) auto

lemma links_size: "links P S bs z \<Longrightarrow> b \<in> set bs \<Longrightarrow> S (fst b) = snd b"
  by (induction bs) auto

lemma links_next: "links P S bs z \<Longrightarrow> x \<in> fst ` set bs \<Longrightarrow> P x \<in> insert z (fst ` set bs)"
proof (induction bs)
  case (Cons b bs)
  then show ?case by (cases bs) auto
qed simp

lemma before_trans: "before a b \<Longrightarrow> before b c \<Longrightarrow> before a c"
  by (simp add: before_def)

lemma sorted_first: "sorted_wrt before (b # bs) \<Longrightarrow> c \<in> set (b # bs) \<Longrightarrow> fst b \<le> fst c"
  by (auto simp: before_def)

lemma sorted_distinct: "sorted_wrt before bs \<Longrightarrow> distinct (map fst bs)"
  by (induction bs) (auto simp: before_def)

section \<open>Freeing a block\<close>

text \<open>\<open>place bp x vs\<close>: a block at \<open>bp\<close> goes between the block \<open>x\<close> and the blocks \<open>vs\<close> that follow it.\<close>

definition place :: "nat \<Rightarrow> nat \<Rightarrow> block list \<Rightarrow> bool" where
  "place bp x vs \<longleftrightarrow> x < bp \<and> (vs \<noteq> [] \<longrightarrow> bp < fst (hd vs))"

lemma free_loop_stops:
  assumes "links (h_ptr s) (h_size s) ((x, n) # vs) z" and "place bp x vs" and "z \<le> x"
  shows "free_loop bp x s = Some x"
  using assms by (subst free_loop.simps) (cases vs; auto simp: place_def)

lemma free_loop_up:
  assumes "links (h_ptr s) (h_size s) (cs @ (x, n) # vs) z" and "sorted_wrt before (cs @ (x, n) # vs)"
    and "place bp x vs" and "z \<le> x"
  shows "free_loop bp (first cs x) s = Some x"
  using assms
proof (induction cs)
  case Nil
  then show ?case using free_loop_stops [of s x n vs z bp] by simp
next
  case (Cons c cs)
  let ?y = "first cs x"
  have nxt: "h_ptr s (fst c) = ?y" using Cons.prems(1) by simp
  have lt: "fst c < ?y" using Cons.prems(2) by (cases cs) (auto simp: before_def)
  have le: "?y \<le> x" using Cons.prems(2) by (cases cs) (auto simp: before_def)
  have "x < bp" using Cons.prems(3) by (simp add: place_def)
  then have "free_loop bp (fst c) s = free_loop bp ?y s"
    using nxt lt le by (subst free_loop.simps) simp
  then show ?case using Cons by simp
qed

lemma free_loop_wraps:
  assumes "links (h_ptr s) (h_size s) (b # bs) z" and "sorted_wrt before (b # bs)"
    and "bp < fst b" and "z < bp"
  shows "free_loop bp (fst b) s = free_loop bp z s"
  using assms
proof (induction bs arbitrary: b)
  case Nil
  then show ?case by (subst free_loop.simps) simp
next
  case (Cons c bs)
  have "fst b < fst c" using Cons.prems(2) by (simp add: before_def)
  then have "free_loop bp (fst b) s = free_loop bp (fst c) s"
    using Cons.prems by (subst free_loop.simps) simp
  also have "\<dots> = free_loop bp z s"
    using Cons.prems \<open>fst b < fst c\<close> by (intro Cons.IH) auto
  finally show ?case .
qed

text \<open>From every block of the circle the loop ends, at the block in front of \<open>bp\<close>.\<close>

lemma free_loop_finds:
  assumes ch: "links (h_ptr s) (h_size s) ns z" and so: "sorted_wrt before ns" and z: "z = fst (hd ns)"
    and ns: "ns = us @ (x, n) # vs" and pl: "place bp x vs" and p: "p \<in> fst ` set ns"
  shows "free_loop bp p s = Some x"
proof -
  have zx: "z \<le> x" using so z ns by (cases us) (auto simp: before_def)
  have up: "free_loop bp (first cs x) s = Some x" if "us = ds @ cs" for cs ds
    using ch so unfolding ns that by (intro free_loop_up [OF _ _ pl zx]) (auto simp: sorted_wrt_append)
  have "p \<in> fst ` set us \<or> p = x \<or> p \<in> fst ` set vs" using p ns by auto
  then show ?thesis
  proof (elim disjE)
    assume "p \<in> fst ` set us"
    then obtain c where c: "c \<in> set us" "p = fst c" by auto
    then obtain ds cs where "us = ds @ c # cs" by (meson split_list)
    with up [of ds "c # cs"] c show ?thesis by simp
  next
    assume "p = x"
    with up [of us "[]"] show ?thesis by simp
  next
    assume "p \<in> fst ` set vs"
    then obtain c where c: "c \<in> set vs" "p = fst c" by auto
    then obtain ds cs where vs: "vs = ds @ c # cs" by (meson split_list)
    have "bp < fst (hd vs)" "x < bp" using pl vs by (auto simp: place_def)
    moreover have "fst (hd vs) \<le> fst c" using so vs ns by (cases ds) (auto simp: sorted_wrt_append before_def)
    ultimately have "free_loop bp (fst c) s = free_loop bp z s"
      using ch so zx unfolding ns vs by (intro free_loop_wraps) (auto simp: sorted_wrt_append)
    also have "z = first us x" using z ns by (cases us) auto
    also have "free_loop bp (first us x) s = Some x" using up [of "[]" us] by simp
    finally show ?thesis using c by simp
  qed
qed

text \<open>The place of a block exists.\<close>

lemma place_exists:
  assumes "fst (hd ns) < bp" and "ns \<noteq> []" and "\<And>c. c \<in> set ns \<Longrightarrow> fst c \<noteq> bp"
  obtains us x n vs where "ns = us @ (x, n) # vs" and "place bp x vs"
proof -
  have "\<exists>us x n vs. ns = us @ (x, n) # vs \<and> place bp x vs"
    using assms
  proof (induction ns)
    case (Cons c ns)
    show ?case
    proof (cases "ns \<noteq> [] \<and> fst (hd ns) < bp")
      case True
      then obtain us x n vs where "ns = us @ (x, n) # vs" "place bp x vs" using Cons by fastforce
      then show ?thesis by (intro exI [of _ "c # us"]) auto
    next
      case False
      have "ns \<noteq> [] \<Longrightarrow> fst (hd ns) \<noteq> bp" using Cons.prems(3) by simp
      with False have "place bp (fst c) ns" using Cons.prems(1) by (auto simp: place_def)
      then show ?thesis by (intro exI [of _ "[]"] exI [of _ "fst c"] exI [of _ "snd c"] exI [of _ ns]) simp
    qed
  qed simp
  then show ?thesis using that by blast
qed

lemma insert_block_at:
  assumes "sorted_wrt before (us @ (x, n) # vs)" and "place b x vs"
  shows "insert_block (b, k) (us @ (x, n) # vs) =
    us @ (if x + HDR * n = b then join (x, n + k) vs else (x, n) # join (b, k) vs)"
  using assms
proof (induction us)
  case Nil
  then show ?case by (cases vs) (auto simp: place_def)
next
  case (Cons c us)
  have "fst c + HDR * snd c < x" using Cons.prems(1) by (simp add: before_def)
  then have "\<not> b < fst c" "fst c + HDR * snd c \<noteq> b" using Cons.prems(2) by (auto simp: place_def)
  then show ?case using Cons by (cases c) simp
qed

text \<open>The assignments of \<^verbatim>\<open>free\<close> insert the block into the list.\<close>

lemma place_fresh:
  assumes "sorted_wrt before (us @ (x, n) # vs)" and "place bp x vs"
  shows "bp \<notin> fst ` set (us @ (x, n) # vs)"
proof -
  have "fst c < bp" if "c \<in> set us" for c
    using assms that by (force simp: sorted_wrt_append before_def place_def)
  moreover have "bp < fst c" if "c \<in> set vs" for c
    using assms that by (cases vs) (auto simp: sorted_wrt_append before_def place_def)
  moreover have "x \<noteq> bp" using assms(2) by (simp add: place_def)
  ultimately show ?thesis by fastforce
qed

lemma free_link_inserts:
  assumes ch: "links (h_ptr s) (h_size s) (us @ (x, n) # vs) z" and so: "sorted_wrt before (us @ (x, n) # vs)"
    and pl: "place bp x vs" and z: "z \<le> x" and k: "k = h_size s bp"
    and up: "vs \<noteq> [] \<Longrightarrow> bp + HDR * k \<le> fst (hd vs)" and nw: "bp + HDR * k < 2 ^ 64" "x + HDR * n < 2 ^ 64"
    and sz: "n + k + (if vs = [] then 0 else snd (hd vs)) < 2 ^ 32"
  defines "s' \<equiv> free_link bp x s"
  shows "links (h_ptr s') (h_size s') (insert_block (bp, k) (us @ (x, n) # vs)) z"
    and "freep s' = x" and "brk s' = brk s" and "base_at s' = base_at s" and "grants s' = grants s"
    and "y \<notin> fst ` set (us @ (x, n) # vs) \<Longrightarrow> h_size s' y = h_size s y \<or> y = bp"
proof -
  have di: "distinct (map fst (us @ (x, n) # vs))" using so by (rule sorted_distinct)
  have fr: "bp \<notin> fst ` set (us @ (x, n) # vs)" using so pl by (rule place_fresh)
  have xb: "x < bp" using pl by (simp add: place_def)
  have sizes: "h_size s x = n" "h_ptr s x = first vs z" using ch by auto
  have adds: "hdr_add bp (h_size s bp) = bp + HDR * k" "hdr_add x n = x + HDR * n"
    using nw k by (simp_all add: hdr_add_def u64_def)
  show "links (h_ptr s') (h_size s') (insert_block (bp, k) (us @ (x, n) # vs)) z"
  proof (cases vs)
    case Nil
    have "bp + HDR * k \<noteq> z" using z xb by simp
    then show ?thesis using ch di fr xb adds sz sizes k Nil
      unfolding insert_block_at [OF so pl] s'_def free_link_def Let_def by (simp add: u32_def)
  next
    case (Cons v vs')
    obtain y m where v: "v = (y, m)" by (cases v)
    have vy: "h_size s y = m" "h_ptr s y = first vs' z" "h_ptr s x = y" using ch Cons v by auto
    have us: "x \<notin> fst ` set us" "bp \<notin> fst ` set us" "y \<notin> fst ` set us" and vs: "x \<notin> fst ` set vs'" "bp \<notin> fst ` set vs'" "y \<notin> fst ` set vs'"
      and ne: "x \<noteq> bp" "y \<noteq> bp" "x \<noteq> y" using di fr Cons v by auto
    have lk: "links (h_ptr s) (h_size s) us x" "links (h_ptr s) (h_size s) vs' z" using ch Cons v by auto
    have s2: "n + (k + m) < 4294967296" using sz Cons v by simp
    have sums: "hdr_add bp k = bp + HDR * k" "x + HDR * (n + k) = x + HDR * n + HDR * k"
      using adds k by (simp_all add: distrib_left)
    note facts = vy us vs ne ne [symmetric] lk sums adds(2) sizes k [symmetric]
      insert_block_at [OF so pl, of k, unfolded Cons v]
    show ?thesis
      unfolding s'_def free_link_def Let_def Cons v
      by (cases "bp + HDR * k = y"; cases "x + HDR * n = bp") (use s2 in \<open>simp_all add: facts u32_id\<close>)
  qed
qed (auto simp: s'_def free_link_def Let_def)

section \<open>The bytes of the blocks\<close>

definition blk :: "nat \<Rightarrow> nat \<Rightarrow> nat set" where
  "blk x n = {x..<x + HDR * n}"

definition bytes_of :: "block list \<Rightarrow> nat set" where
  "bytes_of bs = (\<Union>b \<in> set bs. blk (fst b) (snd b))"

lemma bytes_of_simps [simp]:
  "bytes_of [] = {}" "bytes_of (b # bs) = blk (fst b) (snd b) \<union> bytes_of bs"
  "bytes_of (us @ vs) = bytes_of us \<union> bytes_of vs"
  by (auto simp: bytes_of_def)

lemma blk_split: "blk x (n + k) = blk x n \<union> blk (x + HDR * n) k"
  by (auto simp: blk_def distrib_left)

lemma blk_0 [simp]: "blk x 0 = {}"
  by (simp add: blk_def)

lemma blk_disjoint:
  assumes "blk x n \<inter> blk y m = {}" and "0 < n" and "0 < m" and "x \<le> y"
  shows "x + HDR * n \<le> y"
proof (rule ccontr)
  assume "\<not> ?thesis"
  with assms have "y \<in> blk x n \<inter> blk y m" by (simp add: blk_def HDR_def)
  with assms(1) show False by simp
qed

lemma bytes_of_insert: "bytes_of (insert_block b bs) = blk (fst b) (snd b) \<union> bytes_of bs"
proof -
  have join: "bytes_of (join b bs) = blk (fst b) (snd b) \<union> bytes_of bs" for b bs
    by (induction b bs rule: join.induct) (auto simp: blk_split)
  show ?thesis
    by (induction b bs rule: insert_block.induct) (auto simp: join blk_split)
qed

lemma sizes_insert:
  assumes "0 < snd b" and "\<forall>c \<in> set bs. 0 < snd c"
  shows "\<forall>c \<in> set (insert_block b bs). 0 < snd c"
proof -
  have join: "\<forall>c \<in> set (join b bs). 0 < snd c" if "0 < snd b" "\<forall>c \<in> set bs. 0 < snd c" for b bs
    using that by (induction b bs rule: join.induct) auto
  show ?thesis using assms
    by (induction b bs rule: insert_block.induct) (auto dest!: join [THEN bspec, rotated -1])
qed

lemma sorted_insert:
  assumes so: "sorted_wrt before (us @ (x, n) # vs)" and pl: "place bp x vs"
    and lo: "x + HDR * n \<le> bp" and up: "vs \<noteq> [] \<Longrightarrow> bp + HDR * k \<le> fst (hd vs)"
  shows "sorted_wrt before (insert_block (bp, k) (us @ (x, n) # vs))"
proof (cases vs)
  case Nil
  then show ?thesis using so pl lo
    unfolding insert_block_at [OF so pl] by (fastforce simp: sorted_wrt_append before_def place_def)
next
  case (Cons v vs')
  obtain y m where v: "v = (y, m)" by (cases v)
  show ?thesis using so pl lo up Cons v
    unfolding insert_block_at [OF so pl] by (fastforce simp: sorted_wrt_append before_def place_def distrib_left)
qed

section \<open>The invariant\<close>

text \<open>
  \<open>heap_ok s fl A\<close>: \<open>fl\<close> is the list of the free blocks, the headers in \<open>A\<close> are those of the blocks in use, and all
  blocks lie apart from each other between the anchor of the list and the break.
\<close>

abbreviation used :: "umem \<Rightarrow> nat \<Rightarrow> nat set" where
  "used s a \<equiv> blk a (h_size s a)"

definition free_blocks :: "umem \<Rightarrow> block list \<Rightarrow> bool" where
  "free_blocks s fl \<longleftrightarrow>
     links (h_ptr s) (h_size s) ((base_at s, 0) # fl) (base_at s) \<and> sorted_wrt before ((base_at s, 0) # fl) \<and>
     freep s \<in> insert (base_at s) (fst ` set fl)"

definition heap_ok :: "umem \<Rightarrow> block list \<Rightarrow> nat set \<Rightarrow> bool" where
  "heap_ok s fl A \<longleftrightarrow>
     free_blocks s fl \<and> 0 < base_at s \<and> base_at s + HDR \<le> brk s \<and> brk s < 2 ^ 31 \<and>
     (\<forall>b \<in> set fl. 0 < snd b) \<and> (\<forall>a \<in> A. 0 < h_size s a) \<and>
     bytes_of fl \<subseteq> {base_at s + HDR..<brk s} \<and> (\<forall>a \<in> A. used s a \<subseteq> {base_at s + HDR..<brk s}) \<and>
     (\<forall>a \<in> A. used s a \<inter> bytes_of fl = {}) \<and> (\<forall>a \<in> A. \<forall>b \<in> A. a \<noteq> b \<longrightarrow> used s a \<inter> used s b = {})"

lemma blk_range: "0 < n \<Longrightarrow> blk x n \<subseteq> {a..<b} \<longleftrightarrow> a \<le> x \<and> x + HDR * n \<le> b"
  by (auto simp: blk_def HDR_def)

lemma blk_start: "0 < n \<Longrightarrow> x \<in> blk x n"
  by (simp add: blk_def HDR_def)

lemma blk_member: "b \<in> set bs \<Longrightarrow> blk (fst b) (snd b) \<subseteq> bytes_of bs"
  by (auto simp: bytes_of_def)

lemma heap_ok_block:
  assumes "heap_ok s fl A" and "b \<in> set fl"
  shows "0 < snd b" and "base_at s + HDR \<le> fst b" and "fst b + HDR * snd b \<le> brk s" and "h_size s (fst b) = snd b"
proof -
  show "0 < snd b" using assms by (simp add: heap_ok_def)
  moreover have "blk (fst b) (snd b) \<subseteq> {base_at s + HDR..<brk s}"
    using blk_member [OF assms(2)] assms(1) unfolding heap_ok_def by blast
  ultimately show "base_at s + HDR \<le> fst b" "fst b + HDR * snd b \<le> brk s" by (simp_all add: blk_range)
  show "h_size s (fst b) = snd b"
    using assms links_size [of "h_ptr s" "h_size s" fl "base_at s" b] by (simp add: heap_ok_def free_blocks_def)
qed

lemma heap_okD:
  assumes "heap_ok s fl A"
  shows "links (h_ptr s) (h_size s) ((base_at s, 0) # fl) (base_at s)" and "sorted_wrt before ((base_at s, 0) # fl)"
    and "freep s \<in> fst ` set ((base_at s, 0) # fl)" and "brk s < 2 ^ 31"
  using assms by (auto simp: heap_ok_def free_blocks_def)

text \<open>The header of a block that is apart from the free blocks is not one of the list.\<close>

lemma header_apart:
  assumes ok: "heap_ok s fl A" and "0 < k" and "blk x k \<subseteq> {base_at s + HDR..<brk s}" and "blk x k \<inter> bytes_of fl = {}"
  shows "x \<notin> fst ` set ((base_at s, 0) # fl)"
proof
  assume "x \<in> fst ` set ((base_at s, 0) # fl)"
  then consider "x = base_at s" | c where "c \<in> set fl" "x = fst c" by auto
  then show False
  proof cases
    case 1
    with assms(2,3) show ?thesis by (simp add: blk_range HDR_def)
  next
    case 2
    then have "x \<in> bytes_of fl" using blk_start [OF heap_ok_block(1) [OF ok 2(1)]] blk_member [OF 2(1)] by auto
    with assms(4) blk_start [OF assms(2), of x] show ?thesis by auto
  qed
qed

text \<open>Where a block goes that is apart from the free blocks.\<close>

lemma heap_place:
  assumes ok: "heap_ok s fl A" and k: "0 < k"
    and rng: "blk bp k \<subseteq> {base_at s + HDR..<brk s}" and dj: "blk bp k \<inter> bytes_of fl = {}"
  obtains us x n vs where "(base_at s, 0) # fl = us @ (x, n) # vs" and "place bp x vs" and "base_at s \<le> x"
    and "x + HDR * n \<le> bp" and "vs \<noteq> [] \<Longrightarrow> bp + HDR * k \<le> fst (hd vs)"
    and "n + k + (if vs = [] then 0 else snd (hd vs)) < 2 ^ 32"
proof -
  let ?ns = "(base_at s, 0) # fl"
  note so = heap_okD(2) [OF ok] and top = heap_okD(4) [OF ok]
  have bp: "base_at s + HDR \<le> bp" "bp + HDR * k \<le> brk s" using rng k by (simp_all add: blk_range)
  have fresh: "fst c \<noteq> bp" if "c \<in> set ?ns" for c
    using header_apart [OF ok k rng dj] that by fastforce
  obtain us x n vs where ns: "?ns = us @ (x, n) # vs" and pl: "place bp x vs"
    by (rule place_exists [of ?ns bp]) (use fresh bp in \<open>auto simp: HDR_def\<close>)
  have lo: "x + HDR * n \<le> bp"
  proof (cases us)
    case Nil
    with ns pl show ?thesis by (auto simp: place_def)
  next
    case (Cons u us')
    with ns have xn: "(x, n) \<in> set fl" by auto
    have "blk x n \<inter> blk bp k = {}" using blk_member [OF xn] dj by auto
    from blk_disjoint [OF this] heap_ok_block(1) [OF ok xn] k pl show ?thesis by (simp add: place_def)
  qed
  have hv: "hd vs \<in> set fl" if "vs \<noteq> []" using ns that by (cases us) auto
  have up: "bp + HDR * k \<le> fst (hd vs)" if "vs \<noteq> []"
  proof -
    have "blk bp k \<inter> blk (fst (hd vs)) (snd (hd vs)) = {}" using blk_member [OF hv [OF that]] dj by auto
    from blk_disjoint [OF this] heap_ok_block(1) [OF ok hv [OF that]] k pl that show ?thesis by (simp add: place_def)
  qed
  have sz: "n + k + (if vs = [] then 0 else snd (hd vs)) < 2 ^ 32"
  proof (cases "vs = []")
    case True
    then show ?thesis using lo bp top by (simp add: HDR_def)
  next
    case False
    then show ?thesis using heap_ok_block(3) [OF ok hv] lo up top by (simp add: HDR_def)
  qed
  have "base_at s \<le> x" using so ns by (cases us) (auto simp: before_def)
  from that [OF ns pl this lo up sz] show ?thesis .
qed

lemma free_inserts:
  assumes ok: "heap_ok s fl A" and k: "k = h_size s bp" "0 < k"
    and rng: "blk bp k \<subseteq> {base_at s + HDR..<brk s}" and dj: "blk bp k \<inter> bytes_of fl = {}"
    and A': "A' \<subseteq> A" "\<And>a. a \<in> A' \<Longrightarrow> used s a \<inter> blk bp k = {}"
  obtains s' where "free (bp + HDR) s = Some s'" and "heap_ok s' (insert_block (bp, k) fl) A'"
    and "\<And>a. a \<in> A' \<Longrightarrow> h_size s' a = h_size s a"
    and "brk s' = brk s" "base_at s' = base_at s" "grants s' = grants s"
proof -
  let ?ns = "(base_at s, 0) # fl"
  obtain us x n vs where ns: "?ns = us @ (x, n) # vs" and pl: "place bp x vs" and zx: "base_at s \<le> x"
    and lo: "x + HDR * n \<le> bp" and up: "vs \<noteq> [] \<Longrightarrow> bp + HDR * k \<le> fst (hd vs)"
    and sz: "n + k + (if vs = [] then 0 else snd (hd vs)) < 2 ^ 32"
    using heap_place [OF ok k(2) rng dj] by metis
  note li = heap_okD(1) [OF ok] and so = heap_okD(2) [OF ok]
  note li' = li [unfolded ns] and so' = so [unfolded ns]
  have bp: "base_at s + HDR \<le> bp" "bp + HDR * k \<le> brk s" using rng k(2) by (simp_all add: blk_range)
  then have nw: "bp + HDR * k < 2 ^ 64" "x + HDR * n < 2 ^ 64" using heap_okD(4) [OF ok] lo by simp_all
  let ?s' = "free_link bp x s"
  note fl = free_link_inserts [OF li' so' pl zx k(1) up nw sz]
  have ins: "insert_block (bp, k) (us @ (x, n) # vs) = (base_at s, 0) # insert_block (bp, k) fl"
    unfolding ns [symmetric] using bp by (simp add: HDR_def)
  have "free_loop bp (freep s) s = Some x"
    by (rule free_loop_finds [OF li so _ ns pl heap_okD(3) [OF ok]]) simp
  then have fr: "free (bp + HDR) s = Some ?s'" by (simp add: free_def)
  have hs: "h_size ?s' a = h_size s a" if "a \<in> A'" for a
  proof -
    have a: "0 < h_size s a" "used s a \<subseteq> {base_at s + HDR..<brk s}" "used s a \<inter> bytes_of fl = {}"
      using ok A'(1) that by (auto simp: heap_ok_def)
    have "a \<notin> fst ` set ?ns" using header_apart [OF ok a] .
    moreover have "a \<noteq> bp" using A'(2) [OF that] blk_start [OF a(1), of a] blk_start [OF k(2), of bp] by auto
    ultimately show ?thesis using fl(6) [of a] ns by simp
  qed
  have "heap_ok ?s' (insert_block (bp, k) fl) A'"
    unfolding heap_ok_def
  proof (intro conjI)
    have "x \<in> fst ` set ((base_at s, 0) # insert_block (bp, k) fl)"
      unfolding ins [symmetric] insert_block_at [OF so' pl] by (cases vs) auto
    then show "free_blocks ?s' (insert_block (bp, k) fl)"
      using fl(1-4) sorted_insert [OF so' pl lo up] unfolding free_blocks_def ins by simp
    show "\<forall>b \<in> set (insert_block (bp, k) fl). 0 < snd b"
      using sizes_insert [of "(bp, k)" fl] k(2) ok by (simp add: heap_ok_def)
    show "\<forall>a \<in> A'. \<forall>b \<in> A'. a \<noteq> b \<longrightarrow> used ?s' a \<inter> used ?s' b = {}"
      using ok A'(1) by (simp add: heap_ok_def hs subset_iff)
  qed (use ok A' hs rng dj in \<open>auto simp: heap_ok_def fl(3,4) bytes_of_insert\<close>)
  with fr hs fl(3-5) show ?thesis by (intro that [of ?s'])
qed

section \<open>Taking a block\<close>

text \<open>\<open>rest_of\<close> is what remains of a block of \<open>n\<close> units at \<open>x\<close> in the list when \<open>nu\<close> units are taken off its end.\<close>

definition rest_of :: "nat \<Rightarrow> nat \<Rightarrow> nat \<Rightarrow> block list" where
  "rest_of nu x n = (if n = nu then [] else [(x, n - nu)])"

lemma take_links:
  assumes li: "links (h_ptr s) (h_size s) (us @ (pr, k) # (x, n) # vs) z"
    and so: "sorted_wrt before (us @ (pr, k) # (x, n) # vs)"
    and nu: "nu \<le> n" "0 < nu" and nw: "x + HDR * n < 2 ^ 64"
  defines "b \<equiv> x + HDR * (n - nu)"
  obtains s' where "malloc_take nu pr x s = (b + HDR, s')"
    and "links (h_ptr s') (h_size s') (us @ (pr, k) # rest_of nu x n @ vs) z"
    and "h_size s' b = nu" and "\<And>a. a \<noteq> b \<Longrightarrow> a \<noteq> x \<Longrightarrow> h_size s' a = h_size s a"
    and "freep s' = pr" "brk s' = brk s" "base_at s' = base_at s" "grants s' = grants s"
proof -
  have di: "distinct (map fst (us @ (pr, k) # (x, n) # vs))" using so by (rule sorted_distinct)
  have n: "h_size s x = n" and px: "h_ptr s x = first vs z" using li by auto
  show ?thesis
  proof (cases "n = nu")
    case True
    have "malloc_take nu pr x s = (b + HDR, (set_ptr pr (h_ptr s x) s)\<lparr>freep := pr\<rparr>)"
      using True n by (simp add: malloc_take_def b_def)
    then show ?thesis
      by (rule that) (use li di True n px in \<open>auto simp: rest_of_def b_def\<close>)
  next
    case False
    have xb: "x < b" using False nu by (simp add: b_def HDR_def)
    have bn: "b < x + HDR * n" using nu by (simp add: b_def HDR_def)
    have "b < 18446744073709551616" using order.strict_trans [OF bn nw] by simp
    then have "hdr_add x (n - nu) = b" by (simp add: hdr_add_def b_def u64_id)
    then have eq: "malloc_take nu pr x s = (b + HDR, (set_size b nu (set_size x (n - nu) s))\<lparr>freep := pr\<rparr>)"
      using False n by (simp add: malloc_take_def Let_def)
    have "fst c \<noteq> b" if "c \<in> set us \<union> set vs" for c
      using so that xb bn by (auto simp: sorted_wrt_append before_def)
    then have "b \<notin> fst ` set us" "b \<notin> fst ` set vs" by blast+
    moreover have "pr \<noteq> b" using so xb by (auto simp: sorted_wrt_append before_def)
    moreover have "x \<notin> fst ` set us" "x \<notin> fst ` set vs" "pr \<noteq> x" using di by auto
    ultimately show ?thesis
      by (intro that [OF eq]) (use li False n px xb in \<open>simp_all add: rest_of_def\<close>)
  qed
qed

lemma take_back:
  assumes so: "sorted_wrt before (us @ (pr, k) # (x, n) # vs)" and nu: "nu \<le> n" "0 < nu"
  shows "insert_block (x + HDR * (n - nu), nu) (us @ (pr, k) # rest_of nu x n @ vs) = us @ (pr, k) # (x, n) # vs"
    and "sorted_wrt before (us @ (pr, k) # rest_of nu x n @ vs)"
    and "blk (x + HDR * (n - nu)) nu \<inter> bytes_of (us @ (pr, k) # rest_of nu x n @ vs) = {}"
proof -
  have gap: "join (x, n) vs = (x, n) # vs"
    using so by (cases vs) (auto simp: sorted_wrt_append before_def)
  have mv: "x + HDR * (n - nu) + HDR * nu = x + HDR * n" using nu by (simp add: HDR_def)
  have pl: "x < y" if "y \<in> fst ` set vs" for y using so that by (auto simp: sorted_wrt_append before_def)
  show so': "sorted_wrt before (us @ (pr, k) # rest_of nu x n @ vs)"
    using so nu by (fastforce simp: rest_of_def sorted_wrt_append before_def HDR_def)
  show "insert_block (x + HDR * (n - nu), nu) (us @ (pr, k) # rest_of nu x n @ vs) = us @ (pr, k) # (x, n) # vs"
  proof (cases "n = nu")
    case True
    have "place x pr vs" "pr + HDR * k \<noteq> x"
      using so by (cases vs; auto simp: place_def sorted_wrt_append before_def)+
    then show ?thesis using True gap so' by (simp add: rest_of_def insert_block_at)
  next
    case False
    have "place (x + HDR * (n - nu)) x vs"
      using so nu False by (cases vs) (auto simp: place_def sorted_wrt_append before_def HDR_def)
    then have "insert_block (x + HDR * (n - nu), nu) ((us @ [(pr, k)]) @ (x, n - nu) # vs) = (us @ [(pr, k)]) @ join (x, n) vs"
      using so' nu False by (subst insert_block_at) (simp_all add: rest_of_def)
    then show ?thesis using False gap by (simp add: rest_of_def)
  qed
  have "c + HDR * m \<le> x + HDR * (n - nu) \<or> x + HDR * n \<le> c"
    if "(c, m) \<in> set (us @ (pr, k) # rest_of nu x n @ vs)" for c m
    using so that nu by (auto simp: rest_of_def sorted_wrt_append before_def split: if_splits)
  then show "blk (x + HDR * (n - nu)) nu \<inter> bytes_of (us @ (pr, k) # rest_of nu x n @ vs) = {}"
    unfolding bytes_of_def blk_def mv by fastforce
qed

text \<open>
  Taking \<open>nu\<close> units from the block after \<open>pr\<close>: they were free, they are in use now, and freeing them
  would give the old list back.
\<close>

definition allocated :: "umem \<Rightarrow> nat \<Rightarrow> nat set \<Rightarrow> umem \<Rightarrow> nat \<Rightarrow> block list \<Rightarrow> block list \<Rightarrow> bool" where
  "allocated s nu A s' b fl fl' \<longleftrightarrow>
     heap_ok s' fl' (insert b A) \<and> h_size s' b = nu \<and> b \<notin> A \<and> (\<forall>a \<in> A. h_size s' a = h_size s a) \<and>
     insert_block (b, nu) fl' = fl \<and> base_at s' = base_at s \<and> brk s' = brk s \<and> grants s' = grants s"

lemma heap_ok_taken:
  assumes ok: "heap_ok s fl A" and ins: "insert_block (b, nu) fl' = fl" and dj: "blk b nu \<inter> bytes_of fl' = {}"
    and nu: "0 < nu" "h_size s' b = nu" and fb: "free_blocks s' fl'" "\<forall>c \<in> set fl'. 0 < snd c"
    and hs: "\<And>a. a \<noteq> b \<Longrightarrow> a \<notin> fst ` set fl \<Longrightarrow> h_size s' a = h_size s a"
    and same: "base_at s' = base_at s" "brk s' = brk s" "grants s' = grants s"
  shows "allocated s nu A s' b fl fl'"
proof -
  have fl: "bytes_of fl = blk b nu \<union> bytes_of fl'" using bytes_of_insert [of "(b, nu)" fl'] ins by simp
  have apart: "used s a \<inter> blk b nu = {} \<and> used s a \<inter> bytes_of fl' = {} \<and> a \<noteq> b \<and> h_size s' a = h_size s a" if "a \<in> A" for a
  proof -
    have a: "0 < h_size s a" "used s a \<subseteq> {base_at s + HDR..<brk s}" "used s a \<inter> bytes_of fl = {}"
      using ok that by (auto simp: heap_ok_def)
    have "a \<noteq> b" using blk_start [OF a(1), of a] blk_start [OF nu(1), of b] a(3) fl by auto
    moreover from this have "h_size s' a = h_size s a" using header_apart [OF ok a] by (intro hs) auto
    ultimately show ?thesis using a(3) fl by auto
  qed
  have "heap_ok s' fl' (insert b A)"
    using ok apart nu dj fl same fb unfolding heap_ok_def by auto
  then show ?thesis using nu(2) ins apart same by (auto simp: allocated_def)
qed

lemma take_block:
  assumes ok: "heap_ok s fl A" and pr: "pr \<in> fst ` set ((base_at s, 0) # fl)"
    and nu: "nu \<le> h_size s (h_ptr s pr)" "0 < nu"
  obtains b s' fl' where "malloc_take nu pr (h_ptr s pr) s = (b + HDR, s')" and "allocated s nu A s' b fl fl'"
proof -
  let ?B = "base_at s" and ?x = "h_ptr s pr"
  note li = heap_okD(1) [OF ok] and so = heap_okD(2) [OF ok]
  have "h_size s ?B = 0" using li by simp
  then have xB: "?x \<noteq> ?B" using nu by auto
  from pr obtain k us ws where ns: "(?B, 0) # fl = us @ (pr, k) # ws"
    by (metis (no_types, lifting) imageE prod.collapse split_list)
  have "?x = first ws ?B" using li unfolding ns by simp
  with xB obtain n vs where ws: "ws = (?x, n) # vs" by (cases ws) auto
  have n: "h_size s ?x = n" using li unfolding ns ws by simp
  define b fl' where "b = ?x + HDR * (n - nu)" and "fl' = tl (us @ (pr, k) # rest_of nu ?x n @ vs)"
  have ns': "(?B, 0) # fl' = us @ (pr, k) # rest_of nu ?x n @ vs"
    using ns unfolding fl'_def by (cases us) auto
  have xin: "(?x, n) \<in> set fl" using ns xB unfolding ws by (cases us) auto
  note blkx = heap_ok_block [OF ok xin, unfolded fst_conv snd_conv]
  have "?x + HDR * n < 2 ^ 64" using blkx(3) heap_okD(4) [OF ok] by simp
  then obtain s' where s': "malloc_take nu pr ?x s = (b + HDR, s')"
      "links (h_ptr s') (h_size s') ((?B, 0) # fl') ?B" "h_size s' b = nu"
      "\<And>a. a \<noteq> b \<Longrightarrow> a \<noteq> ?x \<Longrightarrow> h_size s' a = h_size s a"
      "freep s' = pr" "brk s' = brk s" "base_at s' = ?B" "grants s' = grants s"
    using take_links [OF li [unfolded ns ws] so [unfolded ns ws]] nu n unfolding b_def ns' by metis
  note tb = take_back [OF so [unfolded ns ws] nu [unfolded n], folded ns' b_def]
  have "?B < b" using blkx(2) by (simp add: b_def HDR_def)
  then have ins: "insert_block (b, nu) fl' = fl"
    using tb(1) by (simp add: ns [symmetric] ws [symmetric])
  have prin: "pr \<in> fst ` set ((?B, 0) # fl')" unfolding ns' by simp
  have fb: "free_blocks s' fl'" using s'(2,5,7) tb(2) prin unfolding free_blocks_def by simp
  have sz: "0 < snd c" if "c \<in> set fl'" for c
  proof -
    have "c \<in> set fl \<or> c \<in> set (rest_of nu ?x n)" using that ns ns' ws by (cases us) auto
    then show ?thesis using heap_ok_block(1) [OF ok, of c] nu n by (auto simp: rest_of_def split: if_splits)
  qed
  have hs: "h_size s' a = h_size s a" if "a \<noteq> b" "a \<notin> fst ` set fl" for a
    using that xin by (intro s'(4)) force+
  have "allocated s nu A s' b fl fl'"
    by (rule heap_ok_taken [OF ok ins _ nu(2) s'(3) fb _ hs s'(7,6,8)]) (use tb(3) sz in auto)
  with s'(1) show ?thesis by (rule that)
qed

end
