(* ===== verification/UmallocProofs.thy ===== *)
theory UmallocProofs
  imports Umalloc Sched
begin

text \<open>
  Properties of the storage allocator (\<^verbatim>\<open>FileSystem-RAID/user/umalloc.c\<close>): the search of \<^verbatim>\<open>malloc\<close> goes around the circle of
  free blocks and ends; it fails only when no block is large enough and the kernel refuses memory. In every program that
  frees what it has allocated, the blocks in use stay apart. For requests near 4 GB the size wraps on its way to the
  kernel. At the end, the \<^verbatim>\<open>sbrk\<close> of the model is compared with the kernel's \<^verbatim>\<open>sys_sbrk\<close>.
\<close>

section \<open>The search\<close>

text \<open>What \<^verbatim>\<open>malloc\<close> does when it comes around to where the search started.\<close>

definition malloc_grow :: "nat \<Rightarrow> umem \<Rightarrow> (nat \<times> umem) kres option" where
  "malloc_grow nunits s =
     (case morecore nunits s of
        None \<Rightarrow> None
      | Some r \<Rightarrow>
          (case r of
             Inl e \<Rightarrow> Some (Inl e)
           | Inr rs \<Rightarrow>
               (if fst rs = 0 then Some (Inr (0, snd rs))
                else malloc_loop nunits (fst rs) (h_ptr (snd rs) (fst rs)) (snd rs))))"

lemma search_path:
  assumes "links (h_ptr s) (h_size s) (ls @ [(freep s, k)]) z" and "freep s \<notin> fst ` set ls"
    and "pr \<in> N" and "freep s \<in> N" and "fst ` set ls \<subseteq> N" and "h_ptr s pr = first ls (freep s)"
  shows "(\<exists>p \<in> N. nu \<le> h_size s (h_ptr s p) \<and>
            malloc_loop nu pr (first ls (freep s)) s = Some (Inr (malloc_take nu p (h_ptr s p) s))) \<or>
         (\<forall>c \<in> set (ls @ [(freep s, k)]). snd c < nu) \<and>
            malloc_loop nu pr (first ls (freep s)) s = malloc_grow nu s"
  using assms
proof (induction ls arbitrary: pr)
  case Nil
  then show ?case
    by (subst (1 2) malloc_loop.simps) (auto simp: malloc_grow_def intro!: bexI [of _ pr])
next
  case (Cons c ls)
  show ?case
  proof (cases "nu \<le> snd c")
    case True
    have "h_size s (fst c) = snd c" using Cons.prems(1) by simp
    with True Cons.prems show ?thesis
      by (intro disjI1 bexI [of _ pr]) (subst malloc_loop.simps, simp)+
  next
    case False
    have sz: "h_size s (fst c) = snd c" and nx: "h_ptr s (fst c) = first ls (freep s)" using Cons.prems(1) by auto
    have "malloc_loop nu pr (fst c) s = malloc_loop nu (fst c) (first ls (freep s)) s"
      using False sz nx Cons.prems(2) by (subst malloc_loop.simps) auto
    moreover note Cons.IH [of "fst c"]
    ultimately show ?thesis using False Cons.prems nx by auto
  qed
qed

text \<open>The search goes around the whole circle.\<close>

lemma search_circle:
  assumes ok: "heap_ok s fl A"
  shows "(\<exists>p \<in> fst ` set ((base_at s, 0) # fl). nu \<le> h_size s (h_ptr s p) \<and>
            malloc_loop nu (freep s) (h_ptr s (freep s)) s = Some (Inr (malloc_take nu p (h_ptr s p) s))) \<or>
         (\<forall>c \<in> set fl. snd c < nu) \<and> malloc_loop nu (freep s) (h_ptr s (freep s)) s = malloc_grow nu s"
proof -
  let ?B = "base_at s" and ?q = "freep s"
  let ?N = "fst ` set ((?B, 0) # fl)"
  note li = heap_okD(1) [OF ok] and so = heap_okD(2) [OF ok] and fp = heap_okD(3) [OF ok]
  from fp obtain k us vs where ns: "(?B, 0) # fl = us @ (?q, k) # vs"
    by (metis (no_types, lifting) imageE prod.collapse split_list)
  have fst_us: "first us ?q = ?B" using ns by (cases us) auto
  have li': "links (h_ptr s) (h_size s) ((vs @ us) @ [(?q, k)]) (h_ptr s ?q)"
    using li fst_us unfolding ns by auto
  have q: "?q \<notin> fst ` set (vs @ us)"
    using sorted_distinct [OF so] unfolding ns by auto
  have nx: "h_ptr s ?q = first (vs @ us) ?q" using li fst_us unfolding ns by simp
  have sub: "fst ` set (vs @ us) \<subseteq> ?N" unfolding ns by auto
  have "set fl \<subseteq> set ((vs @ us) @ [(?q, k)])" using arg_cong [OF ns, of set] by auto
  with search_path [OF li' q fp fp sub nx, of nu] nx show ?thesis by (auto simp del: bex_simps)
qed

section \<open>More memory\<close>

definition chunk :: "nat \<Rightarrow> nat" where
  "chunk nu = (if nu < 4096 then 4096 else nu)"

lemma PGROUNDUP_le: "x < 2 ^ 32 \<Longrightarrow> x \<le> PGROUNDUP x"
  by (simp add: PGROUNDUP_def PGSIZE_def u64_def)

text \<open>A request that fits below 2 GB reaches the kernel unchanged.\<close>

lemma sbrk_grow:
  assumes "brk s + n < 2 ^ 31" and "0 < n"
  shows "sbrk (int_of_u32 (u32 n)) s =
    (case grants s of [] \<Rightarrow> (SBRK_FAILED, s)
     | g # gs \<Rightarrow> if g then (brk s, s\<lparr>grants := gs, brk := brk s + n\<rparr>) else (SBRK_FAILED, s\<lparr>grants := gs\<rparr>))"
  using assms
  by (auto simp: sbrk_def Let_def u32_def int_of_u32_def u32_of_int_def u64_of_int_def nat_add_distrib split: list.splits)

lemma heap_ok_grown:
  assumes "heap_ok s fl A" and "brk s + n < 2 ^ 31"
  shows "heap_ok (set_size (brk s) m (s\<lparr>grants := gs, brk := brk s + n\<rparr>)) fl A"
proof -
  have nodes: "brk s \<notin> fst ` set ((base_at s, 0) # fl)"
    using heap_ok_block(1,3) [OF assms(1)] assms(1) by (fastforce simp: heap_ok_def HDR_def)
  have used: "a \<noteq> brk s" if "a \<in> A" for a
  proof -
    have "0 < h_size s a" "used s a \<subseteq> {base_at s + HDR..<brk s}" using assms(1) that by (auto simp: heap_ok_def)
    with blk_start [of "h_size s a" a] show ?thesis by auto
  qed
  then have same: "((h_size s)(brk s := m)) a = h_size s a" if "a \<in> A" for a using that by simp
  have sub: "{base_at s + HDR..<brk s} \<subseteq> {base_at s + HDR..<brk s + n}" by auto
  show ?thesis
    unfolding heap_ok_def
  proof (intro conjI)
    let ?s = "set_size (brk s) m (s\<lparr>grants := gs, brk := brk s + n\<rparr>)"
    show "free_blocks ?s fl" using assms(1) nodes by (simp add: heap_ok_def free_blocks_def)
    show "\<forall>a \<in> A. used ?s a \<subseteq> {base_at ?s + HDR..<brk ?s}"
    proof
      fix a assume a: "a \<in> A"
      have "used s a \<subseteq> {base_at s + HDR..<brk s}" using assms(1) a by (simp add: heap_ok_def)
      from order_trans [OF this sub] show "used ?s a \<subseteq> {base_at ?s + HDR..<brk ?s}"
        using same [OF a] by (simp del: fun_upd_apply)
    qed
    show "bytes_of fl \<subseteq> {base_at ?s + HDR..<brk ?s}" using order_trans [OF _ sub] assms(1) by (simp add: heap_ok_def)
  qed (use assms in \<open>simp_all add: heap_ok_def same del: fun_upd_apply\<close>)
qed

lemma morecore_spec:
  assumes ok: "heap_ok s fl A" and fits: "brk s + HDR * chunk nu < 2 ^ 31"
  obtains (refused) "\<not> (\<exists>gs. grants s = True # gs)" "morecore nu s = Some (Inr (0, s\<lparr>grants := tl (grants s)\<rparr>))"
  | (granted) gs s' where "grants s = True # gs" "morecore nu s = Some (Inr (freep s', s'))"
      "heap_ok s' (insert_block (brk s, chunk nu) fl) A" "freep s' \<noteq> 0" "\<And>a. a \<in> A \<Longrightarrow> h_size s' a = h_size s a"
      "brk s' = brk s + HDR * chunk nu" "base_at s' = base_at s" "grants s' = gs"
proof -
  let ?m = "chunk nu"
  have m: "0 < ?m" "HDR * ?m = ?m * HDR" "0 < ?m * HDR" by (simp_all add: chunk_def HDR_def)
  note sb = sbrk_grow [of s "?m * HDR", OF fits [unfolded m(2)] m(3)]
  show ?thesis
  proof (cases "\<exists>gs. grants s = True # gs")
    case False
    then have "sbrk (int_of_u32 (u32 (?m * HDR))) s = (SBRK_FAILED, s\<lparr>grants := tl (grants s)\<rparr>)"
      by (cases "grants s") (auto simp: sb)
    then have "morecore nu s = Some (Inr (0, s\<lparr>grants := tl (grants s)\<rparr>))"
      unfolding morecore_def chunk_def [symmetric] Let_def by simp
    with False show ?thesis by (rule refused)
  next
    case True
    then obtain gs where gs: "grants s = True # gs" by blast
    let ?s1 = "s\<lparr>grants := gs, brk := brk s + ?m * HDR\<rparr>"
    let ?s2 = "set_size (brk s) ?m ?s1"
    have ok2: "heap_ok ?s2 fl A" using heap_ok_grown [OF ok fits] by (simp add: m(2))
    have top: "brk s < 2 ^ 31" "base_at s + HDR \<le> brk s" "0 < base_at s" using ok by (auto simp: heap_ok_def)
    have below: "c < brk s" if "c \<in> bytes_of fl \<or> (\<exists>a \<in> A. c \<in> used s a)" for c
      using ok that unfolding heap_ok_def by (meson atLeastLessThan_iff subsetD)
    have ne: "a \<noteq> brk s" if "a \<in> A" for a
      using below [of a] that ok blk_start [of "h_size s a" a] by (auto simp: heap_ok_def)
    obtain s' where s': "free (brk s + HDR) ?s2 = Some s'" "heap_ok s' (insert_block (brk s, ?m) fl) A"
      "\<And>a. a \<in> A \<Longrightarrow> h_size s' a = h_size ?s2 a" "brk s' = brk ?s2" "base_at s' = base_at ?s2" "grants s' = grants ?s2"
    proof (rule free_inserts [OF ok2 _ m(1), of "brk s" A])
      show "blk (brk s) ?m \<subseteq> {base_at ?s2 + HDR..<brk ?s2}" using top m by (simp add: blk_range)
      show "blk (brk s) ?m \<inter> bytes_of fl = {}" using below by (fastforce simp: blk_def)
      show "used ?s2 a \<inter> blk (brk s) ?m = {}" if "a \<in> A" for a
        using below ne [OF that] that by (fastforce simp: blk_def)
    qed auto
    have "\<not> PGROUNDUP (brk s + ?m * HDR) < brk s + HDR"
      using PGROUNDUP_le [of "brk s + ?m * HDR"] fits m(2) by (simp add: HDR_def chunk_def split: if_splits)
    then have "morecore nu s = Some (Inr (freep s', s'))"
      using gs s'(1) top unfolding morecore_def chunk_def [symmetric] Let_def sb by (simp add: SBRK_FAILED_def)
    moreover have "freep s' \<noteq> 0"
      using s'(2) heap_ok_block(2) [OF s'(2)] by (fastforce simp: heap_ok_def free_blocks_def HDR_def)
    ultimately show ?thesis
      by (intro granted [OF gs]) (use s' ne in \<open>simp_all add: m(2)\<close>)
  qed
qed

section \<open>Allocation\<close>

text \<open>A heap before the first call of \<^verbatim>\<open>malloc\<close>, or with the invariant.\<close>

definition heap :: "umem \<Rightarrow> block list \<Rightarrow> nat set \<Rightarrow> bool" where
  "heap s fl A \<longleftrightarrow>
     freep s = 0 \<and> fl = [] \<and> A = {} \<and> 0 < base_at s \<and> base_at s + HDR \<le> brk s \<and> brk s < 2 ^ 31 \<or> heap_ok s fl A"

definition start_heap :: "umem \<Rightarrow> umem" where
  "start_heap s =
     (if freep s = 0 then (set_size (base_at s) 0 (set_ptr (base_at s) (base_at s) s))\<lparr>freep := base_at s\<rparr> else s)"

lemma heap_ok_freep: "heap_ok s fl A \<Longrightarrow> freep s \<noteq> 0"
  using heap_ok_block(2) [of s fl A] by (fastforce simp: heap_ok_def free_blocks_def HDR_def)

lemma start_heap_ok:
  assumes "heap s fl A"
  shows "heap_ok (start_heap s) fl A" and "\<And>a. a \<in> A \<Longrightarrow> h_size (start_heap s) a = h_size s a"
    and "brk (start_heap s) = brk s" and "base_at (start_heap s) = base_at s" and "grants (start_heap s) = grants s"
proof -
  show "heap_ok (start_heap s) fl A"
  proof (cases "freep s = 0")
    case True
    with assms heap_ok_freep [of s fl A]
    have "fl = []" "A = {}" "0 < base_at s" "base_at s + HDR \<le> brk s" "brk s < 2 ^ 31" by (auto simp: heap_def)
    with True show ?thesis by (simp add: start_heap_def heap_ok_def free_blocks_def)
  next
    case False
    with assms show ?thesis by (simp add: heap_def start_heap_def)
  qed
qed (use assms heap_ok_freep [of s fl A] in \<open>auto simp: heap_def start_heap_def\<close>)

lemma malloc_start: "malloc nbytes s = malloc_loop (units_of nbytes) (freep (start_heap s)) (h_ptr (start_heap s) (freep (start_heap s))) (start_heap s)"
  by (simp add: malloc_def start_heap_def Let_def)

text \<open>The search among blocks one of which is large enough.\<close>

lemma malloc_fits:
  assumes ok: "heap_ok s fl A" and nu: "0 < nu" and big: "\<exists>c \<in> set fl. nu \<le> snd c"
  obtains b s' fl' where "malloc_loop nu (freep s) (h_ptr s (freep s)) s = Some (Inr (b + HDR, s'))"
    and "allocated s nu A s' b fl fl'"
proof -
  from search_circle [OF ok, of nu] big obtain p where p: "p \<in> fst ` set ((base_at s, 0) # fl)"
      "nu \<le> h_size s (h_ptr s p)"
      "malloc_loop nu (freep s) (h_ptr s (freep s)) s = Some (Inr (malloc_take nu p (h_ptr s p) s))"
    by (auto simp: not_le [symmetric] simp del: bex_simps)
  from take_block [OF ok p(1,2) nu] obtain b s' fl' where
    "malloc_take nu p (h_ptr s p) s = (b + HDR, s')" "allocated s nu A s' b fl fl'" .
  with p(3) show ?thesis by (intro that) simp_all
qed

lemma units_of_enough:
  assumes "nbytes + HDR < 2 ^ 32"
  shows "0 < units_of nbytes" and "nbytes \<le> HDR * (units_of nbytes - 1)"
proof -
  have u: "units_of nbytes = (nbytes + 15) div 16 + 1"
    using assms by (simp add: units_of_def HDR_def u32_def)
  then show "0 < units_of nbytes" by simp
  show "nbytes \<le> HDR * (units_of nbytes - 1)" unfolding u by (simp add: HDR_def)
qed

lemma insert_block_big:
  "k \<le> n \<Longrightarrow> \<exists>c \<in> set (insert_block (b, n) bs). k \<le> snd c"
proof -
  have join: "k \<le> snd c \<Longrightarrow> \<exists>d \<in> set (join c bs). k \<le> snd d" for c bs
    by (induction c bs rule: join.induct) auto
  show "k \<le> n \<Longrightarrow> \<exists>c \<in> set (insert_block (b, n) bs). k \<le> snd c"
    by (induction "(b, n)" bs rule: insert_block.induct) (auto simp del: join.simps intro!: join)
qed

text \<open>The request and the chunk that is asked for when no block fits stay below 2 GB.\<close>

definition fits :: "nat \<Rightarrow> umem \<Rightarrow> bool" where
  "fits nbytes s \<longleftrightarrow> nbytes + HDR < 2 ^ 32 \<and> brk s + HDR * chunk (units_of nbytes) < 2 ^ 31"

lemma search_fails:
  assumes ok: "heap_ok s fl A" and small: "\<not> (\<exists>c \<in> set fl. nu \<le> snd c)" and nu: "0 < nu"
  shows "malloc_loop nu (freep s) (h_ptr s (freep s)) s = malloc_grow nu s"
proof -
  have "\<not> nu \<le> h_size s (h_ptr s p)" if "p \<in> fst ` set ((base_at s, 0) # fl)" for p
  proof -
    have "h_ptr s p \<in> fst ` set ((base_at s, 0) # fl)" using links_next [OF heap_okD(1) [OF ok] that] by auto
    then obtain c where c: "c \<in> set ((base_at s, 0) # fl)" "h_ptr s p = fst c" by (metis imageE)
    have "h_size s (fst c) = snd c" using links_size [OF heap_okD(1) [OF ok] c(1)] .
    with c small nu show ?thesis by auto
  qed
  with search_circle [OF ok, of nu] show ?thesis by blast
qed

lemma malloc_refused:
  assumes ok: "heap_ok s fl A" and fits: "brk s + HDR * chunk nu < 2 ^ 31"
    and small: "\<not> (\<exists>c \<in> set fl. nu \<le> snd c)" and no: "\<not> (\<exists>gs. grants s = True # gs)" and nu: "0 < nu"
  shows "malloc_loop nu (freep s) (h_ptr s (freep s)) s = Some (Inr (0, s\<lparr>grants := tl (grants s)\<rparr>))"
proof -
  have "morecore nu s = Some (Inr (0, s\<lparr>grants := tl (grants s)\<rparr>))"
    using morecore_spec [OF ok fits] no by blast
  then show ?thesis using search_fails [OF ok small nu] by (simp add: malloc_grow_def)
qed

lemma malloc_granted:
  assumes ok: "heap_ok s fl A" and fits: "brk s + HDR * chunk nu < 2 ^ 31"
    and small: "\<not> (\<exists>c \<in> set fl. nu \<le> snd c)" and gs: "grants s = True # gs" and nu: "0 < nu"
  obtains b s' fl' where "malloc_loop nu (freep s) (h_ptr s (freep s)) s = Some (Inr (b + HDR, s'))"
    and "heap_ok s' fl' (insert b A)" and "h_size s' b = nu" and "b \<notin> A" and "\<And>a. a \<in> A \<Longrightarrow> h_size s' a = h_size s a"
    and "insert_block (b, nu) fl' = insert_block (brk s, chunk nu) fl"
    and "brk s' = brk s + HDR * chunk nu" and "grants s' = gs" and "base_at s' = base_at s"
proof -
  obtain s1 where s1: "morecore nu s = Some (Inr (freep s1, s1))"
    "heap_ok s1 (insert_block (brk s, chunk nu) fl) A" "freep s1 \<noteq> 0" "\<And>a. a \<in> A \<Longrightarrow> h_size s1 a = h_size s a"
    "brk s1 = brk s + HDR * chunk nu" "grants s1 = gs" "base_at s1 = base_at s"
    using morecore_spec [OF ok fits] gs by (metis list.inject)
  have "\<exists>c \<in> set (insert_block (brk s, chunk nu) fl). nu \<le> snd c"
    by (rule insert_block_big) (simp add: chunk_def)
  from malloc_fits [OF s1(2) nu this] obtain b s' fl' where b:
    "malloc_loop nu (freep s1) (h_ptr s1 (freep s1)) s1 = Some (Inr (b + HDR, s'))"
    "allocated s1 nu A s' b (insert_block (brk s, chunk nu) fl) fl'" .
  have "malloc_loop nu (freep s) (h_ptr s (freep s)) s = malloc_grow nu s" by (rule search_fails [OF ok small nu])
  also have "\<dots> = Some (Inr (b + HDR, s'))" using s1(1,3) b(1) by (simp add: malloc_grow_def)
  finally show ?thesis
    by (rule that [of b s' fl']) (use b(2) s1 in \<open>simp_all add: allocated_def\<close>)
qed

section \<open>Properties\<close>

text \<open>The outcomes of \<^verbatim>\<open>malloc\<close>.\<close>

lemma malloc_cases:
  assumes h: "heap s fl A" and fi: "fits nbytes s"
  obtains
    (null) s' where "malloc nbytes s = Some (Inr (0, s'))" "\<not> (\<exists>c \<in> set fl. units_of nbytes \<le> snd c)"
      "\<not> (\<exists>gs. grants s = True # gs)" "heap s' fl A" "\<And>a. a \<in> A \<Longrightarrow> h_size s' a = h_size s a" "brk s' = brk s"
  | (new) b s' fl' where "malloc nbytes s = Some (Inr (b + HDR, s'))" "heap s' fl' (insert b A)" "b \<notin> A"
      "h_size s' b = units_of nbytes" "nbytes \<le> HDR * (units_of nbytes - 1)" "\<And>a. a \<in> A \<Longrightarrow> h_size s' a = h_size s a"
      "base_at s' = base_at s"
      "if \<exists>c \<in> set fl. units_of nbytes \<le> snd c then insert_block (b, units_of nbytes) fl' = fl \<and> brk s' = brk s
       else insert_block (b, units_of nbytes) fl' = insert_block (brk s, chunk (units_of nbytes)) fl \<and>
         brk s' = brk s + HDR * chunk (units_of nbytes)"
proof -
  let ?nu = "units_of nbytes" and ?s = "start_heap s"
  note st = start_heap_ok [OF h]
  have nu: "0 < ?nu" "nbytes \<le> HDR * (?nu - 1)" using units_of_enough [of nbytes] fi by (simp_all add: fits_def)
  have lim: "brk ?s + HDR * chunk ?nu < 2 ^ 31" using fi st(3) by (simp add: fits_def)
  note eq = malloc_start [of nbytes s]
  show ?thesis
  proof (cases "\<exists>c \<in> set fl. ?nu \<le> snd c")
    case True
    from malloc_fits [OF st(1) nu(1) True] obtain b s' fl' where
      b: "malloc nbytes s = Some (Inr (b + HDR, s'))" "allocated ?s ?nu A s' b fl fl'"
      unfolding eq [symmetric] .
    show ?thesis
      by (rule new [OF b(1), of fl']) (use b(2) True nu(2) st in \<open>auto simp: allocated_def heap_def\<close>)
  next
    case small: False
    show ?thesis
    proof (cases "\<exists>gs. grants s = True # gs")
      case True
      then obtain gs where "grants ?s = True # gs" using st(5) by auto
      from malloc_granted [OF st(1) lim small this nu(1)] obtain b s' fl' where
        b: "malloc nbytes s = Some (Inr (b + HDR, s'))" "heap_ok s' fl' (insert b A)" "h_size s' b = ?nu" "b \<notin> A"
        "\<And>a. a \<in> A \<Longrightarrow> h_size s' a = h_size ?s a" "insert_block (b, ?nu) fl' = insert_block (brk ?s, chunk ?nu) fl"
        "brk s' = brk ?s + HDR * chunk ?nu" "base_at s' = base_at ?s"
        unfolding eq [symmetric] by metis
      show ?thesis
        by (rule new [OF b(1), of fl']) (use b small nu(2) st in \<open>simp_all add: heap_def\<close>)
    next
      case no: False
      let ?s' = "?s\<lparr>grants := tl (grants ?s)\<rparr>"
      have "malloc nbytes s = Some (Inr (0, ?s'))"
        unfolding eq by (rule malloc_refused [OF st(1) lim small _ nu(1)]) (use no st(5) in simp)
      moreover have "heap_ok ?s' fl A" using st(1) by (simp add: heap_ok_def free_blocks_def)
      ultimately show ?thesis using small no st(2,3) by (intro null [of ?s']) (simp_all add: heap_def)
    qed
  qed
qed

text \<open>C38: As long as the request and the memory stay below 2 GB, \<^verbatim>\<open>malloc\<close> returns. The null pointer means that no free block is large enough
  and the kernel refused more memory, and nothing has changed. Any other pointer is behind the header of a new block of the right number of units;
  the blocks in use keep their sizes, all blocks stay apart, and the free list is the one which gives the old list, or the old list with
  a new chunk when no block was large enough, if the new block is put back.\<close>

lemma malloc_allocates:
  assumes h: "heap s fl A" and fi: "fits nbytes s"
  defines "nu \<equiv> units_of nbytes" and "big \<equiv> \<exists>c \<in> set fl. units_of nbytes \<le> snd c"
  shows "\<exists>p s'. malloc nbytes s = Some (Inr (p, s')) \<and>
    (if p = 0 then \<not> big \<and> \<not> (\<exists>gs. grants s = True # gs) \<and> heap s' fl A \<and> (\<forall>a \<in> A. h_size s' a = h_size s a) \<and> brk s' = brk s
     else \<exists>b fl'. p = b + HDR \<and> heap s' fl' (insert b A) \<and> b \<notin> A \<and> h_size s' b = nu \<and> nbytes \<le> HDR * (nu - 1) \<and>
       (\<forall>a \<in> A. h_size s' a = h_size s a) \<and>
       insert_block (b, nu) fl' = (if big then fl else insert_block (brk s, chunk nu) fl) \<and>
       brk s' = (if big then brk s else brk s + HDR * chunk nu))"
using h fi
proof (cases rule: malloc_cases)
  case (null s')
  then show ?thesis by (intro exI [of _ 0] exI [of _ s']) (simp add: big_def)
next
  case (new b s' fl')
  then show ?thesis
    by (intro exI [of _ "b + HDR"] exI [of _ s']) (auto simp: HDR_def big_def nu_def split: if_splits)
qed

lemma free_returns_block:
  assumes "heap s fl A" and "a \<in> A"
  shows "\<exists>s'. free (a + HDR) s = Some s' \<and> heap s' (insert_block (a, h_size s a) fl) (A - {a}) \<and>
    (\<forall>b \<in> A - {a}. h_size s' b = h_size s b) \<and> brk s' = brk s"
proof -
  have ok: "heap_ok s fl A" using assms by (auto simp: heap_def)
  have a: "0 < h_size s a" "used s a \<subseteq> {base_at s + HDR..<brk s}" "used s a \<inter> bytes_of fl = {}"
    using ok assms(2) by (auto simp: heap_ok_def)
  have dj: "used s b \<inter> used s a = {}" if "b \<in> A - {a}" for b
    using ok assms(2) that by (auto simp: heap_ok_def)
  show ?thesis
    by (rule free_inserts [OF ok refl a, of "A - {a}"]) (use dj in \<open>auto simp: heap_def\<close>)
qed

lemma malloc_free_roundtrip:
  assumes "heap s fl A" and "fits nbytes s" and "\<exists>c \<in> set fl. units_of nbytes \<le> snd c"
  shows "\<exists>p s' s''. malloc nbytes s = Some (Inr (p, s')) \<and> p \<noteq> 0 \<and> free p s' = Some s'' \<and> heap s'' fl A \<and>
    (\<forall>a \<in> A. h_size s'' a = h_size s a)"
proof -
  obtain b s' fl' where
    m: "malloc nbytes s = Some (Inr (b + HDR, s'))" "heap s' fl' (insert b A)" "b \<notin> A" "h_size s' b = units_of nbytes"
      "insert_block (b, units_of nbytes) fl' = fl" "\<forall>a \<in> A. h_size s' a = h_size s a"
    by (cases rule: malloc_cases [OF assms(1,2)]) (use assms(3) in auto)
  from free_returns_block [OF m(2), of b] m(3,4,5) obtain s'' where
    "free (b + HDR) s' = Some s''" "heap s'' fl A" "\<forall>a \<in> A. h_size s'' a = h_size s' a"
    by auto
  with m(1,6) show ?thesis by (intro exI [of _ "b + HDR"] exI [of _ s'] exI [of _ s'']) (simp add: HDR_def)
qed

section \<open>A program that allocates and frees\<close>

text \<open>
  The calls of a program in any order; \<open>L\<close> holds the pointers it has not freed yet, with the sizes it asked for. It frees
  only such pointers, and its requests fit.
\<close>

inductive heap_step :: "umem \<times> (nat \<rightharpoonup> nat) \<Rightarrow> umem \<times> (nat \<rightharpoonup> nat) \<Rightarrow> bool" where
  allocates: "fits n s \<Longrightarrow> malloc n s = Some (Inr (p, s')) \<Longrightarrow> p \<noteq> 0 \<Longrightarrow> heap_step (s, L) (s', L(p \<mapsto> n))"
| fails: "fits n s \<Longrightarrow> malloc n s = Some (Inr (0, s')) \<Longrightarrow> heap_step (s, L) (s', L)"
| frees: "p \<in> dom L \<Longrightarrow> free p s = Some s' \<Longrightarrow> heap_step (s, L) (s', L(p := None))"

definition heap_init :: "umem \<times> (nat \<rightharpoonup> nat) \<Rightarrow> bool" where
  "heap_init m \<longleftrightarrow> heap (fst m) [] {} \<and> snd m = Map.empty"

definition headers :: "(nat \<rightharpoonup> nat) \<Rightarrow> nat set" where
  "headers L = {a. a + HDR \<in> dom L}"

definition heap_inv :: "umem \<times> (nat \<rightharpoonup> nat) \<Rightarrow> bool" where
  "heap_inv m \<longleftrightarrow>
     (\<exists>fl. heap (fst m) fl (headers (snd m))) \<and>
     (\<forall>p n. snd m p = Some n \<longrightarrow> HDR \<le> p \<and> n \<le> HDR * (h_size (fst m) (p - HDR) - 1))"

lemma headers_simps [simp]:
  "headers Map.empty = {}" "headers (L(a + HDR \<mapsto> n)) = insert a (headers L)" "headers (L(a + HDR := None)) = headers L - {a}"
  by (auto simp: headers_def)

lemma heap_inv_step:
  assumes "heap_inv m" and "heap_step m m'"
  shows "heap_inv m'"
  using assms(2,1)
proof (cases rule: heap_step.cases)
  case (allocates n s p s' L)
  with assms(1) obtain fl where h: "heap s fl (headers L)"
    and L: "\<And>p n. L p = Some n \<Longrightarrow> HDR \<le> p \<and> n \<le> HDR * (h_size s (p - HDR) - 1)"
    by (auto simp: heap_inv_def)
  obtain b fl' where
    b: "p = b + HDR" "heap s' fl' (insert b (headers L))" "h_size s' b = units_of n" "n \<le> HDR * (units_of n - 1)"
      "\<And>a. a \<in> headers L \<Longrightarrow> h_size s' a = h_size s a"
    by (cases rule: malloc_cases [OF h allocates(3)]) (use allocates(4,5) in auto)
  have "h_size s' (q - HDR) = h_size s (q - HDR)" if "L q = Some k" for q k
    using L [OF that] that by (intro b(5)) (auto simp: headers_def)
  then show ?thesis using b L unfolding heap_inv_def allocates(2)
    by (auto intro!: exI [of _ fl'])
next
  case (fails n s s' L)
  with assms(1) obtain fl where h: "heap s fl (headers L)"
    and L: "\<And>p n. L p = Some n \<Longrightarrow> HDR \<le> p \<and> n \<le> HDR * (h_size s (p - HDR) - 1)"
    by (auto simp: heap_inv_def)
  have b: "heap s' fl (headers L)" "\<And>a. a \<in> headers L \<Longrightarrow> h_size s' a = h_size s a"
    by (cases rule: malloc_cases [OF h fails(3)]; use fails(4) in \<open>auto simp: HDR_def\<close>)+
  have "h_size s' (q - HDR) = h_size s (q - HDR)" if "L q = Some k" for q k
    using L [OF that] that by (intro b(2)) (auto simp: headers_def)
  then show ?thesis using b L unfolding heap_inv_def fails(2)
    by (auto intro!: exI [of _ fl])
next
  case (frees p L s s')
  with assms(1) obtain fl where h: "heap s fl (headers L)"
    and L: "\<And>p n. L p = Some n \<Longrightarrow> HDR \<le> p \<and> n \<le> HDR * (h_size s (p - HDR) - 1)"
    by (auto simp: heap_inv_def)
  from frees(3) L obtain a where a: "p = a + HDR" by (metis domD le_add_diff_inverse2)
  then have "a \<in> headers L" using frees(3) by (simp add: headers_def)
  from free_returns_block [OF h this] frees(4) a have
    b: "heap s' (insert_block (a, h_size s a) fl) (headers L - {a})"
      "\<And>b. b \<in> headers L - {a} \<Longrightarrow> h_size s' b = h_size s b"
    by auto
  have "h_size s' (q - HDR) = h_size s (q - HDR)" if "L q = Some k" "q \<noteq> p" for q k
    using L [OF that(1)] that a by (intro b(2)) (auto simp: headers_def)
  then show ?thesis using b(1) L a unfolding heap_inv_def frees(2)
    by auto
qed

interpretation heap_machine: invariant_system heap_init heap_step heap_inv
  by unfold_locales (simp add: heap_init_def heap_inv_def, blast, rule heap_inv_step)

lemma live_block_facts:
  assumes "heap_init m" and "heap_step\<^sup>*\<^sup>* m m'" and "snd m' p = Some n"
  shows "base_at (fst m') + 2 * HDR \<le> p" and "p + n \<le> brk (fst m')" and "\<exists>s'. free p (fst m') = Some s'"
    and "snd m' q = Some k \<Longrightarrow> p \<noteq> q \<Longrightarrow> {p..<p + n} \<inter> {q..<q + k} = {}"
proof -
  have "heap_inv m'" using heap_machine.reachable_inv [OF assms(1,2)] .
  then obtain fl where h: "heap (fst m') fl (headers (snd m'))"
    and L: "\<And>p n. snd m' p = Some n \<Longrightarrow> HDR \<le> p \<and> n \<le> HDR * (h_size (fst m') (p - HDR) - 1)"
    by (auto simp: heap_inv_def)
  have at: "p - HDR \<in> headers (snd m')" if "snd m' p = Some n" for p n
    using L [OF that] that by (auto simp: headers_def)
  have ok: "heap_ok (fst m') fl (headers (snd m'))" using h at [OF assms(3)] by (auto simp: heap_def)
  have inside: "{p..<p + n} \<subseteq> used (fst m') (p - HDR) \<and> 0 < h_size (fst m') (p - HDR) \<and> p + n \<le> p - HDR + HDR * h_size (fst m') (p - HDR)"
    if "snd m' p = Some n" for p n
  proof -
    have "0 < h_size (fst m') (p - HDR)" using ok at [OF that] by (auto simp: heap_ok_def)
    then show ?thesis using L [OF that] by (auto simp: blk_def HDR_def)
  qed
  have rng: "used (fst m') (p - HDR) \<subseteq> {base_at (fst m') + HDR..<brk (fst m')}"
    using ok at [OF assms(3)] by (auto simp: heap_ok_def)
  with inside [OF assms(3)] L [OF assms(3)]
  show "base_at (fst m') + 2 * HDR \<le> p" "p + n \<le> brk (fst m')" by (auto simp: blk_range)
  show "\<exists>s'. free p (fst m') = Some s'"
    using free_returns_block [OF h at [OF assms(3)]] L [OF assms(3)] by auto
  show "{p..<p + n} \<inter> {q..<q + k} = {}" if q: "snd m' q = Some k" "p \<noteq> q"
  proof -
    have "p - HDR \<noteq> q - HDR" using L [OF assms(3)] L [OF q(1)] q(2) by auto
    then have "used (fst m') (p - HDR) \<inter> used (fst m') (q - HDR) = {}"
      using ok at [OF assms(3)] at [OF q(1)] by (auto simp: heap_ok_def)
    with inside [OF assms(3)] inside [OF q(1)] show ?thesis by blast
  qed
qed

text \<open>C39: In every program whose requests fit and which only frees pointers that it got from \<^verbatim>\<open>malloc\<close> and has not freed yet, a block in use
  lies between the anchor of the list and the break, is apart from every other block in use over the whole length that was asked for, and can be freed:
  the search of \<^verbatim>\<open>free\<close> ends.\<close>

lemma live_blocks_apart:
  assumes "heap_init m" and "heap_step\<^sup>*\<^sup>* m m'" and "snd m' p = Some n"
  shows "base_at (fst m') + 2 * HDR \<le> p \<and> p + n \<le> brk (fst m') \<and> (\<exists>s'. free p (fst m') = Some s') \<and>
    (\<forall>q k. snd m' q = Some k \<longrightarrow> p \<noteq> q \<longrightarrow> {p..<p + n} \<inter> {q..<q + k} = {})"
  using live_block_facts [OF assms] by blast

section \<open>Requests of four gigabytes\<close>

lemma units_of_huge:
  assumes "4294967281 \<le> nbytes" and "nbytes < 4294967296"
  shows "units_of nbytes = 268435457"
proof -
  have "(nbytes + 15) div 16 = 268435456" by (rule div_nat_eqI) (use assms in simp_all)
  then show ?thesis by (simp add: units_of_def HDR_def u32_def)
qed

lemma sbrk_huge:
  assumes "grants s = True # gs" and "brk s + HDR < 2 ^ 31"
  shows "sbrk (int_of_u32 (u32 (268435457 * HDR))) s = (brk s, s\<lparr>grants := gs, brk := brk s + HDR\<rparr>)"
  using sbrk_grow [of s HDR] assms by (simp add: HDR_def u32_def)

text \<open>C40: A request of 4294967281 bytes or more wraps to 16 bytes when \<^verbatim>\<open>morecore\<close> passes its size to \<^verbatim>\<open>sbrk\<close> as an \<^verbatim>\<open>int\<close>: \<^verbatim>\<open>malloc\<close>
  succeeds, the process has grown by one header, and the pointer is the new break, so that no byte of the block belongs to the process.\<close>

lemma malloc_huge_unbacked:
  assumes "freep s = 0" and "0 < base_at s" and "base_at s + HDR \<le> brk s" and "brk s + HDR < 2 ^ 31"
    and "grants s = True # gs" and "4294967281 \<le> nbytes" and "nbytes < 4294967296"
  shows "\<exists>s'. malloc nbytes s = Some (Inr (brk s + HDR, s')) \<and> brk s' = brk s + HDR"
proof -
  let ?B = "base_at s" and ?nu = "268435457 :: nat"
  let ?s1 = "(set_size ?B 0 (set_ptr ?B ?B s))\<lparr>freep := ?B\<rparr>"
  let ?s2 = "set_size (brk s) ?nu (?s1\<lparr>grants := gs, brk := brk s + HDR\<rparr>)"
  let ?s3 = "(set_ptr ?B (brk s) (set_ptr (brk s) ?B ?s2))\<lparr>freep := ?B\<rparr>"
  have lt: "?B < brk s" "brk s \<noteq> ?B" using assms(3) by (simp_all add: HDR_def)
  have "free_loop (brk s) ?B ?s2 = Some ?B" using lt by (subst free_loop.simps) simp
  moreover have "free_link (brk s) ?B ?s2 = ?s3"
    using lt assms(4) by (simp add: free_link_def Let_def hdr_add_def u64_def HDR_def)
  ultimately have fr: "free (brk s + HDR) ?s2 = Some ?s3" by (simp add: free_def Let_def)
  have "\<not> PGROUNDUP (brk s + HDR) < brk s + HDR" using PGROUNDUP_le [of "brk s + HDR"] assms(4) by simp
  then have mc: "morecore ?nu ?s1 = Some (Inr (?B, ?s3))"
    using sbrk_huge [of ?s1 gs] assms(4,5) fr
    unfolding morecore_def Let_def by (simp add: SBRK_FAILED_def)
  have "malloc nbytes s = malloc_loop ?nu ?B ?B ?s1"
    using assms(1) lt by (simp add: malloc_def units_of_huge [OF assms(6,7)])
  also have "\<dots> = malloc_loop ?nu ?B (brk s) ?s3"
    using mc assms(2) lt by (subst malloc_loop.simps) simp
  also have "\<dots> = Some (Inr (malloc_take ?nu ?B (brk s) ?s3))"
    using lt by (subst malloc_loop.simps) simp
  finally show ?thesis using lt by (simp add: malloc_take_def)
qed

section \<open>Examples\<close>

definition demo_umem :: umem where
  "demo_umem = \<lparr>h_ptr = (\<lambda>_. 0), h_size = (\<lambda>_. 0), base_at = 4096, freep = 0, brk = 16384, grants = [True]\<rparr>"

lemma demo_heap: "heap demo_umem [] {}"
  by (simp add: heap_def demo_umem_def HDR_def)

lemma demo_fits: "fits 100 demo_umem"
  by (simp add: fits_def demo_umem_def units_of_def HDR_def u32_def chunk_def)

lemma malloc_allocates_witness: "\<exists>p s'. malloc 100 demo_umem = Some (Inr (p, s')) \<and> p \<noteq> 0 \<and> brk s' = 81920"
proof -
  have "grants demo_umem = [True]" "brk demo_umem = 16384" "units_of 100 = 8"
    by (simp_all add: demo_umem_def units_of_def HDR_def u32_def)
  with malloc_allocates [OF demo_heap demo_fits] show ?thesis
    by (auto simp: chunk_def HDR_def split: if_splits)
qed

lemma live_blocks_apart_witness:
  "\<exists>m p. heap_step\<^sup>*\<^sup>* (demo_umem, Map.empty) m \<and> snd m p = Some 100 \<and> 4128 \<le> p \<and> p + 100 \<le> brk (fst m)"
proof -
  have g: "grants demo_umem = [True]" "base_at demo_umem = 4096" by (simp_all add: demo_umem_def)
  obtain p s' where m: "malloc 100 demo_umem = Some (Inr (p, s'))" "p \<noteq> 0" and b: "base_at s' = 4096"
    by (cases rule: malloc_cases [OF demo_heap demo_fits]) (use g in \<open>auto simp: HDR_def\<close>)
  have st: "heap_step\<^sup>*\<^sup>* (demo_umem, Map.empty) (s', [p \<mapsto> 100])"
    using heap_step.allocates [OF demo_fits m] by blast
  have "heap_init (demo_umem, Map.empty)" using demo_heap by (simp add: heap_init_def)
  note live = live_blocks_apart [OF this st, of p 100]
  with st b show ?thesis by (intro exI [of _ "(s', [p \<mapsto> 100])"] exI [of _ p]) (simp add: HDR_def)
qed

lemma malloc_huge_unbacked_witness:
  "\<exists>s'. malloc 4294967295 demo_umem = Some (Inr (16400, s')) \<and> brk s' = 16400"
  using malloc_huge_unbacked [of demo_umem "[]" 4294967295] by (simp add: demo_umem_def HDR_def)

section \<open>The system call behind sbrk\<close>

lemma kalloc_more: "kalloc s = (r, s') \<Longrightarrow> mstate.more s' = mstate.more s"
  by (auto simp: kalloc_def Let_def)

lemma walk_loop_more: "walk_loop level pt va alloc s = (r, s') \<Longrightarrow> mstate.more s' = mstate.more s"
proof (induction level arbitrary: pt s)
  case (Suc level)
  then show ?case
    by (auto simp: Let_def set_pte_def split: if_splits prod.splits dest!: kalloc_more)
qed simp

lemma walk_more: "walk pt va alloc s = Inr (r, s') \<Longrightarrow> mstate.more s' = mstate.more s"
  by (auto simp: walk_def walk_loop_more split: if_splits)

lemma mappages_loop_more:
  "mappages_loop pt a lst pa perm s = Inr (r, s') \<Longrightarrow> mstate.more s' = mstate.more s"
proof (induction "MAXVA - a" arbitrary: a pa s rule: less_induct)
  case less
  from less.prems have "a < MAXVA"
    by (subst (asm) mappages_loop.simps) (auto simp: bindE_eq_Inr dest: walk_Inr_bound)
  then have "MAXVA - (a + PGSIZE) < MAXVA - a" by (simp add: PGSIZE_def)
  note ih = less.hyps [OF this]
  from less.prems show ?case
    by (subst (asm) mappages_loop.simps)
      (auto simp: bindE_eq_Inr Let_def set_pte_def split: if_splits dest!: walk_more ih)
qed

lemma uvmdealloc_more: "uvmdealloc pt old new s = Inr (r, s') \<Longrightarrow> mstate.more s' = mstate.more s \<and> r = min old new"
  by (auto simp: uvmdealloc_def bindE_eq_Inr Let_def split: if_splits dest!: uvmunmap_more)

lemma uvmalloc_loop_more:
  "uvmalloc_loop pt a old new s = Inr (r, s') \<Longrightarrow> mstate.more s' = mstate.more s \<and> (r = 0 \<or> r = new)"
proof (induction "new - a" arbitrary: a s rule: less_induct)
  case less
  show ?case
  proof (cases "a < new")
    case True
    then have "new - (a + PGSIZE) < new - a" by (simp add: PGSIZE_def)
    note ih = less.hyps [OF this]
    from less.prems show ?thesis
      by (subst (asm) uvmalloc_loop.simps)
        (auto simp: bindE_eq_Inr Let_def mappages_def split: if_splits prod.splits
          dest!: kalloc_more mappages_loop_more kfree_more uvmdealloc_more ih)
  next
    case False
    with less.prems show ?thesis by (subst (asm) uvmalloc_loop.simps) simp
  qed
qed

lemma more_procs:
  assumes "mstate.more (s :: 'a pstate_scheme) = mstate.more t"
  shows "procs s = procs t" and "myproc s = myproc t"
  using assms by (cases s; cases t; simp add: myproc_def)+

text \<open>What \<^verbatim>\<open>sys_sbrk\<close> answers in the kernel is what the allocator sees.\<close>

lemma growproc_brk:
  assumes call: "growproc n s = Inr (r, s')" and sz: "0 < p_sz (procs s (myproc s))" "p_sz (procs s (myproc s)) < 2 ^ 32"
  defines "sz \<equiv> p_sz (procs s (myproc s))" and "new \<equiv> u32_of_int (int (p_sz (procs s (myproc s))) + n)"
  obtains (grown) "r = 0" and "p_sz (procs s' (myproc s')) = (if n > 0 then max sz new else if n < 0 then min sz new else sz)"
  | (failed) "r = -1" and "0 < n" and "sz \<le> new" and "p_sz (procs s' (myproc s')) = sz"
proof -
  have u: "u32 sz = sz" "u32 new = new" using sz by (simp_all add: sz_def new_def u32_def u32_of_int_def)
  consider "0 < n" | "n < 0" | "n = 0" by linarith
  then show ?thesis
  proof cases
    case 1
    then obtain k s1 where k: "uvmalloc (p_pagetable (procs s (myproc s))) sz new s = Inr (k, s1)"
      and res: "(r, s') = (if u32 k = 0 then (-1, s1) else (0, upd_proc (myproc s) (\<lambda>x. x\<lparr>p_sz := u32 k\<rparr>) s1))"
      using call u by (auto simp: growproc_def Let_def bindE_eq_Inr sz_def new_def split: if_splits)
    have m: "mstate.more s1 = mstate.more s" and kv: "k = 0 \<and> sz \<le> new \<or> k = max sz new"
      using k by (auto simp: uvmalloc_def split: if_splits dest!: uvmalloc_loop_more)
    note mp = more_procs [OF m]
    have "0 < sz" "u32 (max sz new) = max sz new" using sz u by (auto simp: sz_def max_def)
    moreover from kv show ?thesis
    proof
      assume "k = 0 \<and> sz \<le> new"
      then show ?thesis using res 1 mp by (intro failed) (auto simp: sz_def u32_def)
    next
      assume "k = max sz new"
      with res calculation have "r = 0" "s' = upd_proc (myproc s) (\<lambda>x. x\<lparr>p_sz := max sz new\<rparr>) s1" by simp_all
      then show ?thesis using 1 mp by (intro grown) simp_all
    qed
  next
    case 2
    then obtain k s1 where k: "uvmdealloc (p_pagetable (procs s (myproc s))) sz new s = Inr (k, s1)"
      and res: "(r, s') = (0, upd_proc (myproc s) (\<lambda>x. x\<lparr>p_sz := u32 k\<rparr>) s1)"
      using call u by (auto simp: growproc_def Let_def bindE_eq_Inr sz_def new_def)
    from uvmdealloc_more [OF k] have m: "mstate.more s1 = mstate.more s" and "k = min sz new" by auto
    then have "u32 k = min sz new" using u by (auto simp: min_def)
    with res 2 more_procs [OF m] show ?thesis by (intro grown) (auto simp: upd_proc_def myproc_def)
  next
    case 3
    with call u show ?thesis by (intro grown) (auto simp: growproc_def Let_def upd_proc_def myproc_def sz_def)
  qed
qed

lemma sbrk_is_sys_sbrk:
  fixes s :: "'a fstate_scheme"
  assumes call: "sys_sbrk s = Inr (r, s')" and n: "argint 0 s = Inr n"
    and sz: "0 < p_sz (procs s (myproc s))" "p_sz (procs s (myproc s)) < 2 ^ 32"
    and m: "brk m = p_sz (procs s (myproc s))"
  shows "\<exists>g m'. sbrk n (m\<lparr>grants := [g]\<rparr>) = (u64_of_int r, m') \<and> brk m' = p_sz (procs s' (myproc s'))"
proof -
  obtain r1 where g: "growproc n s = Inr (r1, s')"
    and r: "r = (if r1 < 0 then -1 else int_of_u32 (u32 (brk m)))"
    using call n m by (auto simp: sys_sbrk_def Let_def bindE_eq_Inr split: if_splits)
  have u: "u32 (brk m) = brk m" using m sz by (simp add: u32_def)
  from g sz show ?thesis
  proof (cases rule: growproc_brk)
    case grown
    then show ?thesis using r u m
      by (intro exI [of _ True]) (auto simp: sbrk_def Let_def)
  next
    case failed
    then show ?thesis using r m
      by (intro exI [of _ False]) (auto simp: sbrk_def Let_def SBRK_FAILED_def u64_of_int_def)
  qed
qed

end
