(* ===== verification/Spec2Isabelle.thy ===== *)
theory Spec2Isabelle
  imports CStrings ListHead ThreadsSched Vm Txn Syscall Sched Dir Console Virtio Ulib Grep ShellPrint ShellRun MkfsProofs UmallocProofs
begin

text \<open>
  Verification of the xv6 kernel extensions: a RISC-V xv6 kernel whose file system mirrors its blocks on two
  disks (RAID 1), follows symbolic links and checks permissions (\<^verbatim>\<open>FileSystem-RAID/kernel\<close>), a set of thread schedulers
  (\<^verbatim>\<open>Threading-Scheduler/threads_sched.c\<close>), the linked lists of a kernel memory project
  (\<^verbatim>\<open>Kernel-Memory/kernel/list.h\<close>), the program that builds the file system image (\<^verbatim>\<open>FileSystem-RAID/mkfs\<close>), and
  programs that run on the kernel (\<^verbatim>\<open>FileSystem-RAID/user\<close>).

  \<^bold>\<open>How the program is put together.\<close> A trap enters \<^verbatim>\<open>usertrap\<close>, which dispatches a system call through \<^verbatim>\<open>syscall\<close> to
  \<^verbatim>\<open>sysfile.c\<close> or \<^verbatim>\<open>sysproc.c\<close>. The file calls work on open files (\<^verbatim>\<open>file.c\<close>), which are pipes, devices or inodes.
  Inodes, directories and the free map (\<^verbatim>\<open>fs.c\<close>) live in disk blocks, which are changed only through the buffer cache
  (\<^verbatim>\<open>bio.c\<close>) inside a transaction of the write-ahead log (\<^verbatim>\<open>log.c\<close>). The cache mirrors each block write on two
  disks and redirects reads when a failure is simulated. The process calls work on the process table (\<^verbatim>\<open>proc.c\<close>),
  on page tables (\<^verbatim>\<open>vm.c\<close>) and on the page allocator (\<^verbatim>\<open>kalloc.c\<close>). Spin locks protect all of it. The file system that the
  kernel mounts is the image of \<^verbatim>\<open>mkfs.c\<close>, which uses the same inode and directory formats; the shell (\<^verbatim>\<open>sh.c\<close>) reads command lines
  and starts programs such as \<^verbatim>\<open>grep.c\<close> through the system calls, on top of the library of \<^verbatim>\<open>ulib.c\<close>.

  \<^bold>\<open>State.\<close> One record is extended layer by layer, so that a routine of a lower layer applies to the state of
  every higher one: \<open>mstate\<close> (memory and the free pages), \<open>bstate\<close> (disk, buffers, failure flags, the lines \<^verbatim>\<open>bwrite\<close>
  prints), \<open>lstate\<close> (the log), \<open>pstate\<close> (processes, CPUs), \<open>istate\<close> (super block, inode cache), \<open>pipestate\<close>, \<open>fstate\<close> (open
  files). Pointers into a table are indices; memory and block contents are functions from offsets to bytes. A routine
  returns \<open>Inr\<close> of its results and the new state, or \<open>Inl\<close> of a panic with the message of the source, of a call that
  has to sleep, or of a step that C leaves undefined. The integers of C are natural numbers or integers with the
  wrap-around of their width written out (\<open>u32\<close>, \<open>u64\<close>, \<open>short\<close>); bytes are 8-bit words.

  \<^bold>\<open>The theories.\<close>
  \<^item> Prelude: errors, the sum monad, C integers, little-endian fields of byte arrays.
  \<^item> CStrings (\<^verbatim>\<open>string.c\<close>): the loops of every routine against their closed forms; \<^verbatim>\<open>memmove\<close> under overlap,
    termination of \<^verbatim>\<open>strlen\<close> and of the strings \<^verbatim>\<open>safestrcpy\<close> leaves.
  \<^item> ListHead (\<^verbatim>\<open>list.h\<close>): pointer assignments on a heap; every routine is a list operation on the circle it changes.
    Bio uses the same predicate for its LRU list.
  \<^item> ThreadsSched (\<^verbatim>\<open>threads_sched.c\<close>): the five schedulers. The locale \<open>best_of\<close> is the contract of the selection loops; the
    properties say which thread each scheduler runs, that round robin is fair, that EDF with CBS terminates and
    respects throttling, and exactly when \<^verbatim>\<open>schedule_dm\<close> runs a thread past a more urgent arrival.
  \<^item> Kalloc (\<^verbatim>\<open>kalloc.c\<close>): the free list inside the free pages. Vm (\<^verbatim>\<open>vm.c\<close>, \<^verbatim>\<open>riscv.h\<close>): page tables in memory;
    \<^verbatim>\<open>mappages\<close> establishes the translation that \<^verbatim>\<open>walkaddr\<close> reads.
  \<^item> Locks (\<^verbatim>\<open>spinlock.c\<close>, \<^verbatim>\<open>sleeplock.c\<close>): the routines of each CPU, their interleavings, mutual exclusion. The locale
    \<open>invariant_system\<close> is the contract between a machine and its invariant; it is interpreted for the lock machine, for crashes
    of the log, for the scheduler and for the disk driver.
  \<^item> Bio (\<^verbatim>\<open>bio.c\<close>): the cache with its LRU list, and mirrored blocks. \<open>binv\<close> is the invariant of the cache, \<open>view\<close> the contents
    of a block as the kernel sees it. The locale \<open>redundant_store\<close> is the contract of mirroring.
  \<^item> Log (\<^verbatim>\<open>log.c\<close>), RedoLog, Txn: the log, its abstraction to sequences of block writes, and the inside of a transaction.
    \<^verbatim>\<open>commit\<close> is atomic under every crash, also of recovery itself (cut anywhere in the writes that \<^verbatim>\<open>recover_from_log\<close> makes), and
    under single disk failures; recovery leaks buffers.
  \<^item> Proc, Process (\<^verbatim>\<open>proc.c\<close>, \<^verbatim>\<open>proc.h\<close>, \<^verbatim>\<open>exec.c\<close>): the process table, fork, exit, wait, exec. Sched: CPUs that dispatch and
    give up processes, in every interleaving; a process is on one CPU at most.
  \<^item> Fs (\<^verbatim>\<open>fs.c\<close>): every routine. FreeMap: the free map and block allocation. InodeDisk: inodes on disk and in the cache.
    FileData, FileWrite: a file as a byte sequence; \<^verbatim>\<open>readi\<close> and \<^verbatim>\<open>writei\<close> refine reading and overwriting it, with the
    blocks that are added to the transaction counted; the transactions of \<^verbatim>\<open>filewrite\<close> fit what \<^verbatim>\<open>begin_op\<close> reserves. Dir: a directory as a list of entries, paths.
  \<^item> Pipe (\<^verbatim>\<open>pipe.c\<close>): the ring with wrapping counters implements the locale \<open>bounded_fifo\<close>. File (\<^verbatim>\<open>file.c\<close>), Sysfile
    (\<^verbatim>\<open>sysfile.c\<close>, arguments of \<^verbatim>\<open>syscall.c\<close>), Syscall (\<^verbatim>\<open>syscall.c\<close>, \<^verbatim>\<open>sysproc.c\<close>, \<^verbatim>\<open>trap.c\<close>): open files and the calls;
    descriptors and access control.
  \<^item> Console (\<^verbatim>\<open>console.c\<close>, \<^verbatim>\<open>uart.c\<close>, \<^verbatim>\<open>printf.c\<close>): the console device. Its interrupt handler implements a line editor; printed
    numbers denote their value. Virtio (\<^verbatim>\<open>virtio_disk.c\<close>): descriptors and requests of the disk driver, interleaved with the
    interrupt handler and a device that follows the rings of the virtio specification and reports any status; requests in flight
    own disjoint chains of descriptors, and each is in exactly one place of the rings.
  \<^item> Ulib (\<^verbatim>\<open>ulib.c\<close>): the loops of the user library on strings in memory. Grep (\<^verbatim>\<open>grep.c\<close>): the matcher decides the language
    its comments describe, and the reading loop prints the matching lines however the input is cut into reads.
  \<^item> Shell, ShellPrint, ShellRun (\<^verbatim>\<open>sh.c\<close>): tokens and the recursive descent parser with the grammar it follows; the parser
    reads back every printed command, returns on every line, and its words stay intact when they are terminated in place;
    \<^verbatim>\<open>runcmd\<close> starts each program of a command with the standard input and output that the command describes.
  \<^item> Mkfs, MkfsProofs (\<^verbatim>\<open>mkfs.c\<close>): the image builder. The image has a super block, a free map, and inodes and directories that agree
    with the kernel's formats; \<^verbatim>\<open>iappend\<close> appends; the mirror half of the image stays empty.
  \<^item> Umalloc, UmallocProofs (\<^verbatim>\<open>umalloc.c\<close>): the circular free list in the memory of a process. \<^verbatim>\<open>malloc\<close> and \<^verbatim>\<open>free\<close> return; in every
    program that frees what it has allocated, the blocks in use are apart; a request near 4 GB gets a block outside the process.

  \<^bold>\<open>Atomicity.\<close> The interleavings of CPUs are modelled where the code depends on them: for spin locks, for the
  scheduler and for the disk driver. Elsewhere a routine that holds the lock of its data runs as one step. A call that sleeps either yields \<open>Sleep\<close>
  (log space, locks held by others) or returns the point at which it continues (pipes, \<^verbatim>\<open>wait\<close>, \<^verbatim>\<open>sys_sleep\<close>), and the resumption
  is a definition of its own. A crash cuts the sequence of block writes at any point; a block write is atomic.

  \<^bold>\<open>Bounds and fuel.\<close> Loops of the source are structural recursions or have termination proofs. Three recursions take
  a bound: \<open>freewalk\<close> the three levels of a page table; \<open>list_for_each\<close> a number of turns, and any number above the length
  of the list gives the result; and \<open>namex_loop\<close> the depth 16 (\<open>NAMEX_DEPTH\<close>) for symbolic links inside links, as \<^verbatim>\<open>namex\<close> itself calls
  itself without bound, on a kernel stack of one page. \<open>Fuel\<close> is the result beyond these depths; no property says
  that a call returns where the bound could be reached. \<^verbatim>\<open>strlen\<close> and the loops of Ulib over strings are partial functions
  that return on terminated strings; so are the loops of \<^verbatim>\<open>malloc\<close> and \<^verbatim>\<open>free\<close> around the free list, which return when it is well formed. The parser of the shell takes a depth, and \<^verbatim>\<open>parsecmd\<close> gives it four times the length of
  the line plus four; that this depth is never reached is a property.

  \<^bold>\<open>Not modelled.\<close> The negotiation with the disk, the interrupt controller (\<^verbatim>\<open>plic.c\<close>), \<^verbatim>\<open>ramdisk.c\<close>,
  start-up and the assembly files: they program hardware, and the model of the cache starts where a disk request is the
  transfer of one block (that the driver keeps requests apart is shown separately), and a context switch is the end of one routine and the start of another. Of \<^verbatim>\<open>trap.c\<close>, \<^verbatim>\<open>usertrapret\<close>,
  \<^verbatim>\<open>kerneltrap\<close> and \<^verbatim>\<open>devintr\<close> set control registers only. Linker symbols, the device switch and the trap cause are arguments, and the readings of the serial port are fields of the console's state.
  The user programs that only pass arguments to system calls, or test the kernel, are left out. \<^verbatim>\<open>Kernel-Memory/kernel\<close> is the base kernel that
  \<^verbatim>\<open>FileSystem-RAID/kernel\<close> extends, so its copies are not modelled a second time, and its \<^verbatim>\<open>slab.c\<close> holds stubs.
\<close>

end
